(* ===== verification/Prelude.thy ===== *)
theory Prelude
  imports Main "HOL-Library.Word"
begin

section \<open>Prelude: machine data, kernel computations, proof rules\<close>

text \<open>
  What the components share.
  \<^item> \<^emph>\<open>Faults.\<close> A kernel routine either returns or ends in a \<open>fault\<close>: a call of \<open>panic\<close>
    with its message, a wait that no other thread of control would end (\<open>Blocked\<close>), or an
    access outside an object, which C leaves undefined (\<open>Undef\<close>).
  \<^item> \<^emph>\<open>Kernel computations.\<close> A routine that reads and writes the kernel's state is a function
    \<open>'s \<Rightarrow> fault + 'a \<times> 's\<close>; \<open>bnd\<close> runs one after the other. \<open>wp m Q s\<close> says that \<open>m\<close>,
    started in \<open>s\<close>, returns (it does not fault) with a value and a state that satisfy \<open>Q\<close>.
  \<^item> \<^emph>\<open>Memory objects.\<close> A block or buffer is a function from offsets to bytes; the routines
    check their own bounds where the code could leave the object. \<open>rd16\<close>, \<open>rd32\<close>,
    \<open>wr16\<close>, \<open>wr32\<close> are the little-endian accesses the casts of the code amount to, and
    \<open>blit\<close> is the effect of a copy.
\<close>

unbundle bit_operations_syntax

subsection \<open>Faults and kernel computations\<close>

datatype fault = Panic string | Blocked string | Undef string

type_synonym ('s, 'a) kern = "'s \<Rightarrow> fault + 'a \<times> 's"

definition ret :: "'a \<Rightarrow> ('s, 'a) kern" where
  "ret a = (\<lambda>s. Inr (a, s))"

definition fail :: "fault \<Rightarrow> ('s, 'a) kern" where
  "fail e = (\<lambda>s. Inl e)"

definition panic :: "string \<Rightarrow> ('s, 'a) kern" where
  "panic msg = fail (Panic msg)"

definition bnd :: "('s, 'a) kern \<Rightarrow> ('a \<Rightarrow> ('s, 'b) kern) \<Rightarrow> ('s, 'b) kern" where
  "bnd m f = (\<lambda>s. case m s of Inl e \<Rightarrow> Inl e | Inr (a, s') \<Rightarrow> f a s')"

definition upd :: "('s \<Rightarrow> 's) \<Rightarrow> ('s, unit) kern" where
  "upd f = (\<lambda>s. Inr ((), f s))"

definition gets :: "('s \<Rightarrow> 'a) \<Rightarrow> ('s, 'a) kern" where
  "gets f = (\<lambda>s. Inr (f s, s))"

definition wp :: "('s, 'a) kern \<Rightarrow> ('a \<Rightarrow> 's \<Rightarrow> bool) \<Rightarrow> 's \<Rightarrow> bool" where
  "wp m Q s = (case m s of Inl e \<Rightarrow> False | Inr (a, s') \<Rightarrow> Q a s')"

named_theorems wp_simps \<open>rewrite rules for weakest preconditions\<close>

named_theorems kern_simps \<open>evaluation rules for kernel computations\<close>

lemma ret_run [kern_simps]: "ret a s = Inr (a, s)"
  by (simp add: ret_def)

lemma fail_run [kern_simps]: "fail e s = Inl e"
  by (simp add: fail_def)

lemma panic_run [kern_simps]: "panic m s = Inl (Panic m)"
  by (simp add: panic_def fail_def)

lemma upd_run [kern_simps]: "upd f s = Inr ((), f s)"
  by (simp add: upd_def)

lemma gets_run [kern_simps]: "gets f s = Inr (f s, s)"
  by (simp add: gets_def)

lemma bnd_run: "bnd m f s = (case m s of Inl e \<Rightarrow> Inl e | Inr (a, s') \<Rightarrow> f a s')"
  by (simp add: bnd_def)

lemma bnd_Inr [kern_simps]: "m s = Inr (a, s') \<Longrightarrow> bnd m f s = f a s'"
  by (simp add: bnd_def)

lemma bnd_Inl [kern_simps]: "m s = Inl e \<Longrightarrow> bnd m f s = Inl e"
  by (simp add: bnd_def)

lemma bnd_eq_Inr:
  "bnd m f s = Inr (b, t) \<longleftrightarrow> (\<exists>a u. m s = Inr (a, u) \<and> f a u = Inr (b, t))"
  by (auto simp: bnd_def split: sum.splits prod.splits)

lemma bnd_assoc: "bnd (bnd m f) g = bnd m (\<lambda>a. bnd (f a) g)"
  by (rule ext) (auto simp: bnd_def split: sum.splits prod.splits)

lemma bnd_ret [simp]: "bnd (ret a) f = f a"
  by (rule ext) (simp add: bnd_def ret_def)

text \<open>Weakest preconditions of the primitives.\<close>

lemma wp_ret [wp_simps]: "wp (ret a) Q = Q a"
  by (rule ext) (simp add: wp_def ret_def)

lemma wp_fail [wp_simps]: "wp (fail e) Q = (\<lambda>s. False)"
  by (rule ext) (simp add: wp_def fail_def)

lemma wp_panic [wp_simps]: "wp (panic m) Q = (\<lambda>s. False)"
  by (rule ext) (simp add: wp_def panic_def fail_def)

lemma wp_upd [wp_simps]: "wp (upd f) Q = (\<lambda>s. Q () (f s))"
  by (rule ext) (simp add: wp_def upd_def)

lemma wp_gets [wp_simps]: "wp (gets f) Q = (\<lambda>s. Q (f s) s)"
  by (rule ext) (simp add: wp_def gets_def)

lemma wp_bnd [wp_simps]: "wp (bnd m f) Q = wp m (\<lambda>a. wp (f a) Q)"
  by (rule ext) (auto simp: wp_def bnd_def split: sum.splits prod.splits)

lemma wp_if [wp_simps]: "wp (if c then m else n) Q s = (if c then wp m Q s else wp n Q s)"
  by simp

lemma wp_Inr [wp_simps]: "wp (\<lambda>s. Inr (a s, f s)) Q s = Q (a s) (f s)"
  by (simp add: wp_def)

lemma wp_lam: "wp (\<lambda>s. m s s) Q s = wp (m s) Q s"
  by (simp add: wp_def)

lemma wp_mono: "wp m P s \<Longrightarrow> (\<And>a t. P a t \<Longrightarrow> Q a t) \<Longrightarrow> wp m Q s"
  by (auto simp: wp_def split: sum.splits)

lemma wp_cong_run: "m s = m' s' \<Longrightarrow> wp m Q s = wp m' Q s'"
  by (simp add: wp_def)

lemma wp_iff: "wp m Q s \<longleftrightarrow> (\<exists>a t. m s = Inr (a, t) \<and> Q a t)"
  by (auto simp: wp_def split: sum.splits)

lemma wpE:
  assumes "wp m Q s" obtains a t where "m s = Inr (a, t)" "Q a t"
  using assms by (auto simp: wp_iff)

lemma wp_run: "m s = Inr (a, t) \<Longrightarrow> wp m Q s = Q a t"
  by (simp add: wp_def)

lemma wp_bndI: "wp m P s \<Longrightarrow> (\<And>a t. P a t \<Longrightarrow> wp (f a) Q t) \<Longrightarrow> wp (bnd m f) Q s"
  by (simp add: wp_bnd wp_mono)

lemma wp_gets_bnd: "wp (bnd (gets g) f) Q s = wp (f (g s)) Q s"
  by (simp add: wp_simps)

lemma wp_upd_bnd: "wp (bnd (upd g) f) Q s = wp (f ()) Q (g s)"
  by (simp add: wp_simps)

subsection \<open>Integers\<close>

text \<open>A C \<open>uint\<close> is a \<open>nat\<close> below \<open>2 ^ 32\<close>; \<open>u32\<close> is the wrap-around of its arithmetic.
  A \<open>short\<close> read from memory is \<open>s16\<close> of the two bytes.\<close>

definition u32 :: "nat \<Rightarrow> nat" where
  "u32 n = n mod 4294967296"

definition s16 :: "nat \<Rightarrow> int" where
  "s16 n = (if n < 32768 then int n else int n - 65536)"

definition u16_of :: "int \<Rightarrow> nat" where
  "u16_of i = nat (i mod 65536)"

lemma u32_less [simp]: "u32 n < 4294967296"
  by (simp add: u32_def)

lemma u32_id [simp]: "n < 4294967296 \<Longrightarrow> u32 n = n"
  by (simp add: u32_def)

definition sub32 :: "nat \<Rightarrow> nat \<Rightarrow> nat" where
  "sub32 a b = u32 (a + (4294967296 - b))"

lemma u32_add [simp]: "u32 (u32 a + b) = u32 (a + b)" "u32 (Suc (u32 a)) = u32 (Suc a)"
  by (simp_all add: u32_def mod_simps)

lemma sub32_add: "r < 4294967296 \<Longrightarrow> k < 4294967296 \<Longrightarrow> sub32 (u32 (r + k)) r = k"
  unfolding sub32_def u32_def by (cases "r + k < 4294967296") (auto simp: mod_if)

lemma u32_ne:
  assumes "r < 4294967296" "0 < k" "k < 4294967296"
  shows "u32 (r + k) \<noteq> r"
proof
  assume "u32 (r + k) = r"
  moreover have "sub32 r r = 0" using assms(1) by (simp add: sub32_def u32_def)
  ultimately show False using sub32_add [OF assms(1,3)] assms(2) by simp
qed

lemma u16_of_less [simp]: "u16_of i < 65536"
  by (simp add: u16_of_def nat_less_iff)

lemma s16_u16_of [simp]: "- 32768 \<le> i \<Longrightarrow> i < 32768 \<Longrightarrow> s16 (u16_of i) = i"
proof -
  assume a: "- 32768 \<le> i" "i < 32768"
  have "i mod 65536 = (if 0 \<le> i then i else i + 65536)"
  proof (cases "0 \<le> i")
    case True
    then show ?thesis using a by simp
  next
    case False
    have "(i + 65536) mod 65536 = i + 65536"
      using a False by (intro mod_pos_pos_trivial) auto
    then show ?thesis using False by simp
  qed
  then show ?thesis using a by (auto simp: s16_def u16_of_def)
qed

subsection \<open>Memory objects\<close>

type_synonym byte = "8 word"
type_synonym block = "nat \<Rightarrow> byte"

definition rd16 :: "block \<Rightarrow> nat \<Rightarrow> nat" where
  "rd16 b k = unat (b k) + 256 * unat (b (k + 1))"

definition rd32 :: "block \<Rightarrow> nat \<Rightarrow> nat" where
  "rd32 b k = unat (b k) + 256 * unat (b (k + 1)) + 65536 * unat (b (k + 2))
     + 16777216 * unat (b (k + 3))"

definition wr16 :: "block \<Rightarrow> nat \<Rightarrow> nat \<Rightarrow> block" where
  "wr16 b k v = b(k := word_of_nat v, k + 1 := word_of_nat (v div 256))"

definition wr32 :: "block \<Rightarrow> nat \<Rightarrow> nat \<Rightarrow> block" where
  "wr32 b k v = b(k := word_of_nat v, k + 1 := word_of_nat (v div 256),
     k + 2 := word_of_nat (v div 65536), k + 3 := word_of_nat (v div 16777216))"

definition blit :: "block \<Rightarrow> nat \<Rightarrow> block \<Rightarrow> nat \<Rightarrow> nat \<Rightarrow> block" where
  "blit dst d src k n = (\<lambda>i. if d \<le> i \<and> i < d + n then src (k + (i - d)) else dst i)"

definition fill :: "block \<Rightarrow> nat \<Rightarrow> nat \<Rightarrow> byte \<Rightarrow> block" where
  "fill dst d n c = (\<lambda>i. if d \<le> i \<and> i < d + n then c else dst i)"

lemma unat_byte [simp]: "unat (w :: byte) < 256"
  using unsigned_less [of w] by simp

lemma uint_inj [simp]: "uint (a :: byte) = uint b \<longleftrightarrow> a = b"
  using word_eq_iff_unsigned [of a b] by blast

lemma uint_0 [simp]: "uint (a :: byte) = 0 \<longleftrightarrow> a = 0"
  using uint_inj [of a 0] by simp

lemma unat_byte_of [simp]: "unat (word_of_nat n :: byte) = n mod 256"
  by (simp add: unat_of_nat)

lemma rd16_less [simp]: "rd16 b k < 65536"
  using unat_byte [of "b k"] unat_byte [of "b (k + 1)"] unfolding rd16_def by linarith

lemma rd32_less [simp]: "rd32 b k < 4294967296"
  using unat_byte [of "b k"] unat_byte [of "b (k + 1)"] unat_byte [of "b (k + 2)"]
    unat_byte [of "b (k + 3)"] unfolding rd32_def by linarith

lemma split_256: "(v::nat) mod 256 + 256 * ((v div 256) mod 256) = v mod 65536"
  using mod_mult2_eq [of v 256 256] by simp

lemma split_65536: "(v::nat) mod 65536 + 65536 * ((v div 65536) mod 256) = v mod 16777216"
  using mod_mult2_eq [of v 65536 256] by simp

lemma split_16777216:
  "(v::nat) mod 16777216 + 16777216 * ((v div 16777216) mod 256) = v mod 4294967296"
  using mod_mult2_eq [of v 16777216 256] by simp

lemma rd16_wr16 [simp]: "rd16 (wr16 b k v) k = v mod 65536"
  by (simp add: rd16_def wr16_def split_256)

lemma rd32_wr32 [simp]: "rd32 (wr32 b k v) k = u32 v"
  unfolding rd32_def wr32_def u32_def
  using split_256 [of v] split_65536 [of v] split_16777216 [of v] by simp

lemma rd32_cong: "(\<And>i. k \<le> i \<Longrightarrow> i < k + 4 \<Longrightarrow> b i = c i) \<Longrightarrow> rd32 b k = rd32 c k"
  by (simp add: rd32_def)

lemma rd16_cong: "(\<And>i. k \<le> i \<Longrightarrow> i < k + 2 \<Longrightarrow> b i = c i) \<Longrightarrow> rd16 b k = rd16 c k"
  by (simp add: rd16_def)

lemma wr32_other [simp]: "i < k \<or> k + 4 \<le> i \<Longrightarrow> wr32 b k v i = b i"
  by (auto simp: wr32_def)

lemma wr16_other [simp]: "i < k \<or> k + 2 \<le> i \<Longrightarrow> wr16 b k v i = b i"
  by (auto simp: wr16_def)

lemma rd32_wr32_other [simp]: "j + 4 \<le> k \<or> k + 4 \<le> j \<Longrightarrow> rd32 (wr32 b k v) j = rd32 b j"
  by (rule rd32_cong) auto

lemma rd32_wr16_other [simp]: "j + 4 \<le> k \<or> k + 2 \<le> j \<Longrightarrow> rd32 (wr16 b k v) j = rd32 b j"
  by (rule rd32_cong) auto

lemma rd16_wr32_other [simp]: "j + 2 \<le> k \<or> k + 4 \<le> j \<Longrightarrow> rd16 (wr32 b k v) j = rd16 b j"
  by (rule rd16_cong) auto

lemma rd16_wr16_other [simp]: "j + 2 \<le> k \<or> k + 2 \<le> j \<Longrightarrow> rd16 (wr16 b k v) j = rd16 b j"
  by (rule rd16_cong) auto

lemma blit_in [simp]: "d \<le> i \<Longrightarrow> i < d + n \<Longrightarrow> blit dst d src k n i = src (k + (i - d))"
  by (simp add: blit_def)

lemma blit_out [simp]: "i < d \<or> d + n \<le> i \<Longrightarrow> blit dst d src k n i = dst i"
  by (auto simp: blit_def)

lemma blit_0 [simp]: "blit dst d src k 0 = dst"
  by (rule ext) (auto simp: blit_def)

lemma fill_in [simp]: "d \<le> i \<Longrightarrow> i < d + n \<Longrightarrow> fill dst d n c i = c"
  by (simp add: fill_def)

lemma fill_out [simp]: "i < d \<or> d + n \<le> i \<Longrightarrow> fill dst d n c i = dst i"
  by (auto simp: fill_def)

lemma fill_0 [simp]: "fill dst d 0 c = dst"
  by (rule ext) (auto simp: fill_def)

lemma fill_Suc: "fill dst d (Suc n) c = fill (dst(d := c)) (Suc d) n c"
  by (rule ext) (auto simp: fill_def)

text \<open>Two copies that meet are one copy.\<close>

lemma blit_blit:
  "blit (blit dst d src k m) (d + m) src (k + m) n = blit dst d src k (m + n)"
  by (rule ext) (auto simp: blit_def)

lemma zero_rd32 [simp]: "rd32 (\<lambda>_. 0) k = 0"
  by (simp add: rd32_def)

end
