(* ===== verification/Params.thy ===== *)
theory Params
  imports Prelude
begin

section \<open>Constants (param.h, fs.h, ext2.h, stat.h, fcntl.h)\<close>

text \<open>
  The numeric constants of the headers. They stay folded in proofs; the collection
  \<open>const_defs\<close> unfolds them where an argument depends on their values.
\<close>

named_theorems const_defs \<open>values of the header constants\<close>

definition NINODE :: nat where [const_defs]: "NINODE = 50"
definition NFILE :: nat where [const_defs]: "NFILE = 100"
definition NOFILE :: nat where [const_defs]: "NOFILE = 16"
definition NDEV :: int where [const_defs]: "NDEV = 10"
definition ROOTDEV :: nat where [const_defs]: "ROOTDEV = 1"
definition EXT2DEV :: nat where [const_defs]: "EXT2DEV = 2"
definition MAXOPBLOCKS :: nat where [const_defs]: "MAXOPBLOCKS = 10"
definition LOGSIZE :: nat where [const_defs]: "LOGSIZE = MAXOPBLOCKS * 3"
definition NBUF :: nat where [const_defs]: "NBUF = MAXOPBLOCKS * 3"
definition FSSIZE :: nat where [const_defs]: "FSSIZE = 1000"

definition ROOTINO :: nat where [const_defs]: "ROOTINO = 1"
definition BSIZE :: nat where [const_defs]: "BSIZE = 2048"
definition NDIRECT :: nat where [const_defs]: "NDIRECT = 12"
definition NINDIRECT :: nat where [const_defs]: "NINDIRECT = BSIZE div 4"
definition MAXFILE :: nat where [const_defs]: "MAXFILE = NDIRECT + NINDIRECT"
definition DIRSIZ :: nat where [const_defs]: "DIRSIZ = 14"
definition BPB :: nat where [const_defs]: "BPB = BSIZE * 8"

definition T_DIR :: int where [const_defs]: "T_DIR = 1"
definition T_FILE :: int where [const_defs]: "T_FILE = 2"
definition T_DEV :: int where [const_defs]: "T_DEV = 3"

lemma BSIZE_pos [simp]: "0 < BSIZE" by (simp add: const_defs)
lemma BPB_pos [simp]: "0 < BPB" by (simp add: const_defs)
lemma NBUF_pos [simp]: "0 < NBUF" by (simp add: const_defs)

end
