(* ===== verification/Sleeplock.thy ===== *)
theory Sleeplock
  imports Prelude
begin

section \<open>Sleeping locks (sleeplock.c)\<close>

text \<open>
  A sleeping lock records whether it is held and the pid of the holder. The spinlock
  \<open>lk->lk\<close> makes each routine one atomic step. \<open>acquiresleep\<close> waits while the lock is
  held; in a run of a single thread of control nobody would release it, so the wait is the
  fault \<open>Blocked\<close>.
\<close>

record sleeplock =
  sl_locked :: bool
  sl_pid :: nat

definition initsleeplock :: sleeplock where
  "initsleeplock = \<lparr>sl_locked = False, sl_pid = 0\<rparr>"

definition acquiresleep :: "nat \<Rightarrow> sleeplock \<Rightarrow> fault + sleeplock" where
  "acquiresleep pid lk =
     (if sl_locked lk then Inl (Blocked ''acquiresleep'')
      else Inr (lk\<lparr>sl_locked := True, sl_pid := pid\<rparr>))"

definition releasesleep :: "sleeplock \<Rightarrow> sleeplock" where
  "releasesleep lk = lk\<lparr>sl_locked := False, sl_pid := 0\<rparr>"

definition holdingsleep :: "nat \<Rightarrow> sleeplock \<Rightarrow> bool" where
  "holdingsleep pid lk \<longleftrightarrow> sl_locked lk \<and> sl_pid lk = pid"

text \<open>What a client relies on: whoever acquires the lock holds it, the lock is then busy for
  everybody, and releasing it makes it free again.\<close>

locale sleep_lock =
  fixes acq :: "nat \<Rightarrow> 'l \<Rightarrow> fault + 'l" and rel :: "'l \<Rightarrow> 'l"
    and holding :: "nat \<Rightarrow> 'l \<Rightarrow> bool" and free :: "'l \<Rightarrow> bool"
  assumes acq_free: "free l \<Longrightarrow> \<exists>l'. acq p l = Inr l' \<and> holding p l' \<and> \<not> free l'"
    and acq_busy: "\<not> free l \<Longrightarrow> acq p l = Inl (Blocked ''acquiresleep'')"
    and rel_free: "free (rel l)"
    and holding_busy: "holding p l \<Longrightarrow> \<not> free l"
begin

lemma acq_excludes: "acq p l = Inr l' \<Longrightarrow> acq q l' = Inl (Blocked ''acquiresleep'')"
  by (metis acq_busy acq_free sum.distinct(1) sum.inject(2))

lemma acq_after_rel: "\<exists>l'. acq p (rel l) = Inr l' \<and> holding p l'"
  using acq_free rel_free by blast

lemma not_holding_after_rel: "\<not> holding p (rel l)"
  using holding_busy rel_free by blast

end

interpretation slk: sleep_lock acquiresleep releasesleep holdingsleep "\<lambda>l. \<not> sl_locked l"
  by unfold_locales (auto simp: acquiresleep_def releasesleep_def holdingsleep_def)

end
