(* ===== verification/Bio.thy ===== *)
theory Bio
  imports Params Sleeplock
begin

section \<open>Disk driver and buffer cache (ide.c, bio.c, buf.h)\<close>

text \<open>
  The state holds the two IDE drives (\<open>disk\<close>, addressed by the I/O port of the channel and
  the 28-bit sector number), the driver's request queue and the buffer array. Buffer number
  \<open>NBUF\<close> is the list head \<open>bcache.head\<close>; the LRU list runs through the \<open>b_prev\<close> and
  \<open>b_next\<close> fields as in the code. \<open>dwrites\<close> is a history variable: the block writes the
  drives have performed, oldest first; no routine reads it.

  The code of \<open>bget\<close> and \<open>brelse\<close> between \<open>acquire(&bcache.lock)\<close> and \<open>release\<close>, and the
  code of the driver under \<open>idelock\<close>, is one atomic step each.
\<close>

subsection \<open>Data\<close>

record buf =
  b_valid :: bool      \<comment> \<open>B\_VALID, bit 0x2 of flags\<close>
  b_dirty :: bool      \<comment> \<open>B\_DIRTY, bit 0x4 of flags\<close>
  b_dev :: nat
  b_blockno :: nat
  b_lock :: sleeplock
  b_refcnt :: nat
  b_prev :: nat
  b_next :: nat
  b_data :: block

record bstate =
  cur_pid :: nat
  disk :: "nat \<Rightarrow> nat \<Rightarrow> block"
  dwrites :: "(nat \<times> nat \<times> block) list"
  havedisk1 :: bool
  havedisk2 :: bool
  idequeue :: "nat list"
  ide_lba :: "nat \<Rightarrow> nat"
  bufs :: "nat \<Rightarrow> buf"

definition setb :: "nat \<Rightarrow> (buf \<Rightarrow> buf) \<Rightarrow> 'z bstate_scheme \<Rightarrow> 'z bstate_scheme" where
  "setb b f s = s\<lparr>bufs := (bufs s)(b := f (bufs s b))\<rparr>"

subsection \<open>The IDE driver\<close>

definition SECTOR_SIZE :: nat where "SECTOR_SIZE = 512"

text \<open>The channel of a device and the sector number as the five command registers hold it.\<close>

definition ide_port :: "nat \<Rightarrow> nat" where
  "ide_port dev = (if dev = 1 then 0x1f0 else 0x170)"

definition ide_sector :: "nat \<Rightarrow> nat" where
  "ide_sector blockno = (blockno * (BSIZE div SECTOR_SIZE)) mod 2 ^ 28"

definition idestart :: "nat \<Rightarrow> ('z bstate_scheme, unit) kern" where
  "idestart b = (\<lambda>s. let bp = bufs s b; port = ide_port (b_dev bp); sec = ide_sector (b_blockno bp) in
     if b_dev bp = 1 \<and> b_blockno bp \<ge> FSSIZE then Inl (Panic ''incorrect blockno'')
     else if b_dirty bp
     then Inr ((), s\<lparr>ide_lba := (ide_lba s)(port := sec),
                     disk := (disk s)(port := (disk s port)(sec := b_data bp)),
                     dwrites := dwrites s @ [(port, sec, b_data bp)]\<rparr>)
     else Inr ((), s\<lparr>ide_lba := (ide_lba s)(port := sec)\<rparr>))"

definition ideintr :: "nat \<Rightarrow> ('z bstate_scheme, unit) kern" where
  "ideintr flag = (\<lambda>s. let port = (if flag = 0 then 0x1f0 else 0x170) in
     case idequeue s of
       [] \<Rightarrow> Inr ((), s)
     | b # rest \<Rightarrow>
         (let bp = bufs s b;
              d = (if b_dirty bp then b_data bp else disk s port (ide_lba s port));
              s1 = setb b (\<lambda>bp. bp\<lparr>b_data := d, b_valid := True, b_dirty := False\<rparr>)
                     (s\<lparr>idequeue := rest\<rparr>)
          in case rest of [] \<Rightarrow> Inr ((), s1) | b' # _ \<Rightarrow> idestart b' s1))"

text \<open>The wait of \<open>iderw\<close>: interrupts of the drives arrive, each for the request at the head
  of the queue, until the buffer is clean and valid. At most one interrupt per queued request
  is needed.\<close>

definition intr_flag :: "nat \<Rightarrow> nat" where
  "intr_flag dev = (if dev = 1 then 0 else 1)"

fun ide_wait :: "nat \<Rightarrow> nat \<Rightarrow> ('z bstate_scheme, unit) kern" where
  "ide_wait 0 b = fail (Blocked ''iderw'')"
| "ide_wait (Suc k) b = (\<lambda>s.
     if b_valid (bufs s b) \<and> \<not> b_dirty (bufs s b) then Inr ((), s)
     else case idequeue s of
        [] \<Rightarrow> Inl (Blocked ''iderw'')
      | a # _ \<Rightarrow> bnd (ideintr (intr_flag (b_dev (bufs s a)))) (\<lambda>_. ide_wait k b) s)"

definition iderw :: "nat \<Rightarrow> ('z bstate_scheme, unit) kern" where
  "iderw b = (\<lambda>s. let bp = bufs s b in
     if \<not> holdingsleep (cur_pid s) (b_lock bp) then Inl (Panic ''iderw: buf not locked'')
     else if b_valid bp \<and> \<not> b_dirty bp then Inl (Panic ''iderw: nothing to do'')
     else if b_dev bp \<noteq> 0 \<and> \<not> havedisk1 s then Inl (Panic ''iderw: ide disk 1 not present'')
     else if b_dev bp \<noteq> 0 \<and> \<not> havedisk2 s then Inl (Panic ''iderw: ide disk 2 not present'')
     else
       (let q = idequeue s @ [b]; s1 = s\<lparr>idequeue := q\<rparr>
        in bnd (if hd q = b then idestart b else ret ()) (\<lambda>_. ide_wait (length q + 1) b) s1))"

subsection \<open>The buffer cache\<close>

definition set_next :: "nat \<Rightarrow> nat \<Rightarrow> (nat \<Rightarrow> buf) \<Rightarrow> nat \<Rightarrow> buf" where
  "set_next i v bs = bs(i := (bs i)\<lparr>b_next := v\<rparr>)"

definition set_prev :: "nat \<Rightarrow> nat \<Rightarrow> (nat \<Rightarrow> buf) \<Rightarrow> nat \<Rightarrow> buf" where
  "set_prev i v bs = bs(i := (bs i)\<lparr>b_prev := v\<rparr>)"

text \<open>Insert \<open>b\<close> between the head and the head's successor; unlink \<open>b\<close>.\<close>

definition link_front :: "nat \<Rightarrow> (nat \<Rightarrow> buf) \<Rightarrow> nat \<Rightarrow> buf" where
  "link_front b bs =
     (let bs = set_next b (b_next (bs NBUF)) bs;
          bs = set_prev b NBUF bs;
          bs = set_prev (b_next (bs NBUF)) b bs
      in set_next NBUF b bs)"

definition unlink_buf :: "nat \<Rightarrow> (nat \<Rightarrow> buf) \<Rightarrow> nat \<Rightarrow> buf" where
  "unlink_buf b bs =
     (let bs = set_prev (b_next (bs b)) (b_prev (bs b)) bs
      in set_next (b_prev (bs b)) (b_next (bs b)) bs)"

definition binit_loop :: "nat \<Rightarrow> (nat \<Rightarrow> buf) \<Rightarrow> nat \<Rightarrow> buf" where
  "binit_loop n bs = fold (\<lambda>b bs. link_front b (bs(b := (bs b)\<lparr>b_lock := initsleeplock\<rparr>))) [0..<n] bs"

definition binit :: "'z bstate_scheme \<Rightarrow> 'z bstate_scheme" where
  "binit s = s\<lparr>bufs := binit_loop NBUF (set_next NBUF NBUF (set_prev NBUF NBUF (bufs s)))\<rparr>"

text \<open>The two loops of \<open>bget\<close>: follow \<open>step\<close> from buffer \<open>b\<close> to the head, return the first
  buffer that satisfies \<open>P\<close>. A list that does not lead back to the head is never left.\<close>

fun scan :: "(buf \<Rightarrow> nat) \<Rightarrow> (buf \<Rightarrow> bool) \<Rightarrow> (nat \<Rightarrow> buf) \<Rightarrow> nat \<Rightarrow> nat \<Rightarrow> fault + nat option" where
  "scan step P bs 0 b = Inl (Blocked ''bget'')"
| "scan step P bs (Suc k) b =
     (if b = NBUF then Inr None
      else if P (bs b) then Inr (Some b)
      else scan step P bs k (step (bs b)))"

definition lock_buf :: "nat \<Rightarrow> ('z bstate_scheme, unit) kern" where
  "lock_buf b = (\<lambda>s. case acquiresleep (cur_pid s) (b_lock (bufs s b)) of
     Inl e \<Rightarrow> Inl e | Inr l \<Rightarrow> Inr ((), setb b (\<lambda>bp. bp\<lparr>b_lock := l\<rparr>) s))"

definition bget :: "nat \<Rightarrow> nat \<Rightarrow> ('z bstate_scheme, nat) kern" where
  "bget dev blockno = (\<lambda>s.
     case scan b_next (\<lambda>bp. b_dev bp = dev \<and> b_blockno bp = blockno) (bufs s) (NBUF + 1)
            (b_next (bufs s NBUF)) of
       Inl e \<Rightarrow> Inl e
     | Inr (Some b) \<Rightarrow>
         bnd (lock_buf b) (\<lambda>_. ret b) (setb b (\<lambda>bp. bp\<lparr>b_refcnt := u32 (b_refcnt bp + 1)\<rparr>) s)
     | Inr None \<Rightarrow>
         (case scan b_prev (\<lambda>bp. b_refcnt bp = 0 \<and> \<not> b_dirty bp) (bufs s) (NBUF + 1)
                 (b_prev (bufs s NBUF)) of
            Inl e \<Rightarrow> Inl e
          | Inr None \<Rightarrow> Inl (Panic ''bget: no buffers'')
          | Inr (Some b) \<Rightarrow>
              bnd (lock_buf b) (\<lambda>_. ret b)
                (setb b (\<lambda>bp. bp\<lparr>b_dev := dev, b_blockno := blockno, b_valid := False,
                                  b_dirty := False, b_refcnt := 1\<rparr>) s)))"

definition bread :: "nat \<Rightarrow> nat \<Rightarrow> ('z bstate_scheme, nat) kern" where
  "bread dev blockno =
     bnd (bget dev blockno) (\<lambda>b s.
       if \<not> b_valid (bufs s b) then bnd (iderw b) (\<lambda>_. ret b) s else ret b s)"

definition bwrite :: "nat \<Rightarrow> ('z bstate_scheme, unit) kern" where
  "bwrite b = (\<lambda>s.
     if \<not> holdingsleep (cur_pid s) (b_lock (bufs s b)) then Inl (Panic ''bwrite'')
     else iderw b (setb b (\<lambda>bp. bp\<lparr>b_dirty := True\<rparr>) s))"

definition brelse :: "nat \<Rightarrow> ('z bstate_scheme, unit) kern" where
  "brelse b = (\<lambda>s.
     if \<not> holdingsleep (cur_pid s) (b_lock (bufs s b)) then Inl (Panic ''brelse'')
     else
       (let s = setb b (\<lambda>bp. bp\<lparr>b_lock := releasesleep (b_lock bp)\<rparr>) s;
            s = setb b (\<lambda>bp. bp\<lparr>b_refcnt := u32 (b_refcnt bp + 4294967295)\<rparr>) s
        in if b_refcnt (bufs s b) = 0
           then Inr ((), s\<lparr>bufs := link_front b (unlink_buf b (bufs s))\<rparr>)
           else Inr ((), s)))"

text \<open>A store through \<open>bp->data\<close>.\<close>

definition bmod :: "nat \<Rightarrow> (block \<Rightarrow> block) \<Rightarrow> ('z bstate_scheme, unit) kern" where
  "bmod b f = upd (setb b (\<lambda>bp. bp\<lparr>b_data := f (b_data bp)\<rparr>))"

subsection \<open>The LRU list\<close>

text \<open>\<open>seg bs p xs q\<close>: following \<open>b_next\<close> from \<open>p\<close> visits \<open>xs\<close> and arrives at \<open>q\<close>, and the
  \<open>b_prev\<close> pointers run the other way. \<open>ring bs xs\<close>: the list through the head holds every
  buffer once, in the order \<open>xs\<close>, most recently used first.\<close>

fun seg :: "(nat \<Rightarrow> buf) \<Rightarrow> nat \<Rightarrow> nat list \<Rightarrow> nat \<Rightarrow> bool" where
  "seg bs p [] q \<longleftrightarrow> b_next (bs p) = q \<and> b_prev (bs q) = p"
| "seg bs p (x # xs) q \<longleftrightarrow> b_next (bs p) = x \<and> b_prev (bs x) = p \<and> seg bs x xs q"

definition ring :: "(nat \<Rightarrow> buf) \<Rightarrow> nat list \<Rightarrow> bool" where
  "ring bs xs \<longleftrightarrow> seg bs NBUF xs NBUF \<and> distinct xs \<and> set xs = {0..<NBUF}"

text \<open>A buffer without its list pointers.\<close>

definition core :: "buf \<Rightarrow> buf" where
  "core bp = bp\<lparr>b_prev := 0, b_next := 0\<rparr>"

lemma coreD:
  "core x = core y \<Longrightarrow> b_valid x = b_valid y" "core x = core y \<Longrightarrow> b_dirty x = b_dirty y"
  "core x = core y \<Longrightarrow> b_dev x = b_dev y" "core x = core y \<Longrightarrow> b_blockno x = b_blockno y"
  "core x = core y \<Longrightarrow> b_lock x = b_lock y" "core x = core y \<Longrightarrow> b_refcnt x = b_refcnt y"
  "core x = core y \<Longrightarrow> b_data x = b_data y"
  by (cases x; cases y; simp add: core_def)+

lemma core_set [simp]: "core (set_next i v bs j) = core (bs j)" "core (set_prev i v bs j) = core (bs j)"
  by (simp_all add: set_next_def set_prev_def core_def)

lemma core_link_front [simp]: "core (link_front b bs j) = core (bs j)"
  by (simp add: link_front_def Let_def)

lemma core_unlink_buf [simp]: "core (unlink_buf b bs j) = core (bs j)"
  by (simp add: unlink_buf_def Let_def)

lemma seg_append: "seg bs p (xs @ y # ys) q \<longleftrightarrow> seg bs p xs y \<and> seg bs y ys q"
  by (induction xs arbitrary: p) auto

lemma seg_cong:
  assumes "\<And>x. x \<in> set (p # xs) \<Longrightarrow> b_next (bs' x) = b_next (bs x)"
    and "\<And>x. x \<in> set (xs @ [q]) \<Longrightarrow> b_prev (bs' x) = b_prev (bs x)"
  shows "seg bs' p xs q \<longleftrightarrow> seg bs p xs q"
  using assms by (induction xs arbitrary: p) auto

lemma scan_next_seg:
  "seg bs p xs NBUF \<Longrightarrow> NBUF \<notin> set xs \<Longrightarrow> length xs < k \<Longrightarrow>
   scan b_next P bs k (b_next (bs p)) = Inr (find (\<lambda>b. P (bs b)) xs)"
proof (induction xs arbitrary: p k)
  case Nil
  then show ?case by (cases k) auto
next
  case (Cons x xs)
  then show ?case by (cases k) auto
qed

lemma scan_prev_seg:
  "seg bs NBUF xs q \<Longrightarrow> NBUF \<notin> set xs \<Longrightarrow> length xs < k \<Longrightarrow>
   scan b_prev P bs k (b_prev (bs q)) = Inr (find (\<lambda>b. P (bs b)) (rev xs))"
proof (induction xs arbitrary: q k rule: rev_induct)
  case Nil
  then show ?case by (cases k) auto
next
  case (snoc x xs)
  then show ?case by (cases k) (auto simp: seg_append)
qed

lemma ring_length: "ring bs xs \<Longrightarrow> length xs = NBUF"
  using distinct_card [of xs] by (simp add: ring_def)

lemma ring_scan:
  assumes "ring bs xs"
  shows "scan b_next P bs (NBUF + 1) (b_next (bs NBUF)) = Inr (find (\<lambda>b. P (bs b)) xs)"
    and "scan b_prev P bs (NBUF + 1) (b_prev (bs NBUF)) = Inr (find (\<lambda>b. P (bs b)) (rev xs))"
  using assms ring_length [OF assms]
  by (auto simp: ring_def simp del: scan.simps intro: scan_next_seg scan_prev_seg)

lemma seg_link_front:
  assumes "seg bs NBUF xs NBUF" "b \<noteq> NBUF" "b \<notin> set xs" "NBUF \<notin> set xs" "distinct xs"
  shows "seg (link_front b bs) NBUF (b # xs) NBUF"
proof (cases xs)
  case Nil
  then show ?thesis
    using assms by (simp add: link_front_def Let_def set_next_def set_prev_def)
next
  case (Cons x ys)
  have "seg (link_front b bs) x ys NBUF \<longleftrightarrow> seg bs x ys NBUF"
    using assms Cons
    by (intro seg_cong) (auto simp: link_front_def Let_def set_next_def set_prev_def)
  then show ?thesis
    using assms Cons by (auto simp: link_front_def Let_def set_next_def set_prev_def)
qed

lemma seg_unlink_buf:
  assumes "seg bs NBUF (ys @ b # zs) NBUF" "distinct (NBUF # ys @ b # zs)"
  shows "seg (unlink_buf b bs) NBUF (ys @ zs) NBUF"
proof -
  let ?p = "b_prev (bs b)" and ?n = "b_next (bs b)"
  have s1: "seg bs NBUF ys b" and s2: "seg bs b zs NBUF"
    using assms(1) by (auto simp: seg_append)
  have p: "?p = last (NBUF # ys)"
    using s1 by (induction ys arbitrary: rule: rev_induct) (auto simp: seg_append)
  have n: "?n = hd (zs @ [NBUF])"
    using s2 by (cases zs) auto
  have pb: "?p \<noteq> b" using p assms(2) by (auto split: if_splits)
  have nb: "?n \<noteq> b" using n assms(2) by (cases zs) auto
  have u: "unlink_buf b bs = set_next ?p ?n (set_prev ?n ?p bs)"
    using nb by (simp add: unlink_buf_def Let_def set_prev_def set_next_def)
  show ?thesis
  proof (cases ys rule: rev_cases)
    case Nil
    then have P: "?p = NBUF" using p by simp
    show ?thesis
    proof (cases zs)
      case Nil
      with P \<open>ys = []\<close> s2 show ?thesis by (auto simp: u set_prev_def set_next_def)
    next
      case (Cons z zs')
      have "seg (unlink_buf b bs) z zs' NBUF \<longleftrightarrow> seg bs z zs' NBUF"
        using assms(2) Cons P n
        by (intro seg_cong) (auto simp: u set_prev_def set_next_def)
      then show ?thesis
        using P n Cons \<open>ys = []\<close> s2 assms(2) by (auto simp: u set_prev_def set_next_def)
    qed
  next
    case (snoc ys' y)
    then have P: "?p = y" using p by simp
    have f: "seg (unlink_buf b bs) NBUF ys' y \<longleftrightarrow> seg bs NBUF ys' y"
      using assms(2) snoc P n
      by (intro seg_cong) (cases zs; auto simp: u set_prev_def set_next_def)+
    show ?thesis
    proof (cases zs)
      case Nil
      with P n f snoc s1 show ?thesis
        using assms(2) by (auto simp: u seg_append set_prev_def set_next_def)
    next
      case (Cons z zs')
      have "seg (unlink_buf b bs) z zs' NBUF \<longleftrightarrow> seg bs z zs' NBUF"
        using assms(2) Cons P n snoc
        by (intro seg_cong) (auto simp: u set_prev_def set_next_def)
      with P n f snoc s1 s2 Cons show ?thesis
        using assms(2) by (auto simp: u seg_append set_prev_def set_next_def)
    qed
  qed
qed

lemma ring_touch:
  assumes "ring bs (ys @ b # zs)"
  shows "ring (link_front b (unlink_buf b bs)) (b # ys @ zs)"
proof -
  have d: "distinct (NBUF # ys @ b # zs)" "seg bs NBUF (ys @ b # zs) NBUF"
    using assms by (auto simp: ring_def set_eq_iff)
  have "seg (unlink_buf b bs) NBUF (ys @ zs) NBUF"
    using d by (intro seg_unlink_buf)
  then have "seg (link_front b (unlink_buf b bs)) NBUF (b # ys @ zs) NBUF"
    using d(1) by (intro seg_link_front) auto
  then show ?thesis using assms by (auto simp: ring_def)
qed

lemma ring_cong:
  "(\<And>i. b_next (bs' i) = b_next (bs i)) \<Longrightarrow> (\<And>i. b_prev (bs' i) = b_prev (bs i)) \<Longrightarrow>
   ring bs' xs = ring bs xs"
  unfolding ring_def by (subst seg_cong [of _ _ bs' bs]) auto

subsection \<open>Invariant and logical contents\<close>

text \<open>The blocks the drives can address: every block number of the root image, and the
  second drive as far as its 28-bit sector number reaches.\<close>

definition blk_ok :: "nat \<Rightarrow> nat \<Rightarrow> bool" where
  "blk_ok dev bno \<longleftrightarrow> dev = ROOTDEV \<and> bno < FSSIZE \<or> dev = EXT2DEV \<and> bno < 2 ^ 26"

definition dblk :: "'z bstate_scheme \<Rightarrow> nat \<Rightarrow> nat \<Rightarrow> block" where
  "dblk s dev bno = disk s (ide_port dev) (ide_sector bno)"

definition held :: "'z bstate_scheme \<Rightarrow> nat set" where
  "held s = {i. i < NBUF \<and> sl_locked (b_lock (bufs s i))}"

definition dirty :: "'z bstate_scheme \<Rightarrow> nat set" where
  "dirty s = {i. i < NBUF \<and> b_dirty (bufs s i)}"

definition bkey :: "buf \<Rightarrow> nat \<times> nat" where
  "bkey bp = (b_dev bp, b_blockno bp)"

text \<open>What a reader of the cache sees: the cached copy, or else the disk (and zeros where the
  drives have no block).\<close>

definition lblk :: "'z bstate_scheme \<Rightarrow> nat \<Rightarrow> nat \<Rightarrow> block" where
  "lblk s dev bno = (if blk_ok dev bno then dblk s dev bno else (\<lambda>_. 0))"

definition view :: "'z bstate_scheme \<Rightarrow> nat \<Rightarrow> nat \<Rightarrow> block" where
  "view s dev bno =
     (case find (\<lambda>i. b_valid (bufs s i) \<and> b_dev (bufs s i) = dev \<and> b_blockno (bufs s i) = bno) [0..<NBUF] of
        Some i \<Rightarrow> b_data (bufs s i) | None \<Rightarrow> lblk s dev bno)"

definition clean :: "'z bstate_scheme \<Rightarrow> nat \<Rightarrow> bool" where
  "clean s i \<longleftrightarrow> b_data (bufs s i) = dblk s (b_dev (bufs s i)) (b_blockno (bufs s i))"

definition buf_inv :: "'z bstate_scheme \<Rightarrow> nat \<Rightarrow> bool" where
  "buf_inv s i \<longleftrightarrow> (let bp = bufs s i in
     b_refcnt bp = (if sl_locked (b_lock bp) then 1 else 0) \<and>
     (sl_locked (b_lock bp) \<longrightarrow> sl_pid (b_lock bp) = cur_pid s \<and> b_valid bp) \<and>
     (b_dirty bp \<longrightarrow> b_valid bp) \<and>
     (b_valid bp \<longrightarrow> blk_ok (b_dev bp) (b_blockno bp)) \<and>
     (b_valid bp \<and> \<not> b_dirty bp \<and> \<not> sl_locked (b_lock bp) \<longrightarrow> clean s i))"

definition uniq :: "(nat \<Rightarrow> buf) \<Rightarrow> bool" where
  "uniq bs \<longleftrightarrow> (\<forall>i < NBUF. \<forall>j < NBUF. b_dev (bs i) \<noteq> 0 \<and> bkey (bs i) = bkey (bs j) \<longrightarrow> i = j)"

definition binv :: "'z bstate_scheme \<Rightarrow> bool" where
  "binv s \<longleftrightarrow> (\<exists>xs. ring (bufs s) xs) \<and> (\<forall>i < NBUF. buf_inv s i) \<and> uniq (bufs s) \<and>
     idequeue s = [] \<and> havedisk1 s \<and> havedisk2 s"

text \<open>Everything of the state outside the cache and the driver.\<close>

definition bframe :: "'z bstate_scheme \<Rightarrow> 'z bstate_scheme \<Rightarrow> bool" where
  "bframe s t \<longleftrightarrow> cur_pid t = cur_pid s \<and> bstate.more t = bstate.more s"

lemma bframe_refl [simp]: "bframe s s"
  by (simp add: bframe_def)

lemma bframe_trans: "bframe s t \<Longrightarrow> bframe t u \<Longrightarrow> bframe s u"
  by (simp add: bframe_def)

lemma blk_ok_dev [simp]: "blk_ok 0 bno = False"
  by (simp add: blk_ok_def const_defs)

lemma bkey_core: "core x = core y \<Longrightarrow> bkey x = bkey y"
  by (simp add: bkey_def coreD(3,4) [of x y])

lemma setb_sel [simp]:
  "cur_pid (setb b f s) = cur_pid s" "disk (setb b f s) = disk s" "dwrites (setb b f s) = dwrites s"
  "havedisk1 (setb b f s) = havedisk1 s" "havedisk2 (setb b f s) = havedisk2 s"
  "idequeue (setb b f s) = idequeue s" "ide_lba (setb b f s) = ide_lba s"
  "bstate.more (setb b f s) = bstate.more s"
  "bufs (setb b f s) = (bufs s)(b := f (bufs s b))"
  by (simp_all add: setb_def)

lemma dblk_setb [simp]: "dblk (setb b f s) = dblk s"
  by (simp add: dblk_def fun_eq_iff)

lemma find_upt_unique:
  assumes "i < n" "P i" "\<And>j. j < n \<Longrightarrow> P j \<Longrightarrow> j = i"
  shows "find P [0..<n] = Some i"
proof -
  have "find P [0..<n] \<noteq> None" using assms(1,2) by (auto simp: find_None_iff)
  then obtain j where j: "find P [0..<n] = Some j" by auto
  then have "j < n \<and> P j" by (auto simp: find_Some_iff)
  then have "j = i" using assms(3) [of j] by simp
  with j show ?thesis by simp
qed

lemma view_cached:
  assumes "uniq (bufs s)" "i < NBUF" "b_valid (bufs s i)" "bkey (bufs s i) = (dev, bno)" "dev \<noteq> 0"
  shows "view s dev bno = b_data (bufs s i)"
proof -
  have "find (\<lambda>i. b_valid (bufs s i) \<and> b_dev (bufs s i) = dev \<and> b_blockno (bufs s i) = bno) [0..<NBUF] = Some i"
    using assms by (intro find_upt_unique) (auto simp: uniq_def bkey_def)
  then show ?thesis by (simp add: view_def)
qed

lemma view_uncached:
  assumes "\<And>i. i < NBUF \<Longrightarrow> b_valid (bufs s i) \<Longrightarrow> bkey (bufs s i) \<noteq> (dev, bno)"
  shows "view s dev bno = lblk s dev bno"
proof -
  have "find (\<lambda>i. b_valid (bufs s i) \<and> b_dev (bufs s i) = dev \<and> b_blockno (bufs s i) = bno) [0..<NBUF] = None"
    using assms by (auto simp: find_None_iff bkey_def)
  then show ?thesis by (simp add: view_def)
qed

lemma ide_sector_ok: "blk_ok d b \<Longrightarrow> ide_sector b = 4 * b"
  by (auto simp: blk_ok_def ide_sector_def const_defs SECTOR_SIZE_def)

lemma blk_ok_inj:
  assumes "blk_ok d b" "blk_ok d' b'" "ide_port d = ide_port d'" "ide_sector b = ide_sector b'"
  shows "d = d' \<and> b = b'"
proof -
  have "b = b'" using assms by (simp add: ide_sector_ok)
  moreover have "d = d'"
    using assms(1-3) by (auto simp: blk_ok_def ide_port_def ROOTDEV_def EXT2DEV_def)
  ultimately show ?thesis by simp
qed

subsection \<open>The driver on an idle queue\<close>

lemma blk_ok_start: "blk_ok d b \<Longrightarrow> \<not> (d = 1 \<and> FSSIZE \<le> b)"
  by (auto simp: blk_ok_def const_defs)

lemma intr_port: "blk_ok d b \<Longrightarrow> (if intr_flag d = 0 then 0x1f0 else 0x170) = ide_port d"
  by (simp add: intr_flag_def ide_port_def)

lemma ideintr_single:
  assumes "idequeue s = [b]" "blk_ok (b_dev (bufs s b)) (b_blockno (bufs s b))"
  shows "ideintr (intr_flag (b_dev (bufs s b))) s =
    Inr ((), setb b (\<lambda>bp. bp\<lparr>b_data := (if b_dirty bp then b_data bp
        else disk s (ide_port (b_dev bp)) (ide_lba s (ide_port (b_dev bp)))),
        b_valid := True, b_dirty := False\<rparr>) (s\<lparr>idequeue := []\<rparr>))"
  using assms unfolding ideintr_def intr_port [OF assms(2)] by (simp add: Let_def setb_def)

lemma ide_wait_single:
  assumes "idequeue s = [b]" "\<not> (b_valid (bufs s b) \<and> \<not> b_dirty (bufs s b))"
    "blk_ok (b_dev (bufs s b)) (b_blockno (bufs s b))"
  shows "ide_wait (Suc (Suc k)) b s = ideintr (intr_flag (b_dev (bufs s b))) s"
  using assms ideintr_single [OF assms(1,3)] by (auto simp: bnd_run)

lemma iderw_single:
  assumes "holdingsleep (cur_pid s) (b_lock (bufs s b))" "\<not> (b_valid (bufs s b) \<and> \<not> b_dirty (bufs s b))"
    "idequeue s = []" "havedisk1 s" "havedisk2 s" "blk_ok (b_dev (bufs s b)) (b_blockno (bufs s b))"
  shows "iderw b s = bnd (idestart b) (\<lambda>_. ide_wait (Suc (Suc 0)) b) (s\<lparr>idequeue := [b]\<rparr>)"
  using assms by (auto simp: iderw_def Let_def simp del: ide_wait.simps)

lemma iderw_read:
  assumes "holdingsleep (cur_pid s) (b_lock (bufs s b))" "\<not> b_valid (bufs s b)" "\<not> b_dirty (bufs s b)"
    "idequeue s = []" "havedisk1 s" "havedisk2 s" "blk_ok (b_dev (bufs s b)) (b_blockno (bufs s b))"
  shows "iderw b s = Inr ((), setb b (\<lambda>bp. bp\<lparr>b_data := dblk s (b_dev bp) (b_blockno bp),
      b_valid := True, b_dirty := False\<rparr>)
    (s\<lparr>ide_lba := (ide_lba s)(ide_port (b_dev (bufs s b)) := ide_sector (b_blockno (bufs s b)))\<rparr>))"
proof -
  let ?bp = "bufs s b"
  let ?t = "s\<lparr>idequeue := [b], ide_lba := (ide_lba s)(ide_port (b_dev ?bp) := ide_sector (b_blockno ?bp))\<rparr>"
  have "idestart b (s\<lparr>idequeue := [b]\<rparr>) = Inr ((), ?t)"
    using assms(3) blk_ok_start [OF assms(7)] by (auto simp: idestart_def Let_def)
  moreover have "ide_wait (Suc (Suc 0)) b ?t = ideintr (intr_flag (b_dev ?bp)) ?t"
    using assms ide_wait_single [of ?t b 0] by (simp del: ide_wait.simps)
  moreover have "idequeue s = []" by fact
  ultimately show ?thesis
    using assms ideintr_single [of ?t b] iderw_single [of s b]
    by (simp add: bnd_run setb_def dblk_def del: ide_wait.simps)
qed

lemma iderw_write:
  assumes "holdingsleep (cur_pid s) (b_lock (bufs s b))" "b_dirty (bufs s b)"
    "idequeue s = []" "havedisk1 s" "havedisk2 s" "blk_ok (b_dev (bufs s b)) (b_blockno (bufs s b))"
  shows "iderw b s = Inr ((), setb b (\<lambda>bp. bp\<lparr>b_valid := True, b_dirty := False\<rparr>)
    (let port = ide_port (b_dev (bufs s b)); sec = ide_sector (b_blockno (bufs s b)) in
     s\<lparr>ide_lba := (ide_lba s)(port := sec),
       disk := (disk s)(port := (disk s port)(sec := b_data (bufs s b))),
       dwrites := dwrites s @ [(port, sec, b_data (bufs s b))]\<rparr>))"
proof -
  let ?bp = "bufs s b"
  let ?p = "ide_port (b_dev ?bp)" and ?s = "ide_sector (b_blockno ?bp)"
  let ?t = "s\<lparr>idequeue := [b], ide_lba := (ide_lba s)(?p := ?s),
       disk := (disk s)(?p := (disk s ?p)(?s := b_data ?bp)),
       dwrites := dwrites s @ [(?p, ?s, b_data ?bp)]\<rparr>"
  have "idestart b (s\<lparr>idequeue := [b]\<rparr>) = Inr ((), ?t)"
    using assms(2) blk_ok_start [OF assms(6)] by (auto simp: idestart_def Let_def)
  moreover have "ide_wait (Suc (Suc 0)) b ?t = ideintr (intr_flag (b_dev ?bp)) ?t"
    using assms ide_wait_single [of ?t b 0] by (simp del: ide_wait.simps)
  ultimately show ?thesis
    using assms ideintr_single [of ?t b] iderw_single [of s b]
    by (simp add: bnd_run setb_def Let_def del: ide_wait.simps)
qed

subsection \<open>Contracts of the cache operations\<close>

lemma sleeplock_eq: "(l::sleeplock)\<lparr>sl_locked := a, sl_pid := p\<rparr> = \<lparr>sl_locked = a, sl_pid = p\<rparr>"
  by (cases l) simp

lemma buf_inv_key: "buf_inv s i \<Longrightarrow> b_valid (bufs s i) \<Longrightarrow> b_dev (bufs s i) \<noteq> 0"
  by (cases "b_dev (bufs s i) = 0") (auto simp: buf_inv_def Let_def)

lemma binvD:
  assumes "binv s"
  shows "uniq (bufs s)" "idequeue s = []" "havedisk1 s" "havedisk2 s" "\<And>i. i < NBUF \<Longrightarrow> buf_inv s i"
  using assms by (auto simp: binv_def)

lemma binv_key_neq:
  assumes "binv s" "i < NBUF" "j < NBUF" "i \<noteq> j" "b_dev (bufs s i) \<noteq> 0"
  shows "bkey (bufs s i) \<noteq> bkey (bufs s j)"
  using binvD(1) [OF assms(1)] assms(2-5) by (auto simp: uniq_def)

lemma view_at:
  assumes "binv s" "i < NBUF" "b_valid (bufs s i)"
  shows "view s (b_dev (bufs s i)) (b_blockno (bufs s i)) = b_data (bufs s i)"
  using assms binvD [OF assms(1)] buf_inv_key [of s i]
  by (intro view_cached) (auto simp: bkey_def)

lemma find_Some_mem: "find P xs = Some b \<Longrightarrow> b \<in> set xs \<and> P b"
  by (auto simp: find_Some_iff)

lemma bget_hit:
  assumes "binv s" "i < NBUF" "bkey (bufs s i) = (dev, bno)" "dev \<noteq> 0" "i \<notin> held s"
  shows "bget dev bno s = Inr (i, setb i (\<lambda>bp. bp\<lparr>b_refcnt := 1,
           b_lock := \<lparr>sl_locked = True, sl_pid = cur_pid s\<rparr>\<rparr>) s)"
proof -
  obtain xs where xs: "ring (bufs s) xs" using assms(1) by (auto simp: binv_def)
  let ?P = "\<lambda>bp. b_dev bp = dev \<and> b_blockno bp = bno"
  have "find (\<lambda>b. ?P (bufs s b)) xs \<noteq> None"
    using xs assms(2,3) by (auto simp: find_None_iff ring_def bkey_def)
  then obtain b where b: "find (\<lambda>b. ?P (bufs s b)) xs = Some b" by auto
  then have "b \<in> set xs" "?P (bufs s b)" using find_Some_mem [OF b] by auto
  then have "b < NBUF" "bkey (bufs s b) = bkey (bufs s i)"
    using xs assms(3) by (auto simp: ring_def bkey_def)
  then have "b = i"
    using binvD(1) [OF assms(1)] assms(2-4) by (auto simp: uniq_def bkey_def)
  moreover have "b_refcnt (bufs s i) = 0" "\<not> sl_locked (b_lock (bufs s i))"
    using assms(2,5) binvD(5) [OF assms(1), of i] by (auto simp: buf_inv_def held_def Let_def)
  ultimately show ?thesis
    using b ring_scan(1) [OF xs, of ?P]
    by (simp add: bget_def lock_buf_def acquiresleep_def bnd_run ret_run setb_def sleeplock_eq
        del: scan.simps)
qed

lemma bget_miss:
  assumes "binv s" "\<And>i. i < NBUF \<Longrightarrow> bkey (bufs s i) \<noteq> (dev, bno)" "held s \<union> dirty s \<noteq> {0..<NBUF}"
  shows "\<exists>b < NBUF. b \<notin> held s \<and> b \<notin> dirty s \<and>
     bget dev bno s = Inr (b, setb b (\<lambda>bp. bp\<lparr>b_dev := dev, b_blockno := bno, b_valid := False,
       b_dirty := False, b_refcnt := 1, b_lock := \<lparr>sl_locked = True, sl_pid = cur_pid s\<rparr>\<rparr>) s)"
proof -
  obtain xs where xs: "ring (bufs s) xs" using assms(1) by (auto simp: binv_def)
  let ?P = "\<lambda>bp. b_dev bp = dev \<and> b_blockno bp = bno"
  let ?R = "\<lambda>bp. b_refcnt bp = 0 \<and> \<not> b_dirty bp"
  have n: "find (\<lambda>b. ?P (bufs s b)) xs = None"
    using xs assms(2) by (auto simp: find_None_iff ring_def bkey_def)
  have sub: "held s \<union> dirty s \<subseteq> {0..<NBUF}" by (auto simp: held_def dirty_def)
  then obtain i where "i \<in> {0..<NBUF}" "i \<notin> held s \<union> dirty s" using assms(3) by blast
  then have i: "i < NBUF" "i \<notin> held s" "i \<notin> dirty s" by auto
  then have "?R (bufs s i)"
    using binvD(5) [OF assms(1), of i] by (auto simp: buf_inv_def held_def dirty_def Let_def)
  then have "find (\<lambda>b. ?R (bufs s b)) (rev xs) \<noteq> None"
    using xs i by (auto simp: find_None_iff ring_def)
  then obtain b where b: "find (\<lambda>b. ?R (bufs s b)) (rev xs) = Some b" by auto
  then have R: "b \<in> set xs" "?R (bufs s b)" using find_Some_mem [OF b] by auto
  then have "b < NBUF" using xs by (auto simp: ring_def)
  moreover from this R(2) have l: "\<not> sl_locked (b_lock (bufs s b))"
    using binvD(5) [OF assms(1), of b] by (auto simp: buf_inv_def Let_def split: if_splits)
  moreover have "bget dev bno s = Inr (b, setb b (\<lambda>bp. bp\<lparr>b_dev := dev, b_blockno := bno,
       b_valid := False, b_dirty := False, b_refcnt := 1,
       b_lock := \<lparr>sl_locked = True, sl_pid = cur_pid s\<rparr>\<rparr>) s)"
    using b n l ring_scan(1) [OF xs, of ?P] ring_scan(2) [OF xs, of ?R]
    by (simp add: bget_def lock_buf_def acquiresleep_def bnd_run ret_run setb_def sleeplock_eq
        del: scan.simps)
  ultimately show ?thesis using R(2) by (auto simp: held_def dirty_def)
qed

text \<open>Changing one buffer, and the drive's address register.\<close>

lemma binv_setb:
  assumes "binv s" "b < NBUF" "\<And>bp. b_next (f bp) = b_next bp" "\<And>bp. b_prev (f bp) = b_prev bp"
    and "t = setb b f (s\<lparr>ide_lba := l\<rparr>)" "buf_inv t b"
    and "\<And>i. i < NBUF \<Longrightarrow> i \<noteq> b \<Longrightarrow> bkey (f (bufs s b)) \<noteq> bkey (bufs s i) \<or> b_dev (f (bufs s b)) = 0"
  shows "binv t"
proof -
  obtain xs where xs: "ring (bufs s) xs" using assms(1) by (auto simp: binv_def)
  have "ring (bufs t) xs"
    using xs assms(3,4,5) ring_cong [of "bufs t" "bufs s" xs] by (auto simp: setb_def)
  moreover have "buf_inv t i" if "i < NBUF" for i
  proof (cases "i = b")
    case False
    then have "bufs t i = bufs s i" "dblk t = dblk s" "cur_pid t = cur_pid s"
      using assms(5) by (auto simp: setb_def dblk_def fun_eq_iff)
    then show ?thesis
      using binvD(5) [OF assms(1) that] by (simp add: buf_inv_def clean_def)
  qed (use assms(6) in simp)
  moreover have "uniq (bufs t)"
    unfolding uniq_def
  proof (intro allI impI)
    fix i j
    assume a: "i < NBUF" "j < NBUF" "b_dev (bufs t i) \<noteq> 0 \<and> bkey (bufs t i) = bkey (bufs t j)"
    then have "b_dev (bufs t j) \<noteq> 0" by (auto simp: bkey_def)
    with a show "i = j"
      using binvD(1) [OF assms(1)] assms(5) assms(7) [of i] assms(7) [of j]
      by (auto simp: setb_def uniq_def split: if_splits)
  qed
  ultimately show ?thesis
    using binvD(2-4) [OF assms(1)] assms(5) by (auto simp: binv_def setb_def)
qed

lemma view_unchanged:
  assumes "binv s" "binv t" "dblk t = dblk s"
    and "\<And>i. i < NBUF \<Longrightarrow> i \<noteq> b \<Longrightarrow> core (bufs t i) = core (bufs s i)"
    and "b < NBUF \<Longrightarrow> b_valid (bufs s b) \<Longrightarrow> clean s b \<or>
       b_valid (bufs t b) \<and> bkey (bufs t b) = bkey (bufs s b) \<and> b_data (bufs t b) = b_data (bufs s b)"
    and "b < NBUF \<Longrightarrow> b_valid (bufs t b) \<Longrightarrow>
       b_data (bufs t b) = view s (b_dev (bufs t b)) (b_blockno (bufs t b))"
  shows "view t = view s"
proof (rule ext, rule ext)
  fix d n
  show "view t d n = view s d n"
  proof (cases "\<exists>i < NBUF. b_valid (bufs t i) \<and> bkey (bufs t i) = (d, n)")
    case True
    then obtain i where i: "i < NBUF" "b_valid (bufs t i)" "bkey (bufs t i) = (d, n)" by blast
    have vt: "view t d n = b_data (bufs t i)"
      using view_at [OF assms(2) i(1,2)] i(3) by (simp add: bkey_def)
    show ?thesis
    proof (cases "i = b")
      case True
      then show ?thesis using vt assms(6) i by (simp add: bkey_def)
    next
      case False
      then have c: "core (bufs t i) = core (bufs s i)" using assms(4) i(1) by blast
      then have "b_valid (bufs s i)" "bkey (bufs s i) = (d, n)" "b_data (bufs s i) = b_data (bufs t i)"
        using i(2,3) coreD [OF c] bkey_core [OF c] by auto
      then show ?thesis
        using vt view_at [OF assms(1) i(1)] by (simp add: bkey_def)
    qed
  next
    case False
    then have vt: "view t d n = lblk t d n"
      by (intro view_uncached) auto
    show ?thesis
    proof (cases "\<exists>i < NBUF. b_valid (bufs s i) \<and> bkey (bufs s i) = (d, n)")
      case True
      then obtain i where i: "i < NBUF" "b_valid (bufs s i)" "bkey (bufs s i) = (d, n)" by blast
      have "i = b"
      proof (rule ccontr)
        assume "i \<noteq> b"
        then have c: "core (bufs t i) = core (bufs s i)" using assms(4) i(1) by blast
        then show False using False i coreD(1) [OF c] bkey_core [OF c] by auto
      qed
      then have "clean s b" using assms(5) False i by auto
      moreover have "blk_ok d n"
        using binvD(5) [OF assms(1) i(1)] i(2,3) by (auto simp: buf_inv_def bkey_def Let_def)
      ultimately show ?thesis
        using vt assms(3) i \<open>i = b\<close> view_at [OF assms(1) i(1,2)]
        by (simp add: clean_def bkey_def lblk_def)
    next
      case False
      then have "view s d n = lblk s d n" by (intro view_uncached) auto
      then show ?thesis using vt assms(3) by (simp add: lblk_def)
    qed
  qed
qed

definition bgot :: "'z bstate_scheme \<Rightarrow> nat \<Rightarrow> nat \<Rightarrow> nat \<Rightarrow> 'z bstate_scheme \<Rightarrow> bool" where
  "bgot s dev bno b t \<longleftrightarrow>
     b < NBUF \<and> b \<notin> held s \<and> held t = insert b (held s) \<and> dirty t = dirty s \<and>
     (\<forall>i. i \<noteq> b \<longrightarrow> core (bufs t i) = core (bufs s i)) \<and>
     (b \<in> dirty s \<longrightarrow> bkey (bufs s b) = (dev, bno)) \<and>
     b_valid (bufs t b) \<and> bkey (bufs t b) = (dev, bno) \<and> b_data (bufs t b) = view s dev bno \<and>
     (b \<in> dirty t \<or> clean t b) \<and>
     binv t \<and> view t = view s \<and> disk t = disk s \<and> dwrites t = dwrites s \<and> bframe s t"

lemma buf_inv_core:
  assumes "core (bufs t i) = core (bufs s i)" "dblk t = dblk s" "cur_pid t = cur_pid s"
  shows "buf_inv t i = buf_inv s i"
  using assms(2,3) coreD [OF assms(1)] by (simp add: buf_inv_def clean_def Let_def)

lemma uniq_core: "(\<And>i. i < NBUF \<Longrightarrow> core (bs' i) = core (bs i)) \<Longrightarrow> uniq bs' = uniq bs"
proof -
  assume c: "\<And>i. i < NBUF \<Longrightarrow> core (bs' i) = core (bs i)"
  have "b_dev (bs' i) = b_dev (bs i)" "bkey (bs' i) = bkey (bs i)" if "i < NBUF" for i
    using coreD(3) [OF c [OF that]] bkey_core [OF c [OF that]] by auto
  then show ?thesis by (simp add: uniq_def)
qed

lemma held_setb: "b < NBUF \<Longrightarrow>
   held (setb b f s) = (if sl_locked (b_lock (f (bufs s b))) then insert b (held s) else held s - {b})"
  by (auto simp: held_def)

lemma dirty_setb: "b < NBUF \<Longrightarrow>
   dirty (setb b f s) = (if b_dirty (f (bufs s b)) then insert b (dirty s) else dirty s - {b})"
  by (auto simp: dirty_def)

lemma held_lba [simp]: "held (s\<lparr>ide_lba := l\<rparr>) = held s" "dirty (s\<lparr>ide_lba := l\<rparr>) = dirty s"
  "dblk (s\<lparr>ide_lba := l\<rparr>) = dblk s"
  by (simp_all add: held_def dirty_def dblk_def fun_eq_iff)

lemma bread_hit:
  assumes "binv s" "i < NBUF" "bkey (bufs s i) = (dev, bno)" "blk_ok dev bno" "i \<notin> held s"
    "b_valid (bufs s i)"
  shows "wp (bread dev bno) (bgot s dev bno) s"
proof -
  define t where "t = setb i (\<lambda>bp. bp\<lparr>b_refcnt := 1, b_lock := \<lparr>sl_locked = True, sl_pid = cur_pid s\<rparr>\<rparr>) s"
  have dev: "dev \<noteq> 0" using assms(4) by (metis blk_ok_dev)
  have run: "bread dev bno s = Inr (i, t)"
    using bget_hit [OF assms(1-3) dev assms(5)] assms(6) by (simp add: bread_def bnd_run ret_run t_def)
  have bi: "buf_inv s i" by (rule binvD(5) [OF assms(1,2)])
  have t: "binv t"
  proof (rule binv_setb [OF assms(1,2) _ _ _ _])
    show "t = setb i (\<lambda>bp. bp\<lparr>b_refcnt := 1, b_lock := \<lparr>sl_locked = True, sl_pid = cur_pid s\<rparr>\<rparr>)
       (s\<lparr>ide_lba := ide_lba s\<rparr>)" by (simp add: t_def)
    show "buf_inv t i" using bi assms(6) by (simp add: t_def buf_inv_def Let_def)
    show "bkey ((bufs s i)\<lparr>b_refcnt := 1, b_lock := \<lparr>sl_locked = True, sl_pid = cur_pid s\<rparr>\<rparr>) \<noteq>
        bkey (bufs s j) \<or> b_dev ((bufs s i)\<lparr>b_refcnt := 1, b_lock :=
        \<lparr>sl_locked = True, sl_pid = cur_pid s\<rparr>\<rparr>) = 0" if "j < NBUF" "j \<noteq> i" for j
      using binv_key_neq [OF assms(1,2) that(1)] that(2)
      by (cases "b_dev (bufs s j) = 0") (auto simp: bkey_def)
  qed simp_all
  have "view t = view s"
    by (rule view_unchanged [OF assms(1) t, where b = i])
       (use assms view_at [OF assms(1,2,6)] in \<open>auto simp: t_def bkey_def\<close>)
  moreover have "b_data (bufs t i) = view s dev bno"
    using view_at [OF assms(1,2,6)] assms(3) by (simp add: t_def bkey_def)
  moreover have "i \<in> dirty t \<or> clean t i"
    using bi assms(2,5,6) by (auto simp: t_def dirty_def clean_def buf_inv_def Let_def held_def)
  ultimately show ?thesis
    using assms t by (auto simp: wp_iff run bgot_def t_def held_setb dirty_setb bframe_def dirty_def bkey_def)
qed

lemma bread_fill:
  assumes "binv s" "b < NBUF" "blk_ok dev bno" "b \<notin> held s" "b \<notin> dirty s"
    and key: "\<And>i. i < NBUF \<Longrightarrow> i \<noteq> b \<Longrightarrow> bkey (bufs s i) \<noteq> (dev, bno)"
    and nv: "bkey (bufs s b) = (dev, bno) \<Longrightarrow> \<not> b_valid (bufs s b)"
    and run: "bget dev bno s = Inr (b, setb b (\<lambda>bp. bp\<lparr>b_dev := dev, b_blockno := bno, b_valid := False,
       b_dirty := False, b_refcnt := 1, b_lock := \<lparr>sl_locked = True, sl_pid = cur_pid s\<rparr>\<rparr>) s)"
  shows "wp (bread dev bno) (bgot s dev bno) s"
proof -
  let ?u = "setb b (\<lambda>bp. bp\<lparr>b_dev := dev, b_blockno := bno, b_valid := False,
       b_dirty := False, b_refcnt := 1, b_lock := \<lparr>sl_locked = True, sl_pid = cur_pid s\<rparr>\<rparr>) s"
  let ?l = "(ide_lba s)(ide_port dev := ide_sector bno)"
  define t where "t = setb b (\<lambda>bp. bp\<lparr>b_dev := dev, b_blockno := bno, b_data := dblk s dev bno,
       b_valid := True, b_dirty := False, b_refcnt := 1,
       b_lock := \<lparr>sl_locked = True, sl_pid = cur_pid s\<rparr>\<rparr>) (s\<lparr>ide_lba := ?l\<rparr>)"
  have "iderw b ?u = Inr ((), t)"
    using assms(3) binvD(2-4) [OF assms(1)]
    by (subst iderw_read; cases "bufs s b") (auto simp: holdingsleep_def t_def setb_def dblk_def)
  then have r: "bread dev bno s = Inr (b, t)"
    by (simp add: bread_def bnd_run run ret_run)
  have t: "binv t"
    using assms(3) key
    by (intro binv_setb [OF assms(1,2) _ _ t_def])
       (auto simp: t_def buf_inv_def Let_def setb_def bkey_def dblk_def clean_def)
  have "view s dev bno = lblk s dev bno"
    using key nv assms(2) by (intro view_uncached) metis
  then have un: "view s dev bno = dblk s dev bno" using assms(3) by (simp add: lblk_def)
  have "view t = view s"
    by (rule view_unchanged [OF assms(1) t, where b = b])
       (use binvD(5) [OF assms(1,2)] assms(2,4,5) un in
         \<open>auto simp: t_def buf_inv_def Let_def held_def dirty_def\<close>)
  moreover have "clean t b" by (auto simp: t_def clean_def dblk_def)
  ultimately show ?thesis
    using assms t un
    by (auto simp: wp_iff r bgot_def t_def held_setb dirty_setb bframe_def bkey_def)
qed

lemma bread_contract:
  assumes "binv s" "blk_ok dev bno" "\<And>i. i \<in> held s \<Longrightarrow> bkey (bufs s i) \<noteq> (dev, bno)"
    and "held s \<union> dirty s \<noteq> {0..<NBUF} \<or> (\<exists>i < NBUF. bkey (bufs s i) = (dev, bno))"
  shows "wp (bread dev bno) (bgot s dev bno) s"
proof (cases "\<exists>i < NBUF. bkey (bufs s i) = (dev, bno)")
  case True
  then obtain i where i: "i < NBUF" "bkey (bufs s i) = (dev, bno)" by blast
  then have nh: "i \<notin> held s" using assms(3) by blast
  show ?thesis
  proof (cases "b_valid (bufs s i)")
    case True
    then show ?thesis using bread_hit [OF assms(1) i assms(2) nh] by blast
  next
    case False
    have dev: "dev \<noteq> 0" using assms(2) by (metis blk_ok_dev)
    have nd: "\<not> b_dirty (bufs s i)"
      using False binvD(5) [OF assms(1) i(1)] by (auto simp: buf_inv_def Let_def)
    have "bget dev bno s = Inr (i, setb i (\<lambda>bp. bp\<lparr>b_dev := dev, b_blockno := bno, b_valid := False,
       b_dirty := False, b_refcnt := 1, b_lock := \<lparr>sl_locked = True, sl_pid = cur_pid s\<rparr>\<rparr>) s)"
      using bget_hit [OF assms(1) i dev nh] False nd i(2)
      by (cases "bufs s i") (auto simp: setb_def bkey_def)
    then show ?thesis
      using False nd nh i binvD(1) [OF assms(1)] dev
      by (intro bread_fill [OF assms(1) i(1) assms(2) nh])
         (auto simp: dirty_def uniq_def bkey_def)
  qed
next
  case False
  then obtain b where "b < NBUF" "b \<notin> held s" "b \<notin> dirty s"
    "bget dev bno s = Inr (b, setb b (\<lambda>bp. bp\<lparr>b_dev := dev, b_blockno := bno, b_valid := False,
       b_dirty := False, b_refcnt := 1, b_lock := \<lparr>sl_locked = True, sl_pid = cur_pid s\<rparr>\<rparr>) s)"
    using bget_miss [OF assms(1), of dev bno] assms(4) by blast
  with False show ?thesis by (intro bread_fill [OF assms(1) _ assms(2)]) auto
qed

lemma heldD:
  assumes "binv s" "b \<in> held s"
  shows "b < NBUF" "holdingsleep (cur_pid s) (b_lock (bufs s b))" "b_valid (bufs s b)"
    "b_refcnt (bufs s b) = 1" "blk_ok (b_dev (bufs s b)) (b_blockno (bufs s b))"
    "sl_locked (b_lock (bufs s b))" "b_dev (bufs s b) \<noteq> 0"
proof -
  show b: "b < NBUF" using assms(2) by (simp add: held_def)
  show "holdingsleep (cur_pid s) (b_lock (bufs s b))" "b_valid (bufs s b)"
    "b_refcnt (bufs s b) = 1" "blk_ok (b_dev (bufs s b)) (b_blockno (bufs s b))"
    "sl_locked (b_lock (bufs s b))"
    using binvD(5) [OF assms(1) b] assms(2)
    by (auto simp: buf_inv_def held_def Let_def holdingsleep_def split: if_splits)
  then show "b_dev (bufs s b) \<noteq> 0" using buf_inv_key [OF binvD(5) [OF assms(1) b]] by blast
qed

definition bmodded :: "'z bstate_scheme \<Rightarrow> nat \<Rightarrow> (block \<Rightarrow> block) \<Rightarrow> 'z bstate_scheme \<Rightarrow> bool" where
  "bmodded s b f t \<longleftrightarrow>
     binv t \<and> held t = held s \<and> dirty t = dirty s \<and> disk t = disk s \<and> dwrites t = dwrites s \<and> bframe s t \<and>
     (\<forall>i. i \<noteq> b \<longrightarrow> bufs t i = bufs s i) \<and> bkey (bufs t b) = bkey (bufs s b) \<and>
     b_data (bufs t b) = f (b_data (bufs s b)) \<and>
     view t = (\<lambda>d n. if (d, n) = bkey (bufs s b) then f (view s d n) else view s d n)"

lemma bmod_contract:
  assumes "binv s" "b \<in> held s"
  shows "wp (bmod b f) (\<lambda>_ t. bmodded s b f t) s"
proof -
  note h = heldD [OF assms]
  define t where "t = setb b (\<lambda>bp. bp\<lparr>b_data := f (b_data bp)\<rparr>) s"
  have bt: "binv t"
  proof (rule binv_setb [OF assms(1) h(1) _ _ _ _])
    show "t = setb b (\<lambda>bp. bp\<lparr>b_data := f (b_data bp)\<rparr>) (s\<lparr>ide_lba := ide_lba s\<rparr>)"
      by (simp add: t_def)
    show "buf_inv t b"
      using binvD(5) [OF assms(1) h(1)] h(6) by (auto simp: t_def buf_inv_def Let_def)
    show "bkey ((bufs s b)\<lparr>b_data := f (b_data (bufs s b))\<rparr>) \<noteq> bkey (bufs s i) \<or>
        b_dev ((bufs s b)\<lparr>b_data := f (b_data (bufs s b))\<rparr>) = 0" if "i < NBUF" "i \<noteq> b" for i
      using binv_key_neq [OF assms(1) h(1) that(1)] that(2) h(7) by (auto simp: bkey_def)
  qed simp_all
  have "view t d n = (if (d, n) = bkey (bufs s b) then f (view s d n) else view s d n)" for d n
  proof (cases "(d, n) = bkey (bufs s b)")
    case True
    have "view t (b_dev (bufs t b)) (b_blockno (bufs t b)) = b_data (bufs t b)"
      by (rule view_at [OF bt h(1)]) (simp add: t_def h(3))
    then show ?thesis using True view_at [OF assms(1) h(1,3)] by (simp add: t_def bkey_def)
  next
    case False
    have "find (\<lambda>i. b_valid (bufs t i) \<and> b_dev (bufs t i) = d \<and> b_blockno (bufs t i) = n) [0..<NBUF]
        = find (\<lambda>i. b_valid (bufs s i) \<and> b_dev (bufs s i) = d \<and> b_blockno (bufs s i) = n) [0..<NBUF]"
      by (rule arg_cong [where f = "\<lambda>P. find P _"]) (auto simp: t_def fun_eq_iff)
    moreover have "b_data (bufs t i) = b_data (bufs s i)"
      if "find (\<lambda>i. b_valid (bufs s i) \<and> b_dev (bufs s i) = d \<and> b_blockno (bufs s i) = n) [0..<NBUF] = Some i"
      for i using find_Some_mem [OF that] False by (auto simp: t_def bkey_def)
    ultimately show ?thesis
      using False by (auto simp: view_def t_def lblk_def split: option.split)
  qed
  then have "bmodded s b f t"
    using bt by (auto simp: bmodded_def t_def held_def dirty_def bframe_def bkey_def fun_eq_iff)
  then show ?thesis by (simp add: bmod_def wp_simps t_def)
qed

definition bwritten :: "'z bstate_scheme \<Rightarrow> nat \<Rightarrow> 'z bstate_scheme \<Rightarrow> bool" where
  "bwritten s b t \<longleftrightarrow>
     binv t \<and> held t = held s \<and> dirty t = dirty s - {b} \<and> bframe s t \<and> view t = view s \<and> clean t b \<and>
     (\<forall>i. i \<noteq> b \<longrightarrow> bufs t i = bufs s i) \<and> bkey (bufs t b) = bkey (bufs s b) \<and>
     b_data (bufs t b) = b_data (bufs s b) \<and>
     (\<forall>d n. blk_ok d n \<longrightarrow> dblk t d n =
        (if (d, n) = bkey (bufs s b) then b_data (bufs s b) else dblk s d n)) \<and>
     (let p = ide_port (b_dev (bufs s b)); k = ide_sector (b_blockno (bufs s b)) in
      disk t = (disk s)(p := (disk s p)(k := b_data (bufs s b))) \<and>
      dwrites t = dwrites s @ [(p, k, b_data (bufs s b))])"

lemma bwrite_contract:
  assumes "binv s" "b \<in> held s"
  shows "wp (bwrite b) (\<lambda>_ t. bwritten s b t) s"
proof -
  note h = heldD [OF assms]
  let ?p = "ide_port (b_dev (bufs s b))" and ?k = "ide_sector (b_blockno (bufs s b))"
  define t where "t = setb b (\<lambda>bp. bp\<lparr>b_valid := True, b_dirty := False\<rparr>)
     (s\<lparr>ide_lba := (ide_lba s)(?p := ?k), disk := (disk s)(?p := (disk s ?p)(?k := b_data (bufs s b))),
        dwrites := dwrites s @ [(?p, ?k, b_data (bufs s b))]\<rparr>)"
  have "iderw b (setb b (\<lambda>bp. bp\<lparr>b_dirty := True\<rparr>) s) = Inr ((), t)"
    using h binvD(2-4) [OF assms(1)]
    by (subst iderw_write; cases "bufs s b") (auto simp: t_def setb_def Let_def)
  then have run: "bwrite b s = Inr ((), t)"
    using h(2) by (simp add: bwrite_def)
  have d: "dblk t d n = (if (d, n) = bkey (bufs s b) then b_data (bufs s b) else dblk s d n)"
    if "blk_ok d n" for d n
    using blk_ok_inj [OF that h(5)] by (auto simp: t_def dblk_def bkey_def)
  have bt: "bufs t = (bufs s)(b := (bufs s b)\<lparr>b_valid := True, b_dirty := False\<rparr>)"
    by (simp add: t_def)
  have bi: "buf_inv t i" if i: "i < NBUF" for i
  proof (cases "i = b")
    case True
    then show ?thesis using binvD(5) [OF assms(1) h(1)] h
      by (auto simp: buf_inv_def Let_def bt clean_def d t_def)
  next
    case False
    have "clean t i" if "b_valid (bufs s i)" "clean s i"
    proof -
      have ok: "blk_ok (b_dev (bufs s i)) (b_blockno (bufs s i))"
        using binvD(5) [OF assms(1) i] that(1) by (simp add: buf_inv_def Let_def)
      then have "b_dev (bufs s i) \<noteq> 0" by (metis blk_ok_dev)
      then have "bkey (bufs s i) \<noteq> bkey (bufs s b)"
        using binv_key_neq [OF assms(1) i h(1) False] by blast
      then show ?thesis using that(2) d [OF ok] False by (auto simp: clean_def bt bkey_def)
    qed
    then show ?thesis
      using binvD(5) [OF assms(1) i] False by (auto simp: buf_inv_def Let_def bt t_def)
  qed
  obtain xs where xs: "ring (bufs s) xs" using assms(1) by (auto simp: binv_def)
  have rg: "ring (bufs t) xs" using xs ring_cong [of "bufs t" "bufs s" xs] by (auto simp: bt)
  have keys: "bkey (bufs t i) = bkey (bufs s i)" "b_dev (bufs t i) = b_dev (bufs s i)" for i
    by (simp_all add: bt bkey_def)
  have uq: "uniq (bufs t)" using binvD(1) [OF assms(1)] by (simp add: uniq_def keys)
  have inv: "binv t" using rg bi uq binvD(2-4) [OF assms(1)] by (auto simp: binv_def t_def)
  have "view t d n = view s d n" for d n
  proof -
    have P: "(b_valid (bufs t i) \<and> b_dev (bufs t i) = d \<and> b_blockno (bufs t i) = n) =
        (b_valid (bufs s i) \<and> b_dev (bufs s i) = d \<and> b_blockno (bufs s i) = n)"
       "b_data (bufs t i) = b_data (bufs s i)" for i
      using h(3) by (auto simp: bt)
    have "lblk t d n = lblk s d n"
      if "find (\<lambda>i. b_valid (bufs s i) \<and> b_dev (bufs s i) = d \<and> b_blockno (bufs s i) = n) [0..<NBUF] = None"
      using that h(1,3) d [of d n] by (auto simp: lblk_def find_None_iff bkey_def)
    then show ?thesis by (auto simp: view_def P split: option.split)
  qed
  then have "view t = view s" by (simp add: fun_eq_iff)
  moreover have "held t = held s" "dirty t = dirty s - {b}"
    using h(1) by (auto simp: held_def dirty_def bt)
  moreover have "clean t b" using d [OF h(5)] by (simp add: clean_def bt bkey_def)
  moreover have "bframe s t" by (simp add: bframe_def t_def)
  moreover have "disk t = (disk s)(?p := (disk s ?p)(?k := b_data (bufs s b)))"
    "dwrites t = dwrites s @ [(?p, ?k, b_data (bufs s b))]" by (simp_all add: t_def)
  moreover have "bufs t i = bufs s i" if "i \<noteq> b" for i using that by (simp add: bt)
  moreover have "b_data (bufs t b) = b_data (bufs s b)" by (simp add: bt)
  ultimately have "bwritten s b t"
    unfolding bwritten_def Let_def using inv d keys by blast
  with run show ?thesis by (simp add: wp_iff)
qed

definition breleased :: "'z bstate_scheme \<Rightarrow> nat \<Rightarrow> 'z bstate_scheme \<Rightarrow> bool" where
  "breleased s b t \<longleftrightarrow>
     binv t \<and> held t = held s - {b} \<and> dirty t = dirty s \<and> disk t = disk s \<and> dwrites t = dwrites s \<and>
     bframe s t \<and> view t = view s \<and>
     (\<forall>i. i \<noteq> b \<longrightarrow> core (bufs t i) = core (bufs s i)) \<and> bkey (bufs t b) = bkey (bufs s b) \<and>
     b_data (bufs t b) = b_data (bufs s b)"

lemma brelse_contract:
  assumes "binv s" "b \<in> held s" "b \<in> dirty s \<or> clean s b"
  shows "wp (brelse b) (\<lambda>_ t. breleased s b t) s"
proof -
  note h = heldD [OF assms(1,2)]
  define bs where "bs = (bufs s)(b := (bufs s b)\<lparr>b_lock := releasesleep (b_lock (bufs s b)), b_refcnt := 0\<rparr>)"
  define t where "t = s\<lparr>bufs := link_front b (unlink_buf b bs)\<rparr>"
  have run: "brelse b s = Inr ((), t)"
    using h(2,4) by (simp add: brelse_def Let_def setb_def t_def bs_def u32_def)
  have c: "core (bufs t i) = core (bs i)" for i by (simp add: t_def)
  have dk: "dblk t = dblk s" by (simp add: t_def dblk_def fun_eq_iff)
  obtain xs where xs: "ring (bufs s) xs" using assms(1) by (auto simp: binv_def)
  then have "b \<in> set xs" using h(1) by (auto simp: ring_def)
  then obtain ys zs where yz: "xs = ys @ b # zs" by (meson split_list)
  have "ring bs xs" using xs ring_cong [of bs "bufs s" xs] by (auto simp: bs_def)
  then have rg: "ring (bufs t) (b # ys @ zs)" unfolding t_def yz by (simp add: ring_touch)
  have oth: "core (bufs t i) = core (bufs s i)" if "i \<noteq> b" for i
    using c [of i] that by (simp add: bs_def)
  have tb: "b_valid (bufs t b)" "b_dirty (bufs t b) = b_dirty (bufs s b)" "bkey (bufs t b) = bkey (bufs s b)"
    "b_data (bufs t b) = b_data (bufs s b)" "\<not> sl_locked (b_lock (bufs t b))" "b_refcnt (bufs t b) = 0"
    using coreD [OF c [of b]] bkey_core [OF c [of b]] h(3)
    by (auto simp: bs_def releasesleep_def bkey_def)
  have bi: "buf_inv t i" if i: "i < NBUF" for i
  proof (cases "i = b")
    case True
    have "b_dirty (bufs t b) \<or> clean t b"
      using assms(3) tb by (auto simp: clean_def dk dirty_def bkey_def)
    then show ?thesis using True tb h(5) by (auto simp: buf_inv_def Let_def bkey_def)
  next
    case False
    then show ?thesis
      using binvD(5) [OF assms(1) i] buf_inv_core [OF oth [OF False] dk] by (simp add: t_def)
  qed
  have keys: "bkey (bufs t i) = bkey (bufs s i)" for i
    using tb(3) bkey_core [OF oth, of i] by (cases "i = b") auto
  have "b_dev (bufs t i) = b_dev (bufs s i)" for i using keys [of i] by (simp add: bkey_def)
  then have uq: "uniq (bufs t)" using binvD(1) [OF assms(1)] by (simp add: uniq_def keys)
  have inv: "binv t" using rg bi uq binvD(2-4) [OF assms(1)] by (auto simp: binv_def t_def)
  have vw: "view t = view s"
    by (rule view_unchanged [OF assms(1) inv dk, where b = b])
       (use oth tb view_at [OF assms(1) h(1,3)] in \<open>auto simp: bkey_def\<close>)
  have "sl_locked (b_lock (bufs t i)) = (i \<noteq> b \<and> sl_locked (b_lock (bufs s i)))"
    "b_dirty (bufs t i) = b_dirty (bufs s i)" for i
    using tb coreD(2,5) [OF oth, of i] by (cases "i = b"; simp)+
  then have "held t = held s - {b}" "dirty t = dirty s"
    by (auto simp: held_def dirty_def)
  then have "breleased s b t"
    unfolding breleased_def using inv vw oth tb by (auto simp: bframe_def t_def)
  with run show ?thesis by (simp add: wp_iff)
qed

subsection \<open>Between operations\<close>

text \<open>When no buffer is held, the cache is described by its logical contents, the disk, and the
  set of blocks that are pinned because they still have to be written.\<close>

definition quiet :: "'z bstate_scheme \<Rightarrow> bool" where
  "quiet s \<longleftrightarrow> binv s \<and> held s = {}"

definition dkeys :: "'z bstate_scheme \<Rightarrow> (nat \<times> nat) set" where
  "dkeys s = (\<lambda>i. bkey (bufs s i)) ` dirty s"

lemma finite_held_dirty [simp]: "finite (held s)" "finite (dirty s)" "finite (dkeys s)"
  by (auto simp: held_def dirty_def dkeys_def)

lemma inj_dkeys: "binv s \<Longrightarrow> inj_on (\<lambda>i. bkey (bufs s i)) (dirty s)"
proof (rule inj_onI)
  fix i j
  assume s: "binv s" and ij: "i \<in> dirty s" "j \<in> dirty s" "bkey (bufs s i) = bkey (bufs s j)"
  then have "i < NBUF" "j < NBUF" "b_valid (bufs s i)"
    using binvD(5) [OF s, of i] by (auto simp: dirty_def buf_inv_def Let_def)
  then show "i = j"
    using ij(3) binv_key_neq [OF s, of i j] buf_inv_key [OF binvD(5) [OF s]] by blast
qed

lemma card_dkeys: "binv s \<Longrightarrow> card (dkeys s) = card (dirty s)"
  unfolding dkeys_def by (rule card_image) (rule inj_dkeys)

lemma room_card:
  assumes "card (held s) + card (dirty s) < NBUF"
  shows "held s \<union> dirty s \<noteq> {0..<NBUF}"
proof
  assume "held s \<union> dirty s = {0..<NBUF}"
  then have "card (held s \<union> dirty s) = NBUF" by simp
  then show False using assms card_Un_le [of "held s" "dirty s"] by simp
qed

lemma dkeys_cached:
  "(d, n) \<in> dkeys s \<Longrightarrow> \<exists>i < NBUF. i \<in> dirty s \<and> bkey (bufs s i) = (d, n)"
  unfolding dkeys_def dirty_def by (auto simp: eq_commute)

lemma dkeys_same:
  assumes "dirty t = dirty s" "\<And>i. i \<in> dirty s \<Longrightarrow> bkey (bufs t i) = bkey (bufs s i)"
  shows "dkeys t = dkeys s"
  using assms by (simp add: dkeys_def)

lemma dkeys_got: "bgot s dev bno b t \<Longrightarrow> dkeys t = dkeys s"
proof (rule dkeys_same)
  assume g: "bgot s dev bno b t"
  then show "dirty t = dirty s" by (simp add: bgot_def)
  show "bkey (bufs t i) = bkey (bufs s i)" if "i \<in> dirty s" for i
    using g that bkey_core [of "bufs t i" "bufs s i"] by (cases "i = b") (auto simp: bgot_def)
qed

lemma dkeys_modded: "bmodded s b f t \<Longrightarrow> dkeys t = dkeys s"
proof (rule dkeys_same)
  assume g: "bmodded s b f t"
  then show "dirty t = dirty s" by (simp add: bmodded_def)
  show "bkey (bufs t i) = bkey (bufs s i)" for i
    using g by (cases "i = b") (auto simp: bmodded_def)
qed

lemma dkeys_released: "breleased s b t \<Longrightarrow> dkeys t = dkeys s"
proof (rule dkeys_same)
  assume g: "breleased s b t"
  then show "dirty t = dirty s" by (simp add: breleased_def)
  show "bkey (bufs t i) = bkey (bufs s i)" for i
    using g bkey_core [of "bufs t i" "bufs s i"] by (cases "i = b") (auto simp: breleased_def)
qed

lemma dkeys_written:
  assumes "binv s" "b \<in> held s" "bwritten s b t"
  shows "dkeys t = dkeys s - {bkey (bufs s b)}"
proof -
  have k: "bkey (bufs t i) = bkey (bufs s i)" for i
    using assms(3) by (cases "i = b") (auto simp: bwritten_def)
  have ne: False if "i \<in> dirty s" "i \<noteq> b" "bkey (bufs s b) = bkey (bufs s i)" for i
    using that binv_key_neq [OF assms(1) heldD(1) [OF assms(1,2)], of i] heldD(7) [OF assms(1,2)]
    by (auto simp: dirty_def)
  have "dkeys t = (\<lambda>i. bkey (bufs s i)) ` (dirty s - {b})"
    using assms(3) by (simp add: dkeys_def k bwritten_def)
  also have "\<dots> = dkeys s - {bkey (bufs s b)}"
    unfolding dkeys_def by (auto dest: ne)
  finally show ?thesis .
qed

text \<open>A held buffer may be released once its contents are on disk or pinned.\<close>

definition sync :: "'z bstate_scheme \<Rightarrow> nat \<Rightarrow> bool" where
  "sync s b \<longleftrightarrow> b \<in> dirty s \<or> clean s b"

text \<open>An operation on one buffer leaves the other held buffers alone.\<close>

definition stays :: "'z bstate_scheme \<Rightarrow> nat \<Rightarrow> 'z bstate_scheme \<Rightarrow> bool" where
  "stays s c t \<longleftrightarrow> c \<in> held t \<and> bkey (bufs t c) = bkey (bufs s c) \<and>
     b_data (bufs t c) = b_data (bufs s c) \<and> sync t c = sync s c"

lemma clean_cong:
  "bkey (bufs t c) = bkey (bufs s c) \<Longrightarrow> b_data (bufs t c) = b_data (bufs s c) \<Longrightarrow>
   dblk t (b_dev (bufs s c)) (b_blockno (bufs s c)) = dblk s (b_dev (bufs s c)) (b_blockno (bufs s c)) \<Longrightarrow>
   clean t c = clean s c"
  by (simp add: clean_def bkey_def)

lemma dblk_disk: "disk t = disk s \<Longrightarrow> dblk t = dblk s"
  by (simp add: dblk_def fun_eq_iff)

lemma got_stays: "bgot s d n b t \<Longrightarrow> c \<in> held s \<Longrightarrow> c \<noteq> b \<and> stays s c t"
proof -
  assume g: "bgot s d n b t" and c: "c \<in> held s"
  then have ne: "c \<noteq> b" by (auto simp: bgot_def)
  then have k: "core (bufs t c) = core (bufs s c)" using g by (simp add: bgot_def)
  have "clean t c = clean s c"
    using g bkey_core [OF k] coreD(7) [OF k] dblk_disk [of t s] by (intro clean_cong) (auto simp: bgot_def)
  then show ?thesis
    using g ne c bkey_core [OF k] coreD(7) [OF k] by (auto simp: stays_def sync_def bgot_def)
qed

lemma modded_stays: "bmodded s b f t \<Longrightarrow> c \<in> held s \<Longrightarrow> c \<noteq> b \<Longrightarrow> stays s c t"
  using dblk_disk [of t s] clean_cong [of t c s] by (auto simp: bmodded_def stays_def sync_def)

lemma released_stays: "breleased s b t \<Longrightarrow> c \<in> held s \<Longrightarrow> c \<noteq> b \<Longrightarrow> stays s c t"
proof -
  assume g: "breleased s b t" and c: "c \<in> held s" "c \<noteq> b"
  then have k: "core (bufs t c) = core (bufs s c)" by (simp add: breleased_def)
  have "clean t c = clean s c"
    using g bkey_core [OF k] coreD(7) [OF k] dblk_disk [of t s] by (intro clean_cong) (auto simp: breleased_def)
  then show ?thesis
    using g c bkey_core [OF k] coreD(7) [OF k] by (auto simp: stays_def sync_def breleased_def)
qed

lemma written_stays:
  assumes "binv s" "b \<in> held s" "bwritten s b t" "c \<in> held s" "c \<noteq> b"
  shows "stays s c t"
proof -
  note hb = heldD [OF assms(1,2)] and hc = heldD [OF assms(1,4)]
  have "bkey (bufs s c) \<noteq> bkey (bufs s b)"
    using binv_key_neq [OF assms(1) hc(1) hb(1) assms(5) hc(7)] .
  then have "clean t c = clean s c"
    using assms(3,5) hc(5) by (intro clean_cong) (auto simp: bwritten_def bkey_def)
  then show ?thesis using assms(3-5) by (auto simp: stays_def sync_def bwritten_def)
qed

lemma card_insert_held: "finite A \<Longrightarrow> a \<notin> A \<Longrightarrow> card (insert a A) = card A + 1"
  by simp

text \<open>Everything above depends on the cache and the driver alone, so the updates of the state's
  other fields leave it alone.\<close>

definition bsame :: "'z bstate_scheme \<Rightarrow> 'z bstate_scheme \<Rightarrow> bool" where
  "bsame s t \<longleftrightarrow> cur_pid t = cur_pid s \<and> disk t = disk s \<and> dwrites t = dwrites s \<and>
     havedisk1 t = havedisk1 s \<and> havedisk2 t = havedisk2 s \<and> idequeue t = idequeue s \<and> bufs t = bufs s"

lemma bsameD:
  assumes "bsame s t"
  shows "binv t = binv s" "held t = held s" "dirty t = dirty s" "dkeys t = dkeys s" "view t = view s"
    "quiet t = quiet s" "clean t b = clean s b" "dblk t = dblk s" "sync t b = sync s b"
proof -
  have d: "dblk t = dblk s" using assms by (simp add: bsame_def dblk_def fun_eq_iff)
  then have c: "clean t b = clean s b" for b using assms by (simp add: clean_def bsame_def)
  have v: "view t d n = view s d n" for d n
    using assms d by (simp add: view_def lblk_def bsame_def cong: option.case_cong)
  have b: "buf_inv t i = buf_inv s i" for i using assms c by (simp add: buf_inv_def bsame_def)
  show "dblk t = dblk s" "clean t b = clean s b" by fact+
  show "view t = view s" by (intro ext) (simp add: v)
  show h: "held t = held s" and dd: "dirty t = dirty s"
    using assms by (auto simp: held_def dirty_def bsame_def)
  then show "dkeys t = dkeys s" "sync t b = sync s b" using assms c
    by (simp_all add: dkeys_def sync_def bsame_def)
  show "binv t = binv s" using assms b by (simp add: binv_def bsame_def)
  then show "quiet t = quiet s" using h by (simp add: quiet_def)
qed

text \<open>Marking a held buffer dirty pins it.\<close>

lemma pin_ok:
  assumes "binv s" "b \<in> held s" "t = setb b (\<lambda>bp. bp\<lparr>b_dirty := True\<rparr>) s"
  shows "binv t" "held t = held s" "dirty t = insert b (dirty s)"
    "dkeys t = insert (bkey (bufs s b)) (dkeys s)" "view t = view s"
proof -
  note h = heldD [OF assms(1,2)]
  have cd: "b_valid (bufs t i) = b_valid (bufs s i)" "b_data (bufs t i) = b_data (bufs s i)"
    "b_dev (bufs t i) = b_dev (bufs s i)" "b_blockno (bufs t i) = b_blockno (bufs s i)"
    "bkey (bufs t i) = bkey (bufs s i)" for i
    by (simp_all add: assms(3) bkey_def)
  show "binv t"
  proof (rule binv_setb [OF assms(1) h(1)])
    show "t = setb b (\<lambda>bp. bp\<lparr>b_dirty := True\<rparr>) (s\<lparr>ide_lba := ide_lba s\<rparr>)" by (simp add: assms(3))
    show "buf_inv t b"
      using binvD(5) [OF assms(1) h(1)] h(3,6) by (auto simp: assms(3) buf_inv_def Let_def)
    show "bkey ((bufs s b)\<lparr>b_dirty := True\<rparr>) \<noteq> bkey (bufs s i) \<or> b_dev ((bufs s b)\<lparr>b_dirty := True\<rparr>) = 0"
      if "i < NBUF" "i \<noteq> b" for i
      using binv_key_neq [OF assms(1) h(1) that(1)] that(2) h(7) by (auto simp: bkey_def)
  qed simp_all
  show "held t = held s" and d: "dirty t = insert b (dirty s)"
    using h(1) by (auto simp: assms(3) held_def dirty_def)
  then show "dkeys t = insert (bkey (bufs s b)) (dkeys s)" by (simp add: dkeys_def cd)
  have "lblk t = lblk s" by (simp add: assms(3) lblk_def fun_eq_iff)
  then show "view t = view s" by (intro ext) (simp add: view_def cd cong: option.case_cong)
qed

subsection \<open>Frame of the block layer\<close>

text \<open>From any state at all, a call of the block layer that returns changes nothing outside it.\<close>

definition keeps :: "('z bstate_scheme, 'a) kern \<Rightarrow> bool" where
  "keeps m \<longleftrightarrow> (\<forall>s x t. m s = Inr (x, t) \<longrightarrow> bframe s t)"

lemma keepsD: "keeps m \<Longrightarrow> m s = Inr (x, t) \<Longrightarrow> bframe s t"
  by (auto simp: keeps_def)

lemma keeps_ret [intro, simp]: "keeps (ret x)"
  by (simp add: keeps_def ret_def)

lemma keeps_bnd [intro]: "keeps m \<Longrightarrow> (\<And>x. keeps (f x)) \<Longrightarrow> keeps (bnd m f)"
  unfolding keeps_def bnd_eq_Inr by (blast intro: bframe_trans)

lemma bframe_setb [simp]: "bframe s (setb b f t) = bframe s t" "bframe (setb b f s) t = bframe s t"
  by (simp_all add: bframe_def)

lemma bframe_fields [simp]:
  "bframe s (t\<lparr>disk := d\<rparr>) = bframe s t" "bframe s (t\<lparr>dwrites := w\<rparr>) = bframe s t"
  "bframe s (t\<lparr>idequeue := q\<rparr>) = bframe s t" "bframe s (t\<lparr>ide_lba := l\<rparr>) = bframe s t"
  "bframe s (t\<lparr>bufs := bs\<rparr>) = bframe s t" "bframe (s\<lparr>idequeue := q\<rparr>) t = bframe s t"
  by (simp_all add: bframe_def)

lemma keeps_idestart: "keeps (idestart b)"
  by (auto simp: keeps_def idestart_def Let_def split: if_splits)

lemma keeps_ideintr: "keeps (ideintr f)"
  unfolding keeps_def
proof (intro allI impI)
  fix s :: "'z bstate_scheme" and x t
  assume "ideintr f s = Inr (x, t)"
  then show "bframe s t"
    using keepsD [OF keeps_idestart]
    by (auto simp: ideintr_def Let_def split: list.splits) fastforce+
qed

lemma keeps_ide_wait: "keeps (ide_wait k b :: ('z bstate_scheme, unit) kern)"
proof (induction k)
  case 0
  then show ?case by (simp add: keeps_def fail_def)
next
  case (Suc k)
  show ?case
    unfolding keeps_def
  proof (intro allI impI)
    fix s :: "'z bstate_scheme" and x t
    assume r: "ide_wait (Suc k) b s = Inr (x, t)"
    show "bframe s t"
    proof (cases "b_valid (bufs s b) \<and> \<not> b_dirty (bufs s b)")
      case True
      then show ?thesis using r by simp
    next
      case False
      then obtain a q where q: "idequeue s = a # q" using r by (cases "idequeue s") auto
      have "bnd (ideintr (intr_flag (b_dev (bufs s a)))) (\<lambda>_. ide_wait k b) s = Inr (x, t)"
        using r False q by (simp split: if_splits)
      then show ?thesis by (rule keepsD [OF keeps_bnd [OF keeps_ideintr Suc]])
    qed
  qed
qed

lemma keeps_iderw: "keeps (iderw b)"
  unfolding keeps_def
proof (intro allI impI)
  fix s :: "'z bstate_scheme" and x t
  assume r: "iderw b s = Inr (x, t)"
  let ?q = "idequeue s @ [b]"
  let ?m = "bnd (if hd ?q = b then idestart b else ret ()) (\<lambda>_. ide_wait (length ?q + 1) b)"
  have "?m (s\<lparr>idequeue := ?q\<rparr>) = Inr (x, t)"
    using r by (simp add: iderw_def Let_def del: ide_wait.simps split: if_splits)
  then have "bframe (s\<lparr>idequeue := ?q\<rparr>) t"
    by (rule keepsD [rotated]) (intro keeps_bnd keeps_ide_wait, simp add: keeps_idestart)
  then show "bframe s t" by simp
qed

lemma keeps_lock: "keeps (lock_buf b)"
  by (auto simp: keeps_def lock_buf_def split: sum.splits)

lemma keeps_bget: "keeps (bget d n)"
proof -
  have *: "bframe s t" if "bnd (lock_buf b) (\<lambda>_. ret b) (setb b f s) = Inr (x, t)" for b f s t and x :: nat
    using keepsD [OF keeps_bnd [OF keeps_lock keeps_ret] that] by simp
  show ?thesis by (auto simp: keeps_def bget_def dest: * split: sum.splits option.splits)
qed

lemma keeps_bread: "keeps (bread d n)"
  unfolding bread_def
proof (rule keeps_bnd [OF keeps_bget])
  fix b
  have "keeps (bnd (iderw b) (\<lambda>_. ret b))" by (intro keeps_bnd keeps_iderw keeps_ret)
  then show "keeps (\<lambda>s. if \<not> b_valid (bufs s b) then bnd (iderw b) (\<lambda>_. ret b) s else ret b s)"
    by (auto simp: keeps_def ret_def)
qed

lemma keeps_bwrite: "keeps (bwrite b)"
proof -
  have *: "bframe s t" if "iderw b (setb b f s) = Inr (x, t)" for f s x t
    using keepsD [OF keeps_iderw that] by simp
  show ?thesis by (auto simp: keeps_def bwrite_def dest: * split: if_splits)
qed

lemma keeps_brelse: "keeps (brelse b)"
  by (auto simp: keeps_def brelse_def Let_def split: if_splits)

lemma keeps_bmod: "keeps (bmod b f)"
  by (auto simp: keeps_def bmod_def upd_def)

lemmas keeps_rules = keeps_bread keeps_bwrite keeps_brelse keeps_bmod

subsection \<open>Initialisation\<close>

text \<open>The cache of a kernel that has just been loaded: static data is zero.\<close>

definition zeroed :: "'z bstate_scheme \<Rightarrow> bool" where
  "zeroed s \<longleftrightarrow> (\<forall>i < NBUF. \<not> b_valid (bufs s i) \<and> \<not> b_dirty (bufs s i) \<and> b_dev (bufs s i) = 0 \<and> b_refcnt (bufs s i) = 0) \<and>
     idequeue s = []"

lemma link_front_fields [simp]:
  "b_valid (link_front b bs i) = b_valid (bs i)" "b_dirty (link_front b bs i) = b_dirty (bs i)"
  "b_dev (link_front b bs i) = b_dev (bs i)" "b_refcnt (link_front b bs i) = b_refcnt (bs i)"
  "b_lock (link_front b bs i) = b_lock (bs i)"
  using coreD [OF core_link_front [of b bs i]] by simp_all

lemma binit_loop_Suc:
  "binit_loop (Suc n) bs = link_front n ((binit_loop n bs)(n := (binit_loop n bs n)\<lparr>b_lock := initsleeplock\<rparr>))"
  by (simp add: binit_loop_def)

lemma binit_loop_fields:
  "b_valid (binit_loop n bs i) = b_valid (bs i)" "b_dirty (binit_loop n bs i) = b_dirty (bs i)"
  "b_dev (binit_loop n bs i) = b_dev (bs i)" "b_refcnt (binit_loop n bs i) = b_refcnt (bs i)"
  "b_lock (binit_loop n bs i) = (if i < n then initsleeplock else b_lock (bs i))"
proof (induction n)
  case 0
  show "b_valid (binit_loop 0 bs i) = b_valid (bs i)" "b_dirty (binit_loop 0 bs i) = b_dirty (bs i)"
    "b_dev (binit_loop 0 bs i) = b_dev (bs i)" "b_refcnt (binit_loop 0 bs i) = b_refcnt (bs i)"
    "b_lock (binit_loop 0 bs i) = (if i < 0 then initsleeplock else b_lock (bs i))"
    by (simp_all add: binit_loop_def)
qed (auto simp: binit_loop_Suc)

lemma binit_loop_seg:
  "n \<le> NBUF \<Longrightarrow> seg bs NBUF [] NBUF \<Longrightarrow> seg (binit_loop n bs) NBUF (rev [0..<n]) NBUF"
proof (induction n)
  case (Suc n)
  let ?bs = "(binit_loop n bs)(n := (binit_loop n bs n)\<lparr>b_lock := initsleeplock\<rparr>)"
  have "seg ?bs NBUF (rev [0..<n]) NBUF = seg (binit_loop n bs) NBUF (rev [0..<n]) NBUF"
    by (rule seg_cong) auto
  then have "seg (link_front n ?bs) NBUF (n # rev [0..<n]) NBUF"
    using Suc by (intro seg_link_front) auto
  then show ?case by (simp add: binit_loop_Suc)
qed (simp add: binit_loop_def)

lemma binit_ok:
  assumes "zeroed s" "havedisk1 s" "havedisk2 s"
  shows "quiet (binit s)" "dirty (binit s) = {}" "ring (bufs (binit s)) (rev [0..<NBUF])"
proof -
  let ?b0 = "set_next NBUF NBUF (set_prev NBUF NBUF (bufs s))"
  have f: "bufs (binit s) = binit_loop NBUF ?b0" by (simp add: binit_def)
  have z: "\<not> b_valid (?b0 i) \<and> \<not> b_dirty (?b0 i) \<and> b_dev (?b0 i) = 0 \<and> b_refcnt (?b0 i) = 0" if "i < NBUF" for i
    using assms(1) that by (simp add: zeroed_def set_next_def set_prev_def)
  have "seg ?b0 NBUF [] NBUF" by (simp add: set_next_def set_prev_def)
  from binit_loop_seg [OF order_refl this]
  show r: "ring (bufs (binit s)) (rev [0..<NBUF])" by (simp add: ring_def f)
  have "buf_inv (binit s) i" if "i < NBUF" for i
    using z [OF that] that by (simp add: buf_inv_def f binit_loop_fields Let_def initsleeplock_def)
  moreover have "uniq (bufs (binit s))" using z by (simp add: uniq_def f binit_loop_fields)
  ultimately have "binv (binit s)" using r assms by (auto simp: binv_def binit_def zeroed_def)
  then show "quiet (binit s)"
    by (auto simp: quiet_def held_def f binit_loop_fields initsleeplock_def)
  show "dirty (binit s) = {}" using z by (auto simp: dirty_def f binit_loop_fields)
qed

end
