(* ===== verification/Log.thy ===== *)
theory Log
  imports Bio
begin

section \<open>The redo log (log.c)\<close>

text \<open>
  The in-memory log header is the pair of the count \<open>lh_n\<close> and the array \<open>lh_block\<close>
  (\<open>struct logheader\<close>); on disk the header is block \<open>log_start\<close>, the logged copies follow it.
  \<open>begin_op\<close> waits while a commit runs or the log could overflow; alone, the thread would wait
  for ever, so the wait is the fault \<open>Blocked\<close>. The interleavings of several threads are the
  transition system at the end of the theory.
\<close>

subsection \<open>Superblock (fs.h, fs.c)\<close>

record superblock =
  sb_size :: nat
  sb_nblocks :: nat
  sb_ninodes :: nat
  sb_nlog :: nat
  sb_logstart :: nat
  sb_inodestart :: nat
  sb_bmapstart :: nat

definition dec_superblock :: "block \<Rightarrow> superblock" where
  "dec_superblock d = \<lparr>sb_size = rd32 d 0, sb_nblocks = rd32 d 4, sb_ninodes = rd32 d 8,
     sb_nlog = rd32 d 12, sb_logstart = rd32 d 16, sb_inodestart = rd32 d 20,
     sb_bmapstart = rd32 d 24\<rparr>"

definition readsb :: "nat \<Rightarrow> ('z bstate_scheme, superblock) kern" where
  "readsb dev =
     bnd (bread dev 1) (\<lambda>bp.
     bnd (gets (\<lambda>s. dec_superblock (b_data (bufs s bp)))) (\<lambda>sb.
     bnd (brelse bp) (\<lambda>_. ret sb)))"

subsection \<open>State\<close>

record lstate = bstate +
  log_start :: nat
  log_size :: nat
  outstanding :: int
  committing :: bool
  log_dev :: nat
  lh_n :: int
  lh_block :: "nat \<Rightarrow> nat"

subsection \<open>Operations\<close>

text \<open>The loop of \<open>install_trans\<close> from index \<open>tail\<close>, for \<open>k\<close> rounds. Copying all \<open>BSIZE\<close>
  bytes of a block replaces its contents.\<close>

fun install_loop :: "nat \<Rightarrow> nat \<Rightarrow> ('z lstate_scheme, unit) kern" where
  "install_loop tail 0 = ret ()"
| "install_loop tail (Suc k) = (\<lambda>s. let dev = log_dev s in
     bnd (bread dev (log_start s + tail + 1)) (\<lambda>lbuf.
     bnd (bread dev (lh_block s tail)) (\<lambda>dbuf.
     bnd (\<lambda>s. bmod dbuf (\<lambda>_. b_data (bufs s lbuf)) s) (\<lambda>_.
     bnd (bwrite dbuf) (\<lambda>_.
     bnd (brelse lbuf) (\<lambda>_.
     bnd (brelse dbuf) (\<lambda>_. install_loop (tail + 1) k)))))) s)"

definition install_trans :: "('z lstate_scheme, unit) kern" where
  "install_trans = (\<lambda>s. install_loop 0 (nat (lh_n s)) s)"

text \<open>A header with more than \<open>LOGSIZE\<close> entries would be copied past the end of \<open>log.lh.block\<close>.\<close>

definition s32 :: "nat \<Rightarrow> int" where
  "s32 n = (if n < 2147483648 then int n else int n - 4294967296)"

definition load_head :: "block \<Rightarrow> 'z lstate_scheme \<Rightarrow> 'z lstate_scheme" where
  "load_head d s = (let n = s32 (rd32 d 0) in
     s\<lparr>lh_n := n, lh_block := (\<lambda>i. if int i < n then rd32 d (4 + 4 * i) else lh_block s i)\<rparr>)"

definition read_head :: "('z lstate_scheme, unit) kern" where
  "read_head =
     bnd (\<lambda>s. bread (log_dev s) (log_start s) s) (\<lambda>b.
     bnd (\<lambda>s. if s32 (rd32 (b_data (bufs s b)) 0) > int LOGSIZE then Inl (Undef ''log.lh.block'')
              else Inr ((), load_head (b_data (bufs s b)) s)) (\<lambda>_.
     brelse b))"

text \<open>The header as \<open>write_head\<close> stores it into the block \<open>d\<close>.\<close>

fun put_head :: "(nat \<Rightarrow> nat) \<Rightarrow> nat \<Rightarrow> block \<Rightarrow> block" where
  "put_head bl 0 d = d"
| "put_head bl (Suc k) d = wr32 (put_head bl k d) (4 + 4 * k) (bl k)"

definition enc_head :: "int \<Rightarrow> (nat \<Rightarrow> nat) \<Rightarrow> block \<Rightarrow> block" where
  "enc_head n bl d = put_head bl (nat n) (wr32 d 0 (nat (n mod 4294967296)))"

definition write_head :: "('z lstate_scheme, unit) kern" where
  "write_head = (\<lambda>s.
     bnd (bread (log_dev s) (log_start s)) (\<lambda>b.
     bnd (bmod b (enc_head (lh_n s) (lh_block s))) (\<lambda>_.
     bnd (bwrite b) (\<lambda>_.
     brelse b))) s)"

definition recover_from_log :: "('z lstate_scheme, unit) kern" where
  "recover_from_log =
     bnd read_head (\<lambda>_.
     bnd install_trans (\<lambda>_.
     bnd (upd (\<lambda>s. s\<lparr>lh_n := 0\<rparr>)) (\<lambda>_.
     write_head)))"

text \<open>The static size check of \<open>initlog\<close> (a header of \<open>4 + 4 * LOGSIZE\<close> bytes fits a block) is
  decided at compile time.\<close>

definition initlog :: "nat \<Rightarrow> ('z lstate_scheme, unit) kern" where
  "initlog dev =
     (if 4 + 4 * LOGSIZE \<ge> BSIZE then panic ''initlog: too big logheader''
      else bnd (readsb dev) (\<lambda>sb.
           bnd (upd (\<lambda>s. s\<lparr>log_start := sb_logstart sb, log_size := sb_nlog sb, log_dev := dev\<rparr>)) (\<lambda>_.
           recover_from_log)))"

definition begin_op :: "('z lstate_scheme, unit) kern" where
  "begin_op = (\<lambda>s.
     if committing s then Inl (Blocked ''begin_op'')
     else if lh_n s + (outstanding s + 1) * int MAXOPBLOCKS > int LOGSIZE then Inl (Blocked ''begin_op'')
     else Inr ((), s\<lparr>outstanding := outstanding s + 1\<rparr>))"

fun write_log_loop :: "nat \<Rightarrow> nat \<Rightarrow> ('z lstate_scheme, unit) kern" where
  "write_log_loop tail 0 = ret ()"
| "write_log_loop tail (Suc k) = (\<lambda>s. let dev = log_dev s in
     bnd (bread dev (log_start s + tail + 1)) (\<lambda>to.
     bnd (bread dev (lh_block s tail)) (\<lambda>from.
     bnd (\<lambda>s. bmod to (\<lambda>_. b_data (bufs s from)) s) (\<lambda>_.
     bnd (bwrite to) (\<lambda>_.
     bnd (brelse from) (\<lambda>_.
     bnd (brelse to) (\<lambda>_. write_log_loop (tail + 1) k)))))) s)"

definition write_log :: "('z lstate_scheme, unit) kern" where
  "write_log = (\<lambda>s. write_log_loop 0 (nat (lh_n s)) s)"

definition commit :: "('z lstate_scheme, unit) kern" where
  "commit = (\<lambda>s.
     if lh_n s > 0 then
       bnd write_log (\<lambda>_.
       bnd write_head (\<lambda>_.
       bnd install_trans (\<lambda>_.
       bnd (upd (\<lambda>s. s\<lparr>lh_n := 0\<rparr>)) (\<lambda>_.
       write_head)))) s
     else Inr ((), s))"

definition end_op :: "('z lstate_scheme, unit) kern" where
  "end_op = (\<lambda>s. let s = s\<lparr>outstanding := outstanding s - 1\<rparr> in
     if committing s then Inl (Panic ''log.committing'')
     else if outstanding s = 0 then
       bnd commit (\<lambda>_. upd (\<lambda>s. s\<lparr>committing := False\<rparr>)) (s\<lparr>committing := True\<rparr>)
     else Inr ((), s))"

text \<open>The search of \<open>log_write\<close> for a block that is logged already (log absorption).\<close>

fun absorb :: "(nat \<Rightarrow> nat) \<Rightarrow> nat \<Rightarrow> nat \<Rightarrow> nat \<Rightarrow> nat" where
  "absorb bl b i 0 = i"
| "absorb bl b i (Suc k) = (if bl i = b then i else absorb bl b (i + 1) k)"

definition log_write :: "nat \<Rightarrow> ('z lstate_scheme, unit) kern" where
  "log_write b = (\<lambda>s.
     if lh_n s \<ge> int LOGSIZE \<or> lh_n s \<ge> int (log_size s) - 1 then Inl (Panic ''too big a transaction'')
     else if outstanding s < 1 then Inl (Panic ''log_write outside of trans'')
     else
       (let bno = b_blockno (bufs s b);
            i = absorb (lh_block s) bno 0 (nat (lh_n s));
            s1 = s\<lparr>lh_block := (lh_block s)(i := bno)\<rparr>;
            s2 = (if int i = lh_n s then s1\<lparr>lh_n := lh_n s + 1\<rparr> else s1)
        in Inr ((), setb b (\<lambda>bp. bp\<lparr>b_dirty := True\<rparr>) s2)))"

subsection \<open>Copying a block\<close>

lemma lframe:
  fixes s t :: "'z lstate_scheme"
  assumes "bframe s t"
  shows "log_start t = log_start s" "log_size t = log_size s" "outstanding t = outstanding s"
    "committing t = committing s" "log_dev t = log_dev s" "lh_n t = lh_n s"
    "lh_block t = lh_block s" "lstate.more t = lstate.more s" "cur_pid t = cur_pid s"
  using assms by (cases s; cases t; simp add: bframe_def)+

lemma lsame:
  "bsame s (s\<lparr>log_start := a\<rparr>)" "bsame s (s\<lparr>log_size := a\<rparr>)" "bsame s (s\<lparr>log_dev := a\<rparr>)"
  "bsame s (s\<lparr>outstanding := i\<rparr>)" "bsame s (s\<lparr>committing := c\<rparr>)"
  "bsame s (s\<lparr>lh_n := i\<rparr>)" "bsame s (s\<lparr>lh_block := f\<rparr>)"
  by (simp_all add: bsame_def)

lemmas lsame_simps [simp] = lsame [THEN bsameD(1)] lsame [THEN bsameD(2)] lsame [THEN bsameD(3)]
  lsame [THEN bsameD(4)] lsame [THEN bsameD(5)] lsame [THEN bsameD(6)] lsame [THEN bsameD(7)]
  lsame [THEN bsameD(8)] lsame [THEN bsameD(9)]

text \<open>The effect of a list of block writes on the drives.\<close>

type_synonym dwrite = "nat \<times> nat \<times> block"

fun replay :: "dwrite list \<Rightarrow> (nat \<Rightarrow> nat \<Rightarrow> block) \<Rightarrow> nat \<Rightarrow> nat \<Rightarrow> block" where
  "replay [] d = d"
| "replay ((p, k, b) # ws) d = replay ws (d(p := (d p)(k := b)))"

definition dw :: "nat \<Rightarrow> nat \<Rightarrow> block \<Rightarrow> dwrite" where
  "dw dev bno b = (ide_port dev, ide_sector bno, b)"

lemma replay_append: "replay (xs @ ys) d = replay ys (replay xs d)"
  by (induction xs arbitrary: d) auto

definition copied :: "'z bstate_scheme \<Rightarrow> nat \<Rightarrow> nat \<Rightarrow> block \<Rightarrow> 'z bstate_scheme \<Rightarrow> bool" where
  "copied s dev dst x t \<longleftrightarrow>
     quiet t \<and> bframe s t \<and> dkeys t = dkeys s - {(dev, dst)} \<and>
     view t = replay [(dev, dst, x)] (view s) \<and>
     disk t = replay [dw dev dst x] (disk s) \<and> dwrites t = dwrites s @ [dw dev dst x]"

lemma quietD: "quiet s \<Longrightarrow> binv s" "quiet s \<Longrightarrow> held s = {}"
  by (simp_all add: quiet_def)

lemma bread_room2:
  assumes "binv s1" "card (held s1) = 1" "dirty s1 = dirty s" "dkeys s1 = dkeys s"
    and "(dev, b) \<in> dkeys s \<or> card (dirty s) + 1 < NBUF"
  shows "held s1 \<union> dirty s1 \<noteq> {0..<NBUF} \<or> (\<exists>i < NBUF. bkey (bufs s1 i) = (dev, b))"
  using assms(5)
proof
  assume "(dev, b) \<in> dkeys s"
  then show ?thesis using dkeys_cached [of dev b s1] assms(4) by auto
next
  assume "card (dirty s) + 1 < NBUF"
  then show ?thesis using room_card [of s1] assms(2,3) by simp
qed

text \<open>Read block \<open>b1\<close>, then \<open>b2\<close>; overwrite the one with the other; write it; release both.\<close>

lemma two_bufs:
  assumes "quiet s" "blk_ok dev b1" "blk_ok dev b2" "b1 \<noteq> b2" "card (dirty s) < NBUF"
    and "(dev, b2) \<in> dkeys s \<or> card (dirty s) + 1 < NBUF"
    and step: "\<And>x y t. binv t \<Longrightarrow> bframe s t \<Longrightarrow> held t = {x, y} \<Longrightarrow> x \<noteq> y \<Longrightarrow> x < NBUF \<Longrightarrow> y < NBUF \<Longrightarrow>
       bkey (bufs t x) = (dev, b1) \<Longrightarrow> bkey (bufs t y) = (dev, b2) \<Longrightarrow>
       b_data (bufs t x) = view s dev b1 \<Longrightarrow> b_data (bufs t y) = view s dev b2 \<Longrightarrow>
       sync t x \<Longrightarrow> sync t y \<Longrightarrow> dkeys t = dkeys s \<Longrightarrow> view t = view s \<Longrightarrow> disk t = disk s \<Longrightarrow>
       dwrites t = dwrites s \<Longrightarrow> wp (f x y) Q t"
  shows "wp (bnd (bread dev b1) (\<lambda>x. bnd (bread dev b2) (\<lambda>y. f x y))) Q s"
proof (rule wp_bndI)
  show "wp (bread dev b1) (bgot s dev b1) s"
    using assms(1,2,5) room_card [of s] by (intro bread_contract) (auto simp: quiet_def)
  fix x s1
  assume x: "bgot s dev b1 x s1"
  have h1: "held s1 = {x}" using x assms(1) by (simp add: bgot_def quiet_def)
  show "wp (bnd (bread dev b2) (\<lambda>y. f x y)) Q s1"
  proof (rule wp_bndI)
    have "held s1 \<union> dirty s1 \<noteq> {0..<NBUF} \<or> (\<exists>i < NBUF. bkey (bufs s1 i) = (dev, b2))"
      using x h1 dkeys_got [OF x] assms(6) by (intro bread_room2 [of s1 s]) (auto simp: bgot_def)
    then show "wp (bread dev b2) (bgot s1 dev b2) s1"
      using x h1 assms(3,4) by (intro bread_contract) (auto simp: bgot_def)
    fix y t
    assume y: "bgot s1 dev b2 y t"
    have st: "y \<noteq> x" "stays s1 x t" using got_stays [OF y, of x] h1 by auto
    show "wp (f x y) Q t"
      using x y h1 st dkeys_got [OF x] dkeys_got [OF y] bframe_trans [of s s1 t]
      by (intro step) (auto simp: bgot_def stays_def sync_def)
  qed
qed

lemma finish_copy:
  assumes s: "binv s" "held s = {dst, src}" "dst \<noteq> src" "bkey (bufs s dst) = (dev, n)" "sync s src"
  shows "wp (bnd (\<lambda>s. bmod dst (\<lambda>_. b_data (bufs s src)) s) (\<lambda>_. bnd (bwrite dst) (\<lambda>_. 
      bnd (brelse src) (\<lambda>_. brelse dst)))) (\<lambda>_ t. copied s dev n (b_data (bufs s src)) t) s"
proof -
  let ?x = "b_data (bufs s src)"
  have dk: "dst \<in> held s" and sk: "src \<in> held s" using s(2) by auto
  have n: "b_dev (bufs s dst) = dev" "b_blockno (bufs s dst) = n" using s(4) by (auto simp: bkey_def)
  show "wp (bnd (\<lambda>s. bmod dst (\<lambda>_. b_data (bufs s src)) s) (\<lambda>_. bnd (bwrite dst) (\<lambda>_. 
      bnd (brelse src) (\<lambda>_. brelse dst)))) (\<lambda>_ t. copied s dev n ?x t) s"
  proof (rule wp_bndI)
    have "wp (bmod dst (\<lambda>_. ?x)) (\<lambda>_ t. bmodded s dst (\<lambda>_. ?x) t) s"
      by (rule bmod_contract [OF s(1) dk])
    then show "wp (\<lambda>s. bmod dst (\<lambda>_. b_data (bufs s src)) s) (\<lambda>_ t. bmodded s dst (\<lambda>_. ?x) t) s"
      by (simp add: wp_def)
    fix s1
    assume m: "bmodded s dst (\<lambda>_. ?x) s1"
    have b1: "binv s1" "held s1 = {dst, src}" "bkey (bufs s1 dst) = (dev, n)" "b_data (bufs s1 dst) = ?x"
      using m s by (auto simp: bmodded_def)
    have c1: "sync s1 src" using modded_stays [OF m sk] s(3,5) by (auto simp: stays_def)
    have n1: "b_dev (bufs s1 dst) = dev" "b_blockno (bufs s1 dst) = n" using b1(3) by (auto simp: bkey_def)
    show "wp (bnd (bwrite dst) (\<lambda>_. bnd (brelse src) (\<lambda>_. brelse dst))) (\<lambda>_ t. copied s dev n ?x t) s1"
    proof (rule wp_bndI)
      show "wp (bwrite dst) (\<lambda>_ t. bwritten s1 dst t) s1"
        using b1 by (intro bwrite_contract) auto
      fix s2
      assume w: "bwritten s1 dst s2"
      have b2: "binv s2" "held s2 = {dst, src}" using w b1 by (auto simp: bwritten_def)
      have "stays s1 src s2"
        using written_stays [OF b1(1) _ w, of src] b1(2) s(3) by auto
      then have c2: "sync s2 src" "sync s2 dst" using c1 w by (auto simp: stays_def sync_def bwritten_def)
      show "wp (bnd (brelse src) (\<lambda>_. brelse dst)) (\<lambda>_ t. copied s dev n ?x t) s2"
      proof (rule wp_bndI)
        show "wp (brelse src) (\<lambda>_ t. breleased s2 src t) s2"
          using b2 c2 by (intro brelse_contract) (auto simp: sync_def)
        fix s3
        assume r: "breleased s2 src s3"
        have b3: "binv s3" "held s3 = {dst}" "sync s3 dst"
          using r b2 s(3) c2 released_stays [OF r, of dst] by (auto simp: breleased_def stays_def)
        show "wp (brelse dst) (\<lambda>_ t. copied s dev n ?x t) s3"
        proof (rule wp_mono)
          show "wp (brelse dst) (\<lambda>_ t. breleased s3 dst t) s3"
            using b3 by (intro brelse_contract) (auto simp: sync_def)
          fix t
          assume q: "breleased s3 dst t"
          have dt: "dkeys t = dkeys s - {(dev, n)}"
            using dkeys_released [OF q] dkeys_released [OF r] dkeys_modded [OF m]
              dkeys_written [OF b1(1) _ w] b1(2,3) by auto
          have fr: "bframe s t"
            using m w r q by (auto simp: bmodded_def bwritten_def breleased_def bframe_def)
          have vt: "view t = replay [(dev, n, ?x)] (view s)"
            using m w r q s(4) by (simp add: bmodded_def bwritten_def breleased_def fun_eq_iff)
          have "disk t = (disk s)(ide_port dev := (disk s (ide_port dev))(ide_sector n := ?x))"
            "dwrites t = dwrites s @ [(ide_port dev, ide_sector n, ?x)]"
            using m w r q b1(4) n1 by (simp_all add: bmodded_def bwritten_def breleased_def Let_def)
          then show "copied s dev n ?x t"
            using q b3(2) dt fr vt by (simp add: copied_def quiet_def breleased_def dw_def)
        qed
      qed
    qed
  qed
qed

lemma replay_other:
  "(\<And>x. (p, k, x) \<notin> set ws) \<Longrightarrow> replay ws d p k = d p k"
proof (induction ws arbitrary: d)
  case (Cons w ws)
  obtain p' k' y where w: "w = (p', k', y)" by (cases w)
  have "replay ws (d(p' := (d p')(k' := y))) p k = (d(p' := (d p')(k' := y))) p k"
    using Cons.prems by (intro Cons.IH) auto
  also have "\<dots> = d p k" using Cons.prems [of y] w by auto
  finally show ?case by (simp add: w)
qed simp

lemma replay_at:
  assumes "(p, k, x) \<in> set ws" "\<And>y. (p, k, y) \<in> set ws \<Longrightarrow> y = x"
  shows "replay ws d p k = x"
  using assms
proof (induction ws arbitrary: d)
  case (Cons w ws)
  obtain p' k' y where w: "w = (p', k', y)" by (cases w)
  have tl: "y = x" if "(p, k, y) \<in> set ws" for y
    using that by (intro Cons.prems(2)) simp
  show ?case
  proof (cases "(p, k, x) \<in> set ws")
    case True
    have "replay ws (d(p' := (d p')(k' := y))) p k = x"
      by (rule Cons.IH [OF True tl])
    then show ?thesis by (simp add: w)
  next
    case False
    then have "w = (p, k, x)" using Cons.prems(1) by simp
    moreover have "replay ws (d(p := (d p)(k := x))) p k = (d(p := (d p)(k := x))) p k"
      using False tl by (intro replay_other) blast
    ultimately show ?thesis by simp
  qed
qed simp

subsection \<open>Well-formed log\<close>

text \<open>A home block is a block of the root device outside the log area.\<close>

definition home :: "'z lstate_scheme \<Rightarrow> nat \<Rightarrow> bool" where
  "home s b \<longleftrightarrow> b < FSSIZE \<and> \<not> (log_start s \<le> b \<and> b < log_start s + log_size s)"

definition log_wf :: "'z lstate_scheme \<Rightarrow> bool" where
  "log_wf s \<longleftrightarrow> log_dev s = ROOTDEV \<and> log_start s + log_size s \<le> FSSIZE \<and>
     0 \<le> lh_n s \<and> lh_n s < int (log_size s) \<and> log_size s \<le> LOGSIZE \<and>
     (\<forall>i < nat (lh_n s). home s (lh_block s i)) \<and> inj_on (lh_block s) {0..<nat (lh_n s)}"

definition logged :: "'z lstate_scheme \<Rightarrow> nat set" where
  "logged s = lh_block s ` {0..<nat (lh_n s)}"

lemma log_wf_frame: "bframe s t \<Longrightarrow> log_wf t = log_wf s"
  using lframe [of s t] by (simp add: log_wf_def home_def)

lemma log_wfD:
  assumes "log_wf s" "i < nat (lh_n s)"
  shows "blk_ok (log_dev s) (log_start s + i + 1)" "blk_ok (log_dev s) (lh_block s i)"
    "home s (lh_block s i)" "log_start s + i + 1 < log_start s + log_size s"
    "\<And>j. j < nat (lh_n s) \<Longrightarrow> log_start s + i + 1 \<noteq> lh_block s j"
proof -
  have n: "int i < lh_n s" using assms(2) by simp
  then show "log_start s + i + 1 < log_start s + log_size s"
    using assms(1) by (simp add: log_wf_def)
  then show "blk_ok (log_dev s) (log_start s + i + 1)"
    using assms(1) by (simp add: log_wf_def blk_ok_def)
  show "home s (lh_block s i)" using assms by (simp add: log_wf_def)
  then show "blk_ok (log_dev s) (lh_block s i)"
    using assms(1) by (simp add: log_wf_def blk_ok_def home_def)
  show "log_start s + i + 1 \<noteq> lh_block s j" if "j < nat (lh_n s)" for j
  proof -
    have "home s (lh_block s j)" using assms(1) that by (simp add: log_wf_def)
    then show ?thesis
      using \<open>log_start s + i + 1 < log_start s + log_size s\<close> by (auto simp: home_def)
  qed
qed

text \<open>The logical writes of rounds \<open>m\<close> up to \<open>n\<close> of the two loops.\<close>

definition log_writes :: "'z lstate_scheme \<Rightarrow> nat \<Rightarrow> nat \<Rightarrow> dwrite list" where
  "log_writes s m n = map (\<lambda>i. (log_dev s, log_start s + i + 1, view s (log_dev s) (lh_block s i))) [m..<n]"

definition home_writes :: "'z lstate_scheme \<Rightarrow> nat \<Rightarrow> nat \<Rightarrow> dwrite list" where
  "home_writes s m n = map (\<lambda>i. (log_dev s, lh_block s i, view s (log_dev s) (log_start s + i + 1))) [m..<n]"

definition phys :: "dwrite list \<Rightarrow> dwrite list" where
  "phys ws = map (\<lambda>(d, n, x). dw d n x) ws"

lemma phys_simps [simp]: "phys [] = []" "phys ((d, n, x) # ws) = dw d n x # phys ws"
  "phys (ws @ ws') = phys ws @ phys ws'" "length (phys ws) = length ws"
  by (simp_all add: phys_def)

text \<open>State \<open>t\<close> is \<open>s\<close> after the writes \<open>ws\<close>, with the blocks \<open>D\<close> no longer pinned.\<close>

definition after :: "'z bstate_scheme \<Rightarrow> dwrite list \<Rightarrow> (nat \<times> nat) set \<Rightarrow> 'z bstate_scheme \<Rightarrow> bool" where
  "after s ws D t \<longleftrightarrow> quiet t \<and> bframe s t \<and> dkeys t = dkeys s - D \<and>
     view t = replay ws (view s) \<and> disk t = replay (phys ws) (disk s) \<and> dwrites t = dwrites s @ phys ws"

lemma after_refl: "quiet s \<Longrightarrow> after s [] {} s"
  by (simp add: after_def)

lemma copied_after: "copied s dev dst x t \<Longrightarrow> after s [(dev, dst, x)] {(dev, dst)} t"
  by (simp add: copied_def after_def)

lemma after_trans: "after s ws D t \<Longrightarrow> after t ws' D' u \<Longrightarrow> after s (ws @ ws') (D \<union> D') u"
  by (auto simp: after_def replay_append bframe_def)

lemma after_card:
  assumes "after s ws D t" "binv s"
  shows "card (dirty t) \<le> card (dirty s)"
proof -
  have "dkeys t \<subseteq> dkeys s" using assms(1) by (auto simp: after_def)
  then have "card (dkeys t) \<le> card (dkeys s)" by (simp add: card_mono)
  moreover have "binv t" using assms(1) by (simp add: after_def quiet_def)
  ultimately show ?thesis using card_dkeys [OF assms(2)] card_dkeys [of t] by simp
qed

lemma copy_round:
  assumes "quiet s" "blk_ok dev dst" "blk_ok dev src" "dst \<noteq> src" "card (dirty s) < NBUF"
  shows "(dev, src) \<in> dkeys s \<or> card (dirty s) + 1 < NBUF \<Longrightarrow>
    wp (bnd (bread dev dst) (\<lambda>to. bnd (bread dev src) (\<lambda>from.
      bnd (\<lambda>s. bmod to (\<lambda>_. b_data (bufs s from)) s) (\<lambda>_. bnd (bwrite to) (\<lambda>_. 
      bnd (brelse from) (\<lambda>_. brelse to))))))
      (\<lambda>_ t. after s [(dev, dst, view s dev src)] {(dev, dst)} t) s"
    and "(dev, dst) \<in> dkeys s \<or> card (dirty s) + 1 < NBUF \<Longrightarrow>
    wp (bnd (bread dev src) (\<lambda>from. bnd (bread dev dst) (\<lambda>to.
      bnd (\<lambda>s. bmod to (\<lambda>_. b_data (bufs s from)) s) (\<lambda>_. bnd (bwrite to) (\<lambda>_. 
      bnd (brelse from) (\<lambda>_. brelse to))))))
      (\<lambda>_ t. after s [(dev, dst, view s dev src)] {(dev, dst)} t) s"
proof -
  have fin: "after s [(dev, dst, view s dev src)] {(dev, dst)} u"
    if "copied t dev dst (view s dev src) u" "bframe s t" "dkeys t = dkeys s" "view t = view s"
      "disk t = disk s" "dwrites t = dwrites s" for t u
    using that by (auto simp: copied_def after_def intro: bframe_trans)
  show "wp (bnd (bread dev dst) (\<lambda>to. bnd (bread dev src) (\<lambda>from.
      bnd (\<lambda>s. bmod to (\<lambda>_. b_data (bufs s from)) s) (\<lambda>_. bnd (bwrite to) (\<lambda>_. 
      bnd (brelse from) (\<lambda>_. brelse to))))))
      (\<lambda>_ t. after s [(dev, dst, view s dev src)] {(dev, dst)} t) s"
    if "(dev, src) \<in> dkeys s \<or> card (dirty s) + 1 < NBUF"
    by (rule two_bufs [OF assms(1-5) that], rule wp_mono, rule finish_copy)
       (use fin in auto)
  show "wp (bnd (bread dev src) (\<lambda>from. bnd (bread dev dst) (\<lambda>to.
      bnd (\<lambda>s. bmod to (\<lambda>_. b_data (bufs s from)) s) (\<lambda>_. bnd (bwrite to) (\<lambda>_. 
      bnd (brelse from) (\<lambda>_. brelse to))))))
      (\<lambda>_ t. after s [(dev, dst, view s dev src)] {(dev, dst)} t) s"
    if "(dev, dst) \<in> dkeys s \<or> card (dirty s) + 1 < NBUF"
    by (rule two_bufs [OF assms(1,3,2) assms(4) [symmetric] assms(5) that], rule wp_mono, rule finish_copy)
       (use fin in auto)
qed

subsection \<open>The loops\<close>

lemma bnd_body: "bnd a (\<lambda>x. bnd b (\<lambda>y. bnd (c x y) (\<lambda>_. bnd (d x y) (\<lambda>_. bnd (e x y) (\<lambda>_. bnd (f x y) g)))))
   = bnd (bnd a (\<lambda>x. bnd b (\<lambda>y. bnd (c x y) (\<lambda>_. bnd (d x y) (\<lambda>_. bnd (e x y) (\<lambda>_. f x y)))))) g"
  by (simp add: bnd_assoc)

lemma log_writes_Suc: "m < n \<Longrightarrow> log_writes s m n =
   (log_dev s, log_start s + m + 1, view s (log_dev s) (lh_block s m)) # log_writes s (Suc m) n"
  by (simp add: log_writes_def upt_conv_Cons)

lemma home_writes_Suc: "m < n \<Longrightarrow> home_writes s m n =
   (log_dev s, lh_block s m, view s (log_dev s) (log_start s + m + 1)) # home_writes s (Suc m) n"
  by (simp add: home_writes_def upt_conv_Cons)

lemma write_log_loop_ok:
  assumes "quiet s" "log_wf s" "tail + k = nat (lh_n s)" "card (dirty s) < NBUF"
    and "\<And>i. i < nat (lh_n s) \<Longrightarrow> (log_dev s, lh_block s i) \<in> dkeys s"
    and "\<And>b. (log_dev s, b) \<in> dkeys s \<Longrightarrow> home s b"
  shows "wp (write_log_loop tail k) (\<lambda>_ t. after s (log_writes s tail (tail + k)) {} t) s"
  using assms
proof (induction k arbitrary: tail s)
  case 0
  then show ?case by (simp add: wp_simps log_writes_def after_refl)
next
  case (Suc k)
  let ?d = "log_dev s" and ?a = "log_start s + tail + 1" and ?b = "lh_block s tail"
  have lt: "tail < nat (lh_n s)" using Suc.prems(3) by simp
  note wf = log_wfD [OF Suc.prems(2) lt]
  have nd: "(?d, ?a) \<notin> dkeys s" using Suc.prems(6) [of ?a] wf(4) by (auto simp: home_def)
  have body: "wp (bnd (bread ?d ?a) (\<lambda>to. bnd (bread ?d ?b) (\<lambda>from.
      bnd (\<lambda>s. bmod to (\<lambda>_. b_data (bufs s from)) s) (\<lambda>_. bnd (bwrite to) (\<lambda>_. 
      bnd (brelse from) (\<lambda>_. brelse to)))))) (\<lambda>_ t. after s [(?d, ?a, view s ?d ?b)] {(?d, ?a)} t) s"
    using wf(5) [OF lt] Suc.prems(5) [OF lt]
    by (intro copy_round(1) [OF Suc.prems(1) wf(1,2) _ Suc.prems(4)]) auto
  have rest: "wp (write_log_loop (tail + 1) k) (\<lambda>_ u. after s (log_writes s tail (tail + Suc k)) {} u) t"
    if a: "after s [(?d, ?a, view s ?d ?b)] {(?d, ?a)} t" for t
  proof -
    have fr: "bframe s t" and q: "quiet t" and dk: "dkeys t = dkeys s"
      and vw: "view t = replay [(?d, ?a, view s ?d ?b)] (view s)" using a nd by (auto simp: after_def)
    note f = lframe [OF fr]
    have hm: "home t = home s" by (simp add: home_def f fun_eq_iff)
    have IH: "wp (write_log_loop (tail + 1) k)
        (\<lambda>_ u. after t (log_writes t (tail + 1) (tail + 1 + k)) {} u) t"
      using Suc.prems q dk after_card [OF a quietD(1) [OF Suc.prems(1)]]
      by (intro Suc.IH) (auto simp: f log_wf_frame [OF fr] hm)
    have lw: "log_writes t (tail + 1) (tail + 1 + k) = log_writes s (Suc tail) (tail + Suc k)"
      using wf(5) [symmetric] Suc.prems(3) by (auto simp: log_writes_def f vw)
    have lc: "log_writes s tail (tail + Suc k) = [(?d, ?a, view s ?d ?b)] @ log_writes s (Suc tail) (tail + Suc k)"
      by (simp add: log_writes_Suc)
    show ?thesis
    proof (rule wp_mono [OF IH])
      fix v u
      assume "after t (log_writes t (tail + 1) (tail + 1 + k)) {} u"
      then have "after s ([(?d, ?a, view s ?d ?b)] @ log_writes s (Suc tail) (tail + Suc k)) ({(?d, ?a)} \<union> {}) u"
        using after_trans [OF a] lw by simp
      then show "after s (log_writes s tail (tail + Suc k)) {} u"
        unfolding lc using nd by (simp add: after_def)
    qed
  qed
  show ?case
    unfolding write_log_loop.simps Let_def bnd_body
    using wp_bndI [OF body rest] by (simp add: wp_def)
qed

lemma install_loop_ok:
  assumes "quiet s" "log_wf s" "tail + k = nat (lh_n s)" "card (dirty s) < NBUF"
    and "card (dirty s) + 1 < NBUF \<or> (\<forall>i. tail \<le> i \<and> i < nat (lh_n s) \<longrightarrow> (log_dev s, lh_block s i) \<in> dkeys s)"
  shows "wp (install_loop tail k) (\<lambda>_ t. after s (home_writes s tail (tail + k))
           ((\<lambda>i. (log_dev s, lh_block s i)) ` {tail..<tail + k}) t) s"
  using assms
proof (induction k arbitrary: tail s)
  case 0
  then show ?case by (simp add: wp_simps home_writes_def after_refl)
next
  case (Suc k)
  let ?d = "log_dev s" and ?a = "log_start s + tail + 1" and ?b = "lh_block s tail"
  let ?w = "[(?d, ?b, view s ?d ?a)]" and ?D = "\<lambda>m. (\<lambda>i. (?d, lh_block s i)) ` {m..<tail + Suc k}"
  have lt: "tail < nat (lh_n s)" using Suc.prems(3) by simp
  note wf = log_wfD [OF Suc.prems(2) lt]
  have body: "wp (bnd (bread ?d ?a) (\<lambda>from. bnd (bread ?d ?b) (\<lambda>to.
      bnd (\<lambda>s. bmod to (\<lambda>_. b_data (bufs s from)) s) (\<lambda>_. bnd (bwrite to) (\<lambda>_. 
      bnd (brelse from) (\<lambda>_. brelse to)))))) (\<lambda>_ t. after s ?w {(?d, ?b)} t) s"
    using wf(5) [OF lt] lt Suc.prems(5)
    by (intro copy_round(2) [OF Suc.prems(1) wf(2,1) _ Suc.prems(4)]) auto
  have rest: "wp (install_loop (tail + 1) k) (\<lambda>_ u. after s (home_writes s tail (tail + Suc k)) (?D tail) u) t"
    if a: "after s ?w {(?d, ?b)} t" for t
  proof -
    have fr: "bframe s t" and q: "quiet t" and dk: "dkeys t = dkeys s - {(?d, ?b)}"
      and vw: "view t = replay ?w (view s)" using a by (auto simp: after_def)
    note f = lframe [OF fr]
    have ne: "lh_block s i \<noteq> ?b" if "tail < i" "i < nat (lh_n s)" for i
      using Suc.prems(2) that lt inj_onD [of "lh_block s" "{0..<nat (lh_n s)}" i tail]
      by (auto simp: log_wf_def)
    have c: "card (dirty t) \<le> card (dirty s)" by (rule after_card [OF a quietD(1) [OF Suc.prems(1)]])
    have IH: "wp (install_loop (tail + 1) k) (\<lambda>_ u. after t (home_writes t (tail + 1) (tail + 1 + k))
        ((\<lambda>i. (log_dev t, lh_block t i)) ` {tail + 1..<tail + 1 + k}) u) t"
      using Suc.prems q dk c ne by (intro Suc.IH) (auto simp: f log_wf_frame [OF fr])
    have lw: "home_writes t (tail + 1) (tail + 1 + k) = home_writes s (Suc tail) (tail + Suc k)"
      using wf(5) Suc.prems(2,3) log_wfD(5) [OF Suc.prems(2) _ lt]
      by (auto simp: home_writes_def f vw)
    have lc: "home_writes s tail (tail + Suc k) = ?w @ home_writes s (Suc tail) (tail + Suc k)"
      by (simp add: home_writes_Suc)
    have "{tail..<tail + Suc k} = insert tail {Suc tail..<tail + Suc k}" by auto
    then have D: "?D tail = {(?d, ?b)} \<union> ?D (Suc tail)" by simp
    show ?thesis
    proof (rule wp_mono [OF IH])
      fix v u
      assume "after t (home_writes t (tail + 1) (tail + 1 + k))
        ((\<lambda>i. (log_dev t, lh_block t i)) ` {tail + 1..<tail + 1 + k}) u"
      then show "after s (home_writes s tail (tail + Suc k)) (?D tail) u"
        unfolding lc D using after_trans [OF a] lw by (simp add: f)
    qed
  qed
  show ?case
    unfolding install_loop.simps Let_def bnd_body
    using wp_bndI [OF body rest] by (simp add: wp_def)
qed

subsection \<open>The header block\<close>

lemma rmw_write:
  assumes "quiet s" "blk_ok dev n" "card (dirty s) < NBUF"
  shows "wp (bnd (bread dev n) (\<lambda>b. bnd (bmod b f) (\<lambda>_. bnd (bwrite b) (\<lambda>_. brelse b))))
           (\<lambda>_ t. after s [(dev, n, f (view s dev n))] {(dev, n)} t) s"
proof (rule wp_bndI)
  show "wp (bread dev n) (bgot s dev n) s"
    using assms room_card [of s] by (intro bread_contract) (auto simp: quiet_def)
  fix b s1
  assume g: "bgot s dev n b s1"
  have h: "binv s1" "held s1 = {b}" "bkey (bufs s1 b) = (dev, n)" "b_data (bufs s1 b) = view s dev n"
    using g assms(1) by (auto simp: bgot_def quiet_def)
  show "wp (bnd (bmod b f) (\<lambda>_. bnd (bwrite b) (\<lambda>_. brelse b)))
      (\<lambda>_ t. after s [(dev, n, f (view s dev n))] {(dev, n)} t) s1"
  proof (rule wp_bndI)
    show "wp (bmod b f) (\<lambda>_ t. bmodded s1 b f t) s1" using h by (intro bmod_contract) auto
    fix s2
    assume m: "bmodded s1 b f s2"
    have h2: "binv s2" "held s2 = {b}" "bkey (bufs s2 b) = (dev, n)" "b_data (bufs s2 b) = f (view s dev n)"
      using m h by (auto simp: bmodded_def)
    have n2: "b_dev (bufs s2 b) = dev" "b_blockno (bufs s2 b) = n" using h2(3) by (auto simp: bkey_def)
    show "wp (bnd (bwrite b) (\<lambda>_. brelse b)) (\<lambda>_ t. after s [(dev, n, f (view s dev n))] {(dev, n)} t) s2"
    proof (rule wp_bndI)
      show "wp (bwrite b) (\<lambda>_ t. bwritten s2 b t) s2" using h2 by (intro bwrite_contract) auto
      fix s3
      assume w: "bwritten s2 b s3"
      show "wp (brelse b) (\<lambda>_ t. after s [(dev, n, f (view s dev n))] {(dev, n)} t) s3"
      proof (rule wp_mono)
        show "wp (brelse b) (\<lambda>_ t. breleased s3 b t) s3"
          using h2 w by (intro brelse_contract) (auto simp: bwritten_def)
        fix t
        assume r: "breleased s3 b t"
        have dk: "dkeys t = dkeys s - {(dev, n)}"
          using dkeys_released [OF r] dkeys_written [OF h2(1) _ w] dkeys_modded [OF m] dkeys_got [OF g] h2
          by auto
        have fr: "bframe s t"
          using g m w r by (auto simp: bgot_def bmodded_def bwritten_def breleased_def bframe_def)
        have q: "quiet t" using r w h2 by (auto simp: quiet_def breleased_def bwritten_def)
        have v1: "view s1 = view s" "view t = view s2"
          using g w r by (simp_all add: bgot_def bwritten_def breleased_def)
        have v2: "view s2 d k = (if d = dev \<and> k = n then f (view s d k) else view s d k)" for d k
          using m h(3) v1 by (simp add: bmodded_def)
        have v: "view t = replay [(dev, n, f (view s dev n))] (view s)"
          by (rule ext, rule ext) (simp add: v1(2) v2)
        have "disk t = (disk s)(ide_port dev := (disk s (ide_port dev))(ide_sector n := f (view s dev n)))"
          "dwrites t = dwrites s @ [(ide_port dev, ide_sector n, f (view s dev n))]"
          using g m w r h2(4) n2 by (simp_all add: bgot_def bmodded_def bwritten_def breleased_def Let_def)
        then show "after s [(dev, n, f (view s dev n))] {(dev, n)} t"
          using q fr dk v by (simp add: after_def dw_def)
      qed
    qed
  qed
qed

lemma write_head_ok:
  assumes "quiet s" "log_wf s" "card (dirty s) < NBUF"
  shows "wp write_head (\<lambda>_ t. after s [(log_dev s, log_start s,
           enc_head (lh_n s) (lh_block s) (view s (log_dev s) (log_start s)))] {(log_dev s, log_start s)} t) s"
proof -
  have "blk_ok (log_dev s) (log_start s)" using assms(2) by (auto simp: log_wf_def blk_ok_def)
  from rmw_write [OF assms(1) this assms(3)] show ?thesis by (simp add: write_head_def wp_def)
qed

lemma rd32_put_head: "(\<And>i. i < k \<Longrightarrow> bl i < 4294967296) \<Longrightarrow> i < k \<Longrightarrow> rd32 (put_head bl k d) (4 + 4 * i) = bl i"
proof (induction k)
  case (Suc k)
  then show ?case by (cases "i = k") auto
qed simp

lemma rd32_put_head_0: "rd32 (put_head bl k d) 0 = rd32 d 0"
  by (induction k) auto

lemma enc_head_roundtrip:
  assumes "0 \<le> n" "n \<le> int LOGSIZE" "\<And>i. i < nat n \<Longrightarrow> bl i < 4294967296"
  shows "s32 (rd32 (enc_head n bl d) 0) = n" "i < nat n \<Longrightarrow> rd32 (enc_head n bl d) (4 + 4 * i) = bl i"
  using assms by (auto simp: enc_head_def rd32_put_head_0 rd32_wr32 rd32_put_head s32_def u32_def
      const_defs nat_mod_distrib)

lemma load_head_same: "bsame s (load_head d s)"
  by (simp add: bsame_def load_head_def Let_def)

lemmas load_head_simps [simp] = bsameD [OF load_head_same]

lemma load_head_sel [simp]:
  "log_dev (load_head d s) = log_dev s" "log_start (load_head d s) = log_start s"
  "log_size (load_head d s) = log_size s" "lh_n (load_head d s) = s32 (rd32 d 0)"
  "bufs (load_head d s) = bufs s" "disk (load_head d s) = disk s" "dwrites (load_head d s) = dwrites s"
  by (simp_all add: load_head_def Let_def)

lemma load_head_frame: "bframe s t \<Longrightarrow> bframe (load_head d s) (load_head d t)"
  using lframe [of s t] by (cases s; cases t) (simp add: bframe_def load_head_def Let_def cong: if_cong)

lemma read_head_ok:
  assumes "quiet s" "blk_ok (log_dev s) (log_start s)" "card (dirty s) < NBUF"
    and "s32 (rd32 (view s (log_dev s) (log_start s)) 0) \<le> int LOGSIZE"
  shows "wp read_head (\<lambda>_ t. after (load_head (view s (log_dev s) (log_start s)) s) [] {} t) s"
proof -
  let ?d = "view s (log_dev s) (log_start s)"
  have "wp (bread (log_dev s) (log_start s)) (bgot s (log_dev s) (log_start s)) s"
    using assms room_card [of s] by (intro bread_contract) (auto simp: quiet_def)
  then have *: "wp (\<lambda>s. bread (log_dev s) (log_start s) s) (bgot s (log_dev s) (log_start s)) s"
    by (simp add: wp_def)
  show ?thesis
    unfolding read_head_def
  proof (rule wp_bndI [OF *], rule wp_bndI)
    fix b s1
    assume g: "bgot s (log_dev s) (log_start s) b s1"
    have h: "binv s1" "held s1 = {b}" "b_data (bufs s1 b) = ?d" "b \<in> dirty s1 \<or> clean s1 b"
      using g assms(1) by (auto simp: bgot_def quiet_def)
    show "wp (\<lambda>s. if s32 (rd32 (b_data (bufs s b)) 0) > int LOGSIZE then Inl (Undef ''log.lh.block'')
              else Inr ((), load_head (b_data (bufs s b)) s)) (\<lambda>_ t. t = load_head ?d s1) s1"
      using assms(4) by (simp add: wp_def h)
    fix t
    assume t: "t = load_head ?d s1"
    show "wp (brelse b) (\<lambda>_ t. after (load_head ?d s) [] {} t) t"
    proof (rule wp_mono)
      show "wp (brelse b) (\<lambda>_ u. breleased t b u) t"
        using h t by (intro brelse_contract) auto
      fix u
      assume r: "breleased t b u"
      have "bframe (load_head ?d s) t" using g t by (simp add: bgot_def load_head_frame)
      then show "after (load_head ?d s) [] {} u"
        using r t h g dkeys_released [OF r] dkeys_got [OF g]
        by (auto simp: after_def breleased_def bgot_def quiet_def intro: bframe_trans)
    qed
  qed
qed

subsection \<open>Commit\<close>

text \<open>Between transactions: the pinned blocks are exactly the logged ones, and the header on disk
  is empty.\<close>

definition linv :: "'z lstate_scheme \<Rightarrow> bool" where
  "linv s \<longleftrightarrow> binv s \<and> log_wf s \<and> dkeys s = Pair (log_dev s) ` logged s \<and>
     rd32 (dblk s (log_dev s) (log_start s)) 0 = 0"

definition new_writes :: "'z lstate_scheme \<Rightarrow> dwrite list" where
  "new_writes s = map (\<lambda>i. (log_dev s, lh_block s i, view s (log_dev s) (lh_block s i))) [0..<nat (lh_n s)]"

definition head_write :: "'z lstate_scheme \<Rightarrow> dwrite" where
  "head_write s = (log_dev s, log_start s, enc_head (lh_n s) (lh_block s) (view s (log_dev s) (log_start s)))"

definition clear_write :: "'z lstate_scheme \<Rightarrow> dwrite" where
  "clear_write s = (log_dev s, log_start s, enc_head 0 (lh_block s)
     (enc_head (lh_n s) (lh_block s) (view s (log_dev s) (log_start s))))"

definition commit_writes :: "'z lstate_scheme \<Rightarrow> dwrite list" where
  "commit_writes s = log_writes s 0 (nat (lh_n s)) @ [head_write s] @ new_writes s @ [clear_write s]"

lemma card_logged: "card (Pair d ` logged s) \<le> nat (lh_n s)"
  unfolding logged_def image_image by (rule order_trans [OF card_image_le]) auto

lemma linv_room:
  assumes "linv s"
  shows "card (dirty s) < NBUF"
proof -
  have "card (dirty s) = card (Pair (log_dev s) ` logged s)"
    using assms card_dkeys [of s] by (simp add: linv_def)
  also have "\<dots> \<le> nat (lh_n s)" by (rule card_logged)
  also have "nat (lh_n s) < NBUF" using assms by (auto simp: linv_def log_wf_def const_defs)
  finally show ?thesis .
qed

lemma upd_ok: "wp (upd f) (\<lambda>_ t. t = f s) s"
  by (simp add: wp_def upd_def)

lemma after_logged:
  assumes "log_wf s" "i < nat (lh_n s)" "view t = replay (log_writes s 0 (nat (lh_n s)) @ [(log_dev s, log_start s, x)]) (view s)"
  shows "view t (log_dev s) (log_start s + i + 1) = view s (log_dev s) (lh_block s i)"
proof -
  let ?d = "log_dev s"
  have "replay (log_writes s 0 (nat (lh_n s))) (view s) ?d (log_start s + i + 1) = view s ?d (lh_block s i)"
    using assms(2) by (intro replay_at) (auto simp: log_writes_def)
  then show ?thesis by (simp add: assms(3) replay_append)
qed

lemma wp_after: "after s ws D t \<Longrightarrow> wp m (\<lambda>_ u. after t ws' D' u) t \<Longrightarrow> wp m (\<lambda>_ u. after s (ws @ ws') (D \<union> D') u) t"
  by (erule wp_mono) (rule after_trans)

lemma after_wf:
  assumes "after s ws D t" "quiet s" "log_wf s" "card (dirty s) < NBUF"
  shows "quiet t" "log_wf t" "card (dirty t) < NBUF"
  using assms after_card [OF assms(1) quietD(1) [OF assms(2)]] log_wf_frame [of s t]
  by (auto simp: after_def)

text \<open>The two halves of a commit: up to the header write, and the installation.\<close>

lemma commit_first_half:
  assumes inv: "linv s" and h: "held s = {}"
  shows "wp (bnd write_log (\<lambda>_. write_head))
           (\<lambda>_ t. after s (log_writes s 0 (nat (lh_n s)) @ [head_write s]) {} t) s"
proof (rule wp_bndI)
  let ?d = "log_dev s" and ?n = "nat (lh_n s)"
  let ?lw = "log_writes s 0 (nat (lh_n s))"
  have wf: "log_wf s" and q: "quiet s" and dk: "dkeys s = Pair ?d ` logged s"
    using inv h by (auto simp: linv_def quiet_def)
  have hm: "home s b" if "(?d, b) \<in> dkeys s" for b using that wf dk by (auto simp: logged_def log_wf_def)
  have L: "(?d, lh_block s i) \<in> dkeys s" if "i < ?n" for i using that dk by (auto simp: logged_def)
  have c: "card (dirty s) < NBUF" by (rule linv_room [OF inv])
  show "wp write_log (\<lambda>_ t. after s ?lw {} t) s"
    using write_log_loop_ok [OF q wf _ c L hm, of 0 ?n] by (simp add: write_log_def wp_def)
  fix t
  assume a: "after s ?lw {} t"
  note t = after_wf [OF a q wf c]
  have fr: "bframe s t" and v: "view t = replay ?lw (view s)" and dt: "dkeys t = dkeys s"
    using a by (auto simp: after_def)
  note f = lframe [OF fr]
  have "view t ?d (log_start s) = view s ?d (log_start s)"
    unfolding v by (rule replay_other) (auto simp: log_writes_def)
  moreover have "(?d, log_start s) \<notin> dkeys s" using hm [of "log_start s"] wf by (auto simp: home_def log_wf_def)
  moreover note write_head_ok [OF t]
  ultimately have "wp write_head (\<lambda>_ u. after t [head_write s] {} u) t"
    by (simp add: f head_write_def after_def dt)
  from wp_after [OF a this] show "wp write_head (\<lambda>_ t. after s (?lw @ [head_write s]) {} t) t" by simp
qed

lemma commit_second_half:
  assumes q: "quiet s" and wf: "log_wf s" and c: "card (dirty s) < NBUF"
    and room: "card (dirty s) + 1 < NBUF \<or> Pair (log_dev s) ` logged s \<subseteq> dkeys s"
    and sd: "(log_dev s, log_start s) \<notin> dkeys s"
  shows "wp (bnd install_trans (\<lambda>_. bnd (upd (\<lambda>s. s\<lparr>lh_n := 0\<rparr>)) (\<lambda>_. write_head)))
    (\<lambda>_ t. after (s\<lparr>lh_n := 0\<rparr>) (home_writes s 0 (nat (lh_n s)) @ [(log_dev s, log_start s,
       enc_head 0 (lh_block s) (view s (log_dev s) (log_start s)))]) (Pair (log_dev s) ` logged s) t) s"
proof (rule wp_bndI)
  let ?d = "log_dev s" and ?n = "nat (lh_n s)" and ?L = "Pair (log_dev s) ` logged s"
  let ?hw = "home_writes s 0 (nat (lh_n s))"
  have img: "(\<lambda>i. (?d, lh_block s i)) ` {0..<0 + ?n} = ?L" by (auto simp: logged_def)
  have "wp (install_loop 0 ?n) (\<lambda>_ t. after s (home_writes s 0 (0 + ?n)) ((\<lambda>i. (?d, lh_block s i)) ` {0..<0 + ?n}) t) s"
    using room by (intro install_loop_ok [OF q wf _ c]) (auto simp: logged_def)
  then show "wp install_trans (\<lambda>_ t. after s ?hw ?L t) s"
    by (simp only: img) (simp add: install_trans_def wp_def)
  fix t
  assume a: "after s ?hw ?L t"
  let ?s = "s\<lparr>lh_n := 0\<rparr>" and ?t = "t\<lparr>lh_n := 0\<rparr>"
  note tw = after_wf [OF a q wf c]
  have v: "view t = replay ?hw (view s)" and dt: "dkeys t = dkeys s - ?L" using a by (auto simp: after_def)
  note f = lframe [of s t]
  have "bframe ?s ?t" using a by (cases s; cases t) (simp add: after_def bframe_def)
  then have a': "after ?s ?hw ?L ?t" using a by (simp add: after_def)
  have wf': "log_wf ?t" using tw(2) by (simp add: log_wf_def home_def)
  have vs: "view t ?d (log_start s) = view s ?d (log_start s)"
    unfolding v using wf by (intro replay_other) (auto simp: home_writes_def log_wf_def home_def)
  have "wp write_head (\<lambda>_ u. after ?t [(?d, log_start s, enc_head 0 (lh_block s) (view s ?d (log_start s)))] {} u) ?t"
    using write_head_ok [of ?t] tw wf' vs sd dt f a by (simp add: after_def)
  from wp_after [OF a' this]
  show "wp (bnd (upd (\<lambda>s. s\<lparr>lh_n := 0\<rparr>)) (\<lambda>_. write_head)) (\<lambda>_ t. after ?s (?hw @ [(?d, log_start s,
       enc_head 0 (lh_block s) (view s ?d (log_start s)))]) ?L t) t"
    by (simp add: wp_def bnd_def upd_def)
qed

lemma commit_ok:
  assumes inv: "linv s" and h: "held s = {}" and n: "0 < lh_n s"
  shows "wp commit (\<lambda>_ t. after (s\<lparr>lh_n := 0\<rparr>) (commit_writes s) (Pair (log_dev s) ` logged s) t) s"
proof -
  let ?d = "log_dev s" and ?n = "nat (lh_n s)" and ?L = "Pair (log_dev s) ` logged s"
  let ?lw = "log_writes s 0 ?n @ [head_write s]"
  let ?m2 = "bnd install_trans (\<lambda>_. bnd (upd (\<lambda>s. s\<lparr>lh_n := 0\<rparr>)) (\<lambda>_. write_head))"
  have wf: "log_wf s" and q: "quiet s" and dk: "dkeys s = ?L" using inv h by (auto simp: linv_def quiet_def)
  have c: "card (dirty s) < NBUF" by (rule linv_room [OF inv])
  have "wp (bnd (bnd write_log (\<lambda>_. write_head)) (\<lambda>_. ?m2))
      (\<lambda>_ t. after (s\<lparr>lh_n := 0\<rparr>) (commit_writes s) ?L t) s"
  proof (rule wp_bndI [OF commit_first_half [OF inv h]])
    fix t
    assume a: "after s ?lw {} t"
    note tw = after_wf [OF a q wf c]
    have fr: "bframe s t" and v: "view t = replay ?lw (view s)" and dt: "dkeys t = dkeys s"
      using a by (auto simp: after_def)
    note f = lframe [OF fr]
    have lg: "logged t = logged s" by (simp add: logged_def f)
    have sd: "(log_dev t, log_start t) \<notin> dkeys t"
      using dk wf by (auto simp: f dt logged_def log_wf_def home_def)
    have vs: "view t ?d (log_start s) = enc_head (lh_n s) (lh_block s) (view s ?d (log_start s))"
      by (simp add: v replay_append head_write_def)
    have vl: "view t ?d (log_start s + i + 1) = view s ?d (lh_block s i)" if "i < ?n" for i
      by (rule after_logged [OF wf that v [unfolded head_write_def]])
    have hw: "home_writes t 0 ?n = new_writes s"
      using vl by (auto simp: home_writes_def new_writes_def f)
    have "wp ?m2 (\<lambda>_ u. after (t\<lparr>lh_n := 0\<rparr>) (new_writes s @ [clear_write s]) ?L u) t"
      using commit_second_half [OF tw _ sd] dk by (simp add: f lg hw dt clear_write_def vs)
    moreover have "bframe (s\<lparr>lh_n := 0\<rparr>) (t\<lparr>lh_n := 0\<rparr>)" using fr by (cases s; cases t) (simp add: bframe_def)
    then have "after (s\<lparr>lh_n := 0\<rparr>) ?lw {} (t\<lparr>lh_n := 0\<rparr>)" using a by (simp add: after_def)
    ultimately show "wp ?m2 (\<lambda>_ u. after (s\<lparr>lh_n := 0\<rparr>) (commit_writes s) ?L u) t"
      by (elim wp_mono) (auto dest: after_trans simp: commit_writes_def)
  qed
  then show ?thesis using n by (simp add: commit_def bnd_assoc wp_def)
qed

subsection \<open>Recovery after a crash\<close>

definition recover_writes :: "'z lstate_scheme \<Rightarrow> dwrite list" where
  "recover_writes s = (let d = view s (log_dev s) (log_start s); u = load_head d s in
     home_writes u 0 (nat (lh_n u)) @ [(log_dev s, log_start s, enc_head 0 (lh_block u) d)])"

lemma recover_ok:
  assumes q: "quiet s" and D: "dirty s = {}" and d: "d = view s (log_dev s) (log_start s)"
    and wf: "log_wf (load_head d s)"
  shows "wp recover_from_log (\<lambda>_ t. after ((load_head d s)\<lparr>lh_n := 0\<rparr>) (recover_writes s) {} t) s"
  unfolding recover_from_log_def
proof (rule wp_bndI)
  let ?u = "load_head d s"
  have n: "s32 (rd32 d 0) \<le> int LOGSIZE" "blk_ok (log_dev s) (log_start s)"
    using wf by (auto simp: log_wf_def blk_ok_def)
  show "wp read_head (\<lambda>_ t. after ?u [] {} t) s"
    using read_head_ok [OF q] n D d by simp
  fix t
  assume a: "after ?u [] {} t"
  have q': "quiet ?u" using q by simp
  have dk: "dkeys s = {}" using D by (simp add: dkeys_def)
  note tw = after_wf [OF a q' wf]
  have fr: "bframe ?u t" and v: "view t = view s" and dt: "dkeys t = {}" using a dk by (auto simp: after_def)
  note f = lframe [OF fr]
  have c: "card (dirty t) = 0" using dt by (simp add: dkeys_def)
  have tw: "quiet t" "log_wf t" using after_wf [OF a q' wf] D by simp_all
  have hw: "home_writes t 0 (nat (lh_n t)) = home_writes ?u 0 (nat (lh_n ?u))"
    by (simp add: home_writes_def f v)
  have "wp (bnd install_trans (\<lambda>_. bnd (upd (\<lambda>s. s\<lparr>lh_n := 0\<rparr>)) (\<lambda>_. write_head)))
      (\<lambda>_ w. after (t\<lparr>lh_n := 0\<rparr>) (recover_writes s) (Pair (log_dev s) ` logged t) w) t"
    using commit_second_half [OF tw] c dt hw f v d by (simp add: recover_writes_def Let_def const_defs)
  moreover have "bframe (?u\<lparr>lh_n := 0\<rparr>) (t\<lparr>lh_n := 0\<rparr>)"
    using fr by (cases ?u; cases t) (simp add: bframe_def)
  then have "after (?u\<lparr>lh_n := 0\<rparr>) [] {} (t\<lparr>lh_n := 0\<rparr>)" using a by (simp add: after_def)
  ultimately show "wp (bnd install_trans (\<lambda>_. bnd (upd (\<lambda>s. s\<lparr>lh_n := 0\<rparr>)) (\<lambda>_. write_head)))
      (\<lambda>_ w. after (?u\<lparr>lh_n := 0\<rparr>) (recover_writes s) {} w) t"
    using dk by (elim wp_mono) (auto simp: after_def intro: bframe_trans)
qed

lemma clean_view:
  assumes "quiet s" "(d, n) \<notin> dkeys s" "blk_ok d n"
  shows "view s d n = dblk s d n"
proof (cases "\<exists>i < NBUF. b_valid (bufs s i) \<and> bkey (bufs s i) = (d, n)")
  case True
  then obtain i where i: "i < NBUF" "b_valid (bufs s i)" "bkey (bufs s i) = (d, n)" by blast
  have "buf_inv s i" using assms(1) i(1) by (simp add: quiet_def binv_def)
  moreover have "i \<notin> dirty s" using assms(2) i(3) by (force simp: dkeys_def)
  ultimately have "clean s i" using assms i by (auto simp: buf_inv_def quiet_def held_def dirty_def Let_def)
  then show ?thesis using view_at [OF quietD(1) [OF assms(1)] i(1,2)] i(3) by (simp add: clean_def bkey_def)
next
  case False
  then show ?thesis using view_uncached [of s d n] assms(3) by (auto simp: lblk_def)
qed

text \<open>Writes seen through the numbering of sectors.\<close>

lemma replay_phys:
  assumes "\<And>d n x. (d, n, x) \<in> set ws \<Longrightarrow> blk_ok d n" "blk_ok d n"
    and "\<And>d n. blk_ok d n \<Longrightarrow> D (ide_port d) (ide_sector n) = E d n"
  shows "replay (phys ws) D (ide_port d) (ide_sector n) = replay ws E d n"
  using assms(1,3)
proof (induction ws arbitrary: D E)
  case Nil
  then show ?case using assms(2) by simp
next
  case (Cons w ws)
  obtain d' n' x where w: "w = (d', n', x)" by (cases w)
  have ok: "blk_ok d' n'" using Cons.prems(1) w by auto
  let ?D = "D(ide_port d' := (D (ide_port d'))(ide_sector n' := x))"
  have "replay (phys ws) ?D (ide_port d) (ide_sector n) = replay ws (E(d' := (E d')(n' := x))) d n"
  proof (rule Cons.IH)
    show "?D (ide_port a) (ide_sector b) = (E(d' := (E d')(n' := x))) a b" if "blk_ok a b" for a b
      using blk_ok_inj [OF that ok] Cons.prems(2) [OF that] by auto
  qed (use Cons.prems(1) in auto)
  then show ?case by (simp add: w dw_def)
qed

lemma commit_writes_ok: "log_wf s \<Longrightarrow> (d, n, x) \<in> set (commit_writes s) \<Longrightarrow> blk_ok d n"
  using log_wfD(1,2) [of s]
  by (auto simp: commit_writes_def log_writes_def new_writes_def head_write_def clear_write_def)
     (auto simp: log_wf_def blk_ok_def)

text \<open>The contents of the log area after the first \<open>k\<close> writes of a commit.\<close>

definition crash_disk :: "'z lstate_scheme \<Rightarrow> nat \<Rightarrow> nat \<Rightarrow> block" where
  "crash_disk s k = replay (take k (commit_writes s)) (dblk s) (log_dev s)"

lemma crash_home:
  assumes "log_wf s" "home s b" "b \<notin> logged s"
  shows "crash_disk s k b = dblk s (log_dev s) b"
  unfolding crash_disk_def
proof (rule replay_other)
  fix x
  have "(log_dev s, b, x) \<notin> set (commit_writes s)"
    using assms log_wfD(4) [OF assms(1)]
    by (force simp: commit_writes_def log_writes_def new_writes_def head_write_def clear_write_def home_def
        logged_def log_wf_def)
  then show "(log_dev s, b, x) \<notin> set (take k (commit_writes s))" by (meson in_set_takeD)
qed

lemma length_log_writes [simp]: "length (log_writes s m n) = n - m" "length (new_writes s) = nat (lh_n s)"
  by (simp_all add: log_writes_def new_writes_def)

lemma crash_early:
  assumes "log_wf s" "k \<le> nat (lh_n s)" "home s b \<or> b = log_start s"
  shows "crash_disk s k b = dblk s (log_dev s) b"
  unfolding crash_disk_def
proof (rule replay_other)
  fix x
  have "(log_dev s, b, x) \<notin> set (log_writes s 0 (nat (lh_n s)))"
    using assms log_wfD(4) [OF assms(1)] by (force simp: log_writes_def home_def)
  then show "(log_dev s, b, x) \<notin> set (take k (commit_writes s))"
    using assms(2) by (auto simp: commit_writes_def dest: in_set_takeD)
qed

lemma take_late:
  "nat (lh_n s) < k \<Longrightarrow> take k (commit_writes s) =
     (log_writes s 0 (nat (lh_n s)) @ [head_write s]) @ take (k - nat (lh_n s) - 1) (new_writes s @ [clear_write s])"
  by (simp add: commit_writes_def take_Cons' Suc_diff_Suc)

lemma crash_late_log:
  assumes "log_wf s" "nat (lh_n s) < k" "i < nat (lh_n s)"
  shows "crash_disk s k (log_start s + i + 1) = view s (log_dev s) (lh_block s i)"
  unfolding crash_disk_def
proof (rule replay_at)
  let ?a = "log_start s + i + 1" and ?x = "view s (log_dev s) (lh_block s i)"
  show "(log_dev s, ?a, ?x) \<in> set (take k (commit_writes s))"
    unfolding take_late [OF assms(2)] using assms(3) by (auto simp: log_writes_def)
  fix y
  assume "(log_dev s, ?a, y) \<in> set (take k (commit_writes s))"
  then have "(log_dev s, ?a, y) \<in> set (commit_writes s)" by (rule in_set_takeD)
  moreover have "(log_dev s, ?a, y) \<notin> set (new_writes s)"
    using log_wfD(5) [OF assms(1,3)] by (auto simp: new_writes_def) blast
  ultimately show "y = ?x"
    by (auto simp: commit_writes_def log_writes_def head_write_def clear_write_def)
qed

lemma crash_late_head:
  assumes "log_wf s" "nat (lh_n s) < k" "k < 2 * nat (lh_n s) + 2"
  shows "crash_disk s k (log_start s) = enc_head (lh_n s) (lh_block s) (view s (log_dev s) (log_start s))"
proof -
  have e: "take (k - nat (lh_n s) - 1) (new_writes s @ [clear_write s]) = take (k - nat (lh_n s) - 1) (new_writes s)"
    using assms(3) by simp
  have "(log_dev s, log_start s, x) \<notin> set (new_writes s)" for x
    using assms(1) by (auto simp: new_writes_def log_wf_def home_def)
  then have "(log_dev s, log_start s, x) \<notin> set (take (k - nat (lh_n s) - 1) (new_writes s))" for x
    by (meson in_set_takeD)
  then show ?thesis
    unfolding crash_disk_def take_late [OF assms(2)] e
    by (simp add: replay_append replay_other head_write_def)
qed

lemma crash_done:
  assumes "log_wf s" "2 * nat (lh_n s) + 2 \<le> k"
  shows "rd32 (crash_disk s k (log_start s)) 0 = 0"
    "i < nat (lh_n s) \<Longrightarrow> crash_disk s k (lh_block s i) = view s (log_dev s) (lh_block s i)"
proof -
  have e: "take k (commit_writes s) = commit_writes s" using assms(2) by (simp add: commit_writes_def)
  show "rd32 (crash_disk s k (log_start s)) 0 = 0"
  proof -
    have "commit_writes s = (log_writes s 0 (nat (lh_n s)) @ [head_write s] @ new_writes s) @ [clear_write s]"
      by (simp add: commit_writes_def)
    then show ?thesis
      unfolding crash_disk_def e by (simp only: replay_append [of _ "[clear_write s]"])
        (simp add: clear_write_def enc_head_def)
  qed
  show "crash_disk s k (lh_block s i) = view s (log_dev s) (lh_block s i)" if "i < nat (lh_n s)"
    unfolding crash_disk_def e
  proof (rule replay_at)
    show "(log_dev s, lh_block s i, view s (log_dev s) (lh_block s i)) \<in> set (commit_writes s)"
      using that by (auto simp: commit_writes_def new_writes_def)
    fix y
    assume "(log_dev s, lh_block s i, y) \<in> set (commit_writes s)"
    moreover have "home s (lh_block s i)" using assms(1) that by (simp add: log_wf_def)
    ultimately show "y = view s (log_dev s) (lh_block s i)"
      using assms(1) log_wfD(4) [OF assms(1)] 
      by (force simp: commit_writes_def log_writes_def new_writes_def head_write_def clear_write_def home_def log_wf_def)
  qed
qed

text \<open>The machine restarts on the disk \<open>D\<close> with an empty cache.\<close>

definition boots :: "(nat \<Rightarrow> nat \<Rightarrow> block) \<Rightarrow> 'z lstate_scheme \<Rightarrow> bool" where
  "boots D s \<longleftrightarrow> quiet s \<and> dirty s = {} \<and> disk s = D"

text \<open>The superblock, outside every transaction, says where the log is.\<close>

definition sb_ok :: "'z lstate_scheme \<Rightarrow> bool" where
  "sb_ok s \<longleftrightarrow> (let sb = dec_superblock (dblk s (log_dev s) 1) in
     sb_logstart sb = log_start s \<and> sb_nlog sb = log_size s \<and> home s 1 \<and> 1 \<notin> logged s)"

lemma readsb_ok:
  assumes "quiet s" "blk_ok dev 1" "card (dirty s) < NBUF"
  shows "wp (readsb dev) (\<lambda>sb t. sb = dec_superblock (view s dev 1) \<and> after s [] {} t) s"
  unfolding readsb_def
proof (rule wp_bndI)
  show "wp (bread dev 1) (bgot s dev 1) s"
    using assms room_card [of s] by (intro bread_contract) (auto simp: quiet_def)
  fix b t
  assume g: "bgot s dev 1 b t"
  have h: "binv t" "held t = {b}" "b_data (bufs t b) = view s dev 1" "b \<in> dirty t \<or> clean t b"
    using g assms(1) by (auto simp: bgot_def quiet_def)
  have "wp (brelse b) (\<lambda>_ u. after s [] {} u) t"
  proof (rule wp_mono)
    show "wp (brelse b) (\<lambda>_ u. breleased t b u) t" using h by (intro brelse_contract) auto
    fix u
    assume r: "breleased t b u"
    then show "after s [] {} u"
      using h g dkeys_released [OF r] dkeys_got [OF g]
      by (auto simp: after_def breleased_def bgot_def quiet_def intro: bframe_trans)
  qed
  then show "wp (bnd (gets (\<lambda>s. dec_superblock (b_data (bufs s b)))) (\<lambda>sb. bnd (brelse b) (\<lambda>_. ret sb)))
      (\<lambda>sb t. sb = dec_superblock (view s dev 1) \<and> after s [] {} t) t"
    by (auto simp: wp_def bnd_def gets_def ret_def h split: sum.splits)
qed

lemma boot_disk:
  assumes "log_wf s" "boots (replay (take k (phys (commit_writes s))) (disk s)) s0" "blk_ok (log_dev s) b"
  shows "dblk s0 (log_dev s) b = crash_disk s k b"
proof -
  have "take k (phys (commit_writes s)) = phys (take k (commit_writes s))" by (simp add: phys_def take_map)
  moreover have "replay (phys (take k (commit_writes s))) (disk s) (ide_port (log_dev s)) (ide_sector b) =
      replay (take k (commit_writes s)) (dblk s) (log_dev s) b"
    using commit_writes_ok [OF assms(1)] assms(3)
    by (intro replay_phys) (auto simp: dblk_def dest: in_set_takeD)
  ultimately show ?thesis using assms(2) by (simp add: boots_def dblk_def [of s0] crash_disk_def)
qed

lemma after_dblk:
  assumes "after s ws D t" "\<And>d n x. (d, n, x) \<in> set ws \<Longrightarrow> blk_ok d n" "blk_ok d n"
  shows "dblk t d n = replay ws (dblk s) d n"
proof -
  have "replay (phys ws) (disk s) (ide_port d) (ide_sector n) = replay ws (dblk s) d n"
    by (rule replay_phys) (use assms in \<open>auto simp: dblk_def\<close>)
  then show ?thesis using assms(1) by (simp add: after_def dblk_def [of t])
qed

lemma log_wf_empty:
  "\<lbrakk>log_wf s; log_dev t = log_dev s; log_start t = log_start s; log_size t = log_size s; lh_n t = 0\<rbrakk> \<Longrightarrow> log_wf t"
  by (simp add: log_wf_def)

lemma home_ok: "log_wf s \<Longrightarrow> home s b \<Longrightarrow> blk_ok (log_dev s) b" "log_wf s \<Longrightarrow> blk_ok (log_dev s) (log_start s)"
  by (auto simp: log_wf_def home_def blk_ok_def)

text \<open>Recovery from a disk whose header is empty changes only the header.\<close>

lemma recover_empty:
  assumes q: "quiet s0" "dirty s0 = {}" and wf: "log_wf s" and eq: "log_dev s0 = log_dev s"
    "log_start s0 = log_start s" "log_size s0 = log_size s"
    and z: "rd32 (dblk s0 (log_dev s) (log_start s)) 0 = 0"
  shows "wp recover_from_log (\<lambda>_ u. quiet u \<and> dirty u = {} \<and> lh_n u = 0 \<and>
      rd32 (dblk u (log_dev s) (log_start s)) 0 = 0 \<and>
      (\<forall>b. home s b \<longrightarrow> dblk u (log_dev s) b = dblk s0 (log_dev s) b)) s0"
proof (rule wp_mono)
  let ?d = "dblk s0 (log_dev s) (log_start s)" and ?dev = "log_dev s"
  have v: "?d = view s0 (log_dev s0) (log_start s0)"
    using clean_view [of s0] q home_ok(2) [OF wf] by (simp add: eq dkeys_def)
  have wf0: "log_wf (load_head ?d s0)" by (rule log_wf_empty [OF wf]) (simp_all add: eq z s32_def)
  let ?w = "(?dev, log_start s, enc_head 0 (lh_block (load_head ?d s0)) ?d)"
  have rw: "recover_writes s0 = [?w]"
    unfolding recover_writes_def v [symmetric] by (simp add: Let_def home_writes_def z s32_def eq)
  show "wp recover_from_log (\<lambda>_ t. after ((load_head ?d s0)\<lparr>lh_n := 0\<rparr>) [?w] {} t) s0"
    using recover_ok [OF q v wf0] by (simp add: rw)
  fix u
  assume a: "after ((load_head ?d s0)\<lparr>lh_n := 0\<rparr>) [?w] {} u"
  have db: "dblk u ?dev b = replay [?w] (dblk s0) ?dev b" if "blk_ok ?dev b" for b
    using after_dblk [OF a _ that] home_ok(2) [OF wf] by simp
  have "rd32 (dblk u ?dev (log_start s)) 0 = 0"
    using db [OF home_ok(2) [OF wf]] by (simp add: enc_head_def)
  moreover have "dblk u ?dev b = dblk s0 ?dev b" if "home s b" for b
    using db [OF home_ok(1) [OF wf that]] that wf by (auto simp: home_def log_wf_def)
  moreover have "lh_n u = 0" using a lframe(6) [of "(load_head ?d s0)\<lparr>lh_n := 0\<rparr>" u] by (simp add: after_def)
  moreover have "dirty u = {}" using a q by (simp add: after_def dkeys_def)
  ultimately show "quiet u \<and> dirty u = {} \<and> lh_n u = 0 \<and> rd32 (dblk u ?dev (log_start s)) 0 = 0 \<and>
      (\<forall>b. home s b \<longrightarrow> dblk u ?dev b = dblk s0 ?dev b)"
    using a by (simp add: after_def)
qed

text \<open>Recovery from a disk whose header was written installs the logged blocks.\<close>

lemma recover_full:
  assumes q: "quiet s0" "dirty s0 = {}" and wf: "log_wf s" and eq: "log_dev s0 = log_dev s"
    "log_start s0 = log_start s" "log_size s0 = log_size s"
    and hd: "dblk s0 (log_dev s) (log_start s) = enc_head (lh_n s) (lh_block s) x"
    and lg: "\<And>i. i < nat (lh_n s) \<Longrightarrow> dblk s0 (log_dev s) (log_start s + i + 1) = y (lh_block s i)"
  shows "wp recover_from_log (\<lambda>_ u. quiet u \<and> dirty u = {} \<and> lh_n u = 0 \<and>
      rd32 (dblk u (log_dev s) (log_start s)) 0 = 0 \<and>
      (\<forall>b. home s b \<longrightarrow> dblk u (log_dev s) b = (if b \<in> logged s then y b else dblk s0 (log_dev s) b))) s0"
proof (rule wp_mono)
  let ?d = "enc_head (lh_n s) (lh_block s) x" and ?dev = "log_dev s" and ?n = "nat (lh_n s)"
  let ?u = "load_head ?d s0"
  have n: "0 \<le> lh_n s" "lh_n s \<le> int LOGSIZE" "\<And>i. i < ?n \<Longrightarrow> lh_block s i < 4294967296"
    using wf by (auto simp: log_wf_def home_def const_defs)
  have rt: "s32 (rd32 ?d 0) = lh_n s" "\<And>i. i < ?n \<Longrightarrow> rd32 ?d (4 + 4 * i) = lh_block s i"
    using enc_head_roundtrip [of "lh_n s" "lh_block s", OF n] by blast+
  have vw: "view s0 ?dev b = dblk s0 ?dev b" if "blk_ok ?dev b" for b
    using clean_view [of s0] q that by (simp add: dkeys_def)
  have v: "?d = view s0 (log_dev s0) (log_start s0)"
    using vw [OF home_ok(2) [OF wf]] by (simp add: eq hd)
  have ub: "lh_block ?u i = lh_block s i" if "i < ?n" for i
    using rt that by (auto simp: load_head_def Let_def)
  have un: "lh_n ?u = lh_n s" using rt by simp
  have wf0: "log_wf ?u"
    using wf by (auto simp: log_wf_def home_def rt(1) ub eq inj_on_def)
  let ?w = "(?dev, log_start s, enc_head 0 (lh_block ?u) ?d)"
  let ?hw = "map (\<lambda>i. (?dev, lh_block s i, y (lh_block s i))) [0..<?n]"
  have "home_writes ?u 0 (nat (lh_n ?u)) = ?hw"
    using lg vw log_wfD(1) [OF wf] by (auto simp: home_writes_def rt(1) ub eq)
  then have rw: "recover_writes s0 = ?hw @ [?w]"
    unfolding recover_writes_def v [symmetric] by (simp add: Let_def eq rt(1))
  show "wp recover_from_log (\<lambda>_ t. after (?u\<lparr>lh_n := 0\<rparr>) (?hw @ [?w]) {} t) s0"
    using recover_ok [OF q v wf0] by (simp add: rw)
  fix u
  assume a: "after (?u\<lparr>lh_n := 0\<rparr>) (?hw @ [?w]) {} u"
  have db: "dblk u ?dev b = replay (?hw @ [?w]) (dblk s0) ?dev b" if "blk_ok ?dev b" for b
  proof -
    have "dblk u ?dev b = replay (?hw @ [?w]) (dblk (?u\<lparr>lh_n := 0\<rparr>)) ?dev b"
      using home_ok(2) [OF wf] log_wfD(2) [OF wf] by (intro after_dblk [OF a _ that]) auto
    then show ?thesis by simp
  qed
  have "rd32 (dblk u ?dev (log_start s)) 0 = 0"
    using db [OF home_ok(2) [OF wf]] by (simp add: replay_append enc_head_def)
  moreover have "dblk u ?dev b = (if b \<in> logged s then y b else dblk s0 ?dev b)" if "home s b" for b
  proof -
    have ne: "b \<noteq> log_start s" using that wf by (auto simp: home_def log_wf_def)
    have "replay ?hw (dblk s0) ?dev b = y b" if "b \<in> logged s"
      using that by (intro replay_at) (auto simp: logged_def)
    moreover have "replay ?hw (dblk s0) ?dev b = dblk s0 ?dev b" if "b \<notin> logged s"
      using that by (intro replay_other) (auto simp: logged_def)
    ultimately show ?thesis
      using db [OF home_ok(1) [OF wf that]] ne by (simp add: replay_append)
  qed
  moreover have "lh_n u = 0" using a lframe(6) [of "?u\<lparr>lh_n := 0\<rparr>" u] by (simp add: after_def)
  moreover have "dirty u = {}" using a q by (simp add: after_def dkeys_def)
  ultimately show "quiet u \<and> dirty u = {} \<and> lh_n u = 0 \<and> rd32 (dblk u ?dev (log_start s)) 0 = 0 \<and>
      (\<forall>b. home s b \<longrightarrow> dblk u ?dev b = (if b \<in> logged s then y b else dblk s0 ?dev b))"
    using a by (simp add: after_def)
qed

lemma linv_unlogged:
  assumes "linv s" "held s = {}" "home s b" "b \<notin> logged s"
  shows "view s (log_dev s) b = dblk s (log_dev s) b"
  using assms home_ok(1) [of s b] by (intro clean_view) (auto simp: linv_def quiet_def)

lemma recover_crash:
  assumes inv: "linv s" "held s = {}" and q: "quiet s0" "dirty s0 = {}"
    and eq: "log_dev s0 = log_dev s" "log_start s0 = log_start s" "log_size s0 = log_size s"
    and D: "\<And>b. blk_ok (log_dev s) b \<Longrightarrow> dblk s0 (log_dev s) b = crash_disk s k b"
  shows "wp recover_from_log (\<lambda>_ u. quiet u \<and> dirty u = {} \<and> lh_n u = 0 \<and>
      rd32 (dblk u (log_dev s) (log_start s)) 0 = 0 \<and> (\<forall>b. home s b \<longrightarrow> dblk u (log_dev s) b =
        (if k \<le> nat (lh_n s) then dblk s (log_dev s) b else view s (log_dev s) b))) s0"
proof -
  let ?dev = "log_dev s" and ?n = "nat (lh_n s)"
  have wf: "log_wf s" and z: "rd32 (dblk s ?dev (log_start s)) 0 = 0" using inv by (auto simp: linv_def)
  have hd: "dblk s0 ?dev (log_start s) = crash_disk s k (log_start s)" by (rule D [OF home_ok(2) [OF wf]])
  have hm: "dblk s0 ?dev b = crash_disk s k b" if "home s b" for b by (rule D [OF home_ok(1) [OF wf that]])
  consider "k \<le> ?n" | "2 * ?n + 2 \<le> k" | "?n < k" "k < 2 * ?n + 2" by linarith
  then show ?thesis
  proof cases
    case 1
    have "rd32 (dblk s0 ?dev (log_start s)) 0 = 0" using crash_early [OF wf 1] z hd by simp
    from recover_empty [OF q wf eq this] show ?thesis
      by (rule wp_mono) (simp add: 1 hm crash_early [OF wf 1])
  next
    case 2
    have late: "crash_disk s k b = view s ?dev b" if "home s b" for b
      using crash_done(2) [OF wf 2] crash_home [OF wf that] linv_unlogged [OF inv that]
      by (cases "b \<in> logged s") (auto simp: logged_def)
    have "rd32 (dblk s0 ?dev (log_start s)) 0 = 0" using crash_done(1) [OF wf 2] hd by simp
    from recover_empty [OF q wf eq this] show ?thesis
      by (rule wp_mono) (use 2 in \<open>simp add: hm late\<close>)
  next
    case 3
    have "dblk s0 ?dev (log_start s + i + 1) = view s ?dev (lh_block s i)" if "i < ?n" for i
      using D [OF log_wfD(1) [OF wf that]] crash_late_log [OF wf 3(1) that] by simp
    from recover_full [OF q wf eq hd [unfolded crash_late_head [OF wf 3]] this] show ?thesis
      by (rule wp_mono) (use 3 in \<open>auto simp: hm crash_home [OF wf] linv_unlogged [OF inv]\<close>)
  qed
qed

text \<open>A restart runs \<open>initlog\<close>, which finds the log through the superblock.\<close>

lemma initlog_eq: "initlog dev = bnd (readsb dev) (\<lambda>sb.
   bnd (upd (\<lambda>s. s\<lparr>log_start := sb_logstart sb, log_size := sb_nlog sb, log_dev := dev\<rparr>)) (\<lambda>_.
   recover_from_log))"
  by (simp add: initlog_def const_defs)

lemma initlog_crash:
  assumes inv: "linv s" "held s = {}" and sb: "sb_ok s"
    and b: "boots (replay (take k (phys (commit_writes s))) (disk s)) s0"
  shows "wp (initlog (log_dev s)) (\<lambda>_ u. quiet u \<and> dirty u = {} \<and> lh_n u = 0 \<and>
      rd32 (dblk u (log_dev s) (log_start s)) 0 = 0 \<and> (\<forall>b. home s b \<longrightarrow> dblk u (log_dev s) b =
        (if k \<le> nat (lh_n s) then dblk s (log_dev s) b else view s (log_dev s) b))) s0"
proof -
  let ?dev = "log_dev s"
  let ?f = "\<lambda>t. t\<lparr>log_start := log_start s, log_size := log_size s, log_dev := ?dev\<rparr>"
  have wf: "log_wf s" using inv by (simp add: linv_def)
  have h1: "home s 1" "1 \<notin> logged s" using sb by (auto simp: sb_ok_def Let_def)
  have q: "quiet s0" "dirty s0 = {}" using b by (auto simp: boots_def)
  have ok1: "blk_ok ?dev 1" by (rule home_ok(1) [OF wf h1(1)])
  have v1: "view s0 ?dev 1 = dblk s ?dev 1"
    using clean_view [OF q(1) _ ok1] q(2) boot_disk [OF wf b ok1] crash_home [OF wf h1] by (simp add: dkeys_def)
  show ?thesis
    unfolding initlog_eq
  proof (rule wp_bndI [OF readsb_ok [OF q(1) ok1]])
    show "card (dirty s0) < NBUF" using q by simp
    fix x t
    assume a: "x = dec_superblock (view s0 ?dev 1) \<and> after s0 [] {} t"
    have t: "quiet (?f t)" "dirty (?f t) = {}" "dblk (?f t) = dblk s0"
      using a q by (auto simp: after_def dkeys_def dblk_def fun_eq_iff)
    have "sb_logstart x = log_start s" "sb_nlog x = log_size s"
      using a v1 sb by (auto simp: sb_ok_def Let_def)
    moreover have "wp recover_from_log (\<lambda>_ u. quiet u \<and> dirty u = {} \<and> lh_n u = 0 \<and>
      rd32 (dblk u (log_dev s) (log_start s)) 0 = 0 \<and> (\<forall>b. home s b \<longrightarrow> dblk u (log_dev s) b =
        (if k \<le> nat (lh_n s) then dblk s (log_dev s) b else view s (log_dev s) b))) (?f t)"
      using t boot_disk [OF wf b] by (intro recover_crash [OF inv]) auto
    ultimately show "wp (bnd (upd (\<lambda>s. s\<lparr>log_start := sb_logstart x, log_size := sb_nlog x, log_dev := ?dev\<rparr>))
        (\<lambda>_. recover_from_log)) (\<lambda>_ u. quiet u \<and> dirty u = {} \<and> lh_n u = 0 \<and>
      rd32 (dblk u (log_dev s) (log_start s)) 0 = 0 \<and> (\<forall>b. home s b \<longrightarrow> dblk u (log_dev s) b =
        (if k \<le> nat (lh_n s) then dblk s (log_dev s) b else view s (log_dev s) b))) t"
      by (simp add: wp_def bnd_def upd_def)
  qed
qed

subsection \<open>Adding a block to the transaction\<close>

lemma absorb_spec:
  "(absorb bl b i k = i + k \<and> b \<notin> bl ` {i..<i + k}) \<or>
   (i \<le> absorb bl b i k \<and> absorb bl b i k < i + k \<and> bl (absorb bl b i k) = b)"
proof (induction k arbitrary: i)
  case (Suc k)
  have "{i..<i + Suc k} = insert i {i + 1..<i + 1 + k}" by auto
  then show ?case using Suc.IH [of "i + 1"] by (cases "bl i = b") auto
qed auto

lemma absorb_inv:
  fixes n b :: nat and bl :: "nat \<Rightarrow> nat"
  defines "i \<equiv> absorb bl b 0 n"
  defines "n' \<equiv> if i = n then Suc n else n"
  assumes inj: "inj_on bl {0..<n}"
  shows "inj_on (bl(i := b)) {0..<n'} \<and> (bl(i := b)) ` {0..<n'} = insert b (bl ` {0..<n})"
proof -
  consider (new) "i = n" "b \<notin> bl ` {0..<n}" | (old) "i < n" "bl i = b"
    using absorb_spec [of bl b 0 n] by (auto simp: i_def)
  then show ?thesis
  proof cases
    case new
    have "inj_on (bl(n := b)) {0..<n}" "(bl(n := b)) ` {0..<n} = bl ` {0..<n}"
      using inj by (auto simp: inj_on_def)
    then show ?thesis using new by (simp add: n'_def atLeast0_lessThan_Suc del: fun_upd_image) auto
  next
    case old
    then have "bl(i := b) = bl" by auto
    then show ?thesis using old inj by (auto simp: n'_def)
  qed
qed

definition lframe_of :: "'z lstate_scheme \<Rightarrow> 'z lstate_scheme \<Rightarrow> bool" where
  "lframe_of s t \<longleftrightarrow> cur_pid t = cur_pid s \<and> log_start t = log_start s \<and> log_size t = log_size s \<and>
     outstanding t = outstanding s \<and> committing t = committing s \<and> log_dev t = log_dev s \<and>
     lstate.more t = lstate.more s"

definition logged_block :: "'z lstate_scheme \<Rightarrow> nat \<Rightarrow> 'z lstate_scheme \<Rightarrow> bool" where
  "logged_block s b t \<longleftrightarrow> linv t \<and> lframe_of s t \<and> disk t = disk s \<and> dwrites t = dwrites s \<and>
     held t = held s \<and> view t = view s \<and> dirty t = insert b (dirty s) \<and>
     dkeys t = insert (bkey (bufs s b)) (dkeys s) \<and> logged t = insert (b_blockno (bufs s b)) (logged s) \<and>
     (\<forall>i. core (bufs t i) = core (if i = b then (bufs s b)\<lparr>b_dirty := True\<rparr> else bufs s i))"

lemma log_write_ok:
  assumes inv: "linv s" and b: "b \<in> held s" and n: "lh_n s < int (log_size s) - 1" "1 \<le> outstanding s"
    and dev: "b_dev (bufs s b) = log_dev s" and hm: "home s (b_blockno (bufs s b))"
  shows "wp (log_write b) (\<lambda>_ t. logged_block s b t) s"
proof -
  let ?bno = "b_blockno (bufs s b)" and ?n = "nat (lh_n s)"
  let ?i = "absorb (lh_block s) ?bno 0 ?n"
  let ?s1 = "s\<lparr>lh_block := (lh_block s)(?i := ?bno)\<rparr>"
  let ?s2 = "if int ?i = lh_n s then ?s1\<lparr>lh_n := lh_n s + 1\<rparr> else ?s1"
  define t where "t = setb b (\<lambda>bp. bp\<lparr>b_dirty := True\<rparr>) ?s2"
  have wf: "log_wf s" and bi: "binv s" using inv by (auto simp: linv_def)
  have n0: "0 \<le> lh_n s" using wf by (simp add: log_wf_def)
  have two: "bsame s ?s2" by (simp add: bsame_def)
  have sb: "bufs ?s2 = bufs s" by simp
  note p = pin_ok [OF _ _ t_def, unfolded bsameD [OF two] sb, OF bi b]
  have lh: "lh_block t = (lh_block s)(?i := ?bno)" "nat (lh_n t) = (if ?i = ?n then Suc ?n else ?n)"
    "lh_n t = (if ?i = ?n then lh_n s + 1 else lh_n s)"
    using n0 by (auto simp: t_def setb_def nat_add_distrib)
  have fr: "lframe_of s t" "disk t = disk s" "dwrites t = dwrites s"
    by (auto simp: lframe_of_def t_def setb_def)
  have inj: "inj_on (lh_block s) {0..<?n}" using wf by (simp add: log_wf_def)
  note ab = absorb_inv [OF inj, of ?bno, folded lh(1), folded lh(2)]
  have lg: "logged t = insert ?bno (logged s)" using ab by (simp add: logged_def)
  have ht: "home t = home s" using fr(1) by (simp add: home_def lframe_of_def fun_eq_iff)
  have "\<forall>x \<in> logged s. home s x" using wf by (simp add: logged_def log_wf_def)
  then have "\<forall>x \<in> logged t. home t x" using lg hm ht by simp
  then have "\<forall>i < nat (lh_n t). home t (lh_block t i)" by (simp add: logged_def)
  moreover have "0 \<le> lh_n t" "lh_n t < int (log_size s)" using n0 n(1) by (auto simp: lh(3))
  ultimately have wft: "log_wf t"
    using wf ab fr(1) by (simp add: log_wf_def lframe_of_def)
  have "dkeys t = Pair (log_dev t) ` logged t"
    using p(4) lg dev inv fr(1) by (simp add: linv_def bkey_def lframe_of_def)
  then have "linv t" using p(1) wft inv fr by (simp add: linv_def dblk_def lframe_of_def)
  moreover have "core (bufs t i) = core (if i = b then (bufs s b)\<lparr>b_dirty := True\<rparr> else bufs s i)" for i
    by (simp add: t_def)
  ultimately have "logged_block s b t" using p fr lg by (simp add: logged_block_def)
  moreover have "log_write b s = Inr ((), t)"
    using n wf by (simp add: log_write_def Let_def t_def log_wf_def)
  ultimately show ?thesis by (simp add: wp_def)
qed

subsection \<open>Opening and closing a transaction\<close>

text \<open>After the last operation of a transaction its blocks are on disk and nothing is pinned.\<close>

definition durable :: "'z lstate_scheme \<Rightarrow> 'z lstate_scheme \<Rightarrow> bool" where
  "durable s t \<longleftrightarrow> linv t \<and> held t = {} \<and> lh_n t = 0 \<and> dkeys t = {} \<and>
     log_start t = log_start s \<and> log_size t = log_size s \<and> log_dev t = log_dev s \<and>
     cur_pid t = cur_pid s \<and> lstate.more t = lstate.more s \<and>
     (\<forall>b. home s b \<longrightarrow> dblk t (log_dev s) b = view s (log_dev s) b \<and> view t (log_dev s) b = view s (log_dev s) b)"

lemma linv_flags [simp]: "linv (s\<lparr>outstanding := i\<rparr>) = linv s" "linv (s\<lparr>committing := c\<rparr>) = linv s"
  by (simp_all add: linv_def log_wf_def home_def logged_def)

lemma linv_empty: "linv s \<Longrightarrow> lh_n s = 0 \<Longrightarrow> dkeys s = {}"
  by (simp add: linv_def logged_def)

lemma commit_durable:
  assumes inv: "linv s" and h: "held s = {}"
  shows "wp commit (\<lambda>_ t. durable s t \<and> outstanding t = outstanding s \<and> committing t = committing s) s"
proof (cases "0 < lh_n s")
  case False
  then have n: "lh_n s = 0" using inv by (auto simp: linv_def log_wf_def)
  then have "view s (log_dev s) b = dblk s (log_dev s) b" if "home s b" for b
    using linv_unlogged [OF inv h that] by (simp add: logged_def)
  then have "durable s s" using inv h n linv_empty [OF inv n] by (simp add: durable_def)
  then show ?thesis using n by (simp add: commit_def wp_def)
next
  case True
  let ?dev = "log_dev s" and ?u = "s\<lparr>lh_n := 0\<rparr>" and ?k = "2 * nat (lh_n s) + 2"
  have wf: "log_wf s" using inv by (simp add: linv_def)
  show ?thesis
  proof (rule wp_mono [OF commit_ok [OF inv h True]])
    fix t
    assume a: "after ?u (commit_writes s) (Pair ?dev ` logged s) t"
    have fr: "bframe ?u t" and q: "quiet t" and dk: "dkeys t = {}"
      using a inv by (auto simp: after_def linv_def)
    note f = lframe [OF fr]
    have db: "dblk t ?dev b = crash_disk s ?k b" if "blk_ok ?dev b" for b
    proof -
      have "dblk t ?dev b = replay (commit_writes s) (dblk ?u) ?dev b"
        by (rule after_dblk [OF a commit_writes_ok [OF wf] that])
      then show ?thesis by (simp add: crash_disk_def commit_writes_def)
    qed
    have d: "dblk t ?dev b = view s ?dev b" if "home s b" for b
      using db [OF home_ok(1) [OF wf that]] crash_done(2) [OF wf order_refl]
        crash_home [OF wf that] linv_unlogged [OF inv h that]
      by (cases "b \<in> logged s") (auto simp: logged_def)
    have v: "view t ?dev b = dblk t ?dev b" if "home s b" for b
      using clean_view [OF q _ home_ok(1) [OF wf that]] dk by simp
    have "rd32 (dblk t ?dev (log_start s)) 0 = 0"
      using db [OF home_ok(2) [OF wf]] crash_done(1) [OF wf order_refl] by simp
    moreover have "log_wf t" by (rule log_wf_empty [OF wf]) (simp_all add: f)
    ultimately have "linv t" using q dk f by (simp add: linv_def logged_def quiet_def)
    then show "durable s t \<and> outstanding t = outstanding s \<and> committing t = committing s"
      using q dk d v f by (simp add: durable_def quiet_def)
  qed
qed

lemma end_op_ok:
  assumes inv: "linv s" and h: "held s = {}" and o: "outstanding s = 1" "\<not> committing s"
  shows "wp end_op (\<lambda>_ t. durable s t \<and> outstanding t = 0 \<and> \<not> committing t) s"
proof -
  let ?u = "s\<lparr>outstanding := 0, committing := True\<rparr>"
  have "linv ?u" using inv by simp
  moreover have "held ?u = {}" using h by simp
  ultimately have "wp commit (\<lambda>_ t. durable ?u t \<and> outstanding t = outstanding ?u \<and> committing t = committing ?u) ?u"
    by (rule commit_durable)
  then have "wp (bnd commit (\<lambda>_. upd (\<lambda>s. s\<lparr>committing := False\<rparr>))) (\<lambda>_ t. durable s t \<and> outstanding t = 0 \<and> \<not> committing t) ?u"
  proof (rule wp_bndI)
    fix t
    assume "durable ?u t \<and> outstanding t = outstanding ?u \<and> committing t = committing ?u"
    then show "wp (upd (\<lambda>s. s\<lparr>committing := False\<rparr>)) (\<lambda>_ t. durable s t \<and> outstanding t = 0 \<and> \<not> committing t) t"
      by (simp add: upd_def wp_def durable_def home_def)
  qed
  then show ?thesis using o by (simp add: end_op_def wp_def Let_def)
qed

lemma begin_op_ok:
  assumes "linv s" "\<not> committing s" "lh_n s + (outstanding s + 1) * int MAXOPBLOCKS \<le> int LOGSIZE"
  shows "wp begin_op (\<lambda>_ t. t = s\<lparr>outstanding := outstanding s + 1\<rparr> \<and> linv t) s"
  using assms by (simp add: begin_op_def wp_def)

end
