(* ===== verification/Transactions.thy ===== *)
theory Transactions
  imports Log
begin

section \<open>Concurrent file-system operations\<close>

text \<open>
  Several threads run operations between \<open>begin_op\<close> and \<open>end_op\<close> at the same time; the log lock
  makes each call of log.c one step. A state is the kernel state with the number of blocks each
  thread has logged in its current operation. Everything outside the log (cache, drives, the
  running process) may change in any way between two calls. A commit runs without the lock, but
  with \<open>committing\<close> set and no operation open nothing else of log.c can succeed meanwhile, so
  \<open>end_op\<close> is one step as well.
\<close>

type_synonym 'z conc = "'z lstate_scheme \<times> (nat \<Rightarrow> nat option)"

definition same_log :: "'z lstate_scheme \<Rightarrow> 'z lstate_scheme \<Rightarrow> bool" where
  "same_log s t \<longleftrightarrow> log_start t = log_start s \<and> log_size t = log_size s \<and> log_dev t = log_dev s \<and>
     outstanding t = outstanding s \<and> committing t = committing s \<and> lh_n t = lh_n s \<and> lh_block t = lh_block s"

inductive tstep :: "'z conc \<Rightarrow> 'z conc \<Rightarrow> bool" where
  t_begin: "r p = None \<Longrightarrow> begin_op s = Inr ((), t) \<Longrightarrow> tstep (s, r) (t, r(p \<mapsto> 0))"
| t_write: "r p = Some k \<Longrightarrow> k < MAXOPBLOCKS \<Longrightarrow> log_write b s = Inr ((), t) \<Longrightarrow>
    tstep (s, r) (t, r(p \<mapsto> k + 1))"
| t_end: "r p = Some k \<Longrightarrow> end_op s = Inr ((), t) \<Longrightarrow> tstep (s, r) (t, r(p := None))"
| t_other: "same_log s t \<Longrightarrow> tstep (s, r) (t, r)"

text \<open>The states reached from an idle log of \<open>nlog\<close> blocks.\<close>

inductive treach :: "nat \<Rightarrow> 'z conc \<Rightarrow> bool" for nlog where
  tr_init: "log_size s = nlog \<Longrightarrow> lh_n s = 0 \<Longrightarrow> outstanding s = 0 \<Longrightarrow> \<not> committing s \<Longrightarrow> treach nlog (s, Map.empty)"
| tr_step: "treach nlog c \<Longrightarrow> tstep c c' \<Longrightarrow> treach nlog c'"

text \<open>Blocks a thread may still log in its current operation.\<close>

definition left :: "(nat \<Rightarrow> nat option) \<Rightarrow> nat \<Rightarrow> int" where
  "left r p = (case r p of None \<Rightarrow> 0 | Some k \<Rightarrow> int MAXOPBLOCKS - int k)"

definition tinv :: "nat \<Rightarrow> 'z conc \<Rightarrow> bool" where
  "tinv nlog c \<longleftrightarrow> (let (s, r) = c in
     log_size s = nlog \<and> \<not> committing s \<and> finite (dom r) \<and> outstanding s = int (card (dom r)) \<and>
     0 \<le> lh_n s \<and> (\<forall>p k. r p = Some k \<longrightarrow> k \<le> MAXOPBLOCKS) \<and>
     lh_n s + (\<Sum>p \<in> dom r. left r p) \<le> int LOGSIZE)"

subsection \<open>What a commit leaves of the log\<close>

lemma keeps_state: "(\<And>s. keeps (m s)) \<Longrightarrow> keeps (\<lambda>s. m s s)"
  by (auto simp: keeps_def)

lemma keeps_copy: "keeps (\<lambda>s. bmod x (\<lambda>_. b_data (bufs s y)) s)"
  by (rule keeps_state) (rule keeps_bmod)

lemma keeps_install_loop: "keeps (install_loop tail k :: ('z lstate_scheme, unit) kern)"
proof (induction k arbitrary: tail)
  case (Suc k)
  show ?case
    unfolding install_loop.simps Let_def
    by (rule keeps_state) (intro keeps_bnd keeps_rules keeps_copy Suc)
qed simp

lemma keeps_write_log_loop: "keeps (write_log_loop tail k :: ('z lstate_scheme, unit) kern)"
proof (induction k arbitrary: tail)
  case (Suc k)
  show ?case
    unfolding write_log_loop.simps Let_def
    by (rule keeps_state) (intro keeps_bnd keeps_rules keeps_copy Suc)
qed simp

lemma keeps_install_trans: "keeps install_trans"
  unfolding install_trans_def by (rule keeps_state) (rule keeps_install_loop)

lemma keeps_write_log: "keeps write_log"
  unfolding write_log_def by (rule keeps_state) (rule keeps_write_log_loop)

lemma keeps_write_head: "keeps write_head"
  unfolding write_head_def by (rule keeps_state) (intro keeps_bnd keeps_rules)

lemma commit_log:
  assumes "commit s = Inr ((), t)"
  shows "log_size t = log_size s" "outstanding t = outstanding s" "committing t = committing s"
    "lh_n t = (if 0 < lh_n s then 0 else lh_n s)"
proof -
  have "log_size t = log_size s \<and> outstanding t = outstanding s \<and> committing t = committing s \<and>
      lh_n t = (if 0 < lh_n s then 0 else lh_n s)"
  proof (cases "0 < lh_n s")
    case True
    then obtain s1 s2 s3 where r: "write_log s = Inr ((), s1)" "write_head s1 = Inr ((), s2)"
      "install_trans s2 = Inr ((), s3)" "write_head (s3\<lparr>lh_n := 0\<rparr>) = Inr ((), t)"
      using assms by (auto simp: commit_def bnd_eq_Inr upd_def)
    show ?thesis
      using lframe [OF keepsD [OF keeps_write_log r(1)]] lframe [OF keepsD [OF keeps_write_head r(2)]]
        lframe [OF keepsD [OF keeps_install_trans r(3)]] lframe [OF keepsD [OF keeps_write_head r(4)]] True
      by simp
  qed (use assms in \<open>simp add: commit_def\<close>)
  then show "log_size t = log_size s" "outstanding t = outstanding s" "committing t = committing s"
    "lh_n t = (if 0 < lh_n s then 0 else lh_n s)" by auto
qed

subsection \<open>The reservation invariant\<close>

lemma sum_left_upd:
  assumes "finite (dom r)"
  shows "(\<Sum>q \<in> dom (r(p \<mapsto> k)). left (r(p \<mapsto> k)) q) = (\<Sum>q \<in> dom r. left r q) - left r p + (int MAXOPBLOCKS - int k)"
    and "(\<Sum>q \<in> dom (r(p := None)). left (r(p := None)) q) = (\<Sum>q \<in> dom r. left r q) - left r p"
proof -
  have rest: "(\<Sum>q \<in> dom r - {p}. left (r(p := v)) q) = (\<Sum>q \<in> dom r. left r q) - left r p" for v
  proof -
    have "(\<Sum>q \<in> dom r - {p}. left (r(p := v)) q) = (\<Sum>q \<in> dom r - {p}. left r q)"
      by (rule sum.cong) (auto simp: left_def)
    also have "\<dots> = (\<Sum>q \<in> dom r. left r q) - left r p"
      using assms by (cases "p \<in> dom r") (auto simp: sum_diff1 left_def domIff)
    finally show ?thesis .
  qed
  show "(\<Sum>q \<in> dom (r(p := None)). left (r(p := None)) q) = (\<Sum>q \<in> dom r. left r q) - left r p"
    using rest [of None] by simp
  have d: "dom (r(p \<mapsto> k)) = insert p (dom r - {p})" by auto
  have "left (r(p \<mapsto> k)) p = int MAXOPBLOCKS - int k" by (simp add: left_def)
  then show "(\<Sum>q \<in> dom (r(p \<mapsto> k)). left (r(p \<mapsto> k)) q) = (\<Sum>q \<in> dom r. left r q) - left r p + (int MAXOPBLOCKS - int k)"
    unfolding d using rest [of "Some k"] assms by (subst sum.insert) auto
qed

lemma sum_left_nonneg: "\<forall>p k. r p = Some k \<longrightarrow> k \<le> MAXOPBLOCKS \<Longrightarrow> 0 \<le> (\<Sum>q \<in> A. left r q)"
  by (intro sum_nonneg) (auto simp: left_def split: option.splits)

lemma sum_left_full:
  assumes "finite (dom r)" "\<forall>p k. r p = Some k \<longrightarrow> k \<le> MAXOPBLOCKS"
  shows "(\<Sum>q \<in> dom r. left r q) \<le> int (card (dom r)) * int MAXOPBLOCKS"
proof -
  have "(\<Sum>q \<in> dom r. left r q) \<le> (\<Sum>q \<in> dom r. int MAXOPBLOCKS)"
    by (intro sum_mono) (auto simp: left_def split: option.splits)
  then show ?thesis by simp
qed

lemma log_write_log:
  assumes "log_write b s = Inr ((), t)"
  shows "log_size t = log_size s" "outstanding t = outstanding s" "committing t = committing s"
    "lh_n t = lh_n s \<or> lh_n t = lh_n s + 1"
  using assms by (auto simp: log_write_def Let_def setb_def split: if_splits)

lemma end_op_log:
  assumes "end_op s = Inr ((), t)"
  shows "log_size t = log_size s" "outstanding t = outstanding s - 1" "\<not> committing t"
    "lh_n t = (if outstanding s = 1 \<and> 0 < lh_n s then 0 else lh_n s)"
proof -
  let ?u = "s\<lparr>outstanding := outstanding s - 1\<rparr>"
  have "log_size t = log_size s \<and> outstanding t = outstanding s - 1 \<and> \<not> committing t \<and>
      lh_n t = (if outstanding s = 1 \<and> 0 < lh_n s then 0 else lh_n s)"
  proof (cases "outstanding s = 1")
    case True
    then obtain v where v: "commit (?u\<lparr>committing := True\<rparr>) = Inr ((), v)" "t = v\<lparr>committing := False\<rparr>"
      using assms by (auto simp: end_op_def Let_def bnd_eq_Inr upd_def split: if_splits)
    show ?thesis using commit_log [OF v(1)] v(2) True by simp
  qed (use assms in \<open>auto simp: end_op_def Let_def split: if_splits\<close>)
  then show "log_size t = log_size s" "outstanding t = outstanding s - 1" "\<not> committing t"
    "lh_n t = (if outstanding s = 1 \<and> 0 < lh_n s then 0 else lh_n s)" by auto
qed

lemma tinv_step:
  assumes "tstep c c'" "tinv nlog c"
  shows "tinv nlog c'"
  using assms
proof (cases rule: tstep.cases)
  case (t_begin r p s t)
  have inv: "tinv nlog (s, r)" and f: "finite (dom r)" using assms(2) t_begin(1) by (simp_all add: tinv_def)
  have "left r p = 0" "p \<notin> dom r" using t_begin(3) by (auto simp: left_def)
  moreover have "(\<Sum>q \<in> dom r. left r q) \<le> int (card (dom r)) * int MAXOPBLOCKS"
    using inv by (intro sum_left_full) (auto simp: tinv_def)
  ultimately show ?thesis
    using t_begin(2,4) inv f sum_left_upd(1) [OF f, of p 0]
    by (auto simp: tinv_def begin_op_def algebra_simps split: if_splits)
next
  case (t_write r p k b s t)
  have inv: "tinv nlog (s, r)" and f: "finite (dom r)" using assms(2) t_write(1) by (simp_all add: tinv_def)
  have "left r p = int MAXOPBLOCKS - int k" "insert p (dom r) = dom r" using t_write(3) by (auto simp: left_def)
  then show ?thesis
    using t_write(2,4) inv f sum_left_upd(1) [OF f, of p "k + 1"] log_write_log [OF t_write(5)]
    by (auto simp: tinv_def)
next
  case (t_end r p k s t)
  have inv: "tinv nlog (s, r)" using assms(2) t_end(1) by simp
  have f: "finite (dom r)" and k: "k \<le> MAXOPBLOCKS" using inv t_end(3) by (auto simp: tinv_def)
  have "left r p = int MAXOPBLOCKS - int k" "p \<in> dom r" "card (dom r) \<noteq> 0"
    using t_end(3) f by (auto simp: left_def)
  moreover from this(3) have "int (card (dom r) - Suc 0) = int (card (dom r)) - 1" by simp
  ultimately show ?thesis
    using t_end(2) inv f k sum_left_upd(2) [OF f, of p] end_op_log [OF t_end(4)]
    by (auto simp: tinv_def card_Diff_singleton)
next
  case (t_other s t r)
  then show ?thesis using assms(2) by (simp add: tinv_def same_log_def)
qed

lemma treach_tinv: "treach nlog c \<Longrightarrow> tinv nlog c"
proof (induction rule: treach.induct)
  case (tr_step c c')
  then show ?case using tinv_step by blast
qed (simp add: tinv_def const_defs)

subsection \<open>Three full operations overflow the log\<close>

definition shares :: "nat \<Rightarrow> nat \<Rightarrow> nat option" where
  "shares j p = (if p < 3 then Some (min 10 (j - 10 * p)) else None)"

lemma shares_Suc: "j < 30 \<Longrightarrow> shares (Suc j) = (shares j)(j div 10 \<mapsto> j mod 10 + 1)"
proof (rule ext)
  fix p
  assume "j < 30"
  then show "shares (Suc j) p = ((shares j)(j div 10 \<mapsto> j mod 10 + 1)) p"
    by (cases "p = j div 10") (auto simp: shares_def min_def, presburger+)
qed

definition filled :: "nat \<Rightarrow> 'z lstate_scheme \<Rightarrow> bool" where
  "filled j s \<longleftrightarrow> treach LOGSIZE (s, shares j) \<and> lh_n s = int j \<and> outstanding s = 3 \<and>
     log_size s = LOGSIZE \<and> (\<forall>i < j. lh_block s i = i)"

lemma filled_0: "\<exists>s :: 'z lstate_scheme. filled 0 s"
proof -
  define s where "s = (undefined :: 'z lstate_scheme)\<lparr>log_size := LOGSIZE, lh_n := 0, outstanding := 0, committing := False\<rparr>"
  have b: "begin_op (s\<lparr>outstanding := int k\<rparr>) = Inr ((), s\<lparr>outstanding := int (Suc k)\<rparr>)" if "k < 3" for k
    using that by (auto simp: begin_op_def s_def const_defs)
  have s0: "s = s\<lparr>outstanding := int 0\<rparr>" by (simp add: s_def)
  have "treach LOGSIZE (s, Map.empty)" by (rule tr_init) (simp_all add: s_def)
  then have "treach LOGSIZE (s\<lparr>outstanding := int 0\<rparr>, Map.empty)" using s0 by simp
  from tr_step [OF this t_begin [OF _ b, of _ 0 0]]
  have "treach LOGSIZE (s\<lparr>outstanding := int (Suc 0)\<rparr>, [0 \<mapsto> 0])" by simp
  from tr_step [OF this t_begin [OF _ b, of _ 1 "Suc 0"]]
  have "treach LOGSIZE (s\<lparr>outstanding := int (Suc (Suc 0))\<rparr>, [0 \<mapsto> 0, 1 \<mapsto> 0])" by simp
  from tr_step [OF this t_begin [OF _ b, of _ 2 "Suc (Suc 0)"]]
  have "treach LOGSIZE (s\<lparr>outstanding := int (Suc (Suc (Suc 0)))\<rparr>, [0 \<mapsto> 0, 1 \<mapsto> 0, 2 \<mapsto> 0])" by simp
  moreover have "[0 \<mapsto> 0, 1 \<mapsto> 0, 2 \<mapsto> 0] = shares 0" by (rule ext) (auto simp: shares_def)
  ultimately have "filled 0 (s\<lparr>outstanding := 3\<rparr>)" by (simp add: filled_def s_def)
  then show ?thesis by blast
qed

lemma filled_Suc:
  fixes s :: "'z lstate_scheme"
  assumes "filled j s" "j < 29"
  shows "\<exists>t :: 'z lstate_scheme. filled (Suc j) t"
proof -
  define u where "u = s\<lparr>bufs := (bufs s)(0 := (bufs s 0)\<lparr>b_blockno := j\<rparr>)\<rparr>"
  have u: "treach LOGSIZE (u, shares j)"
  proof (rule tr_step)
    show "treach LOGSIZE (s, shares j)" using assms(1) by (simp add: filled_def)
    show "tstep (s, shares j) (u, shares j)" by (rule t_other) (simp add: u_def same_log_def)
  qed
  have f: "lh_n u = int j" "outstanding u = 3" "log_size u = LOGSIZE" "\<forall>i < j. lh_block u i = i" "b_blockno (bufs u 0) = j"
    using assms(1) by (auto simp: filled_def u_def)
  have ab: "absorb (lh_block u) j 0 j = j" using absorb_spec [of "lh_block u" j 0 j] f(4) by auto
  obtain t where t: "log_write 0 u = Inr ((), t)" "lh_n t = int (Suc j)" "outstanding t = 3" "log_size t = LOGSIZE"
    "lh_block t = (lh_block u)(j := j)"
    using f assms(2) ab by (auto simp: log_write_def Let_def const_defs setb_def)
  have sh: "shares j (j div 10) = Some (j mod 10)" "j mod 10 < MAXOPBLOCKS"
    using assms(2) by (auto simp: shares_def min_def const_defs minus_mult_div_eq_mod)
  have "treach LOGSIZE (t, shares (Suc j))"
  proof (rule tr_step [OF u])
    have "tstep (u, shares j) (t, (shares j)(j div 10 \<mapsto> j mod 10 + 1))"
      by (rule t_write) (use sh t(1) in auto)
    then show "tstep (u, shares j) (t, shares (Suc j))" using shares_Suc [of j] assms(2) by simp
  qed
  then have "filled (Suc j) t" using t f(4) by (simp add: filled_def less_Suc_eq)
  then show ?thesis by blast
qed

lemma filled_all: "j \<le> 29 \<Longrightarrow> \<exists>s :: 'z lstate_scheme. filled j s"
proof (induction j)
  case (Suc j)
  then obtain s :: "'z lstate_scheme" where "filled j s" by auto
  then show ?case using filled_Suc Suc.prems by (metis Suc_le_eq)
qed (rule filled_0)

subsection \<open>Properties\<close>

text \<open>C3. If the log area had more than \<open>LOGSIZE\<close> blocks, a thread within its reservation of
  \<open>MAXOPBLOCKS\<close> blocks could always log one more, in every interleaving of operations:
  \<open>log_write\<close> would not panic.\<close>

theorem log_reservation:
  assumes "treach nlog (s, r)" "r p = Some k" "k < MAXOPBLOCKS" "LOGSIZE < nlog"
  shows "\<exists>t. log_write b s = Inr ((), t)"
proof -
  have inv: "tinv nlog (s, r)" by (rule treach_tinv [OF assms(1)])
  then have f: "finite (dom r)" by (simp add: tinv_def)
  have p: "p \<in> dom r" "1 \<le> left r p" using assms(2,3) by (auto simp: left_def)
  have "left r p \<le> (\<Sum>q \<in> dom r. left r q)"
    using inv f p by (intro member_le_sum) (auto simp: tinv_def left_def split: option.splits)
  then have n: "lh_n s < int LOGSIZE" using inv p by (auto simp: tinv_def)
  have "0 < card (dom r)" using p f by (auto simp: card_gt_0_iff)
  then show ?thesis using n inv assms(4) by (auto simp: log_write_def Let_def tinv_def)
qed

theorem log_reservation_witness:
  "\<exists>(s :: lstate) r. treach 31 (s, r) \<and> r 0 = Some 0 \<and> (\<exists>t. log_write 0 s = Inr ((), t))"
proof -
  define s where "s = (undefined :: lstate)\<lparr>log_size := 31, lh_n := 0, outstanding := 0, committing := False\<rparr>"
  have "treach 31 (s, Map.empty)" by (rule tr_init) (simp_all add: s_def)
  moreover have "begin_op s = Inr ((), s\<lparr>outstanding := 1\<rparr>)" by (simp add: begin_op_def s_def const_defs)
  ultimately have r: "treach 31 (s\<lparr>outstanding := 1\<rparr>, [0 \<mapsto> 0])"
    by (intro tr_step [OF _ t_begin]) simp_all
  have "\<exists>t. log_write 0 (s\<lparr>outstanding := 1\<rparr>) = Inr ((), t)"
    by (rule log_reservation [OF r, of 0 0]) (simp_all add: const_defs)
  then show ?thesis using r by (intro exI [of _ "s\<lparr>outstanding := 1\<rparr>"] exI [of _ "[0 \<mapsto> 0]"]) simp
qed

text \<open>C4. With the log area mkfs makes (\<open>nlog = LOGSIZE\<close>, one block of which is the header) the
  reservation is too generous: three concurrent operations, each within its \<open>MAXOPBLOCKS\<close> blocks,
  reach a state in which the next \<open>log_write\<close> panics.\<close>

theorem log_overflow:
  "\<exists>(s :: lstate) r p k b. treach LOGSIZE (s, r) \<and> r p = Some k \<and> k < MAXOPBLOCKS \<and>
     log_write b s = Inl (Panic ''too big a transaction'')"
proof -
  obtain s :: lstate where s: "filled 29 s" using filled_all [of 29] by auto
  then have "log_write 0 s = Inl (Panic ''too big a transaction'')"
    by (simp add: filled_def log_write_def const_defs)
  moreover have "shares 29 2 = Some 9" "9 < MAXOPBLOCKS" by (simp_all add: shares_def const_defs)
  ultimately show ?thesis using s unfolding filled_def by blast
qed

end
