(* ===== verification/Store.thy ===== *)
theory Store
  imports Log
begin

section \<open>Block stores\<close>

text \<open>
  The contract between the file systems and the block layer. A file system reads, changes,
  writes and releases one block at a time; it sees the blocks' contents \<open>V\<close>, the blocks it
  holds \<open>H\<close> (each with its buffer and whether it was changed since it was last written) and the
  pinned blocks \<open>P\<close>. The native file system writes through the log (\<open>log_write\<close>) on
  \<open>ROOTDEV\<close>; ext2 writes to the drive (\<open>bwrite\<close>) on \<open>EXT2DEV\<close>. Both keep the laws of the locale.
\<close>

type_synonym contents = "nat \<Rightarrow> block"
type_synonym holds = "nat \<Rightarrow> (nat \<times> bool) option"
type_synonym pins = "(nat \<times> nat) set"

locale block_store =
  fixes get :: "nat \<Rightarrow> ('s, nat) kern"
    and rel :: "nat \<Rightarrow> ('s, unit) kern"
    and put :: "nat \<Rightarrow> ('s, unit) kern"
    and mdf :: "nat \<Rightarrow> (block \<Rightarrow> block) \<Rightarrow> ('s, unit) kern"
    and dat :: "'s \<Rightarrow> nat \<Rightarrow> block"
    and rep :: "'s \<Rightarrow> contents \<Rightarrow> holds \<Rightarrow> pins \<Rightarrow> bool"
    and fr :: "'s \<Rightarrow> 's \<Rightarrow> bool"
    and ok :: "nat \<Rightarrow> bool"
    and wok :: "nat \<Rightarrow> bool"
    and pin :: "nat \<Rightarrow> pins \<Rightarrow> pins"
    and cap :: nat
  assumes get_law: "\<lbrakk>rep s V H P; ok n; H n = None; card (dom H) + card P < NBUF\<rbrakk> \<Longrightarrow>
      wp (get n) (\<lambda>b t. fr s t \<and> rep t V (H(n \<mapsto> (b, False))) P) s"
    and dat_law: "\<lbrakk>rep s V H P; H n = Some (b, m)\<rbrakk> \<Longrightarrow> dat s b = V n"
    and mdf_law: "\<lbrakk>rep s V H P; H n = Some (b, m)\<rbrakk> \<Longrightarrow>
      wp (mdf b f) (\<lambda>_ t. fr s t \<and> rep t (V(n := f (V n))) (H(n \<mapsto> (b, True))) P) s"
    and put_law: "\<lbrakk>rep s V H P; H n = Some (b, m); wok n; card P < cap\<rbrakk> \<Longrightarrow>
      wp (put b) (\<lambda>_ t. fr s t \<and> rep t V (H(n \<mapsto> (b, False))) (pin n P)) s"
    and rel_law: "\<lbrakk>rep s V H P; H n = Some (b, False)\<rbrakk> \<Longrightarrow>
      wp (rel b) (\<lambda>_ t. fr s t \<and> rep t V (H(n := None)) P) s"
    and fr_refl: "fr s s"
    and fr_trans: "fr s t \<Longrightarrow> fr t u \<Longrightarrow> fr s u"
begin

text \<open>Rules that run one call and continue.\<close>

lemma get_bnd:
  assumes "rep s V H P" "ok n" "H n = None" "card (dom H) + card P < NBUF"
    and "\<And>b t. fr s t \<Longrightarrow> rep t V (H(n \<mapsto> (b, False))) P \<Longrightarrow> wp (f b) Q t"
  shows "wp (bnd (get n) f) Q s"
  using assms by (intro wp_bndI [OF get_law]) auto

lemma mdf_bnd:
  assumes "rep s V H P" "H n = Some (b, m)"
    and "\<And>t. fr s t \<Longrightarrow> rep t (V(n := g (V n))) (H(n \<mapsto> (b, True))) P \<Longrightarrow> wp (f ()) Q t"
  shows "wp (bnd (mdf b g) f) Q s"
  by (rule wp_bndI [OF mdf_law [OF assms(1,2)]]) (use assms(3) in auto)

lemma put_bnd:
  assumes "rep s V H P" "H n = Some (b, m)" "wok n" "card P < cap"
    and "\<And>t. fr s t \<Longrightarrow> rep t V (H(n \<mapsto> (b, False))) (pin n P) \<Longrightarrow> wp (f ()) Q t"
  shows "wp (bnd (put b) f) Q s"
  by (rule wp_bndI [OF put_law [OF assms(1-4)]]) (use assms(5) in auto)

lemma rel_bnd:
  assumes "rep s V H P" "H n = Some (b, False)"
    and "\<And>t. fr s t \<Longrightarrow> rep t V (H(n := None)) P \<Longrightarrow> wp (f ()) Q t"
  shows "wp (bnd (rel b) f) Q s"
  by (rule wp_bndI [OF rel_law [OF assms(1,2)]]) (use assms(3) in auto)

text \<open>Look at a block.\<close>

lemma read_block:
  assumes "rep s V H P" "ok n" "H n = None" "card (dom H) + card P < NBUF"
    and "\<And>t. fr s t \<Longrightarrow> rep t V H P \<Longrightarrow> wp (f (g (V n))) Q t"
  shows "wp (bnd (get n) (\<lambda>b. bnd (gets (\<lambda>s. g (dat s b))) (\<lambda>x. bnd (rel b) (\<lambda>_. f x)))) Q s"
proof (rule get_bnd [OF assms(1-4)])
  fix b t
  assume t: "fr s t" "rep t V (H(n \<mapsto> (b, False))) P"
  have d: "dat t b = V n" by (rule dat_law [OF t(2), of n b False]) simp
  have "wp (bnd (rel b) (\<lambda>_. f (g (V n)))) Q t"
  proof (rule rel_bnd [OF t(2), of n])
    fix u
    assume u: "fr t u" "rep u V ((H(n \<mapsto> (b, False)))(n := None)) P"
    have "(H(n \<mapsto> (b, False)))(n := None) = H" using assms(3) by auto
    then show "wp (f (g (V n))) Q u" using u fr_trans [OF t(1) u(1)] by (intro assms(5)) auto
  qed simp
  then show "wp (bnd (gets (\<lambda>s. g (dat s b))) (\<lambda>x. bnd (rel b) (\<lambda>_. f x))) Q t"
    by (simp add: wp_gets_bnd d)
qed

text \<open>Read, change, write and release a block.\<close>

lemma update_block:
  assumes "rep s V H P" "ok n" "H n = None" "card (dom H) + card P < NBUF" "wok n" "card P < cap"
    and "\<And>t. fr s t \<Longrightarrow> rep t (V(n := g (V n))) H (pin n P) \<Longrightarrow> wp (f ()) Q t"
  shows "wp (bnd (get n) (\<lambda>b. bnd (mdf b g) (\<lambda>_. bnd (put b) (\<lambda>_. bnd (rel b) f)))) Q s"
proof (rule get_bnd [OF assms(1-4)], rule mdf_bnd [where n = n and m = False], assumption, simp,
    rule put_bnd [where n = n and m = True], assumption, simp, rule assms(5), rule assms(6),
    rule rel_bnd [where n = n], assumption, simp)
  fix b t1 t2 t3 t4
  assume t: "fr s t1" "fr t1 t2" "fr t2 t3" "fr t3 t4"
    and r: "rep t4 (V(n := g (V n))) ((H(n \<mapsto> (b, False), n \<mapsto> (b, True), n \<mapsto> (b, False)))(n := None)) (pin n P)"
  have "(H(n \<mapsto> (b, False), n \<mapsto> (b, True), n \<mapsto> (b, False)))(n := None) = H" using assms(3) by auto
  moreover have "fr s t4" using t by (blast intro: fr_trans)
  ultimately show "wp (f ()) Q t4" using r assms(7) by simp
qed

end

subsection \<open>Held blocks\<close>

definition hrep :: "nat \<Rightarrow> 'z bstate_scheme \<Rightarrow> holds \<Rightarrow> bool" where
  "hrep dev s H \<longleftrightarrow>
     (\<forall>n b m. H n = Some (b, m) \<longrightarrow> b \<in> held s \<and> bkey (bufs s b) = (dev, n) \<and> (\<not> m \<longrightarrow> sync s b)) \<and>
     (\<forall>b \<in> held s. b_dev (bufs s b) = dev \<and> (\<exists>m. H (b_blockno (bufs s b)) = Some (b, m)))"

lemma hrepD:
  assumes "hrep dev s H" "H n = Some (b, m)"
  shows "b \<in> held s" "bkey (bufs s b) = (dev, n)" "b_dev (bufs s b) = dev" "b_blockno (bufs s b) = n"
    "\<not> m \<Longrightarrow> sync s b"
  using assms by (auto simp: hrep_def bkey_def)

lemma hrep_held:
  "hrep dev s H \<Longrightarrow> b \<in> held s \<Longrightarrow> b_dev (bufs s b) = dev \<and> (\<exists>m. H (b_blockno (bufs s b)) = Some (b, m))"
  by (simp add: hrep_def)

lemma hrep_dom:
  assumes "hrep dev s H"
  shows "finite (dom H)" "card (dom H) = card (held s)"
proof -
  have d: "dom H = (\<lambda>b. b_blockno (bufs s b)) ` held s"
  proof (rule set_eqI)
    fix n
    show "n \<in> dom H \<longleftrightarrow> n \<in> (\<lambda>b. b_blockno (bufs s b)) ` held s"
    proof
      assume "n \<in> dom H"
      then obtain b m where "H n = Some (b, m)" by auto
      from hrepD [OF assms this] show "n \<in> (\<lambda>b. b_blockno (bufs s b)) ` held s" by (intro image_eqI [of _ _ b]) auto
    next
      assume "n \<in> (\<lambda>b. b_blockno (bufs s b)) ` held s"
      then show "n \<in> dom H" using assms by (auto simp: hrep_def)
    qed
  qed
  then show "finite (dom H)" by simp
  have "inj_on (\<lambda>b. b_blockno (bufs s b)) (held s)"
  proof (rule inj_onI)
    fix x y
    assume "x \<in> held s" "y \<in> held s" "b_blockno (bufs s x) = b_blockno (bufs s y)"
    then show "x = y" using assms unfolding hrep_def by (metis Pair_inject option.inject)
  qed
  then show "card (dom H) = card (held s)" unfolding d by (rule card_image)
qed

text \<open>The step of one buffer \<open>b\<close> for block \<open>n\<close>, the others staying.\<close>

lemma hrep_step:
  assumes h: "hrep dev s H" and st: "\<And>c. c \<in> held s \<Longrightarrow> c \<noteq> b \<Longrightarrow> stays s c t"
    and hl: "held t = insert b (held s)" and k: "bkey (bufs t b) = (dev, n)"
    and old: "b \<in> held s \<Longrightarrow> bkey (bufs s b) = (dev, n)" and new: "b \<notin> held s \<Longrightarrow> H n = None"
    and sy: "\<not> m \<Longrightarrow> sync t b"
  shows "hrep dev t (H(n \<mapsto> (b, m)))"
  unfolding hrep_def
proof (intro conjI allI impI ballI)
  fix i c m'
  assume a: "(H(n \<mapsto> (b, m))) i = Some (c, m')"
  have "c \<in> held t \<and> bkey (bufs t c) = (dev, i) \<and> (\<not> m' \<longrightarrow> sync t c)"
  proof (cases "i = n")
    case False
    then have i: "H i = Some (c, m')" using a by simp
    note c = hrepD [OF h i]
    have "c \<noteq> b" using c(1,2) old False by auto
    then show ?thesis using st [OF c(1)] c by (auto simp: stays_def)
  qed (use a hl k sy in auto)
  then show "c \<in> held t" "bkey (bufs t c) = (dev, i)" "\<not> m' \<Longrightarrow> sync t c" by auto
next
  fix c
  assume c: "c \<in> held t"
  have "b_dev (bufs t c) = dev \<and> (\<exists>m'. (H(n \<mapsto> (b, m))) (b_blockno (bufs t c)) = Some (c, m'))"
  proof (cases "c = b")
    case False
    then have cs: "c \<in> held s" using c hl by simp
    note hc = hrep_held [OF h cs]
    have key: "bkey (bufs t c) = bkey (bufs s c)" using st [OF cs False] by (simp add: stays_def)
    have "b_blockno (bufs s c) \<noteq> n"
    proof
      assume "b_blockno (bufs s c) = n"
      then obtain m' where "H n = Some (c, m')" using hc by auto
      moreover have "\<exists>m. H n = Some (b, m)" if "b \<in> held s"
        using hrep_held [OF h that] old [OF that] by (simp add: bkey_def)
      ultimately show False using new False by auto
    qed
    then show ?thesis using hc key by (simp add: bkey_def)
  qed (use k in \<open>simp add: bkey_def\<close>)
  then show "b_dev (bufs t c) = dev" "\<exists>m'. (H(n \<mapsto> (b, m))) (b_blockno (bufs t c)) = Some (c, m')" by auto
qed

lemma hrep_drop:
  assumes h: "hrep dev s H" and st: "\<And>c. c \<in> held s \<Longrightarrow> c \<noteq> b \<Longrightarrow> stays s c t"
    and hl: "held t = held s - {b}" and n: "H n = Some (b, m)"
  shows "hrep dev t (H(n := None))"
  unfolding hrep_def
proof (intro conjI allI impI ballI)
  fix i c m'
  assume a: "(H(n := None)) i = Some (c, m')"
  then have i: "H i = Some (c, m')" "i \<noteq> n" by (auto split: if_splits)
  note c = hrepD [OF h i(1)] and b = hrepD [OF h n]
  have "c \<noteq> b" using c(4) b(4) i(2) by auto
  then show "c \<in> held t" "bkey (bufs t c) = (dev, i)" "\<not> m' \<Longrightarrow> sync t c"
    using st [OF c(1)] c by (auto simp: stays_def)
next
  fix c
  assume "c \<in> held t"
  then have c: "c \<in> held s" "c \<noteq> b" using hl by auto
  note hc = hrep_held [OF h c(1)]
  have "bkey (bufs t c) = bkey (bufs s c)" using st [OF c] by (simp add: stays_def)
  moreover have "b_blockno (bufs s c) \<noteq> n" using hc n c(2) by auto
  ultimately show "b_dev (bufs t c) = dev" "\<exists>m'. (H(n := None)) (b_blockno (bufs t c)) = Some (c, m')"
    using hc by (auto simp: bkey_def)
qed

subsection \<open>One device of the cache\<close>

definition brep :: "nat \<Rightarrow> 'z bstate_scheme \<Rightarrow> contents \<Rightarrow> holds \<Rightarrow> pins \<Rightarrow> bool" where
  "brep dev s V H P \<longleftrightarrow> binv s \<and> V = view s dev \<and> P = dkeys s \<and> hrep dev s H"

text \<open>Nothing but the buffers changes, and no other device.\<close>

definition bfr :: "nat \<Rightarrow> 'z bstate_scheme \<Rightarrow> 'z bstate_scheme \<Rightarrow> bool" where
  "bfr dev s t \<longleftrightarrow> bframe s t \<and> disk t = disk s \<and> dwrites t = dwrites s \<and> (\<forall>d. d \<noteq> dev \<longrightarrow> view t d = view s d)"

lemma brepD:
  assumes "brep dev s V H P"
  shows "hrep dev s H" "binv s" "V = view s dev" "P = dkeys s"
  using assms by (auto simp: brep_def)

lemma brep_get:
  assumes r: "brep dev s V H P" and n: "blk_ok dev n" "H n = None" "card (dom H) + card P < NBUF"
  shows "wp (bread dev n) (\<lambda>b t. bfr dev s t \<and> brep dev t V (H(n \<mapsto> (b, False))) P) s"
proof -
  note rd = brepD [OF r]
  have free: "\<not> (\<exists>i \<in> held s. bkey (bufs s i) = (dev, n))"
    using hrep_held [OF rd(1)] n(2) by (fastforce simp: bkey_def)
  have "card (held s) + card (dirty s) < NBUF"
    using n(3) hrep_dom(2) [OF rd(1)] card_dkeys [OF rd(2)] rd(4) by simp
  then have room: "held s \<union> dirty s \<noteq> {0..<NBUF}" using room_card [of s] by simp
  have "wp (bread dev n) (bgot s dev n) s"
    using room free rd(2) n(1) by (intro bread_contract) auto
  then show ?thesis
  proof (rule wp_mono)
    fix b t
    assume g: "bgot s dev n b t"
    have "hrep dev t (H(n \<mapsto> (b, False)))"
      using g n(2) got_stays [OF g] by (intro hrep_step [OF rd(1)]) (auto simp: bgot_def sync_def)
    then show "bfr dev s t \<and> brep dev t V (H(n \<mapsto> (b, False))) P"
      using g rd dkeys_got [OF g] by (auto simp: brep_def bfr_def bgot_def)
  qed
qed

lemma brep_dat: "brep dev s V H P \<Longrightarrow> H n = Some (b, m) \<Longrightarrow> b_data (bufs s b) = V n"
proof -
  assume r: "brep dev s V H P" and n: "H n = Some (b, m)"
  note rd = brepD [OF r]
  note d = hrepD [OF rd(1) n]
  show ?thesis using view_at [OF rd(2) heldD(1,3) [OF rd(2) d(1)]] d rd by simp
qed

lemma brep_mdf:
  assumes r: "brep dev s V H P" and n: "H n = Some (b, m)"
  shows "wp (bmod b f) (\<lambda>_ t. bfr dev s t \<and> brep dev t (V(n := f (V n))) (H(n \<mapsto> (b, True))) P) s"
proof -
  note rd = brepD [OF r]
  note d = hrepD [OF rd(1) n]
  show ?thesis
  proof (rule wp_mono [OF bmod_contract [OF rd(2) d(1)]])
    fix t
    assume g: "bmodded s b f t"
    have "hrep dev t (H(n \<mapsto> (b, True)))"
      using g d modded_stays [OF g] by (intro hrep_step [OF rd(1)]) (auto simp: bmodded_def)
    moreover have v: "view t e k = (if e = dev \<and> k = n then f (view s e k) else view s e k)" for e k
      using g d(2) by (simp add: bmodded_def)
    moreover have "view t dev = V(n := f (V n))" by (rule ext) (simp add: v rd(3))
    moreover have "view t e = view s e" if "e \<noteq> dev" for e by (rule ext) (simp add: v that)
    ultimately show "bfr dev s t \<and> brep dev t (V(n := f (V n))) (H(n \<mapsto> (b, True))) P"
      using g rd dkeys_modded [OF g] by (simp add: brep_def bfr_def bmodded_def)
  qed
qed

lemma brep_rel:
  assumes r: "brep dev s V H P" and n: "H n = Some (b, False)"
  shows "wp (brelse b) (\<lambda>_ t. bfr dev s t \<and> brep dev t V (H(n := None)) P) s"
proof -
  note rd = brepD [OF r]
  note d = hrepD [OF rd(1) n]
  have "b \<in> dirty s \<or> clean s b" using d(5) by (simp add: sync_def)
  from brelse_contract [OF rd(2) d(1) this] show ?thesis
  proof (rule wp_mono)
    fix t
    assume g: "breleased s b t"
    have "hrep dev t (H(n := None))"
      by (rule hrep_drop [OF rd(1) released_stays [OF g] _ n]) (use g in \<open>auto simp: breleased_def\<close>)
    then show "bfr dev s t \<and> brep dev t V (H(n := None)) P"
      using g rd dkeys_released [OF g] by (auto simp: brep_def bfr_def breleased_def)
  qed
qed

subsection \<open>The native store: ROOTDEV through the log\<close>

text \<open>mkfs puts the log at block 2 and gives it \<open>LOGSIZE\<close> blocks.\<close>

definition LOGSTART :: nat where
  "LOGSTART = 2"

definition nwok :: "nat \<Rightarrow> bool" where
  "nwok n \<longleftrightarrow> n < FSSIZE \<and> \<not> (LOGSTART \<le> n \<and> n < LOGSTART + LOGSIZE)"

definition nrep :: "'z lstate_scheme \<Rightarrow> contents \<Rightarrow> holds \<Rightarrow> pins \<Rightarrow> bool" where
  "nrep s V H P \<longleftrightarrow> linv s \<and> log_start s = LOGSTART \<and> log_size s = LOGSIZE \<and> 1 \<le> outstanding s \<and>
     brep ROOTDEV s V H P"

definition nfr :: "'z lstate_scheme \<Rightarrow> 'z lstate_scheme \<Rightarrow> bool" where
  "nfr s t \<longleftrightarrow> lframe_of s t \<and> disk t = disk s \<and> dwrites t = dwrites s \<and> view t EXT2DEV = view s EXT2DEV"

lemma nrep_bfr:
  assumes "nrep s V H P" "bfr ROOTDEV s t \<and> brep ROOTDEV t V' H' P"
  shows "nfr s t \<and> nrep t V' H' P"
proof -
  have fr: "bframe s t" and d: "disk t = disk s" "dwrites t = dwrites s" "view t EXT2DEV = view s EXT2DEV"
    and b: "brep ROOTDEV t V' H' P" using assms(2) by (auto simp: bfr_def const_defs)
  note f = lframe [OF fr]
  have "dblk t = dblk s" using d(1) by (simp add: dblk_def fun_eq_iff)
  moreover have "dkeys t = dkeys s" using assms by (simp add: nrep_def brep_def)
  moreover have "linv s" using assms(1) by (simp add: nrep_def)
  ultimately have "linv t"
    using b f log_wf_frame [OF fr] by (simp add: linv_def logged_def brep_def)
  moreover have "lframe_of s t" using f by (simp add: lframe_of_def)
  ultimately show ?thesis using assms(1) b d f by (simp add: nrep_def nfr_def)
qed

lemma linv_binv: "linv s \<Longrightarrow> binv s"
  by (simp add: linv_def)

lemma logged_stays:
  assumes "logged_block s b t" "c \<in> held s" "c \<noteq> b"
  shows "stays s c t"
proof -
  have k: "core (bufs t c) = core (bufs s c)" using assms by (simp add: logged_block_def)
  have "clean t c = clean s c"
    using assms(1) bkey_core [OF k] coreD(7) [OF k] dblk_disk [of t s]
    by (intro clean_cong) (auto simp: logged_block_def)
  then show ?thesis
    using assms bkey_core [OF k] coreD(7) [OF k] by (auto simp: stays_def sync_def logged_block_def)
qed

lemma nrep_put:
  assumes r: "nrep s V H P" and n: "H n = Some (b, m)" "nwok n" and c: "card P < LOGSIZE - 1"
  shows "wp (log_write b) (\<lambda>_ t. nfr s t \<and> nrep t V (H(n \<mapsto> (b, False))) (insert (ROOTDEV, n) P)) s"
proof -
  have br: "brep ROOTDEV s V H P" and inv: "linv s" and o: "1 \<le> outstanding s"
    and lz: "log_start s = LOGSTART" "log_size s = LOGSIZE" using r by (auto simp: nrep_def)
  note rd = brepD [OF br]
  note d = hrepD [OF rd(1) n(1)]
  have wf: "log_wf s" using inv by (simp add: linv_def)
  have "card P = nat (lh_n s)"
  proof -
    have "card (Pair (log_dev s) ` logged s) = card (logged s)" by (intro card_image inj_onI) simp
    also have "\<dots> = nat (lh_n s)" using wf unfolding logged_def log_wf_def by (subst card_image) auto
    finally show ?thesis using inv rd(4) by (simp add: linv_def)
  qed
  then have nl: "lh_n s < int (log_size s) - 1" using c lz(2) by (simp add: const_defs)
  have ld: "b_dev (bufs s b) = log_dev s" using d(3) wf by (simp add: log_wf_def)
  have "home s (b_blockno (bufs s b))" using n(2) d(4) lz by (simp add: home_def nwok_def)
  from log_write_ok [OF inv d(1) nl o ld this] show ?thesis
  proof (rule wp_mono)
    fix t
    assume g: "logged_block s b t"
    have "bkey (bufs t b) = bkey (bufs s b)"
    proof -
      have "core (bufs t b) = core ((bufs s b)\<lparr>b_dirty := True\<rparr>)" using g by (simp add: logged_block_def)
      from bkey_core [OF this] show ?thesis by (simp add: bkey_def)
    qed
    then have "hrep ROOTDEV t (H(n \<mapsto> (b, False)))"
      using g d logged_stays [OF g] by (intro hrep_step [OF rd(1)]) (auto simp: logged_block_def sync_def)
    then have "brep ROOTDEV t V (H(n \<mapsto> (b, False))) (insert (ROOTDEV, n) P)"
      using g rd d(2) linv_binv [of t] by (simp add: brep_def logged_block_def)
    then show "nfr s t \<and> nrep t V (H(n \<mapsto> (b, False))) (insert (ROOTDEV, n) P)"
      using g lz o by (simp add: nrep_def nfr_def logged_block_def lframe_of_def)
  qed
qed

interpretation ns: block_store "bread ROOTDEV" brelse log_write bmod "\<lambda>s b. b_data (bufs s b)"
  nrep nfr "\<lambda>n. n < FSSIZE" nwok "\<lambda>n. insert (ROOTDEV, n)" "LOGSIZE - 1"
proof (unfold_locales, goal_cases)
  case (1 s V H P n)
  then have "brep ROOTDEV s V H P" "blk_ok ROOTDEV n" by (auto simp: nrep_def blk_ok_def)
  from brep_get [OF this 1(3,4)] nrep_bfr [OF 1(1)] show ?case by (rule wp_mono)
next
  case (2 s V H P n b m)
  then show ?case using brep_dat [of ROOTDEV s V H P n b m] by (simp add: nrep_def)
next
  case (3 s V H P n b m f)
  then have "brep ROOTDEV s V H P" by (simp add: nrep_def)
  from brep_mdf [OF this 3(2)] nrep_bfr [OF 3(1)] show ?case by (rule wp_mono)
next
  case (4 s V H P n b m)
  then show ?case by (rule nrep_put)
next
  case (5 s V H P n b)
  then have "brep ROOTDEV s V H P" by (simp add: nrep_def)
  from brep_rel [OF this 5(2)] nrep_bfr [OF 5(1)] show ?case by (rule wp_mono)
qed (auto simp: nfr_def lframe_of_def)

subsection \<open>The ext2 store: EXT2DEV, written at once\<close>

definition erep :: "'z bstate_scheme \<Rightarrow> contents \<Rightarrow> holds \<Rightarrow> pins \<Rightarrow> bool" where
  "erep s V H P \<longleftrightarrow> brep EXT2DEV s V H P \<and> (\<forall>n. (EXT2DEV, n) \<notin> P)"

definition efr :: "'z bstate_scheme \<Rightarrow> 'z bstate_scheme \<Rightarrow> bool" where
  "efr s t \<longleftrightarrow> bframe s t \<and> dblk t ROOTDEV = dblk s ROOTDEV \<and> view t ROOTDEV = view s ROOTDEV"

lemma efr_bfr: "bfr EXT2DEV s t \<Longrightarrow> efr s t"
  by (auto simp: bfr_def efr_def dblk_def fun_eq_iff const_defs)

lemma erep_put:
  assumes r: "erep s V H P" and n: "H n = Some (b, m)"
  shows "wp (bwrite b) (\<lambda>_ t. efr s t \<and> erep t V (H(n \<mapsto> (b, False))) P) s"
proof -
  have br: "brep EXT2DEV s V H P" and np: "(EXT2DEV, n) \<notin> P" using r by (auto simp: erep_def)
  note rd = brepD [OF br]
  note d = hrepD [OF rd(1) n]
  show ?thesis
  proof (rule wp_mono [OF bwrite_contract [OF rd(2) d(1)]])
    fix t
    assume g: "bwritten s b t"
    have "hrep EXT2DEV t (H(n \<mapsto> (b, False)))"
      using g d written_stays [OF rd(2) d(1) g] by (intro hrep_step [OF rd(1)]) (auto simp: bwritten_def sync_def)
    moreover have "dkeys t = dkeys s" using dkeys_written [OF rd(2) d(1) g] np d(2) rd(4) by simp
    moreover have "dblk t ROOTDEV = dblk s ROOTDEV"
      using g d(3) by (auto simp: bwritten_def Let_def dblk_def fun_eq_iff ide_port_def const_defs)
    ultimately show "efr s t \<and> erep t V (H(n \<mapsto> (b, False))) P"
      using g rd r by (simp add: erep_def brep_def efr_def bwritten_def)
  qed
qed

interpretation es: block_store "bread EXT2DEV" brelse bwrite bmod "\<lambda>s b. b_data (bufs s b)"
  erep efr "blk_ok EXT2DEV" "\<lambda>_. True" "\<lambda>_ P. P" NBUF
proof (unfold_locales, goal_cases)
  case (1 s V H P n)
  then have "brep EXT2DEV s V H P" by (simp add: erep_def)
  from brep_get [OF this 1(2-4)] show ?case
    by (rule wp_mono) (use 1(1) in \<open>simp add: efr_bfr erep_def\<close>)
next
  case (2 s V H P n b m)
  then show ?case using brep_dat [of EXT2DEV s V H P n b m] by (simp add: erep_def)
next
  case (3 s V H P n b m f)
  then have "brep EXT2DEV s V H P" by (simp add: erep_def)
  from brep_mdf [OF this 3(2)] show ?case
    by (rule wp_mono) (use 3(1) in \<open>simp add: efr_bfr erep_def\<close>)
next
  case (4 s V H P n b m)
  then show ?case by (intro erep_put)
next
  case (5 s V H P n b)
  then have "brep EXT2DEV s V H P" by (simp add: erep_def)
  from brep_rel [OF this 5(2)] show ?case
    by (rule wp_mono) (use 5(1) in \<open>simp add: efr_bfr erep_def\<close>)
qed (auto simp: efr_def bframe_def)

end
