(* ===== verification/Console.thy ===== *)
theory Console
  imports Params
begin

section \<open>Console (console.c)\<close>

text \<open>
  The console's state: whether there is a serial port, the bytes sent to the serial port, the CGA screen (cells and cursor), and
  the input ring with its read, write and edit indices. Characters are C ints as \<open>nat\<close>; the
  code \<open>BACKSPACE\<close> is \<open>0x100\<close>. \<open>cons.lock\<close> makes each routine one step.
\<close>

definition INPUT_BUF :: nat where [const_defs]: "INPUT_BUF = 128"
definition BACKSPACE :: nat where [const_defs]: "BACKSPACE = 0x100"

text \<open>Control-x.\<close>

definition C_ctrl :: "nat \<Rightarrow> nat" where
  "C_ctrl x = x - 64"

record console =
  uart :: bool
  uart_out :: "nat list"
  crt :: "nat \<Rightarrow> nat"
  crt_pos :: nat
  in_buf :: "nat \<Rightarrow> byte"
  in_r :: nat
  in_w :: nat
  in_e :: nat

subsection \<open>Output\<close>

text \<open>The cursor position is read back from the controller's two 8-bit registers.\<close>

definition cga_move :: "nat \<Rightarrow> nat \<Rightarrow> nat" where
  "cga_move c pos = (if c = 10 then pos + (80 - pos mod 80)
     else if c = BACKSPACE then (if pos > 0 then pos - 1 else pos) else pos + 1)"

definition cga_cell :: "nat \<Rightarrow> nat \<Rightarrow> (nat \<Rightarrow> nat) \<Rightarrow> nat \<Rightarrow> nat" where
  "cga_cell c pos m = (if c = 10 \<or> c = BACKSPACE then m else m(pos := (c mod 256) + 0x0700))"

definition cga_scroll :: "nat \<Rightarrow> (nat \<Rightarrow> nat) \<Rightarrow> nat \<Rightarrow> nat" where
  "cga_scroll pos m = (\<lambda>i. if pos - 80 \<le> i \<and> i < 24 * 80 then 0 else if i < 23 * 80 then m (i + 80) else m i)"

definition cgaputc :: "nat \<Rightarrow> console \<Rightarrow> fault + console" where
  "cgaputc c s =
     (let m = cga_cell c (crt_pos s) (crt s); pos = cga_move c (crt_pos s)
      in if pos > 25 * 80 then Inl (Panic ''pos under/overflow'')
         else
           let m = (if pos div 80 \<ge> 24 then cga_scroll pos m else m);
               pos = (if pos div 80 \<ge> 24 then pos - 80 else pos)
           in Inr (s\<lparr>crt_pos := pos mod 65536, crt := m(pos := 32 + 0x0700)\<rparr>))"

text \<open>The wait for the transmitter ends after 128 polls in any case.\<close>

definition uartputc :: "nat \<Rightarrow> console \<Rightarrow> console" where
  "uartputc c s = (if \<not> uart s then s else s\<lparr>uart_out := uart_out s @ [c mod 256]\<rparr>)"

definition consputc :: "nat \<Rightarrow> console \<Rightarrow> fault + console" where
  "consputc c s = cgaputc c
     (if c = BACKSPACE then uartputc 8 (uartputc 32 (uartputc 8 s)) else uartputc c s)"

fun consputs :: "nat list \<Rightarrow> console \<Rightarrow> fault + console" where
  "consputs [] s = Inr s"
| "consputs (c # cs) s = (case consputc c s of Inl e \<Rightarrow> Inl e | Inr t \<Rightarrow> consputs cs t)"

text \<open>The digits of \<open>x\<close>, least significant first; the bases in use are 10 and 16.\<close>

definition digit_char :: "nat \<Rightarrow> nat" where
  "digit_char d = (if d < 10 then 48 + d else 87 + d)"

function digits :: "nat \<Rightarrow> nat \<Rightarrow> nat list" where
  "digits base x = x mod base # (if x div base = 0 \<or> base < 2 then [] else digits base (x div base))"
  by auto
termination
  by (relation "measure snd") (auto simp: div_greater_zero_iff intro: div_less_dividend)

declare digits.simps [simp del]

text \<open>\<open>xx\<close> is a 32-bit word; \<open>sign\<close> asks for it to be read as signed.\<close>

definition int_text :: "nat \<Rightarrow> nat \<Rightarrow> bool \<Rightarrow> nat list" where
  "int_text xx base sign =
     (let neg = (sign \<and> xx \<ge> 2147483648);
          x = (if neg then 4294967296 - xx else xx)
      in rev (map digit_char (digits base x) @ (if neg then [45] else [])))"

definition printint :: "nat \<Rightarrow> nat \<Rightarrow> bool \<Rightarrow> console \<Rightarrow> fault + console" where
  "printint xx base sign = consputs (int_text xx base sign)"

text \<open>An argument of \<open>cprintf\<close>: a word, or a pointer to a string (None for the null pointer).
  A conversion without its argument would read past the argument area.\<close>

datatype arg = AWord nat | AStr "nat list option"

fun cprintf :: "nat list \<Rightarrow> arg list \<Rightarrow> console \<Rightarrow> fault + console" where
  "cprintf [] as s = Inr s"
| "cprintf [c] as s = (if c \<noteq> 37 then consputc c s else Inr s)"
| "cprintf (c # c' # cs) as s =
     (if c \<noteq> 37 then (case consputc c s of Inl e \<Rightarrow> Inl e | Inr t \<Rightarrow> cprintf (c' # cs) as t)
      else if c' = 100 then
        (case as of AWord x # as' \<Rightarrow> (case printint x 10 True s of Inl e \<Rightarrow> Inl e | Inr t \<Rightarrow> cprintf cs as' t)
         | _ \<Rightarrow> Inl (Undef ''cprintf''))
      else if c' = 120 \<or> c' = 112 then
        (case as of AWord x # as' \<Rightarrow> (case printint x 16 False s of Inl e \<Rightarrow> Inl e | Inr t \<Rightarrow> cprintf cs as' t)
         | _ \<Rightarrow> Inl (Undef ''cprintf''))
      else if c' = 115 then
        (case as of AStr p # as' \<Rightarrow>
           (case consputs (case p of None \<Rightarrow> [40, 110, 117, 108, 108, 41] | Some t \<Rightarrow> t) s of
              Inl e \<Rightarrow> Inl e | Inr t \<Rightarrow> cprintf cs as' t)
         | _ \<Rightarrow> Inl (Undef ''cprintf''))
      else if c' = 37 then (case consputc 37 s of Inl e \<Rightarrow> Inl e | Inr t \<Rightarrow> cprintf cs as t)
      else (case consputs [37, c'] s of Inl e \<Rightarrow> Inl e | Inr t \<Rightarrow> cprintf cs as t))"

subsection \<open>Input\<close>

text \<open>Kill line: at most \<open>k\<close> characters can be pending.\<close>

fun kill_line :: "nat \<Rightarrow> console \<Rightarrow> fault + console" where
  "kill_line 0 s = Inr s"
| "kill_line (Suc k) s =
     (if in_e s \<noteq> in_w s \<and> in_buf s (sub32 (in_e s) 1 mod INPUT_BUF) \<noteq> 10
      then (case consputc BACKSPACE (s\<lparr>in_e := sub32 (in_e s) 1\<rparr>) of Inl e \<Rightarrow> Inl e | Inr t \<Rightarrow> kill_line k t)
      else Inr s)"

text \<open>One key of \<open>consoleintr\<close>; the result says whether a process listing was asked for.\<close>

definition console_key :: "nat \<Rightarrow> console \<Rightarrow> fault + bool \<times> console" where
  "console_key c s =
     (if c = C_ctrl 80 then Inr (True, s)
      else if c = C_ctrl 85 then
        (case kill_line (sub32 (in_e s) (in_w s)) s of Inl e \<Rightarrow> Inl e | Inr t \<Rightarrow> Inr (False, t))
      else if c = C_ctrl 72 \<or> c = 0x7f then
        (if in_e s \<noteq> in_w s
         then (case consputc BACKSPACE (s\<lparr>in_e := sub32 (in_e s) 1\<rparr>) of Inl e \<Rightarrow> Inl e | Inr t \<Rightarrow> Inr (False, t))
         else Inr (False, s))
      else if c \<noteq> 0 \<and> sub32 (in_e s) (in_r s) < INPUT_BUF then
        (let c = (if c = 13 then 10 else c);
             s1 = s\<lparr>in_buf := (in_buf s)(in_e s mod INPUT_BUF := word_of_nat c), in_e := u32 (in_e s + 1)\<rparr>
         in case consputc c s1 of Inl e \<Rightarrow> Inl e
            | Inr t \<Rightarrow> Inr (False, if c = 10 \<or> c = C_ctrl 68 \<or> in_e t = u32 (in_r t + INPUT_BUF)
                                    then t\<lparr>in_w := in_e t\<rparr> else t))
      else Inr (False, s))"

text \<open>The keys \<open>getc\<close> delivers until it returns a negative value.\<close>

fun consoleintr :: "nat list \<Rightarrow> console \<Rightarrow> fault + bool \<times> console" where
  "consoleintr [] s = Inr (False, s)"
| "consoleintr (c # cs) s =
     (case console_key c s of Inl e \<Rightarrow> Inl e
      | Inr (p, t) \<Rightarrow> (case consoleintr cs t of Inl e \<Rightarrow> Inl e | Inr (q, u) \<Rightarrow> Inr (p \<or> q, u)))"

text \<open>The loop of \<open>consoleread\<close> with \<open>n\<close> of \<open>target\<close> bytes still wanted: the bytes delivered, or
  None when the process was killed while it waited. Alone, an unkilled reader waits for ever.\<close>

fun console_get :: "bool \<Rightarrow> nat \<Rightarrow> nat \<Rightarrow> console \<Rightarrow> fault + byte list option \<times> console" where
  "console_get killed target 0 s = Inr (Some [], s)"
| "console_get killed target (Suc n) s =
     (if in_r s = in_w s then (if killed then Inr (None, s) else Inl (Blocked ''consoleread''))
      else
        (let c = in_buf s (in_r s mod INPUT_BUF); s1 = s\<lparr>in_r := u32 (in_r s + 1)\<rparr>
         in if c = 4 then Inr (Some [], if Suc n < target then s else s1)
            else if c = 10 then Inr (Some [c], s1)
            else (case console_get killed target n s1 of Inl e \<Rightarrow> Inl e
                  | Inr (None, t) \<Rightarrow> Inr (None, t)
                  | Inr (Some cs, t) \<Rightarrow> Inr (Some (c # cs), t))))"

subsection \<open>Properties of the output\<close>

text \<open>The cursor stays on the first 24 rows, so the bounds check never fires; \<open>uartinit\<close> found a port.\<close>

definition con_ok :: "console \<Rightarrow> bool" where
  "con_ok s \<longleftrightarrow> crt_pos s < 24 * 80 \<and> uart s"

text \<open>Everything but the screen and the serial line.\<close>

definition same_input :: "console \<Rightarrow> console \<Rightarrow> bool" where
  "same_input s t \<longleftrightarrow> in_buf t = in_buf s \<and> in_r t = in_r s \<and> in_w t = in_w s \<and> in_e t = in_e s"

lemma cga_move_bound:
  assumes "pos < 1920"
  shows "cga_move c pos \<le> 1920"
proof -
  obtain q r where "pos = q * 80 + r" "r < 80" by (metis div_mod_decomp mod_less_divisor zero_less_numeral)
  then have "pos + (80 - pos mod 80) = 80 * (pos div 80 + 1)" by simp
  moreover have "pos div 80 < 24" using assms by (simp add: less_mult_imp_div_less)
  ultimately show ?thesis using assms by (auto simp: cga_move_def)
qed

lemma cgaputc_ok:
  assumes "con_ok s"
  shows "\<exists>t. cgaputc c s = Inr t \<and> con_ok t \<and> same_input s t \<and> uart_out t = uart_out s"
proof -
  define p where "p = cga_move c (crt_pos s)"
  have p: "p \<le> 1920" using cga_move_bound [of "crt_pos s" c] assms by (simp add: p_def con_ok_def)
  define n where "n = (if p div 80 \<ge> 24 then p - 80 else p)"
  have "p < 1920" if "p div 80 < 24" using that by (simp add: div_less_iff_less_mult)
  then have n: "n < 1920" using p by (auto simp: n_def)
  obtain m where "cgaputc c s = Inr (s\<lparr>crt_pos := n mod 65536, crt := m\<rparr>)"
    using p by (simp add: cgaputc_def Let_def p_def [symmetric] n_def)
  then show ?thesis using n assms by (auto simp: con_ok_def same_input_def)
qed

lemma consputc_ok:
  assumes "con_ok s"
  shows "\<exists>t. consputc c s = Inr t \<and> con_ok t \<and> same_input s t \<and>
     uart_out t = uart_out s @ (if c = BACKSPACE then [8, 32, 8] else [c mod 256])"
proof -
  define u where "u = (if c = BACKSPACE then uartputc 8 (uartputc 32 (uartputc 8 s)) else uartputc c s)"
  have u: "con_ok u" "same_input s u" "uart_out u = uart_out s @ (if c = BACKSPACE then [8, 32, 8] else [c mod 256])"
    using assms by (auto simp: u_def uartputc_def con_ok_def same_input_def)
  show ?thesis
    using cgaputc_ok [OF u(1), of c] u(2,3) by (auto simp: consputc_def u_def [symmetric] same_input_def)
qed

lemma consputs_ok:
  assumes "con_ok s" "\<forall>c \<in> set cs. c \<noteq> BACKSPACE"
  shows "\<exists>t. consputs cs s = Inr t \<and> con_ok t \<and> same_input s t \<and> uart_out t = uart_out s @ map (\<lambda>c. c mod 256) cs"
  using assms
proof (induction cs arbitrary: s)
  case (Cons c cs)
  obtain u where u: "consputc c s = Inr u" "con_ok u" "same_input s u" "uart_out u = uart_out s @ [c mod 256]"
    using consputc_ok [of s c] Cons.prems by auto
  obtain t where "consputs cs u = Inr t" "con_ok t" "same_input u t" "uart_out t = uart_out u @ map (\<lambda>c. c mod 256) cs"
    using Cons.IH [OF u(2)] Cons.prems by auto
  then show ?case using u by (auto simp: same_input_def)
qed (simp add: same_input_def)

text \<open>Reading a number back from its digits.\<close>

definition char_digit :: "nat \<Rightarrow> nat" where
  "char_digit c = (if c < 58 then c - 48 else c - 87)"

definition read_num :: "nat \<Rightarrow> nat list \<Rightarrow> nat" where
  "read_num base cs = foldl (\<lambda>a c. base * a + char_digit c) 0 cs"

lemma char_digit_char [simp]: "char_digit (digit_char d) = d"
  by (simp add: char_digit_def digit_char_def)

lemma digits_less: "1 < base \<Longrightarrow> d \<in> set (digits base x) \<Longrightarrow> d < base"
proof (induction base x rule: digits.induct)
  case (1 base x)
  then show ?case by (subst (asm) digits.simps) (auto split: if_splits)
qed

lemma digits_value: "1 < base \<Longrightarrow> foldr (\<lambda>d a. base * a + d) (digits base x) 0 = x"
proof (induction base x rule: digits.induct)
  case (1 base x)
  show ?case
  proof (cases "x div base = 0")
    case True
    then show ?thesis using 1(2) by (subst digits.simps) (auto simp: div_eq_0_iff)
  next
    case False
    then show ?thesis using 1 by (subst digits.simps) simp
  qed
qed

lemma read_num_digits: "1 < base \<Longrightarrow> read_num base (rev (map digit_char (digits base x))) = x"
  by (simp add: read_num_def foldl_conv_foldr foldr_map o_def digits_value)

lemma int_text_bytes:
  assumes "base = 10 \<or> base = 16"
  shows "\<forall>c \<in> set (int_text x base sign). c < 256"
proof -
  have d: "digit_char i < 256" if "i \<in> set (digits base y)" for i y
    using digits_less [OF _ that] assms by (auto simp: digit_char_def)
  obtain y p where "int_text x base sign = p @ rev (map digit_char (digits base y))" "p = [45] \<or> p = []"
    by (auto simp: int_text_def Let_def)
  then show ?thesis using d by auto
qed

subsection \<open>Properties of the input\<close>

definition plain :: "nat \<Rightarrow> bool" where
  "plain c \<longleftrightarrow> c < 256 \<and> c \<notin> {0, 4, 8, 10, 13, 16, 21, 127}"

lemma u32_mod_buf [simp]: "u32 n mod INPUT_BUF = n mod INPUT_BUF"
  by (simp add: u32_def const_defs mod_mod_cancel)

lemma u32_mod_buf_add: "(u32 a + i) mod INPUT_BUF = (a + i) mod INPUT_BUF"
  by (metis mod_add_left_eq u32_mod_buf)

lemma ring_ix: "i < k \<Longrightarrow> k < INPUT_BUF \<Longrightarrow> (r + i) mod INPUT_BUF \<noteq> (r + k) mod INPUT_BUF"
proof
  assume ik: "i < k" "k < INPUT_BUF" and "(r + i) mod INPUT_BUF = (r + k) mod INPUT_BUF"
  then have "INPUT_BUF dvd (r + k) - (r + i)" by (subst mod_eq_dvd_iff_nat [symmetric]) auto
  then have "INPUT_BUF \<le> k - i" using ik by (intro dvd_imp_le) auto
  then show False using ik by simp
qed

text \<open>Typing appends to the line being edited.\<close>

lemma type_plain:
  assumes "con_ok s" "in_r s < 4294967296" "in_e s = u32 (in_r s + k)" "k + length cs < INPUT_BUF" "\<forall>c \<in> set cs. plain c"
  shows "\<exists>t. consoleintr cs s = Inr (False, t) \<and> con_ok t \<and> in_r t = in_r s \<and> in_w t = in_w s \<and>
     in_e t = u32 (in_r s + k + length cs) \<and>
     (\<forall>i < k + length cs. in_buf t ((in_r s + i) mod INPUT_BUF) =
        (if i < k then in_buf s ((in_r s + i) mod INPUT_BUF) else word_of_nat (cs ! (i - k))))"
  using assms
proof (induction cs arbitrary: s k)
  case (Cons c cs)
  let ?i = "(in_r s + k) mod INPUT_BUF"
  define s1 where "s1 = s\<lparr>in_buf := (in_buf s)(?i := word_of_nat c), in_e := u32 (in_r s + k + 1)\<rparr>"
  have k: "k < 127" "k + 1 < INPUT_BUF" using Cons.prems(4) by (auto simp: const_defs)
  have e: "sub32 (in_e s) (in_r s) = k" using Cons.prems(2,3) k by (simp add: sub32_add)
  have c: "plain c" using Cons.prems(5) by simp
  obtain u where u: "consputc c s1 = Inr u" "con_ok u" "same_input s1 u"
    using consputc_ok [of s1 c] Cons.prems(1) by (auto simp: con_ok_def s1_def)
  have ue: "in_e u \<noteq> u32 (in_r u + INPUT_BUF)"
  proof
    assume a: "in_e u = u32 (in_r u + INPUT_BUF)"
    have "sub32 (u32 (in_r s + (k + 1))) (in_r s) = k + 1" "sub32 (u32 (in_r s + INPUT_BUF)) (in_r s) = INPUT_BUF"
      using sub32_add [of "in_r s" "k + 1"] sub32_add [of "in_r s" INPUT_BUF] Cons.prems(2) k
      by (auto simp: const_defs)
    then show False using a u(3) k by (auto simp: same_input_def s1_def add.assoc)
  qed
  have s1: "s\<lparr>in_buf := (in_buf s)(in_e s mod INPUT_BUF := word_of_nat c), in_e := u32 (in_e s + 1)\<rparr> = s1"
    using Cons.prems(3) by (simp add: s1_def)
  have key: "console_key c s = Inr (False, u)"
    using c e k u(1) ue s1 by (simp add: console_key_def plain_def C_ctrl_def Let_def)
  have su: "in_r u = in_r s" "in_w u = in_w s" "in_e u = u32 (in_r s + (k + 1))"
    "in_buf u = (in_buf s)(?i := word_of_nat c)"
    using u(3) by (auto simp: same_input_def s1_def add.assoc)
  obtain t where t: "consoleintr cs u = Inr (False, t)" "con_ok t" "in_r t = in_r s" "in_w t = in_w s"
     "in_e t = u32 (in_r s + (k + 1) + length cs)"
     "\<forall>i < k + 1 + length cs. in_buf t ((in_r s + i) mod INPUT_BUF) =
        (if i < k + 1 then in_buf u ((in_r s + i) mod INPUT_BUF) else word_of_nat (cs ! (i - (k + 1))))"
    using Cons.IH [of u "k + 1"] u(2) su Cons.prems(2,4,5) by auto
  have ix: "(in_r s + i) mod INPUT_BUF \<noteq> ?i" if "i < k" for i
    using ring_ix [OF that, of "in_r s"] k by simp
  have b: "in_buf t ((in_r s + i) mod INPUT_BUF) =
        (if i < k then in_buf s ((in_r s + i) mod INPUT_BUF) else word_of_nat ((c # cs) ! (i - k)))"
    if i: "i < k + length (c # cs)" for i
  proof -
    consider "i < k" | "i = k" | "k < i" by linarith
    then show ?thesis using t(6) i su(4) ix by cases (auto simp: nth_Cons')
  qed
  have "consoleintr (c # cs) s = Inr (False, t)" using key t(1) by simp
  moreover have "in_e t = u32 (in_r s + k + length (c # cs))" using t(5) by (simp add: add.assoc)
  ultimately show ?case using t(2-4) b by blast
qed simp

lemma type_newline:
  assumes "con_ok s" "in_r s < 4294967296" "in_e s = u32 (in_r s + k)" "k < INPUT_BUF"
  shows "\<exists>t. consoleintr [10] s = Inr (False, t) \<and> con_ok t \<and> in_r t = in_r s \<and> in_w t = u32 (in_r s + k + 1) \<and>
     in_e t = in_w t \<and> in_buf t = (in_buf s)((in_r s + k) mod INPUT_BUF := 10)"
proof -
  define s1 where "s1 = s\<lparr>in_buf := (in_buf s)((in_r s + k) mod INPUT_BUF := 10), in_e := u32 (in_r s + k + 1)\<rparr>"
  have e: "sub32 (in_e s) (in_r s) = k" using assms by (simp add: sub32_add const_defs)
  obtain u where u: "consputc 10 s1 = Inr u" "con_ok u" "same_input s1 u"
    using consputc_ok [of s1 10] assms(1) by (auto simp: con_ok_def s1_def)
  have s1: "s\<lparr>in_buf := (in_buf s)(in_e s mod INPUT_BUF := 10), in_e := u32 (in_e s + 1)\<rparr> = s1"
    using assms(3) by (simp add: s1_def)
  have "console_key 10 s = Inr (False, u\<lparr>in_w := in_e u\<rparr>)"
    using e u(1) assms(4) s1 by (simp add: console_key_def C_ctrl_def Let_def)
  then show ?thesis using u by (auto simp: con_ok_def same_input_def s1_def)
qed

text \<open>A reader that asks for enough gets the line up to and including its newline.\<close>

lemma get_line:
  assumes "in_r s < 4294967296" "in_w s = u32 (in_r s + length bs + 1)" "length bs + 1 < 4294967296" "length bs < n"
    and "\<And>i. i < length bs \<Longrightarrow> in_buf s ((in_r s + i) mod INPUT_BUF) = bs ! i"
    and "in_buf s ((in_r s + length bs) mod INPUT_BUF) = 10" "\<forall>b \<in> set bs. b \<noteq> 4 \<and> b \<noteq> 10"
  shows "console_get killed target n s = Inr (Some (bs @ [10]), s\<lparr>in_r := in_w s\<rparr>)"
  using assms
proof (induction bs arbitrary: s n)
  case Nil
  obtain m where n: "n = Suc m" using Nil.prems(4) by (cases n) auto
  have "in_r s \<noteq> in_w s" using u32_ne [OF Nil.prems(1), of 1] Nil.prems(2) by simp
  then show ?case using Nil.prems by (simp add: n Let_def)
next
  case (Cons b bs)
  obtain m where n: "n = Suc m" using Cons.prems(4) by (cases n) auto
  define s1 where "s1 = s\<lparr>in_r := u32 (in_r s + 1)\<rparr>"
  have ne: "in_r s \<noteq> in_w s"
    using u32_ne [OF Cons.prems(1), of "length (b # bs) + 1"] Cons.prems(2,3) by (simp add: add.assoc)
  have b: "in_buf s (in_r s mod INPUT_BUF) = b" "b \<noteq> 4" "b \<noteq> 10"
    using Cons.prems(5) [of 0] Cons.prems(7) by auto
  have "console_get killed target m s1 = Inr (Some (bs @ [10]), s1\<lparr>in_r := in_w s1\<rparr>)"
  proof (rule Cons.IH)
    show "in_w s1 = u32 (in_r s1 + length bs + 1)"
      using Cons.prems(2) u32_add(1) [of "Suc (in_r s)" "Suc (length bs)"] by (simp add: s1_def)
    show "in_buf s1 ((in_r s1 + i) mod INPUT_BUF) = bs ! i" if "i < length bs" for i
      using Cons.prems(5) [of "Suc i"] that by (simp add: s1_def u32_mod_buf_add)
    show "in_buf s1 ((in_r s1 + length bs) mod INPUT_BUF) = 10"
      using Cons.prems(6) by (simp add: s1_def u32_mod_buf_add)
    show "in_r s1 < 4294967296" by (simp add: s1_def)
    show "length bs + 1 < 4294967296" "length bs < m" using Cons.prems(3,4) by (simp_all add: n)
    show "\<forall>b \<in> set bs. b \<noteq> 4 \<and> b \<noteq> 10" using Cons.prems(7) by simp
  qed
  then show ?case using ne b by (simp add: n Let_def s1_def)
qed

lemma line_is_read:
  assumes "con_ok s" "in_r s < 4294967296" "in_e s = in_r s" "in_w s = in_r s"
    and "\<forall>c \<in> set cs. plain c" "length cs < INPUT_BUF - 1" "length cs < n"
  shows "\<exists>t. consoleintr (cs @ [10]) s = Inr (False, t) \<and>
    console_get False n n t = Inr (Some (map word_of_nat cs @ [10]), t\<lparr>in_r := in_w t\<rparr>) \<and> in_e t = in_w t"
proof -
  have e0: "in_e s = u32 (in_r s + 0)" using assms(2,3) by simp
  have l: "length cs < INPUT_BUF" using assms(6) by simp
  obtain u where u: "consoleintr cs s = Inr (False, u)" "con_ok u" "in_r u = in_r s"
     "in_e u = u32 (in_r s + length cs)"
     "\<forall>i < length cs. in_buf u ((in_r s + i) mod INPUT_BUF) = word_of_nat (cs ! i)"
    using type_plain [OF assms(1,2) e0, of cs] assms(5) l by auto
  obtain t where t: "consoleintr [10] u = Inr (False, t)" "in_r t = in_r s" "in_w t = u32 (in_r s + length cs + 1)"
     "in_e t = in_w t" "in_buf t = (in_buf u)((in_r s + length cs) mod INPUT_BUF := 10)"
    using type_newline [OF u(2), of "length cs"] u(3,4) assms(2) l by auto
  have split: "consoleintr (xs @ ys) v = (case consoleintr xs v of Inl e \<Rightarrow> Inl e
      | Inr (p, w) \<Rightarrow> (case consoleintr ys w of Inl e \<Rightarrow> Inl e | Inr (q, z) \<Rightarrow> Inr (p \<or> q, z)))" for xs ys v
    by (induction xs arbitrary: v) (auto split: sum.splits)
  have w: "word_of_nat c \<noteq> (4 :: byte) \<and> word_of_nat c \<noteq> (10 :: byte)" if "plain c" for c
  proof -
    have "unat (word_of_nat c :: byte) = c" "c \<noteq> 4" "c \<noteq> 10" using that by (auto simp: plain_def)
    moreover have "unat (4 :: byte) = 4" "unat (10 :: byte) = 10" by simp_all
    ultimately show ?thesis by metis
  qed
  have ix: "(in_r s + i) mod INPUT_BUF \<noteq> (in_r s + length cs) mod INPUT_BUF" if "i < length cs" for i
    using ring_ix [OF that l] .
  have "console_get False n n t = Inr (Some (map word_of_nat cs @ [10]), t\<lparr>in_r := in_w t\<rparr>)"
    using t u(5) ix assms(2,5,6,7) w by (intro get_line) (auto simp: const_defs)
  moreover have "consoleintr (cs @ [10]) s = Inr (False, t)" using u(1) t(1) by (simp add: split)
  ultimately show ?thesis using t(4) by blast
qed

subsection \<open>Claims\<close>

text \<open>C7. A line typed at an empty console (printable characters and a newline, fewer than the
  buffer holds) is delivered unchanged, newline included, to a reader that asks for enough bytes,
  wherever the ring indices stand; the interrupt handler does not fault.\<close>

theorem typed_line_is_read:
  assumes "con_ok s" "in_r s < 4294967296" "in_e s = in_r s" "in_w s = in_r s"
    and "\<forall>c \<in> set cs. plain c" "length cs < INPUT_BUF - 1" "length cs < n"
  shows "\<exists>t. consoleintr (cs @ [10]) s = Inr (False, t) \<and>
    console_get False n n t = Inr (Some (map word_of_nat cs @ [10]), t\<lparr>in_r := in_w t\<rparr>) \<and> in_e t = in_w t"
  by (rule line_is_read [OF assms])

definition con0 :: console where
  "con0 = \<lparr>uart = True, uart_out = [], crt = (\<lambda>_. 0), crt_pos = 0, in_buf = (\<lambda>_. 0), in_r = 4294967290, in_w = 4294967290, in_e = 4294967290\<rparr>"

theorem typed_line_is_read_witness:
  "\<exists>t. consoleintr [108, 115, 10] con0 = Inr (False, t) \<and>
    console_get False 100 100 t = Inr (Some [108, 115, 10], t\<lparr>in_r := in_w t\<rparr>)"
proof -
  have "\<exists>t. consoleintr ([108, 115] @ [10]) con0 = Inr (False, t) \<and>
      console_get False 100 100 t = Inr (Some (map word_of_nat [108, 115] @ [10]), t\<lparr>in_r := in_w t\<rparr>) \<and> in_e t = in_w t"
    by (rule typed_line_is_read) (simp_all add: con0_def con_ok_def plain_def const_defs)
  then show ?thesis by (simp del: consoleintr.simps) blast
qed

text \<open>\<open>printint\<close> sends the digits of the number: read back in the same base they give the
  magnitude of the 32-bit word, with a minus sign in front exactly when a signed word is negative,
  and it never trips the bounds check of the screen.\<close>

theorem printint_text:
  assumes "con_ok s" "base = 10 \<or> base = 16" "x < 4294967296"
  shows "\<exists>t ds. printint x base sign s = Inr t \<and> con_ok t \<and>
    uart_out t = uart_out s @ (if sign \<and> 2147483648 \<le> x then [45] else []) @ ds \<and>
    read_num base ds = (if sign \<and> 2147483648 \<le> x then 4294967296 - x else x)"
proof -
  define y where "y = (if sign \<and> 2147483648 \<le> x then 4294967296 - x else x)"
  define p where "p = (if sign \<and> 2147483648 \<le> x then [45 :: nat] else [])"
  define ds where "ds = rev (map digit_char (digits base y))"
  have b: "1 < base" using assms(2) by auto
  have d: "digit_char i < 256" if "i \<in> set (digits base y)" for i
    using digits_less [OF b that] assms(2) by (auto simp: digit_char_def)
  have tx: "int_text x base sign = p @ ds"
    by (auto simp: int_text_def Let_def p_def ds_def y_def)
  have "\<forall>c \<in> set ds. c < 256" using d by (simp add: ds_def)
  moreover have "p = [45] \<or> p = []" by (simp add: p_def)
  ultimately have sm: "\<forall>c \<in> set (p @ ds). c < 256" by auto
  then have m: "map (\<lambda>c. c mod 256) (p @ ds) = p @ ds" by (intro map_idI) simp
  have "\<forall>c \<in> set (int_text x base sign). c \<noteq> BACKSPACE" unfolding tx using sm by (auto simp: const_defs)
  from consputs_ok [OF assms(1) this] obtain t where
    "consputs (int_text x base sign) s = Inr t" "con_ok t" "uart_out t = uart_out s @ p @ ds"
    unfolding tx m by blast
  moreover have "read_num base ds = y" unfolding ds_def by (rule read_num_digits [OF b])
  ultimately show ?thesis
    by (intro exI [of _ t] exI [of _ ds]) (simp only: printint_def p_def y_def simp_thms)
qed

theorem printint_text_witness:
  "\<exists>t ds. printint 4294967173 10 True con0 = Inr t \<and> uart_out t = [45] @ ds \<and> read_num 10 ds = 123"
proof -
  have "\<exists>t ds. printint 4294967173 10 True con0 = Inr t \<and> con_ok t \<and>
    uart_out t = uart_out con0 @ (if True \<and> 2147483648 \<le> (4294967173 :: nat) then [45] else []) @ ds \<and>
    read_num 10 ds = (if True \<and> 2147483648 \<le> (4294967173 :: nat) then 4294967296 - 4294967173 else 4294967173)"
    by (rule printint_text) (simp_all add: con0_def con_ok_def)
  then show ?thesis by (auto simp: con0_def)
qed

end
