(* ===== verification/FsState.thy ===== *)
theory FsState
  imports Store Console
begin

section \<open>State of the file systems (fs.h, ext2.h, vfs.h, file.h, icache.h)\<close>

text \<open>
  The kernel state with the tables of fs.c and ext2fs.c: both superblocks, the inode cache and the
  two tables of block addresses its entries point into. \<open>ip->file_type\<close> is one of the two
  \<open>filesystem_type\<close> objects or null; \<open>ip->addrs\<close> points into \<open>addrs\<close>, into \<open>ext2_addrs\<close>, or is
  null. The spinlock \<open>icache.lock\<close> makes its critical sections single steps.
  \<open>stack_junk\<close> stands for the bytes an uninitialised local object happens to hold.
\<close>

subsection \<open>Constants\<close>

definition EXT2_ROOT_INO :: nat where [const_defs]: "EXT2_ROOT_INO = 2"
definition EXT2_NAME_LEN :: nat where [const_defs]: "EXT2_NAME_LEN = 255"
definition EXT2_NDIR_BLOCKS :: nat where [const_defs]: "EXT2_NDIR_BLOCKS = 12"
definition EXT2_IND_BLOCK :: nat where [const_defs]: "EXT2_IND_BLOCK = EXT2_NDIR_BLOCKS"
definition EXT2_DIND_BLOCK :: nat where [const_defs]: "EXT2_DIND_BLOCK = EXT2_IND_BLOCK + 1"
definition EXT2_TIND_BLOCK :: nat where [const_defs]: "EXT2_TIND_BLOCK = EXT2_DIND_BLOCK + 1"
definition EXT2_N_BLOCKS :: nat where [const_defs]: "EXT2_N_BLOCKS = EXT2_TIND_BLOCK + 1"
definition NINDIRECT1 :: nat where [const_defs]: "NINDIRECT1 = BSIZE div 4"
definition NDINDIRECT :: nat where [const_defs]: "NDINDIRECT = BSIZE div 4 * NINDIRECT1"
definition NTINDIRECT :: nat where [const_defs]: "NTINDIRECT = BSIZE div 4 * NDINDIRECT"
definition EXT2_MAXFILE :: nat where [const_defs]: "EXT2_MAXFILE = NINDIRECT1 + NDINDIRECT + NTINDIRECT"
definition S_IFMT :: nat where [const_defs]: "S_IFMT = 61440"
definition S_IFREG :: nat where [const_defs]: "S_IFREG = 32768"
definition S_IFDIR :: nat where [const_defs]: "S_IFDIR = 16384"
definition CONSOLE :: int where [const_defs]: "CONSOLE = 1"

definition IPB :: nat where [const_defs]: "IPB = BSIZE div 64"

definition IBLOCK :: "nat \<Rightarrow> superblock \<Rightarrow> nat" where
  "IBLOCK i sp = u32 (i div IPB + sb_inodestart sp)"

definition BBLOCK :: "nat \<Rightarrow> superblock \<Rightarrow> nat" where
  "BBLOCK b sp = u32 (b div BPB + sb_bmapstart sp)"

subsection \<open>On-disk structures\<close>

record dinode =
  d_type :: int
  d_major :: int
  d_minor :: int
  d_nlink :: int
  d_size :: nat
  d_addrs :: "nat \<Rightarrow> nat"

text \<open>A \<open>dinode\<close> at offset \<open>k\<close> of a block: four shorts, the size, \<open>NDIRECT + 1\<close> addresses.\<close>

definition dec_dinode :: "block \<Rightarrow> nat \<Rightarrow> dinode" where
  "dec_dinode d k = \<lparr>d_type = s16 (rd16 d k), d_major = s16 (rd16 d (k + 2)), d_minor = s16 (rd16 d (k + 4)),
     d_nlink = s16 (rd16 d (k + 6)), d_size = rd32 d (k + 8),
     d_addrs = (\<lambda>i. if i \<le> NDIRECT then rd32 d (k + 12 + 4 * i) else 0)\<rparr>"

fun put_words :: "(nat \<Rightarrow> nat) \<Rightarrow> nat \<Rightarrow> nat \<Rightarrow> block \<Rightarrow> block" where
  "put_words a k 0 d = d"
| "put_words a k (Suc n) d = wr32 (put_words a k n d) (k + 4 * n) (a n)"

definition enc_dinode :: "dinode \<Rightarrow> nat \<Rightarrow> block \<Rightarrow> block" where
  "enc_dinode di k d =
     put_words (d_addrs di) (k + 12) (NDIRECT + 1)
       (wr32 (wr16 (wr16 (wr16 (wr16 d k (u16_of (d_type di))) (k + 2) (u16_of (d_major di)))
          (k + 4) (u16_of (d_minor di))) (k + 6) (u16_of (d_nlink di))) (k + 8) (d_size di))"

record ext2_superblock =
  s_inodes_count :: nat
  s_blocks_count :: nat
  s_log_block_size :: nat
  s_blocks_per_group :: nat
  s_inodes_per_group :: nat
  s_magic :: nat
  s_first_ino :: nat
  s_inode_size :: nat

definition dec_ext2_superblock :: "block \<Rightarrow> nat \<Rightarrow> ext2_superblock" where
  "dec_ext2_superblock d k = \<lparr>s_inodes_count = rd32 d k, s_blocks_count = rd32 d (k + 4),
     s_log_block_size = rd32 d (k + 24), s_blocks_per_group = rd32 d (k + 32),
     s_inodes_per_group = rd32 d (k + 40), s_magic = rd16 d (k + 56), s_first_ino = rd32 d (k + 84),
     s_inode_size = rd16 d (k + 88)\<rparr>"

record ext2_group_desc =
  bg_block_bitmap :: nat
  bg_inode_bitmap :: nat
  bg_inode_table :: nat

definition dec_group_desc :: "block \<Rightarrow> nat \<Rightarrow> ext2_group_desc" where
  "dec_group_desc d k = \<lparr>bg_block_bitmap = rd32 d k, bg_inode_bitmap = rd32 d (k + 4), bg_inode_table = rd32 d (k + 8)\<rparr>"

subsection \<open>In-memory structures\<close>

datatype file_type = Inbuiltfs | Ext2fs

datatype addrs_ptr = ANull | AInb nat | AExt nat

record adr =
  a_busy :: bool
  a_addrs :: "nat \<Rightarrow> nat"

record inode =
  i_dev :: nat
  i_inum :: nat
  i_ref :: int
  i_lock :: sleeplock
  i_valid :: bool
  i_type :: int
  i_major :: int
  i_minor :: int
  i_nlink :: int
  i_size :: nat
  i_addrs :: addrs_ptr
  i_file_type :: "file_type option"

record fstate = lstate +
  sb :: superblock
  inodes :: "nat \<Rightarrow> inode"
  addrs :: "nat \<Rightarrow> adr"
  ext2_addrs :: "nat \<Rightarrow> adr"
  exs :: ext2_superblock
  cons :: console
  cur_killed :: bool
  cur_cwd :: nat
  stack_junk :: block

definition seti :: "nat \<Rightarrow> (inode \<Rightarrow> inode) \<Rightarrow> 'z fstate_scheme \<Rightarrow> 'z fstate_scheme" where
  "seti ip f s = s\<lparr>inodes := (inodes s)(ip := f (inodes s ip))\<rparr>"

text \<open>The address array \<open>ip->addrs\<close> points to.\<close>

definition get_addr :: "nat \<Rightarrow> nat \<Rightarrow> ('z fstate_scheme, nat) kern" where
  "get_addr ip i = (\<lambda>s. case i_addrs (inodes s ip) of
       ANull \<Rightarrow> Inl (Undef ''ip->addrs'')
     | AInb j \<Rightarrow> Inr (a_addrs (addrs s j) i, s)
     | AExt j \<Rightarrow> Inr (a_addrs (ext2_addrs s j) i, s))"

definition set_addr :: "nat \<Rightarrow> nat \<Rightarrow> nat \<Rightarrow> ('z fstate_scheme, unit) kern" where
  "set_addr ip i v = (\<lambda>s. case i_addrs (inodes s ip) of
       ANull \<Rightarrow> Inl (Undef ''ip->addrs'')
     | AInb j \<Rightarrow> Inr ((), s\<lparr>addrs := (addrs s)(j := (addrs s j)\<lparr>a_addrs := (a_addrs (addrs s j))(i := v)\<rparr>)\<rparr>)
     | AExt j \<Rightarrow> Inr ((), s\<lparr>ext2_addrs := (ext2_addrs s)(j := (ext2_addrs s j)\<lparr>a_addrs := (a_addrs (ext2_addrs s j))(i := v)\<rparr>)\<rparr>))"

text \<open>Bits of a bitmap block.\<close>

definition tst :: "block \<Rightarrow> nat \<Rightarrow> bool" where
  "tst d i = bit (d (i div 8)) (i mod 8)"

definition bset :: "nat \<Rightarrow> block \<Rightarrow> block" where
  "bset i d = d(i div 8 := set_bit (i mod 8) (d (i div 8)))"

definition bclr :: "nat \<Rightarrow> block \<Rightarrow> block" where
  "bclr i d = d(i div 8 := unset_bit (i mod 8) (d (i div 8)))"

end
