(* ===== verification/Fs.thy ===== *)
theory Fs
  imports FsState
begin

section \<open>Native file system: blocks and the inode cache (fs.c)\<close>

text \<open>
  The block allocator and the inode cache of fs.c. Pointers to cache entries are their indices.
  A loop over the bitmap or the inode table carries the superblock it was started with: the global
  \<open>sb\<close> changes only at boot.
\<close>

subsection \<open>Operations on blocks\<close>

definition kprintf :: "string \<Rightarrow> arg list \<Rightarrow> ('z fstate_scheme, unit) kern" where
  "kprintf fmt as = (\<lambda>s. case cprintf (map of_char fmt) as (cons s) of
     Inl e \<Rightarrow> Inl e | Inr c \<Rightarrow> Inr ((), s\<lparr>cons := c\<rparr>))"

definition bzero :: "nat \<Rightarrow> nat \<Rightarrow> ('z lstate_scheme, unit) kern" where
  "bzero dev bno =
     bnd (bread dev bno) (\<lambda>bp.
     bnd (bmod bp (\<lambda>_ _. 0)) (\<lambda>_.
     bnd (if dev = ROOTDEV then log_write bp else bwrite bp) (\<lambda>_.
     brelse bp)))"

text \<open>The inner loop of \<open>balloc\<close>: the first clear bit of the next \<open>k\<close> from \<open>bi\<close> on.\<close>

fun free_bit :: "block \<Rightarrow> nat \<Rightarrow> nat \<Rightarrow> nat option" where
  "free_bit d bi 0 = None"
| "free_bit d bi (Suc k) = (if \<not> tst d bi then Some bi else free_bit d (bi + 1) k)"

function balloc_loop :: "superblock \<Rightarrow> nat \<Rightarrow> nat \<Rightarrow> ('z lstate_scheme, nat) kern" where
  "balloc_loop sp dev b =
     (if b < sb_size sp then
        bnd (bread dev (BBLOCK b sp)) (\<lambda>bp.
        bnd (gets (\<lambda>s. free_bit (b_data (bufs s bp)) 0 (min BPB (sb_size sp - b)))) (\<lambda>r.
        case r of
          Some bi \<Rightarrow>
            bnd (bmod bp (bset bi)) (\<lambda>_.
            bnd (log_write bp) (\<lambda>_.
            bnd (brelse bp) (\<lambda>_.
            bnd (bzero dev (b + bi)) (\<lambda>_.
            ret (b + bi)))))
        | None \<Rightarrow> bnd (brelse bp) (\<lambda>_. balloc_loop sp dev (b + BPB))))
      else panic ''balloc: out of blocks'')"
  by pat_completeness auto
termination
  by (relation "measure (\<lambda>(sp, dev, b). sb_size sp - b)") (auto simp: const_defs)

declare balloc_loop.simps [simp del]

definition balloc :: "nat \<Rightarrow> ('z fstate_scheme, nat) kern" where
  "balloc dev = (\<lambda>s. balloc_loop (sb s) dev 0 s)"

definition bfree :: "nat \<Rightarrow> nat \<Rightarrow> ('z fstate_scheme, unit) kern" where
  "bfree dev b = (\<lambda>s.
     bnd (bread dev (BBLOCK b (sb s))) (\<lambda>bp.
     bnd (gets (\<lambda>s. tst (b_data (bufs s bp)) (b mod BPB))) (\<lambda>used.
     if \<not> used then panic ''freeing free block''
     else bnd (bmod bp (bclr (b mod BPB))) (\<lambda>_.
          bnd (log_write bp) (\<lambda>_.
          brelse bp)))) s)"

subsection \<open>The inode cache\<close>

definition iinit :: "nat \<Rightarrow> ('z fstate_scheme, unit) kern" where
  "iinit dev =
     bnd (upd (\<lambda>s. s\<lparr>inodes := (\<lambda>i. if i < NINODE then (inodes s i)\<lparr>i_lock := initsleeplock\<rparr> else inodes s i)\<rparr>)) (\<lambda>_.
     bnd (readsb dev) (\<lambda>x.
     bnd (upd (\<lambda>s. s\<lparr>sb := x\<rparr>)) (\<lambda>_.
     kprintf (''sb: size %d nblocks %d ninodes %d nlog %d logstart %d'' @
        '' inodestart %d bmap start %d'' @ [CHR 0x0A])
       [AWord (sb_size x), AWord (sb_nblocks x), AWord (sb_ninodes x), AWord (sb_nlog x),
        AWord (sb_logstart x), AWord (sb_inodestart x), AWord (sb_bmapstart x)])))"

text \<open>If no entry of the address table is free the code would index past its end.\<close>

definition iget :: "nat \<Rightarrow> nat \<Rightarrow> ('z fstate_scheme, nat) kern" where
  "iget dev inum = (\<lambda>s.
     case find (\<lambda>i. i_ref (inodes s i) > 0 \<and> i_dev (inodes s i) = dev \<and> i_inum (inodes s i) = inum) [0..<NINODE] of
       Some ip \<Rightarrow> Inr (ip, seti ip (\<lambda>x. x\<lparr>i_ref := i_ref x + 1\<rparr>) s)
     | None \<Rightarrow>
        (case find (\<lambda>i. i_ref (inodes s i) = 0) [0..<NINODE] of
           None \<Rightarrow> Inl (Panic ''iget: no inodes'')
         | Some ip \<Rightarrow>
            (if dev = ROOTDEV then
               (case find (\<lambda>i. \<not> a_busy (addrs s i)) [0..<NINODE] of
                  None \<Rightarrow> Inl (Undef ''addrs'')
                | Some i \<Rightarrow> Inr (ip, seti ip (\<lambda>x. x\<lparr>i_dev := dev, i_inum := inum, i_ref := 1, i_valid := False,
                       i_file_type := Some Inbuiltfs, i_addrs := AInb i\<rparr>)
                     (s\<lparr>addrs := (addrs s)(i := (addrs s i)\<lparr>a_busy := True\<rparr>)\<rparr>)))
             else
               (case find (\<lambda>j. \<not> a_busy (ext2_addrs s j)) [0..<NINODE] of
                  None \<Rightarrow> Inl (Undef ''ext2_addrs'')
                | Some j \<Rightarrow> Inr (ip, seti ip (\<lambda>x. x\<lparr>i_dev := dev, i_inum := inum, i_ref := 1, i_valid := False,
                       i_file_type := Some Ext2fs, i_addrs := AExt j\<rparr>)
                     (s\<lparr>ext2_addrs := (ext2_addrs s)(j := (ext2_addrs s j)\<lparr>a_busy := True\<rparr>)\<rparr>))))))"

definition idup :: "nat \<Rightarrow> ('z fstate_scheme, nat) kern" where
  "idup ip = bnd (upd (seti ip (\<lambda>x. x\<lparr>i_ref := i_ref x + 1\<rparr>))) (\<lambda>_. ret ip)"

text \<open>The block operation of \<open>ialloc\<close> on a free inode: clear it and give it its type.\<close>

definition mark_dinode :: "int \<Rightarrow> nat \<Rightarrow> block \<Rightarrow> block" where
  "mark_dinode type k d = wr16 (fill d k 64 0) k (u16_of type)"

function ialloc_loop :: "superblock \<Rightarrow> nat \<Rightarrow> int \<Rightarrow> nat \<Rightarrow> ('z fstate_scheme, nat) kern" where
  "ialloc_loop sp dev type inum =
     (if inum < sb_ninodes sp then
        bnd (bread dev (IBLOCK inum sp)) (\<lambda>bp.
        bnd (gets (\<lambda>s. d_type (dec_dinode (b_data (bufs s bp)) (64 * (inum mod IPB))))) (\<lambda>ty.
        if ty = 0 then
          bnd (bmod bp (mark_dinode type (64 * (inum mod IPB)))) (\<lambda>_.
          bnd (log_write bp) (\<lambda>_.
          bnd (brelse bp) (\<lambda>_.
          iget dev inum)))
        else bnd (brelse bp) (\<lambda>_. ialloc_loop sp dev type (inum + 1))))
      else panic ''ialloc: no inodes'')"
  by pat_completeness auto
termination
  by (relation "measure (\<lambda>(sp, dev, type, inum). sb_ninodes sp - inum)") auto

declare ialloc_loop.simps [simp del]

definition ialloc :: "nat \<Rightarrow> int \<Rightarrow> ('z fstate_scheme, nat) kern" where
  "ialloc dev type = (\<lambda>s. ialloc_loop (sb s) dev type 1 s)"

text \<open>The in-memory inode with its address array as a \<open>dinode\<close>.\<close>

definition dinode_of :: "'z fstate_scheme \<Rightarrow> nat \<Rightarrow> nat \<Rightarrow> dinode" where
  "dinode_of s ip j = (let x = inodes s ip in
     \<lparr>d_type = i_type x, d_major = i_major x, d_minor = i_minor x, d_nlink = i_nlink x,
      d_size = i_size x, d_addrs = a_addrs (addrs s j)\<rparr>)"

text \<open>An inode of this file system has its addresses in \<open>addrs\<close>; with any other pointer the copies
  of \<open>iupdate\<close> and \<open>ilock\<close> would run outside it.\<close>

definition iupdate :: "nat \<Rightarrow> ('z fstate_scheme, unit) kern" where
  "iupdate ip = (\<lambda>s. let x = inodes s ip in
     case i_addrs x of AInb j \<Rightarrow>
       bnd (bread (i_dev x) (IBLOCK (i_inum x) (sb s))) (\<lambda>bp.
       bnd (bmod bp (enc_dinode (dinode_of s ip j) (64 * (i_inum x mod IPB)))) (\<lambda>_.
       bnd (log_write bp) (\<lambda>_.
       brelse bp))) s
     | _ \<Rightarrow> Inl (Undef ''iupdate''))"

definition load_inode :: "nat \<Rightarrow> nat \<Rightarrow> dinode \<Rightarrow> 'z fstate_scheme \<Rightarrow> 'z fstate_scheme" where
  "load_inode ip j di s =
     seti ip (\<lambda>x. x\<lparr>i_type := d_type di, i_major := d_major di, i_minor := d_minor di,
        i_nlink := d_nlink di, i_size := d_size di, i_file_type := Some Inbuiltfs\<rparr>)
       (s\<lparr>addrs := (addrs s)(j := (addrs s j)\<lparr>a_addrs := d_addrs di\<rparr>)\<rparr>)"

definition acquire_inode :: "nat \<Rightarrow> ('z fstate_scheme, unit) kern" where
  "acquire_inode ip = (\<lambda>s. case acquiresleep (cur_pid s) (i_lock (inodes s ip)) of
     Inl e \<Rightarrow> Inl e | Inr l \<Rightarrow> Inr ((), seti ip (\<lambda>x. x\<lparr>i_lock := l\<rparr>) s))"

definition ilock :: "nat \<Rightarrow> ('z fstate_scheme, unit) kern" where
  "ilock ip = (\<lambda>s.
     if i_ref (inodes s ip) < 1 then Inl (Panic ''ilock'')
     else bnd (acquire_inode ip) (\<lambda>_ s. let x = inodes s ip in
       if i_valid x then Inr ((), s)
       else case i_addrs x of AInb j \<Rightarrow>
         bnd (bread (i_dev x) (IBLOCK (i_inum x) (sb s))) (\<lambda>bp.
         bnd (\<lambda>s. Inr ((), load_inode ip j (dec_dinode (b_data (bufs s bp)) (64 * (i_inum x mod IPB))) s)) (\<lambda>_.
         bnd (brelse bp) (\<lambda>_.
         bnd (upd (seti ip (\<lambda>x. x\<lparr>i_valid := True\<rparr>))) (\<lambda>_ s.
         if i_type (inodes s ip) = 0 then Inl (Panic ''ilock: no type'') else Inr ((), s))))) s
       | _ \<Rightarrow> Inl (Undef ''ilock'')) s)"

definition iunlock :: "nat \<Rightarrow> ('z fstate_scheme, unit) kern" where
  "iunlock ip = (\<lambda>s.
     if \<not> holdingsleep (cur_pid s) (i_lock (inodes s ip)) \<or> i_ref (inodes s ip) < 1 then Inl (Panic ''iunlock'')
     else Inr ((), seti ip (\<lambda>x. x\<lparr>i_lock := releasesleep (i_lock x)\<rparr>) s))"

end
