(* ===== verification/Ext2.thy ===== *)
theory Ext2
  imports Fs
begin

section \<open>ext2: superblock, allocation and inodes (ext2fs.c)\<close>

text \<open>
  The routines of ext2fs.c below the file level. Block 1 holds the group descriptors (32 bytes
  each); an index past the end of a 2048-byte block is the fault \<open>Undef\<close>, since the code would leave
  the buffer.
\<close>

subsection \<open>Groups\<close>

definition GN :: "nat \<Rightarrow> ext2_superblock \<Rightarrow> nat" where
  "GN inum ex = u32 (inum + 4294967295) div s_inodes_per_group ex"

definition IO :: "nat \<Rightarrow> ext2_superblock \<Rightarrow> nat" where
  "IO inum ex = u32 (inum + 4294967295) mod s_inodes_per_group ex"

definition ext2_readsb :: "nat \<Rightarrow> ('z bstate_scheme, ext2_superblock) kern" where
  "ext2_readsb dev =
     bnd (bread dev 0) (\<lambda>bp.
     bnd (gets (\<lambda>s. dec_ext2_superblock (b_data (bufs s bp)) 1024)) (\<lambda>x.
     bnd (brelse bp) (\<lambda>_. ret x)))"

text \<open>The \<open>memmove\<close> of a group descriptor out of a held buffer of block 1.\<close>

definition copy_gd :: "nat \<Rightarrow> nat \<Rightarrow> ('z bstate_scheme, ext2_group_desc) kern" where
  "copy_gd bp g = (\<lambda>s. if 32 * g + 32 > BSIZE then Inl (Undef ''gd'')
     else Inr (dec_group_desc (b_data (bufs s bp)) (32 * g), s))"

text \<open>The scan of \<open>zeroth_bit\<close> from bit \<open>b\<close> over \<open>k\<close> bits.\<close>

fun zeroth_scan :: "block \<Rightarrow> nat \<Rightarrow> nat \<Rightarrow> fault + nat option" where
  "zeroth_scan d b 0 = Inr None"
| "zeroth_scan d b (Suc k) =
     (if b div 8 \<ge> BSIZE then Inl (Undef ''bmap'')
      else if \<not> tst d b then Inr (Some b)
      else zeroth_scan d (b + 1) k)"

definition zeroth_bit :: "nat \<Rightarrow> ('z fstate_scheme, nat option) kern" where
  "zeroth_bit bp = (\<lambda>s.
     case zeroth_scan (b_data (bufs s bp)) 0 (u32 (s_blocks_per_group (exs s) * 8)) of
       Inl e \<Rightarrow> Inl e
     | Inr None \<Rightarrow> Inr (None, s)
     | Inr (Some b) \<Rightarrow> bnd (bmod bp (bset b)) (\<lambda>_. ret (Some b)) s)"

definition ext2_balloc :: "nat \<Rightarrow> nat \<Rightarrow> ('z fstate_scheme, nat) kern" where
  "ext2_balloc dev inum = (\<lambda>s. let group_no = GN inum (exs s) in
     bnd (bread dev 1) (\<lambda>gdbp.
     bnd (copy_gd gdbp group_no) (\<lambda>gd.
     bnd (brelse gdbp) (\<lambda>_.
     bnd (bread dev (bg_block_bitmap gd)) (\<lambda>bp.
     bnd (zeroth_bit bp) (\<lambda>r.
     case r of
       Some zbit \<Rightarrow> (let bblock = u32 (bg_block_bitmap gd + zbit) in
         bnd (bwrite bp) (\<lambda>_.
         bnd (bzero dev bblock) (\<lambda>_.
         bnd (brelse bp) (\<lambda>_.
         ret bblock))))
     | None \<Rightarrow> bnd (brelse bp) (\<lambda>_. panic ''balloc: out of blocks'')))))) s)"

definition ext2_bfree :: "nat \<Rightarrow> nat \<Rightarrow> ('z fstate_scheme, unit) kern" where
  "ext2_bfree dev b = (\<lambda>s.
     let bg = b div s_blocks_per_group (exs s); index = b mod s_blocks_per_group (exs s) in
     bnd (bread dev 1) (\<lambda>gd_bp.
     bnd (copy_gd gd_bp bg) (\<lambda>gd.
     bnd (bread dev (bg_block_bitmap gd)) (\<lambda>bp.
     let index = sub32 index (bg_block_bitmap gd) in
     if index div 8 \<ge> BSIZE then fail (Undef ''bp->data'')
     else bnd (gets (\<lambda>s. tst (b_data (bufs s bp)) index)) (\<lambda>used.
       if \<not> used then panic ''freeing free block''
       else bnd (bmod bp (bclr index)) (\<lambda>_.
            bnd (bwrite bp) (\<lambda>_.
            bnd (brelse bp) (\<lambda>_.
            brelse gd_bp))))))) s)"

definition ext2_ifree :: "nat \<Rightarrow> ('z fstate_scheme, unit) kern" where
  "ext2_ifree ip = (\<lambda>s.
     let dev = i_dev (inodes s ip); inum = i_inum (inodes s ip);
         group_no = GN inum (exs s); index = IO inum (exs s) in
     bnd (bread dev 1) (\<lambda>gd_bp.
     bnd (copy_gd gd_bp group_no) (\<lambda>gd.
     bnd (brelse gd_bp) (\<lambda>_.
     bnd (bread dev (bg_inode_bitmap gd)) (\<lambda>bp.
     if index div 8 \<ge> BSIZE then fail (Undef ''bp->data'')
     else bnd (gets (\<lambda>s. tst (b_data (bufs s bp)) index)) (\<lambda>used.
       if \<not> used then panic ''freeing free inode''
       else bnd (bmod bp (bclr index)) (\<lambda>_.
            bnd (bwrite bp) (\<lambda>_.
            brelse bp))))))) s)"

definition ext2_iinit :: "nat \<Rightarrow> ('z fstate_scheme, unit) kern" where
  "ext2_iinit dev =
     bnd (ext2_readsb dev) (\<lambda>x.
     bnd (upd (\<lambda>s. s\<lparr>exs := x\<rparr>)) (\<lambda>_.
     kprintf (''ext2_sb: magic %x icount = %d bcount = %d log block size  %d inodes per group '' @
       ''   %d first inode %d inode size %d'' @ [CHR 0x0A])
       [AWord (s_magic x), AWord (s_inodes_count x), AWord (s_blocks_count x), AWord (s_log_block_size x),
        AWord (s_inodes_per_group x), AWord (s_first_ino x), AWord (s_inode_size x)]))"

subsection \<open>Inodes\<close>

text \<open>The second copy of \<open>iget\<close>, static in ext2fs.c.\<close>

definition ext2_iget :: "nat \<Rightarrow> nat \<Rightarrow> ('z fstate_scheme, nat) kern" where
  "ext2_iget dev inum = (\<lambda>s.
     case find (\<lambda>i. i_ref (inodes s i) > 0 \<and> i_dev (inodes s i) = dev \<and> i_inum (inodes s i) = inum) [0..<NINODE] of
       Some ip \<Rightarrow> Inr (ip, seti ip (\<lambda>x. x\<lparr>i_ref := i_ref x + 1\<rparr>) s)
     | None \<Rightarrow>
        (case find (\<lambda>i. i_ref (inodes s i) = 0) [0..<NINODE] of
           None \<Rightarrow> Inl (Panic ''iget: no inodes'')
         | Some ip \<Rightarrow>
            (if dev = ROOTDEV then
               (case find (\<lambda>i. \<not> a_busy (addrs s i)) [0..<NINODE] of
                  None \<Rightarrow> Inl (Undef ''addrs'')
                | Some i \<Rightarrow> Inr (ip, seti ip (\<lambda>x. x\<lparr>i_dev := dev, i_inum := inum, i_ref := 1, i_valid := False,
                       i_file_type := Some Inbuiltfs, i_addrs := AInb i\<rparr>)
                     (s\<lparr>addrs := (addrs s)(i := (addrs s i)\<lparr>a_busy := True\<rparr>)\<rparr>)))
             else
               (case find (\<lambda>j. \<not> a_busy (ext2_addrs s j)) [0..<NINODE] of
                  None \<Rightarrow> Inl (Undef ''ext2_addrs'')
                | Some j \<Rightarrow> Inr (ip, seti ip (\<lambda>x. x\<lparr>i_dev := dev, i_inum := inum, i_ref := 1, i_valid := False,
                       i_file_type := Some Ext2fs, i_addrs := AExt j\<rparr>)
                     (s\<lparr>ext2_addrs := (ext2_addrs s)(j := (ext2_addrs s j)\<lparr>a_busy := True\<rparr>)\<rparr>))))))"

definition ext2_mode_of :: "int \<Rightarrow> nat \<Rightarrow> block \<Rightarrow> block" where
  "ext2_mode_of type k d =
     (let d = (if type = T_DIR then wr16 d k S_IFDIR else d)
      in if type = T_FILE then wr16 d k S_IFREG else d)"

text \<open>Where \<open>ext2_ialloc\<close> puts the inode of bitmap index \<open>index\<close>: it takes inodes to be 128 bytes.\<close>

definition ialloc_block :: "ext2_group_desc \<Rightarrow> nat \<Rightarrow> nat" where
  "ialloc_block gd index = u32 (bg_inode_table gd + index div (BSIZE div 128))"

definition ialloc_off :: "nat \<Rightarrow> nat" where
  "ialloc_off index = 128 * (index mod (BSIZE div 128))"

function ext2_ialloc_loop :: "ext2_superblock \<Rightarrow> nat \<Rightarrow> int \<Rightarrow> nat \<Rightarrow> ('z fstate_scheme, nat) kern" where
  "ext2_ialloc_loop ex dev type i =
     bnd (bread dev 1) (\<lambda>gd_bp.
     bnd (copy_gd gd_bp i) (\<lambda>gd.
     bnd (brelse gd_bp) (\<lambda>_.
     bnd (bread dev (bg_inode_bitmap gd)) (\<lambda>bp.
     bnd (zeroth_bit bp) (\<lambda>r.
     case r of
       None \<Rightarrow>
         bnd (brelse gd_bp) (\<lambda>_.
         bnd (brelse bp) (\<lambda>_.
         if i < s_blocks_count ex div s_blocks_per_group ex then ext2_ialloc_loop ex dev type (i + 1)
         else bnd (brelse bp) (\<lambda>_. panic ''ialloc: no inodes'')))
     | Some index \<Rightarrow>
         bnd (bread dev (ialloc_block gd index)) (\<lambda>ibp.
         bnd (bmod ibp (\<lambda>d. ext2_mode_of type (ialloc_off index) (fill d (ialloc_off index) 128 0))) (\<lambda>_.
         bnd (bwrite ibp) (\<lambda>_.
         bnd (bwrite bp) (\<lambda>_.
         bnd (brelse ibp) (\<lambda>_.
         bnd (brelse bp) (\<lambda>_.
         ext2_iget dev (u32 (i * s_inodes_per_group ex + index + 1))))))))))))) "
  by pat_completeness auto
termination
  by (relation "measure (\<lambda>(ex, dev, type, i). s_blocks_count ex div s_blocks_per_group ex + 1 - i)") auto

declare ext2_ialloc_loop.simps [simp del]

definition ext2_ialloc :: "nat \<Rightarrow> int \<Rightarrow> ('z fstate_scheme, nat) kern" where
  "ext2_ialloc dev type = (\<lambda>s. ext2_ialloc_loop (exs s) dev type 0 s)"

text \<open>On an \<open>ext2_inode\<close> at offset \<open>k\<close> of the block.\<close>

definition fill_ext2_fields :: "nat \<Rightarrow> block \<Rightarrow> block" where
  "fill_ext2_fields k d =
     (let d = wr32 d (k + 20) 0;
          d = wr32 d (k + 112) 0;
          d = wr32 d (k + 104) 0;
          d = wr32 d (k + 32) 0;
          d = wr32 d (k + 100) 0;
          d = wr16 d (k + 24) 0;
          d = wr32 d (k + 16) 0;
          d = wr32 d (k + 108) 0;
          d = wr16 d (k + 2) 0
      in wr32 d (k + 8) 0)"

definition ext2_put_inode :: "inode \<Rightarrow> (nat \<Rightarrow> nat) \<Rightarrow> nat \<Rightarrow> block \<Rightarrow> block" where
  "ext2_put_inode x ad k d =
     (let d = ext2_mode_of (i_type x) k d;
          d = wr16 d (k + 26) (u16_of (i_nlink x));
          d = wr32 d (k + 4) (i_size x);
          d = fill_ext2_fields k d
      in put_words ad (k + 40) EXT2_N_BLOCKS d)"

text \<open>Where \<open>ext2_iupdate\<close> and \<open>ext2_ilock\<close> find the inode: they use the superblock's inode size.\<close>

definition inode_block :: "ext2_superblock \<Rightarrow> ext2_group_desc \<Rightarrow> nat \<Rightarrow> nat" where
  "inode_block ex gd off = u32 (bg_inode_table gd + off div (BSIZE div s_inode_size ex))"

definition inode_off :: "ext2_superblock \<Rightarrow> nat \<Rightarrow> nat" where
  "inode_off ex off = off mod (BSIZE div s_inode_size ex) * s_inode_size ex"

definition ext2_iupdate :: "nat \<Rightarrow> ('z fstate_scheme, unit) kern" where
  "ext2_iupdate ip = (\<lambda>s. let x = inodes s ip; ex = exs s; off = IO (i_inum x) ex in
     case i_addrs x of AExt j \<Rightarrow>
       bnd (bread (i_dev x) 1) (\<lambda>gdbp.
       bnd (copy_gd gdbp (GN (i_inum x) ex)) (\<lambda>gd.
       bnd (bread (i_dev x) (inode_block ex gd off)) (\<lambda>bp.
       bnd (bmod bp (ext2_put_inode x (a_addrs (ext2_addrs s j)) (inode_off ex off))) (\<lambda>_.
       bnd (bwrite bp) (\<lambda>_.
       bnd (brelse gdbp) (\<lambda>_.
       brelse bp)))))) s
     | _ \<Rightarrow> Inl (Undef ''ext2_iupdate''))"

definition S_ISDIR :: "nat \<Rightarrow> bool" where
  "S_ISDIR m \<longleftrightarrow> m AND S_IFMT = S_IFDIR"

definition S_ISREG :: "nat \<Rightarrow> bool" where
  "S_ISREG m \<longleftrightarrow> m AND S_IFMT = S_IFREG"

text \<open>An inode whose mode is neither a directory nor a regular file keeps the type the cache entry
  had before.\<close>

definition ext2_load_inode :: "nat \<Rightarrow> nat \<Rightarrow> block \<Rightarrow> nat \<Rightarrow> 'z fstate_scheme \<Rightarrow> 'z fstate_scheme" where
  "ext2_load_inode ip j d k s = (let mode = rd16 d k in
     seti ip (\<lambda>x. x\<lparr>i_type := (if S_ISDIR mode \<or> int mode = T_DIR then T_DIR
          else if S_ISREG mode \<or> int mode = T_FILE then T_FILE else i_type x),
        i_major := 0, i_minor := 0, i_nlink := s16 (rd16 d (k + 26)), i_size := rd32 d (k + 4)\<rparr>)
       (s\<lparr>ext2_addrs := (ext2_addrs s)(j := (ext2_addrs s j)\<lparr>a_addrs :=
            (\<lambda>i. if i < EXT2_N_BLOCKS then rd32 d (k + 40 + 4 * i) else 0)\<rparr>)\<rparr>))"

definition ext2_ilock :: "nat \<Rightarrow> ('z fstate_scheme, unit) kern" where
  "ext2_ilock ip = (\<lambda>s.
     if i_ref (inodes s ip) < 1 then Inl (Panic ''ilock'')
     else bnd (acquire_inode ip) (\<lambda>_ s. let x = inodes s ip; ex = exs s; off = IO (i_inum x) ex in
       if i_valid x then Inr ((), s)
       else case i_addrs x of AExt j \<Rightarrow>
         bnd (bread (i_dev x) 1) (\<lambda>bp1.
         bnd (copy_gd bp1 (GN (i_inum x) ex)) (\<lambda>gd.
         bnd (brelse bp1) (\<lambda>_.
         bnd (bread (i_dev x) (inode_block ex gd off)) (\<lambda>bp.
         bnd (\<lambda>s. Inr ((), ext2_load_inode ip j (b_data (bufs s bp)) (inode_off ex off) s)) (\<lambda>_.
         bnd (brelse bp) (\<lambda>_.
         bnd (upd (seti ip (\<lambda>x. x\<lparr>i_valid := True\<rparr>))) (\<lambda>_ s.
         if i_type (inodes s ip) = 0 then Inl (Panic ''ilock: no type'') else Inr ((), s)))))))) s
       | _ \<Rightarrow> Inl (Undef ''ext2_ilock'')) s)"

end
