(* ===== verification/CString.thy ===== *)
theory CString
  imports Prelude
begin

section \<open>Memory and string routines (string.c, x86.h)\<close>

text \<open>
  The routines that only read take the objects their pointers point to (a function from
  offsets to bytes, starting at the pointer); the routines that write take the flat memory
  and addresses, since source and destination may overlap. The lemmas relate each loop to a
  copy (\<open>blit\<close>), a fill (\<open>fill\<close>), or to the C string a pointer stands for (\<open>cstr\<close>: its
  first \<open>n\<close> bytes up to the terminating NUL).
\<close>

subsection \<open>Definitions\<close>

text \<open>\<open>rep stosb\<close> and \<open>rep stosl\<close>: \<open>cnt\<close> stores of a byte, of a little-endian word.\<close>

fun stosb :: "block \<Rightarrow> nat \<Rightarrow> byte \<Rightarrow> nat \<Rightarrow> block" where
  "stosb m a c 0 = m"
| "stosb m a c (Suc cnt) = stosb (m(a := c)) (a + 1) c cnt"

fun stosl :: "block \<Rightarrow> nat \<Rightarrow> nat \<Rightarrow> nat \<Rightarrow> block" where
  "stosl m a w 0 = m"
| "stosl m a w (Suc cnt) = stosl (wr32 m a w) (a + 4) w cnt"

definition memset :: "block \<Rightarrow> nat \<Rightarrow> byte \<Rightarrow> nat \<Rightarrow> block" where
  "memset m dst c n =
     (if dst mod 4 = 0 \<and> n mod 4 = 0
      then (let w = unat c in stosl m dst (w * 16777216 + w * 65536 + w * 256 + w) (n div 4))
      else stosb m dst c n)"

fun memcmp :: "block \<Rightarrow> block \<Rightarrow> nat \<Rightarrow> int" where
  "memcmp s1 s2 0 = 0"
| "memcmp s1 s2 (Suc n) =
     (if s1 0 \<noteq> s2 0 then int (unat (s1 0)) - int (unat (s2 0))
      else memcmp (\<lambda>i. s1 (i + 1)) (\<lambda>i. s2 (i + 1)) n)"

fun copy_up :: "block \<Rightarrow> nat \<Rightarrow> nat \<Rightarrow> nat \<Rightarrow> block" where
  "copy_up m d s 0 = m"
| "copy_up m d s (Suc n) = copy_up (m(d := m s)) (d + 1) (s + 1) n"

fun copy_down :: "block \<Rightarrow> nat \<Rightarrow> nat \<Rightarrow> nat \<Rightarrow> block" where
  "copy_down m d s 0 = m"
| "copy_down m d s (Suc n) = copy_down (m(d - 1 := m (s - 1))) (d - 1) (s - 1) n"

definition memmove :: "block \<Rightarrow> nat \<Rightarrow> nat \<Rightarrow> nat \<Rightarrow> block" where
  "memmove m dst src n =
     (if src < dst \<and> src + n > dst then copy_down m (dst + n) (src + n) n
      else copy_up m dst src n)"

fun strncmp :: "block \<Rightarrow> block \<Rightarrow> nat \<Rightarrow> int" where
  "strncmp p q 0 = 0"
| "strncmp p q (Suc n) =
     (if p 0 \<noteq> 0 \<and> p 0 = q 0 then strncmp (\<lambda>i. p (i + 1)) (\<lambda>i. q (i + 1)) n
      else int (unat (p 0)) - int (unat (q 0)))"

fun pad_zero :: "block \<Rightarrow> nat \<Rightarrow> nat \<Rightarrow> block" where
  "pad_zero m s 0 = m"
| "pad_zero m s (Suc n) = pad_zero (m(s := 0)) (s + 1) n"

fun strncpy :: "block \<Rightarrow> nat \<Rightarrow> nat \<Rightarrow> nat \<Rightarrow> block" where
  "strncpy m s t 0 = m"
| "strncpy m s t (Suc n) =
     (let m' = m(s := m t)
      in if m t \<noteq> 0 then strncpy m' (s + 1) (t + 1) n else pad_zero m' (s + 1) n)"

text \<open>The argument \<open>n\<close> of \<open>safestrcpy\<close> is the count before its pre-decrement.\<close>

fun safestrcpy :: "block \<Rightarrow> nat \<Rightarrow> nat \<Rightarrow> nat \<Rightarrow> block" where
  "safestrcpy m s t 0 = m"
| "safestrcpy m s t (Suc 0) = m(s := 0)"
| "safestrcpy m s t (Suc (Suc n)) =
     (let m' = m(s := m t)
      in if m t \<noteq> 0 then safestrcpy m' (s + 1) (t + 1) (Suc n) else m'(s + 1 := 0))"

partial_function (option) strlen :: "block \<Rightarrow> nat \<Rightarrow> nat option" where
  "strlen s n = (if s n = 0 then Some n else strlen s (n + 1))"

text \<open>The C string of a pointer, cut after \<open>n\<close> bytes.\<close>

definition bytes :: "block \<Rightarrow> nat \<Rightarrow> nat \<Rightarrow> byte list" where
  "bytes b k n = map (\<lambda>i. b (k + i)) [0..<n]"

definition cstr :: "block \<Rightarrow> nat \<Rightarrow> byte list" where
  "cstr p n = takeWhile (\<lambda>c. c \<noteq> 0) (bytes p 0 n)"

subsection \<open>Fills and copies\<close>

lemma stosb_fill: "stosb m a c n = fill m a n c"
  by (induction n arbitrary: m a) (simp_all add: fill_Suc)

lemma word_of_nat_low [simp]: "word_of_nat (unat c + 256 * x) = (c :: byte)"
  by (simp add: word_unat_eq_iff del: of_nat_add of_nat_mult)

lemma div_256_low [simp]: "(unat (c :: byte) + 256 * x) div 256 = x"
  using unat_byte [of c] by simp

lemma wr32_splat:
  "wr32 m a (unat c * 16777216 + unat c * 65536 + unat c * 256 + unat c) = fill m a 4 (c :: byte)"
proof -
  define x where "x = unat c + 256 * 0"
  define y where "y = unat c + 256 * x"
  define z where "z = unat c + 256 * y"
  define v where "v = unat c + 256 * z"
  have v: "unat c * 16777216 + unat c * 65536 + unat c * 256 + unat c = v"
    by (simp add: v_def z_def y_def x_def)
  have z: "v div 256 = z" unfolding v_def by (rule div_256_low)
  have y: "v div 65536 = y"
    using div_mult2_eq [of v 256 256] z div_256_low [of c y] by (simp add: z_def)
  have x: "v div 16777216 = x"
    using div_mult2_eq [of v 65536 256] y div_256_low [of c x] by (simp add: y_def)
  have w: "word_of_nat v = c" "word_of_nat z = c" "word_of_nat y = c" "word_of_nat x = c"
    unfolding v_def z_def y_def x_def by (rule word_of_nat_low)+
  show ?thesis
    unfolding v wr32_def z y x w by (rule ext) (auto simp: fill_def)
qed

lemma stosl_fill:
  "stosl m a (unat c * 16777216 + unat c * 65536 + unat c * 256 + unat c) n
     = fill m a (4 * n) (c :: byte)"
proof (induction n arbitrary: m a)
  case 0
  then show ?case by (auto simp: fill_def fun_eq_iff)
next
  case (Suc n)
  show ?case
    unfolding stosl.simps wr32_splat Suc by (auto simp: fill_def fun_eq_iff)
qed

lemma memset_fill: "memset m dst c n = fill m dst n c"
  unfolding memset_def Let_def stosb_fill stosl_fill by auto

lemma copy_up_blit:
  "d \<le> s \<or> s + n \<le> d \<Longrightarrow> copy_up m d s n = blit m d m s n"
proof (induction n arbitrary: m d s)
  case (Suc n)
  have "copy_up (m(d := m s)) (d + 1) (s + 1) n
      = blit (m(d := m s)) (d + 1) (m(d := m s)) (s + 1) n"
    using Suc.prems by (intro Suc.IH) auto
  also have "\<dots> = blit m d m s (Suc n)"
  proof
    fix i
    have "s + 1 + (i - (d + 1)) = s + (i - d)" if "d < i" using that by simp
    then show "blit (m(d := m s)) (d + 1) (m(d := m s)) (s + 1) n i = blit m d m s (Suc n) i"
      using Suc.prems by (cases "d < i") (auto simp: blit_def)
  qed
  finally show ?case by simp
qed simp

lemma copy_down_blit:
  "s \<le> d \<Longrightarrow> copy_down m (d + n) (s + n) n = blit m d m s n"
proof (induction n arbitrary: m)
  case (Suc n)
  have "copy_down m (d + Suc n) (s + Suc n) (Suc n)
      = copy_down (m(d + n := m (s + n))) (d + n) (s + n) n" by simp
  also have "\<dots> = blit (m(d + n := m (s + n))) d (m(d + n := m (s + n))) s n"
    using Suc.prems by (rule Suc.IH)
  also have "\<dots> = blit m d m s (Suc n)"
    using Suc.prems by (auto simp: blit_def fun_eq_iff)
  finally show ?case .
qed simp

lemma memmove_blit: "memmove m dst src n = blit m dst m src n"
proof (cases "src < dst \<and> src + n > dst")
  case True
  then show ?thesis by (simp add: memmove_def copy_down_blit)
next
  case False
  then have "copy_up m dst src n = blit m dst m src n" by (intro copy_up_blit) linarith
  with False show ?thesis by (auto simp: memmove_def)
qed

subsection \<open>Comparisons\<close>

lemma bytes_Suc: "bytes b k (Suc n) = b k # bytes b (k + 1) n"
  by (simp add: bytes_def map_upt_Suc del: upt_Suc)

lemma bytes_shift: "bytes (\<lambda>i. b (i + 1)) k n = bytes b (k + 1) n"
  by (simp add: bytes_def)

lemma length_bytes [simp]: "length (bytes b k n) = n"
  by (simp add: bytes_def)

lemma nth_bytes [simp]: "i < n \<Longrightarrow> bytes b k n ! i = b (k + i)"
  by (simp add: bytes_def)

lemma cstr_0 [simp]: "cstr p 0 = []"
  by (simp add: cstr_def bytes_def)

lemma cstr_Suc: "cstr p (Suc n) = (if p 0 = 0 then [] else p 0 # cstr (\<lambda>i. p (i + 1)) n)"
  using bytes_shift [of p 0 n] by (simp add: cstr_def bytes_Suc)

lemma byte_diff_0 [simp]: "int (unat a) - int (unat b) = 0 \<longleftrightarrow> (a :: byte) = b"
  by simp

lemma memcmp_bytes: "memcmp p q n = 0 \<longleftrightarrow> bytes p 0 n = bytes q 0 n"
proof (induction n arbitrary: p q)
  case (Suc n)
  then show ?case
    using bytes_shift [of p 0 n] bytes_shift [of q 0 n] by (simp add: bytes_Suc)
qed (simp add: bytes_def)

lemma strncmp_cstr: "strncmp p q n = 0 \<longleftrightarrow> cstr p n = cstr q n"
proof (induction n arbitrary: p q)
  case (Suc n)
  then show ?case by (auto simp: cstr_Suc)
qed simp

subsection \<open>String copies and length\<close>

lemma pad_zero_fill: "pad_zero m s n = fill m s n 0"
  by (induction n arbitrary: m s) (simp_all add: fill_Suc)

lemma strncpy_outside: "i < s \<or> s + n \<le> i \<Longrightarrow> strncpy m s t n i = m i"
  by (induction n arbitrary: m s t) (auto simp: Let_def pad_zero_fill)

lemma strncpy_bytes:
  assumes "s + n \<le> t \<or> t + n \<le> s"
  shows "bytes (strncpy m s t n) s n
     = (let c = cstr (\<lambda>i. m (t + i)) n in c @ replicate (n - length c) 0)"
  using assms
proof (induction n arbitrary: m s t)
  case 0
  then show ?case by (simp add: bytes_def)
next
  case (Suc n)
  let ?m = "m(s := m t)"
  have other: "(\<lambda>i. ?m (t + 1 + i)) 0 = m (t + 1 + 0)" if "0 < n"
    using Suc.prems that by auto
  have same: "cstr (\<lambda>i. ?m (t + 1 + i)) n = cstr (\<lambda>i. m (t + (i + 1))) n"
    unfolding cstr_def bytes_def using Suc.prems
    by (intro arg_cong [where f = "takeWhile _"] map_cong) auto
  have IH: "bytes (strncpy ?m (s + 1) (t + 1) n) (s + 1) n
      = (let c = cstr (\<lambda>i. ?m (t + 1 + i)) n in c @ replicate (n - length c) 0)"
    using Suc.prems by (intro Suc.IH) auto
  have z: "bytes (fill ?m (s + 1) n 0) (s + 1) n = replicate n 0"
    by (rule nth_equalityI) auto
  show ?case
    using IH same z
    by (auto simp: Let_def bytes_Suc cstr_Suc pad_zero_fill strncpy_outside)
qed

lemma safestrcpy_outside: "i < s \<or> s + n \<le> i \<Longrightarrow> safestrcpy m s t n i = m i"
  by (induction m s t n rule: safestrcpy.induct) (auto simp: Let_def)

lemma cstr_cong: "(\<And>i. i < n \<Longrightarrow> p i = q i) \<Longrightarrow> cstr p n = cstr q n"
proof -
  assume "\<And>i. i < n \<Longrightarrow> p i = q i"
  then have "bytes p 0 n = bytes q 0 n" by (auto simp: bytes_def)
  then show ?thesis by (simp add: cstr_def)
qed

lemma safestrcpy_cstr:
  assumes "0 < n" "s + n \<le> t \<or> t + n \<le> s"
  shows "cstr (\<lambda>i. safestrcpy m s t n (s + i)) n = cstr (\<lambda>i. m (t + i)) (n - 1)"
  using assms
proof (induction m s t n rule: safestrcpy.induct)
  case (3 m s t n)
  let ?m = "m(s := m t)"
  show ?case
  proof (cases "m t = 0")
    case True
    then show ?thesis by (simp add: cstr_Suc)
  next
    case False
    have at: "safestrcpy ?m (Suc s) (Suc t) (Suc n) s = m t"
      by (simp add: safestrcpy_outside)
    have "cstr (\<lambda>i. safestrcpy ?m (s + 1) (t + 1) (Suc n) (s + 1 + i)) (Suc n)
        = cstr (\<lambda>i. ?m (t + 1 + i)) (Suc n - 1)"
      using False "3.prems" by (intro "3.IH") auto
    also have "\<dots> = cstr (\<lambda>i. m (t + 1 + i)) n"
      using "3.prems" by (auto intro: cstr_cong)
    finally show ?thesis
      using False at by (simp add: Let_def cstr_Suc [of _ "Suc n"] cstr_Suc [of _ n])
  qed
qed (auto simp: cstr_Suc)

lemma strlen_first_nul:
  assumes "s (n + k) = 0" "\<And>i. i < k \<Longrightarrow> s (n + i) \<noteq> 0"
  shows "strlen s n = Some (n + k)"
  using assms
proof (induction k arbitrary: n)
  case 0
  then show ?case by (simp add: strlen.simps)
next
  case (Suc k)
  have "s n \<noteq> 0" using Suc.prems(2) [of 0] by simp
  moreover have "s (n + 1 + i) \<noteq> 0" if "i < k" for i
    using Suc.prems(2) [of "Suc i"] that by simp
  then have "strlen s (n + 1) = Some (n + 1 + k)"
    using Suc.prems(1) by (intro Suc.IH) auto
  ultimately show ?case by (simp add: strlen.simps [of s n])
qed

end
