(* ===== verification/Vfs.thy ===== *)
theory Vfs
  imports Ext2 CString
begin

section \<open>Inode operations of both file systems (vfs.h, fs.c, ext2fs.c)\<close>

text \<open>
  The operations the two tables \<open>inbuiltfs_iops\<close> and \<open>ext2fs_iops\<close> hold, with the indirect calls
  through \<open>ip->file_type->iops\<close>. A call through a null \<open>file_type\<close> is the fault \<open>Undef\<close>.
\<close>

text \<open>The indirect call: the first argument is the entry of \<open>inbuiltfs_iops\<close>, the second that of
  \<open>ext2fs_iops\<close>.\<close>

definition iops :: "('z fstate_scheme, 'a) kern \<Rightarrow> ('z fstate_scheme, 'a) kern \<Rightarrow> nat \<Rightarrow> ('z fstate_scheme, 'a) kern" where
  "iops f g ip = (\<lambda>s. case i_file_type (inodes s ip) of
       None \<Rightarrow> Inl (Undef ''ip->file_type'')
     | Some Inbuiltfs \<Rightarrow> f s
     | Some Ext2fs \<Rightarrow> g s)"

definition iops_iupdate :: "nat \<Rightarrow> ('z fstate_scheme, unit) kern" where
  "iops_iupdate ip = iops (iupdate ip) (ext2_iupdate ip) ip"

definition iops_ilock :: "nat \<Rightarrow> ('z fstate_scheme, unit) kern" where
  "iops_ilock ip = iops (ilock ip) (ext2_ilock ip) ip"

definition iops_iunlock :: "nat \<Rightarrow> ('z fstate_scheme, unit) kern" where
  "iops_iunlock ip = iops (iunlock ip) (iunlock ip) ip"

text \<open>Words of a held buffer, as \<open>a[i]\<close> with \<open>uint *a = (uint*)bp->data\<close>.\<close>

definition load_word :: "nat \<Rightarrow> nat \<Rightarrow> ('z bstate_scheme, nat) kern" where
  "load_word bp i = (\<lambda>s. if i < NINDIRECT then Inr (rd32 (b_data (bufs s bp)) (4 * i), s)
     else Inl (Undef ''bp->data''))"

definition store_word :: "nat \<Rightarrow> nat \<Rightarrow> nat \<Rightarrow> ('z bstate_scheme, unit) kern" where
  "store_word bp i v = (\<lambda>s. if i < NINDIRECT then bmod bp (\<lambda>d. wr32 d (4 * i) v) s
     else Inl (Undef ''bp->data''))"

subsection \<open>The blocks of a file\<close>

definition bmap :: "nat \<Rightarrow> nat \<Rightarrow> ('z fstate_scheme, nat) kern" where
  "bmap ip bn = (\<lambda>s. let dev = i_dev (inodes s ip) in
     (if bn < NDIRECT then
        bnd (get_addr ip bn) (\<lambda>addr.
        if addr = 0 then bnd (balloc dev) (\<lambda>addr. bnd (set_addr ip bn addr) (\<lambda>_. ret addr)) else ret addr)
      else if bn - NDIRECT < NINDIRECT then
        bnd (get_addr ip NDIRECT) (\<lambda>addr.
        bnd (if addr = 0 then bnd (balloc dev) (\<lambda>addr. bnd (set_addr ip NDIRECT addr) (\<lambda>_. ret addr)) else ret addr) (\<lambda>addr.
        bnd (bread dev addr) (\<lambda>bp.
        bnd (load_word bp (bn - NDIRECT)) (\<lambda>addr.
        bnd (if addr = 0 then
               bnd (balloc dev) (\<lambda>addr.
               bnd (store_word bp (bn - NDIRECT) addr) (\<lambda>_.
               bnd (log_write bp) (\<lambda>_. ret addr)))
             else ret addr) (\<lambda>addr.
        bnd (brelse bp) (\<lambda>_. ret addr))))))
      else panic ''bmap: out of range'') s)"

text \<open>\<open>k\<close> rounds of the loop over the direct addresses, from \<open>i\<close> on.\<close>

fun itrunc_direct :: "nat \<Rightarrow> nat \<Rightarrow> nat \<Rightarrow> ('z fstate_scheme, unit) kern" where
  "itrunc_direct ip i 0 = ret ()"
| "itrunc_direct ip i (Suc k) =
     bnd (get_addr ip i) (\<lambda>a.
     bnd (if a \<noteq> 0 then bnd (\<lambda>s. bfree (i_dev (inodes s ip)) a s) (\<lambda>_. set_addr ip i 0) else ret ()) (\<lambda>_.
     itrunc_direct ip (i + 1) k))"

fun itrunc_indirect :: "nat \<Rightarrow> nat \<Rightarrow> nat \<Rightarrow> nat \<Rightarrow> ('z fstate_scheme, unit) kern" where
  "itrunc_indirect ip bp j 0 = ret ()"
| "itrunc_indirect ip bp j (Suc k) =
     bnd (load_word bp j) (\<lambda>a.
     bnd (if a \<noteq> 0 then \<lambda>s. bfree (i_dev (inodes s ip)) a s else ret ()) (\<lambda>_.
     itrunc_indirect ip bp (j + 1) k))"

definition itrunc :: "nat \<Rightarrow> ('z fstate_scheme, unit) kern" where
  "itrunc ip =
     bnd (itrunc_direct ip 0 NDIRECT) (\<lambda>_.
     bnd (get_addr ip NDIRECT) (\<lambda>a.
     bnd (if a \<noteq> 0 then
            bnd (\<lambda>s. bread (i_dev (inodes s ip)) a s) (\<lambda>bp.
            bnd (itrunc_indirect ip bp 0 NINDIRECT) (\<lambda>_.
            bnd (brelse bp) (\<lambda>_.
            bnd (get_addr ip NDIRECT) (\<lambda>a.
            bnd (\<lambda>s. bfree (i_dev (inodes s ip)) a s) (\<lambda>_.
            set_addr ip NDIRECT 0)))))
          else ret ()) (\<lambda>_.
     bnd (upd (seti ip (\<lambda>x. x\<lparr>i_size := 0\<rparr>))) (\<lambda>_.
     iops_iupdate ip))))"

text \<open>\<open>ad->busy = 0\<close> through the pointer \<open>iput\<close> read on entry.\<close>

definition clear_busy :: "addrs_ptr \<Rightarrow> ('z fstate_scheme, unit) kern" where
  "clear_busy p = (case p of
       ANull \<Rightarrow> fail (Undef ''ad->busy'')
     | AInb j \<Rightarrow> upd (\<lambda>s. s\<lparr>addrs := (addrs s)(j := (addrs s j)\<lparr>a_busy := False\<rparr>)\<rparr>)
     | AExt j \<Rightarrow> upd (\<lambda>s. s\<lparr>ext2_addrs := (ext2_addrs s)(j := (ext2_addrs s j)\<lparr>a_busy := False\<rparr>)\<rparr>))"

definition release_inode :: "nat \<Rightarrow> 'z fstate_scheme \<Rightarrow> 'z fstate_scheme" where
  "release_inode ip = seti ip (\<lambda>x. x\<lparr>i_lock := releasesleep (i_lock x)\<rparr>)"

definition iput :: "nat \<Rightarrow> ('z fstate_scheme, unit) kern" where
  "iput ip =
     bnd (acquire_inode ip) (\<lambda>_.
     bnd (gets (\<lambda>s. inodes s ip)) (\<lambda>x.
     bnd (if i_valid x \<and> i_nlink x = 0 \<and> i_ref x = 1 then
            bnd (itrunc ip) (\<lambda>_.
            bnd (upd (seti ip (\<lambda>x. x\<lparr>i_type := 0\<rparr>))) (\<lambda>_.
            bnd (iops_iupdate ip) (\<lambda>_.
            upd (seti ip (\<lambda>x. x\<lparr>i_valid := False, i_file_type := None, i_addrs := ANull\<rparr>)))))
          else ret ()) (\<lambda>_.
     bnd (upd (release_inode ip)) (\<lambda>_.
     bnd (upd (seti ip (\<lambda>x. x\<lparr>i_ref := i_ref x - 1\<rparr>))) (\<lambda>_ s.
     if i_ref (inodes s ip) = 0 then
       bnd (clear_busy (i_addrs x)) (\<lambda>_. upd (seti ip (\<lambda>x. x\<lparr>i_addrs := ANull\<rparr>))) s
     else Inr ((), s))))))"

text \<open>An entry of an address array or of an indirect block, allocated when it is still zero; the
  indirect block is changed in memory only.\<close>

definition ext2_addr :: "nat \<Rightarrow> nat \<Rightarrow> ('z fstate_scheme, nat) kern" where
  "ext2_addr ip i =
     bnd (get_addr ip i) (\<lambda>addr.
     if addr = 0 then
       bnd (\<lambda>s. ext2_balloc (i_dev (inodes s ip)) (i_inum (inodes s ip)) s) (\<lambda>addr.
       bnd (set_addr ip i addr) (\<lambda>_. ret addr))
     else ret addr)"

definition ext2_entry :: "nat \<Rightarrow> nat \<Rightarrow> nat \<Rightarrow> ('z fstate_scheme, nat) kern" where
  "ext2_entry ip bp i =
     bnd (load_word bp i) (\<lambda>addr.
     if addr = 0 then
       bnd (\<lambda>s. ext2_balloc (i_dev (inodes s ip)) (i_inum (inodes s ip)) s) (\<lambda>addr.
       bnd (store_word bp i addr) (\<lambda>_. ret addr))
     else ret addr)"

text \<open>In the double and triple indirect cases the code reads the first indirect block again where
  it means the second and third: all of \<open>a\<close>, \<open>b\<close> and \<open>c\<close> point at \<open>bp->data\<close>.\<close>

definition ext2_bmap :: "nat \<Rightarrow> nat \<Rightarrow> ('z fstate_scheme, nat) kern" where
  "ext2_bmap ip bn = (\<lambda>s. let dev = i_dev (inodes s ip); bn1 = bn - EXT2_NDIR_BLOCKS;
       bn2 = bn1 - NINDIRECT1; bn3 = bn2 - NDINDIRECT in
     (if bn < EXT2_NDIR_BLOCKS then ext2_addr ip bn
      else if bn1 < NINDIRECT1 then
        bnd (ext2_addr ip EXT2_IND_BLOCK) (\<lambda>addr.
        bnd (bread dev addr) (\<lambda>bp.
        bnd (ext2_entry ip bp bn1) (\<lambda>addr.
        bnd (brelse bp) (\<lambda>_. ret addr))))
      else if bn2 < NDINDIRECT then
        bnd (ext2_addr ip EXT2_DIND_BLOCK) (\<lambda>addr.
        bnd (bread dev addr) (\<lambda>bp.
        bnd (ext2_entry ip bp (bn2 div NINDIRECT1)) (\<lambda>addr.
        bnd (bread dev addr) (\<lambda>bp1.
        bnd (ext2_entry ip bp (bn2 div NINDIRECT1)) (\<lambda>addr.
        bnd (brelse bp1) (\<lambda>_.
        bnd (brelse bp) (\<lambda>_. ret addr)))))))
      else if bn3 < NTINDIRECT then
        bnd (ext2_addr ip EXT2_TIND_BLOCK) (\<lambda>addr.
        bnd (bread dev addr) (\<lambda>bp.
        bnd (ext2_entry ip bp (bn3 div NINDIRECT1)) (\<lambda>addr.
        bnd (bread dev addr) (\<lambda>bp1.
        bnd (ext2_entry ip bp (bn3 div NINDIRECT1)) (\<lambda>addr.
        bnd (bread dev addr) (\<lambda>bp2.
        bnd (ext2_entry ip bp (bn3 div NINDIRECT1)) (\<lambda>addr.
        bnd (brelse bp2) (\<lambda>_.
        bnd (brelse bp1) (\<lambda>_.
        bnd (brelse bp) (\<lambda>_. ret addr))))))))))
      else panic ''bmap: out of range'') s)"

text \<open>The loops of \<open>ext2_itrunc\<close>, with the number of rounds left as the last argument. Every
  \<open>a[j]\<close>, \<open>b[i]\<close>, \<open>c[k]\<close> is read again from the buffer where the code reads it again.\<close>

definition ext2_bfree_of :: "nat \<Rightarrow> nat \<Rightarrow> ('z fstate_scheme, unit) kern" where
  "ext2_bfree_of ip b = (\<lambda>s. ext2_bfree (i_dev (inodes s ip)) b s)"

definition bread_of :: "nat \<Rightarrow> nat \<Rightarrow> ('z fstate_scheme, nat) kern" where
  "bread_of ip b = (\<lambda>s. bread (i_dev (inodes s ip)) b s)"

fun ext2_trunc_direct :: "nat \<Rightarrow> nat \<Rightarrow> nat \<Rightarrow> ('z fstate_scheme, unit) kern" where
  "ext2_trunc_direct ip i 0 = ret ()"
| "ext2_trunc_direct ip i (Suc n) =
     bnd (get_addr ip i) (\<lambda>a.
     bnd (if a \<noteq> 0 then bnd (ext2_bfree_of ip a) (\<lambda>_. set_addr ip i 0) else ret ()) (\<lambda>_.
     ext2_trunc_direct ip (i + 1) n))"

fun ext2_trunc_words :: "nat \<Rightarrow> nat \<Rightarrow> nat \<Rightarrow> nat \<Rightarrow> ('z fstate_scheme, unit) kern" where
  "ext2_trunc_words ip bp j 0 = ret ()"
| "ext2_trunc_words ip bp j (Suc n) =
     bnd (load_word bp j) (\<lambda>a.
     bnd (if a \<noteq> 0 then bnd (ext2_bfree_of ip a) (\<lambda>_. store_word bp j 0) else ret ()) (\<lambda>_.
     ext2_trunc_words ip bp (j + 1) n))"

fun ext2_trunc_double :: "nat \<Rightarrow> nat \<Rightarrow> nat \<Rightarrow> nat \<Rightarrow> ('z fstate_scheme, unit) kern" where
  "ext2_trunc_double ip bp j 0 = ret ()"
| "ext2_trunc_double ip bp j (Suc n) =
     bnd (load_word bp j) (\<lambda>a.
     bnd (if a \<noteq> 0 then
            bnd (bread_of ip a) (\<lambda>bp1.
            bnd (ext2_trunc_words ip bp 0 NINDIRECT1) (\<lambda>_.
            bnd (brelse bp1) (\<lambda>_.
            bnd (load_word bp j) (\<lambda>a.
            bnd (ext2_bfree_of ip a) (\<lambda>_.
            store_word bp j 0)))))
          else ret ()) (\<lambda>_.
     ext2_trunc_double ip bp (j + 1) n))"

fun ext2_trunc_triple_in :: "nat \<Rightarrow> nat \<Rightarrow> nat \<Rightarrow> nat \<Rightarrow> nat \<Rightarrow> nat \<Rightarrow> ('z fstate_scheme, unit) kern" where
  "ext2_trunc_triple_in ip bp j bp1 i 0 = ret ()"
| "ext2_trunc_triple_in ip bp j bp1 i (Suc n) =
     bnd (load_word bp1 i) (\<lambda>b.
     bnd (if b \<noteq> 0 then
            bnd (load_word bp j) (\<lambda>a.
            bnd (bread_of ip a) (\<lambda>bp2.
            bnd (ext2_trunc_words ip bp2 0 NINDIRECT1) (\<lambda>_.
            bnd (brelse bp2) (\<lambda>_.
            bnd (load_word bp1 i) (\<lambda>b.
            bnd (ext2_bfree_of ip b) (\<lambda>_.
            store_word bp1 i 0))))))
          else ret ()) (\<lambda>_.
     ext2_trunc_triple_in ip bp j bp1 (i + 1) n))"

fun ext2_trunc_triple :: "nat \<Rightarrow> nat \<Rightarrow> nat \<Rightarrow> nat \<Rightarrow> ('z fstate_scheme, unit) kern" where
  "ext2_trunc_triple ip bp j 0 = ret ()"
| "ext2_trunc_triple ip bp j (Suc n) =
     bnd (load_word bp j) (\<lambda>a.
     bnd (if a \<noteq> 0 then
            bnd (bread_of ip a) (\<lambda>bp1.
            bnd (ext2_trunc_triple_in ip bp j bp1 0 NINDIRECT1) (\<lambda>_.
            bnd (brelse bp1) (\<lambda>_.
            bnd (load_word bp j) (\<lambda>a.
            bnd (ext2_bfree_of ip a) (\<lambda>_.
            store_word bp j 0)))))
          else ret ()) (\<lambda>_.
     ext2_trunc_triple ip bp (j + 1) n))"

text \<open>One indirect tree: read the block at entry \<open>r\<close>, run the loop over it, free the block at entry
  \<open>r\<close> and clear entry \<open>i\<close>.\<close>

definition ext2_trunc_tree ::
    "nat \<Rightarrow> nat \<Rightarrow> nat \<Rightarrow> (nat \<Rightarrow> ('z fstate_scheme, unit) kern) \<Rightarrow> ('z fstate_scheme, unit) kern" where
  "ext2_trunc_tree ip r i body =
     bnd (get_addr ip r) (\<lambda>a.
     bnd (bread_of ip a) (\<lambda>bp.
     bnd (body bp) (\<lambda>_.
     bnd (brelse bp) (\<lambda>_.
     bnd (get_addr ip r) (\<lambda>a.
     bnd (ext2_bfree_of ip a) (\<lambda>_.
     set_addr ip i 0))))))"

definition ext2_itrunc :: "nat \<Rightarrow> ('z fstate_scheme, unit) kern" where
  "ext2_itrunc ip =
     bnd (ext2_trunc_direct ip 0 EXT2_NDIR_BLOCKS) (\<lambda>_.
     bnd (get_addr ip EXT2_IND_BLOCK) (\<lambda>a.
     bnd (if a \<noteq> 0 then ext2_trunc_tree ip EXT2_IND_BLOCK EXT2_IND_BLOCK
            (\<lambda>bp. ext2_trunc_words ip bp 0 NINDIRECT1) else ret ()) (\<lambda>_.
     bnd (get_addr ip EXT2_DIND_BLOCK) (\<lambda>a.
     bnd (if a \<noteq> 0 then ext2_trunc_tree ip EXT2_DIND_BLOCK EXT2_DIND_BLOCK
            (\<lambda>bp. ext2_trunc_double ip bp 0 NINDIRECT1) else ret ()) (\<lambda>_.
     bnd (get_addr ip EXT2_TIND_BLOCK) (\<lambda>a.
     if a \<noteq> 0 then
       bnd (ext2_trunc_tree ip EXT2_DIND_BLOCK EXT2_TIND_BLOCK (\<lambda>bp. ext2_trunc_triple ip bp 0 NINDIRECT1)) (\<lambda>_.
       bnd (upd (seti ip (\<lambda>x. x\<lparr>i_size := 0\<rparr>))) (\<lambda>_.
       iops_iupdate ip))
     else ret ()))))))"

definition ext2_iput :: "nat \<Rightarrow> ('z fstate_scheme, unit) kern" where
  "ext2_iput ip =
     bnd (gets (\<lambda>s. i_addrs (inodes s ip))) (\<lambda>ad.
     bnd (acquire_inode ip) (\<lambda>_.
     bnd (gets (\<lambda>s. inodes s ip)) (\<lambda>x.
     bnd (if i_valid x \<and> i_nlink x = 0 \<and> i_ref x = 1 then
            bnd (ext2_ifree ip) (\<lambda>_.
            bnd (ext2_itrunc ip) (\<lambda>_.
            bnd (upd (seti ip (\<lambda>x. x\<lparr>i_type := 0, i_size := 0\<rparr>))) (\<lambda>_.
            bnd (iops_iupdate ip) (\<lambda>_.
            upd (seti ip (\<lambda>x. x\<lparr>i_valid := False, i_file_type := None\<rparr>))))))
          else ret ()) (\<lambda>_.
     bnd (upd (release_inode ip)) (\<lambda>_.
     bnd (upd (seti ip (\<lambda>x. x\<lparr>i_ref := i_ref x - 1\<rparr>))) (\<lambda>_ s.
     if i_ref (inodes s ip) = 0 then
       bnd (clear_busy ad) (\<lambda>_. upd (seti ip (\<lambda>x. x\<lparr>i_file_type := None\<rparr>))) s
     else Inr ((), s)))))))"

definition iops_iput :: "nat \<Rightarrow> ('z fstate_scheme, unit) kern" where
  "iops_iput ip = iops (iput ip) (ext2_iput ip) ip"

definition iunlockput :: "nat \<Rightarrow> ('z fstate_scheme, unit) kern" where
  "iunlockput ip = bnd (iops_iunlock ip) (\<lambda>_. iops_iput ip)"

definition iops_iunlockput :: "nat \<Rightarrow> ('z fstate_scheme, unit) kern" where
  "iops_iunlockput ip = iops (iunlockput ip) (iunlockput ip) ip"

subsection \<open>The console as a device (console.c)\<close>

text \<open>A read gives the returned count and the bytes stored at \<open>dst\<close>.\<close>

definition consoleread :: "nat \<Rightarrow> nat \<Rightarrow> ('z fstate_scheme, int \<times> byte list) kern" where
  "consoleread ip n =
     bnd (iops_iunlock ip) (\<lambda>_.
     bnd (\<lambda>s. case console_get (cur_killed s) n n (cons s) of
            Inl e \<Rightarrow> Inl e | Inr (r, c) \<Rightarrow> Inr (r, s\<lparr>cons := c\<rparr>)) (\<lambda>r.
     bnd (iops_ilock ip) (\<lambda>_.
     ret (case r of None \<Rightarrow> (-1, []) | Some cs \<Rightarrow> (int (length cs), cs)))))"

definition consolewrite :: "nat \<Rightarrow> byte list \<Rightarrow> ('z fstate_scheme, int) kern" where
  "consolewrite ip cs =
     bnd (iops_iunlock ip) (\<lambda>_.
     bnd (\<lambda>s. case consputs (map unat cs) (cons s) of
            Inl e \<Rightarrow> Inl e | Inr c \<Rightarrow> Inr ((), s\<lparr>cons := c\<rparr>)) (\<lambda>_.
     bnd (iops_ilock ip) (\<lambda>_.
     ret (int (length cs)))))"

text \<open>\<open>devsw\<close>: \<open>consoleinit\<close> fills the entry of the console and no other.\<close>

definition devsw_set :: "int \<Rightarrow> bool" where
  "devsw_set major \<longleftrightarrow> 0 \<le> major \<and> major < NDEV \<and> major = CONSOLE"

subsection \<open>Reading and writing a file\<close>

record stat =
  st_type :: int
  st_dev :: nat
  st_ino :: nat
  st_nlink :: int
  st_size :: nat

definition stati :: "inode \<Rightarrow> stat" where
  "stati x = \<lparr>st_type = i_type x, st_dev = i_dev x, st_ino = i_inum x, st_nlink = i_nlink x, st_size = i_size x\<rparr>"

text \<open>The loops of \<open>readi\<close> and \<open>writei\<close> with \<open>n\<close> bytes to go. Both files have the same loops, around
  their own \<open>bmap\<close> (the parameter \<open>bm\<close>) and, for writing, around \<open>log_write\<close> or \<open>bwrite\<close>
  (the parameter \<open>wr\<close>).\<close>

function readi_loop ::
    "(nat \<Rightarrow> ('z fstate_scheme, nat) kern) \<Rightarrow> nat \<Rightarrow> nat \<Rightarrow> nat \<Rightarrow> ('z fstate_scheme, byte list) kern" where
  "readi_loop bm ip off n =
     (if n = 0 then ret []
      else (let m = min n (BSIZE - off mod BSIZE) in
        bnd (bm (off div BSIZE)) (\<lambda>addr.
        bnd (bread_of ip addr) (\<lambda>bp.
        bnd (gets (\<lambda>s. bytes (b_data (bufs s bp)) (off mod BSIZE) m)) (\<lambda>x.
        bnd (brelse bp) (\<lambda>_.
        bnd (readi_loop bm ip (off + m) (n - m)) (\<lambda>y.
        ret (x @ y))))))))"
  by pat_completeness auto
termination
  by (relation "measure (\<lambda>(bm, ip, off, n). n)") (auto simp: min_def const_defs)

function writei_loop ::
    "(nat \<Rightarrow> ('z fstate_scheme, nat) kern) \<Rightarrow> (nat \<Rightarrow> ('z fstate_scheme, unit) kern) \<Rightarrow> nat \<Rightarrow> block \<Rightarrow> nat \<Rightarrow> nat \<Rightarrow> nat
       \<Rightarrow> ('z fstate_scheme, unit) kern" where
  "writei_loop bm wr ip src tot off n =
     (if n = 0 then ret ()
      else (let m = min n (BSIZE - off mod BSIZE) in
        bnd (bm (off div BSIZE)) (\<lambda>addr.
        bnd (bread_of ip addr) (\<lambda>bp.
        bnd (bmod bp (\<lambda>d. blit d (off mod BSIZE) src tot m)) (\<lambda>_.
        bnd (wr bp) (\<lambda>_.
        bnd (brelse bp) (\<lambda>_.
        writei_loop bm wr ip src (tot + m) (off + m) (n - m))))))))"
  by pat_completeness auto
termination
  by (relation "measure (\<lambda>(bm, wr, ip, src, tot, off, n). n)") (auto simp: min_def const_defs)

declare readi_loop.simps [simp del] writei_loop.simps [simp del]

definition readi :: "nat \<Rightarrow> nat \<Rightarrow> nat \<Rightarrow> ('z fstate_scheme, int \<times> byte list) kern" where
  "readi ip off n = (\<lambda>s. let x = inodes s ip in
     (if i_type x = T_DEV then
        (if devsw_set (i_major x) then consoleread ip n else ret (-1, []))
      else if off > i_size x \<or> u32 (off + n) < off then ret (-1, [])
      else (let n = (if u32 (off + n) > i_size x then i_size x - off else n) in
        bnd (readi_loop (bmap ip) ip off n) (\<lambda>bs. ret (s32 n, bs)))) s)"

definition writei :: "nat \<Rightarrow> block \<Rightarrow> nat \<Rightarrow> nat \<Rightarrow> ('z fstate_scheme, int) kern" where
  "writei ip src off n = (\<lambda>s. let x = inodes s ip in
     (if i_type x = T_DEV then
        (if devsw_set (i_major x) then consolewrite ip (bytes src 0 n) else ret (-1))
      else if off > i_size x \<or> u32 (off + n) < off then ret (-1)
      else if u32 (off + n) > MAXFILE * BSIZE then ret (-1)
      else
        bnd (writei_loop (bmap ip) log_write ip src 0 off n) (\<lambda>_.
        bnd (\<lambda>s. if n > 0 \<and> off + n > i_size (inodes s ip) then
               bnd (upd (seti ip (\<lambda>x. x\<lparr>i_size := off + n\<rparr>))) (\<lambda>_. iops_iupdate ip) s
             else Inr ((), s)) (\<lambda>_.
        ret (s32 n)))) s)"

definition ext2_readi :: "nat \<Rightarrow> nat \<Rightarrow> nat \<Rightarrow> ('z fstate_scheme, int \<times> byte list) kern" where
  "ext2_readi ip off n = (\<lambda>s. let x = inodes s ip in
     (if i_type x = T_DEV then
        (if devsw_set (i_major x) then consoleread ip n else ret (-1, []))
      else if off > i_size x \<or> u32 (off + n) < off then ret (-1, [])
      else (let n = (if u32 (off + n) > i_size x then i_size x - off else n) in
        bnd (readi_loop (ext2_bmap ip) ip off n) (\<lambda>bs. ret (s32 n, bs)))) s)"

text \<open>The bound \<open>EXT2_MAXFILE * BSIZE\<close> is computed in 32 bits.\<close>

definition ext2_writei :: "nat \<Rightarrow> block \<Rightarrow> nat \<Rightarrow> nat \<Rightarrow> ('z fstate_scheme, int) kern" where
  "ext2_writei ip src off n = (\<lambda>s. let x = inodes s ip in
     (if i_type x = T_DEV then
        (if devsw_set (i_major x) then consolewrite ip (bytes src 0 n) else ret (-1))
      else if off > i_size x \<or> u32 (off + n) < off then ret (-1)
      else if u32 (off + n) > u32 (EXT2_MAXFILE * BSIZE) then ret (-1)
      else
        bnd (writei_loop (ext2_bmap ip) bwrite ip src 0 off n) (\<lambda>_.
        bnd (\<lambda>s. if n > 0 \<and> off + n > i_size (inodes s ip) then
               bnd (upd (seti ip (\<lambda>x. x\<lparr>i_size := off + n\<rparr>))) (\<lambda>_. iops_iupdate ip) s
             else Inr ((), s)) (\<lambda>_.
        ret (s32 n)))) s)"

definition iops_readi :: "nat \<Rightarrow> nat \<Rightarrow> nat \<Rightarrow> ('z fstate_scheme, int \<times> byte list) kern" where
  "iops_readi ip off n = iops (readi ip off n) (ext2_readi ip off n) ip"

definition iops_writei :: "nat \<Rightarrow> block \<Rightarrow> nat \<Rightarrow> nat \<Rightarrow> ('z fstate_scheme, int) kern" where
  "iops_writei ip src off n = iops (writei ip src off n) (ext2_writei ip src off n) ip"

end
