(* ===== verification/Dir.thy ===== *)
theory Dir
  imports Vfs
begin

section \<open>Directories and path names (fs.c, ext2fs.c, sysfile.c)\<close>

text \<open>
  Directory entries of both formats, the search and the insertion of a name, and the walk of a path.
  A C object is a \<open>block\<close>; a path is the list of its bytes before the terminating zero.
\<close>

subsection \<open>Objects\<close>

text \<open>The object after the bytes \<open>bs\<close> were stored at its start.\<close>

definition put_bytes :: "block \<Rightarrow> byte list \<Rightarrow> block" where
  "put_bytes d bs = (\<lambda>i. if i < length bs then bs ! i else d i)"

definition c_string :: "byte list \<Rightarrow> block" where
  "c_string bs = put_bytes (\<lambda>_. 0) bs"

text \<open>\<open>strncpy\<close> between two objects: the source lies behind the destination.\<close>

definition strncpy_to :: "block \<Rightarrow> nat \<Rightarrow> block \<Rightarrow> nat \<Rightarrow> block" where
  "strncpy_to d k src n = (\<lambda>i. if i < k + n then strncpy (\<lambda>j. if j < k + n then d j else src (j - (k + n))) k (k + n) n i else d i)"

definition sizeof_dirent :: nat where [const_defs]: "sizeof_dirent = 16"
definition sizeof_ext2_dirent :: nat where [const_defs]: "sizeof_ext2_dirent = 264"

subsection \<open>Native directories\<close>

definition namecmp :: "block \<Rightarrow> block \<Rightarrow> int" where
  "namecmp s t = strncmp s t DIRSIZ"

definition ext2_namecmp :: "block \<Rightarrow> block \<Rightarrow> int" where
  "ext2_namecmp s t = strncmp s t EXT2_NAME_LEN"

definition iops_namecmp :: "nat \<Rightarrow> block \<Rightarrow> block \<Rightarrow> ('z fstate_scheme, int) kern" where
  "iops_namecmp ip s t = iops (ret (namecmp s t)) (ret (ext2_namecmp s t)) ip"

text \<open>A full entry read at \<open>off\<close>, or the panic of the caller.\<close>

definition read_entry :: "string \<Rightarrow> nat \<Rightarrow> nat \<Rightarrow> nat \<Rightarrow> ('z fstate_scheme, byte list) kern" where
  "read_entry msg sz dp off =
     bnd (iops_readi dp off sz) (\<lambda>(r, bs). if r \<noteq> int sz then panic msg else ret bs)"

function dirlookup_loop :: "nat \<Rightarrow> block \<Rightarrow> nat \<Rightarrow> nat \<Rightarrow> ('z fstate_scheme, (nat \<times> nat) option) kern" where
  "dirlookup_loop dp name sz off =
     (if off < sz then
        bnd (read_entry ''dirlookup read'' sizeof_dirent dp off) (\<lambda>bs.
        let de = c_string bs; inum = rd16 de 0 in
        if inum = 0 then dirlookup_loop dp name sz (off + sizeof_dirent)
        else bnd (iops_namecmp dp name (\<lambda>i. de (2 + i))) (\<lambda>r.
          if r = 0 then bnd (\<lambda>s. iget (i_dev (inodes s dp)) inum s) (\<lambda>ip. ret (Some (ip, off)))
          else dirlookup_loop dp name sz (off + sizeof_dirent)))
      else ret None)"
  by pat_completeness auto
termination
  by (relation "measure (\<lambda>(dp, name, sz, off). sz - off)") (auto simp: const_defs)

declare dirlookup_loop.simps [simp del]

definition dirlookup :: "nat \<Rightarrow> block \<Rightarrow> ('z fstate_scheme, (nat \<times> nat) option) kern" where
  "dirlookup dp name = (\<lambda>s. if i_type (inodes s dp) \<noteq> T_DIR then Inl (Panic ''dirlookup not DIR'')
     else dirlookup_loop dp name (i_size (inodes s dp)) 0 s)"

subsection \<open>ext2 directories\<close>

text \<open>A record of length 0 makes each of these loops read the same record for ever.\<close>

function ext2_dirlookup_loop :: "nat \<Rightarrow> block \<Rightarrow> nat \<Rightarrow> nat \<Rightarrow> ('z fstate_scheme, (nat \<times> nat) option) kern" where
  "ext2_dirlookup_loop dp name sz off =
     (if off < sz then
        bnd (read_entry ''dirlookup read'' sizeof_ext2_dirent dp off) (\<lambda>bs.
        let de = c_string bs; inum = rd32 de 0; rec_len = rd16 de 4; name_len = unat (de 6);
            next_rec = (if rec_len = 0 then fail (Blocked ''ext2_dirlookup'')
                        else ext2_dirlookup_loop dp name sz (off + rec_len)) in
        if inum = 0 then next_rec
        else (let fname = (strncpy_to (\<lambda>_. 0) 0 (\<lambda>i. de (8 + i)) name_len)(name_len := 0) in
          bnd (iops_namecmp dp name fname) (\<lambda>r.
          if r = 0 then bnd (\<lambda>s. ext2_iget (i_dev (inodes s dp)) inum s) (\<lambda>ip. ret (Some (ip, off)))
          else next_rec)))
      else ret None)"
  by pat_completeness auto
termination
  by (relation "measure (\<lambda>(dp, name, sz, off). sz - off)") auto

declare ext2_dirlookup_loop.simps [simp del]

definition ext2_dirlookup :: "nat \<Rightarrow> block \<Rightarrow> ('z fstate_scheme, (nat \<times> nat) option) kern" where
  "ext2_dirlookup dp name = (\<lambda>s. ext2_dirlookup_loop dp name (i_size (inodes s dp)) 0 s)"

definition iops_dirlookup :: "nat \<Rightarrow> block \<Rightarrow> ('z fstate_scheme, (nat \<times> nat) option) kern" where
  "iops_dirlookup dp name = iops (dirlookup dp name) (ext2_dirlookup dp name) dp"

subsection \<open>Adding a name\<close>

function dirlink_loop :: "nat \<Rightarrow> nat \<Rightarrow> nat \<Rightarrow> ('z fstate_scheme, nat) kern" where
  "dirlink_loop dp sz off =
     (if off < sz then
        bnd (read_entry ''dirlink read'' sizeof_dirent dp off) (\<lambda>bs.
        if rd16 (c_string bs) 0 = 0 then ret off else dirlink_loop dp sz (off + sizeof_dirent))
      else ret off)"
  by pat_completeness auto
termination
  by (relation "measure (\<lambda>(dp, sz, off). sz - off)") (auto simp: const_defs)

declare dirlink_loop.simps [simp del]

text \<open>The entry written: \<open>strncpy\<close> overwrites the whole name field.\<close>

definition mk_dirent :: "block \<Rightarrow> nat \<Rightarrow> block" where
  "mk_dirent name inum = wr16 (strncpy_to (\<lambda>_. 0) 2 name DIRSIZ) 0 (inum mod 65536)"

definition dirlink :: "nat \<Rightarrow> block \<Rightarrow> nat \<Rightarrow> ('z fstate_scheme, int) kern" where
  "dirlink dp name inum =
     bnd (iops_dirlookup dp name) (\<lambda>r.
     case r of
       Some (ip, _) \<Rightarrow> bnd (iops (iput ip) (ext2_iput ip) dp) (\<lambda>_. ret (-1))
     | None \<Rightarrow>
         bnd (\<lambda>s. dirlink_loop dp (i_size (inodes s dp)) 0 s) (\<lambda>off.
         bnd (iops_writei dp (mk_dirent name inum) off sizeof_dirent) (\<lambda>n.
         if n \<noteq> int sizeof_dirent then panic ''dirlink'' else ret 0)))"

text \<open>The search of \<open>ext2_dirlink\<close> for a record that fills the rest of its block: the offset it stops
  at and the record \<open>de\<close> it holds then.\<close>

function ext2_dirlink_loop :: "nat \<Rightarrow> nat \<Rightarrow> nat \<Rightarrow> block \<Rightarrow> ('z fstate_scheme, nat \<times> block) kern" where
  "ext2_dirlink_loop dp sz off de =
     (if off < sz then
        bnd (read_entry ''ext2_dirlink read 1'' sizeof_ext2_dirent dp off) (\<lambda>bs.
        let de = put_bytes de bs; rec_len = rd16 de 4; name_len = unat (de 6) in
        if rec_len > sizeof_ext2_dirent \<and> rec_len = BSIZE - off mod BSIZE then
          (let rec_len = sizeof_ext2_dirent - EXT2_NAME_LEN + name_len; de = wr16 de 4 rec_len in
           bnd (iops_writei dp de off sizeof_ext2_dirent) (\<lambda>n.
           if n \<noteq> int sizeof_ext2_dirent then panic ''ext2_dirlink write''
           else bnd (read_entry ''ext2_dirlink read 2'' sizeof_ext2_dirent dp (off + rec_len)) (\<lambda>bs.
             ret (off + rec_len, put_bytes de bs))))
        else if rec_len = 0 then fail (Blocked ''ext2_dirlink'')
        else ext2_dirlink_loop dp sz (off + rec_len) de)
      else ret (off, de))"
  by pat_completeness auto
termination
  by (relation "measure (\<lambda>(dp, sz, off, de). sz - off)") auto

declare ext2_dirlink_loop.simps [simp del]

text \<open>\<open>strlen\<close> of a name field of 255 bytes; with no zero in the field it would leave it.\<close>

definition name_field_len :: "block \<Rightarrow> nat option" where
  "name_field_len de = (let c = cstr (\<lambda>i. de (8 + i)) EXT2_NAME_LEN in
     if length c < EXT2_NAME_LEN then Some (length c) else None)"

text \<open>The record for \<open>name\<close>, made from what \<open>de\<close> holds: the byte \<open>file_type\<close> is never set.\<close>

definition mk_ext2_dirent :: "block \<Rightarrow> block \<Rightarrow> nat \<Rightarrow> nat \<Rightarrow> nat \<Rightarrow> block" where
  "mk_ext2_dirent de name len inum rec_len =
     wr16 (wr32 ((strncpy_to de 8 name EXT2_NAME_LEN)(6 := of_nat len)) 0 inum) 4 rec_len"

definition ext2_dirlink :: "nat \<Rightarrow> block \<Rightarrow> nat \<Rightarrow> ('z fstate_scheme, int) kern" where
  "ext2_dirlink dp name inum =
     bnd (iops_dirlookup dp name) (\<lambda>r.
     case r of
       Some (ip, _) \<Rightarrow> bnd (iops_iput ip) (\<lambda>_. ret (-1))
     | None \<Rightarrow>
         bnd (\<lambda>s. ext2_dirlink_loop dp (i_size (inodes s dp)) 0 (stack_junk s) s) (\<lambda>(off, de) s.
         case name_field_len (strncpy_to de 8 name EXT2_NAME_LEN) of
           None \<Rightarrow> Inl (Undef ''strlen'')
         | Some len \<Rightarrow>
           (if off = i_size (inodes s dp) then
              bnd (upd (seti dp (\<lambda>x. x\<lparr>i_size := u32 (off + BSIZE)\<rparr>))) (\<lambda>_.
              bnd (iops_iupdate dp) (\<lambda>_.
              bnd (iops_writei dp (mk_ext2_dirent de name len inum BSIZE) off sizeof_ext2_dirent) (\<lambda>n.
              if n \<noteq> int sizeof_ext2_dirent then panic ''ext2_dirlink write'' else ret 0))) s
            else (let rec_len = BSIZE - off mod BSIZE; de = mk_ext2_dirent de name len inum rec_len in
              bnd (upd (seti dp (\<lambda>x. x\<lparr>i_size := u32 (off + rec_len)\<rparr>))) (\<lambda>_.
              bnd (iops_iupdate dp) (\<lambda>_.
              bnd (iops_writei dp (\<lambda>i. if i < sizeof_ext2_dirent then de i else stack_junk s i) off rec_len) (\<lambda>n.
              if n \<noteq> int rec_len then panic ''dirlink'' else ret 0))) s))))"

definition iops_dirlink :: "nat \<Rightarrow> block \<Rightarrow> nat \<Rightarrow> ('z fstate_scheme, int) kern" where
  "iops_dirlink dp name inum = iops (dirlink dp name inum) (ext2_dirlink dp name inum) dp"

definition iops_ialloc :: "nat \<Rightarrow> nat \<Rightarrow> int \<Rightarrow> ('z fstate_scheme, nat) kern" where
  "iops_ialloc dp dev type = iops (ialloc dev type) (ext2_ialloc dev type) dp"

subsection \<open>Removing a name\<close>

function isdirempty_loop :: "nat \<Rightarrow> nat \<Rightarrow> nat \<Rightarrow> ('z fstate_scheme, bool) kern" where
  "isdirempty_loop dp sz off =
     (if off < sz then
        bnd (read_entry ''isdirempty: readi'' sizeof_dirent dp off) (\<lambda>bs.
        if rd16 (c_string bs) 0 \<noteq> 0 then ret False else isdirempty_loop dp sz (off + sizeof_dirent))
      else ret True)"
  by pat_completeness auto
termination
  by (relation "measure (\<lambda>(dp, sz, off). sz - off)") (auto simp: const_defs)

declare isdirempty_loop.simps [simp del]

definition isdirempty :: "nat \<Rightarrow> ('z fstate_scheme, bool) kern" where
  "isdirempty dp = (\<lambda>s. isdirempty_loop dp (i_size (inodes s dp)) (2 * sizeof_dirent) s)"

definition dot :: block where "dot = c_string [46]"
definition dotdot :: block where "dotdot = c_string [46, 46]"

function ext2_isdirempty_loop :: "nat \<Rightarrow> nat \<Rightarrow> nat \<Rightarrow> ('z fstate_scheme, bool) kern" where
  "ext2_isdirempty_loop dp sz off =
     (if off < sz then
        bnd (read_entry ''isdirempty: readi'' sizeof_ext2_dirent dp off) (\<lambda>bs.
        let de = c_string bs; nm = (\<lambda>i. de (8 + i)); rec_len = rd16 de 4 in
        if (namecmp dot nm = 0 \<or> namecmp dotdot nm = 0) \<or> rd32 de 0 = 0 then
          (if rec_len = 0 then fail (Blocked ''ext2_isdirempty'') else ext2_isdirempty_loop dp sz (off + rec_len))
        else ret False)
      else ret True)"
  by pat_completeness auto
termination
  by (relation "measure (\<lambda>(dp, sz, off). sz - off)") auto

declare ext2_isdirempty_loop.simps [simp del]

definition ext2_isdirempty :: "nat \<Rightarrow> ('z fstate_scheme, bool) kern" where
  "ext2_isdirempty dp = (\<lambda>s. ext2_isdirempty_loop dp (i_size (inodes s dp)) 0 s)"

definition iops_isdirempty :: "nat \<Rightarrow> ('z fstate_scheme, bool) kern" where
  "iops_isdirempty dp = iops (isdirempty dp) (ext2_isdirempty dp) dp"

definition fs_unlink :: "nat \<Rightarrow> nat \<Rightarrow> ('z fstate_scheme, unit) kern" where
  "fs_unlink dp off =
     bnd (iops_writei dp (\<lambda>_. 0) off sizeof_dirent) (\<lambda>n.
     if n \<noteq> int sizeof_dirent then panic ''unlink: writei'' else ret ())"

text \<open>The record is overwritten up to its length, with what follows \<open>de\<close> on the stack.\<close>

definition ext2_unlink :: "nat \<Rightarrow> nat \<Rightarrow> ('z fstate_scheme, unit) kern" where
  "ext2_unlink dp off =
     bnd (read_entry ''dirlookup read'' sizeof_ext2_dirent dp off) (\<lambda>bs s.
     let rec_len = rd16 (c_string bs) 4; de = wr16 (\<lambda>_. 0) 4 rec_len in
     bnd (iops_writei dp (\<lambda>i. if i < sizeof_ext2_dirent then de i else stack_junk s i) off rec_len) (\<lambda>n.
     if n \<noteq> int rec_len then panic ''unlink: writei'' else ret ()) s)"

definition iops_unlink :: "nat \<Rightarrow> nat \<Rightarrow> ('z fstate_scheme, unit) kern" where
  "iops_unlink dp off = iops (fs_unlink dp off) (ext2_unlink dp off) dp"

subsection \<open>Paths\<close>

text \<open>The rest of the path and the buffer \<open>name\<close> after the call; None for the null pointer.\<close>

definition skipelem :: "byte list \<Rightarrow> block \<Rightarrow> nat \<Rightarrow> (byte list \<times> block) option" where
  "skipelem path name dev =
     (let dirlength = (if dev = ROOTDEV then DIRSIZ else EXT2_NAME_LEN);
          p = dropWhile (\<lambda>c. c = 47) path in
      if p = [] then None
      else (let s = takeWhile (\<lambda>c. c \<noteq> 47) p; len = length s;
                name = (if len \<ge> dirlength then put_bytes name (take dirlength s)
                        else (put_bytes name s)(len := 0))
            in Some (dropWhile (\<lambda>c. c = 47) (dropWhile (\<lambda>c. c \<noteq> 47) p), name)))"

lemma skipelem_shorter: "skipelem path name dev = Some (p, nm) \<Longrightarrow> length p < length path"
proof -
  assume a: "skipelem path name dev = Some (p, nm)"
  define q where "q = dropWhile (\<lambda>c. c = 47) path"
  have q: "q \<noteq> []" and p: "p = dropWhile (\<lambda>c. c = 47) (dropWhile (\<lambda>c. c \<noteq> 47) q)"
    using a by (auto simp: skipelem_def q_def Let_def split: if_splits)
  have "hd q \<noteq> 47" using q hd_dropWhile unfolding q_def by blast
  then have "length (dropWhile (\<lambda>c. c \<noteq> 47) q) < length q"
    using q by (cases q) (auto intro: le_imp_less_Suc length_dropWhile_le)
  moreover have "length p \<le> length (dropWhile (\<lambda>c. c \<noteq> 47) q)" unfolding p by (rule length_dropWhile_le)
  moreover have "length q \<le> length path" unfolding q_def by (rule length_dropWhile_le)
  ultimately show ?thesis by linarith
qed

definition mnt :: block where "mnt = c_string [109, 110, 116]"

function namex_loop :: "bool \<Rightarrow> byte list \<Rightarrow> block \<Rightarrow> nat \<Rightarrow> ('z fstate_scheme, nat option \<times> block) kern" where
  "namex_loop parent path name ip = (\<lambda>s.
     case skipelem path name (i_dev (inodes s ip)) of
       None \<Rightarrow>
         (if parent then bnd (iops_iput ip) (\<lambda>_. ret (None, name)) else ret (Some ip, name)) s
     | Some (path', name') \<Rightarrow>
         bnd (iops_ilock ip) (\<lambda>_ s.
         if i_type (inodes s ip) \<noteq> T_DIR then bnd (iops_iunlockput ip) (\<lambda>_. ret (None, name')) s
         else if parent \<and> path' = [] then bnd (iops_iunlock ip) (\<lambda>_. ret (Some ip, name')) s
         else if namecmp name' mnt = 0 then
           bnd (iunlockput ip) (\<lambda>_.
           bnd (iget EXT2DEV EXT2_ROOT_INO) (\<lambda>ip.
           namex_loop parent path' name' ip)) s
         else
           bnd (iops_dirlookup ip name') (\<lambda>r.
           bnd (iops_iunlockput ip) (\<lambda>_.
           case r of
             None \<Rightarrow> ret (None, name')
           | Some (next_ip, _) \<Rightarrow> namex_loop parent path' name' next_ip)) s) s)"
  by pat_completeness auto
termination
  by (relation "measure (\<lambda>(parent, path, name, ip). length path)") (auto dest: skipelem_shorter)

declare namex_loop.simps [simp del]

definition namex :: "byte list \<Rightarrow> bool \<Rightarrow> block \<Rightarrow> ('z fstate_scheme, nat option \<times> block) kern" where
  "namex path parent name =
     bnd (if path \<noteq> [] \<and> hd path = 47 then iget ROOTDEV ROOTINO else (\<lambda>s. idup (cur_cwd s) s)) (\<lambda>ip.
     namex_loop parent path name ip)"

definition namei :: "byte list \<Rightarrow> ('z fstate_scheme, nat option) kern" where
  "namei path = (\<lambda>s. bnd (namex path False (stack_junk s)) (\<lambda>(ip, _). ret ip) s)"

definition nameiparent :: "byte list \<Rightarrow> ('z fstate_scheme, nat option \<times> block) kern" where
  "nameiparent path = (\<lambda>s. namex path True (stack_junk s) s)"

end
