(* ===== verification/Kalloc.thy ===== *)
theory Kalloc
  imports CString Params
begin

section \<open>Physical page allocator (kalloc.c, memlayout.h, mmu.h)\<close>

text \<open>
  Kernel memory is one object indexed by kernel virtual address; the free list is threaded through
  the free pages, as in the code. \<open>kend\<close> and \<open>kdata\<close> are the linker symbols \<open>end\<close> and \<open>data\<close>. The spinlock of \<open>kmem\<close> makes
  each routine one step. The locale \<open>page_alloc\<close> states what the rest of the kernel relies on: pages
  handed out are distinct, and clients may write anything into the pages they own.
\<close>

subsection \<open>Layout\<close>

definition PGSIZE :: nat where [const_defs]: "PGSIZE = 4096"
definition KERNBASE :: nat where [const_defs]: "KERNBASE = 2147483648"
definition EXTMEM :: nat where [const_defs]: "EXTMEM = 1048576"
definition PHYSTOP :: nat where [const_defs]: "PHYSTOP = 234881024"
definition DEVSPACE :: nat where [const_defs]: "DEVSPACE = 4261412864"
definition KERNLINK :: nat where [const_defs]: "KERNLINK = KERNBASE + EXTMEM"

definition V2P :: "nat \<Rightarrow> nat" where
  "V2P a = u32 (a + (4294967296 - KERNBASE))"

definition P2V :: "nat \<Rightarrow> nat" where
  "P2V a = u32 (a + KERNBASE)"

definition PGROUNDUP :: "nat \<Rightarrow> nat" where
  "PGROUNDUP sz = u32 (sz + PGSIZE - 1) div PGSIZE * PGSIZE"

definition PGROUNDDOWN :: "nat \<Rightarrow> nat" where
  "PGROUNDDOWN a = a div PGSIZE * PGSIZE"

subsection \<open>Operations\<close>

record kmem =
  freelist :: nat
  use_lock :: bool
  mem :: block
  kend :: nat
  kdata :: nat

definition kfree :: "nat \<Rightarrow> (kmem, unit) kern" where
  "kfree v = (\<lambda>k.
     if v mod PGSIZE \<noteq> 0 \<or> v < kend k \<or> V2P v \<ge> PHYSTOP then Inl (Panic ''kfree'')
     else Inr ((), k\<lparr>mem := wr32 (memset (mem k) v 1 PGSIZE) v (freelist k), freelist := v\<rparr>))"

definition kalloc :: "(kmem, nat) kern" where
  "kalloc = (\<lambda>k. let r = freelist k in
     Inr (r, if r \<noteq> 0 then k\<lparr>freelist := rd32 (mem k) r\<rparr> else k))"

function freerange_loop :: "nat \<Rightarrow> nat \<Rightarrow> (kmem, unit) kern" where
  "freerange_loop p vend =
     (if p + PGSIZE \<le> vend then bnd (kfree p) (\<lambda>_. freerange_loop (p + PGSIZE) vend) else ret ())"
  by pat_completeness auto
termination
  by (relation "measure (\<lambda>(p, vend). vend - p)") (auto simp: const_defs)

declare freerange_loop.simps [simp del]

definition freerange :: "nat \<Rightarrow> nat \<Rightarrow> (kmem, unit) kern" where
  "freerange vstart vend = freerange_loop (PGROUNDUP vstart) vend"

definition kinit1 :: "nat \<Rightarrow> nat \<Rightarrow> (kmem, unit) kern" where
  "kinit1 vstart vend = bnd (upd (\<lambda>k. k\<lparr>use_lock := False\<rparr>)) (\<lambda>_. freerange vstart vend)"

definition kinit2 :: "nat \<Rightarrow> nat \<Rightarrow> (kmem, unit) kern" where
  "kinit2 vstart vend = bnd (freerange vstart vend) (\<lambda>_. upd (\<lambda>k. k\<lparr>use_lock := True\<rparr>))"

subsection \<open>The free list\<close>

definition page_ok :: "nat \<Rightarrow> nat \<Rightarrow> bool" where
  "page_ok e v \<longleftrightarrow> v mod PGSIZE = 0 \<and> e \<le> v \<and> v < 4294967296 \<and> V2P v < PHYSTOP"

fun flist :: "block \<Rightarrow> nat \<Rightarrow> nat list \<Rightarrow> bool" where
  "flist m r [] = (r = 0)"
| "flist m r (p # ps) = (r = p \<and> p \<noteq> 0 \<and> flist m (rd32 m p) ps)"

definition kinv :: "kmem \<Rightarrow> nat list \<Rightarrow> bool" where
  "kinv k ps \<longleftrightarrow> flist (mem k) (freelist k) ps \<and> distinct ps \<and> (\<forall>p \<in> set ps. page_ok (kend k) p) \<and> 0 < kend k"

lemma PGSIZE_pos [simp]: "0 < PGSIZE" by (simp add: const_defs)

lemma pages_apart:
  assumes "a mod PGSIZE = 0" "b mod PGSIZE = 0" "a \<noteq> b"
  shows "a + PGSIZE \<le> b \<or> b + PGSIZE \<le> a"
proof -
  obtain x y where xy: "a = PGSIZE * x" "b = PGSIZE * y"
    using assms(1,2) by (metis mod_0_imp_dvd dvdE)
  consider "x < y" | "y < x" using xy assms(3) by fastforce
  then show ?thesis
  proof cases
    case 1
    then have "PGSIZE * Suc x \<le> PGSIZE * y" by (intro mult_le_mono2) simp
    then show ?thesis using xy by simp
  next
    case 2
    then have "PGSIZE * Suc y \<le> PGSIZE * x" by (intro mult_le_mono2) simp
    then show ?thesis using xy by simp
  qed
qed

lemma flist_cong:
  assumes "\<And>p i. p \<in> set ps \<Longrightarrow> p \<le> i \<Longrightarrow> i < p + PGSIZE \<Longrightarrow> m' i = m i"
  shows "flist m' r ps = flist m r ps"
  using assms
proof (induction ps arbitrary: r)
  case (Cons p ps)
  have "rd32 m' p = rd32 m p" using Cons.prems [of p] by (intro rd32_cong) (simp add: const_defs)
  moreover have "flist m' q ps = flist m q ps" for q
    by (rule Cons.IH) (rule Cons.prems, simp_all)
  ultimately show ?case by simp
qed simp

lemma flist_head: "flist m r ps \<Longrightarrow> r = (if ps = [] then 0 else hd ps)"
  by (cases ps) auto

lemma kinv_head: "kinv k ps \<Longrightarrow> freelist k < 4294967296"
  by (cases ps) (auto simp: kinv_def page_ok_def)

lemma kfree_ok:
  assumes "kinv k ps" "page_ok (kend k) v" "v \<notin> set ps"
  shows "\<exists>k'. kfree v k = Inr ((), k') \<and> kinv k' (v # ps) \<and> kend k' = kend k \<and> use_lock k' = use_lock k \<and>
     (\<forall>i. i < v \<or> v + PGSIZE \<le> i \<longrightarrow> mem k' i = mem k i)"
proof -
  let ?m = "wr32 (fill (mem k) v PGSIZE 1) v (freelist k)"
  let ?k = "k\<lparr>mem := ?m, freelist := v\<rparr>"
  have out: "?m i = mem k i" if "i < v \<or> v + PGSIZE \<le> i" for i
    using that by (auto simp: const_defs)
  have run: "kfree v k = Inr ((), ?k)"
    using assms(2) by (simp add: kfree_def page_ok_def memset_fill)
  have "flist ?m (freelist k) ps = flist (mem k) (freelist k) ps"
  proof (rule flist_cong)
    fix p i assume p: "p \<in> set ps" and i: "p \<le> i" "i < p + PGSIZE"
    then have "p + PGSIZE \<le> v \<or> v + PGSIZE \<le> p"
      using assms by (intro pages_apart) (auto simp: kinv_def page_ok_def)
    then show "?m i = mem k i" using i by (intro out) linarith
  qed
  moreover have "u32 (freelist k) = freelist k" using kinv_head [OF assms(1)] by simp
  moreover have "v \<noteq> 0" using assms(1,2) by (auto simp: kinv_def page_ok_def)
  ultimately have "kinv ?k (v # ps)" using assms by (simp add: kinv_def)
  then show ?thesis using run out by (intro exI [of _ ?k]) simp
qed

lemma kalloc_ok:
  assumes "kinv k ps"
  shows "\<exists>k'. kalloc k = Inr (if ps = [] then 0 else hd ps, k') \<and> kinv k' (tl ps) \<and> kend k' = kend k \<and>
     use_lock k' = use_lock k \<and> mem k' = mem k"
proof (cases ps)
  case Nil
  then show ?thesis using assms by (simp add: kalloc_def kinv_def)
next
  case (Cons p qs)
  then show ?thesis using assms by (simp add: kalloc_def kinv_def)
qed

subsection \<open>Filling the allocator\<close>

text \<open>The whole pages of \<open>[p, vend)\<close>, in address order.\<close>

definition pages :: "nat \<Rightarrow> nat \<Rightarrow> nat list" where
  "pages p vend = map (\<lambda>i. p + PGSIZE * i) [0..<(vend - p) div PGSIZE]"

lemma pages_step:
  assumes "p + PGSIZE \<le> vend"
  shows "pages p vend = p # pages (p + PGSIZE) vend"
proof -
  have "(vend - p) div PGSIZE = Suc ((vend - (p + PGSIZE)) div PGSIZE)"
    using assms div_add_self2 [of PGSIZE "vend - (p + PGSIZE)"] by simp
  then show ?thesis by (simp add: pages_def map_upt_Suc add.assoc del: upt_Suc)
qed

lemma pages_none: "\<not> p + PGSIZE \<le> vend \<Longrightarrow> pages p vend = []"
proof -
  assume "\<not> p + PGSIZE \<le> vend"
  then have "vend - p < PGSIZE" using PGSIZE_pos by linarith
  then show ?thesis by (simp add: pages_def)
qed

lemma freerange_loop_ok:
  assumes "kinv k ps" "set (pages p vend) \<inter> set ps = {}" "\<forall>v \<in> set (pages p vend). page_ok (kend k) v"
  shows "\<exists>k'. freerange_loop p vend k = Inr ((), k') \<and> kinv k' (rev (pages p vend) @ ps) \<and> kend k' = kend k \<and>
     use_lock k' = use_lock k"
  using assms
proof (induction p vend arbitrary: k ps rule: freerange_loop.induct)
  case (1 p vend)
  show ?case
  proof (cases "p + PGSIZE \<le> vend")
    case True
    note st = pages_step [OF True]
    have pin: "p \<in> set (pages p vend)" using st by simp
    have nin: "p \<notin> set (pages (p + PGSIZE) vend)" by (auto simp: pages_def)
    obtain k1 where k1: "kfree p k = Inr ((), k1)" "kinv k1 (p # ps)" "kend k1 = kend k" "use_lock k1 = use_lock k"
      using kfree_ok [OF "1.prems"(1), of p] "1.prems"(2,3) pin by auto
    have "set (pages (p + PGSIZE) vend) \<inter> set (p # ps) = {}" using "1.prems"(2) nin st by auto
    moreover have "\<forall>v \<in> set (pages (p + PGSIZE) vend). page_ok (kend k1) v" using "1.prems"(3) st k1(3) by simp
    ultimately show ?thesis
      using "1.IH" [OF True k1(2)] True k1
      by (subst freerange_loop.simps) (simp add: st kern_simps)
  next
    case False
    then show ?thesis using "1.prems" by (subst freerange_loop.simps) (simp add: pages_none kern_simps)
  qed
qed

lemma distinct_pages: "distinct (pages p vend)"
  by (simp add: pages_def distinct_map inj_on_def const_defs)

subsection \<open>Histories\<close>

text \<open>What a client may do: allocate, free a page it owns, write into a page it owns.\<close>

inductive kstep :: "('s, nat) kern \<Rightarrow> (nat \<Rightarrow> ('s, unit) kern) \<Rightarrow> (nat \<Rightarrow> byte \<Rightarrow> 's \<Rightarrow> 's)
    \<Rightarrow> 's \<times> nat set \<Rightarrow> 's \<times> nat set \<Rightarrow> bool" for al fr pk where
  st_alloc: "al k = Inr (r, k') \<Longrightarrow> r \<noteq> 0 \<Longrightarrow> kstep al fr pk (k, A) (k', insert r A)"
| st_out: "al k = Inr (0, k') \<Longrightarrow> kstep al fr pk (k, A) (k', A)"
| st_free: "v \<in> A \<Longrightarrow> fr v k = Inr ((), k') \<Longrightarrow> kstep al fr pk (k, A) (k', A - {v})"
| st_write: "v \<in> A \<Longrightarrow> v \<le> i \<Longrightarrow> i < v + PGSIZE \<Longrightarrow> kstep al fr pk (k, A) (pk i b k, A)"

locale page_alloc =
  fixes al :: "('s, nat) kern" and fr :: "nat \<Rightarrow> ('s, unit) kern" and pk :: "nat \<Rightarrow> byte \<Rightarrow> 's \<Rightarrow> 's"
    and inv :: "'s \<Rightarrow> nat list \<Rightarrow> bool" and okp :: "'s \<Rightarrow> nat \<Rightarrow> bool"
  assumes al_law: "inv k ps \<Longrightarrow> \<exists>k'. al k = Inr (if ps = [] then 0 else hd ps, k') \<and> inv k' (tl ps) \<and> okp k' = okp k"
    and fr_law: "inv k ps \<Longrightarrow> okp k v \<Longrightarrow> v \<notin> set ps \<Longrightarrow> \<exists>k'. fr v k = Inr ((), k') \<and> inv k' (v # ps) \<and> okp k' = okp k"
    and pk_law: "inv k ps \<Longrightarrow> okp k v \<Longrightarrow> v \<notin> set ps \<Longrightarrow> v \<le> i \<Longrightarrow> i < v + PGSIZE \<Longrightarrow> inv (pk i b k) ps \<and> okp (pk i b k) = okp k"
    and inv_pages: "inv k ps \<Longrightarrow> distinct ps \<and> 0 \<notin> set ps \<and> (\<forall>p \<in> set ps. okp k p)"
begin

definition owns :: "nat set \<Rightarrow> 's \<times> nat set \<Rightarrow> bool" where
  "owns P = (\<lambda>(k, A). \<exists>ps. inv k ps \<and> set ps \<inter> A = {} \<and> set ps \<union> A = P \<and> (\<forall>p \<in> P. okp k p))"

lemma owns_step:
  assumes "kstep al fr pk x y" "owns P x"
  shows "owns P y"
proof -
  obtain k A k' A' where xy: "x = (k, A)" "y = (k', A')" by (cases x, cases y) auto
  obtain ps where ps: "inv k ps" "set ps \<inter> A = {}" "set ps \<union> A = P" "\<forall>p \<in> P. okp k p"
    using assms(2) xy by (auto simp: owns_def)
  note pp = inv_pages [OF ps(1)]
  from assms(1) have st: "kstep al fr pk (k, A) (k', A')" unfolding xy .
  have "\<exists>qs. inv k' qs \<and> set qs \<inter> A' = {} \<and> set qs \<union> A' = P \<and> okp k' = okp k"
    using st
  proof (cases rule: kstep.cases)
    case (st_alloc r)
    obtain k1 where k1: "al k = Inr (if ps = [] then 0 else hd ps, k1)" "inv k1 (tl ps)" "okp k1 = okp k"
      using al_law [OF ps(1)] by blast
    then have r: "ps = r # tl ps" "k' = k1" using st_alloc by (auto split: if_splits)
    then have sp: "set ps = insert r (set (tl ps))" "r \<notin> set (tl ps)" using pp by (metis list.simps(15), metis distinct.simps(2))
    show ?thesis using k1 r(2) sp ps(2,3) st_alloc by (intro exI [of _ "tl ps"]) auto
  next
    case st_out
    obtain k1 where k1: "al k = Inr (if ps = [] then 0 else hd ps, k1)" "inv k1 (tl ps)" "okp k1 = okp k"
      using al_law [OF ps(1)] by blast
    have "ps = []" using st_out k1(1) pp by (cases ps) auto
    then show ?thesis using k1 st_out ps by (intro exI [of _ "[]"]) auto
  next
    case (st_free v)
    have v: "v \<notin> set ps" "okp k v" using st_free ps by auto
    obtain k1 where "fr v k = Inr ((), k1)" "inv k1 (v # ps)" "okp k1 = okp k" using fr_law [OF ps(1) v(2,1)] by blast
    then show ?thesis using st_free ps v by (intro exI [of _ "v # ps"]) auto
  next
    case (st_write v i b)
    have v: "v \<notin> set ps" "okp k v" using st_write ps by auto
    show ?thesis using pk_law [OF ps(1) v(2,1), of i b] st_write ps by (intro exI [of _ ps]) auto
  qed
  then show ?thesis using ps(4) unfolding xy owns_def by auto
qed

lemma owns_run:
  assumes "(kstep al fr pk)\<^sup>*\<^sup>* x y" "owns P x"
  shows "owns P y"
  using assms by (induction rule: rtranclp_induct) (auto intro: owns_step)

text \<open>After any history: an allocation returns a page nobody owns, or none because all are owned;
  an owned page can be freed.\<close>

lemma history:
  assumes "(kstep al fr pk)\<^sup>*\<^sup>* (k0, {}) (k, A)" "inv k0 ps" "\<forall>p \<in> set ps. okp k0 p"
  shows "A \<subseteq> set ps"
    and "\<exists>r k'. al k = Inr (r, k') \<and> (if A = set ps then r = 0 else r \<in> set ps - A)"
    and "v \<in> A \<Longrightarrow> \<exists>k'. fr v k = Inr ((), k')"
proof -
  have "owns (set ps) (k0, {})" using assms(2,3) by (auto simp: owns_def)
  then obtain qs where qs: "inv k qs" "set qs \<inter> A = {}" "set qs \<union> A = set ps" "\<forall>p \<in> set ps. okp k p"
    using owns_run [OF assms(1), of "set ps"] unfolding owns_def by blast
  show "A \<subseteq> set ps" using qs by auto
  obtain k1 where k1: "al k = Inr (if qs = [] then 0 else hd qs, k1)" using al_law [OF qs(1)] by blast
  have "A = set ps \<longleftrightarrow> qs = []" using qs(2,3) by (cases qs) auto
  moreover have "qs \<noteq> [] \<Longrightarrow> hd qs \<in> set ps - A" using qs(2,3) by (cases qs) auto
  ultimately show "\<exists>r k'. al k = Inr (r, k') \<and> (if A = set ps then r = 0 else r \<in> set ps - A)"
    using k1 by auto
  show "v \<in> A \<Longrightarrow> \<exists>k'. fr v k = Inr ((), k')"
    using fr_law [OF qs(1), of v] qs by auto
qed

end

definition kpoke :: "nat \<Rightarrow> byte \<Rightarrow> kmem \<Rightarrow> kmem" where
  "kpoke i b k = k\<lparr>mem := (mem k)(i := b)\<rparr>"

lemma kpoke_ok:
  assumes "kinv k ps" "page_ok (kend k) v" "v \<notin> set ps" "v \<le> i" "i < v + PGSIZE"
  shows "kinv (kpoke i b k) ps"
proof -
  have "flist ((mem k)(i := b)) (freelist k) ps = flist (mem k) (freelist k) ps"
  proof (rule flist_cong)
    fix p j assume p: "p \<in> set ps" and j: "p \<le> j" "j < p + PGSIZE"
    then have "p + PGSIZE \<le> v \<or> v + PGSIZE \<le> p"
      using assms by (intro pages_apart) (auto simp: kinv_def page_ok_def)
    then show "((mem k)(i := b)) j = mem k j" using j assms(4,5) by auto
  qed
  then show ?thesis using assms(1) by (simp add: kinv_def kpoke_def)
qed

interpretation kp: page_alloc kalloc kfree kpoke kinv "\<lambda>k. page_ok (kend k)"
proof unfold_locales
  show "\<exists>k'. kalloc k = Inr (if ps = [] then 0 else hd ps, k') \<and> kinv k' (tl ps) \<and> page_ok (kend k') = page_ok (kend k)"
    if "kinv k ps" for k ps using kalloc_ok [OF that] by auto
  show "\<exists>k'. kfree v k = Inr ((), k') \<and> kinv k' (v # ps) \<and> page_ok (kend k') = page_ok (kend k)"
    if "kinv k ps" "page_ok (kend k) v" "v \<notin> set ps" for k ps v using kfree_ok [OF that] by auto
  show "kinv (kpoke i b k) ps \<and> page_ok (kend (kpoke i b k)) = page_ok (kend k)"
    if "kinv k ps" "page_ok (kend k) v" "v \<notin> set ps" "v \<le> i" "i < v + PGSIZE" for k ps v i b
    using kpoke_ok [OF that] by (simp add: kpoke_def)
  show "distinct ps \<and> 0 \<notin> set ps \<and> (\<forall>p \<in> set ps. page_ok (kend k) p)" if "kinv k ps" for k ps
    using that by (auto simp: kinv_def page_ok_def)
qed

subsection \<open>The allocator in use\<close>

text \<open>C5. After \<open>kinit1\<close> on an empty allocator, and after any history of allocations, frees of owned
  pages and arbitrary writes into owned pages: every owned page is a page of the range, \<open>kalloc\<close>
  returns a page that nobody owns (or 0 exactly when all pages are owned), and freeing an owned page
  does not panic.\<close>

theorem page_allocator_safe:
  assumes "freelist k0 = 0" "0 < kend k0"
    and "\<forall>v \<in> set (pages (PGROUNDUP vs) ve). page_ok (kend k0) v"
  shows "\<exists>k1. kinit1 vs ve k0 = Inr ((), k1) \<and>
     (\<forall>k A. (kstep kalloc kfree kpoke)\<^sup>*\<^sup>* (k1, {}) (k, A) \<longrightarrow>
        A \<subseteq> set (pages (PGROUNDUP vs) ve) \<and>
        (\<exists>r k'. kalloc k = Inr (r, k') \<and>
           (if A = set (pages (PGROUNDUP vs) ve) then r = 0 else r \<in> set (pages (PGROUNDUP vs) ve) - A)) \<and>
        (\<forall>v \<in> A. \<exists>k'. kfree v k = Inr ((), k')))"
proof -
  let ?P = "pages (PGROUNDUP vs) ve"
  have "kinv (k0\<lparr>use_lock := False\<rparr>) []" using assms by (simp add: kinv_def)
  from freerange_loop_ok [OF this, of "PGROUNDUP vs" ve] assms obtain k1 where
    k1: "freerange_loop (PGROUNDUP vs) ve (k0\<lparr>use_lock := False\<rparr>) = Inr ((), k1)" "kinv k1 (rev ?P)" "kend k1 = kend k0"
    by auto
  have run: "kinit1 vs ve k0 = Inr ((), k1)" using k1(1) by (simp add: kinit1_def freerange_def kern_simps)
  have ok: "\<forall>p \<in> set (rev ?P). page_ok (kend k1) p" using assms(3) k1(3) by simp
  show ?thesis
  proof (intro exI [of _ k1] conjI allI impI run)
    fix k A assume st: "(kstep kalloc kfree kpoke)\<^sup>*\<^sup>* (k1, {}) (k, A)"
    note h = kp.history [OF st k1(2) ok]
    show "A \<subseteq> set ?P" using h(1) by simp
    show "\<exists>r k'. kalloc k = Inr (r, k') \<and> (if A = set ?P then r = 0 else r \<in> set ?P - A)" using h(2) unfolding set_rev .
    show "\<forall>v \<in> A. \<exists>k'. kfree v k = Inr ((), k')" using h(3) by blast
  qed
qed

theorem page_allocator_safe_witness:
  "\<exists>k1 r k'. kinit1 2148532225 2148544512 \<lparr>freelist = 0, use_lock = False, mem = (\<lambda>_. 0), kend = 2148532224, kdata = 2148532224\<rparr> = Inr ((), k1) \<and>
     kalloc k1 = Inr (r, k') \<and> r \<in> {2148536320, 2148540416}"
proof -
  let ?k0 = "\<lparr>freelist = 0, use_lock = False, mem = (\<lambda>_. 0), kend = 2148532224, kdata = 2148532224\<rparr>"
  have P: "pages (PGROUNDUP 2148532225) 2148544512 = [2148536320, 2148540416]"
    by (simp add: pages_def PGROUNDUP_def PGSIZE_def u32_def upt_rec)
  have "\<forall>v \<in> set (pages (PGROUNDUP 2148532225) 2148544512). page_ok (kend ?k0) v"
    unfolding P by (simp add: page_ok_def PGSIZE_def V2P_def PHYSTOP_def KERNBASE_def u32_def)
  from page_allocator_safe [OF _ _ this] obtain k1 where
    k1: "kinit1 2148532225 2148544512 ?k0 = Inr ((), k1)"
    and h: "\<And>k A. (kstep kalloc kfree kpoke)\<^sup>*\<^sup>* (k1, {}) (k, A) \<Longrightarrow> \<exists>r k'. kalloc k = Inr (r, k') \<and>
           (if A = set [2148536320, 2148540416] then r = 0 else r \<in> set [2148536320, 2148540416] - A)"
    unfolding P by auto
  show ?thesis using k1 h [of k1 "{}"] by auto
qed

end
