(* ===== verification/Vm.thy ===== *)
theory Vm
  imports Kalloc
begin

section \<open>Page tables (vm.c, mmu.h)\<close>

text \<open>
  The two-level x86 page tables, kept in the pages of \<open>kmem\<close> and addressed by kernel virtual address.
  A null pointer is None for entries and 0 for pages, as in the code. Routines that also print or
  read files are in the theory Kernel.
\<close>

subsection \<open>Entries\<close>

definition PDX :: "nat \<Rightarrow> nat" where "PDX va = va div 4194304 mod 1024"
definition PTX :: "nat \<Rightarrow> nat" where "PTX va = va div 4096 mod 1024"
definition PTE_P :: nat where [const_defs]: "PTE_P = 1"
definition PTE_W :: nat where [const_defs]: "PTE_W = 2"
definition PTE_U :: nat where [const_defs]: "PTE_U = 4"
definition PTE_ADDR :: "nat \<Rightarrow> nat" where "PTE_ADDR e = e div 4096 * 4096"
definition PTE_FLAGS :: "nat \<Rightarrow> nat" where "PTE_FLAGS e = e mod 4096"
definition NPDENTRIES :: nat where [const_defs]: "NPDENTRIES = 1024"

definition flag :: "nat \<Rightarrow> nat \<Rightarrow> bool" where
  "flag e f \<longleftrightarrow> e AND f \<noteq> 0"

text \<open>Words of kernel memory.\<close>

definition kld :: "nat \<Rightarrow> (kmem, nat) kern" where
  "kld a = gets (\<lambda>k. rd32 (mem k) a)"

definition kst :: "nat \<Rightarrow> nat \<Rightarrow> (kmem, unit) kern" where
  "kst a v = upd (\<lambda>k. k\<lparr>mem := wr32 (mem k) a v\<rparr>)"

definition kzero :: "nat \<Rightarrow> (kmem, unit) kern" where
  "kzero a = upd (\<lambda>k. k\<lparr>mem := memset (mem k) a 0 PGSIZE\<rparr>)"

subsection \<open>Walking and mapping\<close>

definition walkpgdir :: "nat \<Rightarrow> nat \<Rightarrow> bool \<Rightarrow> (kmem, nat option) kern" where
  "walkpgdir pgdir va al =
     bnd (kld (pgdir + 4 * PDX va)) (\<lambda>e.
     if flag e PTE_P then ret (Some (P2V (PTE_ADDR e) + 4 * PTX va))
     else if \<not> al then ret None
     else bnd kalloc (\<lambda>pgtab.
       if pgtab = 0 then ret None
       else bnd (kzero pgtab) (\<lambda>_.
            bnd (kst (pgdir + 4 * PDX va) (V2P pgtab OR PTE_P OR PTE_W OR PTE_U)) (\<lambda>_.
            ret (Some (pgtab + 4 * PTX va))))))"

text \<open>The loop of \<open>mappages\<close>; the last argument counts the rounds, and there are as many pages from
  \<open>a\<close> to \<open>lst\<close>.\<close>

fun mappages_loop :: "nat \<Rightarrow> nat \<Rightarrow> nat \<Rightarrow> nat \<Rightarrow> nat \<Rightarrow> nat \<Rightarrow> (kmem, int) kern" where
  "mappages_loop pgdir a lst pa perm 0 = fail (Blocked ''mappages'')"
| "mappages_loop pgdir a lst pa perm (Suc n) =
     bnd (walkpgdir pgdir a True) (\<lambda>r.
     case r of
       None \<Rightarrow> ret (- 1)
     | Some pte \<Rightarrow>
         bnd (kld pte) (\<lambda>e.
         if flag e PTE_P then panic ''remap''
         else bnd (kst pte (pa OR perm OR PTE_P)) (\<lambda>_.
           if a = lst then ret 0
           else mappages_loop pgdir (u32 (a + PGSIZE)) lst (u32 (pa + PGSIZE)) perm n)))"

definition mappages :: "nat \<Rightarrow> nat \<Rightarrow> nat \<Rightarrow> nat \<Rightarrow> nat \<Rightarrow> (kmem, int) kern" where
  "mappages pgdir va sz pa perm =
     (let a = PGROUNDDOWN va; lst = PGROUNDDOWN (sub32 (u32 (va + sz)) 1) in
      mappages_loop pgdir a lst pa perm (Suc (sub32 lst a div PGSIZE)))"

subsection \<open>Freeing\<close>

text \<open>If \<open>a\<close> wraps around, the loop starts over at 0 and never ends.\<close>

function deallocuvm_loop :: "nat \<Rightarrow> nat \<Rightarrow> nat \<Rightarrow> (kmem, unit) kern" where
  "deallocuvm_loop pgdir oldsz a =
     (if a < oldsz then
        bnd (walkpgdir pgdir a False) (\<lambda>r.
        case r of
          None \<Rightarrow>
            (let a' = (PDX a + 1) * 4194304 in
             if a' \<ge> 4294967296 \<or> a' \<le> a then fail (Blocked ''deallocuvm'') else deallocuvm_loop pgdir oldsz a')
        | Some pte \<Rightarrow>
            bnd (kld pte) (\<lambda>e.
            bnd (if flag e PTE_P then
                   (if PTE_ADDR e = 0 then panic ''kfree''
                    else bnd (kfree (P2V (PTE_ADDR e))) (\<lambda>_. kst pte 0))
                 else ret ()) (\<lambda>_.
            if a + PGSIZE \<ge> 4294967296 then fail (Blocked ''deallocuvm'')
            else deallocuvm_loop pgdir oldsz (a + PGSIZE))))
      else ret ())"
  by pat_completeness auto
termination
  by (relation "measure (\<lambda>(pgdir, oldsz, a). oldsz - a)") (auto simp: const_defs)

declare deallocuvm_loop.simps [simp del]

definition deallocuvm :: "nat \<Rightarrow> nat \<Rightarrow> nat \<Rightarrow> (kmem, nat) kern" where
  "deallocuvm pgdir oldsz newsz =
     (if newsz \<ge> oldsz then ret oldsz
      else bnd (deallocuvm_loop pgdir oldsz (PGROUNDUP newsz)) (\<lambda>_. ret newsz))"

fun freevm_loop :: "nat \<Rightarrow> nat \<Rightarrow> nat \<Rightarrow> (kmem, unit) kern" where
  "freevm_loop pgdir i 0 = ret ()"
| "freevm_loop pgdir i (Suc n) =
     bnd (kld (pgdir + 4 * i)) (\<lambda>e.
     bnd (if flag e PTE_P then kfree (P2V (PTE_ADDR e)) else ret ()) (\<lambda>_.
     freevm_loop pgdir (i + 1) n))"

definition freevm :: "nat \<Rightarrow> (kmem, unit) kern" where
  "freevm pgdir =
     (if pgdir = 0 then panic ''freevm: no pgdir''
      else bnd (deallocuvm pgdir KERNBASE 0) (\<lambda>_.
           bnd (freevm_loop pgdir 0 NPDENTRIES) (\<lambda>_.
           kfree pgdir)))"

subsection \<open>Building\<close>

definition kmap :: "nat \<Rightarrow> (nat \<times> nat \<times> nat \<times> nat) list" where
  "kmap data =
     [(KERNBASE, 0, EXTMEM, PTE_W),
      (KERNLINK, V2P KERNLINK, V2P data, 0),
      (data, V2P data, PHYSTOP, PTE_W),
      (DEVSPACE, DEVSPACE, 0, PTE_W)]"

fun setupkvm_loop :: "nat \<Rightarrow> (nat \<times> nat \<times> nat \<times> nat) list \<Rightarrow> (kmem, nat) kern" where
  "setupkvm_loop pgdir [] = ret pgdir"
| "setupkvm_loop pgdir ((virt, phys_start, phys_end, perm) # ks) =
     bnd (mappages pgdir virt (sub32 phys_end phys_start) phys_start perm) (\<lambda>r.
     if r < 0 then bnd (freevm pgdir) (\<lambda>_. ret 0) else setupkvm_loop pgdir ks)"

definition setupkvm :: "(kmem, nat) kern" where
  "setupkvm =
     bnd kalloc (\<lambda>pgdir.
     if pgdir = 0 then ret 0
     else bnd (kzero pgdir) (\<lambda>_.
       if P2V PHYSTOP > DEVSPACE then panic ''PHYSTOP too high''
       else (\<lambda>k. setupkvm_loop pgdir (kmap (kdata k)) k)))"

text \<open>\<open>inituvm\<close> does not check for a failing \<open>kalloc\<close>; a null page would be cleared.\<close>

definition inituvm :: "nat \<Rightarrow> byte list \<Rightarrow> (kmem, unit) kern" where
  "inituvm pgdir init =
     (if length init \<ge> PGSIZE then panic ''inituvm: more than a page''
      else bnd kalloc (\<lambda>p.
        if p = 0 then fail (Undef ''inituvm'')
        else bnd (kzero p) (\<lambda>_.
             bnd (mappages pgdir 0 PGSIZE (V2P p) (PTE_W OR PTE_U)) (\<lambda>_.
             upd (\<lambda>k. k\<lparr>mem := blit (mem k) p (\<lambda>i. init ! i) 0 (length init)\<rparr>)))))"

definition clearpteu :: "nat \<Rightarrow> nat \<Rightarrow> (kmem, unit) kern" where
  "clearpteu pgdir uva =
     bnd (walkpgdir pgdir uva False) (\<lambda>r.
     case r of
       None \<Rightarrow> panic ''clearpteu''
     | Some pte \<Rightarrow> bnd (kld pte) (\<lambda>e. kst pte (if flag e PTE_U then e - PTE_U else e)))"

text \<open>A process is smaller than \<open>KERNBASE\<close>, so \<open>i\<close> does not wrap around.\<close>

function copyuvm_loop :: "nat \<Rightarrow> nat \<Rightarrow> nat \<Rightarrow> nat \<Rightarrow> (kmem, bool) kern" where
  "copyuvm_loop d pgdir sz i =
     (if i < sz then
        bnd (walkpgdir pgdir i False) (\<lambda>r.
        case r of
          None \<Rightarrow> panic ''copyuvm: pte should exist''
        | Some pte \<Rightarrow>
            bnd (kld pte) (\<lambda>e.
            if \<not> flag e PTE_P then panic ''copyuvm: page not present''
            else bnd kalloc (\<lambda>p.
              if p = 0 then ret False
              else bnd (upd (\<lambda>k. k\<lparr>mem := memmove (mem k) p (P2V (PTE_ADDR e)) PGSIZE\<rparr>)) (\<lambda>_.
                   bnd (mappages d i PGSIZE (V2P p) (PTE_FLAGS e)) (\<lambda>n.
                   if n < 0 then bnd (kfree p) (\<lambda>_. ret False)
                   else copyuvm_loop d pgdir sz (i + PGSIZE))))))
      else ret True)"
  by pat_completeness auto
termination
  by (relation "measure (\<lambda>(d, pgdir, sz, i). sz - i)") (auto simp: const_defs)

declare copyuvm_loop.simps [simp del]

definition copyuvm :: "nat \<Rightarrow> nat \<Rightarrow> (kmem, nat) kern" where
  "copyuvm pgdir sz =
     bnd setupkvm (\<lambda>d.
     if d = 0 then ret 0
     else bnd (copyuvm_loop d pgdir sz 0) (\<lambda>good.
       if good then ret d else bnd (freevm d) (\<lambda>_. ret 0)))"

subsection \<open>User addresses\<close>

text \<open>\<open>uva2ka\<close> dereferences what \<open>walkpgdir\<close> returns without a check.\<close>

definition uva2ka :: "nat \<Rightarrow> nat \<Rightarrow> (kmem, nat) kern" where
  "uva2ka pgdir uva =
     bnd (walkpgdir pgdir uva False) (\<lambda>r.
     case r of
       None \<Rightarrow> fail (Undef ''*pte'')
     | Some pte \<Rightarrow> bnd (kld pte) (\<lambda>e.
         if \<not> flag e PTE_P then ret 0
         else if \<not> flag e PTE_U then ret 0
         else ret (P2V (PTE_ADDR e))))"

function copyout :: "nat \<Rightarrow> nat \<Rightarrow> byte list \<Rightarrow> (kmem, int) kern" where
  "copyout pgdir va buf =
     (if buf = [] then ret 0
      else (let va0 = PGROUNDDOWN va; n = min (length buf) (PGSIZE - (va - va0)) in
        bnd (uva2ka pgdir va0) (\<lambda>pa0.
        if pa0 = 0 then ret (- 1)
        else bnd (upd (\<lambda>k. k\<lparr>mem := blit (mem k) (pa0 + (va - va0)) (\<lambda>i. buf ! i) 0 n\<rparr>)) (\<lambda>_.
             copyout pgdir (u32 (va0 + PGSIZE)) (drop n buf)))))"
  by pat_completeness auto
termination
  by (relation "measure (\<lambda>(pgdir, va, buf). length buf)")
    (auto simp: PGROUNDDOWN_def const_defs minus_div_mult_eq_mod)

declare copyout.simps [simp del]

end
