(* ===== verification/Pipe.thy ===== *)
theory Pipe
  imports CString Params "HOL-Library.Sublist"
begin

section \<open>Pipes (pipe.c)\<close>

text \<open>
  The ring buffer of \<open>struct pipe\<close> with its free-running 32-bit counters, and the routines that read
  and write it. A caller that has to wait is the fault \<open>Blocked\<close>; \<open>pstep\<close> describes what any
  number of readers and writers can do to the buffer byte by byte. The locale \<open>fifo\<close> is the queue
  contract the buffer implements.
\<close>

subsection \<open>Operations\<close>

definition PIPESIZE :: nat where [const_defs]: "PIPESIZE = 512"

record pipe =
  p_data :: block
  nread :: nat
  nwrite :: nat
  readopen :: bool
  writeopen :: bool

definition pipe_full :: "pipe \<Rightarrow> bool" where
  "pipe_full p \<longleftrightarrow> nwrite p = u32 (nread p + PIPESIZE)"

definition pipe_empty :: "pipe \<Rightarrow> bool" where
  "pipe_empty p \<longleftrightarrow> nread p = nwrite p"

definition pipe_put :: "byte \<Rightarrow> pipe \<Rightarrow> pipe" where
  "pipe_put b p = p\<lparr>p_data := (p_data p)(nwrite p mod PIPESIZE := b), nwrite := u32 (nwrite p + 1)\<rparr>"

definition pipe_get :: "pipe \<Rightarrow> byte \<times> pipe" where
  "pipe_get p = (p_data p (nread p mod PIPESIZE), p\<lparr>nread := u32 (nread p + 1)\<rparr>)"

text \<open>The structure \<open>pipealloc\<close> sets up; the data bytes are what the page held.\<close>

definition pipe_init :: "block \<Rightarrow> pipe" where
  "pipe_init d = \<lparr>p_data = d, nread = 0, nwrite = 0, readopen = True, writeopen = True\<rparr>"

text \<open>The new structure, and whether both ends are closed and its page is to be freed.\<close>

definition pipe_shut :: "bool \<Rightarrow> pipe \<Rightarrow> pipe \<times> bool" where
  "pipe_shut writable p =
     (let p = (if writable then p\<lparr>writeopen := False\<rparr> else p\<lparr>readopen := False\<rparr>)
      in (p, \<not> readopen p \<and> \<not> writeopen p))"

fun pipewrite_loop :: "bool \<Rightarrow> byte list \<Rightarrow> pipe \<Rightarrow> fault + bool \<times> pipe" where
  "pipewrite_loop killed [] p = Inr (True, p)"
| "pipewrite_loop killed (b # bs) p =
     (if pipe_full p then
        (if \<not> readopen p \<or> killed then Inr (False, p) else Inl (Blocked ''pipewrite''))
      else pipewrite_loop killed bs (pipe_put b p))"

definition pipewrite :: "bool \<Rightarrow> byte list \<Rightarrow> (pipe, int) kern" where
  "pipewrite killed bs = (\<lambda>p. case pipewrite_loop killed bs p of
     Inl e \<Rightarrow> Inl e | Inr (done_all, q) \<Rightarrow> Inr (if done_all then int (length bs) else - 1, q))"

fun piperead_loop :: "nat \<Rightarrow> pipe \<Rightarrow> byte list \<times> pipe" where
  "piperead_loop 0 p = ([], p)"
| "piperead_loop (Suc n) p =
     (if pipe_empty p then ([], p)
      else (case pipe_get p of (b, q) \<Rightarrow> case piperead_loop n q of (bs, r) \<Rightarrow> (b # bs, r)))"

definition piperead :: "bool \<Rightarrow> nat \<Rightarrow> (pipe, int \<times> byte list) kern" where
  "piperead killed n = (\<lambda>p.
     if pipe_empty p \<and> writeopen p then
       (if killed then Inr ((- 1, []), p) else Inl (Blocked ''piperead''))
     else (case piperead_loop n p of (bs, q) \<Rightarrow> Inr ((int (length bs), bs), q)))"

subsection \<open>The queue in the buffer\<close>

definition pcount :: "pipe \<Rightarrow> nat" where
  "pcount p = sub32 (nwrite p) (nread p)"

definition pinv :: "pipe \<Rightarrow> bool" where
  "pinv p \<longleftrightarrow> nread p < 4294967296 \<and> nwrite p < 4294967296 \<and> pcount p \<le> PIPESIZE"

definition pqueue :: "pipe \<Rightarrow> byte list" where
  "pqueue p = map (\<lambda>i. p_data p ((nread p + i) mod PIPESIZE)) [0..<pcount p]"

lemma u32_mod_pipe [simp]: "u32 n mod PIPESIZE = n mod PIPESIZE"
  by (simp add: u32_def const_defs mod_mod_cancel)

lemma u32_mod_pipe_add [simp]: "(u32 a + i) mod PIPESIZE = (a + i) mod PIPESIZE"
  by (metis mod_add_left_eq u32_mod_pipe)

lemma sub32_le: "b \<le> a \<Longrightarrow> a < 4294967296 \<Longrightarrow> sub32 a b = a - b"
proof -
  assume ab: "b \<le> a" "a < 4294967296"
  have "a + (4294967296 - b) = (a - b) + 4294967296" using ab by linarith
  moreover have "(a - b + 4294967296) mod 4294967296 = (a - b) mod 4294967296" by (rule mod_add_self2)
  moreover have "(a - b) mod 4294967296 = a - b" by (rule mod_less) (use ab in linarith)
  ultimately show ?thesis unfolding sub32_def u32_def by presburger
qed

lemma add_sub32: "a < 4294967296 \<Longrightarrow> b < 4294967296 \<Longrightarrow> u32 (b + sub32 a b) = a"
proof -
  assume ab: "a < 4294967296" "b < 4294967296"
  show ?thesis
  proof (cases "b \<le> a")
    case True
    then show ?thesis using sub32_le [OF True ab(1)] ab(1) by simp
  next
    case False
    have "sub32 a b = a + (4294967296 - b)" unfolding sub32_def by (rule u32_id) (use ab False in linarith)
    moreover have "b + (a + (4294967296 - b)) = a + 4294967296" using ab by linarith
    moreover have "(a + 4294967296) mod 4294967296 = a" using ab(1) by (simp only: mod_add_self2 mod_less)
    ultimately show ?thesis unfolding u32_def by presburger
  qed
qed

lemma pinv_write: "pinv p \<Longrightarrow> nwrite p = u32 (nread p + pcount p)"
  by (simp add: pinv_def pcount_def add_sub32)

lemma pipe_empty_queue: "pinv p \<Longrightarrow> pipe_empty p \<longleftrightarrow> pqueue p = []"
proof -
  assume p: "pinv p"
  have "nread p = nwrite p \<longleftrightarrow> pcount p = 0"
  proof
    show "nread p = nwrite p \<Longrightarrow> pcount p = 0" using p by (simp add: pinv_def pcount_def sub32_def u32_def)
    show "pcount p = 0 \<Longrightarrow> nread p = nwrite p" using p pinv_write [OF p] by (simp add: pinv_def)
  qed
  then show ?thesis by (auto simp: pipe_empty_def pqueue_def)
qed

lemma pcount_write:
  assumes "nread p < 4294967296" "nwrite p = u32 (nread p + n)" "n < 4294967296"
  shows "pcount p = n"
  using assms by (simp add: pcount_def sub32_add)

lemma pipe_full_queue: "pinv p \<Longrightarrow> pipe_full p \<longleftrightarrow> length (pqueue p) = PIPESIZE"
proof -
  assume p: "pinv p"
  have "nwrite p = u32 (nread p + PIPESIZE) \<longleftrightarrow> pcount p = PIPESIZE"
    using p pinv_write [OF p] pcount_write [of p PIPESIZE] by (auto simp: pinv_def const_defs)
  then show ?thesis by (simp add: pipe_full_def pqueue_def)
qed

lemma pipe_put_ok:
  assumes "pinv p" "\<not> pipe_full p"
  shows "pinv (pipe_put b p)" and "pqueue (pipe_put b p) = pqueue p @ [b]"
proof -
  let ?q = "pipe_put b p"
  have lt: "pcount p < PIPESIZE"
  proof -
    have "pcount p \<le> PIPESIZE" using assms(1) unfolding pinv_def by simp
    moreover have "pcount p \<noteq> PIPESIZE" using assms(2) unfolding pipe_full_queue [OF assms(1)] pqueue_def by simp
    ultimately show ?thesis by linarith
  qed
  have w: "nwrite ?q = u32 (nread ?q + (pcount p + 1))"
    using pinv_write [OF assms(1)] u32_add(1) [of "nread p + pcount p" 1] by (simp add: pipe_put_def)
  have c: "pcount ?q = pcount p + 1"
    using lt assms(1) by (intro pcount_write [OF _ w]) (auto simp: pipe_put_def pinv_def const_defs)
  show "pinv ?q" using assms(1) lt c by (simp add: pinv_def pipe_put_def)
  have pos: "nwrite p mod PIPESIZE = (nread p + pcount p) mod PIPESIZE" using pinv_write [OF assms(1)] by simp
  have ne: "(nread p + i) mod PIPESIZE \<noteq> (nread p + pcount p) mod PIPESIZE" if "i < pcount p" for i
  proof
    assume "(nread p + i) mod PIPESIZE = (nread p + pcount p) mod PIPESIZE"
    then have "PIPESIZE dvd (nread p + pcount p) - (nread p + i)"
      using mod_eq_dvd_iff_nat [of "nread p + i" "nread p + pcount p" PIPESIZE] that by simp
    then show False using that lt by (auto dest: dvd_imp_le)
  qed
  have "pqueue ?q = map (\<lambda>i. p_data ?q ((nread p + i) mod PIPESIZE)) [0..<pcount p + 1]"
    by (simp only: pqueue_def c) (simp add: pipe_put_def)
  also have "\<dots> = pqueue p @ [b]" using ne pos by (simp add: pqueue_def pipe_put_def)
  finally show "pqueue ?q = pqueue p @ [b]" .
qed

lemma pipe_get_ok:
  assumes "pinv p" "\<not> pipe_empty p" "pipe_get p = (b, q)"
  shows "pinv q" and "pqueue p = b # pqueue q"
proof -
  obtain n where n: "pcount p = Suc n"
    using assms(1,2) pipe_empty_queue [OF assms(1)] by (cases "pcount p") (auto simp: pqueue_def)
  have q: "q = p\<lparr>nread := u32 (nread p + 1)\<rparr>" "b = p_data p (nread p mod PIPESIZE)"
    using assms(3) by (auto simp: pipe_get_def)
  have "nwrite q = u32 (nread q + n)" using pinv_write [OF assms(1)] n u32_add(1) [of "nread p + 1" n] by (simp add: q)
  then have c: "pcount q = n" using assms(1) n by (intro pcount_write) (auto simp: q pinv_def const_defs)
  show "pinv q" using assms(1) c n by (simp add: pinv_def q)
  show "pqueue p = b # pqueue q"
    unfolding pqueue_def c n by (simp add: q map_upt_Suc del: upt_Suc)
qed

subsection \<open>The queue contract\<close>

locale fifo =
  fixes putf :: "'b \<Rightarrow> 's \<Rightarrow> 's" and getf :: "'s \<Rightarrow> 'b \<times> 's" and fullf :: "'s \<Rightarrow> bool" and emptyf :: "'s \<Rightarrow> bool"
    and inv :: "'s \<Rightarrow> bool" and qu :: "'s \<Rightarrow> 'b list" and cap :: nat
  assumes put_law: "inv p \<Longrightarrow> \<not> fullf p \<Longrightarrow> inv (putf b p) \<and> qu (putf b p) = qu p @ [b]"
    and get_law: "inv p \<Longrightarrow> \<not> emptyf p \<Longrightarrow> getf p = (b, q) \<Longrightarrow> inv q \<and> qu p = b # qu q"
    and full_law: "inv p \<Longrightarrow> fullf p \<longleftrightarrow> length (qu p) = cap"
    and empty_law: "inv p \<Longrightarrow> emptyf p \<longleftrightarrow> qu p = []"
    and cap_law: "inv p \<Longrightarrow> length (qu p) \<le> cap"

text \<open>One byte moved by a writer or by a reader; the state carries all bytes written and read so far.\<close>

inductive pstep :: "('b \<Rightarrow> 's \<Rightarrow> 's) \<Rightarrow> ('s \<Rightarrow> 'b \<times> 's) \<Rightarrow> ('s \<Rightarrow> bool) \<Rightarrow> ('s \<Rightarrow> bool)
    \<Rightarrow> 's \<times> 'b list \<times> 'b list \<Rightarrow> 's \<times> 'b list \<times> 'b list \<Rightarrow> bool" for putf getf fullf emptyf where
  pw: "\<not> fullf p \<Longrightarrow> pstep putf getf fullf emptyf (p, ws, rs) (putf b p, ws @ [b], rs)"
| pr: "\<not> emptyf p \<Longrightarrow> getf p = (b, q) \<Longrightarrow> pstep putf getf fullf emptyf (p, ws, rs) (q, ws, rs @ [b])"

context fifo
begin

lemma run_queue:
  assumes "(pstep putf getf fullf emptyf)\<^sup>*\<^sup>* (p0, [], []) (p, ws, rs)" "inv p0" "qu p0 = []"
  shows "inv p \<and> ws = rs @ qu p"
  using assms(1)
proof (induction "(p, ws, rs)" arbitrary: p ws rs rule: rtranclp_induct)
  case base
  then show ?case using assms by simp
next
  case (step y)
  obtain p1 ws1 rs1 where y: "y = (p1, ws1, rs1)" by (cases y) auto
  have ih: "inv p1" "ws1 = rs1 @ qu p1" using step(3) [OF y] by auto
  from step(2) show ?case unfolding y
  proof (cases rule: pstep.cases)
    case (pw b)
    then show ?thesis using put_law [OF ih(1), of b] ih(2) by simp
  next
    case (pr b)
    then show ?thesis using get_law [OF ih(1), of b p] ih(2) by simp
  qed
qed

end

interpretation pf: fifo pipe_put pipe_get pipe_full pipe_empty pinv pqueue PIPESIZE
proof unfold_locales
  show "pinv (pipe_put b p) \<and> pqueue (pipe_put b p) = pqueue p @ [b]" if "pinv p" "\<not> pipe_full p" for p b
    using pipe_put_ok [OF that] by simp
  show "pinv q \<and> pqueue p = b # pqueue q" if "pinv p" "\<not> pipe_empty p" "pipe_get p = (b, q)" for p b q
    using pipe_get_ok [OF that] by simp
  show "length (pqueue p) \<le> PIPESIZE" if "pinv p" for p
    using that by (simp add: pinv_def pqueue_def)
qed (fact pipe_full_queue pipe_empty_queue)+

subsection \<open>The routines\<close>

lemma pipewrite_loop_ok:
  assumes "pinv p" "length (pqueue p) + length bs \<le> PIPESIZE"
  shows "\<exists>q. pipewrite_loop killed bs p = Inr (True, q) \<and> pinv q \<and> pqueue q = pqueue p @ bs"
  using assms
proof (induction bs arbitrary: p)
  case (Cons b bs)
  have nf: "\<not> pipe_full p" using pipe_full_queue [OF Cons.prems(1)] Cons.prems(2) by simp
  note put = pipe_put_ok [OF Cons.prems(1) nf, of b]
  have "length (pqueue (pipe_put b p)) + length bs \<le> PIPESIZE" using put(2) Cons.prems(2) by simp
  then show ?case using Cons.IH [OF put(1)] put(2) nf by simp
qed simp

lemma piperead_loop_ok:
  assumes "pinv p" "piperead_loop n p = (bs, q)"
  shows "pinv q \<and> bs = take n (pqueue p) \<and> pqueue q = drop n (pqueue p)"
  using assms
proof (induction n arbitrary: p bs q)
  case (Suc n)
  show ?case
  proof (cases "pipe_empty p")
    case True
    then show ?thesis using Suc.prems pipe_empty_queue [OF Suc.prems(1)] by simp
  next
    case False
    obtain b p1 where g: "pipe_get p = (b, p1)" by fastforce
    obtain cs r where l: "piperead_loop n p1 = (cs, r)" by fastforce
    have "bs = b # cs" "q = r" using Suc.prems(2) False g l by auto
    then show ?thesis using pipe_get_ok [OF Suc.prems(1) False g] Suc.IH [OF _ l] by simp
  qed
qed simp

text \<open>C6. However readers and writers interleave, a pipe delivers the bytes written in order, without
  loss or duplication, and never holds more than \<open>PIPESIZE\<close> of them; the 32-bit counters may wrap.
  From any such point a read of \<open>n\<close> bytes that finds data gives exactly the next bytes, at most \<open>n\<close>.\<close>

theorem pipe_delivers_in_order:
  assumes "(pstep pipe_put pipe_get pipe_full pipe_empty)\<^sup>*\<^sup>* (pipe_init d, [], []) (p, ws, rs)"
  shows "prefix rs ws \<and> length ws - length rs \<le> PIPESIZE \<and>
     (rs \<noteq> ws \<longrightarrow> (\<exists>q. piperead killed n p
        = Inr ((int (min n (length ws - length rs)), take n (drop (length rs) ws)), q)))"
proof -
  have i: "pinv (pipe_init d)" "pqueue (pipe_init d) = []"
    by (auto simp: pinv_def pqueue_def pcount_def pipe_init_def sub32_def u32_def)
  have r: "pinv p" "ws = rs @ pqueue p" using pf.run_queue [OF assms i] by auto
  obtain bs q where l: "piperead_loop n p = (bs, q)" by fastforce
  have "rs \<noteq> ws \<Longrightarrow> piperead killed n p = Inr ((int (length bs), bs), q)"
    using r pipe_empty_queue [OF r(1)] l by (simp add: piperead_def)
  then show ?thesis using piperead_loop_ok [OF r(1) l] r pf.cap_law [OF r(1)] by (auto simp: min.commute)
qed

theorem pipe_delivers_in_order_witness:
  "prefix [] [65::byte, 66] \<and>
     (\<exists>q. piperead False 5 (pipe_put 66 (pipe_put 65 (pipe_init (\<lambda>_. 0)))) = Inr ((2, [65, 66]), q))"
proof -
  let ?s = "pstep pipe_put pipe_get pipe_full pipe_empty"
  let ?p0 = "pipe_init (\<lambda>_. 0)"
  have "?s (?p0, [], []) (pipe_put 65 ?p0, [] @ [65], [])"
    by (rule pw) (simp add: pipe_full_def pipe_init_def PIPESIZE_def)
  moreover have "?s (pipe_put 65 ?p0, [65], []) (pipe_put 66 (pipe_put 65 ?p0), [65] @ [66], [])"
    by (rule pw) (simp add: pipe_full_def pipe_init_def pipe_put_def PIPESIZE_def u32_def)
  ultimately have "?s\<^sup>*\<^sup>* (?p0, [], []) (pipe_put 66 (pipe_put 65 ?p0), [65, 66], [])" by simp
  from pipe_delivers_in_order [OF this, of False 5] show ?thesis by simp
qed

text \<open>A write of at most as many bytes as the pipe has room for returns without waiting, with the
  full count, and appends exactly these bytes; a write into a full pipe whose read end is closed
  fails with \<open>-1\<close> and changes nothing.\<close>

theorem pipewrite_appends:
  assumes "pinv p"
  shows "(length (pqueue p) + length bs \<le> PIPESIZE \<longrightarrow>
      (\<exists>q. pipewrite killed bs p = Inr (int (length bs), q) \<and> pinv q \<and> pqueue q = pqueue p @ bs)) \<and>
    (pipe_full p \<and> \<not> readopen p \<and> bs \<noteq> [] \<longrightarrow> pipewrite killed bs p = Inr (- 1, p))"
  using pipewrite_loop_ok [OF assms, of bs killed] by (cases bs) (auto simp: pipewrite_def)

theorem pipewrite_appends_witness:
  "\<exists>q. pipewrite False [1, 2, 3] (pipe_init (\<lambda>_. 0)) = Inr (3, q) \<and> pinv q \<and> pqueue q = [1, 2, 3]"
proof -
  have "pinv (pipe_init (\<lambda>_. 0))" "pqueue (pipe_init (\<lambda>_. 0)) = []"
    by (auto simp: pinv_def pqueue_def pcount_def pipe_init_def sub32_def u32_def)
  then show ?thesis using pipewrite_appends [of "pipe_init (\<lambda>_. 0)" "[1, 2, 3]" False] by (simp add: PIPESIZE_def)
qed

end
