(* ===== verification/Kernel.thy ===== *)
theory Kernel
  imports Dir Vm Pipe
begin

section \<open>Kernel state and open files (proc.h, file.h, file.c, pipe.c)\<close>

text \<open>
  The state of the whole kernel: that of the file systems, page memory, the table of open files, pipes
  (indexed by the page each lives in) and the process table. The fields \<open>cur_pid\<close>, \<open>cur_killed\<close> and
  \<open>cur_cwd\<close> of the lower layers are what the running process \<open>cur\<close> has in the table. Wakeups of
  sleepers on kernel objects are not recorded: a routine that would sleep is the fault \<open>Blocked\<close>.
  The ints \<open>p_pid\<close> and \<open>nextpid\<close> are kept as the 32 bits they have in memory.
\<close>

subsection \<open>State\<close>

definition NPROC :: nat where [const_defs]: "NPROC = 64"
definition KSTACKSIZE :: nat where [const_defs]: "KSTACKSIZE = 4096"
definition MAXARG :: nat where [const_defs]: "MAXARG = 32"

datatype fd_type = FD_NONE | FD_PIPE | FD_INODE

record kfile =
  f_type :: fd_type
  f_ref :: int
  f_readable :: bool
  f_writable :: bool
  f_pipe :: nat
  f_ip :: nat
  f_off :: nat

datatype procstate = UNUSED | EMBRYO | SLEEPING | RUNNABLE | RUNNING | ZOMBIE

text \<open>What a process can sleep on: another process (in \<open>wait\<close>), the clock, or a kernel object.\<close>

datatype chan = ChProc nat | ChTicks | ChObj nat

record trapframe =
  tf_eax :: nat
  tf_eip :: nat
  tf_esp :: nat
  tf_cs :: nat
  tf_ds :: nat
  tf_es :: nat
  tf_ss :: nat
  tf_eflags :: nat
  tf_regs :: "nat \<Rightarrow> nat"

record proc =
  p_sz :: nat
  p_pgdir :: nat
  p_kstack :: nat
  p_state :: procstate
  p_pid :: nat
  p_parent :: "nat option"
  p_tf :: trapframe
  p_chan :: "chan option"
  p_killed :: bool
  p_ofile :: "nat \<Rightarrow> nat option"
  p_cwd :: "nat option"
  p_name :: block

record kstate = fstate +
  km :: kmem
  files :: "nat \<Rightarrow> kfile"
  pipes :: "nat \<Rightarrow> pipe"
  procs :: "nat \<Rightarrow> proc"
  cur :: nat
  initproc :: nat
  nextpid :: nat
  ticks :: nat
  cr3 :: nat

definition setf :: "nat \<Rightarrow> (kfile \<Rightarrow> kfile) \<Rightarrow> 'z kstate_scheme \<Rightarrow> 'z kstate_scheme" where
  "setf f g s = s\<lparr>files := (files s)(f := g (files s f))\<rparr>"

definition setp :: "nat \<Rightarrow> (proc \<Rightarrow> proc) \<Rightarrow> 'z kstate_scheme \<Rightarrow> 'z kstate_scheme" where
  "setp p g s = s\<lparr>procs := (procs s)(p := g (procs s p))\<rparr>"

abbreviation myproc :: "'z kstate_scheme \<Rightarrow> proc" where
  "myproc s \<equiv> procs s (cur s)"

text \<open>A routine of the page allocator or of the page tables, run on the kernel's memory.\<close>

definition km_op :: "(kmem, 'a) kern \<Rightarrow> ('z kstate_scheme, 'a) kern" where
  "km_op f = (\<lambda>s. case f (km s) of Inl e \<Rightarrow> Inl e | Inr (a, k) \<Rightarrow> Inr (a, s\<lparr>km := k\<rparr>))"

definition pipe_op :: "nat \<Rightarrow> (pipe, 'a) kern \<Rightarrow> ('z kstate_scheme, 'a) kern" where
  "pipe_op p f = (\<lambda>s. case f (pipes s p) of Inl e \<Rightarrow> Inl e | Inr (a, q) \<Rightarrow> Inr (a, s\<lparr>pipes := (pipes s)(p := q)\<rparr>))"

subsection \<open>Open files\<close>

definition filealloc :: "('z kstate_scheme, nat option) kern" where
  "filealloc = (\<lambda>s. case find (\<lambda>f. f_ref (files s f) = 0) [0..<NFILE] of
       None \<Rightarrow> Inr (None, s)
     | Some f \<Rightarrow> Inr (Some f, setf f (\<lambda>x. x\<lparr>f_ref := 1\<rparr>) s))"

definition filedup :: "nat \<Rightarrow> ('z kstate_scheme, nat) kern" where
  "filedup f = (\<lambda>s. if f_ref (files s f) < 1 then Inl (Panic ''filedup'')
     else Inr (f, setf f (\<lambda>x. x\<lparr>f_ref := f_ref x + 1\<rparr>) s))"

definition pipeclose :: "nat \<Rightarrow> bool \<Rightarrow> ('z kstate_scheme, unit) kern" where
  "pipeclose p writable =
     bnd (pipe_op p (\<lambda>q. case pipe_shut writable q of (q', both) \<Rightarrow> Inr (both, q'))) (\<lambda>both.
     if both then km_op (kfree p) else ret ())"

definition fileclose :: "nat \<Rightarrow> ('z kstate_scheme, unit) kern" where
  "fileclose f = (\<lambda>s. let ff = files s f in
     if f_ref ff < 1 then Inl (Panic ''fileclose'')
     else if f_ref ff - 1 > 0 then Inr ((), setf f (\<lambda>x. x\<lparr>f_ref := f_ref x - 1\<rparr>) s)
     else bnd (upd (setf f (\<lambda>x. x\<lparr>f_ref := 0, f_type := FD_NONE\<rparr>))) (\<lambda>_.
       case f_type ff of
         FD_PIPE \<Rightarrow> pipeclose (f_pipe ff) (f_writable ff)
       | FD_INODE \<Rightarrow> bnd begin_op (\<lambda>_. bnd (iops_iput (f_ip ff)) (\<lambda>_. end_op))
       | FD_NONE \<Rightarrow> ret ()) s)"

definition filestat :: "nat \<Rightarrow> ('z kstate_scheme, stat option) kern" where
  "filestat f = (\<lambda>s. let ip = f_ip (files s f) in
     if f_type (files s f) = FD_INODE then
       bnd (iops_ilock ip) (\<lambda>_.
       bnd (iops (gets (\<lambda>s. stati (inodes s ip))) (gets (\<lambda>s. stati (inodes s ip))) ip) (\<lambda>st.
       bnd (iops_iunlock ip) (\<lambda>_. ret (Some st)))) s
     else Inr (None, s))"

definition advance :: "nat \<Rightarrow> int \<Rightarrow> ('z kstate_scheme, unit) kern" where
  "advance f r = (if r > 0 then upd (setf f (\<lambda>x. x\<lparr>f_off := u32 (f_off x + nat r)\<rparr>)) else ret ())"

definition fileread :: "nat \<Rightarrow> nat \<Rightarrow> ('z kstate_scheme, int \<times> byte list) kern" where
  "fileread f n = (\<lambda>s. let ip = f_ip (files s f) in
     if \<not> f_readable (files s f) then Inr ((- 1, []), s)
     else case f_type (files s f) of
       FD_PIPE \<Rightarrow> pipe_op (f_pipe (files s f)) (piperead (cur_killed s) n) s
     | FD_INODE \<Rightarrow>
         bnd (iops_ilock ip) (\<lambda>_.
         bnd (\<lambda>s. iops_readi ip (f_off (files s f)) n s) (\<lambda>(r, bs).
         bnd (advance f r) (\<lambda>_.
         bnd (iops_iunlock ip) (\<lambda>_. ret (r, bs))))) s
     | FD_NONE \<Rightarrow> Inl (Panic ''fileread''))"

definition filewrite_max :: nat where
  "filewrite_max = (MAXOPBLOCKS - 1 - 1 - 2) div 2 * 512"

text \<open>The loop of \<open>filewrite\<close>: the value of \<open>i\<close> it ends with.\<close>

function filewrite_loop :: "nat \<Rightarrow> block \<Rightarrow> nat \<Rightarrow> nat \<Rightarrow> ('z kstate_scheme, nat) kern" where
  "filewrite_loop f src i n =
     (if i < n then
        (let n1 = min (n - i) filewrite_max in
         bnd begin_op (\<lambda>_.
         bnd (\<lambda>s. iops_ilock (f_ip (files s f)) s) (\<lambda>_.
         bnd (\<lambda>s. iops_writei (f_ip (files s f)) (\<lambda>j. src (i + j)) (f_off (files s f)) n1 s) (\<lambda>r.
         bnd (advance f r) (\<lambda>_.
         bnd (\<lambda>s. iops_iunlock (f_ip (files s f)) s) (\<lambda>_.
         bnd end_op (\<lambda>_.
         if r < 0 then ret i
         else if r \<noteq> int n1 then panic ''short filewrite''
         else filewrite_loop f src (i + n1) n)))))))
      else ret i)"
  by pat_completeness auto
termination
  by (relation "measure (\<lambda>(f, src, i, n). n - i)") (auto simp: filewrite_max_def const_defs)

declare filewrite_loop.simps [simp del]

definition filewrite :: "nat \<Rightarrow> block \<Rightarrow> nat \<Rightarrow> ('z kstate_scheme, int) kern" where
  "filewrite f src n = (\<lambda>s.
     if \<not> f_writable (files s f) then Inr (- 1, s)
     else case f_type (files s f) of
       FD_PIPE \<Rightarrow> pipe_op (f_pipe (files s f)) (pipewrite (cur_killed s) (bytes src 0 n)) s
     | FD_INODE \<Rightarrow> bnd (filewrite_loop f src 0 n) (\<lambda>i. ret (if i = n then int n else - 1)) s
     | FD_NONE \<Rightarrow> Inl (Panic ''filewrite''))"

definition pipealloc_bad :: "nat option \<Rightarrow> nat option \<Rightarrow> ('z kstate_scheme, (nat \<times> nat) option) kern" where
  "pipealloc_bad f0 f1 =
     bnd (case f0 of None \<Rightarrow> ret () | Some f \<Rightarrow> fileclose f) (\<lambda>_.
     bnd (case f1 of None \<Rightarrow> ret () | Some f \<Rightarrow> fileclose f) (\<lambda>_. ret None))"

definition pipealloc :: "('z kstate_scheme, (nat \<times> nat) option) kern" where
  "pipealloc =
     bnd filealloc (\<lambda>r0.
     case r0 of
       None \<Rightarrow> pipealloc_bad None None
     | Some f0 \<Rightarrow>
         bnd filealloc (\<lambda>r1.
         case r1 of
           None \<Rightarrow> pipealloc_bad (Some f0) None
         | Some f1 \<Rightarrow>
             bnd (km_op kalloc) (\<lambda>p.
             if p = 0 then pipealloc_bad (Some f0) (Some f1)
             else bnd (upd (\<lambda>s. s\<lparr>pipes := (pipes s)(p := pipe_init (p_data (pipes s p)))\<rparr>)) (\<lambda>_.
                  bnd (upd (setf f0 (\<lambda>x. x\<lparr>f_type := FD_PIPE, f_readable := True, f_writable := False, f_pipe := p\<rparr>))) (\<lambda>_.
                  bnd (upd (setf f1 (\<lambda>x. x\<lparr>f_type := FD_PIPE, f_readable := False, f_writable := True, f_pipe := p\<rparr>))) (\<lambda>_.
                  ret (Some (f0, f1))))))))"

subsection \<open>User memory (vm.c)\<close>

text \<open>What \<open>allocuvm\<close> does in its loop from \<open>a\<close> on; a failure has printed its message and undone the
  growth.\<close>

function allocuvm_loop :: "nat \<Rightarrow> nat \<Rightarrow> nat \<Rightarrow> nat \<Rightarrow> ('z kstate_scheme, bool) kern" where
  "allocuvm_loop pgdir oldsz newsz a =
     (if a < newsz then
        bnd (km_op kalloc) (\<lambda>p.
        if p = 0 then
          bnd (kprintf (''allocuvm out of memory'' @ [CHR 0x0A]) []) (\<lambda>_.
          bnd (km_op (deallocuvm pgdir newsz oldsz)) (\<lambda>_. ret False))
        else bnd (km_op (kzero p)) (\<lambda>_.
          bnd (km_op (mappages pgdir a PGSIZE (V2P p) (PTE_W OR PTE_U))) (\<lambda>r.
          if r < 0 then
            bnd (kprintf (''allocuvm out of memory (2)'' @ [CHR 0x0A]) []) (\<lambda>_.
            bnd (km_op (deallocuvm pgdir newsz oldsz)) (\<lambda>_.
            bnd (km_op (kfree p)) (\<lambda>_. ret False)))
          else allocuvm_loop pgdir oldsz newsz (a + PGSIZE))))
      else ret True)"
  by pat_completeness auto
termination
  by (relation "measure (\<lambda>(pgdir, oldsz, newsz, a). newsz - a)") (auto simp: const_defs)

declare allocuvm_loop.simps [simp del]

definition allocuvm :: "nat \<Rightarrow> nat \<Rightarrow> nat \<Rightarrow> ('z kstate_scheme, nat) kern" where
  "allocuvm pgdir oldsz newsz =
     (if newsz \<ge> KERNBASE then ret 0
      else if newsz < oldsz then ret oldsz
      else bnd (allocuvm_loop pgdir oldsz newsz (PGROUNDUP oldsz)) (\<lambda>good. ret (if good then newsz else 0)))"

function loaduvm_loop :: "nat \<Rightarrow> nat \<Rightarrow> nat \<Rightarrow> nat \<Rightarrow> nat \<Rightarrow> nat \<Rightarrow> ('z kstate_scheme, int) kern" where
  "loaduvm_loop pgdir addr ip offset sz i =
     (if i < sz then
        bnd (km_op (walkpgdir pgdir (u32 (addr + i)) False)) (\<lambda>r.
        case r of
          None \<Rightarrow> panic ''loaduvm: address should exist''
        | Some pte \<Rightarrow>
            bnd (km_op (kld pte)) (\<lambda>e.
            let n = min (sz - i) PGSIZE in
            bnd (iops_readi ip (u32 (offset + i)) n) (\<lambda>(m, bs).
            bnd (km_op (upd (\<lambda>k. k\<lparr>mem := blit (mem k) (P2V (PTE_ADDR e)) (\<lambda>j. bs ! j) 0 (length bs)\<rparr>))) (\<lambda>_.
            if m \<noteq> int n then ret (- 1) else loaduvm_loop pgdir addr ip offset sz (i + PGSIZE)))))
      else ret 0)"
  by pat_completeness auto
termination
  by (relation "measure (\<lambda>(pgdir, addr, ip, offset, sz, i). sz - i)") (auto simp: const_defs)

declare loaduvm_loop.simps [simp del]

definition loaduvm :: "nat \<Rightarrow> nat \<Rightarrow> nat \<Rightarrow> nat \<Rightarrow> nat \<Rightarrow> ('z kstate_scheme, int) kern" where
  "loaduvm pgdir addr ip offset sz =
     (if addr mod PGSIZE \<noteq> 0 then panic ''loaduvm: addr must be page aligned''
      else loaduvm_loop pgdir addr ip offset sz 0)"

definition switchuvm :: "nat \<Rightarrow> ('z kstate_scheme, unit) kern" where
  "switchuvm p = (\<lambda>s.
     if p_kstack (procs s p) = 0 then Inl (Panic ''switchuvm: no kstack'')
     else if p_pgdir (procs s p) = 0 then Inl (Panic ''switchuvm: no pgdir'')
     else Inr ((), s\<lparr>cr3 := V2P (p_pgdir (procs s p))\<rparr>))"

end
