(* ===== verification/Proc.thy ===== *)
theory Proc
  imports Kernel
begin

section \<open>Processes (proc.c, trap.c)\<close>

text \<open>
  The process table and the routines of proc.c, on one processor; \<open>ptable.lock\<close> makes each table
  operation one step. A process that leaves the processor (\<open>sleep\<close>, \<open>yield\<close>, \<open>exit\<close>) changes its state
  and the scheduler picks the next one; \<open>scheduler_run\<close> is one such dispatch.
\<close>

subsection \<open>Creation\<close>

definition safestrcpy_to :: "block \<Rightarrow> block \<Rightarrow> nat \<Rightarrow> block" where
  "safestrcpy_to d src n = (\<lambda>i. if i < n then safestrcpy (\<lambda>j. if j < n then d j else src (j - n)) 0 n n i else d i)"

text \<open>The trap frame and the context lie on the new kernel stack; the frame holds what the page held.\<close>

definition allocproc :: "('z kstate_scheme, nat option) kern" where
  "allocproc = (\<lambda>s. case find (\<lambda>p. p_state (procs s p) = UNUSED) [0..<NPROC] of
       None \<Rightarrow> Inr (None, s)
     | Some p \<Rightarrow>
         bnd (upd (\<lambda>s. (setp p (\<lambda>x. x\<lparr>p_state := EMBRYO, p_pid := nextpid s\<rparr>) s)\<lparr>nextpid := u32 (nextpid s + 1)\<rparr>)) (\<lambda>_.
         bnd (km_op kalloc) (\<lambda>k.
         bnd (upd (setp p (\<lambda>x. x\<lparr>p_kstack := k\<rparr>))) (\<lambda>_.
         if k = 0 then bnd (upd (setp p (\<lambda>x. x\<lparr>p_state := UNUSED\<rparr>))) (\<lambda>_. ret None)
         else ret (Some p)))) s)"

definition user_tf :: trapframe where
  "user_tf = \<lparr>tf_eax = 0, tf_eip = 0, tf_esp = PGSIZE, tf_cs = 27, tf_ds = 35, tf_es = 35, tf_ss = 35,
     tf_eflags = 512, tf_regs = (\<lambda>_. 0)\<rparr>"

definition userinit :: "byte list \<Rightarrow> ('z kstate_scheme, unit) kern" where
  "userinit initcode =
     bnd allocproc (\<lambda>r.
     case r of
       None \<Rightarrow> fail (Undef ''userinit'')
     | Some p \<Rightarrow>
         bnd (upd (\<lambda>s. s\<lparr>initproc := p\<rparr>)) (\<lambda>_.
         bnd (km_op setupkvm) (\<lambda>pg.
         bnd (upd (setp p (\<lambda>x. x\<lparr>p_pgdir := pg\<rparr>))) (\<lambda>_.
         if pg = 0 then panic ''userinit: out of memory?''
         else bnd (km_op (inituvm pg initcode)) (\<lambda>_.
              bnd (upd (setp p (\<lambda>x. x\<lparr>p_sz := PGSIZE, p_tf := user_tf,
                     p_name := safestrcpy_to (p_name x) (c_string (map of_char ''initcode'')) 16\<rparr>))) (\<lambda>_.
              bnd (namei [47]) (\<lambda>ip.
              upd (setp p (\<lambda>x. x\<lparr>p_cwd := ip, p_state := RUNNABLE\<rparr>)))))))))"

definition add_int :: "nat \<Rightarrow> int \<Rightarrow> nat" where
  "add_int a n = nat ((int a + n) mod 4294967296)"

definition growproc :: "int \<Rightarrow> ('z kstate_scheme, int) kern" where
  "growproc n = (\<lambda>s. let p = myproc s; sz = p_sz p in
     bnd (if n > 0 then allocuvm (p_pgdir p) sz (add_int sz n)
          else if n < 0 then km_op (deallocuvm (p_pgdir p) sz (add_int sz n))
          else ret sz) (\<lambda>sz'.
     if n \<noteq> 0 \<and> sz' = 0 then ret (- 1)
     else bnd (upd (setp (cur s) (\<lambda>x. x\<lparr>p_sz := sz'\<rparr>))) (\<lambda>_.
          bnd (switchuvm (cur s)) (\<lambda>_. ret 0))) s)"

fun fork_files :: "nat \<Rightarrow> nat \<Rightarrow> nat \<Rightarrow> ('z kstate_scheme, unit) kern" where
  "fork_files np i 0 = ret ()"
| "fork_files np i (Suc k) =
     bnd (\<lambda>s. case p_ofile (myproc s) i of
            None \<Rightarrow> Inr ((), s)
          | Some f \<Rightarrow> bnd (filedup f) (\<lambda>f. upd (setp np (\<lambda>x. x\<lparr>p_ofile := (p_ofile x)(i := Some f)\<rparr>))) s) (\<lambda>_.
     fork_files np (i + 1) k)"

text \<open>Everything after the allocation: the new process gets a copy of the running one.\<close>

definition fork_copy :: "nat \<Rightarrow> ('z kstate_scheme, int) kern" where
  "fork_copy np =
     bnd (\<lambda>s. km_op (copyuvm (p_pgdir (myproc s)) (p_sz (myproc s))) s) (\<lambda>pg.
     bnd (upd (setp np (\<lambda>x. x\<lparr>p_pgdir := pg\<rparr>))) (\<lambda>_.
     if pg = 0 then
       bnd (\<lambda>s. km_op (kfree (p_kstack (procs s np))) s) (\<lambda>_.
       bnd (upd (setp np (\<lambda>x. x\<lparr>p_kstack := 0, p_state := UNUSED\<rparr>))) (\<lambda>_.
       ret (- 1)))
     else
       bnd (upd (\<lambda>s. setp np (\<lambda>x. x\<lparr>p_sz := p_sz (myproc s), p_parent := Some (cur s),
              p_tf := (p_tf (myproc s))\<lparr>tf_eax := 0\<rparr>\<rparr>) s)) (\<lambda>_.
       bnd (fork_files np 0 NOFILE) (\<lambda>_.
       bnd (\<lambda>s. idup (cur_cwd s) s) (\<lambda>ip.
       bnd (upd (\<lambda>s. setp np (\<lambda>x. x\<lparr>p_cwd := Some ip,
              p_name := safestrcpy_to (p_name x) (p_name (myproc s)) 16\<rparr>) s)) (\<lambda>_.
       bnd (upd (setp np (\<lambda>x. x\<lparr>p_state := RUNNABLE\<rparr>))) (\<lambda>_.
       gets (\<lambda>s. s32 (p_pid (procs s np))))))))))"

definition fork :: "('z kstate_scheme, int) kern" where
  "fork = bnd allocproc (\<lambda>r. case r of None \<Rightarrow> ret (- 1) | Some np \<Rightarrow> fork_copy np)"

subsection \<open>Sleeping and waking\<close>

definition wakeup1 :: "chan \<Rightarrow> 'z kstate_scheme \<Rightarrow> 'z kstate_scheme" where
  "wakeup1 ch s = s\<lparr>procs := (\<lambda>p. if p < NPROC \<and> p_state (procs s p) = SLEEPING \<and> p_chan (procs s p) = Some ch
     then (procs s p)\<lparr>p_state := RUNNABLE\<rparr> else procs s p)\<rparr>"

definition sleep :: "chan \<Rightarrow> 'z kstate_scheme \<Rightarrow> 'z kstate_scheme" where
  "sleep ch s = setp (cur s) (\<lambda>x. x\<lparr>p_chan := Some ch, p_state := SLEEPING\<rparr>) s"

text \<open>What a process does when it is back from \<open>sched\<close> in \<open>sleep\<close>.\<close>

definition sleep_back :: "'z kstate_scheme \<Rightarrow> 'z kstate_scheme" where
  "sleep_back s = setp (cur s) (\<lambda>x. x\<lparr>p_chan := None\<rparr>) s"

definition yield :: "'z kstate_scheme \<Rightarrow> 'z kstate_scheme" where
  "yield s = setp (cur s) (\<lambda>x. x\<lparr>p_state := RUNNABLE\<rparr>) s"

text \<open>The flag is seen by the running process at once if it kills itself.\<close>

definition kill :: "nat \<Rightarrow> ('z kstate_scheme, int) kern" where
  "kill pid = (\<lambda>s. case find (\<lambda>p. p_pid (procs s p) = pid) [0..<NPROC] of
       None \<Rightarrow> Inr (- 1, s)
     | Some p \<Rightarrow> Inr (0, (setp p (\<lambda>x. x\<lparr>p_killed := True,
            p_state := (if p_state x = SLEEPING then RUNNABLE else p_state x)\<rparr>) s)
          \<lparr>cur_killed := (cur_killed s \<or> p = cur s)\<rparr>))"

subsection \<open>Exit and wait\<close>

fun exit_files :: "nat \<Rightarrow> nat \<Rightarrow> ('z kstate_scheme, unit) kern" where
  "exit_files fd 0 = ret ()"
| "exit_files fd (Suc k) =
     bnd (\<lambda>s. case p_ofile (myproc s) fd of
            None \<Rightarrow> Inr ((), s)
          | Some f \<Rightarrow> bnd (fileclose f) (\<lambda>_. upd (\<lambda>s. setp (cur s) (\<lambda>x. x\<lparr>p_ofile := (p_ofile x)(fd := None)\<rparr>) s)) s) (\<lambda>_.
     exit_files (fd + 1) k)"

text \<open>The scan that passes the children on to \<open>initproc\<close>, from \<open>p\<close> over \<open>k\<close> entries.\<close>

fun reparent :: "nat \<Rightarrow> nat \<Rightarrow> 'z kstate_scheme \<Rightarrow> 'z kstate_scheme" where
  "reparent p 0 s = s"
| "reparent p (Suc k) s =
     (let s = (if p_parent (procs s p) = Some (cur s) then
                 (let s = setp p (\<lambda>x. x\<lparr>p_parent := Some (initproc s)\<rparr>) s
                  in if p_state (procs s p) = ZOMBIE then wakeup1 (ChProc (initproc s)) s else s)
               else s)
      in reparent (p + 1) k s)"

definition exit_table :: "'z kstate_scheme \<Rightarrow> 'z kstate_scheme" where
  "exit_table s =
     (let s = (case p_parent (myproc s) of None \<Rightarrow> s | Some q \<Rightarrow> wakeup1 (ChProc q) s);
          s = reparent 0 NPROC s
      in setp (cur s) (\<lambda>x. x\<lparr>p_state := ZOMBIE\<rparr>) s)"

definition exit :: "('z kstate_scheme, unit) kern" where
  "exit = (\<lambda>s.
     if cur s = initproc s then Inl (Panic ''init exiting'')
     else bnd (exit_files 0 NOFILE) (\<lambda>_.
          bnd begin_op (\<lambda>_.
          bnd (\<lambda>s. iops_iput (cur_cwd s) s) (\<lambda>_.
          bnd end_op (\<lambda>_.
          bnd (upd (\<lambda>s. setp (cur s) (\<lambda>x. x\<lparr>p_cwd := None\<rparr>) s)) (\<lambda>_.
          upd exit_table))))) s)"

definition zombie_child :: "'z kstate_scheme \<Rightarrow> nat option" where
  "zombie_child s = find (\<lambda>p. p_parent (procs s p) = Some (cur s) \<and> p_state (procs s p) = ZOMBIE) [0..<NPROC]"

definition wait :: "('z kstate_scheme, int) kern" where
  "wait = (\<lambda>s.
     case zombie_child s of
       Some p \<Rightarrow>
         bnd (km_op (kfree (p_kstack (procs s p)))) (\<lambda>_.
         bnd (upd (setp p (\<lambda>x. x\<lparr>p_kstack := 0\<rparr>))) (\<lambda>_.
         bnd (km_op (freevm (p_pgdir (procs s p)))) (\<lambda>_.
         bnd (upd (setp p (\<lambda>x. x\<lparr>p_pid := 0, p_parent := None, p_name := (p_name x)(0 := 0), p_killed := False,
                p_state := UNUSED\<rparr>))) (\<lambda>_.
         ret (s32 (p_pid (procs s p))))))) s
     | None \<Rightarrow>
         (if (\<forall>p \<in> set [0..<NPROC]. p_parent (procs s p) \<noteq> Some (cur s)) \<or> p_killed (myproc s) then Inr (- 1, s)
          else Inl (Blocked ''wait'')))"

subsection \<open>Scheduling\<close>

text \<open>The process the scan of the table comes to next when it stands at entry \<open>i\<close>.\<close>

definition scheduler_next :: "nat \<Rightarrow> 'z kstate_scheme \<Rightarrow> nat option" where
  "scheduler_next i s = find (\<lambda>p. p_state (procs s p) = RUNNABLE) ([i..<NPROC] @ [0..<NPROC])"

definition scheduler_run :: "nat \<Rightarrow> ('z kstate_scheme, unit) kern" where
  "scheduler_run p =
     bnd (switchuvm p) (\<lambda>_.
     upd (\<lambda>s. (setp p (\<lambda>x. x\<lparr>p_state := RUNNING\<rparr>) s)\<lparr>cur := p, cur_pid := p_pid (procs s p),
       cur_killed := p_killed (procs s p),
       cur_cwd := (case p_cwd (procs s p) of Some i \<Rightarrow> i | None \<Rightarrow> cur_cwd s)\<rparr>))"

definition sched :: "('z kstate_scheme, unit) kern" where
  "sched = (\<lambda>s. if p_state (myproc s) = RUNNING then Inl (Panic ''sched running'') else Inr ((), s))"

text \<open>The first time, the file systems are initialised in the context of a process.\<close>

definition forkret :: "bool \<Rightarrow> ('z kstate_scheme, bool) kern" where
  "forkret first =
     (if first then bnd (iinit ROOTDEV) (\<lambda>_. bnd (initlog ROOTDEV) (\<lambda>_. bnd (ext2_iinit EXT2DEV) (\<lambda>_. ret False)))
      else ret False)"

text \<open>The clock interrupt of processor 0 (trap.c).\<close>

definition timer_tick :: "'z kstate_scheme \<Rightarrow> 'z kstate_scheme" where
  "timer_tick s = wakeup1 ChTicks (s\<lparr>ticks := u32 (ticks s + 1)\<rparr>)"

end
