(* ===== verification/Syscall.thy ===== *)
theory Syscall
  imports Proc
begin

section \<open>System calls (syscall.c, sysfile.c, sysproc.c)\<close>

text \<open>
  Arguments come from the user stack of the running process, through its page table. A kernel access
  to a user address that is not mapped traps, and \<open>trap\<close> panics for a trap in the kernel.
\<close>

subsection \<open>User memory\<close>

definition user_ka :: "kmem \<Rightarrow> nat \<Rightarrow> nat \<Rightarrow> nat option" where
  "user_ka k pgdir va = (let e = rd32 (mem k) (pgdir + 4 * PDX va) in
     if \<not> flag e PTE_P then None
     else (let t = rd32 (mem k) (P2V (PTE_ADDR e) + 4 * PTX va) in
       if \<not> flag t PTE_P then None else Some (P2V (PTE_ADDR t) + va mod PGSIZE)))"

definition user_byte :: "nat \<Rightarrow> ('z kstate_scheme, byte) kern" where
  "user_byte va = (\<lambda>s. case user_ka (km s) (p_pgdir (myproc s)) va of
     None \<Rightarrow> Inl (Panic ''trap'') | Some a \<Rightarrow> Inr (mem (km s) a, s))"

fun user_bytes :: "nat \<Rightarrow> nat \<Rightarrow> ('z kstate_scheme, byte list) kern" where
  "user_bytes va 0 = ret []"
| "user_bytes va (Suc n) = bnd (user_byte va) (\<lambda>b. bnd (user_bytes (u32 (va + 1)) n) (\<lambda>bs. ret (b # bs)))"

fun user_store :: "nat \<Rightarrow> byte list \<Rightarrow> ('z kstate_scheme, unit) kern" where
  "user_store va [] = ret ()"
| "user_store va (b # bs) =
     bnd (\<lambda>s. case user_ka (km s) (p_pgdir (myproc s)) va of
            None \<Rightarrow> Inl (Panic ''trap'')
          | Some a \<Rightarrow> km_op (upd (\<lambda>k. k\<lparr>mem := (mem k)(a := b)\<rparr>)) s) (\<lambda>_.
     user_store (u32 (va + 1)) bs)"

subsection \<open>Fetching arguments\<close>

definition fetchint :: "nat \<Rightarrow> ('z kstate_scheme, nat option) kern" where
  "fetchint addr = (\<lambda>s. if addr \<ge> p_sz (myproc s) \<or> u32 (addr + 4) > p_sz (myproc s) then Inr (None, s)
     else bnd (user_bytes addr 4) (\<lambda>bs. ret (Some (rd32 (c_string bs) 0))) s)"

text \<open>The bytes of the string before its terminating zero, looked for in \<open>n\<close> bytes.\<close>

fun fetchstr_loop :: "nat \<Rightarrow> nat \<Rightarrow> ('z kstate_scheme, byte list option) kern" where
  "fetchstr_loop a 0 = ret None"
| "fetchstr_loop a (Suc n) =
     bnd (user_byte a) (\<lambda>b.
     if b = 0 then ret (Some [])
     else bnd (fetchstr_loop (a + 1) n) (\<lambda>r. ret (map_option ((#) b) r)))"

definition fetchstr :: "nat \<Rightarrow> ('z kstate_scheme, byte list option) kern" where
  "fetchstr addr = (\<lambda>s. if addr \<ge> p_sz (myproc s) then Inr (None, s)
     else fetchstr_loop addr (p_sz (myproc s) - addr) s)"

definition argint :: "nat \<Rightarrow> ('z kstate_scheme, nat option) kern" where
  "argint n = (\<lambda>s. fetchint (u32 (tf_esp (p_tf (myproc s)) + 4 + 4 * n)) s)"

definition argptr :: "nat \<Rightarrow> int \<Rightarrow> ('z kstate_scheme, nat option) kern" where
  "argptr n sz =
     bnd (argint n) (\<lambda>r.
     case r of
       None \<Rightarrow> ret None
     | Some i \<Rightarrow> (\<lambda>s. if sz < 0 \<or> i \<ge> p_sz (myproc s) \<or> u32 (i + nat sz) > p_sz (myproc s) then Inr (None, s)
         else Inr (Some i, s)))"

definition argstr :: "nat \<Rightarrow> ('z kstate_scheme, byte list option) kern" where
  "argstr n = bnd (argint n) (\<lambda>r. case r of None \<Rightarrow> ret None | Some addr \<Rightarrow> fetchstr addr)"

definition argfd :: "nat \<Rightarrow> ('z kstate_scheme, (nat \<times> nat) option) kern" where
  "argfd n =
     bnd (argint n) (\<lambda>r.
     case r of
       None \<Rightarrow> ret None
     | Some fd \<Rightarrow> (\<lambda>s. if s32 fd < 0 \<or> fd \<ge> NOFILE then Inr (None, s)
         else Inr (map_option (\<lambda>f. (fd, f)) (p_ofile (myproc s) fd), s)))"

definition fdalloc :: "nat \<Rightarrow> ('z kstate_scheme, nat option) kern" where
  "fdalloc f = (\<lambda>s. case find (\<lambda>fd. p_ofile (myproc s) fd = None) [0..<NOFILE] of
       None \<Rightarrow> Inr (None, s)
     | Some fd \<Rightarrow> Inr (Some fd, setp (cur s) (\<lambda>x. x\<lparr>p_ofile := (p_ofile x)(fd := Some f)\<rparr>) s))"

definition clear_fd :: "nat \<Rightarrow> ('z kstate_scheme, unit) kern" where
  "clear_fd fd = upd (\<lambda>s. setp (cur s) (\<lambda>x. x\<lparr>p_ofile := (p_ofile x)(fd := None)\<rparr>) s)"

subsection \<open>Calls on open files\<close>

definition sys_dup :: "('z kstate_scheme, int) kern" where
  "sys_dup =
     bnd (argfd 0) (\<lambda>r.
     case r of
       None \<Rightarrow> ret (- 1)
     | Some (_, f) \<Rightarrow>
         bnd (fdalloc f) (\<lambda>r.
         case r of None \<Rightarrow> ret (- 1) | Some fd \<Rightarrow> bnd (filedup f) (\<lambda>_. ret (int fd))))"

text \<open>The three argument checks that \<open>read\<close> and \<open>write\<close> share: file, buffer, count.\<close>

definition rw_args :: "('z kstate_scheme, (nat \<times> nat \<times> nat) option) kern" where
  "rw_args =
     bnd (argfd 0) (\<lambda>r.
     case r of
       None \<Rightarrow> ret None
     | Some (_, f) \<Rightarrow>
         bnd (argint 2) (\<lambda>r.
         case r of
           None \<Rightarrow> ret None
         | Some n \<Rightarrow> bnd (argptr 1 (s32 n)) (\<lambda>r. ret (map_option (\<lambda>p. (f, p, n)) r))))"

definition sys_read :: "('z kstate_scheme, int) kern" where
  "sys_read =
     bnd rw_args (\<lambda>r.
     case r of
       None \<Rightarrow> ret (- 1)
     | Some (f, p, n) \<Rightarrow>
         bnd (fileread f n) (\<lambda>(m, bs).
         bnd (user_store p bs) (\<lambda>_. ret m)))"

definition sys_write :: "('z kstate_scheme, int) kern" where
  "sys_write =
     bnd rw_args (\<lambda>r.
     case r of
       None \<Rightarrow> ret (- 1)
     | Some (f, p, n) \<Rightarrow>
         bnd (user_bytes p n) (\<lambda>bs. filewrite f (c_string bs) n))"

definition sys_close :: "('z kstate_scheme, int) kern" where
  "sys_close =
     bnd (argfd 0) (\<lambda>r.
     case r of
       None \<Rightarrow> ret (- 1)
     | Some (fd, f) \<Rightarrow>
         bnd (clear_fd fd) (\<lambda>_. bnd (fileclose f) (\<lambda>_. ret 0)))"

text \<open>\<open>struct stat\<close> as it lies in memory, 20 bytes; the padding behind \<open>type\<close> and \<open>nlink\<close> is not
  written.\<close>

definition sizeof_stat :: nat where [const_defs]: "sizeof_stat = 20"

definition put_stat :: "stat \<Rightarrow> block \<Rightarrow> block" where
  "put_stat st d = wr32 (wr16 (wr32 (wr32 (wr16 d 0 (u16_of (st_type st))) 4 (st_dev st)) 8 (st_ino st))
     12 (u16_of (st_nlink st))) 16 (st_size st)"

definition sys_fstat :: "('z kstate_scheme, int) kern" where
  "sys_fstat =
     bnd (argfd 0) (\<lambda>r.
     case r of
       None \<Rightarrow> ret (- 1)
     | Some (_, f) \<Rightarrow>
         bnd (argptr 1 (int sizeof_stat)) (\<lambda>r.
         case r of
           None \<Rightarrow> ret (- 1)
         | Some p \<Rightarrow>
             bnd (filestat f) (\<lambda>r.
             case r of
               None \<Rightarrow> ret (- 1)
             | Some st \<Rightarrow>
                 bnd (user_bytes p sizeof_stat) (\<lambda>old.
                 bnd (user_store p (bytes (put_stat st (c_string old)) 0 sizeof_stat)) (\<lambda>_.
                 ret 0)))))"

subsection \<open>Calls on names\<close>

text \<open>\<open>end_op(); return -1;\<close>\<close>

definition end_fail :: "('z kstate_scheme, int) kern" where
  "end_fail = bnd end_op (\<lambda>_. ret (- 1))"

definition add_nlink :: "nat \<Rightarrow> int \<Rightarrow> ('z fstate_scheme, unit) kern" where
  "add_nlink ip d = bnd (upd (seti ip (\<lambda>x. x\<lparr>i_nlink := s16 (u16_of (i_nlink x + d))\<rparr>))) (\<lambda>_. iops_iupdate ip)"

definition link_bad :: "nat \<Rightarrow> ('z kstate_scheme, int) kern" where
  "link_bad ip =
     bnd (iops_ilock ip) (\<lambda>_.
     bnd (add_nlink ip (- 1)) (\<lambda>_.
     bnd (iops_iunlockput ip) (\<lambda>_. end_fail)))"

text \<open>The parent \<open>dp\<close> is locked and put through the operations of the file \<open>ip\<close>, as in the code.\<close>

definition sys_link :: "('z kstate_scheme, int) kern" where
  "sys_link =
     bnd (argstr 0) (\<lambda>r0. case r0 of None \<Rightarrow> ret (- 1) | Some old \<Rightarrow>
     bnd (argstr 1) (\<lambda>r1. case r1 of None \<Rightarrow> ret (- 1) | Some new \<Rightarrow>
     bnd begin_op (\<lambda>_.
     bnd (namei old) (\<lambda>r. case r of None \<Rightarrow> end_fail | Some ip \<Rightarrow>
     bnd (iops_ilock ip) (\<lambda>_ s.
     if i_type (inodes s ip) = T_DIR then bnd (iops_iunlockput ip) (\<lambda>_. end_fail) s
     else
       bnd (add_nlink ip 1) (\<lambda>_.
       bnd (iops_iunlock ip) (\<lambda>_.
       bnd (nameiparent new) (\<lambda>(r, name). case r of None \<Rightarrow> link_bad ip | Some dp \<Rightarrow>
       bnd (iops (ilock dp) (ext2_ilock dp) ip) (\<lambda>_.
       bnd (\<lambda>s. if i_dev (inodes s dp) \<noteq> i_dev (inodes s ip) then Inr (- 1, s)
              else iops_dirlink dp name (i_inum (inodes s ip)) s) (\<lambda>n.
       bnd (iops (iunlockput dp) (iunlockput dp) ip) (\<lambda>_.
       if n < 0 then link_bad ip
       else bnd (iops_iput ip) (\<lambda>_.
            bnd end_op (\<lambda>_. ret 0)))))))) s)))))"

definition unlink_bad :: "nat \<Rightarrow> ('z kstate_scheme, int) kern" where
  "unlink_bad dp = bnd (iops_iunlockput dp) (\<lambda>_. end_fail)"

definition sys_unlink :: "('z kstate_scheme, int) kern" where
  "sys_unlink =
     bnd (argstr 0) (\<lambda>r0. case r0 of None \<Rightarrow> ret (- 1) | Some path \<Rightarrow>
     bnd begin_op (\<lambda>_.
     bnd (nameiparent path) (\<lambda>(r, name). case r of None \<Rightarrow> end_fail | Some dp \<Rightarrow>
     bnd (iops_ilock dp) (\<lambda>_.
     bnd (iops_namecmp dp name dot) (\<lambda>c1.
     bnd (if c1 = 0 then ret 0 else iops_namecmp dp name dotdot) (\<lambda>c2.
     if c2 = 0 then unlink_bad dp
     else bnd (iops_dirlookup dp name) (\<lambda>r. case r of None \<Rightarrow> unlink_bad dp | Some (ip, off) \<Rightarrow>
       bnd (iops_ilock ip) (\<lambda>_ s.
       if i_nlink (inodes s ip) < 1 then Inl (Panic ''unlink: nlink < 1'')
       else bnd (if i_type (inodes s ip) = T_DIR then iops_isdirempty ip else ret True) (\<lambda>empty.
         if \<not> empty then bnd (iops_iunlockput ip) (\<lambda>_. unlink_bad dp)
         else
           bnd (iops_unlink dp off) (\<lambda>_.
           bnd (\<lambda>s. if i_type (inodes s ip) = T_DIR then add_nlink dp (- 1) s else Inr ((), s)) (\<lambda>_.
           bnd (iops_iunlockput dp) (\<lambda>_.
           bnd (add_nlink ip (- 1)) (\<lambda>_.
           bnd (iops_iunlockput ip) (\<lambda>_.
           bnd end_op (\<lambda>_. ret 0))))))) s))))))))"

definition create :: "byte list \<Rightarrow> int \<Rightarrow> int \<Rightarrow> int \<Rightarrow> ('z kstate_scheme, nat option) kern" where
  "create path type major minor =
     bnd (nameiparent path) (\<lambda>(r, name). case r of None \<Rightarrow> ret None | Some dp \<Rightarrow>
     bnd (iops_ilock dp) (\<lambda>_.
     bnd (iops_dirlookup dp name) (\<lambda>r. case r of
       Some (ip, _) \<Rightarrow>
         bnd (iops_iunlockput dp) (\<lambda>_.
         bnd (iops_ilock ip) (\<lambda>_ s.
         if type = T_FILE \<and> i_type (inodes s ip) = T_FILE then Inr (Some ip, s)
         else bnd (iops_iunlockput ip) (\<lambda>_. ret None) s))
     | None \<Rightarrow>
         bnd (\<lambda>s. iops_ialloc dp (i_dev (inodes s dp)) type s) (\<lambda>ip.
         bnd (iops_ilock ip) (\<lambda>_.
         bnd (upd (seti ip (\<lambda>x. x\<lparr>i_major := major, i_minor := minor, i_nlink := 1\<rparr>))) (\<lambda>_.
         bnd (iops_iupdate ip) (\<lambda>_.
         bnd (if type = T_DIR then
                bnd (add_nlink dp 1) (\<lambda>_.
                bnd (\<lambda>s. iops_dirlink ip dot (i_inum (inodes s ip)) s) (\<lambda>n1.
                bnd (if n1 < 0 then ret (- 1) else (\<lambda>s. iops_dirlink ip dotdot (i_inum (inodes s dp)) s)) (\<lambda>n2.
                if n2 < 0 then panic ''create dots'' else ret ())))
              else ret ()) (\<lambda>_.
         bnd (\<lambda>s. iops_dirlink dp name (i_inum (inodes s ip)) s) (\<lambda>n.
         if n < 0 then panic ''create: dirlink''
         else bnd (iops_iunlockput dp) (\<lambda>_. ret (Some ip))))))))))) "

definition O_RDONLY :: nat where [const_defs]: "O_RDONLY = 0"
definition O_WRONLY :: nat where [const_defs]: "O_WRONLY = 1"
definition O_RDWR :: nat where [const_defs]: "O_RDWR = 2"
definition O_CREATE :: nat where [const_defs]: "O_CREATE = 512"

text \<open>The inode to open, locked.\<close>

definition open_inode :: "byte list \<Rightarrow> nat \<Rightarrow> ('z kstate_scheme, nat option) kern" where
  "open_inode path omode =
     (if omode AND O_CREATE \<noteq> 0 then create path T_FILE 0 0
      else bnd (namei path) (\<lambda>r. case r of None \<Rightarrow> ret None | Some ip \<Rightarrow>
        bnd (iops_ilock ip) (\<lambda>_ s.
        if i_type (inodes s ip) = T_DIR \<and> omode \<noteq> O_RDONLY then bnd (iops_iunlockput ip) (\<lambda>_. ret None) s
        else Inr (Some ip, s))))"

definition sys_open :: "('z kstate_scheme, int) kern" where
  "sys_open =
     bnd (argstr 0) (\<lambda>r0. case r0 of None \<Rightarrow> ret (- 1) | Some path \<Rightarrow>
     bnd (argint 1) (\<lambda>r1. case r1 of None \<Rightarrow> ret (- 1) | Some omode \<Rightarrow>
     bnd begin_op (\<lambda>_.
     bnd (open_inode path omode) (\<lambda>r. case r of None \<Rightarrow> end_fail | Some ip \<Rightarrow>
     bnd filealloc (\<lambda>r. case r of None \<Rightarrow> bnd (iops_iunlockput ip) (\<lambda>_. end_fail) | Some f \<Rightarrow>
     bnd (fdalloc f) (\<lambda>r. case r of
       None \<Rightarrow> bnd (fileclose f) (\<lambda>_. bnd (iops_iunlockput ip) (\<lambda>_. end_fail))
     | Some fd \<Rightarrow>
         bnd (iops_iunlock ip) (\<lambda>_.
         bnd end_op (\<lambda>_.
         bnd (upd (setf f (\<lambda>x. x\<lparr>f_type := FD_INODE, f_ip := ip, f_off := 0,
                f_readable := (omode AND O_WRONLY = 0),
                f_writable := (omode AND O_WRONLY \<noteq> 0 \<or> omode AND O_RDWR \<noteq> 0)\<rparr>))) (\<lambda>_.
         ret (int fd))))))))))"

definition sys_mkdir :: "('z kstate_scheme, int) kern" where
  "sys_mkdir =
     bnd begin_op (\<lambda>_.
     bnd (argstr 0) (\<lambda>r. case r of None \<Rightarrow> end_fail | Some path \<Rightarrow>
     bnd (create path T_DIR 0 0) (\<lambda>r. case r of None \<Rightarrow> end_fail | Some ip \<Rightarrow>
     bnd (iops_iunlockput ip) (\<lambda>_. bnd end_op (\<lambda>_. ret 0)))))"

definition sys_mknod :: "('z kstate_scheme, int) kern" where
  "sys_mknod =
     bnd begin_op (\<lambda>_.
     bnd (argstr 0) (\<lambda>r. case r of None \<Rightarrow> end_fail | Some path \<Rightarrow>
     bnd (argint 1) (\<lambda>r. case r of None \<Rightarrow> end_fail | Some major \<Rightarrow>
     bnd (argint 2) (\<lambda>r. case r of None \<Rightarrow> end_fail | Some minor \<Rightarrow>
     bnd (create path T_DEV (s16 (major mod 65536)) (s16 (minor mod 65536))) (\<lambda>r. case r of None \<Rightarrow> end_fail | Some ip \<Rightarrow>
     bnd (iops_iunlockput ip) (\<lambda>_. bnd end_op (\<lambda>_. ret 0)))))))"

definition sys_chdir :: "('z kstate_scheme, int) kern" where
  "sys_chdir =
     bnd begin_op (\<lambda>_.
     bnd (argstr 0) (\<lambda>r. case r of None \<Rightarrow> end_fail | Some path \<Rightarrow>
     bnd (namei path) (\<lambda>r. case r of None \<Rightarrow> end_fail | Some ip \<Rightarrow>
     bnd (iops_ilock ip) (\<lambda>_ s.
     if i_type (inodes s ip) \<noteq> T_DIR then bnd (iops_iunlockput ip) (\<lambda>_. end_fail) s
     else
       bnd (iops_iunlock ip) (\<lambda>_.
       bnd (\<lambda>s. iops_iput (cur_cwd s) s) (\<lambda>_.
       bnd end_op (\<lambda>_.
       bnd (upd (\<lambda>s. (setp (cur s) (\<lambda>x. x\<lparr>p_cwd := Some ip\<rparr>) s)\<lparr>cur_cwd := ip\<rparr>)) (\<lambda>_.
       ret 0)))) s))))"

definition sys_pipe :: "('z kstate_scheme, int) kern" where
  "sys_pipe =
     bnd (argptr 0 8) (\<lambda>r. case r of None \<Rightarrow> ret (- 1) | Some p \<Rightarrow>
     bnd pipealloc (\<lambda>r. case r of None \<Rightarrow> ret (- 1) | Some (fr, fw) \<Rightarrow>
     bnd (fdalloc fr) (\<lambda>r0. case r0 of
       None \<Rightarrow> bnd (fileclose fr) (\<lambda>_. bnd (fileclose fw) (\<lambda>_. ret (- 1)))
     | Some fd0 \<Rightarrow>
         bnd (fdalloc fw) (\<lambda>r1. case r1 of
           None \<Rightarrow> bnd (clear_fd fd0) (\<lambda>_. bnd (fileclose fr) (\<lambda>_. bnd (fileclose fw) (\<lambda>_. ret (- 1))))
         | Some fd1 \<Rightarrow>
             bnd (user_store p (bytes (wr32 (wr32 (\<lambda>_. 0) 0 fd0) 4 fd1) 0 8)) (\<lambda>_. ret 0)))))"

subsection \<open>Calls on processes\<close>

definition sys_kill :: "('z kstate_scheme, int) kern" where
  "sys_kill = bnd (argint 0) (\<lambda>r. case r of None \<Rightarrow> ret (- 1) | Some pid \<Rightarrow> kill pid)"

definition sys_getpid :: "('z kstate_scheme, int) kern" where
  "sys_getpid = gets (\<lambda>s. s32 (p_pid (myproc s)))"

definition sys_sbrk :: "('z kstate_scheme, int) kern" where
  "sys_sbrk =
     bnd (argint 0) (\<lambda>r. case r of None \<Rightarrow> ret (- 1) | Some n \<Rightarrow>
     bnd (gets (\<lambda>s. int (p_sz (myproc s)))) (\<lambda>addr.
     bnd (growproc (s32 n)) (\<lambda>g. ret (if g < 0 then - 1 else addr))))"

text \<open>A sleep that is not over at once waits for the clock.\<close>

definition sys_sleep :: "('z kstate_scheme, int) kern" where
  "sys_sleep =
     bnd (argint 0) (\<lambda>r. case r of None \<Rightarrow> ret (- 1) | Some n \<Rightarrow>
     (\<lambda>s. if n = 0 then Inr (0, s) else if p_killed (myproc s) then Inr (- 1, s) else Inl (Blocked ''sys_sleep'')))"

definition sys_uptime :: "('z kstate_scheme, int) kern" where
  "sys_uptime = gets (\<lambda>s. s32 (ticks s))"

end
