(* ===== verification/Exec.thy ===== *)
theory Exec
  imports Syscall
begin

section \<open>Loading programs and the system call table (exec.c, syscall.c, trap.c)\<close>

text \<open>
  \<open>exec\<close> replaces the memory image of the running process; \<open>syscall\<close> dispatches on the number in
  \<open>eax\<close>. The headers of an ELF file are read at the offsets of elf.h.
\<close>

subsection \<open>exec\<close>

definition ELF_MAGIC :: nat where [const_defs]: "ELF_MAGIC = 1179403647"
definition ELF_PROG_LOAD :: nat where [const_defs]: "ELF_PROG_LOAD = 1"
definition sizeof_elfhdr :: nat where [const_defs]: "sizeof_elfhdr = 52"
definition sizeof_proghdr :: nat where [const_defs]: "sizeof_proghdr = 32"

record elfhdr =
  elf_magic :: nat
  elf_entry :: nat
  elf_phoff :: nat
  elf_phnum :: nat

definition dec_elfhdr :: "block \<Rightarrow> elfhdr" where
  "dec_elfhdr d = \<lparr>elf_magic = rd32 d 0, elf_entry = rd32 d 24, elf_phoff = rd32 d 28, elf_phnum = rd16 d 44\<rparr>"

record proghdr =
  ph_type :: nat
  ph_off :: nat
  ph_vaddr :: nat
  ph_filesz :: nat
  ph_memsz :: nat

definition dec_proghdr :: "block \<Rightarrow> proghdr" where
  "dec_proghdr d = \<lparr>ph_type = rd32 d 0, ph_off = rd32 d 4, ph_vaddr = rd32 d 8, ph_filesz = rd32 d 16, ph_memsz = rd32 d 20\<rparr>"

text \<open>The loop over the program headers with \<open>k\<close> of them left: the new size, or None for
  \<open>goto bad\<close>.\<close>

fun exec_load :: "nat \<Rightarrow> nat \<Rightarrow> nat \<Rightarrow> nat \<Rightarrow> nat \<Rightarrow> ('z kstate_scheme, nat option) kern" where
  "exec_load ip pgdir sz off 0 = ret (Some sz)"
| "exec_load ip pgdir sz off (Suc k) =
     bnd (iops_readi ip off sizeof_proghdr) (\<lambda>(n, bs).
     if n \<noteq> int sizeof_proghdr then ret None
     else (let ph = dec_proghdr (c_string bs); off' = u32 (off + sizeof_proghdr) in
       if ph_type ph \<noteq> ELF_PROG_LOAD then exec_load ip pgdir sz off' k
       else if ph_memsz ph < ph_filesz ph then ret None
       else if u32 (ph_vaddr ph + ph_memsz ph) < ph_vaddr ph then ret None
       else bnd (allocuvm pgdir sz (u32 (ph_vaddr ph + ph_memsz ph))) (\<lambda>sz'.
         if sz' = 0 then ret None
         else if ph_vaddr ph mod PGSIZE \<noteq> 0 then ret None
         else bnd (loaduvm pgdir (ph_vaddr ph) ip (ph_off ph) (ph_filesz ph)) (\<lambda>r.
           if r < 0 then ret None else exec_load ip pgdir sz' off' k))))"

text \<open>Pushing the argument strings: the stack pointer and the words \<open>ustack[3], ...\<close> so far.\<close>

fun exec_args :: "nat \<Rightarrow> nat \<Rightarrow> nat list \<Rightarrow> byte list list \<Rightarrow> ('z kstate_scheme, (nat \<times> nat list) option) kern" where
  "exec_args pgdir sp us [] = ret (Some (sp, us))"
| "exec_args pgdir sp us (arg # args) =
     (if length us \<ge> MAXARG then ret None
      else (let sp = sub32 sp (length arg + 1) div 4 * 4 in
        bnd (km_op (copyout pgdir sp (arg @ [0]))) (\<lambda>r.
        if r < 0 then ret None else exec_args pgdir sp (us @ [sp]) args)))"

definition words :: "nat list \<Rightarrow> byte list" where
  "words ws = concat (map (\<lambda>w. bytes (wr32 (\<lambda>_. 0) 0 w) 0 4) ws)"

definition exec_bad :: "nat \<Rightarrow> nat option \<Rightarrow> ('z kstate_scheme, int) kern" where
  "exec_bad pgdir ip =
     bnd (if pgdir \<noteq> 0 then km_op (freevm pgdir) else ret ()) (\<lambda>_.
     case ip of
       None \<Rightarrow> ret (- 1)
     | Some ip \<Rightarrow> bnd (iops_iunlockput ip) (\<lambda>_. bnd end_op (\<lambda>_. ret (- 1))))"

text \<open>The part of the path behind its last slash.\<close>

definition base_name :: "byte list \<Rightarrow> byte list" where
  "base_name path = rev (takeWhile (\<lambda>c. c \<noteq> 47) (rev path))"

definition exec_commit :: "byte list \<Rightarrow> nat \<Rightarrow> nat \<Rightarrow> nat \<Rightarrow> nat \<Rightarrow> ('z kstate_scheme, int) kern" where
  "exec_commit path pgdir sz entry sp = (\<lambda>s. let old = p_pgdir (myproc s) in
     bnd (upd (setp (cur s) (\<lambda>x. x\<lparr>p_name := safestrcpy_to (p_name x) (c_string (base_name path)) 16,
       p_pgdir := pgdir, p_sz := sz, p_tf := (p_tf x)\<lparr>tf_eip := entry, tf_esp := sp\<rparr>\<rparr>))) (\<lambda>_.
     bnd (switchuvm (cur s)) (\<lambda>_.
     bnd (km_op (freevm old)) (\<lambda>_. ret 0))) s)"

text \<open>The stack: two pages, the lower one without user access, then the arguments.\<close>

definition exec_stack :: "byte list \<Rightarrow> byte list list \<Rightarrow> nat \<Rightarrow> nat \<Rightarrow> nat \<Rightarrow> ('z kstate_scheme, int) kern" where
  "exec_stack path argv pgdir sz entry =
     (let sz = PGROUNDUP sz in
      bnd (allocuvm pgdir sz (u32 (sz + 2 * PGSIZE))) (\<lambda>sz.
      if sz = 0 then exec_bad pgdir None
      else bnd (km_op (clearpteu pgdir (sub32 sz (2 * PGSIZE)))) (\<lambda>_.
        bnd (exec_args pgdir sz [] argv) (\<lambda>r.
        case r of
          None \<Rightarrow> exec_bad pgdir None
        | Some (sp, us) \<Rightarrow>
            (let argc = length us; uargv = sub32 sp ((argc + 1) * 4);
                 sp' = sub32 sp ((3 + argc + 1) * 4) in
             bnd (km_op (copyout pgdir sp' (words ([4294967295, argc, uargv] @ us @ [0])))) (\<lambda>r.
             if r < 0 then exec_bad pgdir None
             else exec_commit path pgdir sz entry sp'))))))"

definition exec :: "byte list \<Rightarrow> byte list list \<Rightarrow> ('z kstate_scheme, int) kern" where
  "exec path argv =
     bnd begin_op (\<lambda>_.
     bnd (namei path) (\<lambda>r.
     case r of
       None \<Rightarrow> bnd end_op (\<lambda>_. bnd (kprintf (''exec: fail'' @ [CHR 0x0A]) []) (\<lambda>_. ret (- 1)))
     | Some ip \<Rightarrow>
         bnd (iops_ilock ip) (\<lambda>_.
         bnd (iops_readi ip 0 sizeof_elfhdr) (\<lambda>(n, bs).
         let elf = dec_elfhdr (c_string bs) in
         if n \<noteq> int sizeof_elfhdr then exec_bad 0 (Some ip)
         else if elf_magic elf \<noteq> ELF_MAGIC then exec_bad 0 (Some ip)
         else bnd (km_op setupkvm) (\<lambda>pgdir.
           if pgdir = 0 then exec_bad 0 (Some ip)
           else bnd (exec_load ip pgdir 0 (elf_phoff elf) (elf_phnum elf)) (\<lambda>r.
             case r of
               None \<Rightarrow> exec_bad pgdir (Some ip)
             | Some sz \<Rightarrow>
                 bnd (iops_iunlockput ip) (\<lambda>_.
                 bnd end_op (\<lambda>_.
                 exec_stack path argv pgdir sz (elf_entry elf)))))))))"

text \<open>Fetching the argument vector: entry \<open>i\<close> of at most \<open>MAXARG\<close>.\<close>

fun exec_argv :: "nat \<Rightarrow> nat \<Rightarrow> nat \<Rightarrow> ('z kstate_scheme, byte list list option) kern" where
  "exec_argv uargv i 0 = ret None"
| "exec_argv uargv i (Suc k) =
     bnd (fetchint (u32 (uargv + 4 * i))) (\<lambda>r. case r of None \<Rightarrow> ret None | Some uarg \<Rightarrow>
     if uarg = 0 then ret (Some [])
     else bnd (fetchstr uarg) (\<lambda>r. case r of None \<Rightarrow> ret None | Some a \<Rightarrow>
       bnd (exec_argv uargv (i + 1) k) (\<lambda>r. ret (map_option ((#) a) r))))"

definition sys_exec :: "('z kstate_scheme, int) kern" where
  "sys_exec =
     bnd (argstr 0) (\<lambda>r. case r of None \<Rightarrow> ret (- 1) | Some path \<Rightarrow>
     bnd (argint 1) (\<lambda>r. case r of None \<Rightarrow> ret (- 1) | Some uargv \<Rightarrow>
     bnd (exec_argv uargv 0 MAXARG) (\<lambda>r. case r of None \<Rightarrow> ret (- 1) | Some argv \<Rightarrow>
     exec path argv)))"

subsection \<open>Dispatch\<close>

definition syscalls :: "nat \<Rightarrow> ('z kstate_scheme, int) kern option" where
  "syscalls num =
     (if num = 1 then Some fork
      else if num = 2 then Some (bnd exit (\<lambda>_. ret 0))
      else if num = 3 then Some wait
      else if num = 4 then Some sys_pipe
      else if num = 5 then Some sys_read
      else if num = 6 then Some sys_kill
      else if num = 7 then Some sys_exec
      else if num = 8 then Some sys_fstat
      else if num = 9 then Some sys_chdir
      else if num = 10 then Some sys_dup
      else if num = 11 then Some sys_getpid
      else if num = 12 then Some sys_sbrk
      else if num = 13 then Some sys_sleep
      else if num = 14 then Some sys_uptime
      else if num = 15 then Some sys_open
      else if num = 16 then Some sys_write
      else if num = 17 then Some sys_mknod
      else if num = 18 then Some sys_unlink
      else if num = 19 then Some sys_link
      else if num = 20 then Some sys_mkdir
      else if num = 21 then Some sys_close
      else None)"

definition set_eax :: "nat \<Rightarrow> int \<Rightarrow> ('z kstate_scheme, unit) kern" where
  "set_eax p r = upd (setp p (\<lambda>x. x\<lparr>p_tf := (p_tf x)\<lparr>tf_eax := nat (r mod 4294967296)\<rparr>\<rparr>))"

definition syscall :: "('z kstate_scheme, unit) kern" where
  "syscall = (\<lambda>s. let p = cur s; num = tf_eax (p_tf (myproc s)) in
     case syscalls num of
       Some f \<Rightarrow> bnd f (set_eax p) s
     | None \<Rightarrow>
         bnd (kprintf (''%d %s: unknown sys call %d'' @ [CHR 0x0A])
           [AWord (p_pid (myproc s)), AStr (Some (map unat (cstr (p_name (myproc s)) 16))), AWord num]) (\<lambda>_.
         set_eax p (- 1)) s)"

text \<open>The system call branch of \<open>trap\<close>: a killed process exits before or after the call.\<close>

definition trap_syscall :: "('z kstate_scheme, unit) kern" where
  "trap_syscall = (\<lambda>s.
     if p_killed (myproc s) then exit s
     else bnd syscall (\<lambda>_ s. if p_killed (myproc s) then exit s else Inr ((), s)) s)"

end
