(* ===== verification/Kbd.thy ===== *)
theory Kbd
  imports Console
begin

unbundle bit_operations_syntax

section \<open>Keyboard and serial input (kbd.c, kbd.h, uart.c)\<close>

text \<open>
  The keyboard handler as a state machine on scan codes: the modifier word \<open>shift\<close> and the character a
  code yields. The interrupt handlers pass the characters to the console. The modifiers are shown to
  follow the history of key events, and a line typed on the keyboard is what a reader gets.
\<close>

definition SHIFT :: "32 word" where "SHIFT = push_bit 0 1"
definition CTL :: "32 word" where "CTL = push_bit 1 1"
definition ALT :: "32 word" where "ALT = push_bit 2 1"
definition CAPSLOCK :: "32 word" where "CAPSLOCK = push_bit 3 1"
definition NUMLOCK :: "32 word" where "NUMLOCK = push_bit 4 1"
definition SCROLLLOCK :: "32 word" where "SCROLLLOCK = push_bit 5 1"
definition E0ESC :: "32 word" where "E0ESC = push_bit 6 1"

text \<open>Tables of 256 entries: those listed from 0 on, those with a designator, and zeros.\<close>

definition sparse :: "nat list \<Rightarrow> (nat \<times> nat) list \<Rightarrow> nat \<Rightarrow> nat" where
  "sparse xs ys d = (case map_of ys d of Some c \<Rightarrow> c | None \<Rightarrow> if d < length xs then xs ! d else 0)"

definition shiftcode :: "nat \<Rightarrow> 32 word" where
  "shiftcode d = (if d = 0x1D then CTL else if d = 0x2A then SHIFT else if d = 0x36 then SHIFT
     else if d = 0x38 then ALT else if d = 0x9D then CTL else if d = 0xB8 then ALT else 0)"

definition togglecode :: "nat \<Rightarrow> 32 word" where
  "togglecode d = (if d = 0x3A then CAPSLOCK else if d = 0x45 then NUMLOCK else if d = 0x46 then SCROLLLOCK else 0)"

definition normalmap :: "nat \<Rightarrow> nat" where
  "normalmap = sparse
    [0, 27, 49, 50, 51, 52, 53, 54,
     55, 56, 57, 48, 45, 61, 8, 9,
     113, 119, 101, 114, 116, 121, 117, 105,
     111, 112, 91, 93, 10, 0, 97, 115,
     100, 102, 103, 104, 106, 107, 108, 59,
     39, 96, 0, 92, 122, 120, 99, 118,
     98, 110, 109, 44, 46, 47, 0, 42,
     0, 32, 0, 0, 0, 0, 0, 0,
     0, 0, 0, 0, 0, 0, 0, 55,
     56, 57, 45, 52, 53, 54, 43, 49,
     50, 51, 48, 46, 0, 0, 0, 0]
    [(0x9C, 10), (0xB5, 47), (0xC8, 0xE2), (0xD0, 0xE3), (0xC9, 0xE6), (0xD1, 0xE7), (0xCB, 0xE4), (0xCD, 0xE5), (0x97, 0xE0), (0xCF, 0xE1), (0xD2, 0xE8), (0xD3, 0xE9)]"

definition shiftmap :: "nat \<Rightarrow> nat" where
  "shiftmap = sparse
    [0, 27, 33, 64, 35, 36, 37, 94,
     38, 42, 40, 41, 95, 43, 8, 9,
     81, 87, 69, 82, 84, 89, 85, 73,
     79, 80, 123, 125, 10, 0, 65, 83,
     68, 70, 71, 72, 74, 75, 76, 58,
     34, 126, 0, 124, 90, 88, 67, 86,
     66, 78, 77, 60, 62, 63, 0, 42,
     0, 32, 0, 0, 0, 0, 0, 0,
     0, 0, 0, 0, 0, 0, 0, 55,
     56, 57, 45, 52, 53, 54, 43, 49,
     50, 51, 48, 46, 0, 0, 0, 0]
    [(0x9C, 10), (0xB5, 47), (0xC8, 0xE2), (0xD0, 0xE3), (0xC9, 0xE6), (0xD1, 0xE7), (0xCB, 0xE4), (0xCD, 0xE5), (0x97, 0xE0), (0xCF, 0xE1), (0xD2, 0xE8), (0xD3, 0xE9)]"

definition ctlmap :: "nat \<Rightarrow> nat" where
  "ctlmap = sparse
    [0, 0, 0, 0, 0, 0, 0, 0,
     0, 0, 0, 0, 0, 0, 0, 0,
     17, 23, 5, 18, 20, 25, 21, 9,
     15, 16, 0, 0, 13, 0, 1, 19,
     4, 6, 7, 8, 10, 11, 12, 0,
     0, 0, 0, 28, 26, 24, 3, 22,
     2, 14, 13, 0, 0, 239, 0, 0]
    [(0x9C, 13), (0xB5, 0xEF), (0xC8, 0xE2), (0xD0, 0xE3), (0xC9, 0xE6), (0xD1, 0xE7), (0xCB, 0xE4), (0xCD, 0xE5), (0x97, 0xE0), (0xCF, 0xE1), (0xD2, 0xE8), (0xD3, 0xE9)]"

definition charcode :: "(nat \<Rightarrow> nat) list" where
  "charcode = [normalmap, shiftmap, ctlmap, ctlmap]"

text \<open>One byte from the controller; a byte that yields no character gives 0.\<close>

definition kbdgetc :: "32 word \<Rightarrow> nat \<Rightarrow> nat \<times> 32 word" where
  "kbdgetc sh d =
     (if d = 0xE0 then (0, sh OR E0ESC)
      else if d \<ge> 0x80 then
        (0, sh AND NOT (shiftcode (if sh AND E0ESC \<noteq> 0 then d else d mod 0x80) OR E0ESC))
      else
        (let (d, sh) = (if sh AND E0ESC \<noteq> 0 then (d + 0x80, sh AND NOT E0ESC) else (d, sh));
             sh = (sh OR shiftcode d) XOR togglecode d;
             c = (charcode ! unat (sh AND (CTL OR SHIFT))) d;
             c = (if sh AND CAPSLOCK \<noteq> 0 then
                    (if 97 \<le> c \<and> c \<le> 122 then c - 32 else if 65 \<le> c \<and> c \<le> 90 then c + 32 else c)
                  else c)
         in (c, sh)))"

text \<open>The bytes the controller holds, until it is empty.\<close>

fun kbd_chars :: "32 word \<Rightarrow> nat list \<Rightarrow> nat list \<times> 32 word" where
  "kbd_chars sh [] = ([], sh)"
| "kbd_chars sh (d # ds) = (case kbdgetc sh d of (c, sh) \<Rightarrow> case kbd_chars sh ds of (cs, sh) \<Rightarrow> (c # cs, sh))"

definition kbdintr :: "nat list \<Rightarrow> 32 word \<times> console \<Rightarrow> fault + bool \<times> 32 word \<times> console" where
  "kbdintr ds s = (case kbd_chars (fst s) ds of (cs, sh) \<Rightarrow>
     case consoleintr cs (snd s) of Inl e \<Rightarrow> Inl e | Inr (p, t) \<Rightarrow> Inr (p, sh, t))"

subsection \<open>The serial port\<close>

text \<open>The writes of \<open>uartinit\<close> to the port registers from \<open>COM1\<close> on, and the announcement.\<close>

definition COM1 :: nat where [const_defs]: "COM1 = 0x3f8"

definition uart_setup :: "(nat \<times> nat) list" where
  "uart_setup = [(COM1 + 2, 0), (COM1 + 3, 0x80), (COM1 + 0, 115200 div 9600), (COM1 + 1, 0), (COM1 + 3, 0x03),
     (COM1 + 4, 0), (COM1 + 1, 0x01)]"

definition uartinit :: "nat \<Rightarrow> console \<Rightarrow> console" where
  "uartinit status s =
     (if status = 0xFF then s
      else foldl (\<lambda>s c. uartputc c s) (s\<lparr>uart := True\<rparr>) [120, 118, 54, 46, 46, 46, 10])"

text \<open>\<open>uartgetc\<close> gives the next received byte, or nothing.\<close>

definition uartgetc :: "console \<Rightarrow> nat list \<Rightarrow> (nat \<times> nat list) option" where
  "uartgetc s rx = (if \<not> uart s then None else case rx of [] \<Rightarrow> None | c # rx \<Rightarrow> Some (c, rx))"

function uart_chars :: "console \<Rightarrow> nat list \<Rightarrow> nat list" where
  "uart_chars s rx = (case uartgetc s rx of None \<Rightarrow> [] | Some (c, rx) \<Rightarrow> c # uart_chars s rx)"
  by pat_completeness auto
termination
  by (relation "measure (length \<circ> snd)") (auto simp: uartgetc_def split: if_splits list.splits)

declare uart_chars.simps [simp del]

definition uartintr :: "nat list \<Rightarrow> console \<Rightarrow> fault + bool \<times> console" where
  "uartintr rx s = consoleintr (uart_chars s rx) s"

subsection \<open>The modifiers follow the key events\<close>

text \<open>What the codes mean: a key with its number (extended keys from 0x80 on) goes down or up. The flag says
  that the last byte was the prefix 0xE0.\<close>

datatype kev = Press nat | Release nat

definition kev_step :: "bool \<times> kev list \<Rightarrow> nat \<Rightarrow> bool \<times> kev list" where
  "kev_step x d = (case x of (e, evs) \<Rightarrow>
     if d = 0xE0 then (True, evs)
     else (False, evs @ [if d \<ge> 0x80 then Release (if e then d else d - 0x80) else Press (if e then d + 0x80 else d)]))"

definition key_events :: "nat list \<Rightarrow> bool \<times> kev list" where
  "key_events ds = foldl kev_step (False, []) ds"

text \<open>A modifier is down when the last event of its keys was a press; a lock is on after an odd number of presses.\<close>

fun kev_key :: "kev \<Rightarrow> nat" where
  "kev_key (Press k) = k" | "kev_key (Release k) = k"

definition down :: "nat set \<Rightarrow> kev list \<Rightarrow> bool" where
  "down K evs \<longleftrightarrow> (\<exists>k. find (\<lambda>x. kev_key x \<in> K) (rev evs) = Some (Press k))"

definition locked_on :: "nat \<Rightarrow> kev list \<Rightarrow> bool" where
  "locked_on k evs \<longleftrightarrow> odd (length (filter (\<lambda>x. x = Press k) evs))"

definition kbd_state :: "nat list \<Rightarrow> 32 word" where
  "kbd_state ds = snd (kbd_chars 0 ds)"

lemma kbd_chars_append:
  "kbd_chars sh (xs @ ys) = (case kbd_chars sh xs of (cs, sh) \<Rightarrow> case kbd_chars sh ys of (cs', sh) \<Rightarrow> (cs @ cs', sh))"
  by (induction xs arbitrary: sh) (auto split: prod.splits)

lemma kbd_state_snoc: "kbd_state (ds @ [d]) = snd (kbdgetc (kbd_state ds) d)"
  by (simp add: kbd_state_def kbd_chars_append split: prod.splits)

lemma bit_pow: "m < 32 \<Longrightarrow> bit (push_bit m (1 :: 32 word)) n \<longleftrightarrow> n = m"
  by (auto simp: bit_exp_iff)

lemma bit_flags:
  "bit SHIFT n \<longleftrightarrow> n = 0" "bit CTL n \<longleftrightarrow> n = 1" "bit ALT n \<longleftrightarrow> n = 2" "bit CAPSLOCK n \<longleftrightarrow> n = 3"
  "bit NUMLOCK n \<longleftrightarrow> n = 4" "bit SCROLLLOCK n \<longleftrightarrow> n = 5" "bit E0ESC n \<longleftrightarrow> n = 6"
  unfolding SHIFT_def CTL_def ALT_def CAPSLOCK_def NUMLOCK_def SCROLLLOCK_def E0ESC_def by (rule bit_pow; simp)+

lemma and_flag:
  fixes w v :: "32 word"
  assumes "\<And>i. bit v i \<longleftrightarrow> i = n"
  shows "w AND v \<noteq> 0 \<longleftrightarrow> bit w n"
proof -
  have "w AND v = 0 \<longleftrightarrow> (\<forall>i. \<not> bit (w AND v) i)" by (metis bit_0_eq bit_eqI bot_apply bot_bool_def)
  then show ?thesis using assms by (simp add: bit_and_iff)
qed

lemma bit_shiftcode:
  "bit (shiftcode d) n \<longleftrightarrow> n = 0 \<and> d \<in> {0x2A, 0x36} \<or> n = 1 \<and> d \<in> {0x1D, 0x9D} \<or> n = 2 \<and> d \<in> {0x38, 0xB8}"
  by (auto simp: shiftcode_def bit_flags)

lemma bit_togglecode: "bit (togglecode d) n \<longleftrightarrow> n = 3 \<and> d = 0x3A \<or> n = 4 \<and> d = 0x45 \<or> n = 5 \<and> d = 0x46"
  by (auto simp: togglecode_def bit_flags)

lemmas kbd_bits = bit_flags bit_shiftcode bit_togglecode and_flag [OF bit_flags(7)] and_flag [OF bit_flags(4)]
  bit_and_iff bit_or_iff bit_xor_iff bit_not_iff

lemma kbd_step_bit:
  "bit (snd (kbdgetc sh d)) n \<longleftrightarrow> n < 32 \<and>
     (if d = 0xE0 then bit sh n \<or> n = 6
      else if d \<ge> 0x80 then bit sh n \<and> n \<noteq> 6 \<and> \<not> bit (shiftcode (if bit sh 6 then d else d mod 0x80)) n
      else (let k = (if bit sh 6 then d + 0x80 else d) in
        (n \<noteq> 6 \<and> bit sh n \<or> bit (shiftcode k) n) \<noteq> bit (togglecode k) n))"
  using bit_imp_le_length [of sh n]
  by (auto simp: kbdgetc_def Let_def kbd_bits)

lemma down_snoc: "down K (evs @ [x]) \<longleftrightarrow> (if kev_key x \<in> K then \<exists>k. x = Press k else down K evs)"
  by (simp add: down_def)

lemma locked_snoc: "locked_on k (evs @ [x]) \<longleftrightarrow> locked_on k evs \<noteq> (x = Press k)"
  by (simp add: locked_on_def)

lemma down_Nil [simp]: "\<not> down K []"
  by (simp add: down_def)

lemma locked_Nil [simp]: "\<not> locked_on k []"
  by (simp add: locked_on_def)

text \<open>The word against the history.\<close>

definition mods_of :: "kev list \<Rightarrow> nat \<Rightarrow> bool" where
  "mods_of evs n = (if n = 0 then down {0x2A, 0x36} evs else if n = 1 then down {0x1D, 0x9D} evs
     else if n = 2 then down {0x38, 0xB8} evs else if n = 3 then locked_on 0x3A evs else if n = 4 then locked_on 0x45 evs
     else if n = 5 then locked_on 0x46 evs else False)"

lemma mods_press: "mods_of (evs @ [Press k]) n \<longleftrightarrow> (mods_of evs n \<or> bit (shiftcode k) n) \<noteq> bit (togglecode k) n"
  by (auto simp: mods_of_def down_snoc locked_snoc bit_shiftcode bit_togglecode)

lemma mods_release: "mods_of (evs @ [Release k]) n \<longleftrightarrow> mods_of evs n \<and> \<not> bit (shiftcode k) n"
  by (auto simp: mods_of_def down_snoc locked_snoc bit_shiftcode)

lemma kbd_history:
  assumes "\<forall>d \<in> set ds. d < 256"
  shows "bit (kbd_state ds) n \<longleftrightarrow> (if n = 6 then fst (key_events ds) else mods_of (snd (key_events ds)) n)"
  using assms
proof (induction ds arbitrary: n rule: rev_induct)
  case Nil
  then show ?case by (simp add: kbd_state_def key_events_def mods_of_def)
next
  case (snoc d ds)
  obtain e evs where ev: "key_events ds = (e, evs)" by (cases "key_events ds")
  have step: "key_events (ds @ [d]) = kev_step (e, evs) d" using ev by (simp add: key_events_def)
  have IH: "bit (kbd_state ds) n \<longleftrightarrow> (if n = 6 then e else mods_of evs n)" for n using snoc ev by simp
  have n6: "\<not> mods_of xs 6" for xs by (simp add: mods_of_def)
  have big: "\<not> mods_of xs n" if "n \<ge> 32" for xs n using that by (simp add: mods_of_def)
  have s6: "\<not> bit (shiftcode k) 6" "\<not> bit (togglecode k) 6" for k by (simp_all add: bit_shiftcode bit_togglecode)
  have dm: "d mod 0x80 = d - 0x80" if "d \<ge> 0x80"
  proof -
    have "d < 256" using snoc.prems by simp
    then have "d - 0x80 < 0x80" by arith
    then show ?thesis using that by (simp add: le_mod_geq)
  qed
  show ?case
    unfolding kbd_state_snoc kbd_step_bit step kev_step_def IH
    using big [of n] n6 s6 dm by (cases "n = 6"; cases "n < 32") (auto simp: mods_press mods_release Let_def)
qed

lemma charcode_ix:
  "unat (w AND (CTL OR SHIFT)) = (if bit w 1 then 2 else 0) + (if bit w 0 then 1 else 0)"
proof -
  have "w AND (CTL OR SHIFT) = (if bit w 1 then CTL else 0) OR (if bit w 0 then SHIFT else 0)"
    by (rule bit_word_eqI) (auto simp: kbd_bits intro: gr0I)
  then show ?thesis by (simp add: CTL_def SHIFT_def)
qed

text \<open>The character of a key under modifiers: control before shift, and the caps lock swaps the case of
  letters.\<close>

definition key_char :: "bool \<Rightarrow> bool \<Rightarrow> bool \<Rightarrow> nat \<Rightarrow> nat" where
  "key_char ctl shft caps k =
     (let c = (if ctl then ctlmap k else if shft then shiftmap k else normalmap k)
      in if caps \<and> c \<in> {97..122} then c - 32 else if caps \<and> c \<in> {65..90} then c + 32 else c)"

lemma kbdgetc_char:
  assumes "d < 0x80" "k = (if bit sh 6 then d + 0x80 else d)" "w = snd (kbdgetc sh d)"
  shows "fst (kbdgetc sh d) = key_char (bit w 1) (bit w 0) (bit w 3) k"
proof -
  have w: "w = ((if bit sh 6 then sh AND NOT E0ESC else sh) OR shiftcode k) XOR togglecode k"
    using assms by (auto simp: kbdgetc_def Let_def and_flag [OF bit_flags(7)])
  have "fst (kbdgetc sh d) = (let c = (charcode ! unat (w AND (CTL OR SHIFT))) k in
      if w AND CAPSLOCK \<noteq> 0 then (if 97 \<le> c \<and> c \<le> 122 then c - 32 else if 65 \<le> c \<and> c \<le> 90 then c + 32 else c) else c)"
    using assms(1,2) unfolding w by (auto simp: kbdgetc_def Let_def and_flag [OF bit_flags(7)])
  then show ?thesis by (auto simp: key_char_def charcode_ix charcode_def and_flag [OF bit_flags(4)] Let_def)
qed

subsection \<open>Properties\<close>

text \<open>C31. The keyboard handler yields, for the press of a key, the character of the key under the modifiers
  that the whole history of scan codes gives: shift and control count as down exactly when the last event of
  their keys was a press, and caps lock is on after an odd number of presses.\<close>

theorem kbd_follows_history:
  assumes "\<forall>d \<in> set ds. d < 256" "d < 0x80" "key_events (ds @ [d]) = (e, evs)"
  shows "\<exists>k. last evs = Press k \<and>
    fst (kbdgetc (kbd_state ds) d) = key_char (down {0x1D, 0x9D} evs) (down {0x2A, 0x36} evs) (locked_on 0x3A evs) k"
proof -
  obtain e0 evs0 where ev: "key_events ds = (e0, evs0)" by (cases "key_events ds")
  let ?k = "if e0 then d + 0x80 else d"
  have evs: "evs = evs0 @ [Press ?k]" using assms(2,3) ev by (simp add: key_events_def kev_step_def)
  have "\<forall>d \<in> set (ds @ [d]). d < 256" using assms(1,2) by simp
  note h = kbd_history [OF assms(1)] kbd_history [OF this]
  have k: "?k = (if bit (kbd_state ds) 6 then d + 0x80 else d)" using h(1) [of 6] ev by simp
  show ?thesis using kbdgetc_char [OF assms(2) k, of "kbd_state (ds @ [d])"] h(2) assms(3) evs
    by (simp add: kbd_state_snoc [symmetric] mods_of_def)
qed

theorem kbd_follows_history_witness:
  "fst (kbdgetc (kbd_state [0x3A, 0xBA, 0x2A, 0x1E, 0x9E]) 0x1E) = 97"
proof -
  have "key_events ([0x3A, 0xBA, 0x2A, 0x1E, 0x9E] @ [0x1E]) = (False, [Press 0x3A, Release 0x3A, Press 0x2A, Press 0x1E, Release 0x1E, Press 0x1E])"
    by (simp add: key_events_def kev_step_def)
  from kbd_follows_history [OF _ _ this] show ?thesis
    by (simp add: down_def locked_on_def key_char_def shiftmap_def sparse_def Let_def)
qed

text \<open>A key typed alone or with the left shift key held.\<close>

definition stroke :: "bool \<times> nat \<Rightarrow> nat list" where
  "stroke x = (case x of (sft, k) \<Rightarrow> (if sft then [0x2A] else []) @ [k, k + 0x80] @ (if sft then [0xAA] else []))"

definition stroke_char :: "bool \<times> nat \<Rightarrow> nat" where
  "stroke_char x = (case x of (sft, k) \<Rightarrow> if sft then shiftmap k else normalmap k)"

lemma plain_not_mod:
  assumes "plain (stroke_char (sft, k))"
  shows "shiftcode k = 0" "togglecode k = 0"
proof -
  have z: "normalmap m = 0 \<and> shiftmap m = 0" if "m \<in> {0x1D, 0x2A, 0x36, 0x38, 0x9D, 0xB8, 0x3A, 0x45, 0x46}" for m
    using that by (auto simp: normalmap_def shiftmap_def sparse_def)
  have "k \<notin> {0x1D, 0x2A, 0x36, 0x38, 0x9D, 0xB8, 0x3A, 0x45, 0x46}"
  proof
    assume "k \<in> {0x1D, 0x2A, 0x36, 0x38, 0x9D, 0xB8, 0x3A, 0x45, 0x46}"
    then show False using z [of k] assms by (simp add: stroke_char_def plain_def split: if_splits)
  qed
  then show "shiftcode k = 0" "togglecode k = 0" by (simp_all add: shiftcode_def togglecode_def)
qed

lemma kbd_stroke:
  assumes "plain (stroke_char x)" "snd x < 0x58"
  shows "\<exists>a b. kbd_chars 0 (stroke x) = (a @ stroke_char x # b, 0) \<and> set a \<subseteq> {0} \<and> set b \<subseteq> {0}"
proof -
  obtain sft k where x: "x = (sft, k)" by (cases x)
  note m = plain_not_mod [OF assms(1) [unfolded x]]
  have k: "k < 0x80" "k + 0x80 \<noteq> 0xE0" "(k + 0x80) mod 0x80 = k" using assms(2) x by auto
  have p: "kbdgetc 0 k = (normalmap k, 0)" "kbdgetc SHIFT k = (shiftmap k, SHIFT)"
    using k(1) m by (simp_all add: kbdgetc_def charcode_def SHIFT_def CTL_def CAPSLOCK_def E0ESC_def)
  have r: "kbdgetc 0 (k + 0x80) = (0, 0)" "kbdgetc SHIFT (k + 0x80) = (0, SHIFT)"
    using k m by (simp_all add: kbdgetc_def SHIFT_def E0ESC_def)
  have s: "kbdgetc 0 0x2A = (0, SHIFT)" "kbdgetc SHIFT 0xAA = (0, 0)"
    by (simp_all add: kbdgetc_def shiftcode_def togglecode_def charcode_def shiftmap_def sparse_def SHIFT_def CTL_def CAPSLOCK_def E0ESC_def)
  show ?thesis
  proof (cases sft)
    case True
    then have "kbd_chars 0 (stroke x) = ([0] @ stroke_char x # [0, 0], 0)"
      using p(2) r(2) s by (simp add: stroke_def stroke_char_def x)
    then show ?thesis by (intro exI [of _ "[0]"] exI [of _ "[0, 0]"]) simp
  next
    case False
    then have "kbd_chars 0 (stroke x) = ([] @ stroke_char x # [0], 0)"
      using p(1) r(1) by (simp add: stroke_def stroke_char_def x)
    then show ?thesis by (intro exI [of _ "[]"] exI [of _ "[0]"]) simp
  qed
qed

lemma consoleintr_zeros: "consoleintr cs s = consoleintr (filter (\<lambda>c. c \<noteq> 0) cs) s"
proof (induction cs arbitrary: s)
  case (Cons c cs)
  show ?case
  proof (cases "c = 0")
    case True
    then have "console_key c s = Inr (False, s)" by (simp add: console_key_def C_ctrl_def)
    then show ?thesis using True Cons [of s] by (auto split: sum.splits)
  next
    case False
    then show ?thesis by (simp only: filter.simps consoleintr.simps Cons [symmetric] if_True simp_thms)
  qed
qed simp

lemma kbd_strokes:
  assumes "\<forall>x \<in> set xs. plain (stroke_char x) \<and> snd x < 0x58"
  shows "\<exists>cs. kbd_chars 0 (concat (map stroke xs)) = (cs, 0) \<and> filter (\<lambda>c. c \<noteq> 0) cs = map stroke_char xs"
  using assms
proof (induction xs)
  case (Cons x xs)
  then obtain cs where cs: "kbd_chars 0 (concat (map stroke xs)) = (cs, 0)" "filter (\<lambda>c. c \<noteq> 0) cs = map stroke_char xs" by auto
  obtain a b where ab: "kbd_chars 0 (stroke x) = (a @ stroke_char x # b, 0)" "set a \<subseteq> {0}" "set b \<subseteq> {0}"
    using kbd_stroke [of x] Cons.prems by auto
  have "filter (\<lambda>c. c \<noteq> 0) a = []" "filter (\<lambda>c. c \<noteq> 0) b = []" using ab(2,3) by (auto simp: filter_empty_conv)
  moreover have "stroke_char x \<noteq> 0" using Cons.prems by (simp add: plain_def)
  ultimately show ?case using ab(1) cs by (simp add: kbd_chars_append)
qed simp

lemma kbd_enter: "kbd_chars 0 [0x1C, 0x9C] = ([10, 0], 0)"
  by (simp add: kbdgetc_def shiftcode_def togglecode_def charcode_def normalmap_def sparse_def SHIFT_def CTL_def CAPSLOCK_def E0ESC_def)

text \<open>C32. From the keyboard to the reader: the scan codes of a line, each key typed alone or with shift and
  then the enter key, make the console deliver the characters of the keys and a newline to a reader.\<close>

theorem keyboard_line:
  assumes "con_ok s" "in_r s < 4294967296" "in_e s = in_r s" "in_w s = in_r s"
    "\<forall>x \<in> set xs. plain (stroke_char x) \<and> snd x < 0x58" "length xs < INPUT_BUF - 1" "length xs < n"
  shows "\<exists>t. kbdintr (concat (map stroke xs) @ [0x1C, 0x9C]) (0, s) = Inr (False, 0, t) \<and>
    console_get False n n t = Inr (Some (map (word_of_nat \<circ> stroke_char) xs @ [10]), t\<lparr>in_r := in_w t\<rparr>)"
proof -
  obtain cs where cs: "kbd_chars 0 (concat (map stroke xs)) = (cs, 0)" "filter (\<lambda>c. c \<noteq> 0) cs = map stroke_char xs"
    using kbd_strokes [OF assms(5)] by blast
  have k: "kbd_chars 0 (concat (map stroke xs) @ [0x1C, 0x9C]) = (cs @ [10, 0], 0)"
    using cs(1) kbd_enter by (simp add: kbd_chars_append del: kbd_chars.simps)
  have f: "filter (\<lambda>c. c \<noteq> 0) (cs @ [10, 0]) = map stroke_char xs @ [10]" using cs(2) by simp
  obtain t where t: "consoleintr (map stroke_char xs @ [10]) s = Inr (False, t)"
    "console_get False n n t = Inr (Some (map word_of_nat (map stroke_char xs) @ [10]), t\<lparr>in_r := in_w t\<rparr>)"
    using line_is_read [OF assms(1-4), of "map stroke_char xs" n] assms(5-7) by auto
  have "consoleintr (cs @ [10, 0]) s = Inr (False, t)" using consoleintr_zeros [of "cs @ [10, 0]" s] f t(1) by simp
  then have "kbdintr (concat (map stroke xs) @ [0x1C, 0x9C]) (0, s) = Inr (False, 0, t)"
    using k by (simp add: kbdintr_def del: append.simps)
  then show ?thesis using t(2) by auto
qed

theorem keyboard_line_witness:
  "\<exists>t. kbdintr [0x26, 0xA6, 0x2A, 0x1F, 0x9F, 0xAA, 0x1C, 0x9C] (0, con0) = Inr (False, 0, t) \<and>
    console_get False 100 100 t = Inr (Some [108, 83, 10], t\<lparr>in_r := in_w t\<rparr>)"
proof -
  have c: "stroke_char (False, 0x26) = 108" "stroke_char (True, 0x1F) = 83"
    by (simp_all add: stroke_char_def normalmap_def shiftmap_def sparse_def)
  have "\<exists>t. kbdintr (concat (map stroke [(False, 0x26), (True, 0x1F)]) @ [0x1C, 0x9C]) (0, con0) = Inr (False, 0, t) \<and>
    console_get False 100 100 t = Inr (Some (map (word_of_nat \<circ> stroke_char) [(False, 0x26), (True, 0x1F)] @ [10]), t\<lparr>in_r := in_w t\<rparr>)"
    by (rule keyboard_line) (simp_all add: con0_def con_ok_def plain_def c const_defs)
  then show ?thesis by (simp add: stroke_def c)
qed

end
