(* ===== verification/Segments.thy ===== *)
theory Segments
  imports Params
begin

section \<open>Segments, gates and the task state (mmu.h, seginit and switchuvm of vm.c, tvinit of trap.c)\<close>

text \<open>
  The descriptor tables through which a user program enters the kernel. A descriptor is a record of its
  bit fields; \<open>seg_base\<close>, \<open>seg_limit\<close> and \<open>gate_off\<close> are what the processor reads from them.
\<close>

definition SEG_KCODE :: nat where [const_defs]: "SEG_KCODE = 1"
definition SEG_KDATA :: nat where [const_defs]: "SEG_KDATA = 2"
definition SEG_UCODE :: nat where [const_defs]: "SEG_UCODE = 3"
definition SEG_UDATA :: nat where [const_defs]: "SEG_UDATA = 4"
definition SEG_TSS :: nat where [const_defs]: "SEG_TSS = 5"
definition NSEGS :: nat where [const_defs]: "NSEGS = 6"
definition DPL_USER :: nat where [const_defs]: "DPL_USER = 3"
definition STA_X :: nat where [const_defs]: "STA_X = 0x8"
definition STA_W :: nat where [const_defs]: "STA_W = 0x2"
definition STA_R :: nat where [const_defs]: "STA_R = 0x2"
definition STS_T32A :: nat where [const_defs]: "STS_T32A = 0x9"
definition STS_IG32 :: nat where [const_defs]: "STS_IG32 = 0xE"
definition STS_TG32 :: nat where [const_defs]: "STS_TG32 = 0xF"
definition T_SYSCALL :: nat where [const_defs]: "T_SYSCALL = 64"
definition T_IRQ0 :: nat where [const_defs]: "T_IRQ0 = 32"
definition IRQ_TIMER :: nat where [const_defs]: "IRQ_TIMER = 0"
definition IRQ_KBD :: nat where [const_defs]: "IRQ_KBD = 1"
definition IRQ_COM1 :: nat where [const_defs]: "IRQ_COM1 = 4"
definition IRQ_IDE :: nat where [const_defs]: "IRQ_IDE = 14"
definition IRQ_ERROR :: nat where [const_defs]: "IRQ_ERROR = 19"
definition IRQ_SPURIOUS :: nat where [const_defs]: "IRQ_SPURIOUS = 31"

record segdesc =
  lim_15_0 :: nat
  base_15_0 :: nat
  base_23_16 :: nat
  sd_type :: nat
  sd_s :: nat
  sd_dpl :: nat
  sd_p :: nat
  lim_19_16 :: nat
  sd_db :: nat
  sd_g :: nat
  base_31_24 :: nat

definition SEG :: "nat \<Rightarrow> nat \<Rightarrow> nat \<Rightarrow> nat \<Rightarrow> segdesc" where
  "SEG type base lim dpl = \<lparr>lim_15_0 = lim div 4096 mod 65536, base_15_0 = base mod 65536, base_23_16 = base div 65536 mod 256,
     sd_type = type, sd_s = 1, sd_dpl = dpl, sd_p = 1, lim_19_16 = lim div 2 ^ 28 mod 16, sd_db = 1, sd_g = 1,
     base_31_24 = base div 2 ^ 24 mod 256\<rparr>"

definition SEG16 :: "nat \<Rightarrow> nat \<Rightarrow> nat \<Rightarrow> nat \<Rightarrow> segdesc" where
  "SEG16 type base lim dpl = \<lparr>lim_15_0 = lim mod 65536, base_15_0 = base mod 65536, base_23_16 = base div 65536 mod 256,
     sd_type = type, sd_s = 1, sd_dpl = dpl, sd_p = 1, lim_19_16 = lim div 65536 mod 16, sd_db = 1, sd_g = 0,
     base_31_24 = base div 2 ^ 24 mod 256\<rparr>"

text \<open>The kernel's table; entry 0 stays the null descriptor, \<open>SEG_TSS\<close> is set at every switch.\<close>

definition seginit :: "(nat \<Rightarrow> segdesc) \<Rightarrow> nat \<Rightarrow> segdesc" where
  "seginit gdt = gdt(SEG_KCODE := SEG (STA_X + STA_R) 0 0xffffffff 0, SEG_KDATA := SEG STA_W 0 0xffffffff 0,
     SEG_UCODE := SEG (STA_X + STA_R) 0 0xffffffff DPL_USER, SEG_UDATA := SEG STA_W 0 0xffffffff DPL_USER)"

text \<open>The fields of the task state that \<open>switchuvm\<close> sets; the structure has 104 bytes.\<close>

record taskstate =
  ts_esp0 :: nat
  ts_ss0 :: nat
  ts_iomb :: nat

definition switch_tss :: "nat \<Rightarrow> nat \<Rightarrow> (nat \<Rightarrow> segdesc) \<times> taskstate \<Rightarrow> (nat \<Rightarrow> segdesc) \<times> taskstate" where
  "switch_tss ts_addr kstack x =
     ((fst x)(SEG_TSS := (SEG16 STS_T32A ts_addr 103 0)\<lparr>sd_s := 0\<rparr>),
      (snd x)\<lparr>ts_ss0 := SEG_KDATA * 8, ts_esp0 := u32 (kstack + 4096), ts_iomb := 0xFFFF\<rparr>)"

record gatedesc =
  off_15_0 :: nat
  gd_cs :: nat
  gd_type :: nat
  gd_s :: nat
  gd_dpl :: nat
  gd_p :: nat
  off_31_16 :: nat

definition SETGATE :: "bool \<Rightarrow> nat \<Rightarrow> nat \<Rightarrow> nat \<Rightarrow> gatedesc" where
  "SETGATE istrap sel off d = \<lparr>off_15_0 = off mod 65536, gd_cs = sel, gd_type = (if istrap then STS_TG32 else STS_IG32),
     gd_s = 0, gd_dpl = d, gd_p = 1, off_31_16 = off div 65536 mod 65536\<rparr>"

text \<open>\<open>vectors\<close> are the entry points that the build generates (vectors.S).\<close>

definition tvinit :: "(nat \<Rightarrow> nat) \<Rightarrow> (nat \<Rightarrow> gatedesc) \<Rightarrow> nat \<Rightarrow> gatedesc" where
  "tvinit vectors idt =
     (\<lambda>i. if i < 256 then SETGATE False (SEG_KCODE * 8) (vectors i) 0 else idt i)
       (T_SYSCALL := SETGATE True (SEG_KCODE * 8) (vectors T_SYSCALL) DPL_USER)"

subsection \<open>What the processor reads\<close>

definition seg_base :: "segdesc \<Rightarrow> nat" where
  "seg_base d = base_15_0 d + base_23_16 d * 65536 + base_31_24 d * 2 ^ 24"

definition seg_limit :: "segdesc \<Rightarrow> nat" where
  "seg_limit d = (let l = lim_15_0 d + lim_19_16 d * 65536 in if sd_g d = 1 then l * 4096 + 4095 else l)"

definition gate_off :: "gatedesc \<Rightarrow> nat" where
  "gate_off g = off_15_0 g + off_31_16 g * 65536"

text \<open>An \<open>int\<close> instruction at privilege level \<open>cpl\<close>; hardware interrupts do not check the level.\<close>

definition int_allowed :: "nat \<Rightarrow> gatedesc \<Rightarrow> bool" where
  "int_allowed cpl g \<longleftrightarrow> gd_p g = 1 \<and> cpl \<le> gd_dpl g"

lemma split32:
  fixes x :: nat
  assumes "x < 2 ^ 32"
  shows "x mod 65536 + x div 65536 mod 256 * 65536 + x div 2 ^ 24 mod 256 * 2 ^ 24 = x"
proof -
  have "x div 2 ^ 24 < 256" using assms by (simp add: less_mult_imp_div_less)
  then have h: "x div 2 ^ 24 mod 256 = x div 65536 div 256" by (simp add: div_mult2_eq [symmetric])
  have p: "(2 :: nat) ^ 24 = 16777216" by simp
  show ?thesis unfolding h unfolding p using div_mult_mod_eq [of "x div 65536" 256] div_mult_mod_eq [of x 65536] by linarith
qed

lemma gate_off_SETGATE: "off < 2 ^ 32 \<Longrightarrow> gate_off (SETGATE t sel off d) = off"
  by (simp add: gate_off_def SETGATE_def less_mult_imp_div_less)

lemma seg_base_SEG: "base < 2 ^ 32 \<Longrightarrow> seg_base (SEG t base lim d) = base \<and> seg_base (SEG16 t base lim d) = base"
  using split32 [of base] by (simp add: seg_base_def SEG_def SEG16_def)

lemma seg_limit_SEG:
  assumes "lim < 2 ^ 32"
  shows "seg_limit (SEG t base lim d) = lim div 4096 * 4096 + 4095"
proof -
  have "lim div 2 ^ 28 < 16" using assms by (simp add: less_mult_imp_div_less)
  then have h: "lim div 2 ^ 28 mod 16 = lim div 4096 div 65536" by (simp add: div_mult2_eq [symmetric])
  have "lim div 4096 mod 65536 + lim div 4096 div 65536 * 65536 = lim div 4096" by simp
  then show ?thesis unfolding seg_limit_def SEG_def segdesc.simps h by simp
qed

lemma seg_limit_SEG16: "lim < 2 ^ 20 \<Longrightarrow> seg_limit (SEG16 t base lim d) = lim"
  by (simp add: seg_limit_def SEG16_def less_mult_imp_div_less)

subsection \<open>Property\<close>

text \<open>C33. The only way a user program can enter the kernel by an \<open>int\<close> instruction is vector 64: each of the 256
  gates leads to its vector through the kernel's code segment, which spans the whole address space at level 0,
  and only the gate of system calls has the user's privilege level. On entry the stack is the top of the
  process's kernel stack in the kernel's data segment.\<close>

theorem kernel_entry:
  assumes "\<forall>n. vectors n < 2 ^ 32" "n < 256" "ts_addr < 2 ^ 32" "kstack + 4096 < 2 ^ 32"
  shows "let g = tvinit vectors idt n; (gdt, ts) = switch_tss ts_addr kstack (seginit gdt0, ts0); code = gdt (gd_cs g div 8); stack = gdt (ts_ss0 ts div 8) in
    gate_off g = vectors n \<and> (int_allowed 3 g \<longleftrightarrow> n = T_SYSCALL) \<and> (gd_type g = STS_TG32 \<longleftrightarrow> n = T_SYSCALL) \<and>
    sd_dpl code = 0 \<and> seg_base code = 0 \<and> seg_limit code = 2 ^ 32 - 1 \<and> sd_dpl stack = 0 \<and> sd_type stack = STA_W \<and>
    ts_esp0 ts = kstack + 4096 \<and> seg_base (gdt SEG_TSS) = ts_addr \<and> seg_limit (gdt SEG_TSS) = 103"
proof -
  have g: "gd_cs (tvinit vectors idt n) div 8 = SEG_KCODE" using assms(2) by (simp add: tvinit_def SETGATE_def)
  have off: "gate_off (tvinit vectors idt n) = vectors n" using assms(1,2) gate_off_SETGATE by (simp add: tvinit_def)
  have dpl: "int_allowed 3 (tvinit vectors idt n) \<longleftrightarrow> n = T_SYSCALL" "gd_type (tvinit vectors idt n) = STS_TG32 \<longleftrightarrow> n = T_SYSCALL"
    using assms(2) by (auto simp: tvinit_def SETGATE_def int_allowed_def const_defs)
  have seg: "seg_limit (SEG t 0 0xffffffff d) = 2 ^ 32 - 1" for t d using seg_limit_SEG [of "0xffffffff" t 0 d] by simp
  have sd: "sd_dpl (SEG t b l d) = d" "sd_type (SEG t b l d) = t" for t b l d by (simp_all add: SEG_def)
  have tss: "seg_base ((SEG16 t ts_addr 103 0)\<lparr>sd_s := 0\<rparr>) = ts_addr" "seg_limit ((SEG16 t ts_addr 103 0)\<lparr>sd_s := 0\<rparr>) = 103" for t
    using seg_base_SEG [OF assms(3), of t 103 0] seg_limit_SEG16 [of 103 t ts_addr 0] by (simp_all add: seg_base_def seg_limit_def)
  show ?thesis
    using off dpl seg tss seg_base_SEG [of 0 "STA_X + STA_R" "0xffffffff" 0] sd assms(4)
    by (simp add: g switch_tss_def seginit_def u32_def Let_def const_defs)
qed

theorem kernel_entry_witness: "\<not> int_allowed 3 (tvinit (\<lambda>n. 0x80106000 + 10 * (n mod 256)) (\<lambda>_. SETGATE False 0 0 0) 14)"
proof -
  have v: "\<forall>m :: nat. 0x80106000 + 10 * (m mod 256) < 2 ^ 32"
  proof
    fix m :: nat
    have "m mod 256 < 256" by simp
    then show "0x80106000 + 10 * (m mod 256) < 2 ^ 32" by simp
  qed
  show ?thesis using kernel_entry [OF v, of 14 0 0] by (simp add: Let_def T_SYSCALL_def split: prod.splits)
qed

end
