(* ===== verification/Spinlock.thy ===== *)
theory Spinlock
  imports Kalloc
begin

section \<open>Spinlocks and the processor structures (spinlock.c, mycpu of proc.c)\<close>

text \<open>
  The lock, the processors with their interrupt flags, and the routines of spinlock.c. A processor is
  named by its local APIC id, as the hardware names it; \<open>mycpu\<close> finds its structure. \<open>spin_step\<close> cuts
  \<open>acquire\<close> and \<open>release\<close> at every access to the shared lock, and \<open>spin_trans\<close> interleaves the
  processors. Memory is sequentially consistent here: the code has a barrier at both ends of a section.
\<close>

record spinlock =
  sp_locked :: bool
  sp_cpu :: "nat option"
  sp_pcs :: "nat list"

record cpu =
  apicid :: nat
  ncli :: int
  intena :: bool

text \<open>\<open>eif\<close> is the interrupt flag (\<open>FL_IF\<close>) of each processor.\<close>

record smp =
  cpus :: "cpu list"
  eif :: "nat \<Rightarrow> bool"
  slock :: spinlock

definition initlock :: "spinlock \<Rightarrow> spinlock" where
  "initlock lk = lk\<lparr>sp_locked := False, sp_cpu := None\<rparr>"

subsection \<open>The routines\<close>

definition cpu_index :: "smp \<Rightarrow> nat \<Rightarrow> nat option" where
  "cpu_index m h = find (\<lambda>i. apicid (cpus m ! i) = h) [0..<length (cpus m)]"

definition mycpu :: "nat \<Rightarrow> (smp, nat) kern" where
  "mycpu h = (\<lambda>m.
     if eif m h then Inl (Panic ''mycpu called with interrupts enabled'')
     else (case cpu_index m h of Some i \<Rightarrow> Inr (i, m) | None \<Rightarrow> Inl (Panic ''unknown apicid'')))"

definition set_cpu :: "nat \<Rightarrow> (cpu \<Rightarrow> cpu) \<Rightarrow> smp \<Rightarrow> smp" where
  "set_cpu i f m = m\<lparr>cpus := (cpus m)[i := f (cpus m ! i)]\<rparr>"

definition pushcli :: "nat \<Rightarrow> (smp, unit) kern" where
  "pushcli h = (\<lambda>m. let fl = eif m h in
     bnd (upd (\<lambda>m. m\<lparr>eif := (eif m)(h := False)\<rparr>)) (\<lambda>_.
     bnd (mycpu h) (\<lambda>i.
     bnd (upd (\<lambda>m. if ncli (cpus m ! i) = 0 then set_cpu i (\<lambda>c. c\<lparr>intena := fl\<rparr>) m else m)) (\<lambda>_.
     upd (set_cpu i (\<lambda>c. c\<lparr>ncli := ncli c + 1\<rparr>))))) m)"

definition popcli :: "nat \<Rightarrow> (smp, unit) kern" where
  "popcli h = (\<lambda>m.
     if eif m h then Inl (Panic ''popcli - interruptible'')
     else bnd (mycpu h) (\<lambda>i.
          bnd (upd (set_cpu i (\<lambda>c. c\<lparr>ncli := ncli c - 1\<rparr>))) (\<lambda>_ m.
          if ncli (cpus m ! i) < 0 then Inl (Panic ''popcli'')
          else Inr ((), if ncli (cpus m ! i) = 0 \<and> intena (cpus m ! i) then m\<lparr>eif := (eif m)(h := True)\<rparr> else m))) m)"

text \<open>The program counters found by following the frame pointers from the argument \<open>v\<close>; \<open>ld\<close> loads a word.\<close>

fun pcs_loop :: "(nat \<Rightarrow> nat) \<Rightarrow> nat \<Rightarrow> nat \<Rightarrow> nat list" where
  "pcs_loop ld ebp 0 = []"
| "pcs_loop ld ebp (Suc k) =
     (if ebp = 0 \<or> ebp < KERNBASE \<or> ebp = 0xffffffff then replicate (Suc k) 0
      else ld (u32 (ebp + 4)) # pcs_loop ld (ld ebp) k)"

definition getcallerpcs :: "(nat \<Rightarrow> nat) \<Rightarrow> nat \<Rightarrow> nat list" where
  "getcallerpcs ld v = pcs_loop ld (sub32 v 8) 10"

definition holding :: "nat \<Rightarrow> (smp, bool) kern" where
  "holding h =
     bnd (pushcli h) (\<lambda>_.
     bnd (\<lambda>m. if sp_locked (slock m) then bnd (mycpu h) (\<lambda>i. gets (\<lambda>m. sp_cpu (slock m) = Some i)) m else Inr (False, m)) (\<lambda>r.
     bnd (popcli h) (\<lambda>_. ret r)))"

definition set_lock :: "(spinlock \<Rightarrow> spinlock) \<Rightarrow> smp \<Rightarrow> smp" where
  "set_lock f m = m\<lparr>slock := f (slock m)\<rparr>"

definition xchg_lock :: "(smp, bool) kern" where
  "xchg_lock = (\<lambda>m. Inr (sp_locked (slock m), set_lock (\<lambda>l. l\<lparr>sp_locked := True\<rparr>) m))"

definition record_owner :: "(nat \<Rightarrow> nat) \<Rightarrow> nat \<Rightarrow> nat \<Rightarrow> (smp, unit) kern" where
  "record_owner ld v h =
     bnd (mycpu h) (\<lambda>i. upd (set_lock (\<lambda>l. l\<lparr>sp_cpu := Some i, sp_pcs := getcallerpcs ld v\<rparr>)))"

text \<open>A processor that spins on a lock nobody will release waits forever.\<close>

definition acquire :: "(nat \<Rightarrow> nat) \<Rightarrow> nat \<Rightarrow> nat \<Rightarrow> (smp, unit) kern" where
  "acquire ld v h =
     bnd (pushcli h) (\<lambda>_.
     bnd (holding h) (\<lambda>r.
     if r then panic ''acquire''
     else bnd xchg_lock (\<lambda>old.
          if old then (\<lambda>_. Inl (Blocked ''acquire'')) else record_owner ld v h)))"

definition clear_owner :: "spinlock \<Rightarrow> spinlock" where
  "clear_owner l = l\<lparr>sp_pcs := (sp_pcs l)[0 := 0], sp_cpu := None\<rparr>"

definition release :: "nat \<Rightarrow> (smp, unit) kern" where
  "release h =
     bnd (holding h) (\<lambda>r.
     if \<not> r then panic ''release''
     else bnd (upd (set_lock clear_owner)) (\<lambda>_.
          bnd (upd (set_lock (\<lambda>l. l\<lparr>sp_locked := False\<rparr>))) (\<lambda>_.
          popcli h)))"

subsection \<open>The routines in steps\<close>

text \<open>Where a processor is: outside, at the points of \<open>acquire\<close> (\<open>A\<close>) with its inner \<open>holding\<close>, in the
  section, at the points of \<open>release\<close> (\<open>R\<close>).\<close>

datatype spc = Out | AHold | ARead | ACmp | APop bool | ASpin | AWon | Crit
  | RRead | RCmp | RPop bool | RClear | RUnlock | RLast

definition spin_step :: "(nat \<Rightarrow> nat) \<Rightarrow> nat \<Rightarrow> nat \<Rightarrow> spc \<Rightarrow> (smp, spc) kern" where
  "spin_step ld v h p = (case p of
     Out \<Rightarrow> bnd (pushcli h) (\<lambda>_. ret AHold)
   | AHold \<Rightarrow> bnd (pushcli h) (\<lambda>_. ret ARead)
   | ARead \<Rightarrow> gets (\<lambda>m. if sp_locked (slock m) then ACmp else APop False)
   | ACmp \<Rightarrow> bnd (mycpu h) (\<lambda>i. gets (\<lambda>m. APop (sp_cpu (slock m) = Some i)))
   | APop r \<Rightarrow> bnd (popcli h) (\<lambda>_. if r then panic ''acquire'' else ret ASpin)
   | ASpin \<Rightarrow> bnd xchg_lock (\<lambda>old. ret (if old then ASpin else AWon))
   | AWon \<Rightarrow> bnd (record_owner ld v h) (\<lambda>_. ret Crit)
   | Crit \<Rightarrow> bnd (pushcli h) (\<lambda>_. ret RRead)
   | RRead \<Rightarrow> gets (\<lambda>m. if sp_locked (slock m) then RCmp else RPop False)
   | RCmp \<Rightarrow> bnd (mycpu h) (\<lambda>i. gets (\<lambda>m. RPop (sp_cpu (slock m) = Some i)))
   | RPop r \<Rightarrow> bnd (popcli h) (\<lambda>_. if \<not> r then panic ''release'' else ret RClear)
   | RClear \<Rightarrow> bnd (upd (set_lock clear_owner)) (\<lambda>_. ret RUnlock)
   | RUnlock \<Rightarrow> bnd (upd (set_lock (\<lambda>l. l\<lparr>sp_locked := False\<rparr>))) (\<lambda>_. ret RLast)
   | RLast \<Rightarrow> bnd (popcli h) (\<lambda>_. ret Out))"

text \<open>The processors of the machine, and the states they reach together.\<close>

definition ids :: "smp \<Rightarrow> nat set" where
  "ids m = apicid ` set (cpus m)"

inductive spin_trans :: "(nat \<Rightarrow> nat) \<Rightarrow> nat \<Rightarrow> nat set \<Rightarrow> (nat \<Rightarrow> spc) \<times> smp \<Rightarrow> (nat \<Rightarrow> spc) \<times> smp \<Rightarrow> bool" for ld v S where
  move: "h \<in> S \<Longrightarrow> spin_step ld v h (pc h) m = Inr (p, m') \<Longrightarrow> spin_trans ld v S (pc, m) (pc(h := p), m')"

inductive_cases spin_transE: "spin_trans ld v S (pc, m) x"

subsection \<open>What a processor does to its own structure\<close>

definition smp_wf :: "smp \<Rightarrow> bool" where
  "smp_wf m \<longleftrightarrow> distinct (map apicid (cpus m)) \<and>
     (\<forall>c \<in> set (cpus m). ncli c \<ge> 0 \<and> (ncli c > 0 \<longrightarrow> \<not> eif m (apicid c)))"

definition aid :: "smp \<Rightarrow> nat \<Rightarrow> nat" where
  "aid m i = apicid (cpus m ! i)"

lemma aid_inj: "smp_wf m \<Longrightarrow> i < length (cpus m) \<Longrightarrow> j < length (cpus m) \<Longrightarrow> aid m i = aid m j \<longleftrightarrow> i = j"
  by (auto simp: smp_wf_def aid_def distinct_conv_nth)

lemma ids_conv: "h \<in> ids m \<longleftrightarrow> (\<exists>i < length (cpus m). h = aid m i)"
  unfolding ids_def aid_def by (metis image_iff in_set_conv_nth)

text \<open>The machines that differ from \<open>m0\<close> in the state of the processors and of the lock only.\<close>

definition same_ids :: "smp \<Rightarrow> smp \<Rightarrow> bool" where
  "same_ids m0 m \<longleftrightarrow> map apicid (cpus m) = map apicid (cpus m0)"

lemma same_ids_len: "same_ids m0 m \<Longrightarrow> length (cpus m) = length (cpus m0)"
  by (metis same_ids_def length_map)

lemma same_ids_aid: "same_ids m0 m \<Longrightarrow> i < length (cpus m0) \<Longrightarrow> apicid (cpus m ! i) = aid m0 i"
  unfolding same_ids_def aid_def by (metis length_map nth_map)

lemma cpu_index_ok:
  assumes "smp_wf m0" "same_ids m0 m" "i < length (cpus m0)"
  shows "cpu_index m (aid m0 i) = Some i"
proof -
  have "\<forall>j < length (cpus m0). apicid (cpus m ! j) = aid m0 i \<longleftrightarrow> j = i"
    using assms same_ids_aid [OF assms(2)] aid_inj [OF assms(1)] by metis
  then show ?thesis using assms(3) same_ids_len [OF assms(2)] by (auto simp: cpu_index_def find_Some_iff intro!: exI [of _ i])
qed

lemma mycpu_ok:
  assumes "smp_wf m0" "same_ids m0 m" "i < length (cpus m0)" "\<not> eif m (aid m0 i)"
  shows "mycpu (aid m0 i) m = Inr (i, m)"
  using cpu_index_ok [OF assms(1-3)] assms(4) by (simp add: mycpu_def)

definition pushed :: "nat \<Rightarrow> nat \<Rightarrow> smp \<Rightarrow> smp" where
  "pushed i h m = set_cpu i (\<lambda>c. c\<lparr>intena := (if ncli c = 0 then eif m h else intena c), ncli := ncli c + 1\<rparr>)
     (m\<lparr>eif := (eif m)(h := False)\<rparr>)"

definition popped :: "nat \<Rightarrow> nat \<Rightarrow> smp \<Rightarrow> smp" where
  "popped i h m = set_cpu i (\<lambda>c. c\<lparr>ncli := ncli c - 1\<rparr>)
     (if ncli (cpus m ! i) = 1 \<and> intena (cpus m ! i) then m\<lparr>eif := (eif m)(h := True)\<rparr> else m)"

lemma pushcli_ok:
  assumes "smp_wf m0" "same_ids m0 m" "i < length (cpus m0)"
  shows "pushcli (aid m0 i) m = Inr ((), pushed i (aid m0 i) m)"
proof -
  let ?m = "m\<lparr>eif := (eif m)(aid m0 i := False)\<rparr>"
  have "same_ids m0 ?m" using assms(2) by (simp add: same_ids_def)
  then have "mycpu (aid m0 i) ?m = Inr (i, ?m)" using mycpu_ok [OF assms(1) _ assms(3), of ?m] by simp
  then show ?thesis using assms(3) same_ids_len [OF assms(2)]
    by (simp add: pushcli_def bnd_def upd_def pushed_def set_cpu_def Let_def)
qed

lemma popcli_ok:
  assumes "smp_wf m0" "same_ids m0 m" "i < length (cpus m0)" "\<not> eif m (aid m0 i)" "ncli (cpus m ! i) \<ge> 1"
  shows "popcli (aid m0 i) m = Inr ((), popped i (aid m0 i) m)"
  using mycpu_ok [OF assms(1-4)] assms(3-5) same_ids_len [OF assms(2)]
  by (simp add: popcli_def bnd_def upd_def popped_def set_cpu_def)

subsection \<open>The invariant\<close>

text \<open>How often a processor at a point has disabled the interrupts; whether it has the lock, and whether the
  lock names it.\<close>

fun depth :: "spc \<Rightarrow> int" where
  "depth Out = 0"
| "depth ARead = 2" | "depth ACmp = 2" | "depth (APop r) = 2" | "depth RRead = 2" | "depth RCmp = 2" | "depth (RPop r) = 2"
| "depth p = 1"

fun recorded :: "spc \<Rightarrow> bool" where
  "recorded p \<longleftrightarrow> (case p of Crit \<Rightarrow> True | RRead \<Rightarrow> True | RCmp \<Rightarrow> True | RPop _ \<Rightarrow> True | RClear \<Rightarrow> True | _ \<Rightarrow> False)"

fun owns :: "spc \<Rightarrow> bool" where
  "owns p \<longleftrightarrow> recorded p \<or> p = AWon \<or> p = RUnlock"

definition cli_inv :: "smp \<Rightarrow> nat \<Rightarrow> spc \<Rightarrow> smp \<Rightarrow> bool" where
  "cli_inv m0 i p m \<longleftrightarrow> (let c = cpus m ! i; c0 = cpus m0 ! i in
     ncli c = ncli c0 + depth p \<and> (eif m (aid m0 i) \<longleftrightarrow> eif m0 (aid m0 i) \<and> depth p = 0) \<and>
     (if ncli c0 > 0 then intena c = intena c0 else depth p > 0 \<longrightarrow> intena c = eif m0 (aid m0 i)))"

definition lock_inv :: "smp \<Rightarrow> (nat \<Rightarrow> spc) \<Rightarrow> spinlock \<Rightarrow> bool" where
  "lock_inv m0 pc l \<longleftrightarrow> (let n = length (cpus m0); at = (\<lambda>i. pc (aid m0 i)) in
     (\<forall>i < n. at i \<noteq> APop True \<and> at i \<noteq> RPop False) \<and>
     (sp_locked l \<longleftrightarrow> (\<exists>i < n. owns (at i))) \<and>
     (\<forall>i < n. \<forall>j < n. owns (at i) \<longrightarrow> owns (at j) \<longrightarrow> i = j) \<and>
     (\<forall>i < n. sp_cpu l = Some i \<longleftrightarrow> recorded (at i)))"

definition spin_inv :: "smp \<Rightarrow> (nat \<Rightarrow> spc) \<Rightarrow> smp \<Rightarrow> bool" where
  "spin_inv m0 pc m \<longleftrightarrow> same_ids m0 m \<and> (\<forall>i < length (cpus m0). cli_inv m0 i (pc (aid m0 i)) m) \<and> lock_inv m0 pc (slock m)"

text \<open>A change by processor \<open>i\<close> to its own structure.\<close>

lemma frame_simps [simp]:
  "slock (pushed i h m) = slock m" "slock (popped i h m) = slock m" "slock (set_cpu i f m) = slock m"
  "cpus (set_lock g m) = cpus m" "eif (set_lock g m) = eif m" "slock (set_lock g m) = g (slock m)"
  by (simp_all add: pushed_def popped_def set_cpu_def set_lock_def)

lemma apicid_update: "(map apicid xs)[i := apicid (xs ! i)] = map apicid xs"
  by (metis list_update_id map_update)

lemma same_ids_pushed: "same_ids m0 m \<Longrightarrow> same_ids m0 (pushed i h m)"
  using apicid_update [of "cpus m" i] by (simp add: same_ids_def pushed_def set_cpu_def map_update)

lemma same_ids_popped: "same_ids m0 m \<Longrightarrow> same_ids m0 (popped i h m)"
  using apicid_update [of "cpus m" i] by (simp add: same_ids_def popped_def set_cpu_def map_update)

lemma smp_wf_cpu:
  assumes "smp_wf m0" "i < length (cpus m0)"
  shows "ncli (cpus m0 ! i) \<ge> 0" "ncli (cpus m0 ! i) > 0 \<Longrightarrow> \<not> eif m0 (aid m0 i)"
  using assms by (auto simp: smp_wf_def aid_def)

lemma cli_push:
  assumes "smp_wf m0" "same_ids m0 m" "i < length (cpus m0)" "cli_inv m0 i p m" "depth p' = depth p + 1" "depth p \<ge> 0"
  shows "cli_inv m0 i p' (pushed i (aid m0 i) m)"
  using assms(3-6) smp_wf_cpu [OF assms(1,3)] same_ids_len [OF assms(2)]
  by (auto simp: cli_inv_def pushed_def set_cpu_def Let_def)

lemma cli_pop:
  assumes "smp_wf m0" "same_ids m0 m" "i < length (cpus m0)" "cli_inv m0 i p m" "depth p' = depth p - 1" "depth p \<ge> 1"
  shows "cli_inv m0 i p' (popped i (aid m0 i) m)"
  using assms(3-6) smp_wf_cpu [OF assms(1,3)] same_ids_len [OF assms(2)]
  by (auto simp: cli_inv_def popped_def set_cpu_def Let_def)

lemma cli_other:
  assumes "smp_wf m0" "i < length (cpus m0)" "j < length (cpus m0)" "j \<noteq> i"
  shows "cli_inv m0 j q (pushed i (aid m0 i) m) = cli_inv m0 j q m" "cli_inv m0 j q (popped i (aid m0 i) m) = cli_inv m0 j q m"
  using aid_inj [OF assms(1,3,2)] assms(4) by (auto simp: cli_inv_def pushed_def popped_def set_cpu_def Let_def)

lemma cli_lock [simp]: "cli_inv m0 i p (set_lock g m) = cli_inv m0 i p m"
  by (simp add: cli_inv_def)

lemma cli_depth: "depth p' = depth p \<Longrightarrow> cli_inv m0 i p' m = cli_inv m0 i p m"
  by (simp add: cli_inv_def)

text \<open>A step that leaves the lock alone and the processor's relation to it.\<close>

lemma lock_keep:
  assumes "smp_wf m0" "lock_inv m0 pc l" "i < length (cpus m0)" "owns p' = owns (pc (aid m0 i))"
    "recorded p' = recorded (pc (aid m0 i))" "p' \<noteq> APop True" "p' \<noteq> RPop False"
  shows "lock_inv m0 (pc(aid m0 i := p')) l"
proof -
  have at: "j < length (cpus m0) \<Longrightarrow> (pc(aid m0 i := p')) (aid m0 j) = (if j = i then p' else pc (aid m0 j))" for j
    using aid_inj [OF assms(1) _ assms(3), of j] by simp
  have o: "j < length (cpus m0) \<Longrightarrow> owns ((pc(aid m0 i := p')) (aid m0 j)) = owns (pc (aid m0 j))" for j
    using at [of j] assms(4) by (metis (full_types))
  have r: "j < length (cpus m0) \<Longrightarrow> recorded ((pc(aid m0 i := p')) (aid m0 j)) = recorded (pc (aid m0 j))" for j
    using at [of j] assms(5) by (metis (full_types))
  show ?thesis unfolding lock_inv_def Let_def
  proof (intro conjI)
    show "\<forall>j < length (cpus m0). (pc(aid m0 i := p')) (aid m0 j) \<noteq> APop True \<and> (pc(aid m0 i := p')) (aid m0 j) \<noteq> RPop False"
      using assms(2,6,7) at by (auto simp: lock_inv_def Let_def)
    show "sp_locked l = (\<exists>j < length (cpus m0). owns ((pc(aid m0 i := p')) (aid m0 j)))"
      using assms(2) o by (auto simp: lock_inv_def Let_def simp del: owns.simps fun_upd_apply)
    show "\<forall>j < length (cpus m0). \<forall>k < length (cpus m0). owns ((pc(aid m0 i := p')) (aid m0 j)) \<longrightarrow> owns ((pc(aid m0 i := p')) (aid m0 k)) \<longrightarrow> j = k"
      using assms(2) o by (auto simp: lock_inv_def Let_def simp del: owns.simps fun_upd_apply)
    show "\<forall>j < length (cpus m0). (sp_cpu l = Some j) = recorded ((pc(aid m0 i := p')) (aid m0 j))"
      using assms(2) r by (auto simp: lock_inv_def Let_def simp del: recorded.simps fun_upd_apply)
  qed
qed

text \<open>A step of the processor that has the lock before or after it.\<close>

lemma lock_set:
  assumes "smp_wf m0" "lock_inv m0 pc l" "i < length (cpus m0)" "\<forall>j < length (cpus m0). j \<noteq> i \<longrightarrow> \<not> owns (pc (aid m0 j))"
    "p' \<noteq> APop True" "p' \<noteq> RPop False" "sp_locked l' = owns p'"
    "\<forall>j < length (cpus m0). sp_cpu l' = Some j \<longleftrightarrow> j = i \<and> recorded p'"
  shows "lock_inv m0 (pc(aid m0 i := p')) l'"
proof -
  let ?q = "pc(aid m0 i := p')"
  have at: "j < length (cpus m0) \<Longrightarrow> ?q (aid m0 j) = (if j = i then p' else pc (aid m0 j))" for j
    using aid_inj [OF assms(1) _ assms(3), of j] by simp
  have o: "j < length (cpus m0) \<Longrightarrow> owns (?q (aid m0 j)) \<longleftrightarrow> j = i \<and> owns p'" for j
    using at [of j] assms(4) by (metis (full_types))
  have r: "recorded (?q (aid m0 j)) \<longleftrightarrow> j = i \<and> recorded p'" if "j < length (cpus m0)" for j
  proof (cases "j = i")
    case False
    then have "\<not> recorded (pc (aid m0 j))" using assms(4) that by (metis owns.elims(3))
    then show ?thesis using at [OF that] False by metis
  qed (use at [OF that] in simp)
  show ?thesis unfolding lock_inv_def Let_def
  proof (intro conjI)
    show "\<forall>j < length (cpus m0). ?q (aid m0 j) \<noteq> APop True \<and> ?q (aid m0 j) \<noteq> RPop False"
      using assms(2,5,6) at by (auto simp: lock_inv_def Let_def)
    show "sp_locked l' = (\<exists>j < length (cpus m0). owns (?q (aid m0 j)))"
      using assms(3,7) o by (auto simp del: owns.simps fun_upd_apply)
    show "\<forall>j < length (cpus m0). \<forall>k < length (cpus m0). owns (?q (aid m0 j)) \<longrightarrow> owns (?q (aid m0 k)) \<longrightarrow> j = k"
      using o by (auto simp del: owns.simps fun_upd_apply)
    show "\<forall>j < length (cpus m0). (sp_cpu l' = Some j) = recorded (?q (aid m0 j))"
      using assms(8) r by (auto simp del: recorded.simps fun_upd_apply)
  qed
qed

text \<open>The four kinds of steps.\<close>

lemma inv_push:
  assumes "smp_wf m0" "spin_inv m0 pc m" "i < length (cpus m0)" "depth p' = depth (pc (aid m0 i)) + 1"
    "owns p' = owns (pc (aid m0 i))" "recorded p' = recorded (pc (aid m0 i))" "p' \<noteq> APop True" "p' \<noteq> RPop False"
  shows "pushcli (aid m0 i) m = Inr ((), pushed i (aid m0 i) m) \<and> spin_inv m0 (pc(aid m0 i := p')) (pushed i (aid m0 i) m)"
proof -
  note inv = assms(2) [unfolded spin_inv_def]
  have ids: "same_ids m0 m" and lk: "lock_inv m0 pc (slock m)" using inv by blast+
  have "depth (pc (aid m0 i)) \<ge> 0" by (cases "pc (aid m0 i)") auto
  then have own: "cli_inv m0 i p' (pushed i (aid m0 i) m)" using cli_push [OF assms(1) ids assms(3) _ assms(4)] inv assms(3) by blast
  have "cli_inv m0 j ((pc(aid m0 i := p')) (aid m0 j)) (pushed i (aid m0 i) m)" if j: "j < length (cpus m0)" for j
    using own inv j aid_inj [OF assms(1) j assms(3)] cli_other(1) [OF assms(1,3) j] by (cases "j = i") auto
  then show ?thesis using pushcli_ok [OF assms(1) ids assms(3)] same_ids_pushed [OF ids] lock_keep [OF assms(1) lk assms(3,5-8)] inv
    by (simp add: spin_inv_def del: owns.simps recorded.simps fun_upd_apply)
qed

lemma inv_pop:
  assumes "smp_wf m0" "spin_inv m0 pc m" "i < length (cpus m0)" "depth p' = depth (pc (aid m0 i)) - 1" "depth (pc (aid m0 i)) \<ge> 1"
    "owns p' = owns (pc (aid m0 i))" "recorded p' = recorded (pc (aid m0 i))" "p' \<noteq> APop True" "p' \<noteq> RPop False"
  shows "popcli (aid m0 i) m = Inr ((), popped i (aid m0 i) m) \<and> spin_inv m0 (pc(aid m0 i := p')) (popped i (aid m0 i) m)"
proof -
  note inv = assms(2) [unfolded spin_inv_def]
  have ids: "same_ids m0 m" and lk: "lock_inv m0 pc (slock m)" using inv by blast+
  have ci: "cli_inv m0 i (pc (aid m0 i)) m" using inv assms(3) by blast
  then have off: "\<not> eif m (aid m0 i)" "ncli (cpus m ! i) \<ge> 1" using assms(5) smp_wf_cpu [OF assms(1,3)] by (auto simp: cli_inv_def Let_def)
  have own: "cli_inv m0 i p' (popped i (aid m0 i) m)" using cli_pop [OF assms(1) ids assms(3) ci assms(4,5)] .
  have "cli_inv m0 j ((pc(aid m0 i := p')) (aid m0 j)) (popped i (aid m0 i) m)" if j: "j < length (cpus m0)" for j
    using own inv j aid_inj [OF assms(1) j assms(3)] cli_other(2) [OF assms(1,3) j] by (cases "j = i") auto
  then show ?thesis using popcli_ok [OF assms(1) ids assms(3) off] same_ids_popped [OF ids] lock_keep [OF assms(1) lk assms(3,6-9)] inv
    by (simp add: spin_inv_def del: owns.simps recorded.simps fun_upd_apply)
qed

lemma inv_lock:
  assumes "smp_wf m0" "spin_inv m0 pc m" "i < length (cpus m0)" "depth p' = depth (pc (aid m0 i))"
    "lock_inv m0 (pc(aid m0 i := p')) (g (slock m))"
  shows "spin_inv m0 (pc(aid m0 i := p')) (set_lock g m)"
proof -
  have "cli_inv m0 j ((pc(aid m0 i := p')) (aid m0 j)) m" if j: "j < length (cpus m0)" for j
    using assms(2) j aid_inj [OF assms(1) j assms(3)] cli_depth [OF assms(4), of m0 i m] by (cases "j = i") (auto simp: spin_inv_def)
  then show ?thesis using assms(2,5) by (simp add: spin_inv_def same_ids_def del: fun_upd_apply)
qed

lemma set_lock_id: "set_lock (\<lambda>l. l) m = m"
  by (simp add: set_lock_def)

lemma inv_quiet:
  assumes "smp_wf m0" "spin_inv m0 pc m" "i < length (cpus m0)" "depth p' = depth (pc (aid m0 i))"
    "owns p' = owns (pc (aid m0 i))" "recorded p' = recorded (pc (aid m0 i))" "p' \<noteq> APop True" "p' \<noteq> RPop False"
  shows "spin_inv m0 (pc(aid m0 i := p')) m"
proof -
  have lk: "lock_inv m0 pc (slock m)" using assms(2) by (simp add: spin_inv_def)
  from lock_keep [OF assms(1) lk assms(3,5-8)] show ?thesis using inv_lock [OF assms(1-4), of "\<lambda>l. l"] by (simp add: set_lock_id)
qed

lemma cli_off:
  assumes "spin_inv m0 pc m" "i < length (cpus m0)" "depth (pc (aid m0 i)) \<noteq> 0"
  shows "\<not> eif m (aid m0 i)"
  using assms by (auto simp: spin_inv_def cli_inv_def Let_def)

lemma inv_mycpu:
  assumes "smp_wf m0" "spin_inv m0 pc m" "i < length (cpus m0)" "depth (pc (aid m0 i)) \<noteq> 0"
  shows "mycpu (aid m0 i) m = Inr (i, m)"
  using mycpu_ok [OF assms(1) _ assms(3) cli_off [OF assms(2-4)]] assms(2) by (simp add: spin_inv_def)

lemma lock_facts:
  assumes "spin_inv m0 pc m" "i < length (cpus m0)"
  shows "pc (aid m0 i) \<noteq> APop True" "pc (aid m0 i) \<noteq> RPop False" "sp_cpu (slock m) = Some i \<longleftrightarrow> recorded (pc (aid m0 i))"
    "owns (pc (aid m0 i)) \<Longrightarrow> sp_locked (slock m)"
    "\<not> sp_locked (slock m) \<Longrightarrow> j < length (cpus m0) \<Longrightarrow> \<not> owns (pc (aid m0 j))"
    "owns (pc (aid m0 i)) \<Longrightarrow> j < length (cpus m0) \<Longrightarrow> j \<noteq> i \<Longrightarrow> \<not> owns (pc (aid m0 j))"
  using assms unfolding spin_inv_def lock_inv_def Let_def by blast+

text \<open>The steps that move the lock.\<close>

lemma inv_owner:
  assumes "smp_wf m0" "spin_inv m0 pc m" "i < length (cpus m0)" "depth p' = depth (pc (aid m0 i))"
    "\<forall>j < length (cpus m0). j \<noteq> i \<longrightarrow> \<not> owns (pc (aid m0 j))" "p' \<noteq> APop True" "p' \<noteq> RPop False"
    "sp_locked (g (slock m)) = owns p'" "\<forall>j < length (cpus m0). sp_cpu (g (slock m)) = Some j \<longleftrightarrow> j = i \<and> recorded p'"
  shows "spin_inv m0 (pc(aid m0 i := p')) (set_lock g m)"
proof -
  have lk: "lock_inv m0 pc (slock m)" using assms(2) by (simp add: spin_inv_def)
  show ?thesis using inv_lock [where g = g, OF assms(1-4) lock_set [OF assms(1) lk assms(3,5-9)]] .
qed

lemma spin_xchg:
  assumes "smp_wf m0" "spin_inv m0 pc m" "i < length (cpus m0)" "pc (aid m0 i) = ASpin"
  shows "\<exists>p' m'. spin_step ld v (aid m0 i) ASpin m = Inr (p', m') \<and> spin_inv m0 (pc(aid m0 i := p')) m' \<and>
    (\<not> sp_locked (slock m) \<longrightarrow> p' = AWon)"
proof (cases "sp_locked (slock m)")
  case True
  then have "(slock m)\<lparr>sp_locked := True\<rparr> = slock m" by simp
  then have "spin_step ld v (aid m0 i) ASpin m = Inr (ASpin, m)"
    using True by (simp add: spin_step_def xchg_lock_def set_lock_def bnd_def ret_def)
  then show ?thesis using True inv_quiet [OF assms(1-3), of ASpin] assms(4) by simp
next
  case False
  note lf = lock_facts [OF assms(2)]
  have "\<forall>j < length (cpus m0). sp_cpu (slock m) \<noteq> Some j" using lf(3) lf(5) [OF assms(3) False] by (metis owns.elims(3))
  then have "spin_inv m0 (pc(aid m0 i := AWon)) (set_lock (\<lambda>l. l\<lparr>sp_locked := True\<rparr>) m)"
    using inv_owner [OF assms(1-3), of AWon "\<lambda>l. l\<lparr>sp_locked := True\<rparr>"] assms(4) lf(5) [OF assms(3) False] by simp
  then show ?thesis using False by (simp add: spin_step_def xchg_lock_def bnd_def ret_def del: fun_upd_apply)
qed

lemma spin_lock_moves:
  assumes "smp_wf m0" "spin_inv m0 pc m" "i < length (cpus m0)"
  shows "pc (aid m0 i) = AWon \<Longrightarrow> \<exists>m'. spin_step ld v (aid m0 i) AWon m = Inr (Crit, m') \<and> spin_inv m0 (pc(aid m0 i := Crit)) m'"
    and "pc (aid m0 i) = RClear \<Longrightarrow> \<exists>m'. spin_step ld v (aid m0 i) RClear m = Inr (RUnlock, m') \<and> spin_inv m0 (pc(aid m0 i := RUnlock)) m'"
    and "pc (aid m0 i) = RUnlock \<Longrightarrow> \<exists>m'. spin_step ld v (aid m0 i) RUnlock m = Inr (RLast, m') \<and> spin_inv m0 (pc(aid m0 i := RLast)) m'"
proof -
  note lf = lock_facts [OF assms(2,3)] and own = inv_owner [OF assms]
  show "\<exists>m'. spin_step ld v (aid m0 i) AWon m = Inr (Crit, m') \<and> spin_inv m0 (pc(aid m0 i := Crit)) m'" if "pc (aid m0 i) = AWon"
    using own [of Crit "\<lambda>l. l\<lparr>sp_cpu := Some i, sp_pcs := getcallerpcs ld v\<rparr>"] lf(4,6) inv_mycpu [OF assms] that eq_commute [of i]
    by (simp add: spin_step_def record_owner_def bnd_def upd_def ret_def del: fun_upd_apply)
  show "\<exists>m'. spin_step ld v (aid m0 i) RClear m = Inr (RUnlock, m') \<and> spin_inv m0 (pc(aid m0 i := RUnlock)) m'" if "pc (aid m0 i) = RClear"
    using own [of RUnlock clear_owner] lf(4,6) that by (simp add: spin_step_def clear_owner_def bnd_def upd_def ret_def del: fun_upd_apply)
  have no: "\<forall>j < length (cpus m0). sp_cpu (slock m) \<noteq> Some j" if "pc (aid m0 i) = RUnlock"
  proof (intro allI impI)
    fix j assume j: "j < length (cpus m0)"
    have "\<not> recorded (pc (aid m0 j))"
      using lf(6) [OF _ j] that by (cases "j = i") (simp_all del: recorded.simps, simp)
    then show "sp_cpu (slock m) \<noteq> Some j" using lock_facts(3) [OF assms(2) j] by simp
  qed
  show "\<exists>m'. spin_step ld v (aid m0 i) RUnlock m = Inr (RLast, m') \<and> spin_inv m0 (pc(aid m0 i := RLast)) m'" if "pc (aid m0 i) = RUnlock"
    using own [of RLast "\<lambda>l. l\<lparr>sp_locked := False\<rparr>"] no [OF that] lf(6) that by (simp add: spin_step_def bnd_def upd_def ret_def del: fun_upd_apply)
qed

fun dist :: "spc \<Rightarrow> nat" where
  "dist AWon = 7" | "dist Crit = 6" | "dist RRead = 5" | "dist RCmp = 4" | "dist (RPop r) = 3" | "dist RClear = 2" | "dist RUnlock = 1"
| "dist p = 0"

text \<open>No step faults, each keeps the invariant, and the steps of a processor with the lock lead to its release.\<close>

lemma spin_step_ok:
  assumes "smp_wf m0" "spin_inv m0 pc m" "i < length (cpus m0)"
  shows "\<exists>p' m'. spin_step ld v (aid m0 i) (pc (aid m0 i)) m = Inr (p', m') \<and> spin_inv m0 (pc(aid m0 i := p')) m' \<and>
    (owns (pc (aid m0 i)) \<longrightarrow> dist p' < dist (pc (aid m0 i)))"
proof -
  note push = inv_push [OF assms] and pop = inv_pop [OF assms] and quiet = inv_quiet [OF assms] and lf = lock_facts [OF assms(2,3)]
  note mc = inv_mycpu [OF assms] and mv = spin_lock_moves [OF assms, of ld v] and x = spin_xchg [OF assms, of ld v]
  note ev = spin_step_def bnd_def ret_def gets_def
  show ?thesis
  proof (cases "pc (aid m0 i)")
    case Out then show ?thesis using push [of AHold] by (simp add: ev del: fun_upd_apply)
  next
    case AHold then show ?thesis using push [of ARead] by (simp add: ev del: fun_upd_apply)
  next
    case ARead then show ?thesis using quiet [of ACmp] quiet [of "APop False"] by (simp add: ev del: fun_upd_apply)
  next
    case ACmp then show ?thesis using quiet [of "APop False"] mc lf(3) by (simp add: ev del: fun_upd_apply)
  next
    case (APop r) then show ?thesis using pop [of ASpin] lf(1) by (cases r) (simp_all add: ev del: fun_upd_apply)
  next
    case ASpin then show ?thesis using x by auto
  next
    case AWon then show ?thesis using mv(1) by auto
  next
    case Crit then show ?thesis using push [of RRead] by (simp add: ev del: fun_upd_apply)
  next
    case RRead then show ?thesis using quiet [of RCmp] lf(4) by (simp add: ev del: fun_upd_apply)
  next
    case RCmp then show ?thesis using quiet [of "RPop True"] mc lf(3) by (simp add: ev del: fun_upd_apply)
  next
    case (RPop r) then show ?thesis using pop [of RClear] lf(2) by (cases r) (simp_all add: ev del: fun_upd_apply)
  next
    case RClear then show ?thesis using mv(2) by auto
  next
    case RUnlock then show ?thesis using mv(3) by auto
  next
    case RLast then show ?thesis using pop [of Out] by (simp add: ev del: fun_upd_apply)
  qed
qed

lemma spin_inv_start:
  assumes "smp_wf m0" "slock m0 = initlock l"
  shows "spin_inv m0 (\<lambda>_. Out) m0"
  using assms smp_wf_cpu [OF assms(1)] by (auto simp: spin_inv_def same_ids_def cli_inv_def lock_inv_def initlock_def Let_def)

lemma spin_inv_reach:
  assumes "smp_wf m0" "slock m0 = initlock l" "(spin_trans ld v (ids m0))\<^sup>*\<^sup>* (\<lambda>_. Out, m0) x"
  shows "spin_inv m0 (fst x) (snd x)"
  using assms(3)
proof (induction rule: rtranclp_induct)
  case base
  then show ?case using spin_inv_start [OF assms(1,2)] by simp
next
  case (step y z)
  obtain pc m where y: "y = (pc, m)" by (cases y)
  obtain h p m' where h: "h \<in> ids m0" "spin_step ld v h (pc h) m = Inr (p, m')" "z = (pc(h := p), m')"
    using step.hyps(2) unfolding y by (auto elim: spin_transE)
  then obtain i where i: "i < length (cpus m0)" "h = aid m0 i" using ids_conv by blast
  then show ?case using spin_step_ok [OF assms(1) _ i(1), of pc m ld v] step.IH y h by (auto simp del: owns.simps fun_upd_apply)
qed

lemma owner_releases:
  assumes "smp_wf m0" "i < length (cpus m0)" "spin_inv m0 pc m"
  shows "\<exists>p' m'. (spin_trans ld v (ids m0))\<^sup>*\<^sup>* (pc, m) (pc(aid m0 i := p'), m') \<and> spin_inv m0 (pc(aid m0 i := p')) m' \<and> \<not> owns p'"
  using assms(3)
proof (induction "dist (pc (aid m0 i))" arbitrary: pc m rule: less_induct)
  case less
  show ?case
  proof (cases "owns (pc (aid m0 i))")
    case False
    then show ?thesis using less.prems by (intro exI [of _ "pc (aid m0 i)"] exI [of _ m]) (simp del: owns.simps)
  next
    case True
    obtain p m1 where s: "spin_step ld v (aid m0 i) (pc (aid m0 i)) m = Inr (p, m1)" "spin_inv m0 (pc(aid m0 i := p)) m1" "dist p < dist (pc (aid m0 i))"
      using spin_step_ok [OF assms(1) less.prems assms(2), of ld v] True by blast
    have t: "spin_trans ld v (ids m0) (pc, m) (pc(aid m0 i := p), m1)" using move [where pc = pc and h = "aid m0 i", OF _ s(1)] assms(2) ids_conv by blast
    obtain p' m' where "(spin_trans ld v (ids m0))\<^sup>*\<^sup>* (pc(aid m0 i := p), m1) (pc(aid m0 i := p'), m') \<and> spin_inv m0 (pc(aid m0 i := p')) m' \<and> \<not> owns p'"
      using less.hyps [OF _ s(2)] s(3) by (auto simp del: owns.simps)
    then show ?thesis using t by (meson converse_rtranclp_into_rtranclp)
  qed
qed

lemma spinner_enters:
  assumes "smp_wf m0" "i < length (cpus m0)" "spin_inv m0 pc m" "pc (aid m0 i) = ASpin" "\<not> sp_locked (slock m)"
  shows "\<exists>m'. (spin_trans ld v (ids m0))\<^sup>*\<^sup>* (pc, m) (pc(aid m0 i := Crit), m')"
proof -
  let ?T = "spin_trans ld v (ids m0)" and ?h = "aid m0 i"
  have h: "?h \<in> ids m0" using assms(2) by (auto simp: ids_conv)
  obtain m1 where m1: "spin_step ld v ?h (pc ?h) m = Inr (AWon, m1)" "spin_inv m0 (pc(?h := AWon)) m1"
    using spin_xchg [OF assms(1,3,2,4), of ld v] assms(4,5) by auto
  obtain m2 where m2: "spin_step ld v ?h ((pc(?h := AWon)) ?h) m1 = Inr (Crit, m2)"
    using spin_lock_moves(1) [OF assms(1) m1(2) assms(2), of ld v] by auto
  have "?T (pc, m) (pc(?h := AWon), m1)" using move [where pc = pc and h = ?h, OF h m1(1)] .
  moreover have "?T (pc(?h := AWon), m1) (pc(?h := Crit), m2)" using move [where pc = "pc(?h := AWon)" and h = ?h, OF h m2] by simp
  ultimately show ?thesis by (meson converse_rtranclp_into_rtranclp rtranclp.rtrancl_refl)
qed

subsection \<open>A processor alone\<close>

lemma same_ids_refl: "same_ids m m"
  by (simp add: same_ids_def)

lemma push_pop:
  assumes "i < length (cpus m)" "ncli (cpus m ! i) \<ge> 1" "\<not> eif m h"
  shows "popped i h (pushed i h m) = m"
proof -
  have "(eif m)(h := False) = eif m" using assms(3) by (simp add: fun_upd_idem)
  then show ?thesis using assms(1,2) by (simp add: popped_def pushed_def set_cpu_def)
qed

lemma holding_ok:
  assumes "smp_wf m0" "same_ids m0 m" "i < length (cpus m0)" "ncli (cpus m ! i) \<ge> 0"
  shows "holding (aid m0 i) m = Inr (sp_locked (slock m) \<and> sp_cpu (slock m) = Some i, popped i (aid m0 i) (pushed i (aid m0 i) m))"
proof -
  let ?h = "aid m0 i" let ?m = "pushed i ?h m"
  have len: "i < length (cpus m)" using assms(3) same_ids_len [OF assms(2)] by simp
  have off: "\<not> eif ?m ?h" "ncli (cpus ?m ! i) \<ge> 1" using assms(4) len by (simp_all add: pushed_def set_cpu_def)
  have ids: "same_ids m0 ?m" using same_ids_pushed [OF assms(2)] .
  show ?thesis using pushcli_ok [OF assms(1-3)] popcli_ok [OF assms(1) ids assms(3) off] mycpu_ok [OF assms(1) ids assms(3) off(1)]
    by (simp add: holding_def bnd_def gets_def ret_def)
qed

lemma acquire_ok:
  assumes "smp_wf m" "i < length (cpus m)" "\<not> sp_locked (slock m)"
  shows "acquire ld v (aid m i) m = Inr ((), set_lock (\<lambda>l. l\<lparr>sp_locked := True, sp_cpu := Some i, sp_pcs := getcallerpcs ld v\<rparr>) (pushed i (aid m i) m))"
proof -
  let ?h = "aid m i" let ?m = "pushed i ?h m" let ?n = "set_lock (\<lambda>l. l\<lparr>sp_locked := True\<rparr>) ?m"
  have off: "\<not> eif ?m ?h" "ncli (cpus ?m ! i) \<ge> 1" "i < length (cpus ?m)"
    using smp_wf_cpu [OF assms(1,2)] assms(2) by (simp_all add: pushed_def set_cpu_def)
  have ids: "same_ids m ?m" "same_ids m ?n" using same_ids_pushed [OF same_ids_refl, of m i ?h] by (simp_all add: same_ids_def)
  have "holding ?h ?m = Inr (False, ?m)"
    using holding_ok [OF assms(1) ids(1) assms(2)] push_pop [OF off(3,2,1)] off(2) assms(3) by simp
  moreover have "mycpu ?h ?n = Inr (i, ?n)" using mycpu_ok [OF assms(1) ids(2) assms(2)] off(1) by simp
  ultimately show ?thesis using pushcli_ok [OF assms(1) same_ids_refl assms(2)] assms(3)
    by (simp add: acquire_def xchg_lock_def record_owner_def bnd_def upd_def set_lock_def)
qed

lemma release_ok:
  assumes "smp_wf m0" "same_ids m0 m" "i < length (cpus m0)" "ncli (cpus m ! i) \<ge> 1" "\<not> eif m (aid m0 i)"
    "sp_locked (slock m)" "sp_cpu (slock m) = Some i"
  shows "release (aid m0 i) m = Inr ((), popped i (aid m0 i) (set_lock (\<lambda>l. (clear_owner l)\<lparr>sp_locked := False\<rparr>) m))"
proof -
  let ?n = "set_lock (\<lambda>l. (clear_owner l)\<lparr>sp_locked := False\<rparr>) m"
  have len: "i < length (cpus m)" using assms(3) same_ids_len [OF assms(2)] by simp
  have "same_ids m0 ?n" using assms(2) by (simp add: same_ids_def)
  then have "popcli (aid m0 i) ?n = Inr ((), popped i (aid m0 i) ?n)" using popcli_ok [OF assms(1) _ assms(3), of ?n] assms(4,5) by simp
  then show ?thesis using holding_ok [OF assms(1-3)] push_pop [OF len assms(4,5)] assms(4,6,7)
    by (simp add: release_def bnd_def upd_def set_lock_def)
qed

subsection \<open>Properties\<close>

text \<open>C29. However the processors interleave in \<open>acquire\<close> and \<open>release\<close>: at most one is between them, none
  panics, interrupts are off on a processor between them, and outside its interrupt flag and its nesting
  depth are what they were.\<close>

theorem spinlock_excludes:
  assumes "smp_wf m0" "slock m0 = initlock l" "(spin_trans ld v (ids m0))\<^sup>*\<^sup>* (\<lambda>_. Out, m0) (pc, m)"
    "i < length (cpus m0)" "h = aid m0 i"
  shows "(pc h = Crit \<longrightarrow> \<not> eif m h \<and> (\<forall>k \<in> ids m0. k \<noteq> h \<longrightarrow> pc k \<noteq> Crit)) \<and>
    (\<exists>r. spin_step ld v h (pc h) m = Inr r) \<and>
    (pc h = Out \<longrightarrow> eif m h = eif m0 h \<and> ncli (cpus m ! i) = ncli (cpus m0 ! i))"
proof -
  have inv: "spin_inv m0 pc m" using spin_inv_reach [OF assms(1-3)] by simp
  have "pc k \<noteq> Crit" if "pc h = Crit" "k \<in> ids m0" "k \<noteq> h" for k
  proof -
    obtain j where j: "j < length (cpus m0)" "k = aid m0 j" using \<open>k \<in> ids m0\<close> ids_conv by blast
    then have "\<not> owns (pc k)" using lock_facts(6) [OF inv assms(4) _ j(1)] that assms(5) by auto
    then show ?thesis by auto
  qed
  moreover have "\<exists>r. spin_step ld v h (pc h) m = Inr r" using spin_step_ok [OF assms(1) inv assms(4), of ld v] assms(5) by blast
  moreover have "cli_inv m0 i (pc h) m" using inv assms(4,5) by (simp add: spin_inv_def)
  ultimately show ?thesis using cli_off [OF inv assms(4)] assms(5) by (auto simp: cli_inv_def Let_def)
qed

text \<open>Two processors with the APIC ids 0 and 4, one of them with interrupts on.\<close>

definition smp0 :: smp where
  "smp0 = \<lparr>cpus = [\<lparr>apicid = 0, ncli = 0, intena = False\<rparr>, \<lparr>apicid = 4, ncli = 1, intena = True\<rparr>], eif = (\<lambda>h. h = 0),
     slock = initlock \<lparr>sp_locked = False, sp_cpu = None, sp_pcs = replicate 10 0\<rparr>\<rparr>"

lemma smp0_wf: "smp_wf smp0" "ids smp0 = {0, 4}" "aid smp0 0 = 0" "aid smp0 1 = 4"
  by (auto simp: smp_wf_def smp0_def ids_def aid_def)

theorem spinlock_excludes_witness:
  "\<exists>r. spin_step (\<lambda>_. 0) 0 0 Out smp0 = Inr r"
  using spinlock_excludes [of smp0 _ "\<lambda>_. 0" 0 "\<lambda>_. Out" smp0 0 0, OF smp0_wf(1) _ rtranclp.rtrancl_refl] smp0_wf(3)
  by (simp add: smp0_def)

text \<open>C30. A processor that spins is never shut out: from every state the processors reach there are steps
  that take it into the section (the holder leaves in at most seven steps, then the exchange succeeds).\<close>

theorem spinlock_no_deadlock:
  assumes "smp_wf m0" "slock m0 = initlock l" "(spin_trans ld v (ids m0))\<^sup>*\<^sup>* (\<lambda>_. Out, m0) (pc, m)"
    "h \<in> ids m0" "pc h = ASpin"
  shows "\<exists>pc' m'. (spin_trans ld v (ids m0))\<^sup>*\<^sup>* (pc, m) (pc', m') \<and> pc' h = Crit"
proof -
  have inv: "spin_inv m0 pc m" using spin_inv_reach [OF assms(1-3)] by simp
  obtain i where i: "i < length (cpus m0)" "h = aid m0 i" using assms(4) by (auto simp: ids_conv)
  obtain pc1 m1 where p: "(spin_trans ld v (ids m0))\<^sup>*\<^sup>* (pc, m) (pc1, m1)" "spin_inv m0 pc1 m1" "pc1 h = ASpin" "\<not> sp_locked (slock m1)"
  proof (cases "sp_locked (slock m)")
    case True
    then obtain k where k: "k < length (cpus m0)" "owns (pc (aid m0 k))" using inv unfolding spin_inv_def lock_inv_def Let_def by blast
    obtain p' m' where r: "(spin_trans ld v (ids m0))\<^sup>*\<^sup>* (pc, m) (pc(aid m0 k := p'), m')" "spin_inv m0 (pc(aid m0 k := p')) m'" "\<not> owns p'"
      using owner_releases [OF assms(1) k(1) inv, of ld v] by blast
    have "aid m0 k \<noteq> h" using k(2) assms(5) by auto
    moreover have "\<not> owns ((pc(aid m0 k := p')) (aid m0 j))" if "j < length (cpus m0)" for j
      using lock_facts(6) [OF inv k that] r(3) aid_inj [OF assms(1) that k(1)] by (cases "j = k") (simp_all del: owns.simps)
    then have "\<not> sp_locked (slock m')" using r(2) unfolding spin_inv_def lock_inv_def Let_def by blast
    ultimately show thesis using that [of "pc(aid m0 k := p')" m'] r assms(5) by simp
  qed (use inv assms(5) that in blast)
  obtain m2 where "(spin_trans ld v (ids m0))\<^sup>*\<^sup>* (pc1, m1) (pc1(h := Crit), m2)"
    using spinner_enters [OF assms(1) i(1) p(2) _ p(4), of ld v] p(3) i(2) by blast
  then have "(spin_trans ld v (ids m0))\<^sup>*\<^sup>* (pc, m) (pc1(h := Crit), m2)" using p(1) by (meson rtranclp_trans)
  then show ?thesis by (metis fun_upd_same)
qed

lemma smp0_spins:
  "\<exists>pc m. (spin_trans (\<lambda>_. 0) 0 (ids smp0))\<^sup>*\<^sup>* (\<lambda>_. Out, smp0) (pc, m) \<and> pc 0 = ASpin"
proof -
  let ?T = "spin_trans (\<lambda>_. 0) 0 (ids smp0)"
  note ev = spin_step_def pushcli_def popcli_def mycpu_def cpu_index_def set_cpu_def bnd_def upd_def ret_def gets_def Let_def upt_rec
  let ?m1 = "pushed 0 0 smp0" let ?m2 = "pushed 0 0 ?m1" let ?m3 = "popped 0 0 ?m2"
  have s: "spin_step (\<lambda>_. 0) 0 0 Out smp0 = Inr (AHold, ?m1)" "spin_step (\<lambda>_. 0) 0 0 AHold ?m1 = Inr (ARead, ?m2)"
    "spin_step (\<lambda>_. 0) 0 0 ARead ?m2 = Inr (APop False, ?m2)" "spin_step (\<lambda>_. 0) 0 0 (APop False) ?m2 = Inr (ASpin, ?m3)"
    by (simp_all add: ev pushed_def popped_def smp0_def initlock_def)
  let ?p = "\<lambda>q. (\<lambda>_. Out)(0 := q)"
  have "?T (\<lambda>_. Out, smp0) (?p AHold, ?m1)" "?T (?p AHold, ?m1) (?p ARead, ?m2)" "?T (?p ARead, ?m2) (?p (APop False), ?m2)"
    "?T (?p (APop False), ?m2) (?p ASpin, ?m3)"
    using move [of 0 "ids smp0" "\<lambda>_. 0" 0 "\<lambda>_. Out"] move [of 0 "ids smp0" "\<lambda>_. 0" 0 "?p AHold"] move [of 0 "ids smp0" "\<lambda>_. 0" 0 "?p ARead"]
      move [of 0 "ids smp0" "\<lambda>_. 0" 0 "?p (APop False)"] s smp0_wf(2) by (simp_all add: fun_upd_upd)
  then have "?T\<^sup>*\<^sup>* (\<lambda>_. Out, smp0) (?p ASpin, ?m3)" by (meson converse_rtranclp_into_rtranclp rtranclp.rtrancl_refl)
  then show ?thesis by (intro exI [of _ "?p ASpin"] exI [of _ ?m3]) simp
qed

theorem spinlock_no_deadlock_witness:
  "\<exists>pc m pc' m'. pc 0 = ASpin \<and> (spin_trans (\<lambda>_. 0) 0 (ids smp0))\<^sup>*\<^sup>* (pc, m) (pc', m') \<and> pc' 0 = Crit"
proof -
  obtain pc m where r: "(spin_trans (\<lambda>_. 0) 0 (ids smp0))\<^sup>*\<^sup>* (\<lambda>_. Out, smp0) (pc, m)" "pc 0 = ASpin" using smp0_spins by blast
  have "0 \<in> ids smp0" by (simp add: smp0_wf(2))
  moreover have "\<exists>l. slock smp0 = initlock l" by (auto simp: smp0_def)
  ultimately show ?thesis using spinlock_no_deadlock [OF smp0_wf(1) _ r(1) _ r(2)] r(2) by blast
qed

text \<open>On a processor alone: \<open>acquire\<close> of a free lock returns holding it, a second \<open>acquire\<close> panics,
  \<open>release\<close> frees the lock and restores the interrupt flags and nesting depths of all processors, and a second
  \<open>release\<close> panics.\<close>

theorem acquire_release:
  assumes "smp_wf m" "i < length (cpus m)" "h = aid m i" "\<not> sp_locked (slock m)"
  shows "\<exists>m1 m2. acquire ld v h m = Inr ((), m1) \<and> holding h m1 = Inr (True, m1) \<and> acquire ld v h m1 = Inl (Panic ''acquire'') \<and>
    release h m1 = Inr ((), m2) \<and> \<not> sp_locked (slock m2) \<and> eif m2 = eif m \<and> map ncli (cpus m2) = map ncli (cpus m) \<and>
    release h m2 = Inl (Panic ''release'')"
proof -
  define m1 where "m1 = set_lock (\<lambda>l. l\<lparr>sp_locked := True, sp_cpu := Some i, sp_pcs := getcallerpcs ld v\<rparr>) (pushed i h m)"
  define m1' where "m1' = set_lock (\<lambda>l. (clear_owner l)\<lparr>sp_locked := False\<rparr>) m1"
  have n0: "ncli (cpus m ! i) \<ge> 0" "ncli (cpus m ! i) > 0 \<Longrightarrow> \<not> eif m h" using smp_wf_cpu [OF assms(1,2)] assms(3) by auto
  have acq: "acquire ld v h m = Inr ((), m1)" using acquire_ok [OF assms(1,2,4), of ld v] assms(3) by (simp add: m1_def)
  have ids: "same_ids m m1" using same_ids_pushed [OF same_ids_refl, of m i h] by (simp add: same_ids_def m1_def)
  have off: "ncli (cpus m1 ! i) \<ge> 1" "\<not> eif m1 h" "i < length (cpus m1)" using n0 assms(2) by (simp_all add: m1_def pushed_def set_cpu_def)
  have lk: "sp_locked (slock m1)" "sp_cpu (slock m1) = Some i" by (simp_all add: m1_def)
  have hold: "holding h m1 = Inr (True, m1)" using holding_ok [OF assms(1) ids assms(2)] push_pop [OF off(3,1,2)] off(1) lk assms(3) by simp
  have rel: "release h m1 = Inr ((), popped i h m1')" using release_ok [OF assms(1) ids assms(2) off(1) _ lk] off(2) assms(3) by (simp add: m1'_def)
  have off1: "ncli (cpus (pushed i h m1) ! i) \<ge> 0" using off by (simp add: pushed_def set_cpu_def)
  have again: "acquire ld v h m1 = Inl (Panic ''acquire'')"
    using pushcli_ok [OF assms(1) ids assms(2)] holding_ok [OF assms(1) same_ids_pushed [OF ids] assms(2), of i h] off1 lk assms(3)
    by (simp add: acquire_def bnd_def panic_def fail_def)
  have c1: "cpus m1' = (cpus m)[i := (cpus m ! i)\<lparr>intena := (if ncli (cpus m ! i) = 0 then eif m h else intena (cpus m ! i)), ncli := ncli (cpus m ! i) + 1\<rparr>]"
    "eif m1' = (eif m)(h := False)" "\<not> sp_locked (slock m1')" using assms(2) by (simp_all add: m1'_def m1_def pushed_def set_cpu_def)
  have m2: "eif (popped i h m1') = eif m" "ncli (cpus (popped i h m1') ! i) = ncli (cpus m ! i)"
    using n0 assms(2) c1 by (auto simp: popped_def set_cpu_def fun_upd_idem)
  have "cpus (popped i h m1') = (cpus m)[i := cpus (popped i h m1') ! i]" using assms(2) c1 by (simp add: popped_def set_cpu_def)
  then have nc: "map ncli (cpus (popped i h m1')) = map ncli (cpus m)" using m2(2) by (metis list_update_id map_update)
  have "same_ids m (popped i h m1')" using same_ids_popped [of m m1' i h] ids by (simp add: same_ids_def m1'_def)
  then have "release h (popped i h m1') = Inl (Panic ''release'')"
    using holding_ok [OF assms(1) _ assms(2), of "popped i h m1'"] m2 n0(1) c1(3) assms(3) by (simp add: release_def bnd_def panic_def fail_def)
  then show ?thesis using acq hold again rel m2(1) nc c1(3) by (intro exI [of _ m1] exI [of _ "popped i h m1'"]) simp
qed

theorem acquire_release_witness:
  "\<exists>m1. acquire (\<lambda>_. 0) 0 4 smp0 = Inr ((), m1) \<and> acquire (\<lambda>_. 0) 0 4 m1 = Inl (Panic ''acquire'')"
proof -
  have "1 < length (cpus smp0)" "\<not> sp_locked (slock smp0)" by (simp_all add: smp0_def initlock_def)
  then show ?thesis using acquire_release [OF smp0_wf(1) _ smp0_wf(4) [symmetric], of "\<lambda>_. 0" 0] by blast
qed

end
