(* ===== verification/FsAlloc.thy ===== *)
theory FsAlloc
  imports Fs
begin

section \<open>The native block allocator is correct\<close>

text \<open>
  The effect of \<open>balloc\<close>, \<open>bzero\<close> and \<open>bfree\<close> on the contents \<open>V\<close> of the blocks of \<open>ROOTDEV\<close>, by the
  contract of the block store. \<open>geom_ok\<close> is the layout mkfs makes: one bitmap block behind the log,
  data blocks behind the bitmap.
\<close>

subsection \<open>Bits\<close>

lemma tst_bset: "tst (bset i d) j = (j = i \<or> tst d j)"
proof (cases "j div 8 = i div 8")
  case True
  have eq: "j mod 8 = i mod 8 \<longleftrightarrow> j = i" using True by (metis div_mult_mod_eq)
  have "tst (bset i d) j = bit (set_bit (i mod 8) (d (i div 8))) (j mod 8)" using True by (simp add: tst_def bset_def)
  also have "\<dots> = (j mod 8 = i mod 8 \<or> tst d j)"
    using True by (auto simp: tst_def bit_set_bit_iff)
  finally show ?thesis using eq by simp
next
  case False
  then have "j \<noteq> i" by auto
  then show ?thesis using False by (simp add: tst_def bset_def)
qed

lemma tst_bclr: "tst (bclr i d) j = (j \<noteq> i \<and> tst d j)"
proof (cases "j div 8 = i div 8")
  case True
  have eq: "j mod 8 = i mod 8 \<longleftrightarrow> j = i" using True by (metis div_mult_mod_eq)
  have "tst (bclr i d) j = bit (unset_bit (i mod 8) (d (i div 8))) (j mod 8)" using True by (simp add: tst_def bclr_def)
  also have "\<dots> = (j mod 8 \<noteq> i mod 8 \<and> tst d j)"
    using True by (auto simp: tst_def bit_unset_bit_iff)
  finally show ?thesis using eq by simp
next
  case False
  then have "j \<noteq> i" by auto
  then show ?thesis using False by (simp add: tst_def bclr_def)
qed

lemma bclr_bset: "\<not> tst d i \<Longrightarrow> bclr i (bset i d) = d"
proof -
  assume n: "\<not> tst d i"
  have "unset_bit (i mod 8) (set_bit (i mod 8) (d (i div 8))) = d (i div 8)"
    using n by (intro bit_eqI) (auto simp: bit_unset_bit_iff bit_set_bit_iff tst_def)
  then show ?thesis by (simp add: bclr_def bset_def)
qed

lemma free_bit_Some:
  "free_bit d b k = Some i \<Longrightarrow> b \<le> i \<and> i < b + k \<and> \<not> tst d i \<and> (\<forall>j. b \<le> j \<and> j < i \<longrightarrow> tst d j)"
proof (induction k arbitrary: b)
  case (Suc k)
  show ?case
  proof (cases "tst d b")
    case True
    then have "free_bit d (b + 1) k = Some i" using Suc.prems by simp
    from Suc.IH [OF this] have i: "b + 1 \<le> i" "i < b + 1 + k" "\<not> tst d i" and j: "\<And>j. b + 1 \<le> j \<Longrightarrow> j < i \<Longrightarrow> tst d j"
      by auto
    have "tst d j" if "b \<le> j" "j < i" for j using j [of j] True that by (cases "j = b") auto
    then show ?thesis using i by auto
  next
    case False
    then show ?thesis using Suc.prems by auto
  qed
qed simp

lemma free_bit_None: "free_bit d b k = None \<Longrightarrow> \<forall>j. b \<le> j \<and> j < b + k \<longrightarrow> tst d j"
proof (induction k arbitrary: b)
  case (Suc k)
  then have b: "tst d b" and r: "free_bit d (b + 1) k = None" by (auto split: if_splits)
  have "tst d j" if "b \<le> j" "j < b + Suc k" for j using Suc.IH [OF r] b that by (cases "j = b") auto
  then show ?case by blast
qed auto

subsection \<open>Layout\<close>

definition bm :: "superblock \<Rightarrow> nat" where
  "bm sp = sb_bmapstart sp"

text \<open>Data blocks of the file system.\<close>

definition dblock :: "superblock \<Rightarrow> nat \<Rightarrow> bool" where
  "dblock sp n \<longleftrightarrow> sb_bmapstart sp < n \<and> n < sb_size sp"

definition geom_ok :: "superblock \<Rightarrow> bool" where
  "geom_ok sp \<longleftrightarrow> sb_size sp \<le> FSSIZE \<and> sb_bmapstart sp < sb_size sp \<and>
     LOGSTART + LOGSIZE \<le> sb_inodestart sp \<and> sb_inodestart sp < sb_bmapstart sp \<and>
     (\<forall>i < sb_ninodes sp. sb_inodestart sp + i div IPB < sb_bmapstart sp)"

text \<open>Blocks that the bitmap has as free are data blocks.\<close>

definition bm_ok :: "superblock \<Rightarrow> contents \<Rightarrow> bool" where
  "bm_ok sp V \<longleftrightarrow> (\<forall>n < sb_size sp. \<not> tst (V (bm sp)) n \<longrightarrow> dblock sp n)"

lemma geomD:
  assumes "geom_ok sp"
  shows "bm sp < FSSIZE" "nwok (bm sp)" "dblock sp n \<Longrightarrow> n < FSSIZE" "dblock sp n \<Longrightarrow> nwok n" "dblock sp n \<Longrightarrow> n \<noteq> bm sp"
    "b < sb_size sp \<Longrightarrow> BBLOCK b sp = bm sp" "b < sb_size sp \<Longrightarrow> b mod BPB = b" "dblock sp n \<Longrightarrow> n \<noteq> 0"
proof -
  have le: "sb_size sp \<le> 1000" "sb_bmapstart sp < sb_size sp" "32 < sb_bmapstart sp"
    using assms by (auto simp: geom_ok_def const_defs LOGSTART_def)
  have "b div BPB = 0" if "b < sb_size sp" using that le by (simp add: const_defs)
  then show "b < sb_size sp \<Longrightarrow> BBLOCK b sp = bm sp" using le by (simp add: BBLOCK_def bm_def)
  show "b < sb_size sp \<Longrightarrow> b mod BPB = b" using le by (simp add: const_defs)
  show "bm sp < FSSIZE" "nwok (bm sp)" "dblock sp n \<Longrightarrow> n < FSSIZE" "dblock sp n \<Longrightarrow> nwok n" "dblock sp n \<Longrightarrow> n \<noteq> bm sp"
    "dblock sp n \<Longrightarrow> n \<noteq> 0"
    using le by (auto simp: bm_def nwok_def dblock_def const_defs LOGSTART_def)
qed

lemma card_insert_Suc: "card (insert x A) \<le> Suc (card A)"
  by (cases "finite A") (simp_all add: card_insert_if)

subsection \<open>Zeroing and allocating\<close>

lemma bzero_ok:
  fixes s :: "'z lstate_scheme"
  assumes "nrep s V H P" "n < FSSIZE" "nwok n" "H n = None" "card (dom H) + card P < NBUF" "card P < LOGSIZE - 1"
    and "\<And>t :: 'z lstate_scheme. nfr s t \<Longrightarrow> nrep t (V(n := (\<lambda>_. 0))) H (insert (ROOTDEV, n) P) \<Longrightarrow> wp (f ()) Q t"
  shows "wp (bnd (bzero ROOTDEV n) f) Q s"
  unfolding bzero_def bnd_assoc
  using ns.update_block [OF assms(1,2,4,5,3,6), of "\<lambda>_ _. 0" f Q] assms(7) by (simp add: const_defs)

text \<open>\<open>balloc\<close> takes the first free block, marks it in the bitmap and clears it.\<close>

lemma balloc_loop_ok:
  fixes s :: "'z lstate_scheme"
  assumes r: "nrep s V H P" and sp: "geom_ok sp" "bm_ok sp V" and h: "H (bm sp) = None"
    and fb: "free_bit (V (bm sp)) 0 (sb_size sp) = Some b" and hb: "H b = None"
    and c: "card (dom H) + card P + 1 < NBUF" "card P + 1 < LOGSIZE - 1"
  shows "wp (balloc_loop sp ROOTDEV 0) (\<lambda>n t. n = b \<and> nfr s t \<and>
     nrep t (V(bm sp := bset b (V (bm sp)), b := (\<lambda>_. 0))) H (insert (ROOTDEV, b) (insert (ROOTDEV, bm sp) P))) s"
proof -
  have b: "b < sb_size sp" "\<not> tst (V (bm sp)) b" using free_bit_Some [OF fb] by auto
  have db: "dblock sp b" using sp(2) b by (simp add: bm_ok_def)
  note g = geomD [OF sp(1)]
  have pos: "0 < sb_size sp" using b by simp
  have k: "min BPB (sb_size sp - 0) = sb_size sp" using sp(1) by (simp add: geom_ok_def const_defs)
  let ?V = "V(bm sp := bset b (V (bm sp)))"
  let ?P = "insert (ROOTDEV, bm sp) P"
  let ?Q = "\<lambda>n t. n = b \<and> nfr s t \<and> nrep t (?V(b := (\<lambda>_. 0))) H (insert (ROOTDEV, b) ?P)"
  let ?zero = "bnd (bzero ROOTDEV b) (\<lambda>_. ret b)"
  have c1: "card (dom H) + card P < NBUF" "card P < LOGSIZE - 1" using c by auto
  have zero: "wp ?zero ?Q w" if w: "nfr s w" "nrep w ?V H ?P" for w
  proof (rule bzero_ok [OF w(2) g(3,4) [OF db] hb])
    show "card (dom H) + card ?P < NBUF" "card ?P < LOGSIZE - 1"
      using c card_insert_Suc [of "(ROOTDEV, bm sp)" P] by auto
  qed (use w ns.fr_trans in \<open>auto simp: wp_simps\<close>)
  have upd: "wp (bnd (bmod x (bset b)) (\<lambda>_. bnd (log_write x) (\<lambda>_. bnd (brelse x) (\<lambda>_. ?zero)))) ?Q t"
    if t: "nfr s t" "nrep t V (H(bm sp \<mapsto> (x, False))) P" for x t
  proof (rule ns.mdf_bnd [OF t(2), of "bm sp" x False], simp, rule ns.put_bnd [where n = "bm sp" and m = True],
      assumption, simp, rule g(2), rule c1(2), rule ns.rel_bnd [where n = "bm sp"], assumption, simp)
    fix u v w
    assume fr: "nfr t u" "nfr u v" "nfr v w"
      and w: "nrep w ?V ((H(bm sp \<mapsto> (x, False), bm sp \<mapsto> (x, True), bm sp \<mapsto> (x, False)))(bm sp := None)) ?P"
    have "(H(bm sp \<mapsto> (x, False), bm sp \<mapsto> (x, True), bm sp \<mapsto> (x, False)))(bm sp := None) = H" using h by auto
    moreover have "nfr s w" using t(1) fr by (blast intro: ns.fr_trans)
    ultimately show "wp ?zero ?Q w" using w by (intro zero) simp_all
  qed
  have "wp (bnd (bread ROOTDEV (bm sp)) (\<lambda>bp.
      bnd (gets (\<lambda>s. free_bit (b_data (bufs s bp)) 0 (sb_size sp))) (\<lambda>r. case r of
        Some bi \<Rightarrow> bnd (bmod bp (bset bi)) (\<lambda>_. bnd (log_write bp) (\<lambda>_. bnd (brelse bp) (\<lambda>_.
          bnd (bzero ROOTDEV bi) (\<lambda>_. ret bi))))
      | None \<Rightarrow> bnd (brelse bp) (\<lambda>_. balloc_loop sp ROOTDEV BPB)))) ?Q s"
  proof (rule ns.get_bnd [OF r g(1) h c1(1)])
    fix x t
    assume t: "nfr s t" "nrep t V (H(bm sp \<mapsto> (x, False))) P"
    have d: "b_data (bufs t x) = V (bm sp)" by (rule ns.dat_law [OF t(2), of "bm sp" x False]) simp
    show "wp (bnd (gets (\<lambda>s. free_bit (b_data (bufs s x)) 0 (sb_size sp))) (\<lambda>r. case r of
        Some bi \<Rightarrow> bnd (bmod x (bset bi)) (\<lambda>_. bnd (log_write x) (\<lambda>_. bnd (brelse x) (\<lambda>_.
          bnd (bzero ROOTDEV bi) (\<lambda>_. ret bi))))
      | None \<Rightarrow> bnd (brelse x) (\<lambda>_. balloc_loop sp ROOTDEV BPB))) ?Q t"
      by (simp only: wp_gets_bnd d fb option.case) (rule upd [OF t])
  qed
  then show ?thesis
    using k by (subst balloc_loop.simps) (simp only: pos if_True g(6) [OF pos] add_0 diff_zero)
qed

subsection \<open>Allocation and release of blocks\<close>

definition free_blocks :: "superblock \<Rightarrow> contents \<Rightarrow> nat set" where
  "free_blocks sp V = {n. n < sb_size sp \<and> \<not> tst (V (bm sp)) n}"

lemma free_blocks_find: "free_blocks sp V \<noteq> {} \<Longrightarrow> \<exists>b. free_bit (V (bm sp)) 0 (sb_size sp) = Some b"
  using free_bit_None [of "V (bm sp)" 0 "sb_size sp"] by (fastforce simp: free_blocks_def)

text \<open>The contents after block \<open>b\<close> was allocated.\<close>

definition allocd :: "superblock \<Rightarrow> nat \<Rightarrow> contents \<Rightarrow> contents" where
  "allocd sp b V = V(bm sp := bset b (V (bm sp)), b := (\<lambda>_. 0))"

lemma nfr_more: "nfr s t \<Longrightarrow> lstate.more t = lstate.more s"
  by (simp add: nfr_def lframe_of_def)

lemma nfr_fields:
  fixes s t :: "'z fstate_scheme"
  assumes "nfr s t"
  shows "sb t = sb s" "inodes t = inodes s" "addrs t = addrs s" "ext2_addrs t = ext2_addrs s" "exs t = exs s"
    "cons t = cons s" "cur_killed t = cur_killed s" "cur_cwd t = cur_cwd s" "stack_junk t = stack_junk s"
  using nfr_more [OF assms] by (cases s; cases t; simp)+

lemma balloc_ok:
  fixes s :: "'z fstate_scheme"
  assumes r: "nrep s V H P" and sp: "geom_ok (sb s)" "bm_ok (sb s) V" and h: "H (bm (sb s)) = None"
    and fb: "free_blocks (sb s) V \<noteq> {}" and hb: "\<And>n. dblock (sb s) n \<Longrightarrow> \<not> tst (V (bm (sb s))) n \<Longrightarrow> H n = None"
    and c: "card (dom H) + card P + 1 < NBUF" "card P + 1 < LOGSIZE - 1"
  shows "wp (balloc ROOTDEV) (\<lambda>b t. b \<in> free_blocks (sb s) V \<and> dblock (sb s) b \<and> nfr s t \<and>
     nrep t (allocd (sb s) b V) H (insert (ROOTDEV, b) (insert (ROOTDEV, bm (sb s)) P))) s"
proof -
  obtain b where b: "free_bit (V (bm (sb s))) 0 (sb_size (sb s)) = Some b" using free_blocks_find [OF fb] by blast
  note f = free_bit_Some [OF b]
  have db: "dblock (sb s) b" using f sp(2) by (simp add: bm_ok_def)
  have "H b = None" using hb [OF db] f by simp
  from balloc_loop_ok [OF r sp h b this c]
  have "wp (balloc_loop (sb s) ROOTDEV 0) (\<lambda>b t. b \<in> free_blocks (sb s) V \<and> dblock (sb s) b \<and> nfr s t \<and>
     nrep t (allocd (sb s) b V) H (insert (ROOTDEV, b) (insert (ROOTDEV, bm (sb s)) P))) s"
    by (rule wp_mono) (use f db in \<open>auto simp: free_blocks_def allocd_def\<close>)
  then show ?thesis by (simp add: wp_def balloc_def)
qed

lemma bm_ok_allocd: "geom_ok sp \<Longrightarrow> dblock sp b \<Longrightarrow> bm_ok sp V \<Longrightarrow> bm_ok sp (allocd sp b V)"
  using geomD(5) [of sp b] by (simp add: bm_ok_def allocd_def tst_bset)

lemma allocd_simps:
  assumes "geom_ok sp" "dblock sp b"
  shows "allocd sp b V (bm sp) = bset b (V (bm sp))" "allocd sp b V b = (\<lambda>_. 0)"
    "n \<noteq> bm sp \<Longrightarrow> n \<noteq> b \<Longrightarrow> allocd sp b V n = V n"
    "tst (allocd sp b V (bm sp)) n = (n = b \<or> tst (V (bm sp)) n)"
  using geomD(5) [OF assms] by (auto simp: allocd_def tst_bset)

lemma bfree_ok:
  fixes s :: "'z fstate_scheme"
  assumes r: "nrep s V H P" and sp: "geom_ok (sb s)" and n: "n < sb_size (sb s)" "tst (V (bm (sb s))) n"
    and h: "H (bm (sb s)) = None" and c: "card (dom H) + card P < NBUF" "card P < LOGSIZE - 1"
  shows "wp (bfree ROOTDEV n) (\<lambda>_ t. nfr s t \<and>
     nrep t (V(bm (sb s) := bclr n (V (bm (sb s))))) H (insert (ROOTDEV, bm (sb s)) P)) s"
proof -
  let ?b = "bm (sb s)"
  let ?Q = "\<lambda>_ t. nfr s t \<and> nrep t (V(?b := bclr n (V ?b))) H (insert (ROOTDEV, ?b) P)"
  note g = geomD [OF sp]
  have "wp (bnd (bread ROOTDEV ?b) (\<lambda>bp.
     bnd (gets (\<lambda>s. tst (b_data (bufs s bp)) n)) (\<lambda>used.
     if \<not> used then panic ''freeing free block''
     else bnd (bmod bp (bclr n)) (\<lambda>_. bnd (log_write bp) (\<lambda>_. brelse bp))))) ?Q s"
  proof (rule ns.get_bnd [OF r g(1) h c(1)])
    fix x t
    assume t: "nfr s t" "nrep t V (H(?b \<mapsto> (x, False))) P"
    have d: "b_data (bufs t x) = V ?b" by (rule ns.dat_law [OF t(2), of ?b x False]) simp
    have "wp (bnd (bmod x (bclr n)) (\<lambda>_. bnd (log_write x) (\<lambda>_. brelse x))) ?Q t"
    proof (rule ns.mdf_bnd [OF t(2), of ?b x False], simp, rule ns.put_bnd [where n = ?b and m = True],
        assumption, simp, rule g(2), rule c(2))
      fix u v
      assume fr: "nfr t u" "nfr u v"
        and v: "nrep v (V(?b := bclr n (V ?b))) (H(?b \<mapsto> (x, False), ?b \<mapsto> (x, True), ?b \<mapsto> (x, False))) (insert (ROOTDEV, ?b) P)"
      have hh: "(H(?b \<mapsto> (x, False), ?b \<mapsto> (x, True), ?b \<mapsto> (x, False)))(?b := None) = H" using h by auto
      have sv: "nfr s v" using t(1) fr by (blast intro: ns.fr_trans)
      show "wp (brelse x) ?Q v"
        by (rule wp_mono [OF ns.rel_law [OF v, of ?b x]]) (use hh sv in \<open>auto intro: ns.fr_trans\<close>)
    qed
    then show "wp (bnd (gets (\<lambda>s. tst (b_data (bufs s x)) n)) (\<lambda>used.
     if \<not> used then panic ''freeing free block''
     else bnd (bmod x (bclr n)) (\<lambda>_. bnd (log_write x) (\<lambda>_. brelse x)))) ?Q t"
      by (simp add: wp_gets_bnd d n(2))
  qed
  then show ?thesis by (simp add: wp_def bfree_def g(6,7) [OF n(1)] cong: if_cong)
qed

lemma bfree_free_panics:
  fixes s :: "'z fstate_scheme"
  assumes r: "nrep s V H P" and sp: "geom_ok (sb s)" and n: "n < sb_size (sb s)" "\<not> tst (V (bm (sb s))) n"
    and h: "H (bm (sb s)) = None" and c: "card (dom H) + card P < NBUF"
  shows "bfree ROOTDEV n s = Inl (Panic ''freeing free block'')"
proof -
  note g = geomD [OF sp]
  obtain x t where x: "bread ROOTDEV (bm (sb s)) s = Inr (x, t)" "nrep t V (H(bm (sb s) \<mapsto> (x, False))) P"
    using ns.get_law [OF r g(1) h c] by (auto simp: wp_iff)
  have d: "b_data (bufs t x) = V (bm (sb s))" by (rule ns.dat_law [OF x(2), of "bm (sb s)" x False]) simp
  show ?thesis
    unfolding bfree_def by (simp add: g(6,7) [OF n(1)] bnd_run x(1) gets_run d n(2) panic_run)
qed

end
