(* ===== verification/FsFile.thy ===== *)
theory FsFile
  imports FsAlloc Vfs
begin

section \<open>Native files are byte arrays\<close>

text \<open>
  The abstraction of a native file: its block map \<open>fblk\<close> (direct addresses and the indirect block) and
  its bytes \<open>cont\<close>, where a missing block reads as zeroes. \<open>bmap\<close> keeps the bytes while it allocates;
  \<open>readi\<close> and \<open>writei\<close> read and replace them; blocks of other files stay as they are.
\<close>

subsection \<open>State changes above the block layer\<close>

definition nsame :: "'z lstate_scheme \<Rightarrow> 'z lstate_scheme \<Rightarrow> bool" where
  "nsame s t \<longleftrightarrow> bsame s t \<and> log_start t = log_start s \<and> log_size t = log_size s \<and> outstanding t = outstanding s \<and>
     committing t = committing s \<and> log_dev t = log_dev s \<and> lh_n t = lh_n s \<and> lh_block t = lh_block s"

lemma nrep_nsame: "nsame s t \<Longrightarrow> nrep t V H P = nrep s V H P"
proof -
  assume n: "nsame s t"
  note b = bsameD [OF n [unfolded nsame_def, THEN conjunct1]]
  have bk: "bufs t = bufs s" using n by (simp add: nsame_def bsame_def)
  have hm: "home t = home s" using n by (simp add: home_def nsame_def fun_eq_iff)
  have "linv t = linv s" using n b hm by (simp add: linv_def log_wf_def logged_def nsame_def)
  moreover have "hrep ROOTDEV t H = hrep ROOTDEV s H" using b bk by (simp add: hrep_def)
  ultimately show ?thesis using n b by (simp add: nrep_def brep_def nsame_def)
qed

definition set_addrs :: "nat \<Rightarrow> (nat \<Rightarrow> nat) \<Rightarrow> 'z fstate_scheme \<Rightarrow> 'z fstate_scheme" where
  "set_addrs j a s = s\<lparr>addrs := (addrs s)(j := (addrs s j)\<lparr>a_addrs := a\<rparr>)\<rparr>"

lemma set_addrs_same [simp]: "nsame s (set_addrs j a s)" "nsame s (seti ip f s)"
  by (simp_all add: nsame_def bsame_def set_addrs_def seti_def)

lemmas nrep_set_addrs [simp] = nrep_nsame [OF set_addrs_same(1)]
lemmas nrep_seti [simp] = nrep_nsame [OF set_addrs_same(2)]

lemma set_addrs_sel [simp]:
  "inodes (set_addrs j a s) = inodes s" "sb (set_addrs j a s) = sb s" "a_addrs (addrs (set_addrs j a s) j) = a"
  "bufs (set_addrs j a s) = bufs s"
  by (simp_all add: set_addrs_def)

lemma set_addrs_id: "a_addrs (addrs s j) = a \<Longrightarrow> set_addrs j a s = s"
  by (auto simp: set_addrs_def)

lemma set_addrs_twice [simp]: "set_addrs j a (set_addrs j b s) = set_addrs j a s"
  by (simp add: set_addrs_def)

lemma set_addrs_more: "lstate.more t = lstate.more s \<Longrightarrow> lstate.more (set_addrs j a t) = lstate.more (set_addrs j a s)"
  by (cases s; cases t) (simp add: set_addrs_def)

lemma nfr_set_addrs:
  assumes "nfr s t" shows "nfr (set_addrs j a s) (set_addrs j a t)"
proof -
  have sel: "disk (set_addrs j a x) = disk x" "dwrites (set_addrs j a x) = dwrites x" "cur_pid (set_addrs j a x) = cur_pid x"
     "log_start (set_addrs j a x) = log_start x" "log_size (set_addrs j a x) = log_size x"
     "outstanding (set_addrs j a x) = outstanding x" "committing (set_addrs j a x) = committing x"
     "log_dev (set_addrs j a x) = log_dev x" for x :: "'a fstate_scheme"
    by (simp_all add: set_addrs_def)
  have v: "view (set_addrs j a x) = view x" for x :: "'a fstate_scheme"
    using set_addrs_same(1) [of x j a] bsameD(5) unfolding nsame_def by blast
  show ?thesis
    using assms set_addrs_more [of t s j a] by (simp add: nfr_def lframe_of_def sel v)
qed

text \<open>\<open>t\<close> is \<open>s\<close> with new addresses \<open>a\<close>, and whatever the block layer did.\<close>

abbreviation "after_addrs j a s t \<equiv> nfr (set_addrs j a s) t"

lemma after_addrs_trans: "after_addrs j a s t \<Longrightarrow> after_addrs j b t u \<Longrightarrow> after_addrs j b s u"
  using nfr_set_addrs [of "set_addrs j a s" t j b] by (auto intro: ns.fr_trans)

subsection \<open>Block map and contents\<close>

definition fblk :: "(nat \<Rightarrow> nat) \<Rightarrow> contents \<Rightarrow> nat \<Rightarrow> nat" where
  "fblk a V bn = (if bn < NDIRECT then a bn else if a NDIRECT = 0 then 0 else rd32 (V (a NDIRECT)) (4 * (bn - NDIRECT)))"

definition used :: "superblock \<Rightarrow> contents \<Rightarrow> nat \<Rightarrow> bool" where
  "used sp V n \<longleftrightarrow> dblock sp n \<and> tst (V (bm sp)) n"

definition avail :: "superblock \<Rightarrow> contents \<Rightarrow> nat \<Rightarrow> bool" where
  "avail sp V n \<longleftrightarrow> dblock sp n \<and> \<not> tst (V (bm sp)) n"

lemma availD: "avail sp V n \<Longrightarrow> dblock sp n" "avail sp V n \<Longrightarrow> \<not> tst (V (bm sp)) n"
  by (simp_all add: avail_def)

definition finv :: "superblock \<Rightarrow> contents \<Rightarrow> (nat \<Rightarrow> nat) \<Rightarrow> bool" where
  "finv sp V a \<longleftrightarrow>
     (a NDIRECT \<noteq> 0 \<longrightarrow> used sp V (a NDIRECT)) \<and>
     (\<forall>bn < MAXFILE. fblk a V bn \<noteq> 0 \<longrightarrow> used sp V (fblk a V bn) \<and> fblk a V bn \<noteq> a NDIRECT) \<and>
     (\<forall>m < MAXFILE. \<forall>n < MAXFILE. fblk a V m \<noteq> 0 \<longrightarrow> fblk a V m = fblk a V n \<longrightarrow> m = n)"

definition cont :: "(nat \<Rightarrow> nat) \<Rightarrow> contents \<Rightarrow> nat \<Rightarrow> byte" where
  "cont a V off = (let b = fblk a V (off div BSIZE) in if b = 0 then 0 else V b (off mod BSIZE))"

lemma finvD:
  assumes "finv sp V a"
  shows "a NDIRECT \<noteq> 0 \<Longrightarrow> used sp V (a NDIRECT)"
    "bn < MAXFILE \<Longrightarrow> fblk a V bn \<noteq> 0 \<Longrightarrow> used sp V (fblk a V bn)"
    "bn < MAXFILE \<Longrightarrow> fblk a V bn \<noteq> 0 \<Longrightarrow> fblk a V bn \<noteq> a NDIRECT"
    "m < MAXFILE \<Longrightarrow> n < MAXFILE \<Longrightarrow> fblk a V m \<noteq> 0 \<Longrightarrow> fblk a V m = fblk a V n \<Longrightarrow> m = n"
  using assms by (auto simp: finv_def)

text \<open>One block \<open>b\<close> more, at file block \<open>bn\<close>: then the bytes are the same and the invariant holds.\<close>

lemma finv_grow:
  assumes fi: "finv sp V a" and b: "avail sp V b" "b \<noteq> 0" and bn: "fblk a V bn = 0"
    and new: "\<And>m. m < MAXFILE \<Longrightarrow> fblk a' V' m = (if m = bn then b else fblk a V m)"
    and ind: "a' NDIRECT = a NDIRECT" and ts: "\<And>n. tst (V' (bm sp)) n = (n = b \<or> tst (V (bm sp)) n)"
  shows "finv sp V' a'"
  unfolding finv_def
proof (intro conjI allI impI)
  have u: "used sp V n \<Longrightarrow> used sp V' n \<and> n \<noteq> b" for n using ts b by (auto simp: used_def avail_def)
  show "a' NDIRECT \<noteq> 0 \<Longrightarrow> used sp V' (a' NDIRECT)" using finvD(1) [OF fi] u ind by auto
  have bu: "used sp V' b" using ts b by (simp add: used_def avail_def)
  have nb: "a NDIRECT \<noteq> b" using finvD(1) [OF fi] u b(2) by metis
  fix m
  assume m: "m < MAXFILE"
  assume nz: "fblk a' V' m \<noteq> 0"
  show "used sp V' (fblk a' V' m)" "fblk a' V' m \<noteq> a' NDIRECT"
    using finvD(2,3) [OF fi m] new [OF m] nz bu nb u ind by (auto split: if_splits)
  fix n
  assume n: "n < MAXFILE" and eq: "fblk a' V' m = fblk a' V' n"
  have ne: "fblk a V k \<noteq> b" if "k < MAXFILE" for k using finvD(2) [OF fi that] u b(2) by metis
  show "m = n"
    using eq nz new [OF m] new [OF n] ne [OF m] ne [OF n] finvD(4) [OF fi m n] by (auto split: if_splits)
qed

lemma cont_grow:
  assumes "fblk a V bn = 0" "b \<noteq> 0" "V' b = (\<lambda>_. 0)"
    and new: "\<And>m. m < MAXFILE \<Longrightarrow> fblk a' V' m = (if m = bn then b else fblk a V m)"
    and old: "\<And>m. m < MAXFILE \<Longrightarrow> fblk a V m \<noteq> 0 \<Longrightarrow> V' (fblk a V m) = V (fblk a V m)"
    and off: "off < MAXFILE * BSIZE"
  shows "cont a' V' off = cont a V off"
proof -
  have m: "off div BSIZE < MAXFILE" using off by (simp add: less_mult_imp_div_less)
  show ?thesis using new [OF m] old [OF m] assms(1-3) by (auto simp: cont_def Let_def)
qed

text \<open>The three ways \<open>bmap\<close> allocates.\<close>

lemma used_allocd:
  assumes "geom_ok sp" "avail sp V b" "used sp V n"
  shows "allocd sp b V n = V n" "n \<noteq> b" "n \<noteq> bm sp"
  using assms geomD(5) [OF assms(1), of n] allocd_simps(3) [OF assms(1) availD(1) [OF assms(2)]] by (auto simp: used_def avail_def)

lemma grow_direct:
  assumes g: "geom_ok sp" and fi: "finv sp V a" and b: "avail sp V b"
    and bn: "bn < NDIRECT" "a bn = 0"
  shows "finv sp (allocd sp b V) (a(bn := b))"
    and "off < MAXFILE * BSIZE \<Longrightarrow> cont (a(bn := b)) (allocd sp b V) off = cont a V off"
proof -
  have b0: "b \<noteq> 0" using geomD(8) [OF g availD(1) [OF b]] .
  have i: "(a(bn := b)) NDIRECT = a NDIRECT" using bn by simp
  have z: "fblk a V bn = 0" using bn by (simp add: fblk_def)
  note ua = used_allocd [OF g b]
  have new: "fblk (a(bn := b)) (allocd sp b V) m = (if m = bn then b else fblk a V m)" for m
    using bn ua [OF finvD(1) [OF fi]] by (auto simp: fblk_def)
  show "finv sp (allocd sp b V) (a(bn := b))"
    by (rule finv_grow [OF fi b b0 z new i]) (rule allocd_simps(4) [OF g availD(1) [OF b]])
  show "off < MAXFILE * BSIZE \<Longrightarrow> cont (a(bn := b)) (allocd sp b V) off = cont a V off"
    by (rule cont_grow [OF z b0 allocd_simps(2) [OF g availD(1) [OF b]] new]) (use ua(1) finvD(2) [OF fi] in auto)
qed

lemma grow_indirect:
  assumes g: "geom_ok sp" and fi: "finv sp V a" and b: "avail sp V b" and i: "a NDIRECT = 0"
  shows "finv sp (allocd sp b V) (a(NDIRECT := b))"
    and "cont (a(NDIRECT := b)) (allocd sp b V) off = cont a V off \<or> \<not> off < MAXFILE * BSIZE"
    and "fblk (a(NDIRECT := b)) (allocd sp b V) m = fblk a V m"
proof -
  note ua = used_allocd [OF g b]
  show same: "fblk (a(NDIRECT := b)) (allocd sp b V) m = fblk a V m" for m
    using i allocd_simps(2) [OF g availD(1) [OF b]] by (simp add: fblk_def)
  have u: "used sp V n \<Longrightarrow> used sp (allocd sp b V) n" for n
    using allocd_simps(4) [OF g availD(1) [OF b]] by (auto simp: used_def)
  have ub: "used sp (allocd sp b V) b" using allocd_simps(4) [OF g availD(1) [OF b]] b by (auto simp: used_def avail_def)
  show "finv sp (allocd sp b V) (a(NDIRECT := b))"
    unfolding finv_def same using u ub ua(2) finvD(2,4) [OF fi] by (auto simp: fun_upd_def)
  show "cont (a(NDIRECT := b)) (allocd sp b V) off = cont a V off \<or> \<not> off < MAXFILE * BSIZE"
    using ua(1) finvD(2) [OF fi, of "off div BSIZE"]
    by (auto simp: cont_def same Let_def less_mult_imp_div_less)
qed

lemma grow_entry:
  assumes g: "geom_ok sp" and fi: "finv sp V a" and b: "avail sp V b"
    and i: "a NDIRECT \<noteq> 0" and k: "k < NINDIRECT" "fblk a V (NDIRECT + k) = 0"
    and V': "V' = (allocd sp b V)(a NDIRECT := wr32 (V (a NDIRECT)) (4 * k) b)"
  shows "finv sp V' a" and "off < MAXFILE * BSIZE \<Longrightarrow> cont a V' off = cont a V off" and "fblk a V' (NDIRECT + k) = b"
proof -
  have b0: "b \<noteq> 0" using geomD(8) [OF g availD(1) [OF b]] .
  have b32: "u32 b = b" using geomD(3) [OF g availD(1) [OF b]] by (simp add: const_defs)
  note ui = finvD(1) [OF fi i]
  note ua = used_allocd [OF g b]
  have new: "fblk a V' m = (if m = NDIRECT + k then b else fblk a V m)" for m
  proof (cases "m < NDIRECT \<or> m = NDIRECT + k")
    case True
    then show ?thesis using i b32 by (auto simp: fblk_def V')
  next
    case False
    then have "4 * (m - NDIRECT) + 4 \<le> 4 * k \<or> 4 * k + 4 \<le> 4 * (m - NDIRECT)" by auto
    then show ?thesis using False i by (simp add: fblk_def V')
  qed
  have tb: "tst (V' (bm sp)) n = (n = b \<or> tst (V (bm sp)) n)" for n
    using ua(3) [OF ui] allocd_simps(4) [OF g availD(1) [OF b]] by (simp add: V')
  show "finv sp V' a" by (rule finv_grow [OF fi b b0 k(2) new _ tb]) simp
  have zb: "V' b = (\<lambda>_. 0)" using ua(2) [OF ui] allocd_simps(2) [OF g availD(1) [OF b]] by (simp add: V')
  show "off < MAXFILE * BSIZE \<Longrightarrow> cont a V' off = cont a V off"
    by (rule cont_grow [OF k(2) b0 zb new]) (use ua(1) finvD(2,3) [OF fi] in \<open>auto simp: V'\<close>)
  show "fblk a V' (NDIRECT + k) = b" using new by simp
qed

subsection \<open>bmap\<close>

definition fopen :: "'z fstate_scheme \<Rightarrow> contents \<Rightarrow> pins \<Rightarrow> nat \<Rightarrow> nat \<Rightarrow> (nat \<Rightarrow> nat) \<Rightarrow> bool" where
  "fopen s V P ip j a \<longleftrightarrow> nrep s V Map.empty P \<and> geom_ok (sb s) \<and> bm_ok (sb s) V \<and> i_dev (inodes s ip) = ROOTDEV \<and>
     i_addrs (inodes s ip) = AInb j \<and> a_addrs (addrs s j) = a \<and> finv (sb s) V a"

lemma fopenD:
  assumes "fopen s V P ip j a"
  shows "nrep s V Map.empty P" "geom_ok (sb s)" "bm_ok (sb s) V" "i_dev (inodes s ip) = ROOTDEV"
    "i_addrs (inodes s ip) = AInb j" "a_addrs (addrs s j) = a" "finv (sb s) V a"
  using assms by (auto simp: fopen_def)

lemma fopen_nfr:
  fixes s t :: "'z fstate_scheme"
  assumes "fopen s V P ip j a" "nfr s t" "nrep t V Map.empty P'"
  shows "fopen t V P' ip j a"
  using assms nfr_fields [OF assms(2)] by (simp add: fopen_def)

lemma wp_get_addr: "i_addrs (inodes s ip) = AInb j \<Longrightarrow> wp (bnd (get_addr ip i) f) Q s = wp (f (a_addrs (addrs s j) i)) Q s"
  by (simp add: wp_def bnd_def get_addr_def)

lemma wp_set_addr:
  "i_addrs (inodes s ip) = AInb j \<Longrightarrow>
     wp (bnd (set_addr ip i v) f) Q s = wp (f ()) Q (set_addrs j ((a_addrs (addrs s j))(i := v)) s)"
  by (simp add: wp_def bnd_def set_addr_def set_addrs_def)

lemma wp_load_word: "i < NINDIRECT \<Longrightarrow> wp (bnd (load_word bp i) f) Q s = wp (f (rd32 (b_data (bufs s bp)) (4 * i))) Q s"
  by (simp add: wp_def bnd_def load_word_def)

lemma store_word_bmod: "i < NINDIRECT \<Longrightarrow> store_word bp i v = bmod bp (\<lambda>d. wr32 d (4 * i) v)"
  by (simp add: store_word_def fun_eq_iff)

text \<open>The two halves of \<open>bmap\<close> on the root device.\<close>

lemma bmap_direct:
  assumes "i_dev (inodes s ip) = ROOTDEV" "bn < NDIRECT"
  shows "wp (bmap ip bn) Q s = wp (bnd (get_addr ip bn) (\<lambda>addr.
        if addr = 0 then bnd (balloc ROOTDEV) (\<lambda>addr. bnd (set_addr ip bn addr) (\<lambda>_. ret addr)) else ret addr)) Q s"
  using assms by (simp add: wp_def bmap_def Let_def cong: if_cong)

definition bmap_entry :: "nat \<Rightarrow> nat \<Rightarrow> ('z fstate_scheme, nat) kern" where
  "bmap_entry addr k =
     bnd (bread ROOTDEV addr) (\<lambda>bp.
     bnd (load_word bp k) (\<lambda>addr.
     bnd (if addr = 0 then
            bnd (balloc ROOTDEV) (\<lambda>addr.
            bnd (store_word bp k addr) (\<lambda>_.
            bnd (log_write bp) (\<lambda>_. ret addr)))
          else ret addr) (\<lambda>addr.
     bnd (brelse bp) (\<lambda>_. ret addr))))"

lemma bmap_indirect:
  assumes "i_dev (inodes s ip) = ROOTDEV" "k < NINDIRECT"
  shows "wp (bmap ip (NDIRECT + k)) Q s = wp (bnd (get_addr ip NDIRECT) (\<lambda>addr.
        bnd (if addr = 0 then bnd (balloc ROOTDEV) (\<lambda>addr. bnd (set_addr ip NDIRECT addr) (\<lambda>_. ret addr)) else ret addr) (\<lambda>addr.
        bmap_entry addr k))) Q s"
  using assms by (simp add: wp_def bmap_def bmap_entry_def Let_def cong: if_cong)

lemma bmap_hit:
  fixes s :: "'z fstate_scheme"
  assumes f: "fopen s V P ip j a" and bn: "bn < MAXFILE" "fblk a V bn \<noteq> 0" and c: "card P < NBUF"
  shows "wp (bmap ip bn) (\<lambda>b t. b = fblk a V bn \<and> nfr s t \<and> fopen t V P ip j a) s"
proof -
  note fo = fopenD [OF f]
  show ?thesis
  proof (cases "bn < NDIRECT")
    case True
    then show ?thesis
      using bn f fo by (simp add: bmap_direct wp_get_addr fblk_def wp_ret ns.fr_refl)
  next
    case False
    then obtain k where k: "bn = NDIRECT + k" "k < NINDIRECT" using bn(1) by (auto simp: MAXFILE_def not_less le_iff_add)
    have i: "a NDIRECT \<noteq> 0" and w: "fblk a V bn = rd32 (V (a NDIRECT)) (4 * k)"
      using bn(2) k by (auto simp: fblk_def split: if_splits)
    have ok: "a NDIRECT < FSSIZE" using finvD(1) [OF fo(7) i] geomD(3) [OF fo(2)] by (simp add: used_def)
    have "wp (bmap_entry (a NDIRECT) k) (\<lambda>b t. b = fblk a V bn \<and> nfr s t \<and> fopen t V P ip j a) s"
      unfolding bmap_entry_def
    proof (rule ns.get_bnd [OF fo(1) ok])
      fix x t assume t: "nfr s t" "nrep t V [a NDIRECT \<mapsto> (x, False)] P"
      have d: "b_data (bufs t x) = V (a NDIRECT)" by (rule ns.dat_law [OF t(2), of "a NDIRECT" x False]) simp
      have nz: "rd32 (V (a NDIRECT)) (4 * k) \<noteq> 0" using bn(2) w by simp
      have "wp (bnd (brelse x) (\<lambda>_. ret (fblk a V bn))) (\<lambda>b t. b = fblk a V bn \<and> nfr s t \<and> fopen t V P ip j a) t"
      proof (rule ns.rel_bnd [OF t(2), of "a NDIRECT" x])
        fix u assume u: "nfr t u" "nrep u V ([a NDIRECT \<mapsto> (x, False)](a NDIRECT := None)) P"
        have "nfr s u" using t u by (blast intro: ns.fr_trans)
        then show "wp (ret (fblk a V bn)) (\<lambda>b t. b = fblk a V bn \<and> nfr s t \<and> fopen t V P ip j a) u"
          using u fopen_nfr [OF f] by (simp add: wp_ret)
      qed simp
      then show "wp (bnd (load_word x k) (\<lambda>addr. bnd (if addr = 0 then bnd (balloc ROOTDEV) (\<lambda>addr.
            bnd (store_word x k addr) (\<lambda>_. bnd (log_write x) (\<lambda>_. ret addr))) else ret addr) (\<lambda>addr.
            bnd (brelse x) (\<lambda>_. ret addr)))) (\<lambda>b t. b = fblk a V bn \<and> nfr s t \<and> fopen t V P ip j a) t"
        using k(2) nz by (simp add: wp_load_word d w [symmetric])
    qed (use c in auto)
    then show ?thesis using fo i k by (simp add: bmap_indirect wp_get_addr)
  qed
qed

text \<open>What allocation for a file leaves: the bytes are the same, at most \<open>d\<close> free blocks are gone, and
  blocks in use keep their contents, except the file's own indirect block.\<close>

definition grown :: "'z fstate_scheme \<Rightarrow> contents \<Rightarrow> pins \<Rightarrow> nat \<Rightarrow> nat \<Rightarrow> (nat \<Rightarrow> nat) \<Rightarrow> nat
    \<Rightarrow> 'z fstate_scheme \<Rightarrow> contents \<Rightarrow> pins \<Rightarrow> (nat \<Rightarrow> nat) \<Rightarrow> bool" where
  "grown s V P ip j a d t V' P' a' \<longleftrightarrow>
     after_addrs j a' s t \<and> fopen t V' P' ip j a' \<and>
     card (free_blocks (sb s) V) \<le> card (free_blocks (sb s) V') + d \<and>
     (\<forall>off < MAXFILE * BSIZE. cont a' V' off = cont a V off) \<and>
     (\<forall>bn < MAXFILE. fblk a V bn \<noteq> 0 \<longrightarrow> fblk a' V' bn = fblk a V bn) \<and>
     (\<forall>bn < MAXFILE. fblk a' V' bn \<noteq> fblk a V bn \<longrightarrow> \<not> used (sb s) V (fblk a' V' bn)) \<and>
     (if a NDIRECT \<noteq> 0 then a' NDIRECT = a NDIRECT else a' NDIRECT = 0 \<or> \<not> used (sb s) V (a' NDIRECT)) \<and>
     (\<forall>n. used (sb s) V n \<longrightarrow> used (sb s) V' n \<and> (n \<noteq> a NDIRECT \<longrightarrow> V' n = V n)) \<and>
     (\<forall>n. n < sb_bmapstart (sb s) \<longrightarrow> V' n = V n) \<and> (\<forall>i > NDIRECT. a' i = a i)"

lemma card_free_allocd:
  assumes "geom_ok sp" "avail sp V b" "V' (bm sp) = allocd sp b V (bm sp)"
  shows "card (free_blocks sp V) = card (free_blocks sp V') + 1"
proof -
  have e: "free_blocks sp V' = free_blocks sp V - {b}"
    using allocd_simps(4) [OF assms(1) availD(1) [OF assms(2)]] assms(3) by (auto simp: free_blocks_def)
  have "b \<in> free_blocks sp V" using assms(2) by (simp add: avail_def free_blocks_def dblock_def)
  moreover have "finite (free_blocks sp V)" by (simp add: free_blocks_def)
  ultimately show ?thesis by (metis Suc_eq_plus1 card_Suc_Diff1 e)
qed

lemma free_avail: "bm_ok sp V \<Longrightarrow> n \<in> free_blocks sp V \<Longrightarrow> avail sp V n"
  by (auto simp: bm_ok_def free_blocks_def avail_def)

lemma card_pins: "card (insert (ROOTDEV, b) (insert (ROOTDEV, c) P)) \<le> card P + 2"
  using card_insert_Suc [of "(ROOTDEV, b)" "insert (ROOTDEV, c) P"] card_insert_Suc [of "(ROOTDEV, c)" P] by linarith

lemma card_pins3: "card (insert x (insert (ROOTDEV, b) (insert (ROOTDEV, c) P))) \<le> card P + 3"
  using card_insert_Suc [of x "insert (ROOTDEV, b) (insert (ROOTDEV, c) P)"] card_pins [of b c P] by linarith

text \<open>\<open>balloc\<close> in the context of a file, with at most one other block of the file held.\<close>

lemma balloc_file:
  fixes s :: "'z fstate_scheme"
  assumes r: "nrep s V H P" and g: "geom_ok (sb s)" "bm_ok (sb s) V" and h: "\<And>n. n \<in> dom H \<Longrightarrow> used (sb s) V n" "card (dom H) \<le> 1"
    and fb: "free_blocks (sb s) V \<noteq> {}" and c: "card P + 1 < LOGSIZE - 1"
    and Q: "\<And>b t. avail (sb s) V b \<Longrightarrow> nfr s t \<Longrightarrow> nrep t (allocd (sb s) b V) H (insert (ROOTDEV, b) (insert (ROOTDEV, bm (sb s)) P)) \<Longrightarrow>
        wp (f b) Q t"
  shows "wp (bnd (balloc ROOTDEV) f) Q s"
proof (rule wp_bndI [OF balloc_ok [OF r g]])
  show "H (bm (sb s)) = None" using h(1) [of "bm (sb s)"] geomD(5) [OF g(1), of "bm (sb s)"] by (auto simp: used_def)
  show "free_blocks (sb s) V \<noteq> {}" by fact
  show "H n = None" if "dblock (sb s) n" "\<not> tst (V (bm (sb s))) n" for n using h(1) [of n] that by (auto simp: used_def)
  show "card (dom H) + card P + 1 < NBUF" using h(2) c by (simp add: const_defs)
  show "card P + 1 < LOGSIZE - 1" by fact
qed (use Q free_avail [OF g(2)] in blast)

lemma grown_refl: "fopen s V P ip j a \<Longrightarrow> nfr s t \<Longrightarrow> fopen t V P' ip j a \<Longrightarrow> grown s V P ip j a 0 t V P' a"
  by (simp add: grown_def set_addrs_id [OF fopenD(6)])

lemma grown_trans:
  assumes 1: "grown s V P ip j a d t V' P' a'" and 2: "grown t V' P' ip j a' e u V'' P'' a''"
  shows "grown s V P ip j a (d + e) u V'' P'' a''"
proof -
  have sb: "sb t = sb s" using 1 nfr_fields(1) [of "set_addrs j a' s" t] by (simp add: grown_def)
  have fr: "after_addrs j a'' s u" using 1 2 by (auto simp: grown_def intro: after_addrs_trans)
  have c: "\<forall>off < MAXFILE * BSIZE. cont a'' V'' off = cont a V off" using 1 2 by (simp add: grown_def)
  have b: "\<forall>bn < MAXFILE. fblk a V bn \<noteq> 0 \<longrightarrow> fblk a'' V'' bn = fblk a V bn" using 1 2 by (simp add: grown_def)
  have u1: "\<And>n. used (sb s) V n \<Longrightarrow> used (sb s) V' n \<and> (n \<noteq> a NDIRECT \<longrightarrow> V' n = V n)"
    and u2: "\<And>n. used (sb s) V' n \<Longrightarrow> used (sb s) V'' n \<and> (n \<noteq> a' NDIRECT \<longrightarrow> V'' n = V' n)"
    using 1 2 sb by (auto simp: grown_def)
  have i: "a NDIRECT \<noteq> 0 \<Longrightarrow> a' NDIRECT = a NDIRECT" "a NDIRECT = 0 \<Longrightarrow> a' NDIRECT = 0 \<or> \<not> used (sb s) V (a' NDIRECT)"
    "a' NDIRECT \<noteq> 0 \<Longrightarrow> a'' NDIRECT = a' NDIRECT" "a' NDIRECT = 0 \<Longrightarrow> a'' NDIRECT = 0 \<or> \<not> used (sb s) V' (a'' NDIRECT)"
    using 1 2 sb by (auto simp: grown_def split: if_splits)
  have nb: "\<forall>bn < MAXFILE. fblk a'' V'' bn \<noteq> fblk a V bn \<longrightarrow> \<not> used (sb s) V (fblk a'' V'' bn)"
  proof (intro allI impI)
    fix bn assume bn: "bn < MAXFILE" "fblk a'' V'' bn \<noteq> fblk a V bn"
    have n1: "fblk a' V' bn \<noteq> fblk a V bn \<Longrightarrow> \<not> used (sb s) V (fblk a' V' bn)"
      and n2: "fblk a'' V'' bn \<noteq> fblk a' V' bn \<Longrightarrow> \<not> used (sb s) V' (fblk a'' V'' bn)"
      using 1 2 sb bn(1) by (auto simp: grown_def)
    show "\<not> used (sb s) V (fblk a'' V'' bn)"
      using n1 n2 u1 bn(2) by (cases "fblk a'' V'' bn = fblk a' V' bn") auto
  qed
  have z: "\<not> used (sb s) V 0" using 1 geomD(8) [of "sb s" 0] sb by (auto simp: grown_def fopen_def used_def)
  have "\<forall>n. used (sb s) V n \<longrightarrow> used (sb s) V'' n \<and> (n \<noteq> a NDIRECT \<longrightarrow> V'' n = V n)"
  proof (intro allI impI)
    fix n assume n: "used (sb s) V n"
    show "used (sb s) V'' n \<and> (n \<noteq> a NDIRECT \<longrightarrow> V'' n = V n)"
      using u1 [OF n] u2 [of n] i(1,2) n z by metis
  qed
  moreover have "if a NDIRECT \<noteq> 0 then a'' NDIRECT = a NDIRECT else a'' NDIRECT = 0 \<or> \<not> used (sb s) V (a'' NDIRECT)"
    using i u1 by (metis (full_types))
  ultimately show ?thesis using 1 2 sb fr c b nb by (simp add: grown_def)
qed

lemma allocd_below: "geom_ok sp \<Longrightarrow> dblock sp b \<Longrightarrow> n < sb_bmapstart sp \<Longrightarrow> allocd sp b V n = V n"
  by (auto simp: allocd_def bm_def dblock_def)

text \<open>A new block for a direct address, or for the indirect block.\<close>

lemma grown_addr:
  fixes s t :: "'z fstate_scheme"
  assumes f: "fopen s V P ip j a" and b: "avail (sb s) V b" and t: "nfr s t"
    and r: "nrep t (allocd (sb s) b V) Map.empty P'" and i: "i \<le> NDIRECT" "a i = 0"
  shows "grown s V P ip j a 1 (set_addrs j (a(i := b)) t) (allocd (sb s) b V) P' (a(i := b))"
proof -
  note fo = fopenD [OF f] and g = fopenD(2) [OF f]
  let ?a = "a(i := b)" and ?V = "allocd (sb s) b V" and ?u = "set_addrs j (a(i := b)) t"
  have b0: "b \<noteq> 0" using geomD(8) [OF g availD(1) [OF b]] .
  have nu: "\<not> used (sb s) V b" using b by (simp add: used_def avail_def)
  have main: "finv (sb s) ?V ?a \<and> (\<forall>off < MAXFILE * BSIZE. cont ?a ?V off = cont a V off) \<and>
     (\<forall>bn < MAXFILE. fblk a V bn \<noteq> 0 \<longrightarrow> fblk ?a ?V bn = fblk a V bn) \<and>
     (\<forall>bn < MAXFILE. fblk ?a ?V bn \<noteq> fblk a V bn \<longrightarrow> fblk ?a ?V bn = b)"
  proof (cases "i = NDIRECT")
    case True
    then show ?thesis using grow_indirect [OF g fo(7) b] i by auto
  next
    case False
    then have il: "i < NDIRECT" using i by simp
    have "fblk ?a ?V bn = (if bn = i then b else fblk a V bn)" for bn
      using il used_allocd(1) [OF g b finvD(1) [OF fo(7)]] by (auto simp: fblk_def)
    moreover have "fblk a V i = 0" using il i(2) by (simp add: fblk_def)
    ultimately show ?thesis using grow_direct [OF g fo(7) b il i(2)] by auto
  qed
  note nf = nfr_fields [OF t]
  have "fopen ?u ?V P' ip j ?a"
    using main r g nf fo bm_ok_allocd [OF g availD(1) [OF b] fo(3)] by (simp add: fopen_def)
  moreover have "used (sb s) ?V n \<and> ?V n = V n" if "used (sb s) V n" for n
    using that used_allocd(1) [OF g b that] allocd_simps(4) [OF g availD(1) [OF b]] by (auto simp: used_def)
  moreover have "card (free_blocks (sb s) V) = card (free_blocks (sb s) ?V) + 1" by (rule card_free_allocd [OF g b]) simp
  moreover have "if a NDIRECT \<noteq> 0 then ?a NDIRECT = a NDIRECT else ?a NDIRECT = 0 \<or> \<not> used (sb s) V (?a NDIRECT)"
    using i nu by auto
  ultimately show ?thesis
    using main nu i(1) nfr_set_addrs [OF t] allocd_below [OF g availD(1) [OF b]] by (auto simp: grown_def)
qed

text \<open>A new block in an entry of the indirect block.\<close>

lemma grown_entry:
  fixes s t :: "'z fstate_scheme"
  assumes f: "fopen s V P ip j a" and b: "avail (sb s) V b" and t: "nfr s t" and i: "a NDIRECT \<noteq> 0"
    and k: "k < NINDIRECT" "fblk a V (NDIRECT + k) = 0"
    and V': "V' = (allocd (sb s) b V)(a NDIRECT := wr32 (V (a NDIRECT)) (4 * k) b)"
    and r: "nrep t V' Map.empty P'"
  shows "grown s V P ip j a 1 t V' P' a" and "fblk a V' (NDIRECT + k) = b"
proof -
  note fo = fopenD [OF f] and g = fopenD(2) [OF f]
  note ge = grow_entry [OF g fo(7) b i k V']
  note ui = finvD(1) [OF fo(7) i]
  have ub: "a NDIRECT \<noteq> bm (sb s)" using used_allocd(3) [OF g b ui] .
  have vb: "V' (bm (sb s)) = allocd (sb s) b V (bm (sb s))" using ub by (simp add: V')
  have ts: "tst (V' (bm (sb s))) n = (n = b \<or> tst (V (bm (sb s))) n)" for n
    unfolding vb by (rule allocd_simps(4) [OF g availD(1) [OF b]])
  have bmk: "bm_ok (sb s) V'" using bm_ok_allocd [OF g availD(1) [OF b] fo(3)] vb by (simp add: bm_ok_def)
  have fo': "fopen t V' P' ip j a" using ge(1) r g fo nfr_fields [OF t] bmk by (simp add: fopen_def)
  have us: "used (sb s) V' n \<and> (n \<noteq> a NDIRECT \<longrightarrow> V' n = V n)" if "used (sb s) V n" for n
    using that used_allocd(1) [OF g b that] ts by (auto simp: used_def V')
  have fb: "fblk a V' bn = fblk a V bn" if "bn < MAXFILE" "fblk a V bn \<noteq> 0" for bn
  proof (cases "bn < NDIRECT")
    case True
    then show ?thesis by (simp add: fblk_def)
  next
    case False
    then have "bn - NDIRECT \<noteq> k" using that(2) k(2) by auto
    then have "4 * (bn - NDIRECT) + 4 \<le> 4 * k \<or> 4 * k + 4 \<le> 4 * (bn - NDIRECT)" by auto
    then show ?thesis using False by (simp add: fblk_def V')
  qed
  have nb: "\<not> used (sb s) V (fblk a V' bn)" if "bn < MAXFILE" "fblk a V' bn \<noteq> fblk a V bn" for bn
  proof -
    have "fblk a V bn = 0" using fb [OF that(1)] that(2) by auto
    moreover have "fblk a V' bn = (if bn = NDIRECT + k then b else fblk a V bn)"
    proof (cases "bn < NDIRECT \<or> bn = NDIRECT + k")
      case True
      then show ?thesis using ge(3) by (auto simp: fblk_def)
    next
      case False
      then have "4 * (bn - NDIRECT) + 4 \<le> 4 * k \<or> 4 * k + 4 \<le> 4 * (bn - NDIRECT)" by auto
      then show ?thesis using False by (simp add: fblk_def V')
    qed
    ultimately show ?thesis using that(2) b by (auto simp: used_def avail_def split: if_splits)
  qed
  have below: "V' n = V n" if "n < sb_bmapstart (sb s)" for n
    using that ui allocd_below [OF g availD(1) [OF b] that] by (auto simp: V' used_def dblock_def)
  show "grown s V P ip j a 1 t V' P' a"
    unfolding grown_def set_addrs_id [OF fo(6)]
    using t fo' card_free_allocd [where V' = V', OF g b vb] ge(2) fb nb us below by auto
  show "fblk a V' (NDIRECT + k) = b" by (rule ge(3))
qed

lemma bmap_entry_new:
  fixes s :: "'z fstate_scheme"
  assumes f: "fopen s V P ip j a" and i: "a NDIRECT \<noteq> 0" and k: "k < NINDIRECT" "fblk a V (NDIRECT + k) = 0"
    and fb: "free_blocks (sb s) V \<noteq> {}" and c: "card P + 2 < LOGSIZE - 1"
  shows "wp (bmap_entry (a NDIRECT) k) (\<lambda>b t. b \<noteq> 0 \<and> (\<exists>V'. b = fblk a V' (NDIRECT + k) \<and>
     grown s V P ip j a 1 t V' (insert (ROOTDEV, a NDIRECT) (insert (ROOTDEV, b) (insert (ROOTDEV, bm (sb s)) P))) a)) s"
    (is "wp _ ?Q s")
proof -
  note fo = fopenD [OF f] and g = fopenD(2) [OF f]
  let ?i = "a NDIRECT"
  note ui = finvD(1) [OF fo(7) i]
  have ok: "?i < FSSIZE" "nwok ?i" using ui geomD(3,4) [OF g] by (auto simp: used_def)
  have z: "rd32 (V ?i) (4 * k) = 0" using k i by (simp add: fblk_def)
  have cP: "card P < NBUF" using c by (simp add: const_defs)
  have alloc: "wp (bnd (balloc ROOTDEV) (\<lambda>addr. bnd (bmod x (\<lambda>d. wr32 d (4 * k) addr)) (\<lambda>_.
      bnd (log_write x) (\<lambda>_. bnd (brelse x) (\<lambda>_. ret addr))))) ?Q t"
    if t: "nfr s t" "nrep t V [?i \<mapsto> (x, False)] P" for x t
  proof (rule balloc_file [OF t(2)])
    note nf = nfr_fields(1) [OF t(1)]
    show "geom_ok (sb t)" "bm_ok (sb t) V" "free_blocks (sb t) V \<noteq> {}" using g fo(3) fb nf by auto
    show "\<And>n. n \<in> dom [?i \<mapsto> (x, False)] \<Longrightarrow> used (sb t) V n" using ui nf by simp
    show "card (dom [?i \<mapsto> (x, False)]) \<le> 1" by simp
    show "card P + 1 < LOGSIZE - 1" using c by simp
    fix b u
    assume b: "avail (sb t) V b" and u: "nfr t u"
      "nrep u (allocd (sb t) b V) [?i \<mapsto> (x, False)] (insert (ROOTDEV, b) (insert (ROOTDEV, bm (sb t)) P))"
    let ?P = "insert (ROOTDEV, b) (insert (ROOTDEV, bm (sb s)) P)"
    let ?V = "(allocd (sb s) b V)(?i := wr32 (V ?i) (4 * k) b)"
    have b': "avail (sb s) V b" using b nf by simp
    have vi: "allocd (sb s) b V ?i = V ?i" by (rule used_allocd(1) [OF g b' ui])
    have cP': "card ?P < LOGSIZE - 1" using c card_pins [of b "bm (sb s)" P] by simp
    show "wp (bnd (bmod x (\<lambda>d. wr32 d (4 * k) b)) (\<lambda>_. bnd (log_write x) (\<lambda>_. bnd (brelse x) (\<lambda>_. ret b)))) ?Q u"
    proof (rule ns.mdf_bnd [OF u(2), of ?i x False], simp, rule ns.put_bnd [where n = ?i and m = True],
        assumption, simp, rule ok(2), use cP' nf in simp, rule ns.rel_bnd [where n = ?i], assumption, simp)
      fix v w y
      assume fr: "nfr u v" "nfr v w" "nfr w y"
        and y: "nrep y ((allocd (sb t) b V)(?i := wr32 (allocd (sb t) b V ?i) (4 * k) b))
          ([?i \<mapsto> (x, False), ?i \<mapsto> (x, True), ?i \<mapsto> (x, False)](?i := None))
          (insert (ROOTDEV, ?i) (insert (ROOTDEV, b) (insert (ROOTDEV, bm (sb t)) P)))"
      have sy: "nfr s y" using t(1) u(1) fr by (blast intro: ns.fr_trans)
      have ry: "nrep y ?V Map.empty (insert (ROOTDEV, ?i) ?P)" using y vi nf by simp
      note ge = grown_entry [OF f b' sy i k refl ry]
      have "b \<noteq> 0" using geomD(8) [OF g availD(1) [OF b']] .
      then show "wp (ret b) ?Q y"
        using ge(1) ge(2) [symmetric] unfolding wp_ret by (intro conjI exI [of _ ?V])
    qed
  qed
  show ?thesis
    unfolding bmap_entry_def
  proof (rule ns.get_bnd [OF fo(1) ok(1)])
    fix x t assume t: "nfr s t" "nrep t V [?i \<mapsto> (x, False)] P"
    have d: "b_data (bufs t x) = V ?i" by (rule ns.dat_law [OF t(2), of ?i x False]) simp
    show "wp (bnd (load_word x k) (\<lambda>addr. bnd (if addr = 0 then bnd (balloc ROOTDEV) (\<lambda>addr.
            bnd (store_word x k addr) (\<lambda>_. bnd (log_write x) (\<lambda>_. ret addr))) else ret addr) (\<lambda>addr.
            bnd (brelse x) (\<lambda>_. ret addr)))) ?Q t"
      using alloc [OF t] by (simp add: wp_load_word k(1) d z store_word_bmod bnd_assoc)
  qed (use cP in auto)
qed

lemma bmap_new:
  fixes s :: "'z fstate_scheme"
  assumes f: "fopen s V P ip j a" and bn: "bn < MAXFILE" "fblk a V bn = 0"
    and fb: "2 \<le> card (free_blocks (sb s) V)" and c: "card P + 4 < LOGSIZE - 1"
  shows "wp (bmap ip bn) (\<lambda>b t. b \<noteq> 0 \<and> (\<exists>V' P' a'. b = fblk a' V' bn \<and> card P' \<le> card P + 3 \<and>
     grown s V P ip j a 2 t V' P' a')) s" (is "wp _ ?Q s")
proof -
  note fo = fopenD [OF f] and g = fopenD(2) [OF f]
  have ne: "free_blocks (sb s) V \<noteq> {}" using fb by auto
  have weak: "grown s V P ip j a 1 t V' P' a' \<Longrightarrow> grown s V P ip j a 2 t V' P' a'" for t V' P' a'
    by (auto simp: grown_def)
  have hm: "\<And>n. n \<in> dom Map.empty \<Longrightarrow> used (sb s) V n" "card (dom Map.empty) \<le> 1" by simp_all
  have c1: "card P + 1 < LOGSIZE - 1" using c by simp
  show ?thesis
  proof (cases "bn < NDIRECT")
    case True
    have z: "a bn = 0" using bn(2) True by (simp add: fblk_def)
    have "wp (bnd (balloc ROOTDEV) (\<lambda>addr. bnd (set_addr ip bn addr) (\<lambda>_. ret addr))) ?Q s"
    proof (rule balloc_file [OF fo(1) g fo(3) hm ne c1])
      fix b t
      assume b: "avail (sb s) V b" and t: "nfr s t"
        "nrep t (allocd (sb s) b V) Map.empty (insert (ROOTDEV, b) (insert (ROOTDEV, bm (sb s)) P))"
      note nf = nfr_fields [OF t(1)]
      have gr: "grown s V P ip j a 1 (set_addrs j (a(bn := b)) t) (allocd (sb s) b V)
          (insert (ROOTDEV, b) (insert (ROOTDEV, bm (sb s)) P)) (a(bn := b))"
        by (rule grown_addr [OF f b t _ z]) (use True in simp)
      have fb': "b = fblk (a(bn := b)) (allocd (sb s) b V) bn" using True by (simp add: fblk_def)
      have cp: "card (insert (ROOTDEV, b) (insert (ROOTDEV, bm (sb s)) P)) \<le> card P + 3"
        using card_pins [of b "bm (sb s)" P] by linarith
      have "?Q b (set_addrs j (a(bn := b)) t)"
        using fb' cp weak [OF gr] geomD(8) [OF g availD(1) [OF b]] by blast
      then show "wp (bnd (set_addr ip bn b) (\<lambda>_. ret b)) ?Q t"
        using fo nf by (simp only: wp_set_addr wp_ret simp_thms)
    qed
    then show ?thesis using fo z True by (simp add: bmap_direct wp_get_addr)
  next
    case False
    then obtain k where k: "bn = NDIRECT + k" "k < NINDIRECT" using bn(1) by (auto simp: MAXFILE_def not_less le_iff_add)
    show ?thesis
    proof (cases "a NDIRECT = 0")
      case False
      have "wp (bmap_entry (a NDIRECT) k) ?Q s"
      proof (rule wp_mono [OF bmap_entry_new [OF f False k(2) _ ne]])
        show "fblk a V (NDIRECT + k) = 0" "card P + 2 < LOGSIZE - 1" using bn k c by auto
        fix b t
        let ?P = "insert (ROOTDEV, a NDIRECT) (insert (ROOTDEV, b) (insert (ROOTDEV, bm (sb s)) P))"
        assume "b \<noteq> 0 \<and> (\<exists>V'. b = fblk a V' (NDIRECT + k) \<and> grown s V P ip j a 1 t V' ?P a)"
        moreover have "card ?P \<le> card P + 3" by (rule card_pins3)
        ultimately show "?Q b t" using weak k(1) by blast
      qed
      then show ?thesis using fo False k by (simp add: bmap_indirect wp_get_addr)
    next
      case z: True
      have "wp (bnd (balloc ROOTDEV) (\<lambda>addr. bnd (set_addr ip NDIRECT addr) (\<lambda>_. bmap_entry addr k))) ?Q s"
      proof (rule balloc_file [OF fo(1) g fo(3) hm ne c1])
        fix i and t :: "'z fstate_scheme"
        let ?V = "allocd (sb s) i V" and ?P = "insert (ROOTDEV, i) (insert (ROOTDEV, bm (sb s)) P)"
        let ?a = "a(NDIRECT := i)" and ?t = "set_addrs j (a(NDIRECT := i)) t"
        assume b: "avail (sb s) V i" and t: "nfr s t" "nrep t ?V Map.empty ?P"
        note nf = nfr_fields [OF t(1)]
        have i0: "i \<noteq> 0" using geomD(8) [OF g availD(1) [OF b]] .
        have gr: "grown s V P ip j a 1 ?t ?V ?P ?a" by (rule grown_addr [OF f b t order_refl z])
        have fo': "fopen ?t ?V ?P ip j ?a" using gr by (simp add: grown_def)
        have sbt: "sb ?t = sb s" using nf by simp
        have zk: "fblk ?a ?V (NDIRECT + k) = 0" using grow_indirect(3) [OF g fo(7) b z] bn k by simp
        have ne': "free_blocks (sb ?t) ?V \<noteq> {}" using card_free_allocd [OF g b, of ?V] fb sbt by auto
        have cc: "card ?P + 2 < LOGSIZE - 1" using c card_pins [of i "bm (sb s)" P] by simp
        have "wp (bmap_entry i k) ?Q ?t"
        proof (rule wp_mono [OF bmap_entry_new [OF fo' _ k(2) zk ne' cc, unfolded fun_upd_same, OF i0]])
          fix b u
          let ?P' = "insert (ROOTDEV, i) (insert (ROOTDEV, b) (insert (ROOTDEV, bm (sb ?t)) ?P))"
          assume h: "b \<noteq> 0 \<and> (\<exists>V'. b = fblk ?a V' (NDIRECT + k) \<and> grown ?t ?V ?P ip j ?a 1 u V' ?P' ?a)"
          have e: "?P' = insert (ROOTDEV, b) ?P" using sbt by auto
          have cp: "card ?P' \<le> card P + 3" unfolding e by (rule card_pins3)
          obtain V' where V': "b = fblk ?a V' (NDIRECT + k)" "grown ?t ?V ?P ip j ?a 1 u V' ?P' ?a" using h by blast
          have "grown s V P ip j a 2 u V' ?P' ?a" using grown_trans [OF gr V'(2)] by (simp add: numeral_2_eq_2)
          then show "?Q b u" using h V'(1) cp k(1) by blast
        qed
        then show "wp (bnd (set_addr ip NDIRECT i) (\<lambda>_. bmap_entry i k)) ?Q t"
          using fo nf by (simp add: wp_set_addr)
      qed
      then show ?thesis using fo z k by (simp add: bmap_indirect wp_get_addr bnd_assoc)
    qed
  qed
qed

lemma bmap_ok:
  fixes s :: "'z fstate_scheme"
  assumes f: "fopen s V P ip j a" and bn: "bn < MAXFILE"
    and fb: "fblk a V bn \<noteq> 0 \<or> 2 \<le> card (free_blocks (sb s) V)" and c: "card P + 4 < LOGSIZE - 1"
  shows "wp (bmap ip bn) (\<lambda>b t. b \<noteq> 0 \<and> (\<exists>V' P' a'. b = fblk a' V' bn \<and> card P' \<le> card P + 3 \<and>
     grown s V P ip j a 2 t V' P' a')) s"
proof (cases "fblk a V bn = 0")
  case False
  have "card P < NBUF" using c by (simp add: const_defs)
  from bmap_hit [OF f bn False this] show ?thesis
  proof (rule wp_mono)
    fix b t
    assume h: "b = fblk a V bn \<and> nfr s t \<and> fopen t V P ip j a"
    then have "grown s V P ip j a 0 t V P a" using grown_refl [OF f] by blast
    then have "grown s V P ip j a 2 t V P a" by (simp add: grown_def)
    then show "b \<noteq> 0 \<and> (\<exists>V' P' a'. b = fblk a' V' bn \<and> card P' \<le> card P + 3 \<and> grown s V P ip j a 2 t V' P' a')"
      using h False by (metis le_add1)
  qed
qed (use bmap_new [OF f bn] fb c in auto)

subsection \<open>Reading\<close>

text \<open>A file without holes: every byte below \<open>size\<close> has its block.\<close>

definition dense :: "(nat \<Rightarrow> nat) \<Rightarrow> contents \<Rightarrow> nat \<Rightarrow> bool" where
  "dense a V sz \<longleftrightarrow> sz \<le> MAXFILE * BSIZE \<and> (\<forall>off < sz. fblk a V (off div BSIZE) \<noteq> 0)"

lemma bread_of_root: "i_dev (inodes s ip) = ROOTDEV \<Longrightarrow> wp (bnd (bread_of ip n) f) Q s = wp (bnd (bread ROOTDEV n) f) Q s"
  by (simp add: wp_def bnd_def bread_of_def)

lemma span:
  fixes off n :: nat
  assumes "m = min n (BSIZE - off mod BSIZE)" "i < m"
  shows "(off + i) div BSIZE = off div BSIZE" "(off + i) mod BSIZE = off mod BSIZE + i"
proof -
  have "i < BSIZE - off mod BSIZE" using assms by simp
  then have lt: "off mod BSIZE + i < BSIZE" by linarith
  have e: "off + i = off div BSIZE * BSIZE + (off mod BSIZE + i)" by simp
  show "(off + i) div BSIZE = off div BSIZE"
    by (rule div_nat_eqI) (use lt mult_div_mod_eq [of BSIZE off] in \<open>simp_all, linarith+\<close>)
  show "(off + i) mod BSIZE = off mod BSIZE + i"
    by (subst e) (simp only: mod_mult_self3 mod_less [OF lt])
qed

lemma cont_span:
  assumes "m = min n (BSIZE - off mod BSIZE)" "b = fblk a V (off div BSIZE)" "b \<noteq> 0"
  shows "bytes (V b) (off mod BSIZE) m = map (cont a V) [off..<off + m]"
proof (rule nth_equalityI)
  fix i assume "i < length (bytes (V b) (off mod BSIZE) m)"
  then have i: "i < m" by simp
  have "[off..<off + m] ! i = off + i" using i by simp
  then show "bytes (V b) (off mod BSIZE) m ! i = map (cont a V) [off..<off + m] ! i"
    using i span [OF assms(1) i] assms(2,3) by (simp add: cont_def)
qed simp

lemma readi_loop_ok:
  fixes s :: "'z fstate_scheme"
  assumes "fopen s V P ip j a" "dense a V sz" "off + n \<le> sz" "card P + 1 < NBUF"
  shows "wp (readi_loop (bmap ip) ip off n) (\<lambda>bs t. bs = map (cont a V) [off..<off + n] \<and> nfr s t \<and> fopen t V P ip j a) s"
  using assms
proof (induction n arbitrary: off s rule: less_induct)
  case (less n)
  note f = less.prems(1) and d = less.prems(2)
  show ?case
  proof (cases "n = 0")
    case True
    then show ?thesis using f by (subst readi_loop.simps) (simp add: wp_ret ns.fr_refl)
  next
    case False
    define m where "m = min n (BSIZE - off mod BSIZE)"
    have m: "0 < m" "m \<le> n" using False by (auto simp: m_def)
    let ?b = "fblk a V (off div BSIZE)"
    have lt: "off < sz" using False less.prems(3) by simp
    have bn: "off div BSIZE < MAXFILE" using lt d by (simp add: dense_def less_mult_imp_div_less)
    have nz: "?b \<noteq> 0" using lt d by (simp add: dense_def)
    let ?Q = "\<lambda>bs t. bs = map (cont a V) [off..<off + n] \<and> nfr s t \<and> fopen t V P ip j a"
    have "wp (bnd (bmap ip (off div BSIZE)) (\<lambda>addr. bnd (bread_of ip addr) (\<lambda>bp.
        bnd (gets (\<lambda>s. bytes (b_data (bufs s bp)) (off mod BSIZE) m)) (\<lambda>x. bnd (brelse bp) (\<lambda>_.
        bnd (readi_loop (bmap ip) ip (off + m) (n - m)) (\<lambda>y. ret (x @ y))))))) ?Q s"
    proof (rule wp_bndI [OF bmap_hit [OF f bn nz]])
      show "card P < NBUF" using less.prems(4) by simp
      fix b t assume h: "b = ?b \<and> nfr s t \<and> fopen t V P ip j a"
      then have t: "b = ?b" "nfr s t" "fopen t V P ip j a" by auto
      note ft = fopenD [OF t(3)]
      have ok: "?b < FSSIZE" using finvD(2) [OF ft(7) bn nz] geomD(3) [OF ft(2)] by (simp add: used_def)
      have "wp (bnd (bread ROOTDEV ?b) (\<lambda>bp.
        bnd (gets (\<lambda>s. bytes (b_data (bufs s bp)) (off mod BSIZE) m)) (\<lambda>x. bnd (brelse bp) (\<lambda>_.
        bnd (readi_loop (bmap ip) ip (off + m) (n - m)) (\<lambda>y. ret (x @ y)))))) ?Q t"
      proof (rule ns.read_block [OF ft(1) ok, where g = "\<lambda>d. bytes d (off mod BSIZE) m"])
        fix u assume u: "nfr t u" "nrep u V Map.empty P"
        have fu: "fopen u V P ip j a" by (rule fopen_nfr [OF t(3) u])
        have su: "nfr s u" using t u by (blast intro: ns.fr_trans)
        show "wp (bnd (readi_loop (bmap ip) ip (off + m) (n - m)) (\<lambda>y. ret (bytes (V ?b) (off mod BSIZE) m @ y))) ?Q u"
        proof (rule wp_bndI [OF less.IH [OF _ fu d]])
          show "n - m < n" "off + m + (n - m) \<le> sz" "card P + 1 < NBUF" using m False less.prems by auto
          fix y v
          assume "y = map (cont a V) [off + m..<off + m + (n - m)] \<and> nfr u v \<and> fopen v V P ip j a"
          moreover have "map (cont a V) [off..<off + m] @ map (cont a V) [off + m..<off + n] = map (cont a V) [off..<off + n]"
            using m upt_add_eq_append [of off "off + m" "n - m"] by (simp flip: map_append)
          ultimately show "wp (ret (bytes (V ?b) (off mod BSIZE) m @ y)) ?Q v"
            using m su cont_span [OF m_def refl nz] by (auto simp: wp_ret intro: ns.fr_trans)
        qed
      qed (use less.prems(4) in auto)
      then show "wp (bnd (bread_of ip b) (\<lambda>bp.
        bnd (gets (\<lambda>s. bytes (b_data (bufs s bp)) (off mod BSIZE) m)) (\<lambda>x. bnd (brelse bp) (\<lambda>_.
        bnd (readi_loop (bmap ip) ip (off + m) (n - m)) (\<lambda>y. ret (x @ y)))))) ?Q t"
        by (simp only: t(1) bread_of_root [OF ft(4)])
    qed
    then show ?thesis using False by (subst readi_loop.simps) (simp add: m_def Let_def)
  qed
qed

subsection \<open>Writing\<close>

text \<open>The blocks of a file.\<close>

definition fblocks :: "(nat \<Rightarrow> nat) \<Rightarrow> contents \<Rightarrow> nat set" where
  "fblocks a V = insert (a NDIRECT) (fblk a V ` {..<MAXFILE})"

lemma data_write:
  assumes g: "geom_ok sp" and fi: "finv sp V a" and bn: "bn < MAXFILE" "b = fblk a V bn" "b \<noteq> 0"
  shows "m < MAXFILE \<Longrightarrow> fblk a (V(b := d)) m = fblk a V m"
    and "finv sp (V(b := d)) a"
    and "off < MAXFILE * BSIZE \<Longrightarrow> cont a (V(b := d)) off = (if off div BSIZE = bn then d (off mod BSIZE) else cont a V off)"
    and "bm_ok sp (V(b := d)) = bm_ok sp V" "used sp (V(b := d)) n = used sp V n" "free_blocks sp (V(b := d)) = free_blocks sp V"
    and "dblock sp b"
proof -
  have bi: "b \<noteq> a NDIRECT" "used sp V b"
    unfolding bn(2) by (rule finvD(3) [OF fi bn(1) bn(3) [unfolded bn(2)]], rule finvD(2) [OF fi bn(1) bn(3) [unfolded bn(2)]])
  show db: "dblock sp b" using bi(2) by (simp add: used_def)
  have bb: "b \<noteq> bm sp" by (rule geomD(5) [OF g db])
  have f: "fblk a (V(b := d)) m = fblk a V m" for m using bi(1) by (simp add: fblk_def)
  then show "m < MAXFILE \<Longrightarrow> fblk a (V(b := d)) m = fblk a V m" by blast
  have u: "used sp (V(b := d)) n = used sp V n" for n using bb by (simp add: used_def)
  then show "used sp (V(b := d)) n = used sp V n" by blast
  show "bm_ok sp (V(b := d)) = bm_ok sp V" using bb by (simp add: bm_ok_def)
  show "free_blocks sp (V(b := d)) = free_blocks sp V" using bb by (simp add: free_blocks_def)
  show "finv sp (V(b := d)) a" using fi unfolding finv_def f u .
  assume off: "off < MAXFILE * BSIZE"
  have m: "off div BSIZE < MAXFILE" using off by (simp add: less_mult_imp_div_less)
  have e: "fblk a V (off div BSIZE) = b \<Longrightarrow> off div BSIZE = bn"
    using finvD(4) [OF fi m bn(1)] bn(2,3) by metis
  show "cont a (V(b := d)) off = (if off div BSIZE = bn then d (off mod BSIZE) else cont a V off)"
  proof (cases "off div BSIZE = bn")
    case True
    then have "fblk a V (off div BSIZE) = b" using bn(2) by simp
    then show ?thesis using bn(3) True by (simp add: cont_def f Let_def)
  next
    case False
    then have "fblk a V (off div BSIZE) \<noteq> b" using e by blast
    then show ?thesis using False by (simp add: cont_def f Let_def)
  qed
qed

text \<open>What writing to a file leaves: its bytes are \<open>F\<close>, and blocks in use that are not the file's, and
  the blocks before the bitmap, are as they were.\<close>

definition wrote :: "'z fstate_scheme \<Rightarrow> contents \<Rightarrow> nat \<Rightarrow> nat \<Rightarrow> (nat \<Rightarrow> nat) \<Rightarrow> nat \<Rightarrow> (nat \<Rightarrow> byte)
    \<Rightarrow> 'z fstate_scheme \<Rightarrow> contents \<Rightarrow> pins \<Rightarrow> (nat \<Rightarrow> nat) \<Rightarrow> bool" where
  "wrote s V ip j a d F t V' P' a' \<longleftrightarrow>
     after_addrs j a' s t \<and> fopen t V' P' ip j a' \<and>
     card (free_blocks (sb s) V) \<le> card (free_blocks (sb s) V') + d \<and>
     (\<forall>off < MAXFILE * BSIZE. cont a' V' off = F off) \<and>
     (\<forall>bn < MAXFILE. fblk a V bn \<noteq> 0 \<longrightarrow> fblk a' V' bn \<noteq> 0) \<and>
     (\<forall>n. n \<in> fblocks a' V' \<longrightarrow> n \<in> fblocks a V \<or> \<not> used (sb s) V n) \<and>
     (\<forall>n. used (sb s) V n \<longrightarrow> used (sb s) V' n \<and> (n \<notin> fblocks a V \<longrightarrow> V' n = V n)) \<and>
     (\<forall>n. n < sb_bmapstart (sb s) \<longrightarrow> V' n = V n) \<and> (\<forall>i > NDIRECT. a' i = a i)"

lemma wrote_trans:
  assumes 1: "wrote s V ip j a d F t V' P' a'" and 2: "wrote t V' ip j a' e G u V'' P'' a''"
  shows "wrote s V ip j a (d + e) G u V'' P'' a''"
proof -
  have sb: "sb t = sb s" using 1 nfr_fields(1) [of "set_addrs j a' s" t] by (simp add: wrote_def)
  have fr: "after_addrs j a'' s u" using 1 2 by (auto simp: wrote_def intro: after_addrs_trans)
  have u1: "used (sb s) V n \<Longrightarrow> used (sb s) V' n \<and> (n \<notin> fblocks a V \<longrightarrow> V' n = V n)"
    and u2: "used (sb s) V' n \<Longrightarrow> used (sb s) V'' n \<and> (n \<notin> fblocks a' V' \<longrightarrow> V'' n = V' n)"
    and b1: "n \<in> fblocks a' V' \<Longrightarrow> n \<in> fblocks a V \<or> \<not> used (sb s) V n"
    and b2: "n \<in> fblocks a'' V'' \<Longrightarrow> n \<in> fblocks a' V' \<or> \<not> used (sb s) V' n" for n
    using 1 2 sb by (auto simp: wrote_def)
  have "used (sb s) V n \<Longrightarrow> used (sb s) V'' n \<and> (n \<notin> fblocks a V \<longrightarrow> V'' n = V n)" for n
    using u1 [of n] u2 [of n] b1 [of n] by auto
  moreover have "n \<in> fblocks a'' V'' \<Longrightarrow> n \<in> fblocks a V \<or> \<not> used (sb s) V n" for n
    using b1 [of n] b2 [of n] u1 [of n] by auto
  moreover have "card (free_blocks (sb s) V) \<le> card (free_blocks (sb s) V'') + (d + e)"
    "\<forall>off < MAXFILE * BSIZE. cont a'' V'' off = G off" "fopen u V'' P'' ip j a''"
    "\<forall>bn < MAXFILE. fblk a V bn \<noteq> 0 \<longrightarrow> fblk a'' V'' bn \<noteq> 0" "\<forall>n. n < sb_bmapstart (sb s) \<longrightarrow> V'' n = V n"
    "\<forall>i > NDIRECT. a'' i = a i"
    using 1 2 sb by (simp_all add: wrote_def)
  ultimately show ?thesis using fr unfolding wrote_def by blast
qed

lemma grown_wrote:
  fixes s t :: "'z fstate_scheme"
  assumes gr: "grown s V P ip j a d t V' P' a'" and bn: "bn < MAXFILE" "b = fblk a' V' bn" "b \<noteq> 0"
    and u: "nfr t u" "nrep u (V'(b := D)) Map.empty P''"
  shows "wrote s V ip j a d (\<lambda>off. if off div BSIZE = bn then D (off mod BSIZE) else cont a V off) u (V'(b := D)) P'' a'"
proof -
  have fo: "fopen t V' P' ip j a'" using gr by (simp add: grown_def)
  note ft = fopenD [OF fo]
  have sb: "sb t = sb s" using gr nfr_fields(1) [of "set_addrs j a' s" t] by (simp add: grown_def)
  note dw = data_write [OF ft(2,7) bn, unfolded sb]
  have fu: "fopen u (V'(b := D)) P'' ip j a'"
    using u(2) ft dw(2,4) sb nfr_fields [OF u(1)] by (simp add: fopen_def)
  have i: "a NDIRECT \<noteq> 0 \<Longrightarrow> a' NDIRECT = a NDIRECT" "a NDIRECT = 0 \<Longrightarrow> a' NDIRECT = 0 \<or> \<not> used (sb s) V (a' NDIRECT)"
    using gr by (auto simp: grown_def split: if_splits)
  have nb: "fblk a' V' k \<noteq> fblk a V k \<Longrightarrow> \<not> used (sb s) V (fblk a' V' k)" if "k < MAXFILE" for k
    using gr that by (simp add: grown_def)
  have bl: "x \<in> fblocks a V \<or> \<not> used (sb s) V x" if x: "x \<in> fblocks a' V'" for x
  proof -
    consider "x = a' NDIRECT" | k where "k < MAXFILE" "x = fblk a' V' k" using x by (auto simp: fblocks_def)
    then show ?thesis
    proof cases
      case 1
      then show ?thesis using i by (cases "a NDIRECT = 0") (auto simp: fblocks_def)
    next
      case 2
      then show ?thesis using nb [OF 2(1)] by (cases "fblk a' V' k = fblk a V k") (auto simp: fblocks_def)
    qed
  qed
  have us: "used (sb s) V' n \<and> (n \<noteq> a NDIRECT \<longrightarrow> V' n = V n)" if "used (sb s) V n" for n
    using gr that by (simp add: grown_def)
  have bf: "b \<in> fblocks a' V'" using bn by (auto simp: fblocks_def)
  have "fblocks a' (V'(b := D)) = fblocks a' V'" using dw(1) by (auto simp: fblocks_def)
  moreover have "used (sb s) (V'(b := D)) n \<and> (n \<notin> fblocks a V \<longrightarrow> (V'(b := D)) n = V n)" if n: "used (sb s) V n" for n
  proof -
    have "n \<notin> fblocks a V \<Longrightarrow> n \<noteq> b" using bl [OF bf] n by auto
    then show ?thesis using us [OF n] dw(5) by (auto simp: fblocks_def)
  qed
  moreover have "cont a' (V'(b := D)) off = (if off div BSIZE = bn then D (off mod BSIZE) else cont a V off)"
    if "off < MAXFILE * BSIZE" for off using dw(3) [OF that] gr that by (simp add: grown_def)
  moreover have "(V'(b := D)) n = V n" if "n < sb_bmapstart (sb s)" for n
    using that dw(7) gr by (auto simp: grown_def dblock_def)
  moreover have "fblk a' (V'(b := D)) k \<noteq> 0" if "k < MAXFILE" "fblk a V k \<noteq> 0" for k
    using that dw(1) gr by (simp add: grown_def)
  moreover have "after_addrs j a' s u" using gr u(1) by (auto simp: grown_def intro: ns.fr_trans)
  moreover have "card (free_blocks (sb s) V) \<le> card (free_blocks (sb s) (V'(b := D))) + d"
    using gr by (simp add: grown_def dw(6))
  moreover have "\<forall>i > NDIRECT. a' i = a i" using gr by (simp add: grown_def)
  ultimately show ?thesis using fu bl unfolding wrote_def by simp
qed

text \<open>The number of blocks that hold the \<open>n\<close> bytes from \<open>off\<close> on.\<close>

function nblk :: "nat \<Rightarrow> nat \<Rightarrow> nat" where
  "nblk off n = (if n = 0 then 0 else Suc (let m = min n (BSIZE - off mod BSIZE) in nblk (off + m) (n - m)))"
  by pat_completeness auto
termination
  by (relation "measure snd") (auto simp: min_def const_defs)

declare nblk.simps [simp del]

lemma blit_step:
  assumes "m = min n (BSIZE - off mod BSIZE)"
  shows "(if i div BSIZE = off div BSIZE then blit D (off mod BSIZE) src tot m (i mod BSIZE) else G i)
    = (if off \<le> i \<and> i < off + m then src (tot + (i - off)) else if i div BSIZE = off div BSIZE then D (i mod BSIZE) else G i)"
proof (cases "i div BSIZE = off div BSIZE")
  case True
  have e: "i = off div BSIZE * BSIZE + i mod BSIZE" "off = off div BSIZE * BSIZE + off mod BSIZE"
    using True by (metis div_mult_mod_eq)+
  then have "off \<le> i \<longleftrightarrow> off mod BSIZE \<le> i mod BSIZE" "i < off + m \<longleftrightarrow> i mod BSIZE < off mod BSIZE + m"
    "i - off = i mod BSIZE - off mod BSIZE" by linarith+
  then show ?thesis using True by (simp add: blit_def)
next
  case False
  have "\<not> (off \<le> i \<and> i < off + m)"
  proof
    assume "off \<le> i \<and> i < off + m"
    then obtain k where "i = off + k" "k < m" by (metis le_iff_add nat_add_left_cancel_less)
    then show False using False span(1) [OF assms] by simp
  qed
  then show ?thesis using False by auto
qed

lemma cont_block: "fblk a V bn \<noteq> 0 \<Longrightarrow> i div BSIZE = bn \<Longrightarrow> V (fblk a V bn) (i mod BSIZE) = cont a V i"
  by (simp add: cont_def)

lemma wrote_cong: "wrote s V ip j a d F t V' P' a' \<Longrightarrow> (\<And>off. off < MAXFILE * BSIZE \<Longrightarrow> F off = G off) \<Longrightarrow> wrote s V ip j a d G t V' P' a'"
  by (simp add: wrote_def)

text \<open>One round of the loop of \<open>writei\<close>.\<close>

lemma writei_round:
  fixes s :: "'z fstate_scheme"
  assumes f: "fopen s V P ip j a" and bn: "off div BSIZE < MAXFILE" and m: "m = min n (BSIZE - off mod BSIZE)"
    and fb: "fblk a V (off div BSIZE) \<noteq> 0 \<or> 2 \<le> card (free_blocks (sb s) V)" and c: "card P + 4 < LOGSIZE - 1"
    and Q: "\<And>t V' P' a'. wrote s V ip j a 2 (\<lambda>i. if off \<le> i \<and> i < off + m then src (tot + (i - off)) else cont a V i) t V' P' a' \<Longrightarrow>
        fblk a' V' (off div BSIZE) \<noteq> 0 \<Longrightarrow> card P' \<le> card P + 4 \<Longrightarrow> wp K Q t"
  shows "wp (bnd (bmap ip (off div BSIZE)) (\<lambda>addr. bnd (bread_of ip addr) (\<lambda>bp.
      bnd (bmod bp (\<lambda>d. blit d (off mod BSIZE) src tot m)) (\<lambda>_. bnd (log_write bp) (\<lambda>_. bnd (brelse bp) (\<lambda>_. K)))))) Q s"
proof (rule wp_bndI [OF bmap_ok [OF f bn fb c]])
  fix b t
  assume "b \<noteq> 0 \<and> (\<exists>V' P' a'. b = fblk a' V' (off div BSIZE) \<and> card P' \<le> card P + 3 \<and> grown s V P ip j a 2 t V' P' a')"
  then obtain V' P' a' where b: "b \<noteq> 0" "b = fblk a' V' (off div BSIZE)" and cP: "card P' \<le> card P + 3"
    and gr: "grown s V P ip j a 2 t V' P' a'" by blast
  have fo: "fopen t V' P' ip j a'" using gr by (simp add: grown_def)
  note ft = fopenD [OF fo]
  have db: "dblock (sb t) b" using finvD(2) [OF ft(7) bn] b by (auto simp: used_def)
  note ok = geomD(3,4) [OF ft(2) db]
  have c1: "card (dom Map.empty) + card P' < NBUF" "card P' < LOGSIZE - 1" using cP c by (auto simp: const_defs)
  let ?D = "blit (V' b) (off mod BSIZE) src tot m"
  have "wp (bnd (bread ROOTDEV b) (\<lambda>bp. bnd (bmod bp (\<lambda>d. blit d (off mod BSIZE) src tot m)) (\<lambda>_.
      bnd (log_write bp) (\<lambda>_. bnd (brelse bp) (\<lambda>_. K))))) Q t"
  proof (rule ns.update_block [OF ft(1) ok(1) _ c1(1) ok(2) c1(2), where g = "\<lambda>d. blit d (off mod BSIZE) src tot m"])
    fix u assume u: "nfr t u" "nrep u (V'(b := ?D)) Map.empty (insert (ROOTDEV, b) P')"
    note w = grown_wrote [OF gr bn b(2,1) u]
    have "wrote s V ip j a 2 (\<lambda>i. if off \<le> i \<and> i < off + m then src (tot + (i - off)) else cont a V i) u (V'(b := ?D)) (insert (ROOTDEV, b) P') a'"
    proof (rule wrote_cong [OF w])
      fix i assume i: "i < MAXFILE * BSIZE"
      have "i div BSIZE = off div BSIZE \<Longrightarrow> V' b (i mod BSIZE) = cont a V i"
        using cont_block [of a' V' "off div BSIZE" i] b gr i by (simp add: grown_def)
      then show "(if i div BSIZE = off div BSIZE then ?D (i mod BSIZE) else cont a V i)
          = (if off \<le> i \<and> i < off + m then src (tot + (i - off)) else cont a V i)"
        unfolding blit_step [OF m] by auto
    qed
    moreover have "fblk a' (V'(b := ?D)) (off div BSIZE) \<noteq> 0"
      using data_write(1) [OF ft(2,7) bn b(2,1) bn, of ?D] b by simp
    moreover have "card (insert (ROOTDEV, b) P') \<le> card P + 4"
      using card_insert_Suc [of "(ROOTDEV, b)" P'] cP by simp
    ultimately show "wp K Q u" by (rule Q)
  qed simp
  then show "wp (bnd (bread_of ip b) (\<lambda>bp. bnd (bmod bp (\<lambda>d. blit d (off mod BSIZE) src tot m)) (\<lambda>_.
      bnd (log_write bp) (\<lambda>_. bnd (brelse bp) (\<lambda>_. K))))) Q t"
    by (simp only: bread_of_root [OF ft(4)])
qed

lemma wrote_refl: "fopen s V P ip j a \<Longrightarrow> wrote s V ip j a 0 (cont a V) s V P a"
  using grown_refl [of s V P ip j a s] by (auto simp: wrote_def grown_def ns.fr_refl)

lemma writei_loop_ok:
  fixes s :: "'z fstate_scheme"
  assumes "fopen s V P ip j a" "off + n \<le> MAXFILE * BSIZE" "2 * nblk off n \<le> card (free_blocks (sb s) V)"
    "card P + 4 * nblk off n < LOGSIZE - 1"
  shows "wp (writei_loop (bmap ip) log_write ip src tot off n) (\<lambda>_ t. \<exists>V' P' a'.
      wrote s V ip j a (2 * nblk off n) (\<lambda>i. if off \<le> i \<and> i < off + n then src (tot + (i - off)) else cont a V i) t V' P' a'
      \<and> (\<forall>i. off \<le> i \<and> i < off + n \<longrightarrow> fblk a' V' (i div BSIZE) \<noteq> 0) \<and> card P' \<le> card P + 4 * nblk off n) s"
  using assms
proof (induction n arbitrary: off tot s V P a rule: less_induct)
  case (less n)
  note f = less.prems(1)
  show ?case
  proof (cases "n = 0")
    case True
    then have "wrote s V ip j a 0 (\<lambda>i. if off \<le> i \<and> i < off + n then src (tot + (i - off)) else cont a V i) s V P a"
      by (intro wrote_cong [OF wrote_refl [OF f]]) auto
    then show ?thesis using True by (subst writei_loop.simps, subst (1 2) nblk.simps) (auto simp: wp_ret)
  next
    case False
    define m where "m = min n (BSIZE - off mod BSIZE)"
    have m: "0 < m" "m \<le> n" using False by (auto simp: m_def)
    define k where "k = nblk (off + m) (n - m)"
    have nb: "nblk off n = Suc k" using False by (subst nblk.simps) (simp add: m_def k_def Let_def)
    have "off < MAXFILE * BSIZE" using m less.prems(2) by linarith
    then have bn: "off div BSIZE < MAXFILE" by (rule less_mult_imp_div_less)
    let ?F = "\<lambda>off n tot C i. if off \<le> i \<and> i < off + n then src (tot + (i - off)) else C i"
    let ?Q = "\<lambda>_ t. \<exists>V' P' a'. wrote s V ip j a (2 * nblk off n) (?F off n tot (cont a V)) t V' P' a'
      \<and> (\<forall>i. off \<le> i \<and> i < off + n \<longrightarrow> fblk a' V' (i div BSIZE) \<noteq> 0) \<and> card P' \<le> card P + 4 * nblk off n"
    have "wp (bnd (bmap ip (off div BSIZE)) (\<lambda>addr. bnd (bread_of ip addr) (\<lambda>bp.
      bnd (bmod bp (\<lambda>d. blit d (off mod BSIZE) src tot m)) (\<lambda>_. bnd (log_write bp) (\<lambda>_. bnd (brelse bp) (\<lambda>_.
      writei_loop (bmap ip) log_write ip src (tot + m) (off + m) (n - m))))))) ?Q s"
    proof (rule writei_round [OF f bn m_def])
      show "fblk a V (off div BSIZE) \<noteq> 0 \<or> 2 \<le> card (free_blocks (sb s) V)" "card P + 4 < LOGSIZE - 1"
        using less.prems(3,4) nb by auto
      fix t V1 P1 a1
      assume w: "wrote s V ip j a 2 (?F off m tot (cont a V)) t V1 P1 a1" and nz: "fblk a1 V1 (off div BSIZE) \<noteq> 0"
        and c1: "card P1 \<le> card P + 4"
      have sb: "sb t = sb s" using w nfr_fields(1) [of "set_addrs j a1 s" t] by (simp add: wrote_def)
      have f1: "fopen t V1 P1 ip j a1" using w by (simp add: wrote_def)
      have fr1: "card (free_blocks (sb s) V) \<le> card (free_blocks (sb s) V1) + 2" using w by (simp add: wrote_def)
      show "wp (writei_loop (bmap ip) log_write ip src (tot + m) (off + m) (n - m)) ?Q t"
      proof (rule wp_mono [OF less.IH [OF _ f1]])
        show "n - m < n" "off + m + (n - m) \<le> MAXFILE * BSIZE" using m less.prems(2) by auto
        show "2 * nblk (off + m) (n - m) \<le> card (free_blocks (sb t) V1)" "card P1 + 4 * nblk (off + m) (n - m) < LOGSIZE - 1"
          using less.prems(3,4) fr1 c1 nb sb k_def by auto
        fix r u
        assume "\<exists>V' P' a'. wrote t V1 ip j a1 (2 * nblk (off + m) (n - m)) (?F (off + m) (n - m) (tot + m) (cont a1 V1)) u V' P' a'
          \<and> (\<forall>i. off + m \<le> i \<and> i < off + m + (n - m) \<longrightarrow> fblk a' V' (i div BSIZE) \<noteq> 0) \<and> card P' \<le> card P1 + 4 * nblk (off + m) (n - m)"
        then obtain V' P' a' where w': "wrote t V1 ip j a1 (2 * k) (?F (off + m) (n - m) (tot + m) (cont a1 V1)) u V' P' a'"
          and nz': "\<And>i. off + m \<le> i \<Longrightarrow> i < off + n \<Longrightarrow> fblk a' V' (i div BSIZE) \<noteq> 0" and c': "card P' \<le> card P1 + 4 * k"
          using m unfolding k_def by auto
        have c1': "\<And>i. i < MAXFILE * BSIZE \<Longrightarrow> cont a1 V1 i = ?F off m tot (cont a V) i" using w by (simp add: wrote_def)
        have "wrote s V ip j a (2 + 2 * k) (?F off n tot (cont a V)) u V' P' a'"
          by (rule wrote_cong [OF wrote_trans [OF w w']]) (use m c1' in auto)
        moreover have "fblk a' V' (i div BSIZE) \<noteq> 0" if i: "off \<le> i" "i < off + n" for i
        proof (cases "i < off + m")
          case True
          then have e: "i div BSIZE = off div BSIZE" using span(1) [OF m_def, of "i - off"] i by simp
          have "fblk a' V' (off div BSIZE) \<noteq> 0" using w' bn nz by (simp add: wrote_def)
          then show ?thesis unfolding e . 
        qed (use nz' i in auto)
        moreover have "card P' \<le> card P + 4 * nblk off n" using c' c1 nb by simp
        ultimately show "?Q r u" using nb by auto
      qed
    qed
    then show ?thesis using False by (subst writei_loop.simps) (simp add: m_def Let_def)
  qed
qed

end
