(* ===== verification/FsInode.thy ===== *)
theory FsInode
  imports FsFile
begin

section \<open>Inodes on disk, and reading and writing files\<close>

text \<open>
  The \<open>dinode\<close> layout is a round trip and touches its own 64 bytes only; \<open>iupdate\<close> stores an inode
  without touching a file's blocks; \<open>readi\<close> and \<open>writei\<close> of a native file are \<open>take\<close>/\<open>drop\<close> and a
  splice_at on its list of bytes.
\<close>

subsection \<open>The layout of an inode\<close>

definition dinode_ok :: "dinode \<Rightarrow> bool" where
  "dinode_ok di \<longleftrightarrow> (\<forall>x \<in> {d_type di, d_major di, d_minor di, d_nlink di}. -32768 \<le> x \<and> x < 32768) \<and>
     d_size di < 4294967296 \<and> (\<forall>i. d_addrs di i < 4294967296) \<and> (\<forall>i > NDIRECT. d_addrs di i = 0)"

lemma rd32_put_words: "i < n \<Longrightarrow> rd32 (put_words a k n d) (k + 4 * i) = u32 (a i)"
  by (induction n) (auto simp: less_Suc_eq)

lemma put_words_other: "i < k \<or> k + 4 * n \<le> i \<Longrightarrow> put_words a k n d i = d i"
  by (induction n) auto

lemma enc_dinode_other: "i < k \<or> k + 64 \<le> i \<Longrightarrow> enc_dinode di k d i = d i"
  by (auto simp: enc_dinode_def put_words_other const_defs)

lemma rd16_put_words: "j + 2 \<le> k \<Longrightarrow> rd16 (put_words a k n d) j = rd16 d j"
  by (rule rd16_cong) (simp add: put_words_other)

lemma rd32_put_words_before: "j + 4 \<le> k \<Longrightarrow> rd32 (put_words a k n d) j = rd32 d j"
  by (rule rd32_cong) (simp add: put_words_other)

lemma dec_enc_dinode:
  assumes "dinode_ok di" shows "dec_dinode (enc_dinode di k d) k = di"
proof -
  have ad: "(\<lambda>i. if i \<le> NDIRECT then u32 (d_addrs di i) else 0) = d_addrs di"
    using assms by (auto simp: dinode_ok_def u32_def fun_eq_iff)
  have w: "i \<le> NDIRECT \<Longrightarrow> rd32 (enc_dinode di k d) (k + 12 + 4 * i) = u32 (d_addrs di i)" for i
    unfolding enc_dinode_def by (rule rd32_put_words) simp
  have "(\<lambda>i. if i \<le> NDIRECT then rd32 (enc_dinode di k d) (k + 12 + 4 * i) else 0) = d_addrs di"
    by (rule trans [OF _ ad]) (auto simp: w fun_eq_iff)
  moreover have "u16_of x mod 65536 = u16_of x" for x by simp
  moreover have "s16 (rd16 (enc_dinode di k d) k) = d_type di" "s16 (rd16 (enc_dinode di k d) (k + 2)) = d_major di"
    "s16 (rd16 (enc_dinode di k d) (k + 4)) = d_minor di" "s16 (rd16 (enc_dinode di k d) (k + 6)) = d_nlink di"
    "rd32 (enc_dinode di k d) (k + 8) = d_size di"
    using assms by (simp_all add: enc_dinode_def rd16_put_words rd32_put_words_before u32_def dinode_ok_def)
  ultimately show ?thesis by (simp add: dec_dinode_def)
qed

lemma dec_dinode_cong:
  assumes "\<And>i. k \<le> i \<Longrightarrow> i < k + 64 \<Longrightarrow> d i = e i" shows "dec_dinode d k = dec_dinode e k"
proof -
  have "rd16 d (k + j) = rd16 e (k + j)" if "j + 2 \<le> 64" for j using that assms by (intro rd16_cong) auto
  from this [of 0] this [of 2] this [of 4] this [of 6]
  have h: "rd16 d k = rd16 e k" "rd16 d (k + 2) = rd16 e (k + 2)" "rd16 d (k + 4) = rd16 e (k + 4)" "rd16 d (k + 6) = rd16 e (k + 6)"
    by simp_all
  have w: "rd32 d (k + 8) = rd32 e (k + 8)" "i \<le> NDIRECT \<Longrightarrow> rd32 d (k + 12 + 4 * i) = rd32 e (k + 12 + 4 * i)" for i
    using assms by (auto simp: const_defs intro!: rd32_cong)
  show ?thesis unfolding dec_dinode_def h w(1) by (simp add: w(2) cong: if_cong)
qed

text \<open>The inode number \<open>n\<close> of a disk with contents \<open>V\<close>.\<close>

definition disk_inode :: "superblock \<Rightarrow> contents \<Rightarrow> nat \<Rightarrow> dinode" where
  "disk_inode sp V n = dec_dinode (V (IBLOCK n sp)) (64 * (n mod IPB))"

definition put_inode :: "superblock \<Rightarrow> nat \<Rightarrow> dinode \<Rightarrow> contents \<Rightarrow> contents" where
  "put_inode sp n di V = V(IBLOCK n sp := enc_dinode di (64 * (n mod IPB)) (V (IBLOCK n sp)))"

lemma IBLOCK_geom:
  assumes "geom_ok sp" "n < sb_ninodes sp"
  shows "IBLOCK n sp = n div IPB + sb_inodestart sp" "IBLOCK n sp < sb_bmapstart sp" "IBLOCK n sp < FSSIZE" "nwok (IBLOCK n sp)"
proof -
  have le: "sb_size sp \<le> 1000" "sb_bmapstart sp < sb_size sp" "32 \<le> sb_inodestart sp" "sb_inodestart sp + n div IPB < sb_bmapstart sp"
    using assms by (auto simp: geom_ok_def const_defs LOGSTART_def)
  then show e: "IBLOCK n sp = n div IPB + sb_inodestart sp" by (simp add: IBLOCK_def)
  show "IBLOCK n sp < sb_bmapstart sp" "IBLOCK n sp < FSSIZE" using le e by (simp_all add: const_defs)
  have "LOGSTART + LOGSIZE \<le> sb_inodestart sp" using assms by (simp add: geom_ok_def)
  then show "nwok (IBLOCK n sp)" using \<open>IBLOCK n sp < FSSIZE\<close> e by (simp add: nwok_def)
qed

lemma disk_put_inode:
  assumes "geom_ok sp" "n < sb_ninodes sp" "m < sb_ninodes sp" "dinode_ok di"
  shows "disk_inode sp (put_inode sp n di V) m = (if m = n then di else disk_inode sp V m)"
proof -
  consider "m = n" | "m \<noteq> n" "m div IPB = n div IPB" | "m div IPB \<noteq> n div IPB" by blast
  then show ?thesis
  proof cases
    case 1
    then show ?thesis using dec_enc_dinode [OF assms(4)] by (simp add: disk_inode_def put_inode_def)
  next
    case 2
    then have "m mod IPB \<noteq> n mod IPB" by (metis div_mult_mod_eq)
    then have "i < 64 * (n mod IPB) \<or> 64 * (n mod IPB) + 64 \<le> i" if "64 * (m mod IPB) \<le> i" "i < 64 * (m mod IPB) + 64" for i
      using that by linarith
    then show ?thesis using 2 IBLOCK_geom(1) [OF assms(1,2)] IBLOCK_geom(1) [OF assms(1,3)]
      by (simp add: disk_inode_def put_inode_def dec_dinode_cong [OF enc_dinode_other])
  next
    case 3
    then show ?thesis using IBLOCK_geom(1) [OF assms(1,2)] IBLOCK_geom(1) [OF assms(1,3)]
      by (auto simp: disk_inode_def put_inode_def)
  qed
qed

subsection \<open>Contents that agree on a file's blocks\<close>

lemma file_cong:
  assumes fi: "finv sp V a" and u: "\<And>n. used sp V n \<Longrightarrow> used sp V' n" and e: "\<And>n. n \<in> fblocks a V \<Longrightarrow> n \<noteq> 0 \<Longrightarrow> V' n = V n"
  shows "fblk a V' m = fblk a V m" "off < MAXFILE * BSIZE \<Longrightarrow> cont a V' off = cont a V off" "finv sp V' a" "fblocks a V' = fblocks a V"
proof -
  have f: "fblk a V' m = fblk a V m" for m using e [of "a NDIRECT"] by (simp add: fblk_def fblocks_def)
  then show "fblk a V' m = fblk a V m" by blast
  show "fblocks a V' = fblocks a V" by (simp add: fblocks_def f)
  show "finv sp V' a" using fi u unfolding finv_def f by blast
  assume "off < MAXFILE * BSIZE"
  then have "off div BSIZE < MAXFILE" by (rule less_mult_imp_div_less)
  then have "fblk a V (off div BSIZE) \<in> fblocks a V" by (simp add: fblocks_def)
  then show "cont a V' off = cont a V off" using e by (simp add: cont_def Let_def f)
qed

lemma fblocks_used: "finv sp V a \<Longrightarrow> n \<in> fblocks a V \<Longrightarrow> n \<noteq> 0 \<Longrightarrow> used sp V n"
  by (auto simp: fblocks_def finv_def)

text \<open>A block before the bitmap belongs to no file.\<close>

lemma meta_write:
  assumes g: "geom_ok sp" and n: "n < sb_bmapstart sp"
  shows "used sp (V(n := d)) m = used sp V m" "free_blocks sp (V(n := d)) = free_blocks sp V" "bm_ok sp (V(n := d)) = bm_ok sp V"
    and "finv sp V a \<Longrightarrow> fblk a (V(n := d)) m = fblk a V m" "finv sp V a \<Longrightarrow> finv sp (V(n := d)) a"
    and "finv sp V a \<Longrightarrow> off < MAXFILE * BSIZE \<Longrightarrow> cont a (V(n := d)) off = cont a V off"
    and "finv sp V a \<Longrightarrow> fblocks a (V(n := d)) = fblocks a V"
proof -
  have nb: "n \<noteq> bm sp" using n by (simp add: bm_def)
  then show u: "used sp (V(n := d)) m = used sp V m" for m by (simp add: used_def)
  show "free_blocks sp (V(n := d)) = free_blocks sp V" "bm_ok sp (V(n := d)) = bm_ok sp V"
    using nb by (simp_all add: free_blocks_def bm_ok_def)
  assume fi: "finv sp V a"
  have e: "m \<in> fblocks a V \<Longrightarrow> m \<noteq> 0 \<Longrightarrow> (V(n := d)) m = V m" for m
    using fblocks_used [OF fi, of m] n by (auto simp: used_def dblock_def)
  note c = file_cong [OF fi, of "V(n := d)", OF _ e]
  show "fblk a (V(n := d)) m = fblk a V m" "finv sp (V(n := d)) a" "off < MAXFILE * BSIZE \<Longrightarrow> cont a (V(n := d)) off = cont a V off"
    "fblocks a (V(n := d)) = fblocks a V"
    using c u by simp_all
qed

subsection \<open>Storing an inode\<close>

lemma iupdate_ok:
  fixes s :: "'z fstate_scheme"
  assumes f: "fopen s V P ip j a" and i: "i_inum (inodes s ip) < sb_ninodes (sb s)" and c: "card P < LOGSIZE - 1"
    and V': "V' = put_inode (sb s) (i_inum (inodes s ip)) (dinode_of s ip j) V"
    and P': "P' = insert (ROOTDEV, IBLOCK (i_inum (inodes s ip)) (sb s)) P"
  shows "wp (iupdate ip) (\<lambda>_ t. nfr s t \<and> fopen t V' P' ip j a) s"
proof -
  note fo = fopenD [OF f]
  let ?n = "IBLOCK (i_inum (inodes s ip)) (sb s)" and ?k = "64 * (i_inum (inodes s ip) mod IPB)"
  note ib = IBLOCK_geom [OF fo(2) i]
  have c1: "card (dom Map.empty) + card P < NBUF" using c by (simp add: const_defs)
  have "wp (bnd (bread ROOTDEV ?n) (\<lambda>bp. bnd (bmod bp (enc_dinode (dinode_of s ip j) ?k)) (\<lambda>_. bnd (log_write bp) (\<lambda>_. bnd (brelse bp) ret))))
     (\<lambda>_ t. nfr s t \<and> fopen t V' P' ip j a) s"
  proof (rule ns.update_block [OF fo(1) ib(3) _ c1 ib(4) c])
    fix t assume t: "nfr s t" "nrep t (V(?n := enc_dinode (dinode_of s ip j) ?k (V ?n))) Map.empty (insert (ROOTDEV, ?n) P)"
    have "fopen t V' P' ip j a"
      using t(2) nfr_fields [OF t(1)] fo meta_write(3,5) [OF fo(2) ib(2)] by (simp add: fopen_def V' P' put_inode_def)
    then show "wp (ret ()) (\<lambda>_ t. nfr s t \<and> fopen t V' P' ip j a) t" using t(1) by (simp add: wp_ret)
  qed simp
  moreover have "bnd m ret = m" for m :: "('z fstate_scheme, unit) kern" by (auto simp: bnd_def ret_def fun_eq_iff split: sum.splits)
  ultimately show ?thesis using fo(4,5) by (simp add: iupdate_def wp_def Let_def)
qed

subsection \<open>A file as a list of bytes\<close>

definition nfile :: "'z fstate_scheme \<Rightarrow> contents \<Rightarrow> pins \<Rightarrow> nat \<Rightarrow> nat \<Rightarrow> byte list \<Rightarrow> bool" where
  "nfile s V P ip j bs \<longleftrightarrow> (let x = inodes s ip; a = a_addrs (addrs s j) in
     fopen s V P ip j a \<and> i_file_type x = Some Inbuiltfs \<and> i_type x \<noteq> T_DEV \<and> i_inum x < sb_ninodes (sb s) \<and>
     dinode_ok (dinode_of s ip j) \<and> i_size x = length bs \<and> dense a V (length bs) \<and> bs = map (cont a V) [0..<length bs])"

definition splice_at :: "'a list \<Rightarrow> nat \<Rightarrow> 'a list \<Rightarrow> 'a list" where
  "splice_at bs off xs = take off bs @ xs @ drop (off + length xs) bs"

lemma nfileD:
  assumes "nfile s V P ip j bs"
  shows "fopen s V P ip j (a_addrs (addrs s j))" "i_file_type (inodes s ip) = Some Inbuiltfs" "i_type (inodes s ip) \<noteq> T_DEV"
    "i_inum (inodes s ip) < sb_ninodes (sb s)" "dinode_ok (dinode_of s ip j)" "i_size (inodes s ip) = length bs"
    "dense (a_addrs (addrs s j)) V (length bs)" "bs = map (cont (a_addrs (addrs s j)) V) [0..<length bs]"
  using assms by (auto simp: nfile_def Let_def)

lemma nfile_nfr:
  fixes s t :: "'z fstate_scheme"
  assumes "nfile s V P ip j bs" "nfr s t" "fopen t V P' ip j (a_addrs (addrs s j))"
  shows "nfile t V P' ip j bs"
proof -
  have "dinode_of t ip j = dinode_of s ip j" using nfr_fields [OF assms(2)] by (simp add: dinode_of_def)
  then show ?thesis using assms(1,3) nfr_fields [OF assms(2)] by (simp add: nfile_def Let_def)
qed

lemma take_drop_map_upt: "off \<le> l \<Longrightarrow> take n (drop off (map f [0..<l])) = map f [off..<off + min n (l - off)]"
  by (cases "n \<le> l - off") (simp_all add: take_map drop_map take_upt)

lemma nfile_size: "nfile s V P ip j bs \<Longrightarrow> length bs < 2147483648"
  using nfileD(7) [of s V P ip j bs] by (simp add: dense_def const_defs)

text \<open>\<open>readi\<close> of a native file returns the bytes asked for, as many as there are.\<close>

lemma readi_ok:
  fixes s :: "'z fstate_scheme"
  assumes nf: "nfile s V P ip j bs" and c: "card P + 1 < NBUF" and n: "off + n < 4294967296"
  shows "wp (readi ip off n) (\<lambda>r t. nfr s t \<and> nfile t V P ip j bs \<and>
     r = (if off \<le> length bs then (int (min n (length bs - off)), take n (drop off bs)) else (-1, []))) s"
proof -
  note d = nfileD [OF nf]
  let ?a = "a_addrs (addrs s j)"
  have u: "u32 (off + n) = off + n" using n by (simp add: u32_def)
  show ?thesis
  proof (cases "off \<le> length bs")
    case False
    then show ?thesis using d nf by (simp add: readi_def wp_def Let_def ret_def ns.fr_refl)
  next
    case True
    define k where "k = min n (length bs - off)"
    have k: "off + k \<le> length bs" "k \<le> n" using True by (auto simp: k_def)
    have ke: "(if off + n > length bs then length bs - off else n) = k" by (auto simp: k_def)
    have "wp (bnd (readi_loop (bmap ip) ip off k) (\<lambda>bs. ret (s32 k, bs))) (\<lambda>r t. nfr s t \<and> nfile t V P ip j bs \<and>
        r = (int k, take n (drop off bs))) s"
    proof (rule wp_bndI [OF readi_loop_ok [OF d(1,7) k(1) c]])
      fix r t assume r: "r = map (cont ?a V) [off..<off + k] \<and> nfr s t \<and> fopen t V P ip j ?a"
      have "take n (drop off bs) = map (cont ?a V) [off..<off + k]"
        by (subst d(8)) (simp only: take_drop_map_upt [OF True] k_def)
      moreover have "s32 k = int k" using k nfile_size [OF nf] by (simp add: s32_def)
      ultimately show "wp (ret (s32 k, r)) (\<lambda>r t. nfr s t \<and> nfile t V P ip j bs \<and> r = (int k, take n (drop off bs))) t"
        using r nfile_nfr [OF nf, of t] by (simp add: wp_ret)
    qed
    moreover have "readi ip off n s = bnd (readi_loop (bmap ip) ip off k) (\<lambda>bs. ret (s32 k, bs)) s"
      using d(3,6) True u ke by (auto simp: readi_def Let_def split: if_splits)
    ultimately show ?thesis using True by (simp add: wp_def k_def)
  qed
qed

text \<open>What a write to file \<open>ip\<close> leaves alone: other inodes, their address arrays, blocks in use that are
  not the file's, and the other inodes on disk.\<close>

definition file_frame :: "'z fstate_scheme \<Rightarrow> contents \<Rightarrow> nat \<Rightarrow> nat \<Rightarrow> 'z fstate_scheme \<Rightarrow> contents \<Rightarrow> bool" where
  "file_frame s V ip j t V' \<longleftrightarrow> sb t = sb s \<and> (\<forall>k. k \<noteq> ip \<longrightarrow> inodes t k = inodes s k) \<and> (\<forall>k. k \<noteq> j \<longrightarrow> addrs t k = addrs s k) \<and>
     (\<forall>n. used (sb s) V n \<longrightarrow> used (sb s) V' n \<and> (n \<notin> fblocks (a_addrs (addrs s j)) V \<longrightarrow> V' n = V n)) \<and>
     (\<forall>m < sb_ninodes (sb s). m \<noteq> i_inum (inodes s ip) \<longrightarrow> disk_inode (sb s) V' m = disk_inode (sb s) V m)"

lemma fopen_size [simp]: "fopen (seti ip (i_size_update f) t) V P ip j a = fopen t V P ip j a"
proof -
  have "inodes (seti ip (i_size_update f) t) ip = i_size_update f (inodes t ip)" "sb (seti ip (i_size_update f) t) = sb t"
    "addrs (seti ip (i_size_update f) t) = addrs t" by (simp_all add: seti_def)
  then show ?thesis by (simp add: fopen_def)
qed

lemma fopen_addr_less:
  assumes "fopen t V P ip j a" "i \<le> NDIRECT" shows "a i < 4294967296"
proof (cases "a i = 0")
  case False
  note d = fopenD [OF assms(1)]
  have "used (sb t) V (a i)"
  proof (cases "i = NDIRECT")
    case True
    then show ?thesis using finvD(1) [OF d(7)] False by simp
  next
    case ne: False
    then have i: "i < NDIRECT" using assms(2) by simp
    then have "fblk a V i = a i" by (simp add: fblk_def)
    moreover have "i < MAXFILE" using i by (simp add: const_defs)
    ultimately show ?thesis using finvD(2) [OF d(7), of i] False by simp
  qed
  then have "a i < FSSIZE" using geomD(3) [OF d(2)] by (simp add: used_def)
  then show ?thesis by (simp add: const_defs)
qed simp

lemma splice_map:
  assumes "off \<le> l" "\<And>i. i < max l (off + n) \<Longrightarrow> f' i = (if off \<le> i \<and> i < off + n then src (i - off) else f i)"
  shows "splice_at (map f [0..<l]) off (bytes src 0 n) = map f' [0..<max l (off + n)]"
proof (rule nth_equalityI)
  show "length (splice_at (map f [0..<l]) off (bytes src 0 n)) = length (map f' [0..<max l (off + n)])"
    using assms(1) by (simp add: splice_at_def)
  fix i assume "i < length (splice_at (map f [0..<l]) off (bytes src 0 n))"
  then have i: "i < max l (off + n)" using assms(1) by (simp add: splice_at_def)
  show "splice_at (map f [0..<l]) off (bytes src 0 n) ! i = map f' [0..<max l (off + n)] ! i"
    using i assms by (auto simp: splice_at_def nth_append)
qed

lemma length_splice: "off \<le> length bs \<Longrightarrow> length (splice_at bs off (bytes src 0 n)) = max (length bs) (off + n)"
  by (simp add: splice_at_def)

text \<open>The state after the loop of \<open>writei\<close>, and after the size is stored.\<close>

lemma wrote_frame:
  fixes s t :: "'z fstate_scheme"
  assumes "wrote s V ip j (a_addrs (addrs s j)) d F t V' P' a'"
  shows "file_frame s V ip j t V'" "inodes t = inodes s" "a_addrs (addrs t j) = a'" "sb t = sb s" "fopen t V' P' ip j a'"
proof -
  note nf = nfr_fields [of "set_addrs j a' s" t]
  have w: "after_addrs j a' s t" "fopen t V' P' ip j a'" using assms by (simp_all add: wrote_def)
  note f = nf [OF w(1)]
  show "inodes t = inodes s" "a_addrs (addrs t j) = a'" "sb t = sb s" "fopen t V' P' ip j a'" using f w(2) fopenD(6) by simp_all
  have sbs: "geom_ok (sb s)" using fopenD(2) [OF w(2)] f(1) by simp
  have b: "\<forall>n < sb_bmapstart (sb s). V' n = V n" using assms by (simp add: wrote_def)
  have "disk_inode (sb s) V' m = disk_inode (sb s) V m" if "m < sb_ninodes (sb s)" for m
    using IBLOCK_geom(2) [OF sbs that] b by (simp add: disk_inode_def)
  then show "file_frame s V ip j t V'" using assms f by (simp add: file_frame_def wrote_def set_addrs_def)
qed

lemma wrote_nfile:
  fixes s t :: "'z fstate_scheme"
  assumes nf: "nfile s V P ip j bs" and o: "off \<le> length bs" "off + n \<le> MAXFILE * BSIZE"
    and w: "wrote s V ip j (a_addrs (addrs s j)) d (\<lambda>i. if off \<le> i \<and> i < off + n then src (i - off) else cont (a_addrs (addrs s j)) V i) t V' P' a'"
    and nz: "\<And>i. off \<le> i \<Longrightarrow> i < off + n \<Longrightarrow> fblk a' V' (i div BSIZE) \<noteq> 0"
    and x: "x = seti ip (i_size_update (\<lambda>_. max (length bs) (off + n))) t"
  shows "nfile x V' P' ip j (splice_at bs off (bytes src 0 n))"
proof -
  note d = nfileD [OF nf] and fr = wrote_frame [OF w]
  let ?a = "a_addrs (addrs s j)" and ?l = "max (length bs) (off + n)"
  have le: "?l \<le> MAXFILE * BSIZE" using o d(7) by (simp add: dense_def)
  have xs: "addrs x = addrs t" "sb x = sb s" "inodes x ip = (inodes s ip)\<lparr>i_size := ?l\<rparr>" using x fr by (simp_all add: seti_def)
  have fx: "fopen x V' P' ip j a'" using x fr(5) by simp
  have c: "cont a' V' i = (if off \<le> i \<and> i < off + n then src (i - off) else cont ?a V i)" if "i < ?l" for i
    using w less_le_trans [OF that le] unfolding wrote_def by blast
  have "fblk a' V' (i div BSIZE) \<noteq> 0" if i: "i < ?l" for i
  proof (cases "off \<le> i \<and> i < off + n")
    case False
    then have "i < length bs" using i o by auto
    moreover have "i div BSIZE < MAXFILE" using less_le_trans [OF i le] by (rule less_mult_imp_div_less)
    ultimately show ?thesis using w d(7) by (simp add: wrote_def dense_def)
  qed (use nz in blast)
  then have dn: "dense a' V' ?l" using le by (simp add: dense_def)
  have "a' i < 4294967296" for i
    using fopen_addr_less [OF fx, of i] d(5) w by (cases "i \<le> NDIRECT") (auto simp: wrote_def dinode_ok_def dinode_of_def Let_def)
  then have dk: "dinode_ok (dinode_of x ip j)"
    using d(5) w le xs fr(3) by (auto simp: dinode_ok_def dinode_of_def wrote_def Let_def const_defs)
  have sp: "splice_at bs off (bytes src 0 n) = map (cont a' V') [0..<?l]"
    by (subst d(8)) (rule splice_map [OF o(1) c])
  then show ?thesis using d fx xs fr(3) dk dn by (simp add: nfile_def Let_def)
qed

lemma size_frame:
  fixes s t x u :: "'z fstate_scheme"
  assumes fr: "file_frame s V ip j t V'" and x: "x = seti ip (i_size_update f) t" and u: "nfr x u" "sb t = sb s"
    and i: "geom_ok (sb s)" "i_inum (inodes s ip) < sb_ninodes (sb s)" "dinode_ok di"
    and W: "W = put_inode (sb s) (i_inum (inodes s ip)) di V'"
  shows "file_frame s V ip j u W"
proof -
  have us: "sb u = sb s" "\<And>k. k \<noteq> ip \<Longrightarrow> inodes u k = inodes t k" "addrs u = addrs t"
    using nfr_fields [OF u(1)] u(2) x by (simp_all add: seti_def)
  have "used (sb s) W n = used (sb s) V' n" for n
    unfolding W put_inode_def by (rule meta_write(1) [OF i(1) IBLOCK_geom(2) [OF i(1,2)]])
  moreover have "W n = V' n" if "used (sb s) V n" for n
    using that IBLOCK_geom(2) [OF i(1,2)] by (auto simp: W put_inode_def used_def dblock_def)
  moreover have "disk_inode (sb s) W m = disk_inode (sb s) V' m" if "m < sb_ninodes (sb s)" "m \<noteq> i_inum (inodes s ip)" for m
    using disk_put_inode [OF i(1,2) that(1) i(3)] that(2) W by simp
  ultimately show ?thesis using fr us unfolding file_frame_def by simp
qed

lemma seti_size_id: "i_size (inodes t ip) = n \<Longrightarrow> seti ip (i_size_update (\<lambda>_. n)) t = t"
  by (cases t) (auto simp: seti_def)

lemma nfile_meta:
  fixes x u :: "'z fstate_scheme"
  assumes nx: "nfile x V P ip j bs" and u: "nfr x u" "fopen u W P' ip j (a_addrs (addrs x j))"
    and W: "W = V(n := d)" "n < sb_bmapstart (sb x)"
  shows "nfile u W P' ip j bs"
proof -
  note d = nfileD [OF nx] and fo = fopenD [OF nfileD(1) [OF nx]] and nf = nfr_fields [OF u(1)]
  let ?a = "a_addrs (addrs x j)"
  have "dense ?a W (length bs)" using d(7) meta_write(4) [OF fo(2) W(2) fo(7)] by (simp add: dense_def W(1))
  moreover have "map (cont ?a W) [0..<length bs] = map (cont ?a V) [0..<length bs]"
    using d(7) meta_write(6) [OF fo(2) W(2) fo(7)] by (simp add: dense_def W(1))
  moreover have "dinode_of u ip j = dinode_of x ip j" using nf by (simp add: dinode_of_def)
  ultimately show ?thesis using d u(2) nf by (simp add: nfile_def Let_def)
qed

text \<open>\<open>writei\<close> within the maximal size replaces the bytes, extending the file where needed, stores a
  changed size on disk, and leaves other files alone.\<close>

definition written :: "'z fstate_scheme \<Rightarrow> contents \<Rightarrow> pins \<Rightarrow> nat \<Rightarrow> nat \<Rightarrow> byte list \<Rightarrow> nat \<Rightarrow> block \<Rightarrow> nat \<Rightarrow> 'z fstate_scheme \<Rightarrow> bool" where
  "written s V P ip j bs off src n t \<longleftrightarrow> (\<exists>V' P'. nfile t V' P' ip j (splice_at bs off (bytes src 0 n)) \<and>
     file_frame s V ip j t V' \<and> card P' \<le> card P + 4 * nblk off n + 1 \<and>
     (length bs < off + n \<longrightarrow> disk_inode (sb s) V' (i_inum (inodes s ip)) = dinode_of t ip j))"

lemma writei_size:
  fixes s t :: "'z fstate_scheme"
  assumes nf: "nfile s V P ip j bs" and fr: "file_frame s V ip j t V'" "inodes t = inodes s" "sb t = sb s"
    and x: "x = seti ip (\<lambda>x. x\<lparr>i_size := off + n\<rparr>) t" and nx: "nfile x V' P' ip j (splice_at bs off (bytes src 0 n))"
    and c: "card P' \<le> card P + 4 * nblk off n" "card P + 4 * nblk off n + 1 < LOGSIZE - 1"
  shows "wp (iops_iupdate ip) (\<lambda>_. written s V P ip j bs off src n) x"
proof -
  note d = nfileD [OF nf] and dx = nfileD [OF nx]
  let ?i = "i_inum (inodes s ip)"
  have xi: "i_inum (inodes x ip) = ?i" "sb x = sb s" using fr(2,3) x by (simp_all add: seti_def)
  let ?W = "put_inode (sb s) ?i (dinode_of x ip j) V'" and ?P = "insert (ROOTDEV, IBLOCK ?i (sb s)) P'"
  have g: "geom_ok (sb s)" using fopenD(2) [OF d(1)] .
  have "wp (iupdate ip) (\<lambda>_ u. nfr x u \<and> fopen u ?W ?P ip j (a_addrs (addrs x j))) x"
    by (rule iupdate_ok [OF dx(1)]) (use dx(4) xi c in simp_all)
  then have "wp (iupdate ip) (\<lambda>_. written s V P ip j bs off src n) x"
  proof (rule wp_mono)
    fix r u assume u: "nfr x u \<and> fopen u ?W ?P ip j (a_addrs (addrs x j))"
    have "nfile u ?W ?P ip j (splice_at bs off (bytes src 0 n))"
      by (rule nfile_meta [OF nx]) (use u xi IBLOCK_geom(2) [OF g d(4)] in \<open>auto simp: put_inode_def\<close>)
    moreover have "file_frame s V ip j u ?W"
      by (rule size_frame [OF fr(1) x _ fr(3) g d(4) dx(5) refl]) (use u in simp)
    moreover have "disk_inode (sb s) ?W ?i = dinode_of u ip j"
      using disk_put_inode [OF g d(4,4) dx(5)] nfr_fields [OF conjunct1 [OF u]] by (simp add: dinode_of_def)
    moreover have "card ?P \<le> card P + 4 * nblk off n + 1"
      using card_insert_Suc [of "(ROOTDEV, IBLOCK ?i (sb s))" P'] c by simp
    ultimately show "written s V P ip j bs off src n u" unfolding written_def by blast
  qed
  then show ?thesis using dx(2) by (simp add: wp_def iops_iupdate_def iops_def)
qed

lemma writei_ok:
  fixes s :: "'z fstate_scheme"
  assumes nf: "nfile s V P ip j bs" and o: "off \<le> length bs" "off + n \<le> MAXFILE * BSIZE"
    and fb: "2 * nblk off n \<le> card (free_blocks (sb s) V)" and c: "card P + 4 * nblk off n + 1 < LOGSIZE - 1"
  shows "wp (writei ip src off n) (\<lambda>r t. r = int n \<and> written s V P ip j bs off src n t) s" (is "wp _ ?Q s")
proof -
  note d = nfileD [OF nf]
  let ?a = "a_addrs (addrs s j)" and ?F = "\<lambda>i. if off \<le> i \<and> i < off + n then src (i - off) else cont (a_addrs (addrs s j)) V i"
  let ?K = "\<lambda>s. if n > 0 \<and> off + n > i_size (inodes s ip) then
       bnd (upd (seti ip (\<lambda>x. x\<lparr>i_size := off + n\<rparr>))) (\<lambda>_. iops_iupdate ip) s else Inr ((), s)"
  have lt: "off + n < 2147483648" using o(2) by (simp add: const_defs)
  have "wp (bnd (writei_loop (bmap ip) log_write ip src 0 off n) (\<lambda>_. bnd ?K (\<lambda>_. ret (s32 n)))) ?Q s"
  proof (rule wp_bndI [OF writei_loop_ok [OF d(1) o(2) fb, where tot = 0, unfolded add_0]])
    show "card P + 4 * nblk off n < LOGSIZE - 1" using c by simp
    fix r :: unit and t
    assume "\<exists>V' P' a'. wrote s V ip j ?a (2 * nblk off n) ?F t V' P' a'
        \<and> (\<forall>i. off \<le> i \<and> i < off + n \<longrightarrow> fblk a' V' (i div BSIZE) \<noteq> 0) \<and> card P' \<le> card P + 4 * nblk off n"
    then obtain V' P' a' where w: "wrote s V ip j ?a (2 * nblk off n) ?F t V' P' a'"
      and nz: "\<And>i. off \<le> i \<Longrightarrow> i < off + n \<Longrightarrow> fblk a' V' (i div BSIZE) \<noteq> 0" and cP: "card P' \<le> card P + 4 * nblk off n" by blast
    note fr = wrote_frame [OF w] and nx = wrote_nfile [OF nf o w nz refl]
    show "wp (bnd ?K (\<lambda>_. ret (s32 n))) ?Q t"
    proof (cases "length bs < off + n")
      case False
      have "seti ip (i_size_update (\<lambda>_. max (length bs) (off + n))) t = t"
        using False seti_size_id [of t ip "length bs"] fr(2) d(6) by (simp add: max_def)
      then have "written s V P ip j bs off src n t"
        using False fr(1) nx le_SucI [OF cP] unfolding written_def by auto
      then show ?thesis using False fr(2) d(6) lt by (simp add: wp_def bnd_def ret_def s32_def)
    next
      case True
      have "nfile (seti ip (\<lambda>x. x\<lparr>i_size := off + n\<rparr>) t) V' P' ip j (splice_at bs off (bytes src 0 n))" using nx True by (simp add: max_def)
      from writei_size [OF nf fr(1,2,4) refl this cP c] show ?thesis
        using True fr(2) d(6) lt o(1) by (auto simp: wp_def bnd_def ret_def upd_def s32_def split: sum.splits)
    qed
  qed
  moreover have "writei ip src off n s = bnd (writei_loop (bmap ip) log_write ip src 0 off n) (\<lambda>_. bnd ?K (\<lambda>_. ret (s32 n))) s"
    using d(3,6) o lt by (simp add: writei_def Let_def u32_def)
  ultimately show ?thesis by (simp add: wp_def)
qed

text \<open>Another file with blocks of its own is as it was.\<close>

definition apart :: "'z fstate_scheme \<Rightarrow> contents \<Rightarrow> nat \<Rightarrow> nat \<Rightarrow> bool" where
  "apart s V j k \<longleftrightarrow> j \<noteq> k \<and> fblocks (a_addrs (addrs s j)) V \<inter> fblocks (a_addrs (addrs s k)) V \<subseteq> {0}"

lemma nfile_frame:
  fixes s t :: "'z fstate_scheme"
  assumes fr: "file_frame s V ip j t V'" and t: "nfile t V' P' ip j cs"
    and o: "nfile s V P iq k bs" "iq \<noteq> ip" "apart s V j k"
  shows "nfile t V' P' iq k bs"
proof -
  note d = nfileD [OF o(1)] and fo = fopenD [OF nfileD(1) [OF o(1)]] and ft = fopenD [OF nfileD(1) [OF t]]
  let ?a = "a_addrs (addrs s k)"
  have e: "sb t = sb s" "inodes t iq = inodes s iq" "addrs t k = addrs s k"
    using fr o(2,3) by (auto simp: file_frame_def apart_def)
  have u: "used (sb s) V n \<Longrightarrow> used (sb s) V' n" for n using fr by (simp add: file_frame_def)
  have "V' n = V n" if "n \<in> fblocks ?a V" "n \<noteq> 0" for n
    using fr that o(3) fblocks_used [OF fo(7) that] by (auto simp: file_frame_def apart_def)
  note c = file_cong [OF fo(7) u this]
  have "fopen t V' P' iq k ?a" using ft fo e c(3) by (simp add: fopen_def)
  moreover have "dinode_of t iq k = dinode_of s iq k" using e by (simp add: dinode_of_def)
  moreover have "dense ?a V' (length bs)" using d(7) c(1) by (simp add: dense_def)
  moreover have "map (cont ?a V') [0..<length bs] = map (cont ?a V) [0..<length bs]" using d(7) c(2) by (simp add: dense_def)
  ultimately show ?thesis using d e by (simp add: nfile_def Let_def)
qed

end
