(* ===== verification/ICache.thy ===== *)
theory ICache
  imports FsInode
begin

section \<open>The inode cache (icache.h, iget)\<close>

text \<open>
  The invariant of the inode cache and of the two tables of addresses: an inode is cached at most
  once, every cached inode owns a busy entry of the table of its file system, no two own the same,
  and no busy entry is without an owner. So \<open>iget\<close> finds an address entry whenever it finds a slot.
\<close>

abbreviation live :: "'z fstate_scheme \<Rightarrow> nat \<Rightarrow> bool" where
  "live s i \<equiv> 0 < i_ref (inodes s i)"

definition ident :: "'z fstate_scheme \<Rightarrow> nat \<Rightarrow> nat \<times> nat" where
  "ident s i = (i_dev (inodes s i), i_inum (inodes s i))"

fun busy_at :: "'z fstate_scheme \<Rightarrow> addrs_ptr \<Rightarrow> bool" where
  "busy_at s ANull = False"
| "busy_at s (AInb j) = (j < NINODE \<and> a_busy (addrs s j))"
| "busy_at s (AExt j) = (j < NINODE \<and> a_busy (ext2_addrs s j))"

fun native_ptr :: "addrs_ptr \<Rightarrow> bool" where
  "native_ptr (AInb j) = True"
| "native_ptr p = False"

definition icinv :: "'z fstate_scheme \<Rightarrow> bool" where
  "icinv s \<longleftrightarrow>
     (\<forall>i < NINODE. 0 \<le> i_ref (inodes s i)) \<and>
     (\<forall>i < NINODE. \<forall>k < NINODE. live s i \<longrightarrow> live s k \<longrightarrow> ident s i = ident s k \<longrightarrow> i = k) \<and>
     (\<forall>i < NINODE. live s i \<longrightarrow> busy_at s (i_addrs (inodes s i)) \<and>
        (native_ptr (i_addrs (inodes s i)) \<longleftrightarrow> i_dev (inodes s i) = ROOTDEV)) \<and>
     (\<forall>i < NINODE. \<forall>k < NINODE. live s i \<longrightarrow> live s k \<longrightarrow> i_addrs (inodes s i) = i_addrs (inodes s k) \<longrightarrow> i = k) \<and>
     (\<forall>p. busy_at s p \<longrightarrow> (\<exists>i < NINODE. live s i \<and> i_addrs (inodes s i) = p))"

lemma icinvD:
  assumes "icinv s"
  shows "i < NINODE \<Longrightarrow> 0 \<le> i_ref (inodes s i)"
    "i < NINODE \<Longrightarrow> k < NINODE \<Longrightarrow> live s i \<Longrightarrow> live s k \<Longrightarrow> ident s i = ident s k \<Longrightarrow> i = k"
    "i < NINODE \<Longrightarrow> live s i \<Longrightarrow> busy_at s (i_addrs (inodes s i))"
    "i < NINODE \<Longrightarrow> live s i \<Longrightarrow> native_ptr (i_addrs (inodes s i)) \<longleftrightarrow> i_dev (inodes s i) = ROOTDEV"
    "i < NINODE \<Longrightarrow> k < NINODE \<Longrightarrow> live s i \<Longrightarrow> live s k \<Longrightarrow> i_addrs (inodes s i) = i_addrs (inodes s k) \<Longrightarrow> i = k"
    "busy_at s p \<Longrightarrow> \<exists>i < NINODE. live s i \<and> i_addrs (inodes s i) = p"
  using assms by (auto simp: icinv_def)

lemma find_upt: "find f [0..<n] = Some i \<Longrightarrow> i < n \<and> f i" "find f [0..<n] = None \<longleftrightarrow> (\<forall>i < n. \<not> f i)"
  by (auto simp: find_Some_iff find_None_iff)

text \<open>With a free slot there is a free entry in each table of addresses.\<close>

lemma free_addrs:
  assumes s: "icinv s" and i: "i < NINODE" "\<not> live s i" and inj: "\<And>j k. g j = g k \<Longrightarrow> j = k"
  shows "\<exists>j < NINODE. \<not> busy_at s (g j)"
proof (rule ccontr)
  assume "\<not> ?thesis"
  then have "\<forall>j < NINODE. \<exists>k < NINODE. live s k \<and> i_addrs (inodes s k) = g j" using icinvD(6) [OF s] by blast
  then obtain f where f: "\<And>j. j < NINODE \<Longrightarrow> f j < NINODE \<and> live s (f j) \<and> i_addrs (inodes s (f j)) = g j" by metis
  have "inj_on f {..<NINODE}" using f inj unfolding inj_on_def by (metis lessThan_iff)
  moreover have "f ` {..<NINODE} \<subseteq> {..<NINODE} - {i}" using f i(2) by auto
  ultimately have "card {..<NINODE} \<le> card ({..<NINODE} - {i})" by (metis card_inj_on_le finite_Diff finite_lessThan)
  then show False using i(1) by simp
qed

text \<open>The slot that \<open>iget\<close> fills.\<close>

definition fresh_inode :: "nat \<Rightarrow> nat \<Rightarrow> addrs_ptr \<Rightarrow> inode \<Rightarrow> inode" where
  "fresh_inode dev inum p x = x\<lparr>i_dev := dev, i_inum := inum, i_ref := 1, i_valid := False,
     i_file_type := Some (if dev = ROOTDEV then Inbuiltfs else Ext2fs), i_addrs := p\<rparr>"

definition fresh_slot :: "'z fstate_scheme \<Rightarrow> nat \<Rightarrow> nat \<Rightarrow> nat \<Rightarrow> addrs_ptr \<Rightarrow> 'z fstate_scheme \<Rightarrow> bool" where
  "fresh_slot s dev inum ip p t \<longleftrightarrow> inodes t = (inodes s)(ip := fresh_inode dev inum p (inodes s ip)) \<and>
     \<not> busy_at s p \<and> native_ptr p = (dev = ROOTDEV) \<and> (\<forall>q. busy_at t q \<longleftrightarrow> q = p \<or> busy_at s q)"

lemma fresh_icinv:
  assumes s: "icinv s" and i: "ip < NINODE" "\<not> live s ip" and no: "\<And>i. i < NINODE \<Longrightarrow> live s i \<Longrightarrow> ident s i \<noteq> (dev, inum)"
    and t: "fresh_slot s dev inum ip p t"
  shows "icinv t"
proof -
  note f = t [unfolded fresh_slot_def]
  have it: "inodes t k = (if k = ip then fresh_inode dev inum p (inodes s ip) else inodes s k)" for k using f by simp
  have fb: "busy_at t q \<longleftrightarrow> q = p \<or> busy_at s q" "\<not> busy_at s p" "native_ptr p \<longleftrightarrow> dev = ROOTDEV" for q using f by blast+
  have fi: "i_ref (fresh_inode dev inum p x) = 1" "i_dev (fresh_inode dev inum p x) = dev" "i_inum (fresh_inode dev inum p x) = inum"
    "i_addrs (fresh_inode dev inum p x) = p" for x by (simp_all add: fresh_inode_def)
  have np: "k < NINODE \<Longrightarrow> live s k \<Longrightarrow> i_addrs (inodes s k) \<noteq> p" for k using icinvD(3) [OF s, of k] fb(2) by metis
  have own: "\<exists>i < NINODE. live t i \<and> i_addrs (inodes t i) = q" if "busy_at t q" for q
  proof (cases "q = p")
    case True
    then show ?thesis using i(1) by (intro exI [of _ ip]) (simp add: it fi)
  next
    case False
    then have "busy_at s q" using fb(1) that by blast
    then obtain k where "k < NINODE" "live s k" "i_addrs (inodes s k) = q" using icinvD(6) [OF s] by blast
    then show ?thesis using i(2) by (intro exI [of _ k]) (auto simp: it)
  qed
  have id: "ident t k = (if k = ip then (dev, inum) else ident s k)" for k by (simp add: ident_def it fi)
  have ad: "i_addrs (inodes t k) = (if k = ip then p else i_addrs (inodes s k))" for k by (simp add: it fi)
  have lv: "live t k \<longleftrightarrow> k = ip \<or> live s k" for k by (simp add: it fi)
  have a: "0 \<le> i_ref (inodes t k)" if "k < NINODE" for k using icinvD(1) [OF s that] by (simp add: it fi)
  have b: "k = l" if "k < NINODE" "l < NINODE" "live t k" "live t l" "ident t k = ident t l" for k l
    using that no [of k] no [of l] icinvD(2) [OF s, of k l] by (cases "k = ip"; cases "l = ip") (simp_all add: id lv)
  have c: "busy_at t (i_addrs (inodes t k)) \<and> (native_ptr (i_addrs (inodes t k)) \<longleftrightarrow> i_dev (inodes t k) = ROOTDEV)"
    if "k < NINODE" "live t k" for k
  proof (cases "k = ip")
    case False
    then show ?thesis using that icinvD(3,4) [OF s, of k] by (simp add: it fb(1))
  qed (simp add: it fi fb)
  have d: "k = l" if "k < NINODE" "l < NINODE" "live t k" "live t l" "i_addrs (inodes t k) = i_addrs (inodes t l)" for k l
    using that np [of k] np [of l] icinvD(5) [OF s, of k l] by (cases "k = ip"; cases "l = ip") (simp_all add: ad lv)
  show ?thesis unfolding icinv_def
    by (intro conjI allI impI)
      (erule a | erule (1) c [THEN conjunct1] | erule (1) c [THEN conjunct2] | erule (4) b | erule (4) d | erule own)+
qed

text \<open>\<open>iget\<close>, when the inode is cached or a slot is free: the one slot of that inode, with one reference
  more.\<close>

lemma iget_cached:
  assumes s: "icinv s" and k: "k < NINODE" "live s k" "ident s k = (dev, inum)"
  shows "iget dev inum s = Inr (k, seti k (\<lambda>x. x\<lparr>i_ref := i_ref x + 1\<rparr>) s)"
    and "icinv (seti k (\<lambda>x. x\<lparr>i_ref := i_ref x + 1\<rparr>) s)"
proof -
  let ?f = "\<lambda>i. i_ref (inodes s i) > 0 \<and> i_dev (inodes s i) = dev \<and> i_inum (inodes s i) = inum"
  have "find ?f [0..<NINODE] \<noteq> None" using k by (auto simp: find_upt(2) ident_def)
  then obtain i where i: "find ?f [0..<NINODE] = Some i" by blast
  then have "i = k" using find_upt(1) [OF i] icinvD(2) [OF s _ k(1) _ k(2)] k(3) by (auto simp: ident_def)
  then show "iget dev inum s = Inr (k, seti k (\<lambda>x. x\<lparr>i_ref := i_ref x + 1\<rparr>) s)" using i by (simp add: iget_def)
  let ?t = "seti k (\<lambda>x. x\<lparr>i_ref := i_ref x + 1\<rparr>) s"
  have it: "i_ref (inodes ?t l) = (if l = k then i_ref (inodes s l) + 1 else i_ref (inodes s l))" "i_addrs (inodes ?t l) = i_addrs (inodes s l)"
    "i_dev (inodes ?t l) = i_dev (inodes s l)" "ident ?t l = ident s l" for l by (simp_all add: seti_def ident_def)
  have lv: "live ?t l \<longleftrightarrow> live s l" for l using k(2) by (simp add: it)
  have bt: "busy_at ?t q = busy_at s q" for q by (cases q) (simp_all add: seti_def)
  have "0 \<le> i_ref (inodes ?t l)" if "l < NINODE" for l using icinvD(1) [OF s that] by (auto simp: it)
  then show "icinv ?t" using icinvD(2-6) [OF s] unfolding icinv_def lv bt it(2-4) by blast
qed

lemma iget_fresh:
  assumes s: "icinv s" and no: "\<And>i. i < NINODE \<Longrightarrow> live s i \<Longrightarrow> ident s i \<noteq> (dev, inum)" and e: "\<exists>i < NINODE. \<not> live s i"
  shows "\<exists>ip p t. iget dev inum s = Inr (ip, t) \<and> ip < NINODE \<and> \<not> live s ip \<and> fresh_slot s dev inum ip p t \<and> nsame s t"
proof -
  let ?f = "\<lambda>i. i_ref (inodes s i) > 0 \<and> i_dev (inodes s i) = dev \<and> i_inum (inodes s i) = inum"
  have f: "find ?f [0..<NINODE] = None" using no by (auto simp: find_upt(2) ident_def)
  have "find (\<lambda>i. i_ref (inodes s i) = 0) [0..<NINODE] \<noteq> None"
    unfolding find_upt(2) using e icinvD(1) [OF s] by (metis order_le_less)
  then obtain ip where ip: "find (\<lambda>i. i_ref (inodes s i) = 0) [0..<NINODE] = Some ip" by blast
  note i = find_upt(1) [OF ip]
  show ?thesis
  proof (cases "dev = ROOTDEV")
    case True
    have "\<exists>j < NINODE. \<not> busy_at s (AInb j)" using free_addrs [OF s, of ip AInb] i by auto
    then have "find (\<lambda>j. \<not> a_busy (addrs s j)) [0..<NINODE] \<noteq> None" by (auto simp: find_upt(2))
    then obtain j where j: "find (\<lambda>j. \<not> a_busy (addrs s j)) [0..<NINODE] = Some j" by blast
    let ?t = "seti ip (\<lambda>x. x\<lparr>i_dev := dev, i_inum := inum, i_ref := 1, i_valid := False, i_file_type := Some Inbuiltfs, i_addrs := AInb j\<rparr>)
        (s\<lparr>addrs := (addrs s)(j := (addrs s j)\<lparr>a_busy := True\<rparr>)\<rparr>)"
    have "busy_at ?t q \<longleftrightarrow> q = AInb j \<or> busy_at s q" for q using find_upt(1) [OF j] by (cases q) (auto simp: seti_def)
    then have "fresh_slot s dev inum ip (AInb j) ?t"
      using find_upt(1) [OF j] True by (simp add: fresh_slot_def fresh_inode_def seti_def)
    moreover have "nsame s ?t" by (simp add: nsame_def bsame_def seti_def)
    ultimately show ?thesis using f ip j i True by (simp add: iget_def) blast
  next
    case False
    have "\<exists>j < NINODE. \<not> busy_at s (AExt j)" using free_addrs [OF s, of ip AExt] i by auto
    then have "find (\<lambda>j. \<not> a_busy (ext2_addrs s j)) [0..<NINODE] \<noteq> None" by (auto simp: find_upt(2))
    then obtain j where j: "find (\<lambda>j. \<not> a_busy (ext2_addrs s j)) [0..<NINODE] = Some j" by blast
    let ?t = "seti ip (\<lambda>x. x\<lparr>i_dev := dev, i_inum := inum, i_ref := 1, i_valid := False, i_file_type := Some Ext2fs, i_addrs := AExt j\<rparr>)
        (s\<lparr>ext2_addrs := (ext2_addrs s)(j := (ext2_addrs s j)\<lparr>a_busy := True\<rparr>)\<rparr>)"
    have "busy_at ?t q \<longleftrightarrow> q = AExt j \<or> busy_at s q" for q using find_upt(1) [OF j] by (cases q) (auto simp: seti_def)
    then have "fresh_slot s dev inum ip (AExt j) ?t"
      using find_upt(1) [OF j] False by (simp add: fresh_slot_def fresh_inode_def seti_def)
    moreover have "nsame s ?t" by (simp add: nsame_def bsame_def seti_def)
    ultimately show ?thesis using f ip j i False by (simp add: iget_def) blast
  qed
qed

lemma iget_full:
  assumes "\<And>i. i < NINODE \<Longrightarrow> 0 < i_ref (inodes s i) \<and> ident s i \<noteq> (dev, inum)"
  shows "iget dev inum s = Inl (Panic ''iget: no inodes'')"
proof -
  have "find (\<lambda>i. i_ref (inodes s i) > 0 \<and> i_dev (inodes s i) = dev \<and> i_inum (inodes s i) = inum) [0..<NINODE] = None"
    "find (\<lambda>i. i_ref (inodes s i) = 0) [0..<NINODE] = None"
    unfolding find_upt(2) using assms by (force simp: ident_def)+
  then show ?thesis by (simp add: iget_def)
qed

text \<open>What \<open>iget\<close> leaves alone: block layer, addresses, and all of a cached inode but its count.\<close>

lemma iget_frame:
  assumes "iget dev inum s = Inr (ip, t)"
  shows "nsame s t" "sb t = sb s" "a_addrs (addrs t j) = a_addrs (addrs s j)"
    "live s k \<Longrightarrow> inodes t k = (inodes s k)\<lparr>i_ref := i_ref (inodes t k)\<rparr>"
proof -
  let ?f = "\<lambda>i. i_ref (inodes s i) > 0 \<and> i_dev (inodes s i) = dev \<and> i_inum (inodes s i) = inum"
  have "nsame s t \<and> sb t = sb s \<and> a_addrs (addrs t j) = a_addrs (addrs s j) \<and>
      (live s k \<longrightarrow> inodes t k = (inodes s k)\<lparr>i_ref := i_ref (inodes t k)\<rparr>)"
  proof (cases "find ?f [0..<NINODE]")
    case (Some i)
    then show ?thesis using assms by (auto simp: iget_def seti_def nsame_def bsame_def)
  next
    case None
    then obtain i where i: "find (\<lambda>i. i_ref (inodes s i) = 0) [0..<NINODE] = Some i"
      using assms by (auto simp: iget_def split: option.splits)
    then have "\<not> live s i" using find_upt(1) [OF i] by simp
    then show ?thesis using assms None i
      by (auto simp: iget_def seti_def nsame_def bsame_def split: option.splits if_splits)
  qed
  then show "nsame s t" "sb t = sb s" "a_addrs (addrs t j) = a_addrs (addrs s j)"
    "live s k \<Longrightarrow> inodes t k = (inodes s k)\<lparr>i_ref := i_ref (inodes t k)\<rparr>" by blast+
qed

lemma nfile_same:
  fixes s t :: "'z fstate_scheme"
  assumes "nfile s V P ip j bs" "nsame s t" "sb t = sb s" "a_addrs (addrs t j) = a_addrs (addrs s j)"
    "inodes t ip = (inodes s ip)\<lparr>i_ref := r\<rparr>"
  shows "nfile t V P ip j bs"
proof -
  have x: "inode.i_dev (inodes t ip) = i_dev (inodes s ip)" "i_addrs (inodes t ip) = i_addrs (inodes s ip)" "i_size (inodes t ip) = i_size (inodes s ip)"
    "i_file_type (inodes t ip) = i_file_type (inodes s ip)" "i_type (inodes t ip) = i_type (inodes s ip)" "i_inum (inodes t ip) = i_inum (inodes s ip)"
    using assms(5) by simp_all
  have "dinode_of t ip j = dinode_of s ip j" using assms(4,5) by (simp add: dinode_of_def Let_def)
  moreover have "fopen t V P ip j (a_addrs (addrs s j))"
    using fopenD [OF nfileD(1) [OF assms(1)]] nrep_nsame [OF assms(2)] assms(3,4) x by (simp add: fopen_def)
  ultimately show ?thesis using nfileD [OF assms(1)] assms(3,4) x by (simp add: nfile_def Let_def)
qed

lemma nfile_iget: "nfile s V P k j bs \<Longrightarrow> live s k \<Longrightarrow> iget dev inum s = Inr (ip, t) \<Longrightarrow> nfile t V P k j bs"
  using nfile_same [OF _ iget_frame(1-4)] by blast

lemma icinv_nfr:
  fixes s t :: "'z fstate_scheme"
  assumes "nfr s t" shows "icinv t = icinv s" "ident t i = ident s i" "live t i = live s i"
proof -
  note f = nfr_fields [OF assms]
  have "busy_at t p = busy_at s p" for p using f by (cases p) simp_all
  then show "icinv t = icinv s" using f by (simp add: icinv_def ident_def)
  show "ident t i = ident s i" "live t i = live s i" using f by (simp_all add: ident_def)
qed

text \<open>The specification of \<open>iget\<close>.\<close>

definition got :: "'z fstate_scheme \<Rightarrow> nat \<Rightarrow> nat \<Rightarrow> nat \<Rightarrow> 'z fstate_scheme \<Rightarrow> bool" where
  "got s dev inum ip t \<longleftrightarrow> icinv t \<and> ip < NINODE \<and> ident t ip = (dev, inum) \<and>
     i_ref (inodes t ip) = i_ref (inodes s ip) + 1 \<and> (\<forall>k. k \<noteq> ip \<longrightarrow> inodes t k = inodes s k)"

lemma iget_got:
  assumes s: "icinv s" and e: "(\<exists>i < NINODE. \<not> live s i) \<or> (\<exists>i < NINODE. live s i \<and> ident s i = (dev, inum))"
  shows "\<exists>ip t. iget dev inum s = Inr (ip, t) \<and> got s dev inum ip t"
proof (cases "\<exists>i < NINODE. live s i \<and> ident s i = (dev, inum)")
  case True
  then obtain k where k: "k < NINODE" "live s k" "ident s k = (dev, inum)" by blast
  then show ?thesis using iget_cached [OF s k] by (auto simp: got_def seti_def ident_def)
next
  case False
  then have e': "\<exists>i < NINODE. \<not> live s i" using e by blast
  from iget_fresh [OF s _ this] False
  obtain ip p t where t: "iget dev inum s = Inr (ip, t)" "ip < NINODE" "\<not> live s ip" "fresh_slot s dev inum ip p t" by blast
  have "icinv t" by (rule fresh_icinv [OF s t(2,3) _ t(4)]) (use False in blast)
  moreover have "i_ref (inodes s ip) = 0" using icinvD(1) [OF s t(2)] t(3) by simp
  ultimately have "got s dev inum ip t" using t(2,4) by (simp add: got_def fresh_slot_def fresh_inode_def ident_def)
  then show ?thesis using t(1) by blast
qed

end
