(* ===== verification/Machine.thy ===== *)
theory Machine
  imports Transactions ICache
begin

section \<open>A concrete machine\<close>

text \<open>
  States just after boot with one operation open, over an image with mkfs's layout: the log at block 2,
  the inodes from block 32, the bitmap in block 39, two small files in blocks 50 and 51 and the root
  directory, which has the names "." and "a", in block 52; all three are in the inode cache. The
  properties are applied to these states and to states reached from them.
\<close>

definition zbuf :: buf where
  "zbuf = \<lparr>b_valid = False, b_dirty = False, b_dev = 0, b_blockno = 0, b_lock = initsleeplock,
     b_refcnt = 0, b_prev = 0, b_next = 0, b_data = (\<lambda>_. 0)\<rparr>"

definition boot_disk :: "(nat \<Rightarrow> block) \<Rightarrow> nat \<Rightarrow> nat \<Rightarrow> block" where
  "boot_disk img p k = (if p = ide_port ROOTDEV \<and> k mod 4 = 0 then img (k div 4) else (\<lambda>_. 0))"

definition boot :: "(nat \<Rightarrow> block) \<Rightarrow> 'z \<Rightarrow> 'z lstate_scheme" where
  "boot img x = binit \<lparr>cur_pid = 1, disk = boot_disk img, dwrites = [], havedisk1 = True, havedisk2 = True, idequeue = [],
     ide_lba = (\<lambda>_. 0), bufs = (\<lambda>_. zbuf), log_start = 2, log_size = 30, outstanding = 1,
     committing = False, log_dev = 1, lh_n = 0, lh_block = (\<lambda>_. 0), \<dots> = x\<rparr>"

lemma boot_quiet: "quiet (boot img x)" "dirty (boot img x) = {}"
  unfolding boot_def by (rule binit_ok; simp add: zeroed_def zbuf_def)+

lemma boot_sel:
  "disk (boot img x) = boot_disk img" "log_start (boot img x) = 2" "log_size (boot img x) = 30" "outstanding (boot img x) = 1"
  "log_dev (boot img x) = 1" "lh_n (boot img x) = 0" "\<not> committing (boot img x)" "dwrites (boot img x) = []" "lstate.more (boot img x) = x"
  by (simp_all add: boot_def binit_def)

lemma boot_dblk: "n < FSSIZE \<Longrightarrow> dblk (boot img x) ROOTDEV n = img n"
  by (simp add: dblk_def boot_sel boot_disk_def ide_sector_def const_defs SECTOR_SIZE_def)

lemma boot_view: "n < FSSIZE \<Longrightarrow> view (boot img x) ROOTDEV n = img n"
  using clean_view [OF boot_quiet(1), of ROOTDEV n img x] boot_quiet(2) [of img x] by (simp add: boot_dblk dkeys_def blk_ok_def)

lemma boot_linv: "img 2 = (\<lambda>_. 0) \<Longrightarrow> linv (boot img x)"
  using boot_quiet [of img x] boot_dblk [of 2 img x]
  by (simp add: linv_def quiet_def log_wf_def logged_def boot_sel dkeys_def const_defs)

lemma boot_nrep: "img 2 = (\<lambda>_. 0) \<Longrightarrow> nrep (boot img x) (view (boot img x) ROOTDEV) Map.empty {}"
  using boot_quiet [of img x] boot_linv [of img x]
  by (simp add: nrep_def boot_sel brep_def quiet_def dkeys_def hrep_def LOGSTART_def const_defs)

subsection \<open>Two files\<close>

definition sb0 :: superblock where
  "sb0 = \<lparr>sb_size = 1000, sb_nblocks = 960, sb_ninodes = 200, sb_nlog = 30, sb_logstart = 2, sb_inodestart = 32, sb_bmapstart = 39\<rparr>"

definition sb_block :: block where
  "sb_block = put_words (\<lambda>i. [1000, 960, 200, 30, 2, 32, 39] ! i) 0 7 (\<lambda>_. 0)"

lemma dec_sb_block: "dec_superblock sb_block = sb0"
proof -
  have w: "rd32 sb_block (0 + 4 * i) = u32 ([1000, 960, 200, 30, 2, 32, 39] ! i)" if "i < 7" for i
    unfolding sb_block_def by (rule rd32_put_words [OF that])
  show ?thesis using w [of 0] w [of 1] w [of 2] w [of 3] w [of 4] w [of 5] w [of 6]
    by (simp add: dec_superblock_def sb0_def u32_def)
qed

definition dir0 :: "byte list" where
  "dir0 = [1, 0, 46, 0, 0, 0, 0, 0, 0, 0, 0, 0, 0, 0, 0, 0, 2, 0, 97, 0, 0, 0, 0, 0, 0, 0, 0, 0, 0, 0, 0, 0]"

definition img0 :: "nat \<Rightarrow> block" where
  "img0 n = (if n = 1 then sb_block else if n = 39 then fold bset [0..<53] (\<lambda>_. 0)
     else if n = 50 then (\<lambda>i. if i < 3 then of_nat (i + 1) else 0) else if n = 51 then (\<lambda>i. if i < 2 then of_nat (i + 4) else 0)
     else if n = 52 then (\<lambda>i. if i < 32 then dir0 ! i else 0) else (\<lambda>_. 0))"

definition file0 :: "int \<Rightarrow> nat \<Rightarrow> nat \<Rightarrow> nat \<Rightarrow> inode" where
  "file0 ty inum j sz = \<lparr>i_dev = ROOTDEV, i_inum = inum, i_ref = 1, i_lock = initsleeplock, i_valid = True, i_type = ty,
     i_major = 0, i_minor = 0, i_nlink = 1, i_size = sz, i_addrs = AInb j, i_file_type = Some Inbuiltfs\<rparr>"

definition adr0 :: "nat \<Rightarrow> adr" where
  "adr0 b = \<lparr>a_busy = (b < 53), a_addrs = (\<lambda>i. if i = 0 then b else 0)\<rparr>"

definition f0 :: fstate where
  "f0 = boot img0 \<lparr>sb = sb0, inodes = (\<lambda>ip. if ip = 0 then file0 T_FILE 2 0 3 else if ip = 1 then file0 T_FILE 3 1 2
       else if ip = 2 then file0 T_DIR 1 2 32 else (file0 0 0 0 0)\<lparr>i_ref := 0, i_valid := False, i_addrs := ANull\<rparr>),
     addrs = (\<lambda>j. adr0 (50 + j)), ext2_addrs = (\<lambda>_. adr0 53), exs = dec_ext2_superblock (\<lambda>_. 0) 0,
     cons = \<lparr>uart = True, uart_out = [], crt = (\<lambda>_. 0), crt_pos = 0, in_buf = (\<lambda>_. 0), in_r = 0, in_w = 0, in_e = 0\<rparr>,
     cur_killed = False, cur_cwd = 0, stack_junk = (\<lambda>_. 0)\<rparr>"

abbreviation "V0 \<equiv> view f0 ROOTDEV"

lemma f0_sel: "sb f0 = sb0" "inodes f0 0 = file0 T_FILE 2 0 3" "inodes f0 1 = file0 T_FILE 3 1 2" "addrs f0 j = adr0 (50 + j)"
  "inodes f0 2 = file0 T_DIR 1 2 32" "2 < i \<Longrightarrow> i_ref (inodes f0 i) = 0" "ext2_addrs f0 j = adr0 53"
  by (simp_all add: f0_def boot_def binit_def)

lemma V0: "n < FSSIZE \<Longrightarrow> V0 n = img0 n"
  unfolding f0_def by (rule boot_view)

lemma tst_img0: "tst (img0 39) n = (n < 53)"
proof -
  have "tst (fold bset xs d) n = (n \<in> set xs \<or> tst d n)" for xs d
    by (induction xs arbitrary: d) (auto simp: tst_bset)
  then show ?thesis by (simp add: img0_def tst_def)
qed

lemma geom0: "geom_ok sb0"
  by (auto simp: geom_ok_def sb0_def LOGSTART_def const_defs)

lemma sb0_sel: "sb_size sb0 = 1000" "sb_bmapstart sb0 = 39" "sb_ninodes sb0 = 200"
  by (simp_all add: sb0_def)

lemma bm0: "bm sb0 = 39" "V0 39 = img0 39"
  by (simp add: bm_def sb0_sel) (rule V0, simp add: const_defs)

lemma nrep0: "nrep f0 V0 Map.empty {}"
  unfolding f0_def by (rule boot_nrep) (simp add: img0_def)

lemma used0: "used sb0 V0 n = (39 < n \<and> n < 53)"
  by (auto simp: used_def dblock_def bm0 tst_img0 sb0_sel)

lemma free0: "free_blocks sb0 V0 = {53..<1000}"
  by (auto simp: free_blocks_def bm0 tst_img0 sb0_sel)

lemma fblk0: "fblk (a_addrs (adr0 b)) V n = (if n = 0 then b else 0)"
  by (simp add: fblk_def adr0_def const_defs)

lemma nfile0:
  assumes ip: "inodes f0 ip = file0 ty i j sz" and ty: "ty = T_FILE \<or> ty = T_DIR" and i: "i < 200" and j: "j < 3"
    and sz: "0 < sz" "sz < 2048" "length bs = sz" and bs: "\<And>k. k < sz \<Longrightarrow> img0 (50 + j) k = bs ! k"
  shows "nfile f0 V0 {} ip j bs"
proof -
  let ?a = "a_addrs (adr0 (50 + j))"
  have fi: "finv sb0 V0 ?a" using j by (auto simp: finv_def fblk0 used0) (auto simp: adr0_def const_defs)
  have bo: "bm_ok sb0 V0" by (auto simp: bm_ok_def dblock_def bm0 tst_img0 sb0_sel)
  have fo: "fopen f0 V0 {} ip j ?a"
    using nrep0 geom0 bo fi ip by (simp add: fopen_def f0_sel file0_def)
  have dk: "dinode_ok (dinode_of f0 ip j)"
    using ip j sz ty by (auto simp: dinode_ok_def dinode_of_def f0_sel adr0_def file0_def const_defs)
  have dn: "dense ?a V0 sz" using sz by (auto simp: dense_def fblk0 const_defs)
  have "cont ?a V0 k = bs ! k" if "k < sz" for k
    using j sz bs that V0 [of "50 + j"] by (simp add: cont_def fblk0 const_defs)
  then have "bs = map (cont ?a V0) [0..<sz]" using sz by (intro nth_equalityI) auto
  then show ?thesis using fo dk dn ip i sz ty by (auto simp: nfile_def Let_def f0_sel file0_def sb0_sel const_defs)
qed

lemma f0_file: "nfile f0 V0 {} 0 0 [1, 2, 3]"
proof (rule nfile0)
  show "inodes f0 0 = file0 T_FILE 2 0 3" by (simp add: f0_sel)
  show "img0 (50 + 0) k = [1, 2, 3] ! k" if "k < 3" for k
    using that by (auto simp: img0_def less_Suc_eq numeral_eq_Suc)
qed simp_all

lemma f0_other: "nfile f0 V0 {} 1 1 [4, 5]"
proof (rule nfile0)
  show "inodes f0 1 = file0 T_FILE 3 1 2" by (rule f0_sel)
  show "img0 (50 + 1) k = [4, 5] ! k" if "k < 2" for k
    using that by (auto simp: img0_def less_Suc_eq numeral_eq_Suc)
qed simp_all

lemma f0_dir: "nfile f0 V0 {} 2 2 dir0"
proof (rule nfile0)
  show "inodes f0 2 = file0 T_DIR 1 2 32" by (rule f0_sel)
  show "img0 (50 + 2) k = dir0 ! k" if "k < 32" for k
    using that by (simp add: img0_def)
  show "length dir0 = 32" by (simp add: dir0_def)
qed simp_all

lemma f0_icinv: "icinv f0"
proof -
  have r: "i_ref (inodes f0 i) = (if i < 3 then 1 else 0)" for i
    using f0_sel(2,3,5) f0_sel(6) [of i] by (auto simp: file0_def less_Suc_eq numeral_3_eq_3 numeral_2_eq_2)
  have x: "i < 3 \<Longrightarrow> i_addrs (inodes f0 i) = AInb i \<and> i_dev (inodes f0 i) = ROOTDEV \<and> i_inum (inodes f0 i) = [2, 3, 1] ! i" for i
    using f0_sel(2,3,5) by (auto simp: file0_def less_Suc_eq numeral_3_eq_3 numeral_2_eq_2)
  have b: "busy_at f0 p \<longleftrightarrow> (\<exists>i < 3. p = AInb i)" for p
    by (cases p) (auto simp: f0_sel adr0_def const_defs)
  have d: "i < 3 \<Longrightarrow> k < 3 \<Longrightarrow> [2, 3, 1] ! i = ([2, 3, 1] ! k :: nat) \<Longrightarrow> i = k" for i k :: nat
    by (auto simp: less_Suc_eq numeral_3_eq_3)
  show ?thesis unfolding icinv_def ident_def b
  proof (intro conjI allI impI)
    fix p assume "\<exists>i < 3. p = AInb i"
    then show "\<exists>i < NINODE. live f0 i \<and> i_addrs (inodes f0 i) = p" using x r by (auto simp: const_defs)
  qed (use x r d in \<open>auto split: if_splits\<close>)
qed

lemma f0_free_slot: "\<exists>i < NINODE. \<not> live f0 i"
  by (rule exI [of _ 3]) (simp add: f0_sel const_defs)

end
