(* ===== verification/Kmachine.thy ===== *)
theory Kmachine
  imports Machine Proc
begin

section \<open>A concrete kernel state\<close>

text \<open>
  The file system state \<open>f0\<close> with a process table: \<open>init\<close> (pid 1) sleeps in \<open>wait\<close>, its child (pid 2) runs,
  the other entries are unused, and one page of memory is free.
\<close>

definition free_page :: nat where
  "free_page = KERNBASE + 0x400000"

definition proc0 :: "procstate \<Rightarrow> nat \<Rightarrow> nat option \<Rightarrow> chan option \<Rightarrow> proc" where
  "proc0 st pid par ch = \<lparr>p_sz = 4096, p_pgdir = KERNBASE + 0x200000, p_kstack = KERNBASE + 0x300000, p_state = st, p_pid = pid,
     p_parent = par, p_tf = user_tf, p_chan = ch, p_killed = False, p_ofile = (\<lambda>_. None), p_cwd = Some 2, p_name = (\<lambda>_. 0)\<rparr>"

definition procs0 :: "nat \<Rightarrow> proc" where
  "procs0 p = (if p = 0 then proc0 SLEEPING 1 None (Some (ChProc 0)) else if p = 1 then proc0 RUNNING 2 (Some 0) None
     else proc0 UNUSED 0 None None)"

definition k0 :: kstate where
  "k0 = fstate.extend f0 (kstate.fields
     \<lparr>freelist = free_page, use_lock = True, mem = (\<lambda>_. 0), kend = KERNBASE + 0x100000, kdata = KERNBASE + 0x108000\<rparr>
     (\<lambda>_. \<lparr>f_type = FD_NONE, f_ref = 0, f_readable = False, f_writable = False, f_pipe = 0, f_ip = 0, f_off = 0\<rparr>)
     (\<lambda>_. pipe_init (\<lambda>_. 0)) procs0 1 0 3 0 0)"

lemma k0_sel:
  "procs k0 = procs0" "cur k0 = 1" "initproc k0 = 0" "nextpid k0 = 3" "cons k0 = cons f0" "cur_killed k0 = False" "inodes k0 = inodes f0"
  "freelist (km k0) = free_page" "mem (km k0) = (\<lambda>_. 0)"
  by (simp_all add: k0_def fstate.extend_def kstate.fields_def) (simp add: f0_def boot_def binit_def)

lemma k0_con: "con_ok (cons k0)"
  unfolding k0_sel by (simp add: f0_def boot_def binit_def con_ok_def)

end
