(* ===== verification/Trap.thy ===== *)
theory Trap
  imports Exec Kbd Segments Spinlock Kmachine
begin

section \<open>Traps and interrupts (trap.c, procdump of proc.c)\<close>

text \<open>
  The whole of \<open>trap\<close>: system calls, the device interrupts with the drivers they call, and faults. The bytes the
  keyboard and the serial port hold are arguments. Interrupts find a process on the processor exactly
  when the current one is running; otherwise the scheduler was idle.
\<close>

record tstate = kstate +
  kshift :: "32 word"

text \<open>The frame of a trap: its number, error code, code segment and instruction pointer, and the faulting address.\<close>

record trapinfo =
  ti_trapno :: nat
  ti_err :: nat
  ti_cs :: nat
  ti_eip :: nat
  ti_cr2 :: nat

subsection \<open>procdump\<close>

definition state_name :: "procstate \<Rightarrow> string" where
  "state_name st = (case st of UNUSED \<Rightarrow> ''unused'' | EMBRYO \<Rightarrow> ''embryo'' | SLEEPING \<Rightarrow> ''sleep ''
     | RUNNABLE \<Rightarrow> ''runble'' | RUNNING \<Rightarrow> ''run   '' | ZOMBIE \<Rightarrow> ''zombie'')"

fun dump_pcs :: "nat list \<Rightarrow> ('z fstate_scheme, unit) kern" where
  "dump_pcs [] = ret ()"
| "dump_pcs (pc # pcs) = (if pc = 0 then ret () else bnd (kprintf '' %p'' [AWord pc]) (\<lambda>_. dump_pcs pcs))"

text \<open>\<open>ebp p\<close> is the frame pointer saved in the context of a process, \<open>ld\<close> loads a word of a kernel stack.\<close>

fun procdump_loop :: "(nat \<Rightarrow> nat) \<Rightarrow> (nat \<Rightarrow> nat) \<Rightarrow> nat list \<Rightarrow> ('z kstate_scheme, unit) kern" where
  "procdump_loop ld ebp [] = ret ()"
| "procdump_loop ld ebp (i # is) = bnd (\<lambda>s. let p = procs s i in
     if p_state p = UNUSED then Inr ((), s)
     else bnd (kprintf ''%d %s %s'' [AWord (p_pid p), AStr (Some (map of_char (state_name (p_state p)))),
            AStr (Some (map unat (cstr (p_name p) 16)))]) (\<lambda>_.
          bnd (if p_state p = SLEEPING then dump_pcs (getcallerpcs ld (u32 (ebp i + 8))) else ret ()) (\<lambda>_.
          kprintf [CHR 0x0A] [])) s) (\<lambda>_.
     procdump_loop ld ebp is)"

definition procdump :: "(nat \<Rightarrow> nat) \<Rightarrow> (nat \<Rightarrow> nat) \<Rightarrow> ('z kstate_scheme, unit) kern" where
  "procdump ld ebp = procdump_loop ld ebp [0..<NPROC]"

subsection \<open>The interrupts\<close>

text \<open>The console's part of a key interrupt; the process list is printed at the end if it was asked for.\<close>

definition console_input :: "(nat \<Rightarrow> nat) \<Rightarrow> (nat \<Rightarrow> nat) \<Rightarrow> nat list \<Rightarrow> ('z kstate_scheme, unit) kern" where
  "console_input ld ebp cs = (\<lambda>s. case consoleintr cs (cons s) of
       Inl e \<Rightarrow> Inl e
     | Inr (dump, c) \<Rightarrow> (if dump then procdump ld ebp else ret ()) (s\<lparr>cons := c\<rparr>))"

definition has_proc :: "'z kstate_scheme \<Rightarrow> bool" where
  "has_proc s \<longleftrightarrow> p_state (myproc s) = RUNNING"

definition trap_fault :: "trapinfo \<Rightarrow> ('z kstate_scheme, unit) kern" where
  "trap_fault tf = (\<lambda>s.
     if \<not> has_proc s \<or> ti_cs tf mod 4 = 0 then
       bnd (kprintf (''unexpected trap %d from cpu %d eip %x (cr2=0x%x)'' @ [CHR 0x0A])
         [AWord (ti_trapno tf), AWord 0, AWord (ti_eip tf), AWord (ti_cr2 tf)]) (\<lambda>_. panic ''trap'') s
     else
       bnd (kprintf (''pid %d %s: trap %d err %d on cpu %d eip 0x%x addr 0x%x--kill proc'' @ [CHR 0x0A])
         [AWord (p_pid (myproc s)), AStr (Some (map unat (cstr (p_name (myproc s)) 16))), AWord (ti_trapno tf),
          AWord (ti_err tf), AWord 0, AWord (ti_eip tf), AWord (ti_cr2 tf)]) (\<lambda>_.
       upd (\<lambda>s. (setp (cur s) (\<lambda>x. x\<lparr>p_killed := True\<rparr>) s)\<lparr>cur_killed := True\<rparr>)) s)"

definition trap_irq :: "(nat \<Rightarrow> nat) \<Rightarrow> (nat \<Rightarrow> nat) \<Rightarrow> nat list \<Rightarrow> nat list \<Rightarrow> trapinfo \<Rightarrow> (tstate, unit) kern" where
  "trap_irq ld ebp kbd rx tf = (\<lambda>s. let n = ti_trapno tf in
     if n = T_IRQ0 + IRQ_TIMER then Inr ((), timer_tick s)
     else if n = T_IRQ0 + IRQ_IDE then ideintr 0 s
     else if n = T_IRQ0 + IRQ_IDE + 1 then ideintr 1 s
     else if n = T_IRQ0 + IRQ_KBD then
       (case kbd_chars (kshift s) kbd of (cs, sh) \<Rightarrow> console_input ld ebp cs (s\<lparr>kshift := sh\<rparr>))
     else if n = T_IRQ0 + IRQ_COM1 then console_input ld ebp (uart_chars (cons s) rx) s
     else if n = T_IRQ0 + 7 \<or> n = T_IRQ0 + IRQ_SPURIOUS then
       kprintf (''cpu%d: spurious interrupt at %x:%x'' @ [CHR 0x0A]) [AWord 0, AWord (ti_cs tf), AWord (ti_eip tf)] s
     else trap_fault tf s)"

text \<open>The end of \<open>trap\<close>: a killed process exits on its way to user space, and a tick takes the processor
  away. \<open>trap_back\<close> is what is left to do when the process runs again.\<close>

definition trap_back :: "trapinfo \<Rightarrow> ('z kstate_scheme, unit) kern" where
  "trap_back tf = (\<lambda>s. if has_proc s \<and> p_killed (myproc s) \<and> ti_cs tf mod 4 = DPL_USER then exit s else Inr ((), s))"

definition trap :: "(nat \<Rightarrow> nat) \<Rightarrow> (nat \<Rightarrow> nat) \<Rightarrow> nat list \<Rightarrow> nat list \<Rightarrow> trapinfo \<Rightarrow> (tstate, unit) kern" where
  "trap ld ebp kbd rx tf =
     (if ti_trapno tf = T_SYSCALL then trap_syscall
      else bnd (trap_irq ld ebp kbd rx tf) (\<lambda>_.
           bnd (trap_back tf) (\<lambda>_ s.
           if has_proc s \<and> ti_trapno tf = T_IRQ0 + IRQ_TIMER then Inr ((), yield s) else trap_back tf s)))"

subsection \<open>Messages\<close>

text \<open>The arguments a format takes.\<close>

fun fits :: "nat list \<Rightarrow> arg list \<Rightarrow> bool" where
  "fits [] as = True"
| "fits [c] as = True"
| "fits (c # c' # cs) as =
     (if c \<noteq> 37 then fits (c' # cs) as
      else if c' = 100 \<or> c' = 120 \<or> c' = 112 then (case as of AWord x # as' \<Rightarrow> fits cs as' | _ \<Rightarrow> False)
      else if c' = 115 then (case as of AStr p # as' \<Rightarrow> fits cs as' | _ \<Rightarrow> False)
      else fits cs as)"

definition bytes_only :: "nat list \<Rightarrow> bool" where
  "bytes_only cs \<longleftrightarrow> (\<forall>c \<in> set cs. c < 256)"

definition args_ok :: "arg list \<Rightarrow> bool" where
  "args_ok as \<longleftrightarrow> (\<forall>cs. AStr (Some cs) \<in> set as \<longrightarrow> bytes_only cs)"

lemma puts_bytes: "con_ok s \<Longrightarrow> bytes_only cs \<Longrightarrow> \<exists>t. consputs cs s = Inr t \<and> con_ok t"
  using consputs_ok [of s cs] by (auto simp: bytes_only_def const_defs)

lemma putc_ok: "con_ok s \<Longrightarrow> \<exists>t. consputc c s = Inr t \<and> con_ok t"
  using consputc_ok by blast

lemma printint_ok:
  assumes "con_ok s" "base = 10 \<or> base = 16"
  shows "\<exists>t. printint x base sign s = Inr t \<and> con_ok t"
proof -
  have "bytes_only (int_text x base sign)" using int_text_bytes [OF assms(2)] by (simp add: bytes_only_def)
  then show ?thesis using puts_bytes [OF assms(1)] by (simp add: printint_def)
qed

lemma cprintf_ok:
  assumes "con_ok s" "fits fmt as" "bytes_only fmt" "args_ok as"
  shows "\<exists>t. cprintf fmt as s = Inr t \<and> con_ok t"
  using assms
proof (induction fmt as arbitrary: s rule: fits.induct)
  case (2 c as)
  then show ?case using putc_ok [of s c] by auto
next
  case (3 c c' cs as)
  have ok: "bytes_only (c' # cs)" "bytes_only cs" "bytes_only [37, c']" using 3(7) by (auto simp: bytes_only_def)
  consider (pl) "c \<noteq> 37"
    | (num) x as' b sg where "c = 37" "as = AWord x # as'" "c' = 100 \<and> b = (10 :: nat) \<and> sg \<or> (c' = 120 \<or> c' = 112) \<and> b = 16 \<and> \<not> sg"
    | (str) q as' where "c = 37" "c' = 115" "as = AStr q # as'" | (oth) "c = 37" "c' \<notin> {100, 120, 112, 115}"
  proof (cases "c = 37")
    case True
    show ?thesis
    proof (cases "c' \<in> {100, 120, 112}")
      case c: True
      then obtain x as' where "as = AWord x # as'" using 3(6) True by (auto split: list.splits arg.splits)
      then show ?thesis using num [of x as' "if c' = 100 then 10 else 16" "c' = 100"] True c by auto
    next
      case c: False
      then show ?thesis using 3(6) True str oth by (cases "c' = 115") (auto split: list.splits arg.splits)
    qed
  qed (rule pl)
  then show ?case
  proof cases
    case pl
    then obtain t where t: "consputc c s = Inr t" "con_ok t" using putc_ok [OF 3(5)] by blast
    then show ?thesis using 3(1) [OF pl t(2)] 3(6,8) ok(1) pl by simp
  next
    case (num x as' b sg)
    have a: "args_ok as'" using 3(8) num(2) by (simp add: args_ok_def)
    obtain t where t: "printint x b sg s = Inr t" "con_ok t" using printint_ok [OF 3(5), of b x sg] num(3) by blast
    have "fits cs as'" using 3(6) num by auto
    then obtain u where "cprintf cs as' t = Inr u" "con_ok u" using 3(2) [of "AWord x" as' x t] num ok(2) a t(2) by auto
    then show ?thesis using num t(1) by auto
  next
    case (str q as')
    have a: "args_ok as'" "bytes_only (case q of None \<Rightarrow> [40, 110, 117, 108, 108, 41] | Some t \<Rightarrow> t)"
      using 3(8) str(3) by (auto simp: args_ok_def bytes_only_def split: option.splits)
    obtain t where t: "consputs (case q of None \<Rightarrow> [40, 110, 117, 108, 108, 41] | Some t \<Rightarrow> t) s = Inr t" "con_ok t"
      using puts_bytes [OF 3(5) a(2)] by blast
    then show ?thesis using 3(3) [of "AStr q" as' q t] 3(6) str ok(2) a(1) by simp
  next
    case oth
    show ?thesis
    proof (cases "c' = 37")
      case True
      obtain t where t: "consputc 37 s = Inr t" "con_ok t" using putc_ok [OF 3(5)] by blast
      then show ?thesis using 3(4) [of t] 3(6,8) oth True ok(2) by simp
    next
      case False
      obtain t where t: "consputs [37, c'] s = Inr t" "con_ok t" using puts_bytes [OF 3(5) ok(3)] by blast
      then show ?thesis using 3(4) [of t] 3(6,8) oth False ok(2) by (simp del: consputs.simps)
    qed
  qed
qed simp

lemma kprintf_ok:
  assumes "con_ok (cons s)" "fits (map of_char fmt) as" "args_ok as"
  shows "\<exists>c. kprintf fmt as s = Inr ((), s\<lparr>cons := c\<rparr>) \<and> con_ok c"
proof -
  have "of_char c < (256 :: nat)" for c :: char by (rule nat_of_char_less_256)
  then have "bytes_only (map of_char fmt)" by (simp add: bytes_only_def)
  from cprintf_ok [OF assms(1,2) this assms(3)] show ?thesis by (auto simp: kprintf_def)
qed

lemma name_bytes: "bytes_only (map unat (xs :: byte list))"
  using unat_byte by (auto simp: bytes_only_def)

subsection \<open>Property\<close>

definition handled_traps :: "nat set" where
  "handled_traps = {T_SYSCALL, T_IRQ0 + IRQ_TIMER, T_IRQ0 + IRQ_IDE, T_IRQ0 + IRQ_IDE + 1, T_IRQ0 + IRQ_KBD, T_IRQ0 + IRQ_COM1,
     T_IRQ0 + 7, T_IRQ0 + IRQ_SPURIOUS}"

text \<open>C34. A trap with no handler: raised in user space it marks the running process, and no other, as killed and
  changes nothing else but the console; raised in the kernel or with no process it panics.\<close>

theorem trap_fault_kills:
  assumes "con_ok (cons s)" "ti_trapno tf \<notin> handled_traps"
  shows "if has_proc s \<and> ti_cs tf mod 4 \<noteq> 0
    then \<exists>c. con_ok c \<and> trap_irq ld ebp kbd rx tf s =
           Inr ((), (setp (cur s) (\<lambda>x. x\<lparr>p_killed := True\<rparr>) s)\<lparr>cur_killed := True, cons := c\<rparr>)
    else trap_irq ld ebp kbd rx tf s = Inl (Panic ''trap'')"
proof -
  have irq: "trap_irq ld ebp kbd rx tf s = trap_fault tf s" using assms(2) by (simp add: trap_irq_def handled_traps_def Let_def)
  show ?thesis
  proof (cases "has_proc s \<and> ti_cs tf mod 4 \<noteq> 0")
    case True
    let ?as = "[AWord (p_pid (myproc s)), AStr (Some (map unat (cstr (p_name (myproc s)) 16))), AWord (ti_trapno tf),
          AWord (ti_err tf), AWord 0, AWord (ti_eip tf), AWord (ti_cr2 tf)]"
    have "args_ok ?as" using name_bytes by (auto simp: args_ok_def)
    then obtain c where "kprintf (''pid %d %s: trap %d err %d on cpu %d eip 0x%x addr 0x%x--kill proc'' @ [CHR 0x0A]) ?as s = Inr ((), s\<lparr>cons := c\<rparr>)" "con_ok c"
      using kprintf_ok [OF assms(1), of "''pid %d %s: trap %d err %d on cpu %d eip 0x%x addr 0x%x--kill proc'' @ [CHR 0x0A]" ?as] by auto
    then show ?thesis using True by (auto simp: irq trap_fault_def bnd_def upd_def setp_def)
  next
    case False
    let ?as = "[AWord (ti_trapno tf), AWord 0, AWord (ti_eip tf), AWord (ti_cr2 tf)]"
    obtain c where "kprintf (''unexpected trap %d from cpu %d eip %x (cr2=0x%x)'' @ [CHR 0x0A]) ?as s = Inr ((), s\<lparr>cons := c\<rparr>)"
      using kprintf_ok [OF assms(1), of "''unexpected trap %d from cpu %d eip %x (cr2=0x%x)'' @ [CHR 0x0A]" ?as] by (auto simp: args_ok_def)
    then show ?thesis using False by (auto simp: irq trap_fault_def bnd_def panic_def fail_def)
  qed
qed

definition t0 :: tstate where
  "t0 = kstate.extend k0 (tstate.fields 0)"

lemma t0_sel: "procs t0 = procs0" "cur t0 = 1" "cons t0 = cons k0"
  by (simp_all add: t0_def kstate.extend_def tstate.fields_def k0_sel)

theorem trap_fault_kills_witness:
  "\<exists>s. trap_irq (\<lambda>_. 0) (\<lambda>_. 0) [] [] \<lparr>ti_trapno = 14, ti_err = 4, ti_cs = 27, ti_eip = 0, ti_cr2 = 0x5000\<rparr> t0 = Inr ((), s)"
  using trap_fault_kills [of t0 "\<lparr>ti_trapno = 14, ti_err = 4, ti_cs = 27, ti_eip = 0, ti_cr2 = 0x5000\<rparr>" "\<lambda>_. 0" "\<lambda>_. 0" "[]" "[]"] k0_con
  by (auto simp: t0_sel handled_traps_def has_proc_def procs0_def proc0_def const_defs)

end
