(* ===== verification/ProcProps.thy ===== *)
theory ProcProps
  imports Kmachine
begin

section \<open>The process table\<close>

text \<open>
  The table under every sequence of forks, exits, waits, sleeps, wakeups, kills and dispatches: process ids
  stay unique until the counter runs over, no process has a dead parent, and no exit is missed by a parent asleep in \<open>wait\<close>. Then the
  scheduler's fairness, and \<open>kill\<close> on an unused entry.
\<close>

subsection \<open>Invariant\<close>

definition plive :: "'z kstate_scheme \<Rightarrow> nat \<Rightarrow> bool" where
  "plive s p \<longleftrightarrow> p < NPROC \<and> p_state (procs s p) \<noteq> UNUSED"

text \<open>The ids are a part of the invariant, \<open>ids\<close>, only as long as the 32-bit counter \<open>nextpid\<close> has not run over.\<close>

definition pt_inv :: "bool \<Rightarrow> 'z kstate_scheme \<Rightarrow> bool" where
  "pt_inv ids s \<longleftrightarrow>
     cur s < NPROC \<and> plive s (initproc s) \<and> p_state (procs s (initproc s)) \<noteq> ZOMBIE \<and> p_parent (procs s (initproc s)) = None \<and>
     (\<forall>p < NPROC. p_state (procs s p) = RUNNING \<longrightarrow> p = cur s) \<and>
     (ids \<longrightarrow> (\<forall>p. plive s p \<longrightarrow> 0 < p_pid (procs s p) \<and> p_pid (procs s p) < nextpid s)) \<and>
     (ids \<longrightarrow> (\<forall>p q. plive s p \<longrightarrow> plive s q \<longrightarrow> p_pid (procs s p) = p_pid (procs s q) \<longrightarrow> p = q)) \<and>
     (\<forall>p < NPROC. \<forall>q. p_parent (procs s p) = Some q \<longrightarrow> q \<noteq> p \<and> plive s p \<and> plive s q \<and> p_state (procs s q) \<noteq> ZOMBIE) \<and>
     (\<forall>q < NPROC. p_state (procs s q) = SLEEPING \<and> p_chan (procs s q) = Some (ChProc q) \<longrightarrow>
        (\<forall>p < NPROC. p_parent (procs s p) = Some q \<longrightarrow> p_state (procs s p) \<noteq> ZOMBIE))"

text \<open>One operation on the table. The calls of a process need it to be running; \<open>exit\<close> enters by its part on the
  table, after the files are closed.\<close>

abbreviation running :: "'z kstate_scheme \<Rightarrow> bool" where
  "running s \<equiv> p_state (myproc s) = RUNNING"

inductive pt_step :: "'z kstate_scheme \<Rightarrow> 'z kstate_scheme \<Rightarrow> bool" where
  p_fork: "running s \<Longrightarrow> fork s = Inr (r, t) \<Longrightarrow> pt_step s t"
| p_exit: "running s \<Longrightarrow> cur s \<noteq> initproc s \<Longrightarrow> pt_step s (exit_table s)"
| p_reap: "running s \<Longrightarrow> wait s = Inr (r, t) \<Longrightarrow> pt_step s t"
| p_wait: "running s \<Longrightarrow> zombie_child s = None \<Longrightarrow> wait s = Inl (Blocked ''wait'') \<Longrightarrow> pt_step s (sleep (ChProc (cur s)) s)"
| p_sleep: "running s \<Longrightarrow> \<forall>q. ch \<noteq> ChProc q \<Longrightarrow> pt_step s (sleep ch s)"
| p_back: "running s \<Longrightarrow> pt_step s (sleep_back s)"
| p_wakeup: "pt_step s (wakeup1 ch s)"
| p_tick: "pt_step s (timer_tick s)"
| p_kill: "running s \<Longrightarrow> kill pid s = Inr (r, t) \<Longrightarrow> pt_step s t"
| p_yield: "running s \<Longrightarrow> pt_step s (yield s)"
| p_run: "\<not> running s \<Longrightarrow> scheduler_next i s = Some p \<Longrightarrow> scheduler_run p s = Inr ((), t) \<Longrightarrow> pt_step s t"

subsection \<open>What the operations do to the table\<close>

text \<open>The fields of the table that matter: everything but the entries is as before.\<close>

definition table :: "'z kstate_scheme \<Rightarrow> (nat \<Rightarrow> proc) \<times> nat \<times> nat \<times> nat" where
  "table s = (procs s, cur s, initproc s, nextpid s)"

lemma table_conv: "table t = table s \<longleftrightarrow> procs t = procs s \<and> cur t = cur s \<and> initproc t = initproc s \<and> nextpid t = nextpid s"
  by (auto simp: table_def)

lemma pt_inv_table: "table t = table s \<Longrightarrow> pt_inv ids t = pt_inv ids s"
  by (simp add: table_conv pt_inv_def plive_def)

lemma km_op_table: "km_op f s = Inr (r, t) \<Longrightarrow> table t = table s"
  by (auto simp: km_op_def table_def split: sum.splits prod.splits)

lemma setp_sel [simp]:
  "procs (setp p g s) = (procs s)(p := g (procs s p))" "cur (setp p g s) = cur s" "initproc (setp p g s) = initproc s" "nextpid (setp p g s) = nextpid s"
  by (simp_all add: setp_def)

lemma filedup_table: "filedup f s = Inr (r, t) \<Longrightarrow> table t = table s"
  by (auto simp: filedup_def table_def setf_def split: if_splits)

subsection \<open>Operations that keep pids and parents\<close>

definition same_family :: "'z kstate_scheme \<Rightarrow> 'z kstate_scheme \<Rightarrow> bool" where
  "same_family s t \<longleftrightarrow> initproc t = initproc s \<and> nextpid t = nextpid s \<and>
     (\<forall>p < NPROC. p_pid (procs t p) = p_pid (procs s p) \<and> p_parent (procs t p) = p_parent (procs s p) \<and>
        (p_state (procs t p) = UNUSED \<longleftrightarrow> p_state (procs s p) = UNUSED) \<and> (p_state (procs t p) = ZOMBIE \<longleftrightarrow> p_state (procs s p) = ZOMBIE))"

definition in_wait :: "'z kstate_scheme \<Rightarrow> nat \<Rightarrow> bool" where
  "in_wait s q \<longleftrightarrow> p_state (procs s q) = SLEEPING \<and> p_chan (procs s q) = Some (ChProc q)"

lemma pt_inv_family:
  assumes "pt_inv ids s" "same_family s t" "cur t < NPROC"
    "\<forall>p < NPROC. p_state (procs t p) = RUNNING \<longrightarrow> p = cur t"
    "\<forall>q < NPROC. in_wait t q \<longrightarrow> in_wait s q \<or> (\<forall>p < NPROC. p_parent (procs s p) = Some q \<longrightarrow> p_state (procs s p) \<noteq> ZOMBIE)"
  shows "pt_inv ids t"
proof -
  note f = assms(2) [unfolded same_family_def]
  have pl: "plive t p = plive s p" for p using f by (auto simp: plive_def)
  have z: "plive s p \<Longrightarrow> p_state (procs t p) = ZOMBIE \<longleftrightarrow> p_state (procs s p) = ZOMBIE" for p using f by (auto simp: plive_def)
  have pid: "plive s p \<Longrightarrow> p_pid (procs t p) = p_pid (procs s p)" for p using f by (auto simp: plive_def)
  show ?thesis unfolding pt_inv_def pl
  proof (intro conjI)
    show "plive s (initproc t)" "p_state (procs t (initproc t)) \<noteq> ZOMBIE" "p_parent (procs t (initproc t)) = None"
      using assms(1) f z by (auto simp: pt_inv_def plive_def)
    show "ids \<longrightarrow> (\<forall>p. plive s p \<longrightarrow> 0 < p_pid (procs t p) \<and> p_pid (procs t p) < nextpid t)" using assms(1) f pid by (simp add: pt_inv_def)
    show "ids \<longrightarrow> (\<forall>p q. plive s p \<longrightarrow> plive s q \<longrightarrow> p_pid (procs t p) = p_pid (procs t q) \<longrightarrow> p = q)"
      using assms(1) pid unfolding pt_inv_def by metis
    show "\<forall>p < NPROC. \<forall>q. p_parent (procs t p) = Some q \<longrightarrow> q \<noteq> p \<and> plive s p \<and> plive s q \<and> p_state (procs t q) \<noteq> ZOMBIE"
      using assms(1) f z unfolding pt_inv_def by metis
    show "\<forall>q < NPROC. p_state (procs t q) = SLEEPING \<and> p_chan (procs t q) = Some (ChProc q) \<longrightarrow>
        (\<forall>p < NPROC. p_parent (procs t p) = Some q \<longrightarrow> p_state (procs t p) \<noteq> ZOMBIE)"
      using assms(1,5) f unfolding pt_inv_def in_wait_def by metis
  qed (use assms(3,4) in auto)
qed

lemma pt_weaken: "pt_inv ids s \<Longrightarrow> pt_inv False s"
  unfolding pt_inv_def by (elim conjE, intro conjI) ((assumption | (rule impI, erule FalseE))+)

lemma pt_cur: "pt_inv ids s \<Longrightarrow> cur s < NPROC"
  by (simp add: pt_inv_def)

lemma pt_running: "pt_inv ids s \<Longrightarrow> p < NPROC \<Longrightarrow> p_state (procs s p) = RUNNING \<Longrightarrow> p = cur s"
  by (simp add: pt_inv_def)

text \<open>A change of one entry.\<close>

lemma pt_entry:
  fixes s t :: "'z kstate_scheme"
  assumes "pt_inv ids s" "p < NPROC" "procs t = (procs s)(p := x)" "cur t = cur s" "initproc t = initproc s" "nextpid t = nextpid s"
    "p_pid x = p_pid (procs s p)" "p_parent x = p_parent (procs s p)" "p_state x = UNUSED \<longleftrightarrow> p_state (procs s p) = UNUSED"
    "p_state x = ZOMBIE \<longleftrightarrow> p_state (procs s p) = ZOMBIE" "p_state x = RUNNING \<longrightarrow> p = cur s"
    "p_state x = SLEEPING \<and> p_chan x = Some (ChProc p) \<longrightarrow> in_wait s p \<or>
      (\<forall>c < NPROC. p_parent (procs s c) = Some p \<longrightarrow> p_state (procs s c) \<noteq> ZOMBIE)"
  shows "pt_inv ids t"
proof (rule pt_inv_family [OF assms(1)])
  show "same_family s t" using assms(3-10) by (simp add: same_family_def)
  show "\<forall>q < NPROC. in_wait t q \<longrightarrow> in_wait s q \<or> (\<forall>p < NPROC. p_parent (procs s p) = Some q \<longrightarrow> p_state (procs s p) \<noteq> ZOMBIE)"
    using assms(3,12) by (auto simp: in_wait_def split: if_splits)
  show "\<forall>q < NPROC. p_state (procs t q) = RUNNING \<longrightarrow> q = cur t"
    using pt_running [OF assms(1)] assms(3,4,11) by (auto split: if_splits)
  show "cur t < NPROC" using pt_cur [OF assms(1)] assms(4) by simp
qed

lemma pt_sleep:
  assumes "pt_inv ids s" "running s" "ch = ChProc (cur s) \<longrightarrow> (\<forall>p < NPROC. p_parent (procs s p) = Some (cur s) \<longrightarrow> p_state (procs s p) \<noteq> ZOMBIE)"
  shows "pt_inv ids (sleep ch s)"
  by (rule pt_entry [OF assms(1) pt_cur [OF assms(1)], of _ "(myproc s)\<lparr>p_chan := Some ch, p_state := SLEEPING\<rparr>"])
    (use assms(2,3) in \<open>auto simp: sleep_def\<close>)

lemma pt_wakeup:
  assumes "pt_inv ids s"
  shows "pt_inv ids (wakeup1 ch s)"
proof (rule pt_inv_family [OF assms])
  show "same_family s (wakeup1 ch s)" by (auto simp: same_family_def wakeup1_def)
  show "\<forall>q < NPROC. in_wait (wakeup1 ch s) q \<longrightarrow> in_wait s q \<or> (\<forall>p < NPROC. p_parent (procs s p) = Some q \<longrightarrow> p_state (procs s p) \<noteq> ZOMBIE)"
    by (auto simp: in_wait_def wakeup1_def split: if_splits)
  show "\<forall>p < NPROC. p_state (procs (wakeup1 ch s) p) = RUNNING \<longrightarrow> p = cur (wakeup1 ch s)"
    using pt_running [OF assms] by (auto simp: wakeup1_def split: if_splits)
qed (use pt_cur [OF assms] in \<open>simp add: wakeup1_def\<close>)

lemma pt_tick: "pt_inv ids s \<Longrightarrow> pt_inv ids (timer_tick s)"
  unfolding timer_tick_def using pt_wakeup [of ids "s\<lparr>ticks := u32 (ticks s + 1)\<rparr>" ChTicks] pt_inv_table [of "s\<lparr>ticks := u32 (ticks s + 1)\<rparr>" s ids]
  by (simp add: table_conv)

lemma pt_back:
  assumes "pt_inv ids s" "running s"
  shows "pt_inv ids (sleep_back s)"
  by (rule pt_entry [OF assms(1) pt_cur [OF assms(1)], of _ "(myproc s)\<lparr>p_chan := None\<rparr>"]) (auto simp: sleep_back_def)

lemma pt_yield:
  assumes "pt_inv ids s" "running s"
  shows "pt_inv ids (yield s)"
  by (rule pt_entry [OF assms(1) pt_cur [OF assms(1)], of _ "(myproc s)\<lparr>p_state := RUNNABLE\<rparr>"]) (use assms(2) in \<open>auto simp: yield_def\<close>)

lemma pt_kill:
  assumes "pt_inv ids s" "kill pid s = Inr (r, t)"
  shows "pt_inv ids t"
proof (cases "find (\<lambda>p. p_pid (procs s p) = pid) [0..<NPROC]")
  case None
  then show ?thesis using assms by (simp add: kill_def)
next
  case (Some p)
  have p: "p < NPROC" using Some by (auto simp: find_Some_iff)
  have "p_state (procs s p) = RUNNING \<longrightarrow> p = cur s" using pt_running [OF assms(1) p] by blast
  then show ?thesis using assms(2) Some
    by (intro pt_entry [OF assms(1) p, of t "(procs s p)\<lparr>p_killed := True, p_state := (if p_state (procs s p) = SLEEPING then RUNNABLE else p_state (procs s p))\<rparr>"])
      (auto simp: kill_def in_wait_def)
qed

lemma pt_dispatch:
  assumes "pt_inv ids s" "\<not> running s" "scheduler_next i s = Some p" "scheduler_run p s = Inr ((), t)"
  shows "pt_inv ids t"
proof -
  have p: "p < NPROC" "p_state (procs s p) = RUNNABLE" using assms(3) by (auto simp: scheduler_next_def find_Some_iff nth_append split: if_splits)
  obtain u where u: "switchuvm p s = Inr ((), u)" "table u = table s" "t = (setp p (\<lambda>x. x\<lparr>p_state := RUNNING\<rparr>) u)\<lparr>cur := p, cur_pid := p_pid (procs u p),
       cur_killed := p_killed (procs u p), cur_cwd := (case p_cwd (procs u p) of Some i \<Rightarrow> i | None \<Rightarrow> cur_cwd u)\<rparr>"
    using assms(4) by (auto simp: scheduler_run_def bnd_eq_Inr upd_def switchuvm_def table_def split: if_splits)
  have tt: "procs t = (procs s)(p := (procs s p)\<lparr>p_state := RUNNING\<rparr>)" "cur t = p" "initproc t = initproc s" "nextpid t = nextpid s"
    using u(2) unfolding u(3) by (simp_all add: table_conv)
  have nr: "q < NPROC \<Longrightarrow> p_state (procs s q) \<noteq> RUNNING" for q using pt_running [OF assms(1), of q] assms(2) by auto
  show ?thesis
  proof (rule pt_inv_family [OF assms(1)])
    show "same_family s t" using p by (simp add: same_family_def tt)
    show "\<forall>q < NPROC. in_wait t q \<longrightarrow> in_wait s q \<or> (\<forall>p < NPROC. p_parent (procs s p) = Some q \<longrightarrow> p_state (procs s p) \<noteq> ZOMBIE)"
      by (simp add: in_wait_def tt)
    show "\<forall>q < NPROC. p_state (procs t q) = RUNNING \<longrightarrow> q = cur t" using nr by (simp add: tt)
    show "cur t < NPROC" using p by (simp add: tt)
  qed
qed

subsection \<open>Exit\<close>

lemma wakeup1_sel [simp]: "cur (wakeup1 ch s) = cur s" "initproc (wakeup1 ch s) = initproc s" "nextpid (wakeup1 ch s) = nextpid s"
  by (simp_all add: wakeup1_def)

lemma wakeup1_entry:
  "p_pid (procs (wakeup1 ch s) i) = p_pid (procs s i)" "p_parent (procs (wakeup1 ch s) i) = p_parent (procs s i)"
  "p_chan (procs (wakeup1 ch s) i) = p_chan (procs s i)"
  "p_state (procs (wakeup1 ch s) i) =
     (if i < NPROC \<and> p_state (procs s i) = SLEEPING \<and> p_chan (procs s i) = Some ch then RUNNABLE else p_state (procs s i))"
  by (simp_all add: wakeup1_def)

text \<open>What the scan over \<open>k\<close> entries has done.\<close>

definition passed_on :: "nat set \<Rightarrow> 'z kstate_scheme \<Rightarrow> 'z kstate_scheme \<Rightarrow> bool" where
  "passed_on R s t \<longleftrightarrow> cur t = cur s \<and> initproc t = initproc s \<and> nextpid t = nextpid s \<and>
     (\<forall>i. p_pid (procs t i) = p_pid (procs s i) \<and> p_chan (procs t i) = p_chan (procs s i) \<and>
        p_parent (procs t i) = (if i \<in> R \<and> p_parent (procs s i) = Some (cur s) then Some (initproc s) else p_parent (procs s i)) \<and>
        p_state (procs t i) = (if i < NPROC \<and> p_state (procs s i) = SLEEPING \<and> p_chan (procs s i) = Some (ChProc (initproc s)) \<and>
           (\<exists>j \<in> R. p_parent (procs s j) = Some (cur s) \<and> p_state (procs s j) = ZOMBIE) then RUNNABLE else p_state (procs s i)))"

lemma reparent_ok:
  assumes "cur s \<noteq> initproc s"
  shows "passed_on {p..<p + k} s (reparent p k s)"
  using assms
proof (induction k arbitrary: p s)
  case 0
  then show ?case by (simp add: passed_on_def)
next
  case (Suc k)
  let ?c = "p_parent (procs s p) = Some (cur s)"
  let ?u = "setp p (\<lambda>x. x\<lparr>p_parent := Some (initproc s)\<rparr>) s"
  define u where "u = (if ?c then (if p_state (procs s p) = ZOMBIE then wakeup1 (ChProc (initproc s)) ?u else ?u) else s)"
  have r: "reparent p (Suc k) s = reparent (p + 1) k u" by (simp add: u_def Let_def)
  have u: "cur u = cur s" "initproc u = initproc s" "nextpid u = nextpid s" by (simp_all add: u_def)
  have e: "p_pid (procs u i) = p_pid (procs s i)" "p_chan (procs u i) = p_chan (procs s i)"
    "p_parent (procs u i) = (if i = p \<and> ?c then Some (initproc s) else p_parent (procs s i))"
    "p_state (procs u i) = (if i < NPROC \<and> p_state (procs s i) = SLEEPING \<and> p_chan (procs s i) = Some (ChProc (initproc s)) \<and>
       ?c \<and> p_state (procs s p) = ZOMBIE then RUNNABLE else p_state (procs s i))" for i
    by (auto simp: u_def wakeup1_entry)
  have R: "{p..<p + Suc k} = insert p {p + 1..<p + 1 + k}" by auto
  have "passed_on {p + 1..<p + 1 + k} u (reparent (p + 1) k u)" using Suc.IH [of u "p + 1"] Suc.prems u by simp
  note IH = this [unfolded passed_on_def u]
  have z: "p_state (procs u j) = ZOMBIE \<longleftrightarrow> p_state (procs s j) = ZOMBIE" for j by (simp add: e)
  have Z: "(\<exists>j \<in> insert p {p + 1..<p + 1 + k}. p_parent (procs s j) = Some (cur s) \<and> p_state (procs s j) = ZOMBIE) \<longleftrightarrow>
      ?c \<and> p_state (procs s p) = ZOMBIE \<or> (\<exists>j \<in> {p + 1..<p + 1 + k}. p_parent (procs u j) = Some (cur s) \<and> p_state (procs u j) = ZOMBIE)"
    unfolding z using e(3) by auto
  show ?case unfolding r R passed_on_def Z
  proof (intro conjI allI)
    fix i
    let ?t = "reparent (p + 1) k u"
    show "p_pid (procs ?t i) = p_pid (procs s i)" "p_chan (procs ?t i) = p_chan (procs s i)" using IH e by simp_all
    show "p_parent (procs ?t i) = (if i \<in> insert p {p + 1..<p + 1 + k} \<and> p_parent (procs s i) = Some (cur s) then Some (initproc s) else p_parent (procs s i))"
      using IH e(3) [of i] Suc.prems by auto
    show "p_state (procs ?t i) = (if i < NPROC \<and> p_state (procs s i) = SLEEPING \<and> p_chan (procs s i) = Some (ChProc (initproc s)) \<and>
        (?c \<and> p_state (procs s p) = ZOMBIE \<or> (\<exists>j \<in> {p + 1..<p + 1 + k}. p_parent (procs u j) = Some (cur s) \<and> p_state (procs u j) = ZOMBIE))
        then RUNNABLE else p_state (procs s i))"
      using IH e(2,4) [of i] by auto
  qed (use IH in auto)
qed

lemma exit_table_ok:
  assumes "pt_inv ids s" "running s" "cur s \<noteq> initproc s"
  shows "pt_inv ids (exit_table s)"
proof -
  define w where "w = (case p_parent (myproc s) of None \<Rightarrow> s | Some q \<Rightarrow> wakeup1 (ChProc q) s)"
  define r where "r = reparent 0 NPROC w"
  have t: "exit_table s = setp (cur r) (\<lambda>x. x\<lparr>p_state := ZOMBIE\<rparr>) r" by (simp add: exit_table_def Let_def w_def r_def)
  have w: "pt_inv ids w" "cur w = cur s" "initproc w = initproc s" "running w"
    using assms pt_wakeup by (auto simp: w_def wakeup1_entry split: option.splits)
  have "passed_on {0..<0 + NPROC} w r" unfolding r_def using reparent_ok [of w 0 NPROC] w assms(3) by simp
  note r = this [unfolded passed_on_def w]
  have c: "cur s < NPROC" using pt_cur [OF assms(1)] .
  have par: "p_parent (procs s i) = p_parent (procs w i)" for i by (simp add: w_def wakeup1_entry split: option.splits)
  let ?t = "exit_table s"
  have e: "p_pid (procs ?t i) = p_pid (procs w i)" "p_chan (procs ?t i) = p_chan (procs w i)"
    "i < NPROC \<Longrightarrow> p_parent (procs ?t i) = (if p_parent (procs w i) = Some (cur s) then Some (initproc s) else p_parent (procs w i))" for i
    using r by (auto simp: t)
  have f: "cur ?t = cur s" "initproc ?t = initproc s" "nextpid ?t = nextpid w" using r by (simp_all add: t)
  have st: "p_state (procs ?t i) = (if i = cur s then ZOMBIE else if i < NPROC \<and> p_state (procs w i) = SLEEPING \<and> p_chan (procs w i) = Some (ChProc (initproc s)) \<and>
           (\<exists>j < NPROC. p_parent (procs w j) = Some (cur s) \<and> p_state (procs w j) = ZOMBIE) then RUNNABLE else p_state (procs w i))" for i
    using r by (auto simp: t)
  have lv: "plive ?t i = plive w i" for i using w(2,4) by (auto simp: plive_def st)
  note inv = w(1) [unfolded pt_inv_def w]
  have run: "p_state (procs w p) = RUNNING \<Longrightarrow> p < NPROC \<Longrightarrow> p = cur s" for p using inv by blast
  have ini: "p_state (procs w (initproc s)) \<noteq> ZOMBIE" "plive w (initproc s)" "p_parent (procs w (initproc s)) = None" using inv by blast+
  have prt: "q \<noteq> p \<and> plive w p \<and> plive w q \<and> p_state (procs w q) \<noteq> ZOMBIE" if "p < NPROC" "p_parent (procs w p) = Some q" for p q using inv that by blast
  have slp: "p_state (procs w p) \<noteq> ZOMBIE" if "q < NPROC" "p_state (procs w q) = SLEEPING" "p_chan (procs w q) = Some (ChProc q)" "p < NPROC" "p_parent (procs w p) = Some q" for p q
    using inv that by blast
  have wk: "\<not> (p_state (procs w q) = SLEEPING \<and> p_chan (procs w q) = Some (ChProc q))" if "p_parent (procs w (cur s)) = Some q" "q < NPROC" for q
    using that by (auto simp: w_def wakeup1_entry split: option.splits)
  show ?thesis unfolding pt_inv_def lv f e(1,2)
  proof (intro conjI)
    show "p_state (procs ?t (initproc s)) \<noteq> ZOMBIE" using ini assms(3) by (simp add: st)
    show "\<forall>p < NPROC. p_state (procs ?t p) = RUNNING \<longrightarrow> p = cur s" using run by (auto simp: st split: if_splits)
    show "p_parent (procs ?t (initproc s)) = None" using ini e(3) [of "initproc s"] by (simp add: plive_def)
    show "\<forall>p < NPROC. \<forall>q. p_parent (procs ?t p) = Some q \<longrightarrow> q \<noteq> p \<and> plive w p \<and> plive w q \<and> p_state (procs ?t q) \<noteq> ZOMBIE"
    proof (intro allI impI)
      fix p q assume p: "p < NPROC" "p_parent (procs ?t p) = Some q"
      show "q \<noteq> p \<and> plive w p \<and> plive w q \<and> p_state (procs ?t q) \<noteq> ZOMBIE"
      proof (cases "p_parent (procs w p) = Some (cur s)")
        case True
        then have "q = initproc s" using p e(3) [OF p(1)] by simp
        then show ?thesis using ini prt [OF p(1) True] True assms(3) by (auto simp: st)
      next
        case False
        then have "p_parent (procs w p) = Some q" "q \<noteq> cur s" using p e(3) [OF p(1)] by auto
        then show ?thesis using prt [OF p(1)] by (simp add: st)
      qed
    qed
    show "\<forall>q < NPROC. p_state (procs ?t q) = SLEEPING \<and> p_chan (procs w q) = Some (ChProc q) \<longrightarrow>
        (\<forall>p < NPROC. p_parent (procs ?t p) = Some q \<longrightarrow> p_state (procs ?t p) \<noteq> ZOMBIE)"
    proof (intro allI impI, elim conjE)
      fix q p assume q: "q < NPROC" "p_state (procs ?t q) = SLEEPING" "p_chan (procs w q) = Some (ChProc q)"
        and p: "p < NPROC" "p_parent (procs ?t p) = Some q"
      have sq: "p_state (procs w q) = SLEEPING" using q(2) by (simp add: st split: if_splits)
      show "p_state (procs ?t p) \<noteq> ZOMBIE"
      proof (cases "p_parent (procs w p) = Some (cur s)")
        case True
        then have "q = initproc s" using p e(3) [OF p(1)] by simp
        then have "p_state (procs w p) \<noteq> ZOMBIE" using q sq True p(1) by (auto simp: st split: if_splits)
        moreover have "p \<noteq> cur s" using prt [OF p(1) True] by blast
        ultimately show ?thesis by (simp add: st)
      next
        case False
        then have pq: "p_parent (procs w p) = Some q" using p e(3) [OF p(1)] by simp
        then have "p \<noteq> cur s" using wk [of q] q(1,3) sq by blast
        then show ?thesis using slp [OF q(1) sq q(3) p(1) pq] by (simp add: st)
      qed
    qed
  qed (use inv c in blast)+
qed

subsection \<open>Wait and fork\<close>

text \<open>The parts of the invariant.\<close>

lemma pt_parts:
  assumes "pt_inv ids s"
  shows "plive s (initproc s)" "p_state (procs s (initproc s)) \<noteq> ZOMBIE" "p_parent (procs s (initproc s)) = None"
    "ids \<Longrightarrow> plive s p \<Longrightarrow> 0 < p_pid (procs s p) \<and> p_pid (procs s p) < nextpid s"
    "ids \<Longrightarrow> plive s p \<Longrightarrow> plive s q \<Longrightarrow> p_pid (procs s p) = p_pid (procs s q) \<Longrightarrow> p = q"
    "p < NPROC \<Longrightarrow> p_parent (procs s p) = Some q \<Longrightarrow> q \<noteq> p \<and> plive s p \<and> plive s q \<and> p_state (procs s q) \<noteq> ZOMBIE"
    "q < NPROC \<Longrightarrow> p_state (procs s q) = SLEEPING \<Longrightarrow> p_chan (procs s q) = Some (ChProc q) \<Longrightarrow> p < NPROC \<Longrightarrow>
       p_parent (procs s p) = Some q \<Longrightarrow> p_state (procs s p) \<noteq> ZOMBIE"
  using assms unfolding pt_inv_def by blast+

lemma pt_reap:
  fixes s t :: "'z kstate_scheme"
  assumes "pt_inv ids s" "p < NPROC" "p_state (procs s p) = ZOMBIE" "running s"
    "procs t = (procs s)(p := x)" "p_state x = UNUSED" "p_parent x = None" "cur t = cur s" "initproc t = initproc s" "nextpid t = nextpid s"
  shows "pt_inv ids t"
proof -
  note inv = pt_parts [OF assms(1)]
  have lv: "plive t i \<longleftrightarrow> plive s i \<and> i \<noteq> p" for i using assms(5,6) by (auto simp: plive_def)
  have ne: "initproc s \<noteq> p" using inv(2) assms(3) by auto
  have other: "procs t i = procs s i" if "i \<noteq> p" for i using assms(5) that by simp
  have par: "i \<noteq> p \<and> p_parent (procs s i) = Some q" if "p_parent (procs t i) = Some q" for i q
    using that assms(5,7) by (auto split: if_splits)
  have stt: "i \<noteq> p \<and> p_state (procs s i) = st" if "p_state (procs t i) = st" "st \<noteq> UNUSED" for i st
    using that assms(5,6) by (auto split: if_splits)
  have kids: "q \<noteq> p" if "i < NPROC" "p_parent (procs s i) = Some q" for i q using inv(6) [OF that] assms(3) by auto
  show ?thesis unfolding pt_inv_def assms(8-10) lv
  proof (intro conjI)
    show "p_state (procs t (initproc s)) \<noteq> ZOMBIE" "p_parent (procs t (initproc s)) = None" using inv(2,3) other [OF ne] by simp_all
    show "\<forall>i < NPROC. p_state (procs t i) = RUNNING \<longrightarrow> i = cur s" using pt_running [OF assms(1)] stt [of _ RUNNING] by blast
    show "ids \<longrightarrow> (\<forall>i. plive s i \<and> i \<noteq> p \<longrightarrow> 0 < p_pid (procs t i) \<and> p_pid (procs t i) < nextpid s)" using inv(4) other by auto
    show "ids \<longrightarrow> (\<forall>i q. plive s i \<and> i \<noteq> p \<longrightarrow> plive s q \<and> q \<noteq> p \<longrightarrow> p_pid (procs t i) = p_pid (procs t q) \<longrightarrow> i = q)"
      using inv(5) other by metis
    show "\<forall>i < NPROC. \<forall>q. p_parent (procs t i) = Some q \<longrightarrow> q \<noteq> i \<and> (plive s i \<and> i \<noteq> p) \<and> (plive s q \<and> q \<noteq> p) \<and> p_state (procs t q) \<noteq> ZOMBIE"
      using inv(6) par kids stt [of _ ZOMBIE] by blast
    show "\<forall>q < NPROC. p_state (procs t q) = SLEEPING \<and> p_chan (procs t q) = Some (ChProc q) \<longrightarrow>
        (\<forall>i < NPROC. p_parent (procs t i) = Some q \<longrightarrow> p_state (procs t i) \<noteq> ZOMBIE)"
    proof (intro allI impI, elim conjE)
      fix q i assume a: "q < NPROC" "p_state (procs t q) = SLEEPING" "p_chan (procs t q) = Some (ChProc q)" "i < NPROC" "p_parent (procs t i) = Some q"
      have "q \<noteq> p" "i \<noteq> p" using stt [OF a(2)] par [OF a(5)] by auto
      then show "p_state (procs t i) \<noteq> ZOMBIE" using a inv(7) [of q i] other by simp
    qed
  qed (use inv(1) ne pt_cur [OF assms(1)] in auto)
qed

lemma wait_ok:
  assumes "pt_inv ids s" "running s" "wait s = Inr (r, t)"
  shows "pt_inv ids t"
proof (cases "zombie_child s")
  case None
  then have "t = s" using assms(3) by (auto simp: wait_def split: if_splits)
  then show ?thesis using assms(1) by simp
next
  case (Some p)
  have p: "p < NPROC" "p_state (procs s p) = ZOMBIE" using Some by (auto simp: zombie_child_def find_Some_iff)
  obtain a u b v where k: "km_op (kfree (p_kstack (procs s p))) s = Inr (a, u)"
      "km_op (freevm (p_pgdir (procs s p))) (setp p (\<lambda>x. x\<lparr>p_kstack := 0\<rparr>) u) = Inr (b, v)"
      "t = setp p (\<lambda>x. x\<lparr>p_pid := 0, p_parent := None, p_name := (p_name x)(0 := 0), p_killed := False, p_state := UNUSED\<rparr>) v"
    using assms(3) Some by (auto simp: wait_def bnd_eq_Inr upd_def ret_def)
  show ?thesis
    by (rule pt_reap [OF assms(1) p assms(2), of t "procs t p"])
      (use km_op_table [OF k(1)] km_op_table [OF k(2)] in \<open>simp_all add: k(3) table_conv\<close>)
qed

lemma wait_sleep_ok:
  assumes "pt_inv ids s" "running s" "zombie_child s = None"
  shows "pt_inv ids (sleep (ChProc (cur s)) s)"
  by (rule pt_sleep [OF assms(1,2)]) (use assms(3) in \<open>auto simp: zombie_child_def find_None_iff\<close>)

text \<open>An entry that is not in use and stays so, or becomes a child of the running process.\<close>

lemma pt_new:
  fixes s t :: "'z kstate_scheme"
  assumes "pt_inv ids s" "p < NPROC" "p_state (procs s p) = UNUSED" "running s"
    "procs t = (procs s)(p := x)" "cur t = cur s" "initproc t = initproc s" "nextpid t = u32 (nextpid s + 1)"
    "p_state x = UNUSED \<and> p_parent x = None \<or> p_state x = RUNNABLE \<and> p_parent x = Some (cur s) \<and> p_pid x = nextpid s"
    "ids \<longrightarrow> 0 < nextpid s \<and> nextpid s + 1 < 2147483648"
  shows "pt_inv ids t"
proof -
  note inv = pt_parts [OF assms(1)]
  have lv: "plive t i \<longleftrightarrow> plive s i \<or> i = p \<and> p_state x = RUNNABLE" for i
    using assms(2,3,5,9) by (auto simp: plive_def)
  have pn: "\<not> plive s p" using assms(3) by (simp add: plive_def)
  have lc: "plive s (cur s)" using pt_cur [OF assms(1)] assms(4) by (simp add: plive_def)
  have other: "procs t i = procs s i" if "i \<noteq> p" for i using assms(5) that by simp
  have here: "procs t p = x" using assms(5) by simp
  have nz: "p_state x \<noteq> ZOMBIE" "p_state x \<noteq> RUNNING" "p_state x \<noteq> SLEEPING" using assms(9) by auto
  have pe: "p_parent (procs s i) \<noteq> Some p" if "i < NPROC" for i using inv(6) [OF that] pn by blast
  show ?thesis unfolding pt_inv_def assms(6-8) lv
  proof (intro conjI)
    have ne: "initproc s \<noteq> p" using inv(1) pn by auto
    show "plive s (initproc s) \<or> initproc s = p \<and> p_state x = RUNNABLE" using inv(1) by blast
    show "p_state (procs t (initproc s)) \<noteq> ZOMBIE" "p_parent (procs t (initproc s)) = None" using inv(2,3) other [OF ne] by simp_all
    show "\<forall>i < NPROC. p_state (procs t i) = RUNNING \<longrightarrow> i = cur s"
      using pt_running [OF assms(1)] other here nz(2) by metis
    show "ids \<longrightarrow> (\<forall>i. plive s i \<or> i = p \<and> p_state x = RUNNABLE \<longrightarrow> 0 < p_pid (procs t i) \<and> p_pid (procs t i) < u32 (nextpid s + 1))"
    proof (intro allI impI)
      fix i assume ids and i: "plive s i \<or> i = p \<and> p_state x = RUNNABLE"
      have "u32 (nextpid s + 1) = nextpid s + 1" using assms(10) \<open>ids\<close> by simp
      then show "0 < p_pid (procs t i) \<and> p_pid (procs t i) < u32 (nextpid s + 1)"
        using i inv(4) [OF \<open>ids\<close>, of i] other [of i] here assms(9,10) \<open>ids\<close> pn by (cases "i = p") auto
    qed
    show "ids \<longrightarrow> (\<forall>i q. plive s i \<or> i = p \<and> p_state x = RUNNABLE \<longrightarrow> plive s q \<or> q = p \<and> p_state x = RUNNABLE \<longrightarrow>
        p_pid (procs t i) = p_pid (procs t q) \<longrightarrow> i = q)"
    proof (intro allI impI)
      fix i q assume ids and i: "plive s i \<or> i = p \<and> p_state x = RUNNABLE" and q: "plive s q \<or> q = p \<and> p_state x = RUNNABLE"
        and e: "p_pid (procs t i) = p_pid (procs t q)"
      show "i = q"
      proof (cases "i = p \<or> q = p")
        case True
        then show ?thesis using i q e inv(4) [OF \<open>ids\<close>, of i] inv(4) [OF \<open>ids\<close>, of q] other [of i] other [of q] here assms(9) pn by (cases "i = p"; cases "q = p") auto
      next
        case False
        then show ?thesis using i q e inv(5) [OF \<open>ids\<close>] other by simp
      qed
    qed
    show "\<forall>i < NPROC. \<forall>q. p_parent (procs t i) = Some q \<longrightarrow> q \<noteq> i \<and> (plive s i \<or> i = p \<and> p_state x = RUNNABLE) \<and>
        (plive s q \<or> q = p \<and> p_state x = RUNNABLE) \<and> p_state (procs t q) \<noteq> ZOMBIE"
    proof (intro allI impI)
      fix i q assume i: "i < NPROC" "p_parent (procs t i) = Some q"
      show "q \<noteq> i \<and> (plive s i \<or> i = p \<and> p_state x = RUNNABLE) \<and> (plive s q \<or> q = p \<and> p_state x = RUNNABLE) \<and> p_state (procs t q) \<noteq> ZOMBIE"
      proof (cases "i = p")
        case True
        then have "q = cur s" "p_state x = RUNNABLE" using i(2) here assms(9) by auto
        moreover have "cur s \<noteq> p" using lc pn by auto
        ultimately show ?thesis using True lc other [of "cur s"] assms(4) by simp
      next
        case False
        then have "p_parent (procs s i) = Some q" using i(2) other by simp
        then show ?thesis using inv(6) [OF i(1)] other [of q] here nz(1) by (cases "q = p") auto
      qed
    qed
    show "\<forall>q < NPROC. p_state (procs t q) = SLEEPING \<and> p_chan (procs t q) = Some (ChProc q) \<longrightarrow>
        (\<forall>i < NPROC. p_parent (procs t i) = Some q \<longrightarrow> p_state (procs t i) \<noteq> ZOMBIE)"
    proof (intro allI impI, elim conjE)
      fix q i assume a: "q < NPROC" "p_state (procs t q) = SLEEPING" "p_chan (procs t q) = Some (ChProc q)" "i < NPROC" "p_parent (procs t i) = Some q"
      have "q \<noteq> p" using a(2) here nz(3) by auto
      then show "p_state (procs t i) \<noteq> ZOMBIE" using a inv(7) [of q i] other here nz(1) by (cases "i = p") auto
    qed
  qed (rule pt_cur [OF assms(1)])
qed

text \<open>An operation that changes the entry \<open>p\<close> only, by a change that \<open>g\<close> describes.\<close>

definition at_entry :: "nat \<Rightarrow> (proc \<Rightarrow> bool) \<Rightarrow> 'z kstate_scheme \<Rightarrow> 'z kstate_scheme \<Rightarrow> bool" where
  "at_entry p g s t \<longleftrightarrow> cur t = cur s \<and> initproc t = initproc s \<and> nextpid t = nextpid s \<and> (\<exists>x. procs t = (procs s)(p := x) \<and> g x)"

lemma fork_files_entry:
  assumes "fork_files np i k s = Inr (r, t)" "g (procs s np)" "\<And>x f. g x \<Longrightarrow> g (x\<lparr>p_ofile := f\<rparr>)"
  shows "at_entry np g s t"
  using assms(1,2)
proof (induction k arbitrary: i s)
  case 0
  then show ?case by (auto simp: ret_def at_entry_def intro!: exI [of _ "procs s np"])
next
  case (Suc k)
  obtain u where rest: "fork_files np (i + 1) k u = Inr (r, t)" and u: "(p_ofile (myproc s) i = None \<and> u = s) \<or>
      (\<exists>f f' v. filedup f s = Inr (f', v) \<and> u = setp np (\<lambda>x. x\<lparr>p_ofile := (p_ofile x)(i := Some f')\<rparr>) v)"
    using Suc.prems(1) by (auto simp: bnd_eq_Inr upd_def split: option.splits)
  have "at_entry np g s u" using u
  proof (elim disjE exE conjE)
    assume "u = s"
    then show ?thesis using Suc.prems(2) by (auto simp: at_entry_def intro!: exI [of _ "procs s np"])
  next
    fix f f' v assume "filedup f s = Inr (f', v)" "u = setp np (\<lambda>x. x\<lparr>p_ofile := (p_ofile x)(i := Some f')\<rparr>) v"
    then show ?thesis using filedup_table [of f s f' v] Suc.prems(2) assms(3) by (auto simp: at_entry_def table_conv)
  qed
  then obtain x where x: "cur u = cur s" "initproc u = initproc s" "nextpid u = nextpid s" "procs u = (procs s)(np := x)" "g x" by (auto simp: at_entry_def)
  then have "at_entry np g u t" using Suc.IH [OF rest] by simp
  then show ?case using x by (auto simp: at_entry_def)
qed

lemma allocproc_entry:
  assumes "allocproc s = Inr (r, t)"
  shows "r = None \<and> t = s \<or>
    (\<exists>p x. p < NPROC \<and> p_state (procs s p) = UNUSED \<and> procs t = (procs s)(p := x) \<and> cur t = cur s \<and> initproc t = initproc s \<and>
       nextpid t = u32 (nextpid s + 1) \<and> p_pid x = nextpid s \<and> p_parent x = p_parent (procs s p) \<and>
       (r = None \<and> p_state x = UNUSED \<or> r = Some p))"
proof (cases "find (\<lambda>p. p_state (procs s p) = UNUSED) [0..<NPROC]")
  case None
  then show ?thesis using assms by (simp add: allocproc_def)
next
  case (Some p)
  have p: "p < NPROC" "p_state (procs s p) = UNUSED" using Some by (auto simp: find_Some_iff)
  let ?s = "(setp p (\<lambda>x. x\<lparr>p_state := EMBRYO, p_pid := nextpid s\<rparr>) s)\<lparr>nextpid := u32 (nextpid s + 1)\<rparr>"
  obtain k u where k: "km_op kalloc ?s = Inr (k, u)"
      "(if k = 0 then bnd (upd (setp p (\<lambda>x. x\<lparr>p_state := UNUSED\<rparr>))) (\<lambda>_. ret None) else ret (Some p)) (setp p (\<lambda>x. x\<lparr>p_kstack := k\<rparr>) u) = Inr (r, t)"
    using assms Some by (auto simp: allocproc_def bnd_eq_Inr upd_def)
  have u: "procs u = (procs s)(p := (procs s p)\<lparr>p_state := EMBRYO, p_pid := nextpid s\<rparr>)" "cur u = cur s" "initproc u = initproc s" "nextpid u = u32 (nextpid s + 1)"
    using km_op_table [OF k(1)] by (simp_all add: table_conv)
  show ?thesis using k(2) u p
    by (intro disjI2 exI [of _ p] exI [of _ "procs t p"]) (auto simp: bnd_eq_Inr upd_def ret_def split: if_splits)
qed

lemma fork_copy_entry:
  assumes "fork_copy np s = Inr (r, t)" "cur s \<noteq> np"
  shows "at_entry np (\<lambda>x. p_pid x = p_pid (procs s np) \<and>
    (p_state x = UNUSED \<and> p_parent x = p_parent (procs s np) \<or> p_state x = RUNNABLE \<and> p_parent x = Some (cur s))) s t"
proof -
  obtain pg u where k: "km_op (copyuvm (p_pgdir (myproc s)) (p_sz (myproc s))) s = Inr (pg, u)"
    using assms(1) by (auto simp: fork_copy_def bnd_eq_Inr)
  note u = km_op_table [OF k, unfolded table_conv]
  let ?v = "setp np (\<lambda>x. x\<lparr>p_pgdir := pg\<rparr>) u"
  show ?thesis
  proof (cases "pg = 0")
    case True
    then obtain a w where w: "km_op (kfree (p_kstack (procs ?v np))) ?v = Inr (a, w)" "t = setp np (\<lambda>x. x\<lparr>p_kstack := 0, p_state := UNUSED\<rparr>) w"
      using assms(1) k by (auto simp: fork_copy_def bnd_eq_Inr upd_def ret_def)
    show ?thesis using km_op_table [OF w(1)] u
      by (auto simp: w(2) table_conv at_entry_def intro!: exI [of _ "(procs s np)\<lparr>p_pgdir := pg, p_kstack := 0, p_state := UNUSED\<rparr>"])
  next
    case False
    let ?w = "setp np (\<lambda>x. x\<lparr>p_sz := p_sz (myproc ?v), p_parent := Some (cur ?v), p_tf := (p_tf (myproc ?v))\<lparr>tf_eax := 0\<rparr>\<rparr>) ?v"
    let ?g = "\<lambda>x. p_pid x = p_pid (procs s np) \<and> p_parent x = Some (cur s)"
    obtain a w where w: "fork_files np 0 NOFILE ?w = Inr (a, w)" "cur t = cur w" "initproc t = initproc w" "nextpid t = nextpid w"
        "procs t = (procs w)(np := (procs w np)\<lparr>p_cwd := Some (cur_cwd w), p_name := safestrcpy_to (p_name (procs w np)) (p_name (myproc w)) 16,
           p_state := RUNNABLE\<rparr>)"
      using assms(1) k False by (auto simp: fork_copy_def bnd_eq_Inr upd_def gets_def idup_def ret_def seti_def)
    have "at_entry np ?g ?w w" by (rule fork_files_entry [OF w(1)]) (use u in auto)
    then show ?thesis using w u by (auto simp: at_entry_def)
  qed
qed

lemma fork_ok:
  assumes "pt_inv ids s" "running s" "fork s = Inr (r, t)" "ids \<longrightarrow> nextpid s + 1 < 2147483648 \<or> nextpid t = nextpid s"
  shows "pt_inv ids t \<and> (nextpid t = nextpid s \<or> nextpid t = u32 (nextpid s + 1))"
proof -
  have ne: "u32 (nextpid s + 1) \<noteq> nextpid s" using u32_ne [of "nextpid s" 1] u32_less [of "nextpid s + 1"] by force
  have pos: "ids \<longrightarrow> 0 < nextpid s" using pt_parts(4) [OF assms(1) _ pt_parts(1) [OF assms(1)]] by fastforce
  obtain a u where u: "allocproc s = Inr (a, u)" "(case a of None \<Rightarrow> ret (- 1) | Some np \<Rightarrow> fork_copy np) u = Inr (r, t)"
    using assms(3) unfolding fork_def bnd_eq_Inr by blast
  from allocproc_entry [OF u(1)] show ?thesis
  proof (elim disjE exE conjE)
    assume "a = None" "u = s"
    then show ?thesis using u(2) assms(1) by (simp add: ret_def)
  next
    fix p x assume p: "p < NPROC" "p_state (procs s p) = UNUSED" "procs u = (procs s)(p := x)" "cur u = cur s" "initproc u = initproc s"
      "nextpid u = u32 (nextpid s + 1)" "p_parent x = p_parent (procs s p)" and a: "a = None" "p_state x = UNUSED"
    have np: "p_parent (procs s p) = None" using pt_parts(6) [OF assms(1) p(1)] p(2) by (cases "p_parent (procs s p)") (auto simp: plive_def)
    moreover have "t = u" using u(2) a by (simp add: ret_def)
    ultimately show ?thesis using a ne pos assms(4) pt_new [OF assms(1) p(1,2) assms(2) p(3-6)] p(6,7) by auto
  next
    fix p x assume p: "p < NPROC" "p_state (procs s p) = UNUSED" "procs u = (procs s)(p := x)" "cur u = cur s" "initproc u = initproc s"
      "nextpid u = u32 (nextpid s + 1)" "p_pid x = nextpid s" "p_parent x = p_parent (procs s p)" and a: "a = Some p"
    have np: "p_parent (procs s p) = None" using pt_parts(6) [OF assms(1) p(1)] p(2) by (cases "p_parent (procs s p)") (auto simp: plive_def)
    have "cur u \<noteq> p" using p(2,4) assms(2) by auto
    then obtain y where y: "procs t = (procs u)(p := y)" "cur t = cur u" "initproc t = initproc u" "nextpid t = nextpid u" "p_pid y = nextpid s"
        "p_state y = UNUSED \<and> p_parent y = None \<or> p_state y = RUNNABLE \<and> p_parent y = Some (cur s)"
      using fork_copy_entry [of p u r t] u(2) a p(3,4,7,8) np by (auto simp: at_entry_def)
    have "pt_inv ids t" by (rule pt_new [OF assms(1) p(1,2) assms(2), of t y]) (use y p pos ne assms(4) in auto)
    then show ?thesis using y p by simp
  qed
qed

subsection \<open>Properties\<close>

lemma reparent_nextpid: "nextpid (reparent p k s) = nextpid s"
  by (induction k arbitrary: p s) (auto simp: Let_def)

lemma exit_table_nextpid: "nextpid (exit_table s) = nextpid s"
  by (simp add: exit_table_def Let_def reparent_nextpid split: option.splits)

lemma scheduler_run_nextpid: "scheduler_run p s = Inr (r, t) \<Longrightarrow> nextpid t = nextpid s"
  by (auto simp: scheduler_run_def switchuvm_def bnd_eq_Inr upd_def split: if_splits)

lemma wait_nextpid: "wait s = Inr (r, t) \<Longrightarrow> nextpid t = nextpid s"
  by (cases "zombie_child s") (auto simp: wait_def bnd_eq_Inr upd_def ret_def table_conv split: if_splits dest!: km_op_table)

lemma pt_step_inv:
  assumes "pt_step s t" "pt_inv ids s" "ids \<longrightarrow> nextpid s + 1 < 2147483648 \<or> nextpid t = nextpid s"
  shows "pt_inv ids t \<and> (nextpid t = nextpid s \<or> nextpid t = u32 (nextpid s + 1))"
  using assms
proof (induction rule: pt_step.induct)
  case (p_fork s r t) then show ?case using fork_ok by blast
next
  case (p_exit s) then show ?case using exit_table_ok by (auto simp: exit_table_nextpid)
next
  case (p_reap s r t) then show ?case using wait_ok wait_nextpid by blast
next
  case (p_wait s) then show ?case using wait_sleep_ok by (auto simp: sleep_def)
next
  case (p_sleep s ch) then show ?case using pt_sleep [of ids s ch] by (auto simp: sleep_def)
next
  case (p_back s) then show ?case using pt_back [of ids s] by (auto simp: sleep_back_def)
next
  case (p_wakeup s ch) then show ?case using pt_wakeup by auto
next
  case (p_tick s) then show ?case using pt_tick by (auto simp: timer_tick_def)
next
  case (p_kill s pid r t) then show ?case using pt_kill [of ids s pid r t] by (auto simp: kill_def split: option.splits)
next
  case (p_yield s) then show ?case using pt_yield [of ids s] by (auto simp: yield_def)
next
  case (p_run s i p t) then show ?case using pt_dispatch [of ids s i p t] scheduler_run_nextpid by blast
qed

text \<open>A run of the table in which \<open>k\<close> process ids are given out.\<close>

inductive pt_runs :: "nat \<Rightarrow> 'z kstate_scheme \<Rightarrow> 'z kstate_scheme \<Rightarrow> bool" where
  runs_none: "pt_runs 0 s s"
| runs_step: "pt_runs k s t \<Longrightarrow> pt_step t u \<Longrightarrow> pt_runs (if nextpid u = nextpid t then k else Suc k) s u"

lemma pt_runs_inv:
  assumes "pt_runs k s t" "pt_inv ids s" "ids \<longrightarrow> nextpid s + k < 2147483648"
  shows "pt_inv ids t \<and> (ids \<longrightarrow> nextpid t \<le> nextpid s + k)"
  using assms
proof (induction rule: pt_runs.induct)
  case (runs_step k s t u)
  have "ids \<longrightarrow> nextpid s + k < 2147483648" using runs_step.prems(2) by (auto split: if_splits)
  then have IH: "pt_inv ids t" "ids \<longrightarrow> nextpid t \<le> nextpid s + k" using runs_step.IH runs_step.prems(1) by blast+
  have b: "ids \<longrightarrow> nextpid t + 1 < 2147483648 \<or> nextpid u = nextpid t" using IH(2) runs_step.prems(2) by (auto split: if_splits)
  then show ?case using pt_step_inv [OF runs_step.hyps(2) IH(1) b] IH(2) by auto
qed simp

text \<open>C27. Whatever processes do (fork, exit, wait, sleep, kill, yield) and in whatever order they are woken
  and dispatched: at most the current process is running; the parent of every process is in use and has not
  exited; and a process asleep in \<open>wait\<close> has no child that has exited, so no exit is missed. As long as the
  int \<open>nextpid\<close> does not run over, the processes in use have distinct positive ids.\<close>

theorem process_table:
  assumes "pt_inv True s" "pt_runs k s t"
  shows "(\<forall>p < NPROC. p_state (procs t p) = RUNNING \<longrightarrow> p = cur t) \<and>
    (\<forall>p < NPROC. \<forall>q. p_parent (procs t p) = Some q \<longrightarrow> plive t q \<and> p_state (procs t q) \<noteq> ZOMBIE \<and>
       (p_state (procs t p) = ZOMBIE \<longrightarrow> \<not> in_wait t q)) \<and>
    (nextpid s + k < 2147483648 \<longrightarrow>
       (\<forall>p. plive t p \<longrightarrow> 0 < s32 (p_pid (procs t p))) \<and>
       (\<forall>p q. plive t p \<longrightarrow> plive t q \<longrightarrow> s32 (p_pid (procs t p)) = s32 (p_pid (procs t q)) \<longrightarrow> p = q))"
proof (intro conjI)
  have "pt_inv False s" by (rule pt_weaken [OF assms(1)])
  then have inv: "pt_inv False t" using pt_runs_inv [OF assms(2)] by blast
  note parts = pt_parts [OF inv]
  have "\<not> in_wait t q" if "p < NPROC" "p_parent (procs t p) = Some q" "p_state (procs t p) = ZOMBIE" for p q
    using parts(7) [of q p] parts(6) [OF that(1,2)] that by (auto simp: in_wait_def plive_def)
  then show "\<forall>p < NPROC. \<forall>q. p_parent (procs t p) = Some q \<longrightarrow> plive t q \<and> p_state (procs t q) \<noteq> ZOMBIE \<and>
       (p_state (procs t p) = ZOMBIE \<longrightarrow> \<not> in_wait t q)" using parts(6) by blast
  show "\<forall>p < NPROC. p_state (procs t p) = RUNNING \<longrightarrow> p = cur t" using pt_running [OF inv] by blast
  show "nextpid s + k < 2147483648 \<longrightarrow> (\<forall>p. plive t p \<longrightarrow> 0 < s32 (p_pid (procs t p))) \<and>
       (\<forall>p q. plive t p \<longrightarrow> plive t q \<longrightarrow> s32 (p_pid (procs t p)) = s32 (p_pid (procs t q)) \<longrightarrow> p = q)"
  proof
    assume small: "nextpid s + k < 2147483648"
    have i: "pt_inv True t" "nextpid t < 2147483648" using pt_runs_inv [OF assms(2,1)] small by auto
    note ids = pt_parts(4,5) [OF i(1) TrueI]
    have e: "s32 (p_pid (procs t p)) = int (p_pid (procs t p))" if "plive t p" for p
      using ids(1) [OF that] i(2) by (simp add: s32_def)
    show "(\<forall>p. plive t p \<longrightarrow> 0 < s32 (p_pid (procs t p))) \<and>
       (\<forall>p q. plive t p \<longrightarrow> plive t q \<longrightarrow> s32 (p_pid (procs t p)) = s32 (p_pid (procs t q)) \<longrightarrow> p = q)"
    proof (intro conjI allI impI)
      fix p assume "plive t p"
      then show "0 < s32 (p_pid (procs t p))" using ids(1) e by simp
    next
      fix p q assume pq: "plive t p" "plive t q" "s32 (p_pid (procs t p)) = s32 (p_pid (procs t q))"
      then show "p = q" by (intro ids(2) [OF pq(1,2)]) (simp add: e)
    qed
  qed
qed

lemma pt_inv_k0: "pt_inv ids k0"
  by (auto simp: pt_inv_def plive_def k0_sel procs0_def proc0_def const_defs split: if_splits)

theorem process_table_witness:
  "\<exists>t. pt_runs 0 k0 t \<and> p_state (procs t 1) = ZOMBIE \<and> \<not> in_wait t 0 \<and>
    (\<forall>p q. plive t p \<longrightarrow> plive t q \<longrightarrow> s32 (p_pid (procs t p)) = s32 (p_pid (procs t q)) \<longrightarrow> p = q)"
proof -
  have s: "running k0" "cur k0 \<noteq> initproc k0" by (simp_all add: k0_sel procs0_def proc0_def)
  have r: "pt_runs 0 k0 (exit_table k0)" using runs_step [OF runs_none p_exit [OF s]] by (simp add: exit_table_nextpid)
  have w: "\<not> (p_parent (procs k0 i) = Some (cur k0))" for i by (simp add: k0_sel procs0_def proc0_def)
  have "passed_on {0..<0 + NPROC} (wakeup1 (ChProc 0) k0) (reparent 0 NPROC (wakeup1 (ChProc 0) k0))"
    using s(2) by (intro reparent_ok) simp
  then have z: "p_state (procs (exit_table k0) 1) = ZOMBIE" "p_parent (procs (exit_table k0) 1) = Some 0"
    by (simp_all add: exit_table_def Let_def passed_on_def wakeup1_entry k0_sel procs0_def proc0_def)
  note pt = process_table [OF pt_inv_k0 r]
  have "1 < NPROC" by (simp add: const_defs)
  then have w: "\<not> in_wait (exit_table k0) 0" using conjunct1 [OF conjunct2 [OF pt]] z by blast
  have "nextpid k0 + 0 < 2147483648" by (simp add: k0_sel)
  from conjunct2 [OF mp [OF conjunct2 [OF conjunct2 [OF pt]] this]] show ?thesis
    by (intro exI [of _ "exit_table k0"] conjI r z(1) w)
qed

subsection \<open>The scheduler\<close>

text \<open>The position of the scan before dispatch \<open>k\<close>, when it starts at entry \<open>i\<close> and \<open>S k\<close> is the state the scan
  finds at dispatch \<open>k\<close>; between dispatches the processes may do anything.\<close>

fun scan_pos :: "(nat \<Rightarrow> 'z kstate_scheme) \<Rightarrow> nat \<Rightarrow> nat \<Rightarrow> nat" where
  "scan_pos S i 0 = i"
| "scan_pos S i (Suc k) = (case scheduler_next (scan_pos S i k) (S k) of Some p \<Rightarrow> p + 1 | None \<Rightarrow> scan_pos S i k)"

text \<open>How many entries the scan at \<open>i\<close> passes before it comes to \<open>p\<close>.\<close>

definition scan_dist :: "nat \<Rightarrow> nat \<Rightarrow> nat" where
  "scan_dist i p = (if i \<le> p then p - i else p + NPROC - i)"

lemma find_upt_le: "a \<le> p \<Longrightarrow> p < b \<Longrightarrow> P p \<Longrightarrow> \<exists>q. find P [a..<b] = Some q \<and> a \<le> q \<and> q \<le> p"
proof (induction "p - a" arbitrary: a)
  case 0
  then show ?case by (simp add: upt_rec [of a])
next
  case (Suc n)
  show ?case
  proof (cases "P a")
    case True
    then show ?thesis using Suc by (simp add: upt_rec [of a])
  next
    case False
    have "n = p - Suc a" "Suc a \<le> p" using Suc.hyps(2) by simp_all
    then obtain q where "find P [Suc a..<b] = Some q" "Suc a \<le> q" "q \<le> p" using Suc.hyps(1) Suc.prems by blast
    then show ?thesis using False Suc.prems by (auto simp: upt_rec [of a])
  qed
qed

lemma find_app: "find P (xs @ ys) = (case find P xs of None \<Rightarrow> find P ys | Some x \<Rightarrow> Some x)"
  by (induction xs) auto

lemma scheduler_next_dist:
  assumes "p < NPROC" "p_state (procs s p) = RUNNABLE" "i \<le> NPROC"
  shows "\<exists>q. scheduler_next i s = Some q \<and> q < NPROC \<and> (q = p \<or> scan_dist (q + 1) p < scan_dist i p)"
proof (cases "i \<le> p")
  case True
  obtain q where "find (\<lambda>p. p_state (procs s p) = RUNNABLE) [i..<NPROC] = Some q" "i \<le> q" "q \<le> p"
    using find_upt_le [of i p NPROC "\<lambda>p. p_state (procs s p) = RUNNABLE"] assms True by blast
  then show ?thesis using True assms by (intro exI [of _ q]) (auto simp: scheduler_next_def find_app scan_dist_def)
next
  case False
  show ?thesis
  proof (cases "find (\<lambda>p. p_state (procs s p) = RUNNABLE) [i..<NPROC]")
    case None
    obtain q where "find (\<lambda>p. p_state (procs s p) = RUNNABLE) [0..<NPROC] = Some q" "q \<le> p"
      using find_upt_le [of 0 p NPROC "\<lambda>p. p_state (procs s p) = RUNNABLE"] assms by blast
    then show ?thesis using None False assms by (intro exI [of _ q]) (auto simp: scheduler_next_def find_app scan_dist_def)
  next
    case (Some q)
    then have "i \<le> q" "q < NPROC" by (auto simp: find_Some_iff)
    then show ?thesis using Some False assms by (intro exI [of _ q]) (auto simp: scheduler_next_def find_app scan_dist_def)
  qed
qed

text \<open>C28. The scheduler starves nobody: a process that stays runnable is dispatched within \<open>NPROC\<close> dispatches,
  wherever the scan stands and whatever the other processes do in between.\<close>

theorem scheduler_fair:
  assumes "p < NPROC" "i \<le> NPROC" "\<forall>k < NPROC. p_state (procs (S k) p) = RUNNABLE"
  shows "\<exists>k < NPROC. scheduler_next (scan_pos S i k) (S k) = Some p"
proof (rule ccontr)
  assume none: "\<not> ?thesis"
  have "scan_pos S i k \<le> NPROC \<and> scan_dist (scan_pos S i k) p + k < NPROC" if "k \<le> NPROC" for k
    using that
  proof (induction k)
    case 0
    then show ?case using assms(1,2) by (auto simp: scan_dist_def)
  next
    case (Suc k)
    then have IH: "scan_pos S i k \<le> NPROC" "scan_dist (scan_pos S i k) p + k < NPROC" by auto
    obtain q where q: "scheduler_next (scan_pos S i k) (S k) = Some q" "q < NPROC" "q = p \<or> scan_dist (q + 1) p < scan_dist (scan_pos S i k) p"
      using scheduler_next_dist [OF assms(1) _ IH(1), of "S k"] assms(3) Suc.prems by auto
    then show ?case using none IH Suc.prems by auto
  qed
  from this [of NPROC] show False by simp
qed

theorem scheduler_fair_witness: "\<exists>k < NPROC. scheduler_next (scan_pos (\<lambda>_. yield k0) 5 k) (yield k0) = Some 1"
  by (rule scheduler_fair) (simp_all add: yield_def k0_sel const_defs)

subsection \<open>Killing an unused entry\<close>

text \<open>\<open>kill\<close> does not look at the state of an entry: with id 0, the id of the entries that were never used or
  have been reaped, it reports success and marks an unused entry, and the next process created there starts
  out killed.\<close>

theorem kill_zero:
  assumes "p < NPROC" "\<forall>q < p. p_state (procs s q) \<noteq> UNUSED \<and> p_pid (procs s q) \<noteq> 0" "p_state (procs s p) = UNUSED" "p_pid (procs s p) = 0"
    "freelist (km s) \<noteq> 0"
  shows "\<exists>t u. kill 0 s = Inr (0, t) \<and> allocproc t = Inr (Some p, u) \<and> p_killed (procs u p)"
proof -
  let ?t = "(setp p (\<lambda>x. x\<lparr>p_killed := True, p_state := (if p_state x = SLEEPING then RUNNABLE else p_state x)\<rparr>) s)\<lparr>cur_killed := (cur_killed s \<or> p = cur s)\<rparr>"
  have f: "find P [0..<NPROC] = Some p" if "P p" "\<And>q. q < p \<Longrightarrow> \<not> P q" for P
    using assms(1) that by (auto simp: find_Some_iff intro!: exI [of _ p])
  have "find (\<lambda>q. p_pid (procs s q) = 0) [0..<NPROC] = Some p" by (rule f) (use assms(2,4) in auto)
  then have k: "kill 0 s = Inr (0, ?t)" by (simp add: kill_def)
  have "find (\<lambda>q. p_state (procs ?t q) = UNUSED) [0..<NPROC] = Some p" by (rule f) (use assms(2,3) in auto)
  then have "\<exists>u. allocproc ?t = Inr (Some p, u) \<and> p_killed (procs u p)"
    using assms(5) by (simp add: allocproc_def km_op_def kalloc_def bnd_def upd_def ret_def setp_def Let_def)
  then show ?thesis using k by blast
qed

theorem kill_zero_witness: "\<exists>t u. kill 0 k0 = Inr (0, t) \<and> allocproc t = Inr (Some 2, u) \<and> p_killed (procs u 2)"
  by (rule kill_zero) (auto simp: k0_sel procs0_def proc0_def free_page_def const_defs)

end
