(* ===== verification/FsProps.thy ===== *)
theory FsProps
  imports Machine
begin

section \<open>Properties of the native file system\<close>

text \<open>
  The properties of block allocation, inodes and files, each applied to the machine of \<open>Machine\<close>.
\<close>

subsection \<open>Blocks\<close>

text \<open>C16. \<open>balloc\<close> returns a data block that the bitmap has as free, clears it and marks it; \<open>bfree\<close> of
  that block gives back exactly the bitmap of before, and no other block of the disk is touched by either.\<close>

theorem balloc_bfree:
  assumes "nrep s V Map.empty P" "geom_ok (sb s)" "bm_ok (sb s) V" "free_blocks (sb s) V \<noteq> {}" "card P + 2 < LOGSIZE - 1"
  shows "wp (bnd (balloc ROOTDEV) (\<lambda>b. bnd (bfree ROOTDEV b) (\<lambda>_. ret b)))
    (\<lambda>b t. b \<in> free_blocks (sb s) V \<and> dblock (sb s) b \<and> (\<exists>P'. nrep t (V(b := (\<lambda>_. 0))) Map.empty P')) s"
proof (rule balloc_file [OF assms(1-3) _ _ assms(4)])
  fix b t
  let ?b = "bm (sb s)" and ?W = "allocd (sb s) b V" and ?P = "insert (ROOTDEV, b) (insert (ROOTDEV, bm (sb s)) P)"
  let ?Q = "\<lambda>b t. b \<in> free_blocks (sb s) V \<and> dblock (sb s) b \<and> (\<exists>P'. nrep t (V(b := (\<lambda>_. 0))) Map.empty P')"
  assume b: "avail (sb s) V b" and t: "nfr s t" "nrep t ?W Map.empty ?P"
  note st = nfr_fields(1) [OF t(1)] and db = availD(1) [OF b]
  have fb: "b \<in> free_blocks (sb s) V" using b by (simp add: avail_def dblock_def free_blocks_def)
  note al = allocd_simps [OF assms(2) db]
  have c: "card ?P \<le> card P + 2" by (rule card_pins)
  have e: "?W(?b := bclr b (?W ?b)) = V(b := (\<lambda>_. 0))"
  proof
    fix n
    have "bclr b (bset b (V ?b)) = V ?b" using b by (intro bclr_bset) (simp add: avail_def)
    then show "(?W(?b := bclr b (?W ?b))) n = (V(b := (\<lambda>_. 0))) n"
      using geomD(5) [OF assms(2) db] by (simp add: allocd_def)
  qed
  have "wp (bfree ROOTDEV b) (\<lambda>_ u. nfr t u \<and> nrep u (?W(?b := bclr b (?W ?b))) Map.empty (insert (ROOTDEV, ?b) ?P)) t"
    by (rule bfree_ok [OF t(2), unfolded st])
      (use assms(2,5) db c al(4) [of V b] in \<open>simp_all add: dblock_def const_defs\<close>)
  then show "wp (bnd (bfree ROOTDEV b) (\<lambda>_. ret b)) ?Q t"
    unfolding e by (rule wp_bndI) (use fb db in \<open>auto simp only: wp_ret\<close>)
qed (use assms(5) in simp_all)

theorem balloc_bfree_witness:
  "\<exists>b t. bnd (balloc ROOTDEV) (\<lambda>b. bnd (bfree ROOTDEV b) (\<lambda>_. ret b)) f0 = Inr (b, t) \<and> b \<in> {53..<1000}"
proof -
  have "bm_ok sb0 V0" using nfileD(1) [OF f0_file] by (simp add: fopen_def f0_sel)
  moreover have "geom_ok (sb f0)" "free_blocks (sb f0) V0 \<noteq> {}" "card {} + 2 < LOGSIZE - 1"
    using geom0 free0 by (simp_all add: f0_sel const_defs)
  ultimately show ?thesis using balloc_bfree [OF nrep0] free0 unfolding f0_sel(1) wp_iff by blast
qed

text \<open>\<open>bfree\<close> of a block that the bitmap has as free panics.\<close>

theorem bfree_twice:
  assumes "nrep s V Map.empty P" "geom_ok (sb s)" "n \<in> free_blocks (sb s) V" "card P < NBUF"
  shows "bfree ROOTDEV n s = Inl (Panic ''freeing free block'')"
  using bfree_free_panics [OF assms(1,2)] assms(3,4) by (simp add: free_blocks_def)

theorem bfree_twice_witness: "bfree ROOTDEV 600 f0 = Inl (Panic ''freeing free block'')"
  using bfree_twice [OF nrep0] geom0 free0 by (simp add: f0_sel const_defs)

subsection \<open>Files\<close>

text \<open>C15. A native file is a list of bytes. \<open>readi\<close> at any offset returns the bytes from there on, at
  most \<open>n\<close> of them and not past the end, with their number, and -1 past the end; it changes no
  block and no file.\<close>

theorem readi_bytes:
  assumes "nfile s V P ip j bs" "card P + 1 < NBUF" "off + n < 4294967296"
  shows "\<exists>t. readi ip off n s =
      Inr (if off \<le> length bs then (int (min n (length bs - off)), take n (drop off bs)) else (-1, []), t)
    \<and> nfile t V P ip j bs"
  using readi_ok [OF assms] by (auto simp: wp_iff)

theorem readi_bytes_witness: "\<exists>t. readi 0 1 100 f0 = Inr ((2, [2, 3]), t)"
  using readi_bytes [OF f0_file, of 1 100] by (auto simp: const_defs)

text \<open>C8. \<open>writei\<close> replaces the bytes from \<open>off\<close> on and extends the file where it ends earlier, as long
  as the offset is not past the end, the result is not past the maximal size, and the disk and the log
  have room. A later \<open>readi\<close> returns what was written, between the bytes that were there; when the file
  grew, the inode on disk says so.\<close>

theorem writei_readi:
  assumes "nfile s V P ip j bs" "off \<le> length bs" "off + n \<le> MAXFILE * BSIZE"
    "2 * nblk off n \<le> card (free_blocks (sb s) V)" "card P + 4 * nblk off n + 1 < LOGSIZE - 1"
    "at \<le> max (length bs) (off + n)" "at + m < 4294967296"
  shows "\<exists>t u V' P' k. writei ip src off n s = Inr (int n, t) \<and> nfile t V' P' ip j (splice_at bs off (bytes src 0 n)) \<and>
     (length bs < off + n \<longrightarrow> disk_inode (sb s) V' (i_inum (inodes s ip)) = dinode_of t ip j) \<and>
     readi ip at m t = Inr ((k, take m (drop at (splice_at bs off (bytes src 0 n)))), u)"
proof -
  obtain t V' P' where t: "writei ip src off n s = Inr (int n, t)" "nfile t V' P' ip j (splice_at bs off (bytes src 0 n))"
    "length bs < off + n \<longrightarrow> disk_inode (sb s) V' (i_inum (inodes s ip)) = dinode_of t ip j"
    "card P' \<le> card P + 4 * nblk off n + 1"
    using writei_ok [OF assms(1-5), of src] by (auto simp: wp_iff written_def)
  have "card P' + 1 < NBUF" using t(4) assms(5) by (simp add: const_defs)
  from readi_ok [OF t(2) this assms(7)] show ?thesis
    using t(1-3) assms(6) length_splice [OF assms(2)] by (auto simp: wp_iff)
qed

lemma nblk_small: "0 < n \<Longrightarrow> off + n \<le> BSIZE \<Longrightarrow> nblk off n = 1"
proof -
  assume n: "0 < n" "off + n \<le> BSIZE"
  then have "off mod BSIZE = off" by (intro mod_less) linarith
  then have "min n (BSIZE - off mod BSIZE) = n" using n by simp
  then show ?thesis using n by (subst nblk.simps) (simp add: Let_def nblk.simps [of _ 0])
qed

lemma f0_room: "0 < n \<Longrightarrow> off + n \<le> 2048 \<Longrightarrow> 2 * nblk off n \<le> card (free_blocks (sb f0) V0)"
  "0 < n \<Longrightarrow> off + n \<le> 2048 \<Longrightarrow> card {} + 4 * nblk off n + 1 < LOGSIZE - 1"
  "off + n \<le> 2048 \<Longrightarrow> off + n \<le> MAXFILE * BSIZE"
  using nblk_small [of n off] free0 by (simp_all add: f0_sel const_defs)

theorem writei_readi_witness:
  "\<exists>t u k. writei 0 (\<lambda>i. of_nat (i + 7)) 2 3 f0 = Inr (3, t) \<and> readi 0 0 9 t = Inr ((k, [1, 2, 7, 8, 9]), u)"
  using writei_readi [OF f0_file _ f0_room(3) f0_room(1,2), of 2 3 0 9 "\<lambda>i. of_nat (i + 7)"]
  by (auto simp: splice_at_def bytes_def upt_rec)

text \<open>C9. Writing to one file leaves every other file alone: with the same hypotheses, a file whose blocks
  are its own has the same bytes afterwards, and the other inodes on disk are unchanged.\<close>

theorem writei_keeps_others:
  assumes "nfile s V P ip j bs" "off \<le> length bs" "off + n \<le> MAXFILE * BSIZE"
    "2 * nblk off n \<le> card (free_blocks (sb s) V)" "card P + 4 * nblk off n + 1 < LOGSIZE - 1"
    "nfile s V P iq k cs" "iq \<noteq> ip" "apart s V j k"
  shows "\<exists>t V' P'. writei ip src off n s = Inr (int n, t) \<and> nfile t V' P' iq k cs \<and>
    (\<forall>m < sb_ninodes (sb s). m \<noteq> i_inum (inodes s ip) \<longrightarrow> disk_inode (sb s) V' m = disk_inode (sb s) V m)"
proof -
  obtain t V' P' where t: "writei ip src off n s = Inr (int n, t)" "nfile t V' P' ip j (splice_at bs off (bytes src 0 n))"
    "file_frame s V ip j t V'"
    using writei_ok [OF assms(1-5), of src] by (auto simp: wp_iff written_def)
  then show ?thesis using nfile_frame [OF t(3,2) assms(6-8)] by (auto simp: file_frame_def)
qed

theorem writei_keeps_others_witness:
  "\<exists>t V' P'. writei 0 (\<lambda>_. 9) 0 2000 f0 = Inr (2000, t) \<and> nfile t V' P' 1 1 [4, 5]"
proof -
  have "apart f0 V0 0 1" by (auto simp: apart_def fblocks_def f0_sel fblk0) (auto simp: adr0_def const_defs)
  then show ?thesis using writei_keeps_others [OF f0_file _ f0_room(3) f0_room(1,2) f0_other, of 0 2000 "\<lambda>_. 9"] by auto
qed

text \<open>\<open>writei\<close> refuses a write that starts past the end of the file, that would end past the maximal
  file size, or whose end wraps around in 32 bits: it returns -1 and changes nothing.\<close>

theorem writei_refuses:
  assumes "nfile s V P ip j bs" "off < 4294967296" "n < 4294967296" "length bs < off \<or> MAXFILE * BSIZE < off + n"
  shows "writei ip src off n s = Inr (-1, s)"
proof -
  have "u32 (off + n) < off \<or> u32 (off + n) = off + n" using assms(2,3) by (auto simp: u32_def mod_if)
  then show ?thesis using nfileD(3,6) [OF assms(1)] assms(4) by (auto simp: writei_def Let_def ret_def)
qed

theorem writei_refuses_witness: "writei 0 (\<lambda>_. 9) 3 4294967295 f0 = Inr (-1, f0)"
  using writei_refuses [OF f0_file] by (simp add: const_defs)

subsection \<open>The inode cache\<close>

text \<open>C20. Under the invariant of the inode cache (an inode is cached at most once, every cached inode owns
  its own busy entry of the address table of its file system, no busy entry is without owner) \<open>iget\<close>
  returns the one slot of the inode, with one reference more and all other slots unchanged, and keeps
  the invariant; it panics exactly when all slots are taken by other inodes, and never runs past the
  end of an address table.\<close>

theorem iget_one_copy:
  assumes "icinv s"
  shows "(\<exists>ip t. iget dev inum s = Inr (ip, t) \<and> got s dev inum ip t) \<or>
    iget dev inum s = Inl (Panic ''iget: no inodes'') \<and> (\<forall>i < NINODE. live s i \<and> ident s i \<noteq> (dev, inum))"
proof (cases "(\<exists>i < NINODE. \<not> live s i) \<or> (\<exists>i < NINODE. live s i \<and> ident s i = (dev, inum))")
  case False
  then have "\<And>i. i < NINODE \<Longrightarrow> live s i \<and> ident s i \<noteq> (dev, inum)" by blast
  then show ?thesis using iget_full [of s dev inum] by blast
qed (use iget_got [OF assms] in blast)

theorem iget_one_copy_witness: "\<exists>ip t. iget ROOTDEV 2 f0 = Inr (ip, t) \<and> got f0 ROOTDEV 2 ip t"
  using iget_one_copy [OF f0_icinv, of ROOTDEV 2] f0_free_slot by blast

end
