(* ===== verification/DirProps.thy ===== *)
theory DirProps
  imports Machine Dir
begin

section \<open>Properties of directories and paths\<close>

text \<open>
  A native directory is a finite map from names to inode numbers: \<open>dirlookup\<close> applies it, \<open>dirlink\<close>
  and \<open>fs_unlink\<close> update it at one name. The walk of \<open>skipelem\<close> over a path yields its elements.
\<close>

subsection \<open>Entries of a directory\<close>

definition dent :: "byte list \<Rightarrow> nat \<Rightarrow> block" where
  "dent bs i = c_string (take 16 (drop (16 * i) bs))"

definition dinum :: "byte list \<Rightarrow> nat \<Rightarrow> nat" where
  "dinum bs i = rd16 (dent bs i) 0"

definition dname :: "byte list \<Rightarrow> nat \<Rightarrow> byte list" where
  "dname bs i = cstr (\<lambda>k. dent bs i (2 + k)) DIRSIZ"

definition nents :: "byte list \<Rightarrow> nat" where
  "nents bs = length bs div 16"

definition hit :: "byte list \<Rightarrow> byte list \<Rightarrow> nat \<Rightarrow> bool" where
  "hit bs nm i \<longleftrightarrow> dinum bs i \<noteq> 0 \<and> dname bs i = nm"

definition dfind :: "byte list \<Rightarrow> byte list \<Rightarrow> nat \<Rightarrow> nat option" where
  "dfind bs nm i = find (hit bs nm) [i..<nents bs]"

text \<open>The map a directory stands for.\<close>

definition dmap :: "byte list \<Rightarrow> byte list \<Rightarrow> nat option" where
  "dmap bs nm = map_option (dinum bs) (dfind bs nm 0)"

lemma dfind_step: "i < nents bs \<Longrightarrow> dfind bs nm i = (if hit bs nm i then Some i else dfind bs nm (Suc i))"
  by (simp add: dfind_def upt_conv_Cons)

lemma dfind_end: "nents bs \<le> i \<Longrightarrow> dfind bs nm i = None"
  by (simp add: dfind_def)

lemma dfind_None: "dfind bs nm i = None \<longleftrightarrow> (\<forall>k. i \<le> k \<and> k < nents bs \<longrightarrow> \<not> hit bs nm k)"
  by (auto simp: dfind_def find_None_iff)

lemma find_from: "find f [i..<n] = Some k \<Longrightarrow> i \<le> k \<and> k < n \<and> f k"
proof -
  assume "find f [i..<n] = Some k"
  then obtain m where "m < length [i..<n]" "f ([i..<n] ! m)" "k = [i..<n] ! m"
    by (auto simp: find_Some_iff)
  then show ?thesis by auto
qed

lemma dfind_Some: "dfind bs nm i = Some k \<Longrightarrow> i \<le> k \<and> k < nents bs \<and> hit bs nm k"
  unfolding dfind_def by (rule find_from)

text \<open>A directory as the code keeps it: whole entries, and no name twice.\<close>

definition dwf :: "byte list \<Rightarrow> bool" where
  "dwf bs \<longleftrightarrow> 16 dvd length bs \<and> (\<forall>i < nents bs. \<forall>k < nents bs. dinum bs i \<noteq> 0 \<longrightarrow> hit bs (dname bs i) k \<longrightarrow> i = k)"

lemma dmap_hit:
  assumes "dwf bs" "i < nents bs" "hit bs nm i" shows "dmap bs nm = Some (dinum bs i)"
proof -
  have "dfind bs nm 0 \<noteq> None" using assms by (auto simp: dfind_None)
  then obtain k where k: "dfind bs nm 0 = Some k" by blast
  have "k = i" using dfind_Some [OF k] assms by (auto simp: dwf_def hit_def)
  then show ?thesis using k by (simp add: dmap_def)
qed

lemma dmap_miss: "dmap bs nm = None \<longleftrightarrow> (\<forall>k < nents bs. \<not> hit bs nm k)"
  by (simp add: dmap_def dfind_None)

text \<open>Replacing the entry \<open>i\<close>, or appending it.\<close>

lemma splice_nth:
  assumes "off \<le> length bs" "m < max (length bs) (off + length e)"
  shows "splice_at bs off e ! m = (if off \<le> m \<and> m < off + length e then e ! (m - off) else bs ! m)"
proof -
  consider "m < off" | "off \<le> m" "m < off + length e" | "off + length e \<le> m" by linarith
  then show ?thesis
  proof cases
    case 2
    then have "m - off < length e" by linarith
    then show ?thesis using 2 assms by (simp add: splice_at_def nth_append)
  next
    case 3
    then have "off + length e + (m - (off + length e)) = m" by simp
    moreover have "\<not> m - off < length e" using 3 by linarith
    ultimately show ?thesis using 3 assms by (simp add: splice_at_def nth_append)
  qed (use assms in \<open>simp_all add: splice_at_def nth_append\<close>)
qed

lemma dent_splice:
  assumes "16 dvd length bs" "i \<le> nents bs" "length e = 16"
  shows "nents (splice_at bs (16 * i) e) = max (nents bs) (Suc i)"
    and "k < max (nents bs) (Suc i) \<Longrightarrow> dent (splice_at bs (16 * i) e) k = (if k = i then c_string e else dent bs k)"
proof -
  obtain n where n: "length bs = 16 * n" using assms(1) by blast
  then have i: "i \<le> n" using assms(2) by (simp add: nents_def)
  have L: "length (splice_at bs (16 * i) e) = 16 * max n (Suc i)" using n i assms(3) by (simp add: splice_at_def max_def)
  then show "nents (splice_at bs (16 * i) e) = max (nents bs) (Suc i)" using n by (simp add: nents_def)
  assume k: "k < max (nents bs) (Suc i)"
  show "dent (splice_at bs (16 * i) e) k = (if k = i then c_string e else dent bs k)"
  proof (cases "k = i")
    case True
    then show ?thesis using n i assms(3) by (simp add: dent_def splice_at_def)
  next
    case False
    have kn: "k < n" using k False n i by (auto simp: nents_def)
    have "take 16 (drop (16 * k) (splice_at bs (16 * i) e)) = take 16 (drop (16 * k) bs)"
    proof (rule nth_equalityI)
      show "length (take 16 (drop (16 * k) (splice_at bs (16 * i) e))) = length (take 16 (drop (16 * k) bs))"
        using kn by (auto simp: L n min_def max_def)
      fix m assume "m < length (take 16 (drop (16 * k) (splice_at bs (16 * i) e)))"
      then have m: "m < 16" by simp
      have "16 * k + m < 16 * i \<or> 16 * i + 16 \<le> 16 * k + m" using False m by linarith
      moreover have "16 * k + m < 16 * n" using kn m by linarith
      ultimately show "take 16 (drop (16 * k) (splice_at bs (16 * i) e)) ! m = take 16 (drop (16 * k) bs) ! m"
        using n i m kn assms(3) L by (auto simp: splice_nth)
    qed
    then show ?thesis using False by (simp add: dent_def)
  qed
qed

lemma hit_splice:
  assumes "16 dvd length bs" "i \<le> nents bs" "length e = 16" "k < max (nents bs) (Suc i)"
  shows "dinum (splice_at bs (16 * i) e) k = (if k = i then rd16 (c_string e) 0 else dinum bs k)"
    and "hit (splice_at bs (16 * i) e) x k = (if k = i then rd16 (c_string e) 0 \<noteq> 0 \<and> cstr (\<lambda>j. c_string e (2 + j)) DIRSIZ = x else hit bs x k)"
  using dent_splice(2) [OF assms] by (simp_all add: dinum_def dname_def hit_def)

lemma dwf_alt: "dwf bs \<longleftrightarrow> 16 dvd length bs \<and> (\<forall>x. \<forall>i < nents bs. \<forall>k < nents bs. hit bs x i \<longrightarrow> hit bs x k \<longrightarrow> i = k)"
  unfolding dwf_def hit_def by blast

lemma splice_dvd: "16 dvd length bs \<Longrightarrow> i \<le> nents bs \<Longrightarrow> length e = 16 \<Longrightarrow> 16 dvd length (splice_at bs (16 * i) e)"
proof -
  assume a: "16 dvd length bs" "i \<le> nents bs" "length e = 16"
  then obtain n where n: "length bs = 16 * n" by blast
  then have "length (splice_at bs (16 * i) e) = 16 * max n (Suc i)" using a by (simp add: splice_at_def nents_def max_def)
  then show ?thesis by simp
qed

lemma dmap_eqI:
  assumes "dwf bs" "\<And>x q. f x = Some q \<longleftrightarrow> (\<exists>i < nents bs. hit bs x i \<and> dinum bs i = q)" shows "dmap bs = f"
proof
  fix x
  show "dmap bs x = f x"
  proof (cases "\<exists>i < nents bs. hit bs x i")
    case True
    then obtain i where i: "i < nents bs" "hit bs x i" by blast
    then show ?thesis using dmap_hit [OF assms(1) i] assms(2) by metis
  next
    case False
    then have "dmap bs x = None" by (simp add: dmap_miss)
    moreover have "f x = None" using assms(2) False by (metis option.exhaust)
    ultimately show ?thesis by simp
  qed
qed

lemma dmap_Some: "dwf bs \<Longrightarrow> dmap bs x = Some q \<longleftrightarrow> (\<exists>i < nents bs. hit bs x i \<and> dinum bs i = q)"
  using dmap_hit [of bs _ x] dmap_miss [of bs x] by (metis option.distinct(1) option.inject)

text \<open>Linking a name into an unused entry, or behind the last.\<close>

lemma dmap_link:
  assumes w: "dwf bs" and i: "i \<le> nents bs" "i < nents bs \<Longrightarrow> dinum bs i = 0" and e: "length e = 16"
    "rd16 (c_string e) 0 = q" "cstr (\<lambda>j. c_string e (2 + j)) DIRSIZ = nm" and q: "q \<noteq> 0" and new: "dmap bs nm = None"
  shows "dwf (splice_at bs (16 * i) e)" "dmap (splice_at bs (16 * i) e) = (dmap bs)(nm \<mapsto> q)"
proof -
  have dv: "16 dvd length bs" using w by (simp add: dwf_def)
  let ?b = "splice_at bs (16 * i) e"
  note n = dent_splice(1) [OF dv i(1) e(1)] and h = hit_splice [OF dv i(1) e(1)]
  have hi: "k < nents ?b \<Longrightarrow> hit ?b x k = (if k = i then x = nm else k < nents bs \<and> hit bs x k)"
    "k < nents ?b \<Longrightarrow> dinum ?b k = (if k = i then q else dinum bs k)" for k x using h n e q i(1) by auto
  have nh: "k < nents bs \<Longrightarrow> \<not> hit bs nm k" for k using new by (simp add: dmap_miss)
  have ni: "i < nents bs \<Longrightarrow> \<not> hit bs x i" for x using i(2) by (simp add: hit_def)
  have one: "x < nents bs \<Longrightarrow> y < nents bs \<Longrightarrow> hit bs z x \<Longrightarrow> hit bs z y \<Longrightarrow> x = y" for x y z using w by (simp add: dwf_alt)
  show wf: "dwf ?b" unfolding dwf_alt using splice_dvd [OF dv i(1) e(1)] hi(1) nh one by metis
  have lt: "i < nents ?b" "k < nents bs \<Longrightarrow> k < nents ?b" for k using n by auto
  show "dmap ?b = (dmap bs)(nm \<mapsto> q)"
  proof (rule dmap_eqI [OF wf])
    fix x r
    show "((dmap bs)(nm \<mapsto> q)) x = Some r \<longleftrightarrow> (\<exists>k < nents ?b. hit ?b x k \<and> dinum ?b k = r)"
    proof (cases "x = nm")
      case True
      then show ?thesis using hi nh lt(1) by (auto simp del: not_less)
    next
      case False
      then have "(\<exists>k < nents ?b. hit ?b x k \<and> dinum ?b k = r) \<longleftrightarrow> (\<exists>k < nents bs. hit bs x k \<and> dinum bs k = r)"
        using hi lt ni by metis
      then show ?thesis using dmap_Some [OF w, of x r] False by simp
    qed
  qed
qed

text \<open>Clearing the entry of a name.\<close>

lemma dmap_unlink:
  assumes w: "dwf bs" and i: "i < nents bs" "hit bs nm i" and e: "length e = 16" "rd16 (c_string e) 0 = 0"
  shows "dwf (splice_at bs (16 * i) e)" "dmap (splice_at bs (16 * i) e) = (dmap bs)(nm := None)"
proof -
  have dv: "16 dvd length bs" using w by (simp add: dwf_def)
  let ?b = "splice_at bs (16 * i) e"
  have n: "nents ?b = nents bs" using dent_splice(1) [OF dv _ e(1), of i] i(1) by simp
  have hi: "k < nents bs \<Longrightarrow> hit ?b x k = (k \<noteq> i \<and> hit bs x k)" "k < nents bs \<Longrightarrow> k \<noteq> i \<Longrightarrow> dinum ?b k = dinum bs k" for k x
    using hit_splice [OF dv _ e(1), of i k] i(1) e(2) by auto
  have one: "x < nents bs \<Longrightarrow> y < nents bs \<Longrightarrow> hit bs z x \<Longrightarrow> hit bs z y \<Longrightarrow> x = y" for x y z using w by (simp add: dwf_alt)
  show wf: "dwf ?b" unfolding dwf_alt n using splice_dvd [OF dv _ e(1), of i] i(1) hi(1) one by (meson less_imp_le)
  have nm: "k < nents bs \<Longrightarrow> hit bs x k \<Longrightarrow> k = i \<longleftrightarrow> x = nm" for k x using one [OF _ i(1)] i(2) by (auto simp: hit_def)
  show "dmap ?b = (dmap bs)(nm := None)"
  proof (rule dmap_eqI [OF wf], unfold n)
    fix x r
    have "(\<exists>k < nents bs. hit ?b x k \<and> dinum ?b k = r) \<longleftrightarrow> x \<noteq> nm \<and> (\<exists>k < nents bs. hit bs x k \<and> dinum bs k = r)"
      using hi nm by metis
    then show "((dmap bs)(nm := None)) x = Some r \<longleftrightarrow> (\<exists>k < nents bs. hit ?b x k \<and> dinum ?b k = r)"
      using dmap_Some [OF w, of x r] by simp
  qed
qed

subsection \<open>Looking up a name\<close>

lemma ents_off: "i < nents bs \<Longrightarrow> 16 * i + 16 \<le> length bs"
  unfolding nents_def using div_times_less_eq_dividend [of "length bs" 16] by linarith

lemma read_entry_bnd:
  fixes s :: "'z fstate_scheme"
  assumes nf: "nfile s V P dp j bs" and c: "card P + 1 < NBUF" and i: "i < nents bs"
    and Q: "\<And>t. nfr s t \<Longrightarrow> nfile t V P dp j bs \<Longrightarrow> wp (f (take 16 (drop (16 * i) bs))) Q t"
  shows "wp (bnd (read_entry msg sizeof_dirent dp (16 * i)) f) Q s"
proof -
  note off = ents_off [OF i]
  have "16 * i + 16 < 4294967296" using off nfile_size [OF nf] by linarith
  note r = readi_ok [OF nf c this]
  have sz: "sizeof_dirent = 16" by (simp add: sizeof_dirent_def)
  have "wp (iops_readi dp (16 * i) 16) (\<lambda>r t. nfr s t \<and> nfile t V P dp j bs \<and> r = (16, take 16 (drop (16 * i) bs))) s"
    using r off nfileD(2) [OF nf] by (simp add: wp_def iops_readi_def iops_def)
  then show ?thesis
    unfolding read_entry_def bnd_assoc sz
    by (rule wp_bndI) (use Q in \<open>auto simp: wp_ret\<close>)
qed

lemma namecmp_inb:
  "i_file_type (inodes s dp) = Some Inbuiltfs \<Longrightarrow> wp (bnd (iops_namecmp dp a b) f) Q s = wp (f (namecmp a b)) Q s"
  by (simp add: wp_def bnd_def iops_namecmp_def iops_def ret_def)

lemma dirlookup_loop_ok:
  fixes s :: "'z fstate_scheme"
  assumes "nfile s V P dp j bs" "card P + 1 < NBUF" "16 dvd length bs" "i \<le> nents bs"
    and none: "\<And>t. nfr s t \<Longrightarrow> nfile t V P dp j bs \<Longrightarrow> dfind bs (cstr name DIRSIZ) i = None \<Longrightarrow> Q None t"
    and some: "\<And>t k. nfr s t \<Longrightarrow> nfile t V P dp j bs \<Longrightarrow> dfind bs (cstr name DIRSIZ) i = Some k \<Longrightarrow>
        wp (iget ROOTDEV (dinum bs k)) (\<lambda>ip. Q (Some (ip, 16 * k))) t"
  shows "wp (dirlookup_loop dp name (length bs) (16 * i)) Q s"
  using assms
proof (induction "nents bs - i" arbitrary: i s)
  case 0
  then have e: "nents bs = i" by simp
  then have "\<not> 16 * i < length bs" using "0.prems"(3) by (auto simp: nents_def)
  then show ?case using "0.prems"(1) "0.prems"(5) [OF ns.fr_refl] dfind_end [of bs i] e
    by (subst dirlookup_loop.simps) (simp add: wp_ret)
next
  case (Suc n)
  then have i: "i < nents bs" by simp
  note nf = Suc.prems(1)
  have lt: "16 * i < length bs" using ents_off [OF i] by simp
  have next_ok: "wp (dirlookup_loop dp name (length bs) (16 * i + sizeof_dirent)) Q t"
    if "nfr s t" "nfile t V P dp j bs" "\<not> hit bs (cstr name DIRSIZ) i" for t
  proof -
    have d: "dfind bs (cstr name DIRSIZ) i = dfind bs (cstr name DIRSIZ) (Suc i)" using dfind_step [OF i] that(3) by simp
    have "wp (dirlookup_loop dp name (length bs) (16 * Suc i)) Q t"
    proof (rule Suc.hyps(1) [OF _ that(2) Suc.prems(2,3)])
      show "n = nents bs - Suc i" "Suc i \<le> nents bs" using Suc.hyps(2) i by auto
    qed (use Suc.prems(5,6) that(1) d in \<open>auto intro: ns.fr_trans\<close>)
    then show ?thesis by (simp add: sizeof_dirent_def add.commute)
  qed
  let ?de = "c_string (take 16 (drop (16 * i) bs))"
  have de: "dinum bs i = rd16 ?de 0" "dname bs i = cstr (\<lambda>k. ?de (2 + k)) DIRSIZ" by (simp_all add: dinum_def dname_def dent_def)
  show ?case
    unfolding dirlookup_loop.simps [of dp name "length bs" "16 * i"] if_P [OF lt]
  proof (rule read_entry_bnd [OF nf Suc.prems(2) i], unfold Let_def)
    fix t assume t: "nfr s t" "nfile t V P dp j bs"
    have dev: "i_dev (inodes t dp) = ROOTDEV" using fopenD(4) [OF nfileD(1) [OF t(2)]] .
    have eq: "namecmp name (\<lambda>k. ?de (2 + k)) = 0 \<longleftrightarrow> dname bs i = cstr name DIRSIZ"
      unfolding namecmp_def strncmp_cstr de(2) by auto
    show "wp (if rd16 ?de 0 = 0 then dirlookup_loop dp name (length bs) (16 * i + sizeof_dirent)
       else bnd (iops_namecmp dp name (\<lambda>k. ?de (2 + k))) (\<lambda>r.
          if r = 0 then bnd (\<lambda>s. iget (i_dev (inodes s dp)) (rd16 ?de 0) s) (\<lambda>ip. ret (Some (ip, 16 * i)))
          else dirlookup_loop dp name (length bs) (16 * i + sizeof_dirent))) Q t"
    proof (cases "hit bs (cstr name DIRSIZ) i")
      case False
      then show ?thesis using next_ok [OF t False] eq de(1)
        by (auto simp: hit_def namecmp_inb [OF nfileD(2) [OF t(2)]])
    next
      case True
      then have "wp (iget ROOTDEV (dinum bs i)) (\<lambda>ip. Q (Some (ip, 16 * i))) t"
        using Suc.prems(6) [OF t] dfind_step [OF i] by simp
      then have "wp (bnd (\<lambda>s. iget (i_dev (inodes s dp)) (dinum bs i) s) (\<lambda>ip. ret (Some (ip, 16 * i)))) Q t"
        by (simp add: wp_def bnd_def ret_def dev split: sum.splits prod.splits)
      then show ?thesis using True eq de(1) by (simp add: hit_def namecmp_inb [OF nfileD(2) [OF t(2)]])
    qed
  qed
qed

lemma dirlookup_ok:
  fixes s :: "'z fstate_scheme"
  assumes nf: "nfile s V P dp j bs" "i_type (inodes s dp) = T_DIR" and c: "card P + 1 < NBUF" and w: "16 dvd length bs"
    and none: "\<And>t. nfr s t \<Longrightarrow> nfile t V P dp j bs \<Longrightarrow> dfind bs (cstr name DIRSIZ) 0 = None \<Longrightarrow> Q None t"
    and some: "\<And>t k. nfr s t \<Longrightarrow> nfile t V P dp j bs \<Longrightarrow> dfind bs (cstr name DIRSIZ) 0 = Some k \<Longrightarrow>
        wp (iget ROOTDEV (dinum bs k)) (\<lambda>ip. Q (Some (ip, 16 * k))) t"
  shows "wp (dirlookup dp name) Q s"
proof -
  have "wp (dirlookup_loop dp name (length bs) (16 * 0)) Q s" by (rule dirlookup_loop_ok [OF nf(1) c w _ none some]) auto
  then show ?thesis using nf(2) nfileD(6) [OF nf(1)] by (simp add: wp_def dirlookup_def)
qed

subsection \<open>Adding and removing a name\<close>

text \<open>The entry that \<open>dirlink\<close> uses, and the bytes of the directory after it and after \<open>fs_unlink\<close>.\<close>

definition dslot :: "byte list \<Rightarrow> nat \<Rightarrow> nat" where
  "dslot bs i = (case find (\<lambda>k. dinum bs k = 0) [i..<nents bs] of Some k \<Rightarrow> k | None \<Rightarrow> nents bs)"

definition dlink :: "byte list \<Rightarrow> block \<Rightarrow> nat \<Rightarrow> byte list" where
  "dlink bs name q = splice_at bs (16 * dslot bs 0) (bytes (mk_dirent name q) 0 16)"

definition dunlink :: "byte list \<Rightarrow> nat \<Rightarrow> byte list" where
  "dunlink bs i = splice_at bs (16 * i) (replicate 16 0)"

lemma dslot_step: "i < nents bs \<Longrightarrow> dslot bs i = (if dinum bs i = 0 then i else dslot bs (Suc i))"
  by (simp add: dslot_def upt_conv_Cons)

lemma dslot_end: "nents bs \<le> i \<Longrightarrow> dslot bs i = nents bs"
  by (simp add: dslot_def)

lemma dslot_le: "dslot bs i \<le> nents bs" "dslot bs i < nents bs \<Longrightarrow> dinum bs (dslot bs i) = 0"
  by (auto simp: dslot_def dest!: find_from split: option.splits)

lemma bytes_strncpy_to: "bytes (strncpy_to d k src n) k n = (let c = cstr src n in c @ replicate (n - length c) 0)"
proof -
  let ?m = "\<lambda>j. if j < k + n then d j else src (j - (k + n))"
  have "bytes (strncpy_to d k src n) k n = bytes (strncpy ?m k (k + n) n) k n"
    by (intro nth_equalityI) (simp_all add: strncpy_to_def)
  also have "\<dots> = (let c = cstr (\<lambda>i. ?m (k + n + i)) n in c @ replicate (n - length c) 0)" by (rule strncpy_bytes) simp
  also have "cstr (\<lambda>i. ?m (k + n + i)) n = cstr src n" by (rule cstr_cong) simp
  finally show ?thesis .
qed

lemma cstr_strncpy_to: "cstr (\<lambda>i. strncpy_to d k src n (k + i)) n = cstr src n"
proof -
  have nz: "\<forall>x \<in> set (cstr src n). x \<noteq> 0" by (auto simp: cstr_def dest: set_takeWhileD)
  have "bytes (\<lambda>i. strncpy_to d k src n (k + i)) 0 n = bytes (strncpy_to d k src n) k n" by (simp add: bytes_def)
  then show ?thesis
    using nz unfolding cstr_def [of _ n] bytes_strncpy_to Let_def
    by (cases "n - length (cstr src n)") (simp_all add: takeWhile_append2 flip: cstr_def)
qed

lemma mk_dirent_entry:
  assumes "q < 65536"
  shows "rd16 (c_string (bytes (mk_dirent name q) 0 16)) 0 = q"
    "cstr (\<lambda>j. c_string (bytes (mk_dirent name q) 0 16) (2 + j)) DIRSIZ = cstr name DIRSIZ"
proof -
  have "rd16 (c_string (bytes (mk_dirent name q) 0 16)) 0 = rd16 (mk_dirent name q) 0"
    by (rule rd16_cong) (simp add: c_string_def put_bytes_def)
  then show "rd16 (c_string (bytes (mk_dirent name q) 0 16)) 0 = q" using assms by (simp add: mk_dirent_def)
  have "cstr (\<lambda>j. c_string (bytes (mk_dirent name q) 0 16) (2 + j)) DIRSIZ = cstr (\<lambda>j. strncpy_to (\<lambda>_. 0) 2 name DIRSIZ (2 + j)) DIRSIZ"
    by (rule cstr_cong) (simp add: c_string_def put_bytes_def mk_dirent_def const_defs)
  then show "cstr (\<lambda>j. c_string (bytes (mk_dirent name q) 0 16) (2 + j)) DIRSIZ = cstr name DIRSIZ"
    by (simp only: cstr_strncpy_to)
qed

lemma dlink_map:
  assumes "dwf bs" "dmap bs (cstr name DIRSIZ) = None" "0 < q" "q < 65536"
  shows "dwf (dlink bs name q)" "dmap (dlink bs name q) = (dmap bs)(cstr name DIRSIZ \<mapsto> q)"
  unfolding dlink_def
  using dmap_link [OF assms(1) dslot_le [of bs 0] _ mk_dirent_entry [OF assms(4)] _ assms(2)] assms(3) by auto

lemma dunlink_map:
  assumes "dwf bs" "i < nents bs" "hit bs nm i"
  shows "dwf (dunlink bs i)" "dmap (dunlink bs i) = (dmap bs)(nm := None)"
proof -
  have "rd16 (c_string (replicate 16 0)) 0 = 0" by (simp add: rd16_def c_string_def put_bytes_def)
  then show "dwf (dunlink bs i)" "dmap (dunlink bs i) = (dmap bs)(nm := None)"
    unfolding dunlink_def using dmap_unlink [OF assms, of "replicate 16 0"] by simp_all
qed

lemma dirlink_loop_ok:
  fixes s :: "'z fstate_scheme"
  assumes "nfile s V P dp j bs" "card P + 1 < NBUF" "16 dvd length bs" "i \<le> nents bs"
  shows "wp (dirlink_loop dp (length bs) (16 * i)) (\<lambda>off t. off = 16 * dslot bs i \<and> nfr s t \<and> nfile t V P dp j bs) s"
  using assms
proof (induction "nents bs - i" arbitrary: i s)
  case 0
  then have e: "nents bs = i" by simp
  then have "\<not> 16 * i < length bs" using "0.prems"(3) by (auto simp: nents_def)
  then show ?case using "0.prems"(1) dslot_end [of bs i] e
    by (subst dirlink_loop.simps) (simp add: wp_ret ns.fr_refl)
next
  case (Suc n)
  then have i: "i < nents bs" by simp
  have lt: "16 * i < length bs" using ents_off [OF i] by simp
  let ?Q = "\<lambda>off t. off = 16 * dslot bs i \<and> nfr s t \<and> nfile t V P dp j bs"
  show ?case
    unfolding dirlink_loop.simps [of dp "length bs" "16 * i"] if_P [OF lt]
  proof (rule read_entry_bnd [OF Suc.prems(1,2) i])
    fix t assume t: "nfr s t" "nfile t V P dp j bs"
    have de: "rd16 (c_string (take 16 (drop (16 * i) bs))) 0 = dinum bs i" by (simp add: dinum_def dent_def)
    show "wp (if rd16 (c_string (take 16 (drop (16 * i) bs))) 0 = 0 then ret (16 * i)
        else dirlink_loop dp (length bs) (16 * i + sizeof_dirent)) ?Q t"
    proof (cases "dinum bs i = 0")
      case True
      then show ?thesis using t dslot_step [OF i] de by (simp add: wp_ret)
    next
      case False
      have "n = nents bs - Suc i" "Suc i \<le> nents bs" using Suc.hyps(2) i by auto
      note IH = Suc.hyps(1) [OF this(1) t(2) Suc.prems(2,3) this(2)]
      have ds: "dslot bs (Suc i) = dslot bs i" using dslot_step [OF i] False by simp
      have "wp (dirlink_loop dp (length bs) (16 * Suc i)) ?Q t"
        by (rule wp_mono [OF IH]) (use t(1) ds ns.fr_trans in metis)
      moreover have "16 * i + sizeof_dirent = 16 * Suc i" by (simp add: sizeof_dirent_def)
      ultimately have "wp (dirlink_loop dp (length bs) (16 * i + sizeof_dirent)) ?Q t" by (simp only:)
      then show ?thesis using False by (simp only: de if_False)
    qed
  qed
qed

lemma nblk_entry: "nblk (16 * i) 16 = 1"
proof -
  have "16 * i mod BSIZE = 16 * (i mod 128)" by (simp add: const_defs mult_mod_right)
  moreover have "16 * (i mod 128) + 16 \<le> BSIZE" by (simp add: const_defs)
  ultimately have "min 16 (BSIZE - 16 * i mod BSIZE) = 16" by simp
  then show ?thesis by (subst nblk.simps) (simp add: Let_def nblk.simps [of _ 0])
qed

lemma file_frame_nfr:
  fixes s t u :: "'z fstate_scheme"
  assumes "nfr s t" "file_frame t V ip j u V'" shows "file_frame s V ip j u V'"
  using assms(2) nfr_fields [OF assms(1)] by (simp add: file_frame_def)

text \<open>Room for one more entry.\<close>

definition entry_room :: "'z fstate_scheme \<Rightarrow> contents \<Rightarrow> pins \<Rightarrow> byte list \<Rightarrow> bool" where
  "entry_room s V P bs \<longleftrightarrow> length bs + 16 \<le> MAXFILE * BSIZE \<and> 2 \<le> card (free_blocks (sb s) V) \<and> card P + 5 < LOGSIZE - 1"

lemma write_entry:
  fixes s :: "'z fstate_scheme"
  assumes nf: "nfile s V P dp j bs" and i: "16 * i \<le> length bs" and r: "entry_room s V P bs"
  shows "wp (iops_writei dp e (16 * i) sizeof_dirent) (\<lambda>n t. n = 16 \<and>
     (\<exists>V' P'. nfile t V' P' dp j (splice_at bs (16 * i) (bytes e 0 16)) \<and> file_frame s V dp j t V')) s"
proof -
  have "wp (writei dp e (16 * i) 16) (\<lambda>r t. r = int 16 \<and> written s V P dp j bs (16 * i) e 16 t) s"
    by (rule writei_ok [OF nf i]) (use r i in \<open>simp_all add: entry_room_def nblk_entry\<close>)
  then have "wp (writei dp e (16 * i) 16) (\<lambda>n t. n = 16 \<and>
     (\<exists>V' P'. nfile t V' P' dp j (splice_at bs (16 * i) (bytes e 0 16)) \<and> file_frame s V dp j t V')) s"
    by (rule wp_mono) (auto simp: written_def)
  then show ?thesis using nfileD(2) [OF nf] by (simp add: wp_def iops_writei_def iops_def sizeof_dirent_def)
qed

lemma dirlink_ok:
  fixes s :: "'z fstate_scheme"
  assumes nf: "nfile s V P dp j bs" "i_type (inodes s dp) = T_DIR" and w: "dwf bs" and r: "entry_room s V P bs"
    and new: "dmap bs (cstr name DIRSIZ) = None"
  shows "wp (dirlink dp name q) (\<lambda>r t. r = 0 \<and> (\<exists>V' P'. nfile t V' P' dp j (dlink bs name q) \<and> file_frame s V dp j t V')) s"
    (is "wp _ ?Q s")
proof -
  have dv: "16 dvd length bs" using w by (simp add: dwf_def)
  have c: "card P + 1 < NBUF" using r by (simp add: entry_room_def const_defs)
  have dn: "dfind bs (cstr name DIRSIZ) 0 = None" using new by (simp add: dmap_def)
  let ?K = "\<lambda>r. case r of
       Some (ip, _) \<Rightarrow> bnd (iops (iput ip) (ext2_iput ip) dp) (\<lambda>_. ret (-1))
     | None \<Rightarrow>
         bnd (\<lambda>s. dirlink_loop dp (i_size (inodes s dp)) 0 s) (\<lambda>off.
         bnd (iops_writei dp (mk_dirent name q) off sizeof_dirent) (\<lambda>n.
         if n \<noteq> int sizeof_dirent then panic ''dirlink'' else ret 0))"
  have main: "wp (?K None) ?Q t" if t: "nfr s t" "nfile t V P dp j bs" for t
  proof -
    have "wp (bnd (dirlink_loop dp (length bs) (16 * 0)) (\<lambda>off.
         bnd (iops_writei dp (mk_dirent name q) off sizeof_dirent) (\<lambda>n.
         if n \<noteq> int sizeof_dirent then panic ''dirlink'' else ret 0))) ?Q t"
    proof (rule wp_bndI [OF dirlink_loop_ok [OF t(2) c dv]], simp)
      fix off u assume u: "off = 16 * dslot bs 0 \<and> nfr t u \<and> nfile u V P dp j bs"
      have i: "16 * dslot bs 0 \<le> length bs" using dslot_le(1) [of bs 0] dv by (auto simp: nents_def)
      have su: "nfr s u" using t(1) u by (blast intro: ns.fr_trans)
      have ru: "entry_room u V P bs" using r nfr_fields(1) [OF su] by (simp add: entry_room_def)
      have off: "off = 16 * dslot bs 0" and nu: "nfile u V P dp j bs" using u by auto
      show "wp (bnd (iops_writei dp (mk_dirent name q) off sizeof_dirent) (\<lambda>n.
         if n \<noteq> int sizeof_dirent then panic ''dirlink'' else ret 0)) ?Q u"
        unfolding off
        by (rule wp_bndI [OF write_entry [OF nu i ru]])
          (use file_frame_nfr [OF su] in \<open>auto simp: wp_ret sizeof_dirent_def dlink_def\<close>)
    qed
    then show ?thesis using nfileD(6) [OF t(2)] by (simp add: wp_def bnd_def)
  qed
  have "wp (dirlookup dp name) (\<lambda>r. wp (?K r) ?Q) s"
  proof (rule dirlookup_ok [OF nf c dv])
    fix t assume "nfr s t" "nfile t V P dp j bs" then show "wp (?K None) ?Q t" by (rule main)
  qed (simp add: dn)
  then have "wp (bnd (dirlookup dp name) ?K) ?Q s" by (simp add: wp_bnd)
  then show ?thesis using nfileD(2) [OF nf(1)] by (simp add: wp_def bnd_def dirlink_def iops_dirlookup_def iops_def)
qed

lemma unlink_ok:
  fixes s :: "'z fstate_scheme"
  assumes nf: "nfile s V P dp j bs" and i: "i < nents bs" and r: "entry_room s V P bs"
  shows "wp (iops_unlink dp (16 * i)) (\<lambda>_ t. \<exists>V' P'. nfile t V' P' dp j (dunlink bs i) \<and> file_frame s V dp j t V') s"
proof -
  have le: "16 * i \<le> length bs" using ents_off [OF i] by simp
  have z: "bytes (\<lambda>_. 0) 0 16 = replicate 16 0" by (rule nth_equalityI) simp_all
  have "wp (fs_unlink dp (16 * i)) (\<lambda>_ t. \<exists>V' P'. nfile t V' P' dp j (dunlink bs i) \<and> file_frame s V dp j t V') s"
    unfolding fs_unlink_def
    by (rule wp_bndI [OF write_entry [OF nf le r]]) (auto simp: wp_ret sizeof_dirent_def dunlink_def z)
  then show ?thesis using nfileD(2) [OF nf] by (simp add: wp_def iops_unlink_def iops_def)
qed

subsection \<open>Directories as maps\<close>

text \<open>What a client of directories relies on.\<close>

locale name_map =
  fixes inv :: "'d \<Rightarrow> bool" and nm :: "'n \<Rightarrow> bool" and num :: "'v \<Rightarrow> bool" and look :: "'d \<Rightarrow> 'n \<Rightarrow> 'v option"
    and link :: "'d \<Rightarrow> 'n \<Rightarrow> 'v \<Rightarrow> 'd" and unlink :: "'d \<Rightarrow> 'n \<Rightarrow> 'd"
  assumes link_inv: "inv d \<Longrightarrow> nm n \<Longrightarrow> num v \<Longrightarrow> look d n = None \<Longrightarrow> inv (link d n v)"
    and link_look: "inv d \<Longrightarrow> nm n \<Longrightarrow> num v \<Longrightarrow> look d n = None \<Longrightarrow> look (link d n v) = (look d)(n \<mapsto> v)"
    and unlink_inv: "inv d \<Longrightarrow> inv (unlink d n)"
    and unlink_look: "inv d \<Longrightarrow> look (unlink d n) = (look d)(n := None)"
begin

lemma unlink_link: "inv d \<Longrightarrow> nm n \<Longrightarrow> num v \<Longrightarrow> look d n = None \<Longrightarrow> look (unlink (link d n v) n) = look d"
  by (simp add: unlink_look link_inv link_look fun_upd_idem)

text \<open>Renaming: the new name first, then the old one goes.\<close>

lemma rename_look:
  assumes "inv d" "nm b" "look d a = Some v" "num v" "look d b = None"
  shows "look (unlink (link d b v) a) = (look d)(b \<mapsto> v, a := None)"
  using assms by (simp add: unlink_look link_inv link_look)

lemma rename_keeps: "inv d \<Longrightarrow> nm b \<Longrightarrow> num v \<Longrightarrow> look d b = None \<Longrightarrow> inv (unlink (link d b v) a)"
  by (simp add: unlink_inv link_inv)

end

definition dname_ok :: "byte list \<Rightarrow> bool" where
  "dname_ok n \<longleftrightarrow> length n \<le> DIRSIZ \<and> 0 \<notin> set n"

definition dremove :: "byte list \<Rightarrow> byte list \<Rightarrow> byte list" where
  "dremove bs n = (case dfind bs n 0 of None \<Rightarrow> bs | Some i \<Rightarrow> dunlink bs i)"

lemma cstr_c_string: "dname_ok n \<Longrightarrow> cstr (c_string n) DIRSIZ = n"
proof -
  assume n: "dname_ok n"
  have "bytes (c_string n) 0 DIRSIZ = n @ replicate (DIRSIZ - length n) 0"
    using n by (intro nth_equalityI) (auto simp: dname_ok_def c_string_def put_bytes_def nth_append)
  moreover have "\<forall>x \<in> set n. x \<noteq> 0" using n by (auto simp: dname_ok_def)
  ultimately show ?thesis by (cases "DIRSIZ - length n") (simp_all add: cstr_def takeWhile_append2)
qed

interpretation dm: name_map dwf dname_ok "\<lambda>q. 0 < q \<and> q < 65536" dmap "\<lambda>bs n q. dlink bs (c_string n) q" dremove
proof
  show "dwf (dlink d (c_string n) v)" if "dwf d" "dname_ok n" "0 < v \<and> v < 65536" "dmap d n = None" for d n v
    using that by (intro dlink_map) (simp_all add: cstr_c_string)
  show "dmap (dlink d (c_string n) v) = (dmap d)(n \<mapsto> v)" if "dwf d" "dname_ok n" "0 < v \<and> v < 65536" "dmap d n = None" for d n v
    using that dlink_map(2) [of d "c_string n" v] by (simp add: cstr_c_string)
  show "dwf (dremove d n)" if "dwf d" for d n
    using that dunlink_map(1) [OF that] by (auto simp: dremove_def dest: dfind_Some split: option.split)
  show "dmap (dremove d n) = (dmap d)(n := None)" if "dwf d" for d n
  proof (cases "dfind d n 0")
    case None
    then have "dmap d n = None" by (simp add: dmap_def)
    then show ?thesis using None by (simp add: dremove_def fun_upd_idem)
  qed (use that dunlink_map(2) [OF that] in \<open>auto simp: dremove_def dest: dfind_Some\<close>)
qed

text \<open>C17. \<open>dirlookup\<close> in a native directory applies the map the directory stands for: it returns null
  for a name that is not in it, and for a name with inode number \<open>q\<close> the one cached inode of that
  number, with a new reference, and the offset of an entry with that name. The directory is unchanged.\<close>

theorem dirlookup_finds:
  assumes "nfile s V P dp j bs" "i_type (inodes s dp) = T_DIR" "dwf bs" "card P + 1 < NBUF"
    "icinv s" "\<exists>i < NINODE. \<not> live s i" "live s dp"
  shows "case dmap bs (cstr name DIRSIZ) of
      None \<Rightarrow> \<exists>t. dirlookup dp name s = Inr (None, t) \<and> nfile t V P dp j bs
    | Some q \<Rightarrow> \<exists>ip i u t. dirlookup dp name s = Inr (Some (ip, 16 * i), t) \<and> i < nents bs \<and> hit bs (cstr name DIRSIZ) i \<and> dinum bs i = q \<and>
        inodes u = inodes s \<and> got u ROOTDEV q ip t \<and> nfile t V P dp j bs"
proof -
  let ?n = "cstr name DIRSIZ"
  have "wp (dirlookup dp name) (\<lambda>r t. nfile t V P dp j bs \<and> (case dfind bs ?n 0 of None \<Rightarrow> r = None
      | Some i \<Rightarrow> \<exists>ip u. r = Some (ip, 16 * i) \<and> inodes u = inodes s \<and> got u ROOTDEV (dinum bs i) ip t)) s"
  proof (rule dirlookup_ok [OF assms(1,2,4)])
    fix t k assume t: "nfr s t" "nfile t V P dp j bs" "dfind bs ?n 0 = Some k"
    note ic = icinv_nfr [OF t(1)]
    obtain ip u where u: "iget ROOTDEV (dinum bs k) t = Inr (ip, u)" "got t ROOTDEV (dinum bs k) ip u"
      using iget_got [of t ROOTDEV "dinum bs k"] ic assms(5,6) by blast
    have "nfile u V P dp j bs" by (rule nfile_iget [OF t(2) _ u(1)]) (simp add: ic assms(7))
    then show "wp (iget ROOTDEV (dinum bs k)) (\<lambda>ip t. nfile t V P dp j bs \<and> (case dfind bs ?n 0 of None \<Rightarrow> Some (ip, 16 * k) = None
      | Some i \<Rightarrow> \<exists>ip' u. Some (ip, 16 * k) = Some (ip', 16 * i) \<and> inodes u = inodes s \<and> got u ROOTDEV (dinum bs i) ip' t)) t"
      using u t(3) nfr_fields(2) [OF t(1)] by (auto simp: wp_iff)
  qed (use assms(3) in \<open>auto simp: dwf_def\<close>)
  then obtain r t where r: "dirlookup dp name s = Inr (r, t)" "nfile t V P dp j bs"
    "case dfind bs ?n 0 of None \<Rightarrow> r = None | Some i \<Rightarrow> \<exists>ip u. r = Some (ip, 16 * i) \<and> inodes u = inodes s \<and> got u ROOTDEV (dinum bs i) ip t"
    unfolding wp_iff by blast
  show ?thesis
  proof (cases "dfind bs ?n 0")
    case None
    then show ?thesis using r by (simp add: dmap_def)
  next
    case (Some i)
    then show ?thesis using r dfind_Some [OF Some] by (simp add: dmap_def) blast
  qed
qed

lemma dir0_ents:
  "nents dir0 = 2" "dinum dir0 0 = 1" "dinum dir0 1 = 2" "dname dir0 0 = [46]" "dname dir0 1 = [97]"
  by code_simp+

lemma dir0_wf: "dwf dir0"
proof -
  have "length dir0 = 32" by (simp add: dir0_def)
  then show ?thesis using dir0_ents by (auto simp: dwf_def hit_def less_2_cases_iff)
qed

lemma dir0_map: "dmap dir0 [97] = Some 2" "dmap dir0 [98] = None"
  using dmap_hit [OF dir0_wf, of 1 "[97]"] dmap_miss [of dir0 "[98]"] dir0_ents by (auto simp: hit_def less_2_cases_iff)

lemma f0_dir_type: "i_type (inodes f0 2) = T_DIR" "live f0 2"
  by (simp_all add: f0_sel file0_def)

lemma letter_name: "n \<noteq> 0 \<Longrightarrow> cstr (c_string [n]) DIRSIZ = [n]"
  by (rule cstr_c_string) (simp add: dname_ok_def const_defs)

theorem dirlookup_finds_witness: "\<exists>ip u t. dirlookup 2 (c_string [97]) f0 = Inr (Some (ip, 16), t) \<and> inodes u = inodes f0 \<and> got u ROOTDEV 2 ip t"
proof -
  have n: "card {} + 1 < NBUF" by (simp add: const_defs)
  have e: "cstr (c_string [97]) DIRSIZ = [97]" by (rule letter_name) simp
  obtain ip i u t where r: "dirlookup 2 (c_string [97]) f0 = Inr (Some (ip, 16 * i), t)" "i < nents dir0" "dinum dir0 i = 2"
      "inodes u = inodes f0" "got u ROOTDEV 2 ip t"
    using dirlookup_finds [OF f0_dir f0_dir_type(1) dir0_wf n f0_icinv f0_free_slot f0_dir_type(2), of "c_string [97]",
      unfolded e dir0_map(1) option.case] by blast
  have "i = 1" using r(2,3) dir0_ents by (auto simp: less_2_cases_iff)
  then show ?thesis using r(1,4,5) by auto
qed

text \<open>C18. Linking a new name into a directory with room succeeds and updates the map of the directory at
  that name (cut to \<open>DIRSIZ\<close> bytes) only; a directory without double names stays one, and other files
  are unchanged. Removing the entry of that name again gives back the map of before.\<close>

theorem dirlink_unlink:
  assumes "nfile s V P dp j bs" "i_type (inodes s dp) = T_DIR" "dwf bs" "entry_room s V P bs"
    "dmap bs (cstr name DIRSIZ) = None" "0 < q" "q < 65536"
  shows "\<exists>t V' P' cs. dirlink dp name q s = Inr (0, t) \<and> nfile t V' P' dp j cs \<and> dwf cs \<and>
     dmap cs = (dmap bs)(cstr name DIRSIZ \<mapsto> q) \<and> file_frame s V dp j t V' \<and>
     (\<forall>i. i < nents cs \<and> hit cs (cstr name DIRSIZ) i \<and> entry_room t V' P' cs \<longrightarrow>
       (\<exists>u V'' P'' ds. iops_unlink dp (16 * i) t = Inr ((), u) \<and> nfile u V'' P'' dp j ds \<and> dwf ds \<and> dmap ds = dmap bs))"
proof -
  let ?n = "cstr name DIRSIZ" and ?cs = "dlink bs name q"
  obtain t V' P' where t: "dirlink dp name q s = Inr (0, t)" "nfile t V' P' dp j ?cs" "file_frame s V dp j t V'"
    using dirlink_ok [OF assms(1-5), of q] by (auto simp: wp_iff)
  note m = dlink_map [OF assms(3,5-7)]
  have "\<exists>u V'' P'' ds. iops_unlink dp (16 * i) t = Inr ((), u) \<and> nfile u V'' P'' dp j ds \<and> dwf ds \<and> dmap ds = dmap bs"
    if i: "i < nents ?cs \<and> hit ?cs ?n i \<and> entry_room t V' P' ?cs" for i
  proof -
    obtain u V'' P'' where "iops_unlink dp (16 * i) t = Inr ((), u)" "nfile u V'' P'' dp j (dunlink ?cs i)"
      using unlink_ok [OF t(2), of i] i by (auto simp: wp_iff)
    moreover have "dwf (dunlink ?cs i)" "dmap (dunlink ?cs i) = dmap bs"
      using dunlink_map [OF m(1), of i ?n] i m(2) assms(5) by (simp_all add: fun_upd_idem)
    ultimately show ?thesis by blast
  qed
  then show ?thesis using t m by blast
qed

theorem dirlink_unlink_witness:
  "\<exists>t V' P' cs. dirlink 2 (c_string [98]) 3 f0 = Inr (0, t) \<and> nfile t V' P' 2 2 cs \<and> dmap cs = (dmap dir0)([98] \<mapsto> 3)"
proof -
  have e: "cstr (c_string [98]) DIRSIZ = [98]" by (rule letter_name) simp
  have l: "length dir0 = 32" by (simp add: dir0_def)
  have "card (free_blocks (sb f0) V0) = 947" by (simp add: f0_sel free0)
  then have r: "entry_room f0 V0 {} dir0" by (simp add: entry_room_def l) (simp add: const_defs)
  show ?thesis
    using dirlink_unlink [OF f0_dir f0_dir_type(1) dir0_wf r, of "c_string [98]" 3, unfolded e, OF dir0_map(2)] by auto
qed

subsection \<open>Paths\<close>

text \<open>The elements of a path in the order \<open>namex\<close> meets them.\<close>

function names :: "nat \<Rightarrow> byte list \<Rightarrow> block \<Rightarrow> byte list list" where
  "names dev path buf = (case skipelem path buf dev of
     None \<Rightarrow> []
   | Some (rest, name) \<Rightarrow> cstr name (if dev = ROOTDEV then DIRSIZ else EXT2_NAME_LEN) # names dev rest name)"
  by pat_completeness auto
termination
  by (relation "measure (\<lambda>(dev, path, buf). length path)") (auto dest: skipelem_shorter)

declare names.simps [simp del]

text \<open>A path with the given numbers of slashes before its elements, and \<open>k\<close> behind the last.\<close>

definition show_path :: "(nat \<times> byte list) list \<Rightarrow> nat \<Rightarrow> byte list" where
  "show_path xs k = concat (map (\<lambda>(n, e). replicate n 47 @ e) xs) @ replicate k 47"

definition elem_ok :: "byte list \<Rightarrow> bool" where
  "elem_ok e \<longleftrightarrow> e \<noteq> [] \<and> 47 \<notin> set e \<and> 0 \<notin> set e"

lemma show_path_Cons: "show_path ((n, e) # xs) k = replicate n 47 @ e @ show_path xs k"
  by (simp add: show_path_def)

lemma show_path_hd:
  assumes "\<forall>(n, e) \<in> set xs. 0 < n" "\<forall>(n, e) \<in> set xs. elem_ok e"
  shows "show_path xs k = [] \<or> hd (show_path xs k) = 47"
proof (cases xs)
  case Nil
  then show ?thesis by (cases k) (simp_all add: show_path_def)
next
  case (Cons x ys)
  then obtain n e where "x = (Suc n, e)" using assms by (cases x; cases "fst x") auto
  then show ?thesis using Cons by (simp add: show_path_def)
qed

lemma dropWhile_slashes: "dropWhile (\<lambda>c. c = 47) (replicate n 47 @ p) = dropWhile (\<lambda>c. c = (47 :: byte)) p"
  by (induction n) auto

lemma elem_split:
  assumes "elem_ok e" "p = [] \<or> hd p = 47"
  shows "takeWhile (\<lambda>c. c \<noteq> 47) (e @ p) = e" "dropWhile (\<lambda>c. c \<noteq> 47) (e @ p) = p" "dropWhile (\<lambda>c. c = 47) (e @ p) = e @ p"
proof -
  have ne: "\<forall>x \<in> set e. x \<noteq> 47" using assms(1) by (auto simp: elem_ok_def)
  show "takeWhile (\<lambda>c. c \<noteq> 47) (e @ p) = e" "dropWhile (\<lambda>c. c \<noteq> 47) (e @ p) = p"
    using ne assms(2) by (cases p; simp add: takeWhile_append2 dropWhile_append2)+
  show "dropWhile (\<lambda>c. c = 47) (e @ p) = e @ p" using assms(1) ne by (cases e) (auto simp: elem_ok_def)
qed

lemma bytes_append: "bytes b k (n + m) = bytes b k n @ bytes b (k + n) m"
  by (intro nth_equalityI) (auto simp: nth_append)

lemma cstr_put:
  assumes "elem_ok s" "0 < n"
  shows "cstr (if n \<le> length s then put_bytes b (take n s) else (put_bytes b s)(length s := 0)) n = take n s"
proof -
  let ?d = "if n \<le> length s then put_bytes b (take n s) else (put_bytes b s)(length s := 0)"
  have nz: "\<forall>x \<in> set (take n s). x \<noteq> 0" using assms(1) set_take_subset [of n s] by (auto simp: elem_ok_def)
  show ?thesis
  proof (cases "n \<le> length s")
    case True
    then have "bytes ?d 0 n = take n s" by (intro nth_equalityI) (simp_all add: put_bytes_def)
    then show ?thesis using nz takeWhile_eq_all_conv [of "\<lambda>c. c \<noteq> 0" "take n s"] by (simp only: cstr_def)
  next
    case False
    then obtain m where n: "n = length s + Suc m" by (metis add_Suc_right less_imp_Suc_add not_le)
    have "bytes ?d 0 (length s) = s" using False by (intro nth_equalityI) (simp_all add: put_bytes_def)
    then have "bytes ?d 0 n = s @ 0 # bytes ?d (Suc (length s)) m"
      using False unfolding n bytes_append [of _ 0 "length s" "Suc m"] by (simp only: add_0 bytes_Suc if_False) simp
    then show ?thesis using nz False by (simp only: cstr_def) (simp add: takeWhile_append2)
  qed
qed

text \<open>C19. Walking a path with \<open>skipelem\<close> yields its elements in order, each cut to the length a name has
  on the device (\<open>DIRSIZ\<close> or \<open>EXT2_NAME_LEN\<close>), however many slashes stand before, between and after
  them and whatever the name buffer held.\<close>

theorem path_elements:
  assumes "\<forall>(n, e) \<in> set xs. elem_ok e" "\<forall>(n, e) \<in> set (tl xs). 0 < n"
  shows "names dev (show_path xs k) buf = map (\<lambda>(n, e). take (if dev = ROOTDEV then DIRSIZ else EXT2_NAME_LEN) e) xs"
  using assms
proof (induction xs arbitrary: buf)
  case Nil
  have "dropWhile (\<lambda>c. c = 47) (replicate k (47 :: byte)) = []" by (simp add: dropWhile_eq_Nil_conv)
  then show ?case by (subst names.simps) (simp add: show_path_def skipelem_def)
next
  case (Cons x xs)
  obtain n e where x: "x = (n, e)" by (cases x)
  let ?l = "if dev = ROOTDEV then DIRSIZ else EXT2_NAME_LEN" and ?p = "show_path xs k"
  have e: "elem_ok e" using Cons.prems x by auto
  have "\<forall>(n, e) \<in> set xs. 0 < n" "\<forall>(n, e) \<in> set xs. elem_ok e" using Cons.prems by auto
  note sp = elem_split [OF e show_path_hd [OF this]]
  let ?b = "if ?l \<le> length e then put_bytes buf (take ?l e) else (put_bytes buf e)(length e := 0)"
  have sk: "skipelem (show_path (x # xs) k) buf dev = Some (dropWhile (\<lambda>c. c = 47) ?p, ?b)"
    using e by (simp add: x show_path_Cons skipelem_def dropWhile_slashes sp Let_def) (simp add: elem_ok_def)
  have dr: "names dev (dropWhile (\<lambda>c. c = 47) ?p) b = names dev ?p b" for b
    by (subst (1 2) names.simps) (simp add: skipelem_def)
  have "0 < ?l" by (simp add: const_defs)
  moreover have "\<forall>(n, e) \<in> set (tl xs). 0 < n" using Cons.prems(2) by (cases xs) auto
  ultimately show ?case
    using Cons.IH Cons.prems(1) cstr_put [OF e, of ?l buf]
    by (subst names.simps) (simp only: sk dr option.case prod.case, simp add: x)
qed

theorem path_elements_witness: "names ROOTDEV [47, 47, 97, 47, 98, 98, 47] (\<lambda>_. 0) = [[97], [98, 98]]"
proof -
  have "show_path [(2, [97]), (1, [98, 98])] 1 = [47, 47, 97, 47, 98, 98, 47]" by (simp add: show_path_def numeral_2_eq_2)
  moreover have "elem_ok [97]" "elem_ok [98, 98]" by (simp_all add: elem_ok_def)
  ultimately show ?thesis
    using path_elements [of "[(2, [97]), (1, [98, 98])]" ROOTDEV 1 "\<lambda>_. 0"] by (simp, simp add: const_defs)
qed

end
