(* ===== verification/Ext2File.thy ===== *)
theory Ext2File
  imports FsFile
begin

section \<open>ext2 files are byte arrays\<close>

text \<open>
  Files of the ext2 device within the direct and the single indirect range, by the contract of the block
  store on \<open>EXT2DEV\<close>, where every change is written to the drive at once. \<open>ext2_balloc\<close> numbers the
  blocks of a group from the block of its bitmap on: bit \<open>z\<close> of the bitmap in block \<open>m\<close> stands for block
  \<open>m + z\<close>. With this numbering allocation is consistent, and \<open>ext2_readi\<close> and \<open>ext2_writei\<close> read and
  replace the bytes of a file. The block map \<open>fblk\<close> and the bytes \<open>cont\<close> are those of native files: both
  file systems have 12 direct addresses and then an indirect block.
\<close>

subsection \<open>State changes above the block layer\<close>

definition set_eaddrs :: "nat \<Rightarrow> (nat \<Rightarrow> nat) \<Rightarrow> 'z fstate_scheme \<Rightarrow> 'z fstate_scheme" where
  "set_eaddrs j a s = s\<lparr>ext2_addrs := (ext2_addrs s)(j := (ext2_addrs s j)\<lparr>a_addrs := a\<rparr>)\<rparr>"

lemma erep_bsame: "bsame s t \<Longrightarrow> erep t V H P = erep s V H P"
  using bsameD [of s t] by (simp add: erep_def brep_def hrep_def bsame_def)

lemma set_eaddrs_bsame: "bsame s (set_eaddrs j a s)" "bsame s (seti ip f s)"
  by (simp_all add: bsame_def set_eaddrs_def seti_def)

lemmas erep_set_eaddrs [simp] = erep_bsame [OF set_eaddrs_bsame(1)]
lemmas erep_seti [simp] = erep_bsame [OF set_eaddrs_bsame(2)]

lemma set_eaddrs_sel [simp]:
  "inodes (set_eaddrs j a s) = inodes s" "exs (set_eaddrs j a s) = exs s" "a_addrs (ext2_addrs (set_eaddrs j a s) j) = a"
  "k \<noteq> j \<Longrightarrow> ext2_addrs (set_eaddrs j a s) k = ext2_addrs s k" "sb (set_eaddrs j a s) = sb s" "addrs (set_eaddrs j a s) = addrs s"
  by (simp_all add: set_eaddrs_def)

lemma set_eaddrs_id: "a_addrs (ext2_addrs s j) = a \<Longrightarrow> set_eaddrs j a s = s"
  by (auto simp: set_eaddrs_def)

lemma set_eaddrs_twice [simp]: "set_eaddrs j a (set_eaddrs j b s) = set_eaddrs j a s"
  by (simp add: set_eaddrs_def)

lemma efr_fields:
  fixes s t :: "'z fstate_scheme"
  assumes "efr s t"
  shows "exs t = exs s" "inodes t = inodes s" "ext2_addrs t = ext2_addrs s" "sb t = sb s" "addrs t = addrs s"
    "cons t = cons s" "cur_killed t = cur_killed s" "cur_cwd t = cur_cwd s" "stack_junk t = stack_junk s"
  using assms by (cases s; cases t; simp add: efr_def bframe_def)+

lemma efr_set_eaddrs:
  fixes s t :: "'z fstate_scheme"
  assumes "efr s t" shows "efr (set_eaddrs j a s) (set_eaddrs j a t)"
proof -
  have v: "view (set_eaddrs j a x) = view x" "dblk (set_eaddrs j a x) = dblk x" for x :: "'z fstate_scheme"
    using bsameD(5,8) [OF set_eaddrs_bsame(1)] by blast+
  have m: "cur_pid (set_eaddrs j a x) = cur_pid x" for x :: "'z fstate_scheme" by (simp add: set_eaddrs_def)
  have "bstate.more (set_eaddrs j a t) = bstate.more (set_eaddrs j a s)"
    using assms by (cases s; cases t) (simp add: efr_def bframe_def set_eaddrs_def)
  then show ?thesis using assms by (simp add: efr_def bframe_def v m)
qed

text \<open>\<open>t\<close> is \<open>s\<close> with new addresses \<open>a\<close>, and whatever the block layer did on \<open>EXT2DEV\<close>.\<close>

abbreviation "after_eaddrs j a s t \<equiv> efr (set_eaddrs j a s) t"

lemma after_eaddrs_trans: "after_eaddrs j a s t \<Longrightarrow> after_eaddrs j b t u \<Longrightarrow> after_eaddrs j b s u"
  using efr_set_eaddrs [of "set_eaddrs j a s" t j b] by (auto intro: es.fr_trans)

subsection \<open>The blocks of a group\<close>

definition gdesc :: "ext2_superblock \<Rightarrow> contents \<Rightarrow> nat \<Rightarrow> ext2_group_desc" where
  "gdesc ex V inum = dec_group_desc (V 1) (32 * GN inum ex)"

text \<open>The group of inode \<open>inum\<close> has its descriptor in block 1 and its block bitmap in block \<open>m\<close>, whose
  own bit is set; the blocks the bitmap stands for are on the drive.\<close>

definition egrp :: "ext2_superblock \<Rightarrow> contents \<Rightarrow> nat \<Rightarrow> nat \<Rightarrow> bool" where
  "egrp ex V inum m \<longleftrightarrow> 32 * GN inum ex + 32 \<le> BSIZE \<and> bg_block_bitmap (gdesc ex V inum) = m \<and>
     1 < m \<and> m + 8 * BSIZE \<le> 2 ^ 26 \<and> tst (V m) 0"

definition euse :: "nat \<Rightarrow> contents \<Rightarrow> nat \<Rightarrow> bool" where
  "euse m V n \<longleftrightarrow> m < n \<and> n < m + 8 * BSIZE \<and> tst (V m) (n - m)"

definition eavail :: "nat \<Rightarrow> contents \<Rightarrow> nat \<Rightarrow> bool" where
  "eavail m V n \<longleftrightarrow> m < n \<and> n < m + 8 * BSIZE \<and> \<not> tst (V m) (n - m)"

text \<open>The clear bits that \<open>zeroth_bit\<close> looks at.\<close>

definition efree :: "ext2_superblock \<Rightarrow> contents \<Rightarrow> nat \<Rightarrow> nat set" where
  "efree ex V m = {z. z < u32 (s_blocks_per_group ex * 8) \<and> z < 8 * BSIZE \<and> \<not> tst (V m) z}"

lemma egrpD:
  assumes "egrp ex V inum m"
  shows "32 * GN inum ex + 32 \<le> BSIZE" "dec_group_desc (V 1) (32 * GN inum ex) = gdesc ex V inum"
    "bg_block_bitmap (gdesc ex V inum) = m" "1 < m" "m + 8 * BSIZE \<le> 2 ^ 26" "tst (V m) 0" "blk_ok EXT2DEV m" "blk_ok EXT2DEV 1"
    "euse m V n \<Longrightarrow> blk_ok EXT2DEV n" "eavail m V n \<Longrightarrow> blk_ok EXT2DEV n"
  using assms by (auto simp: egrp_def gdesc_def euse_def eavail_def blk_ok_def const_defs)

lemma finite_efree [simp]: "finite (efree ex V m)"
  by (simp add: efree_def)

text \<open>The contents after block \<open>b\<close> was allocated.\<close>

definition eallocd :: "nat \<Rightarrow> nat \<Rightarrow> contents \<Rightarrow> contents" where
  "eallocd m b V = V(m := bset (b - m) (V m), b := (\<lambda>_. 0))"

lemma eallocd_simps:
  assumes "m < b"
  shows "eallocd m b V m = bset (b - m) (V m)" "eallocd m b V b = (\<lambda>_. 0)"
    "n \<noteq> m \<Longrightarrow> n \<noteq> b \<Longrightarrow> eallocd m b V n = V n"
    "tst (eallocd m b V m) z = (z = b - m \<or> tst (V m) z)"
  using assms by (auto simp: eallocd_def tst_bset)

lemma euse_eallocd:
  assumes "eavail m V b"
  shows "euse m (eallocd m b V) n = (n = b \<or> euse m V n)" "euse m V n \<Longrightarrow> eallocd m b V n = V n" "euse m V n \<Longrightarrow> n \<noteq> b"
proof -
  have b: "m < b" "b < m + 8 * BSIZE" "\<not> tst (V m) (b - m)" using assms by (auto simp: eavail_def)
  have d: "n - m = b - m \<longleftrightarrow> n = b" if "m < n" using b that by auto
  show "euse m (eallocd m b V) n = (n = b \<or> euse m V n)"
    using b d by (auto simp: euse_def eallocd_simps(4) [OF b(1)])
  show "euse m V n \<Longrightarrow> n \<noteq> b" using b by (auto simp: euse_def)
  then show "euse m V n \<Longrightarrow> eallocd m b V n = V n" by (intro eallocd_simps(3) [OF b(1)]) (auto simp: euse_def)
qed

lemma egrp_eallocd: "egrp ex V inum m \<Longrightarrow> eavail m V b \<Longrightarrow> egrp ex (eallocd m b V) inum m"
  using eallocd_simps(3) [of m b 1 V] eallocd_simps(4) [of m b V 0] by (simp add: egrp_def gdesc_def eavail_def)

lemma card_efree_eallocd:
  assumes "eavail m V b" "b - m \<in> efree ex V m" "V' m = eallocd m b V m"
  shows "card (efree ex V m) = card (efree ex V' m) + 1"
proof -
  have "efree ex V' m = efree ex V m - {b - m}"
    using assms eallocd_simps(4) [of m b V] by (auto simp: efree_def eavail_def)
  then show ?thesis using assms(2) by (metis Suc_eq_plus1 card_Suc_Diff1 finite_efree)
qed

subsection \<open>Allocating and freeing blocks\<close>

lemma zeroth_scan_first:
  assumes "b \<le> z" "z < b + k" "z < 8 * BSIZE" "\<not> tst d z" "\<And>i. b \<le> i \<Longrightarrow> i < z \<Longrightarrow> tst d i"
  shows "zeroth_scan d b k = Inr (Some z)"
  using assms
proof (induction k arbitrary: b)
  case (Suc k)
  have lt: "\<not> BSIZE \<le> b div 8" using Suc.prems(1,3) by (simp add: not_le less_mult_imp_div_less mult.commute)
  show ?case
  proof (cases "b = z")
    case False
    then have "zeroth_scan d (b + 1) k = Inr (Some z)" using Suc.prems by (intro Suc.IH) auto
    then show ?thesis using lt False Suc.prems(1) Suc.prems(5) [of b] by simp
  qed (use lt Suc.prems(4) in simp)
qed simp

lemma zeroth_scan_efree:
  assumes "efree ex V m \<noteq> {}"
  shows "zeroth_scan (V m) 0 (u32 (s_blocks_per_group ex * 8)) = Inr (Some (Min (efree ex V m)))" "Min (efree ex V m) \<in> efree ex V m"
proof -
  define z where "z = Min (efree ex V m)"
  have in_z: "z \<in> efree ex V m" unfolding z_def using assms by (intro Min_in) simp_all
  then show "Min (efree ex V m) \<in> efree ex V m" by (simp add: z_def)
  have z: "z < u32 (s_blocks_per_group ex * 8)" "z < 8 * BSIZE" "\<not> tst (V m) z" using in_z by (auto simp: efree_def)
  have "tst (V m) i" if i: "i < z" for i
  proof (rule ccontr)
    assume "\<not> tst (V m) i"
    then have "i \<in> efree ex V m" using i z by (simp add: efree_def)
    then have "z \<le> i" unfolding z_def by (rule Min_le [OF finite_efree])
    then show False using i by simp
  qed
  then have "zeroth_scan (V m) 0 (u32 (s_blocks_per_group ex * 8)) = Inr (Some z)"
    using z by (intro zeroth_scan_first) auto
  then show "zeroth_scan (V m) 0 (u32 (s_blocks_per_group ex * 8)) = Inr (Some (Min (efree ex V m)))" by (simp add: z_def)
qed

lemma copy_gd_gets: "32 * g + 32 \<le> BSIZE \<Longrightarrow> copy_gd bp g = gets (\<lambda>s. dec_group_desc (b_data (bufs s bp)) (32 * g))"
  by (auto simp: copy_gd_def gets_def fun_eq_iff)

lemma ebzero_ok:
  fixes s :: "'z lstate_scheme"
  assumes "erep s V H P" "blk_ok EXT2DEV n" "H n = None" "card (dom H) + card P < NBUF" "card P < NBUF"
    and "\<And>t :: 'z lstate_scheme. efr s t \<Longrightarrow> erep t (V(n := (\<lambda>_. 0))) H P \<Longrightarrow> wp (f ()) Q t"
  shows "wp (bnd (bzero EXT2DEV n) f) Q s"
  unfolding bzero_def bnd_assoc
  using es.update_block [OF assms(1-4) _ assms(5), of "\<lambda>_ _. 0" f Q] assms(6) by (simp add: const_defs)

lemma wp_run_bnd: "m s = m' s \<Longrightarrow> wp (bnd m f) Q s = wp (bnd m' f) Q s"
  by (simp add: wp_def bnd_def)

lemma wp_zeroth_bit:
  assumes "zeroth_scan (b_data (bufs s bp)) 0 (u32 (s_blocks_per_group (exs s) * 8)) = Inr (Some z)"
  shows "wp (bnd (zeroth_bit bp) f) Q s = wp (bnd (bmod bp (bset z)) (\<lambda>_. f (Some z))) Q s"
proof -
  have "zeroth_bit bp s = bnd (bmod bp (bset z)) (\<lambda>_. ret (Some z)) s" using assms by (simp add: zeroth_bit_def)
  then show ?thesis using wp_run_bnd [of "zeroth_bit bp" s "bnd (bmod bp (bset z)) (\<lambda>_. ret (Some z))" f Q] by (simp add: bnd_assoc)
qed

lemma held_again: "H n = None \<Longrightarrow> (H(n \<mapsto> x, n \<mapsto> y, n \<mapsto> z))(n := None) = H"
  by auto

text \<open>The tail of \<open>ext2_balloc\<close>: the bit is written, the new block zeroed and the bitmap released.\<close>

lemma ext2_balloc_mark:
  fixes s :: "'z fstate_scheme"
  assumes r: "erep s V (H(m \<mapsto> (x, False))) P" and g: "egrp ex V inum m" and b: "eavail m V b"
    and h: "H m = None" "H b = None" and c: "card (dom H) + card P + 1 < NBUF"
    and Q: "\<And>t :: 'z fstate_scheme. efr s t \<Longrightarrow> erep t (eallocd m b V) H P \<Longrightarrow> wp (f ()) Q t"
  shows "wp (bnd (bmod x (bset (b - m))) (\<lambda>_. bnd (bwrite x) (\<lambda>_. bnd (bzero EXT2DEV b) (\<lambda>_. bnd (brelse x) f)))) Q s"
proof (rule es.mdf_bnd [OF r, of m x False], simp, rule es.put_bnd [where n = m and m = True], assumption, simp, simp)
  show "card P < NBUF" using c by simp
  fix t u
  let ?H = "H(m \<mapsto> (x, False), m \<mapsto> (x, True), m \<mapsto> (x, False))"
  assume fr: "efr s t" "efr t u" and u: "erep u (V(m := bset (b - m) (V m))) ?H P"
  have mb: "m < b" using b by (simp add: eavail_def)
  have fin: "finite (dom H)"
    using hrep_dom(1) [of EXT2DEV s "H(m \<mapsto> (x, False))"] r by (simp add: erep_def brep_def)
  have cd: "card (dom ?H) + card P < NBUF" using c h(1) fin by (simp add: domIff)
  show "wp (bnd (bzero EXT2DEV b) (\<lambda>_. bnd (brelse x) f)) Q u"
  proof (rule ebzero_ok [OF u egrpD(10) [OF g b] _ cd])
    show "?H b = None" "card P < NBUF" using h(2) mb c by auto
    fix v :: "'z fstate_scheme"
    assume v: "efr u v" "erep v (V(m := bset (b - m) (V m), b := (\<lambda>_. 0))) ?H P"
    show "wp (bnd (brelse x) f) Q v"
    proof (rule es.rel_bnd [OF v(2), of m], simp)
      fix w assume w: "efr v w" "erep w (V(m := bset (b - m) (V m), b := (\<lambda>_. 0))) (?H(m := None)) P"
      have "efr s w" using fr v(1) w(1) by (blast intro: es.fr_trans)
      then show "wp (f ()) Q w" using w(2) unfolding held_again [of H m, OF h(1)] by (intro Q) (simp_all add: eallocd_def)
    qed
  qed
qed

lemma ext2_balloc_ok:
  fixes s :: "'z fstate_scheme"
  assumes r: "erep s V H P" and g: "egrp (exs s) V inum m" and fr: "efree (exs s) V m \<noteq> {}"
    and h: "H 1 = None" "H m = None" "\<And>n. eavail m V n \<Longrightarrow> H n = None" and c: "card (dom H) + card P + 1 < NBUF"
    and Q: "\<And>b t. b = m + Min (efree (exs s) V m) \<Longrightarrow> eavail m V b \<Longrightarrow> b - m \<in> efree (exs s) V m \<Longrightarrow> efr s t \<Longrightarrow>
        erep t (eallocd m b V) H P \<Longrightarrow> wp (f b) Q t"
  shows "wp (bnd (ext2_balloc EXT2DEV inum) f) Q s"
proof -
  note gd = egrpD [OF g]
  define z where "z = Min (efree (exs s) V m)"
  have z: "zeroth_scan (V m) 0 (u32 (s_blocks_per_group (exs s) * 8)) = Inr (Some z)" "z \<in> efree (exs s) V m"
    unfolding z_def by (rule zeroth_scan_efree [OF fr])+
  have zb: "z < 8 * BSIZE" "\<not> tst (V m) z" using z(2) by (auto simp: efree_def)
  have z0: "z \<noteq> 0" using zb(2) gd(6) by metis
  have av: "eavail m V (m + z)" using zb z0 by (simp add: eavail_def)
  have u: "u32 (m + z) = m + z" using zb(1) gd(5) by (simp add: const_defs)
  let ?F = "\<lambda>b. bnd (bwrite b) (\<lambda>_. bnd (bzero EXT2DEV (m + z)) (\<lambda>_. bnd (brelse b) (\<lambda>_. f (m + z))))"
  let ?T = "\<lambda>m bp r. case r of None \<Rightarrow> bnd (brelse bp) (\<lambda>_. panic ''balloc: out of blocks'')
        | Some zbit \<Rightarrow> bnd (bwrite bp) (\<lambda>_. bnd (bzero EXT2DEV (u32 (m + zbit))) (\<lambda>_. bnd (brelse bp) (\<lambda>_. ret (u32 (m + zbit)))))"
  let ?g = "GN inum (exs s)"
  let ?B = "bnd (bread EXT2DEV 1) (\<lambda>gdbp. bnd (gets (\<lambda>s. dec_group_desc (b_data (bufs s gdbp)) (32 * ?g))) (\<lambda>gd.
      bnd (brelse gdbp) (\<lambda>_. bnd (bread EXT2DEV (bg_block_bitmap gd)) (\<lambda>bp. bnd (zeroth_bit bp) (?T (bg_block_bitmap gd) bp)))))"
  have e: "ext2_balloc EXT2DEV inum s = ?B s"
    by (simp only: ext2_balloc_def Let_def copy_gd_gets [OF gd(1)])
  show ?thesis
    unfolding wp_run_bnd [of "ext2_balloc EXT2DEV inum" s ?B, OF e] bnd_assoc
  proof (rule es.read_block [OF r gd(8) h(1)])
    show "card (dom H) + card P < NBUF" using c by simp
    fix t :: "'z fstate_scheme"
    assume t: "efr s t" "erep t V H P"
    note tf = efr_fields [OF t(1)]
    show "wp (bnd (bread EXT2DEV (bg_block_bitmap (dec_group_desc (V 1) (32 * ?g)))) (\<lambda>bp.
       bnd (zeroth_bit bp) (\<lambda>r. bnd (?T (bg_block_bitmap (dec_group_desc (V 1) (32 * ?g))) bp r) f))) Q t"
      unfolding gd(2,3)
    proof (rule es.get_bnd [OF t(2) gd(7) h(2)])
      show "card (dom H) + card P < NBUF" using c by simp
      fix x and v :: "'z fstate_scheme"
      assume v: "efr t v" "erep v V (H(m \<mapsto> (x, False))) P"
      have d: "b_data (bufs v x) = V m" by (rule es.dat_law [OF v(2), of m x False]) simp
      have sv: "efr s v" using t(1) v(1) by (rule es.fr_trans)
      have zs: "zeroth_scan (b_data (bufs v x)) 0 (u32 (s_blocks_per_group (exs v) * 8)) = Inr (Some z)"
        unfolding d efr_fields(1) [OF sv] by (rule z(1))
      have "wp (bnd (bmod x (bset (m + z - m))) (\<lambda>_. ?F x)) Q v"
        by (rule ext2_balloc_mark [OF v(2) g av h(2) h(3) [OF av] c], rule Q [OF _ av])
          (use sv z(2) es.fr_trans in \<open>auto simp: z_def\<close>)
      then show "wp (bnd (zeroth_bit x) (\<lambda>r. bnd (?T m x r) f)) Q v"
        unfolding wp_zeroth_bit [OF zs] by (simp add: u bnd_assoc)
    qed
  qed
qed

text \<open>\<open>ext2_bfree\<close> computes the group from the block number, and the bit by subtracting the block of the
  bitmap from the position in the group.\<close>

definition bgroup :: "ext2_superblock \<Rightarrow> contents \<Rightarrow> nat \<Rightarrow> nat" where
  "bgroup ex V b = bg_block_bitmap (dec_group_desc (V 1) (32 * (b div s_blocks_per_group ex)))"

lemma ext2_bfree_ok:
  fixes s :: "'z fstate_scheme"
  assumes r: "erep s V H P" and gr: "32 * (b div s_blocks_per_group (exs s)) + 32 \<le> BSIZE"
    and m: "bgroup (exs s) V b = m" "1 < m" "blk_ok EXT2DEV m"
    and i: "i = sub32 (b mod s_blocks_per_group (exs s)) m" "i < 8 * BSIZE" "tst (V m) i"
    and h: "H 1 = None" "H m = None" and c: "card (dom H) + card P + 1 < NBUF"
    and Q: "\<And>t :: 'z fstate_scheme. efr s t \<Longrightarrow> erep t (V(m := bclr i (V m))) H P \<Longrightarrow> Q () t"
  shows "wp (ext2_bfree EXT2DEV b) Q s"
proof -
  let ?g = "b div s_blocks_per_group (exs s)"
  let ?F = "\<lambda>x bp. bnd (bmod bp (bclr i)) (\<lambda>_. bnd (bwrite bp) (\<lambda>_. bnd (brelse bp) (\<lambda>_. brelse x)))"
  have id: "\<not> BSIZE \<le> i div 8" using i(2) by (simp add: not_le less_mult_imp_div_less mult.commute)
  have ok1: "blk_ok EXT2DEV 1" by (simp add: blk_ok_def const_defs)
  have m1: "m \<noteq> 1" using m(2) by simp
  have "wp (bnd (bread EXT2DEV 1) (\<lambda>gd_bp. bnd (gets (\<lambda>s. dec_group_desc (b_data (bufs s gd_bp)) (32 * ?g))) (\<lambda>gd.
      bnd (bread EXT2DEV (bg_block_bitmap gd)) (\<lambda>bp. let index = sub32 (b mod s_blocks_per_group (exs s)) (bg_block_bitmap gd) in
      if index div 8 \<ge> BSIZE then fail (Undef ''bp->data'')
      else bnd (gets (\<lambda>s. tst (b_data (bufs s bp)) index)) (\<lambda>used.
       if \<not> used then panic ''freeing free block''
       else bnd (bmod bp (bclr index)) (\<lambda>_. bnd (bwrite bp) (\<lambda>_. bnd (brelse bp) (\<lambda>_. brelse gd_bp)))))))) Q s"
  proof (rule es.get_bnd [OF r ok1 h(1)])
    show "card (dom H) + card P < NBUF" using c by simp
    fix x and t :: "'z fstate_scheme"
    assume t: "efr s t" "erep t V (H(1 \<mapsto> (x, False))) P"
    have d: "b_data (bufs t x) = V 1" by (rule es.dat_law [OF t(2), of 1 x False]) simp
    have fin: "finite (dom H)" using hrep_dom(1) [of EXT2DEV s H] r by (simp add: erep_def brep_def)
    have h2: "(H(1 \<mapsto> (x, False))) m = None" using h(2) m1 by simp
    have c2: "card (dom (H(1 \<mapsto> (x, False)))) + card P < NBUF" using c h(1) fin by (simp add: domIff)
    have "wp (bnd (bread EXT2DEV m) (\<lambda>bp. bnd (gets (\<lambda>s. tst (b_data (bufs s bp)) i)) (\<lambda>used.
       if \<not> used then panic ''freeing free block'' else ?F x bp))) Q t"
    proof (rule es.get_bnd [OF t(2) m(3) h2 c2])
      fix y and u :: "'z fstate_scheme"
      let ?H = "H(1 \<mapsto> (x, False))"
      assume u: "efr t u" "erep u V (?H(m \<mapsto> (y, False))) P"
      have d: "b_data (bufs u y) = V m" by (rule es.dat_law [OF u(2), of m y False]) simp
      have "wp (?F x y) Q u"
      proof (rule es.mdf_bnd [OF u(2), of m y False], simp, rule es.put_bnd [where n = m and m = True], assumption, simp, simp)
        show "card P < NBUF" using c by simp
        fix v w
        assume vw: "efr u v" "efr v w" and w: "erep w (V(m := bclr i (V m))) (?H(m \<mapsto> (y, False), m \<mapsto> (y, True), m \<mapsto> (y, False))) P"
        show "wp (bnd (brelse y) (\<lambda>_. brelse x)) Q w"
        proof (rule es.rel_bnd [OF w, of m], simp)
          fix a assume a: "efr w a" "erep a (V(m := bclr i (V m))) ((?H(m \<mapsto> (y, False), m \<mapsto> (y, True), m \<mapsto> (y, False)))(m := None)) P"
          then have a2: "erep a (V(m := bclr i (V m))) ?H P" unfolding held_again [of ?H m, OF h2] by blast
          have sa: "efr s a" using t(1) u(1) vw a(1) by (blast intro: es.fr_trans)
          have "wp (brelse x) (\<lambda>_ t. efr a t \<and> erep t (V(m := bclr i (V m))) (?H(1 := None)) P) a"
            by (rule es.rel_law [OF a2]) simp
          moreover have "?H(1 := None) = H" using h(1) by auto
          ultimately show "wp (brelse x) Q a" using sa by (auto intro!: wp_mono [where Q = Q] Q intro: es.fr_trans)
        qed
      qed
      then show "wp (bnd (gets (\<lambda>s. tst (b_data (bufs s y)) i)) (\<lambda>used.
         if \<not> used then panic ''freeing free block'' else ?F x y)) Q u"
        by (simp add: wp_gets_bnd d i(3))
    qed
    then show "wp (bnd (gets (\<lambda>s. dec_group_desc (b_data (bufs s x)) (32 * ?g))) (\<lambda>gd.
      bnd (bread EXT2DEV (bg_block_bitmap gd)) (\<lambda>bp. let index = sub32 (b mod s_blocks_per_group (exs s)) (bg_block_bitmap gd) in
      if index div 8 \<ge> BSIZE then fail (Undef ''bp->data'')
      else bnd (gets (\<lambda>s. tst (b_data (bufs s bp)) index)) (\<lambda>used.
       if \<not> used then panic ''freeing free block''
       else bnd (bmod bp (bclr index)) (\<lambda>_. bnd (bwrite bp) (\<lambda>_. bnd (brelse bp) (\<lambda>_. brelse x))))))) Q t"
      using id m(1) by (simp add: wp_gets_bnd d bgroup_def Let_def i(1) [symmetric] del: One_nat_def cong: if_cong)
  qed
  then show ?thesis by (simp add: wp_def ext2_bfree_def copy_gd_gets [OF gr] Let_def cong: if_cong)
qed

text \<open>In every group but the first the bitmap lies behind the position that \<open>ext2_bfree\<close> computes, so that the
  subtraction wraps.\<close>

lemma ext2_bfree_wraps:
  fixes s :: "'z fstate_scheme"
  assumes r: "erep s V H P" and gr: "32 * (b div s_blocks_per_group (exs s)) + 32 \<le> BSIZE" "0 < s_blocks_per_group (exs s)"
    and m: "bgroup (exs s) V b = m" "s_blocks_per_group (exs s) \<le> m" "1 < m" "blk_ok EXT2DEV m"
    and h: "H 1 = None" "H m = None" and c: "card (dom H) + card P + 1 < NBUF"
  shows "ext2_bfree EXT2DEV b s = Inl (Undef ''bp->data'')"
proof -
  have ok1: "blk_ok EXT2DEV 1" by (simp add: blk_ok_def const_defs)
  have "card (dom H) + card P < NBUF" using c by simp
  from es.get_law [OF r ok1 h(1) this] obtain x t where x: "bread EXT2DEV 1 s = Inr (x, t)"
    and t: "efr s t" "erep t V (H(1 \<mapsto> (x, False))) P" by (auto simp: wp_iff)
  have d: "b_data (bufs t x) = V 1" by (rule es.dat_law [OF t(2), of 1 x False]) simp
  have fin: "finite (dom H)" using hrep_dom(1) [of EXT2DEV s H] r by (simp add: erep_def brep_def)
  have h2: "(H(1 \<mapsto> (x, False))) m = None" using h(2) m(3) by simp
  have "card (dom (H(1 \<mapsto> (x, False)))) + card P < NBUF" using c h(1) fin by (simp add: domIff)
  from es.get_law [OF t(2) m(4) h2 this] obtain y u where y: "bread EXT2DEV m t = Inr (y, u)" by (auto simp: wp_iff)
  have "b mod s_blocks_per_group (exs s) < m" using gr(2) m(2) mod_less_divisor order_less_le_trans by blast
  moreover have "m < 2 ^ 26" using m(4) by (simp add: blk_ok_def const_defs)
  ultimately have "BSIZE \<le> sub32 (b mod s_blocks_per_group (exs s)) m div 8" by (simp add: sub32_def u32_def const_defs)
  then show ?thesis
    using m(1) unfolding ext2_bfree_def copy_gd_gets [OF gr(1)] Let_def
    by (simp add: bnd_run x gets_run d y bgroup_def fail_run del: One_nat_def)
qed

subsection \<open>Files\<close>

definition efinv :: "nat \<Rightarrow> contents \<Rightarrow> (nat \<Rightarrow> nat) \<Rightarrow> bool" where
  "efinv m V a \<longleftrightarrow>
     (a NDIRECT \<noteq> 0 \<longrightarrow> euse m V (a NDIRECT)) \<and>
     (\<forall>bn < MAXFILE. fblk a V bn \<noteq> 0 \<longrightarrow> euse m V (fblk a V bn) \<and> fblk a V bn \<noteq> a NDIRECT) \<and>
     (\<forall>i < MAXFILE. \<forall>n < MAXFILE. fblk a V i \<noteq> 0 \<longrightarrow> fblk a V i = fblk a V n \<longrightarrow> i = n)"

lemma efinvD:
  assumes "efinv m V a"
  shows "a NDIRECT \<noteq> 0 \<Longrightarrow> euse m V (a NDIRECT)"
    "bn < MAXFILE \<Longrightarrow> fblk a V bn \<noteq> 0 \<Longrightarrow> euse m V (fblk a V bn)"
    "bn < MAXFILE \<Longrightarrow> fblk a V bn \<noteq> 0 \<Longrightarrow> fblk a V bn \<noteq> a NDIRECT"
    "i < MAXFILE \<Longrightarrow> n < MAXFILE \<Longrightarrow> fblk a V i \<noteq> 0 \<Longrightarrow> fblk a V i = fblk a V n \<Longrightarrow> i = n"
  using assms by (auto simp: efinv_def)

text \<open>A new direct block.\<close>

lemma egrow:
  assumes fi: "efinv m V a" and b: "eavail m V b" and bn: "bn < NDIRECT" "a bn = 0"
  shows "efinv m (eallocd m b V) (a(bn := b))"
    and "off < MAXFILE * BSIZE \<Longrightarrow> cont (a(bn := b)) (eallocd m b V) off = cont a V off"
    and "fblk (a(bn := b)) (eallocd m b V) k = (if k = bn then b else fblk a V k)"
proof -
  have b0: "b \<noteq> 0" using b by (simp add: eavail_def)
  have z: "fblk a V bn = 0" using bn by (simp add: fblk_def)
  note ua = euse_eallocd [OF b]
  have new: "fblk (a(bn := b)) (eallocd m b V) k = (if k = bn then b else fblk a V k)" for k
    using bn ua(2) [OF efinvD(1) [OF fi]] by (auto simp: fblk_def)
  then show "fblk (a(bn := b)) (eallocd m b V) k = (if k = bn then b else fblk a V k)" .
  have ne: "fblk a V k \<noteq> b" if "k < MAXFILE" for k using efinvD(2) [OF fi that] ua(3) b0 by metis
  have ni: "a NDIRECT \<noteq> b" using efinvD(1) [OF fi] ua(3) b0 by metis
  show "efinv m (eallocd m b V) (a(bn := b))"
    unfolding efinv_def new
  proof (intro conjI allI impI)
    show "(a(bn := b)) NDIRECT \<noteq> 0 \<Longrightarrow> euse m (eallocd m b V) ((a(bn := b)) NDIRECT)"
      using efinvD(1) [OF fi] ua(1) bn(1) by simp
    fix k
    assume k: "k < MAXFILE" and nz: "(if k = bn then b else fblk a V k) \<noteq> 0"
    show "euse m (eallocd m b V) (if k = bn then b else fblk a V k)"
      using efinvD(2) [OF fi k] ua(1) nz by (auto split: if_splits)
    show "(if k = bn then b else fblk a V k) \<noteq> (a(bn := b)) NDIRECT"
      using efinvD(3) [OF fi k] nz ni bn(1) by (auto split: if_splits)
    fix i
    assume i: "i < MAXFILE" and eq: "(if k = bn then b else fblk a V k) = (if i = bn then b else fblk a V i)"
    show "k = i" using eq nz ne [OF k] ne [OF i] efinvD(4) [OF fi k i] by (auto split: if_splits)
  qed
  show "off < MAXFILE * BSIZE \<Longrightarrow> cont (a(bn := b)) (eallocd m b V) off = cont a V off"
    by (rule cont_grow [OF z b0 _ new]) (use ua(2) efinvD(2) [OF fi] b in \<open>auto simp: eavail_def eallocd_simps(2)\<close>)
qed

text \<open>Other contents of a data block.\<close>

lemma edata_write:
  assumes fi: "efinv m V a" and bn: "bn < MAXFILE" "b = fblk a V bn" "b \<noteq> 0"
  shows "fblk a (V(b := d)) k = fblk a V k" "efinv m (V(b := d)) a"
    and "off < MAXFILE * BSIZE \<Longrightarrow> cont a (V(b := d)) off = (if off div BSIZE = bn then d (off mod BSIZE) else cont a V off)"
    and "euse m (V(b := d)) n = euse m V n" "efree ex (V(b := d)) m = efree ex V m" "euse m V b" "m < b"
proof -
  have bi: "b \<noteq> a NDIRECT" and bu: "euse m V b"
    unfolding bn(2) by (rule efinvD(3) [OF fi bn(1) bn(3) [unfolded bn(2)]], rule efinvD(2) [OF fi bn(1) bn(3) [unfolded bn(2)]])
  show "euse m V b" by fact
  show mb: "m < b" using bu by (simp add: euse_def)
  have f: "fblk a (V(b := d)) k = fblk a V k" for k using bi by (simp add: fblk_def)
  then show "fblk a (V(b := d)) k = fblk a V k" .
  have u: "euse m (V(b := d)) n = euse m V n" for n using mb by (simp add: euse_def)
  then show "euse m (V(b := d)) n = euse m V n" .
  show "efree ex (V(b := d)) m = efree ex V m" using mb by (simp add: efree_def)
  show "efinv m (V(b := d)) a" using fi unfolding efinv_def f u .
  assume off: "off < MAXFILE * BSIZE"
  have k: "off div BSIZE < MAXFILE" using off by (simp add: less_mult_imp_div_less)
  show "cont a (V(b := d)) off = (if off div BSIZE = bn then d (off mod BSIZE) else cont a V off)"
  proof (cases "off div BSIZE = bn")
    case True
    then have "fblk a V (off div BSIZE) = b" using bn(2) by simp
    then show ?thesis using bn(3) True by (simp add: cont_def f Let_def)
  next
    case False
    then have "fblk a V (off div BSIZE) \<noteq> b" using efinvD(4) [OF fi k bn(1)] bn(2,3) by metis
    then show ?thesis using False by (simp add: cont_def f Let_def)
  qed
qed

definition eopen :: "'z fstate_scheme \<Rightarrow> contents \<Rightarrow> pins \<Rightarrow> nat \<Rightarrow> nat \<Rightarrow> nat \<Rightarrow> (nat \<Rightarrow> nat) \<Rightarrow> bool" where
  "eopen s V P ip j m a \<longleftrightarrow> erep s V Map.empty P \<and> egrp (exs s) V (i_inum (inodes s ip)) m \<and> i_dev (inodes s ip) = EXT2DEV \<and>
     i_addrs (inodes s ip) = AExt j \<and> a_addrs (ext2_addrs s j) = a \<and> efinv m V a"

lemma eopenD:
  assumes "eopen s V P ip j m a"
  shows "erep s V Map.empty P" "egrp (exs s) V (i_inum (inodes s ip)) m" "i_dev (inodes s ip) = EXT2DEV"
    "i_addrs (inodes s ip) = AExt j" "a_addrs (ext2_addrs s j) = a" "efinv m V a"
  using assms by (auto simp: eopen_def)

lemma eopen_efr:
  fixes s t :: "'z fstate_scheme"
  assumes "eopen s V P ip j m a" "efr s t" "erep t V Map.empty P"
  shows "eopen t V P ip j m a"
  using assms efr_fields [OF assms(2)] by (simp add: eopen_def)

lemma wp_get_eaddr: "i_addrs (inodes s ip) = AExt j \<Longrightarrow> wp (bnd (get_addr ip i) f) Q s = wp (f (a_addrs (ext2_addrs s j) i)) Q s"
  by (simp add: wp_def bnd_def get_addr_def)

lemma wp_set_eaddr:
  "i_addrs (inodes s ip) = AExt j \<Longrightarrow>
     wp (bnd (set_addr ip i v) f) Q s = wp (f ()) Q (set_eaddrs j ((a_addrs (ext2_addrs s j))(i := v)) s)"
  by (simp add: wp_def bnd_def set_addr_def set_eaddrs_def)

subsection \<open>ext2\_bmap\<close>

lemma ext2_bmap_direct:
  "bn < NDIRECT \<Longrightarrow> ext2_bmap ip bn = ext2_addr ip bn"
  by (simp add: ext2_bmap_def Let_def const_defs fun_eq_iff)

lemma ext2_bmap_indirect:
  assumes "i_dev (inodes s ip) = EXT2DEV" "k < NINDIRECT"
  shows "wp (ext2_bmap ip (NDIRECT + k)) Q s = wp (bnd (ext2_addr ip NDIRECT) (\<lambda>addr.
      bnd (bread EXT2DEV addr) (\<lambda>bp. bnd (ext2_entry ip bp k) (\<lambda>addr. bnd (brelse bp) (\<lambda>_. ret addr))))) Q s"
  using assms by (simp add: wp_def ext2_bmap_def Let_def const_defs)

lemma wp_ext2_addr:
  fixes s :: "'z fstate_scheme"
  assumes "i_addrs (inodes s ip) = AExt j" "a_addrs (ext2_addrs s j) i \<noteq> 0"
  shows "wp (bnd (ext2_addr ip i) f) Q s = wp (f (a_addrs (ext2_addrs s j) i)) Q s"
  unfolding ext2_addr_def bnd_assoc using assms by (simp add: wp_get_eaddr)

lemma ext2_bmap_hit:
  fixes s :: "'z fstate_scheme"
  assumes f: "eopen s V P ip j m a" and bn: "bn < MAXFILE" "fblk a V bn \<noteq> 0" and c: "card P < NBUF"
  shows "wp (ext2_bmap ip bn) (\<lambda>b t. b = fblk a V bn \<and> efr s t \<and> eopen t V P ip j m a) s"
proof (cases "bn < NDIRECT")
  case True
  note fo = eopenD [OF f]
  have "a bn \<noteq> 0" using True bn(2) by (simp add: fblk_def)
  then have "wp (bnd (ext2_addr ip bn) ret) (\<lambda>b t. b = fblk a V bn \<and> efr s t \<and> eopen t V P ip j m a) s"
    using True f fo by (subst wp_ext2_addr) (auto simp: fblk_def wp_ret es.fr_refl)
  then show ?thesis using True by (simp add: ext2_bmap_direct wp_bnd wp_ret)
next
  case False
  note fo = eopenD [OF f]
  let ?Q = "\<lambda>b t. b = fblk a V bn \<and> efr s t \<and> eopen t V P ip j m a"
  obtain k where k: "bn = NDIRECT + k" "k < NINDIRECT" using bn(1) False by (auto simp: MAXFILE_def not_less le_iff_add)
  have i: "a NDIRECT \<noteq> 0" and w: "fblk a V bn = rd32 (V (a NDIRECT)) (4 * k)"
    using bn(2) k by (auto simp: fblk_def split: if_splits)
  have ok: "blk_ok EXT2DEV (a NDIRECT)" by (rule egrpD(9) [OF fo(2) efinvD(1) [OF fo(6) i]])
  have "wp (bnd (bread EXT2DEV (a NDIRECT)) (\<lambda>bp. bnd (ext2_entry ip bp k) (\<lambda>addr. bnd (brelse bp) (\<lambda>_. ret addr)))) ?Q s"
  proof (rule es.get_bnd [OF fo(1) ok])
    fix x t assume t: "efr s t" "erep t V [a NDIRECT \<mapsto> (x, False)] P"
    have d: "b_data (bufs t x) = V (a NDIRECT)" by (rule es.dat_law [OF t(2), of "a NDIRECT" x False]) simp
    have nz: "rd32 (V (a NDIRECT)) (4 * k) \<noteq> 0" using bn(2) w by simp
    have "wp (bnd (brelse x) (\<lambda>_. ret (fblk a V bn))) ?Q t"
    proof (rule es.rel_bnd [OF t(2), of "a NDIRECT" x])
      fix u assume u: "efr t u" "erep u V ([a NDIRECT \<mapsto> (x, False)](a NDIRECT := None)) P"
      have "efr s u" using t u by (blast intro: es.fr_trans)
      then show "wp (ret (fblk a V bn)) ?Q u" using u eopen_efr [OF f] by (simp add: wp_ret)
    qed simp
    then show "wp (bnd (ext2_entry ip x k) (\<lambda>addr. bnd (brelse x) (\<lambda>_. ret addr))) ?Q t"
      unfolding ext2_entry_def bnd_assoc using k(2) nz by (simp add: wp_load_word d w)
  qed (use c in auto)
  then show ?thesis using fo i k by (simp add: ext2_bmap_indirect wp_ext2_addr)
qed

lemma ext2_bmap_new:
  fixes s :: "'z fstate_scheme"
  assumes f: "eopen s V P ip j m a" and bn: "bn < NDIRECT" "a bn = 0" and fr: "efree (exs s) V m \<noteq> {}" and c: "card P + 1 < NBUF"
  shows "wp (ext2_bmap ip bn) (\<lambda>b t. eavail m V b \<and> b - m \<in> efree (exs s) V m \<and> after_eaddrs j (a(bn := b)) s t \<and>
    eopen t (eallocd m b V) P ip j m (a(bn := b))) s"
proof -
  note fo = eopenD [OF f]
  let ?Q = "\<lambda>b t. eavail m V b \<and> b - m \<in> efree (exs s) V m \<and> after_eaddrs j (a(bn := b)) s t \<and>
    eopen t (eallocd m b V) P ip j m (a(bn := b))"
  have "wp (bnd (ext2_balloc EXT2DEV (i_inum (inodes s ip))) (\<lambda>addr. bnd (set_addr ip bn addr) (\<lambda>_. ret addr))) ?Q s"
  proof (rule ext2_balloc_ok [OF fo(1,2) fr])
    show "card (dom Map.empty) + card P + 1 < NBUF" using c by simp
    fix b and t :: "'z fstate_scheme"
    assume b: "eavail m V b" "b - m \<in> efree (exs s) V m" and t: "efr s t" "erep t (eallocd m b V) Map.empty P"
    note tf = efr_fields [OF t(1)]
    have ft: "i_addrs (inodes t ip) = AExt j" "a_addrs (ext2_addrs t j) = a" using tf fo by auto
    have "after_eaddrs j (a(bn := b)) s (set_eaddrs j (a(bn := b)) t)" by (rule efr_set_eaddrs [OF t(1)])
    moreover have "eopen (set_eaddrs j (a(bn := b)) t) (eallocd m b V) P ip j m (a(bn := b))"
      using t(2) tf fo egrp_eallocd [OF fo(2) b(1)] egrow(1) [OF fo(6) b(1) bn] by (simp add: eopen_def)
    ultimately show "wp (bnd (set_addr ip bn b) (\<lambda>_. ret b)) ?Q t"
      using b ft by (simp add: wp_set_eaddr wp_ret)
  qed simp_all
  then have "wp (bnd (\<lambda>s. ext2_balloc (i_dev (inodes s ip)) (i_inum (inodes s ip)) s) (\<lambda>addr. bnd (set_addr ip bn addr) (\<lambda>_. ret addr))) ?Q s"
    using fo(3) by (subst wp_run_bnd [of _ s "ext2_balloc EXT2DEV (i_inum (inodes s ip))"]) simp_all
  then show ?thesis
    unfolding ext2_bmap_direct [OF bn(1)] ext2_addr_def using fo bn(2) by (simp add: wp_get_eaddr)
qed

subsection \<open>Reading\<close>

lemma bread_of_ext2: "i_dev (inodes s ip) = EXT2DEV \<Longrightarrow> wp (bnd (bread_of ip n) f) Q s = wp (bnd (bread EXT2DEV n) f) Q s"
  by (simp add: wp_def bnd_def bread_of_def)

lemma ext2_readi_loop_ok:
  fixes s :: "'z fstate_scheme"
  assumes "eopen s V P ip j m a" "dense a V sz" "off + n \<le> sz" "card P + 1 < NBUF"
  shows "wp (readi_loop (ext2_bmap ip) ip off n) (\<lambda>bs t. bs = map (cont a V) [off..<off + n] \<and> efr s t \<and> eopen t V P ip j m a) s"
  using assms
proof (induction n arbitrary: off s rule: less_induct)
  case (less n)
  note f = less.prems(1) and d = less.prems(2)
  show ?case
  proof (cases "n = 0")
    case True
    then show ?thesis using f by (subst readi_loop.simps) (simp add: wp_ret es.fr_refl)
  next
    case False
    define l where "l = min n (BSIZE - off mod BSIZE)"
    have l: "0 < l" "l \<le> n" using False by (auto simp: l_def)
    let ?b = "fblk a V (off div BSIZE)"
    have lt: "off < sz" using False less.prems(3) by simp
    have bn: "off div BSIZE < MAXFILE" using lt d by (simp add: dense_def less_mult_imp_div_less)
    have nz: "?b \<noteq> 0" using lt d by (simp add: dense_def)
    let ?Q = "\<lambda>bs t. bs = map (cont a V) [off..<off + n] \<and> efr s t \<and> eopen t V P ip j m a"
    let ?K = "\<lambda>bp. bnd (gets (\<lambda>s. bytes (b_data (bufs s bp)) (off mod BSIZE) l)) (\<lambda>x. bnd (brelse bp) (\<lambda>_.
        bnd (readi_loop (ext2_bmap ip) ip (off + l) (n - l)) (\<lambda>y. ret (x @ y))))"
    have "wp (bnd (ext2_bmap ip (off div BSIZE)) (\<lambda>addr. bnd (bread_of ip addr) ?K)) ?Q s"
    proof (rule wp_bndI [OF ext2_bmap_hit [OF f bn nz]])
      show "card P < NBUF" using less.prems(4) by simp
      fix b t assume "b = ?b \<and> efr s t \<and> eopen t V P ip j m a"
      then have t: "b = ?b" "efr s t" "eopen t V P ip j m a" by auto
      note ft = eopenD [OF t(3)]
      have ok: "blk_ok EXT2DEV ?b" by (rule egrpD(9) [OF ft(2) efinvD(2) [OF ft(6) bn nz]])
      have "wp (bnd (bread EXT2DEV ?b) ?K) ?Q t"
      proof (rule es.read_block [OF ft(1) ok, where g = "\<lambda>d. bytes d (off mod BSIZE) l"])
        fix u assume u: "efr t u" "erep u V Map.empty P"
        have fu: "eopen u V P ip j m a" by (rule eopen_efr [OF t(3) u])
        have su: "efr s u" using t u by (blast intro: es.fr_trans)
        show "wp (bnd (readi_loop (ext2_bmap ip) ip (off + l) (n - l)) (\<lambda>y. ret (bytes (V ?b) (off mod BSIZE) l @ y))) ?Q u"
        proof (rule wp_bndI [OF less.IH [OF _ fu d]])
          show "n - l < n" "off + l + (n - l) \<le> sz" "card P + 1 < NBUF" using l False less.prems by auto
          fix y v
          assume "y = map (cont a V) [off + l..<off + l + (n - l)] \<and> efr u v \<and> eopen v V P ip j m a"
          moreover have "map (cont a V) [off..<off + l] @ map (cont a V) [off + l..<off + n] = map (cont a V) [off..<off + n]"
            using l upt_add_eq_append [of off "off + l" "n - l"] by (simp flip: map_append)
          ultimately show "wp (ret (bytes (V ?b) (off mod BSIZE) l @ y)) ?Q v"
            using l su cont_span [OF l_def refl nz] by (auto simp: wp_ret intro: es.fr_trans)
        qed
      qed (use less.prems(4) in auto)
      then show "wp (bnd (bread_of ip b) ?K) ?Q t" by (simp only: t(1) bread_of_ext2 [OF ft(3)])
    qed
    then show ?thesis using False by (subst readi_loop.simps) (simp add: l_def Let_def)
  qed
qed

subsection \<open>Writing\<close>

text \<open>What writing to a file leaves: its bytes are \<open>F\<close>, at most \<open>d\<close> bits of the bitmap were set, and blocks in
  use that are not the file's, and all blocks outside the group, are as they were.\<close>

definition ewrote :: "'z fstate_scheme \<Rightarrow> contents \<Rightarrow> pins \<Rightarrow> nat \<Rightarrow> nat \<Rightarrow> nat \<Rightarrow> (nat \<Rightarrow> nat) \<Rightarrow> nat \<Rightarrow> (nat \<Rightarrow> byte)
    \<Rightarrow> 'z fstate_scheme \<Rightarrow> contents \<Rightarrow> (nat \<Rightarrow> nat) \<Rightarrow> bool" where
  "ewrote s V P ip j m a d F t V' a' \<longleftrightarrow>
     after_eaddrs j a' s t \<and> eopen t V' P ip j m a' \<and>
     card (efree (exs s) V m) \<le> card (efree (exs s) V' m) + d \<and>
     (\<forall>off < MAXFILE * BSIZE. cont a' V' off = F off) \<and>
     (\<forall>bn < MAXFILE. fblk a V bn \<noteq> 0 \<longrightarrow> fblk a' V' bn \<noteq> 0) \<and>
     (\<forall>n \<in> fblocks a' V'. n \<in> fblocks a V \<or> \<not> euse m V n) \<and>
     (\<forall>n. euse m V n \<longrightarrow> euse m V' n \<and> (n \<notin> fblocks a V \<longrightarrow> V' n = V n)) \<and>
     (\<forall>n. n < m \<or> m + 8 * BSIZE \<le> n \<longrightarrow> V' n = V n) \<and> (\<forall>i \<ge> NDIRECT. a' i = a i)"

lemma ewroteD:
  fixes s t :: "'z fstate_scheme"
  assumes "ewrote s V P ip j m a d F t V' a'"
  shows "after_eaddrs j a' s t" "eopen t V' P ip j m a'" "card (efree (exs s) V m) \<le> card (efree (exs s) V' m) + d"
    "off < MAXFILE * BSIZE \<Longrightarrow> cont a' V' off = F off" "bn < MAXFILE \<Longrightarrow> fblk a V bn \<noteq> 0 \<Longrightarrow> fblk a' V' bn \<noteq> 0"
    "n \<in> fblocks a' V' \<Longrightarrow> n \<in> fblocks a V \<or> \<not> euse m V n" "euse m V n \<Longrightarrow> euse m V' n"
    "euse m V n \<Longrightarrow> n \<notin> fblocks a V \<Longrightarrow> V' n = V n" "n < m \<or> m + 8 * BSIZE \<le> n \<Longrightarrow> V' n = V n"
    "i \<ge> NDIRECT \<Longrightarrow> a' i = a i" "exs t = exs s" "inodes t = inodes s"
  using assms efr_fields [of "set_eaddrs j a' s" t] by (auto simp: ewrote_def)

lemma ewrote_trans:
  fixes s t u :: "'z fstate_scheme"
  assumes 1: "ewrote s V P ip j m a d F t V' a'" and 2: "ewrote t V' P ip j m a' e G u V'' a''"
  shows "ewrote s V P ip j m a (d + e) G u V'' a''"
proof -
  note d1 = ewroteD [OF 1] and d2 = ewroteD [OF 2]
  have "after_eaddrs j a'' s u" by (rule after_eaddrs_trans [OF d1(1) d2(1)])
  moreover have "card (efree (exs s) V m) \<le> card (efree (exs s) V'' m) + (d + e)" using d1(3) d2(3) d1(11) by simp
  moreover have "n \<in> fblocks a V \<or> \<not> euse m V n" if "n \<in> fblocks a'' V''" for n
    using d2(6) [OF that] d1(6,7) [of n] by blast
  moreover have "euse m V'' n \<and> (n \<notin> fblocks a V \<longrightarrow> V'' n = V n)" if n: "euse m V n" for n
  proof -
    have "n \<notin> fblocks a V \<Longrightarrow> n \<notin> fblocks a' V'" using d1(6) n by blast
    then show ?thesis using d2(7,8) [OF d1(7) [OF n]] d1(8) [OF n] by simp
  qed
  moreover have "V'' n = V n" if "n < m \<or> m + 8 * BSIZE \<le> n" for n using d2(9) [OF that] d1(9) [OF that] by simp
  moreover have "fblk a'' V'' bn \<noteq> 0" if "bn < MAXFILE" "fblk a V bn \<noteq> 0" for bn
    by (rule d2(5) [OF that(1) d1(5) [OF that]])
  ultimately show ?thesis using d2(2,4,10) d1(10) by (simp add: ewrote_def)
qed

lemma ewrote_cong: "ewrote s V P ip j m a d F t V' a' \<Longrightarrow> (\<And>off. off < MAXFILE * BSIZE \<Longrightarrow> F off = G off) \<Longrightarrow> ewrote s V P ip j m a d G t V' a'"
  by (simp add: ewrote_def)

lemma ewrote_refl: "eopen s V P ip j m a \<Longrightarrow> efr s t \<Longrightarrow> eopen t V P ip j m a \<Longrightarrow> ewrote s V P ip j m a d (cont a V) t V a"
  using set_eaddrs_id [of s j a] eopenD(5) [of s V P ip j m a] by (auto simp: ewrote_def)

text \<open>A new direct block leaves the bytes as they were.\<close>

lemma ewrote_new:
  fixes s t :: "'z fstate_scheme"
  assumes f: "eopen s V P ip j m a" and bn: "bn < NDIRECT" "a bn = 0" and b: "eavail m V b" "b - m \<in> efree (exs s) V m"
    and t: "after_eaddrs j (a(bn := b)) s t" "eopen t (eallocd m b V) P ip j m (a(bn := b))"
  shows "ewrote s V P ip j m a 1 (cont a V) t (eallocd m b V) (a(bn := b))"
proof -
  note fi = eopenD(6) [OF f]
  note g = egrow [OF fi b(1) bn] and ua = euse_eallocd [OF b(1)]
  have mb: "m < b" "b < m + 8 * BSIZE" using b(1) by (auto simp: eavail_def)
  have b0: "b \<noteq> 0" using mb by simp
  have nb: "\<not> euse m V b" using b(1) by (simp add: eavail_def euse_def)
  have "n \<in> fblocks a V \<or> \<not> euse m V n" if "n \<in> fblocks (a(bn := b)) (eallocd m b V)" for n
    using that bn(1) nb by (auto simp: fblocks_def g(3) split: if_splits)
  moreover have "eallocd m b V n = V n" if "n < m \<or> m + 8 * BSIZE \<le> n" for n
    using that mb by (intro eallocd_simps(3)) auto
  moreover have "card (efree (exs s) V m) \<le> card (efree (exs s) (eallocd m b V) m) + 1"
    using card_efree_eallocd [OF b, of "eallocd m b V"] by simp
  ultimately show ?thesis using t g b0 bn ua by (simp add: ewrote_def)
qed

text \<open>Then the block is written.\<close>

lemma ewrote_data:
  fixes s t u :: "'z fstate_scheme"
  assumes w: "ewrote s V P ip j m a d (cont a V) t V' a'" and bn: "bn < MAXFILE" "b = fblk a' V' bn" "b \<noteq> 0"
    and u: "efr t u" "erep u (V'(b := D)) Map.empty P"
  shows "ewrote s V P ip j m a d (\<lambda>off. if off div BSIZE = bn then D (off mod BSIZE) else cont a V off) u (V'(b := D)) a'"
proof -
  note wd = ewroteD [OF w]
  note ft = eopenD [OF wd(2)]
  note dw = edata_write [OF ft(6) bn]
  have m1: "1 < m" by (rule egrpD(4) [OF ft(2)])
  have g: "egrp (exs t) (V'(b := D)) (i_inum (inodes t ip)) m"
    using ft(2) dw(7) m1 by (simp add: egrp_def gdesc_def)
  have fu: "eopen u (V'(b := D)) P ip j m a'"
    using u(2) ft dw(2) g efr_fields [OF u(1)] by (simp add: eopen_def)
  have bf: "b \<in> fblocks a' V'" using bn by (auto simp: fblocks_def)
  have bb: "b < m + 8 * BSIZE" using dw(6) by (simp add: euse_def)
  have fb: "fblocks a' (V'(b := D)) = fblocks a' V'" using dw(1) by (simp add: fblocks_def)
  have "after_eaddrs j a' s u" by (rule es.fr_trans [OF wd(1) u(1)])
  moreover have "euse m (V'(b := D)) n \<and> (n \<notin> fblocks a V \<longrightarrow> (V'(b := D)) n = V n)" if n: "euse m V n" for n
  proof -
    have "n \<notin> fblocks a V \<Longrightarrow> n \<noteq> b" using wd(6) [OF bf] n by auto
    then show ?thesis using wd(7,8) [OF n] dw(4) by simp
  qed
  moreover have "(V'(b := D)) n = V n" if "n < m \<or> m + 8 * BSIZE \<le> n" for n using that wd(9) dw(7) bb by auto
  moreover have "cont a' (V'(b := D)) off = (if off div BSIZE = bn then D (off mod BSIZE) else cont a V off)"
    if "off < MAXFILE * BSIZE" for off using dw(3) [OF that] wd(4) [OF that] by simp
  ultimately show ?thesis using fu wd(3,5,6,10) unfolding ewrote_def fb dw(1,5) by blast
qed

lemma ext2_bmap_ok:
  fixes s :: "'z fstate_scheme"
  assumes f: "eopen s V P ip j m a" and bn: "bn < MAXFILE"
    and fr: "fblk a V bn \<noteq> 0 \<or> bn < NDIRECT \<and> efree (exs s) V m \<noteq> {}" and c: "card P + 1 < NBUF"
  shows "wp (ext2_bmap ip bn) (\<lambda>b t. \<exists>V' a'. b \<noteq> 0 \<and> b = fblk a' V' bn \<and> ewrote s V P ip j m a 1 (cont a V) t V' a') s"
proof (cases "fblk a V bn = 0")
  case True
  then have b: "bn < NDIRECT" "a bn = 0" "efree (exs s) V m \<noteq> {}" using fr by (auto simp: fblk_def)
  show ?thesis
  proof (rule wp_mono [OF ext2_bmap_new [OF f b c]])
    fix b' and t :: "'z fstate_scheme"
    assume "eavail m V b' \<and> b' - m \<in> efree (exs s) V m \<and> after_eaddrs j (a(bn := b')) s t \<and>
      eopen t (eallocd m b' V) P ip j m (a(bn := b'))"
    then have h: "eavail m V b'" "b' - m \<in> efree (exs s) V m" "after_eaddrs j (a(bn := b')) s t"
      "eopen t (eallocd m b' V) P ip j m (a(bn := b'))" by blast+
    have "b' = fblk (a(bn := b')) (eallocd m b' V) bn" using b(1) by (simp add: fblk_def)
    moreover have "b' \<noteq> 0" using h(1) by (simp add: eavail_def)
    ultimately show "\<exists>V' a'. b' \<noteq> 0 \<and> b' = fblk a' V' bn \<and> ewrote s V P ip j m a 1 (cont a V) t V' a'"
      using ewrote_new [OF f b(1,2) h] by blast
  qed
next
  case False
  have "card P < NBUF" using c by simp
  from ext2_bmap_hit [OF f bn False this] show ?thesis
    by (rule wp_mono) (use ewrote_refl [OF f] False in blast)
qed

text \<open>One round of the loop of \<open>ext2_writei\<close>.\<close>

lemma ext2_writei_round:
  fixes s :: "'z fstate_scheme"
  assumes f: "eopen s V P ip j m a" and bn: "off div BSIZE < MAXFILE" and l: "l = min n (BSIZE - off mod BSIZE)"
    and fr: "fblk a V (off div BSIZE) \<noteq> 0 \<or> off div BSIZE < NDIRECT \<and> efree (exs s) V m \<noteq> {}" and c: "card P + 1 < NBUF"
    and Q: "\<And>t V' a'. ewrote s V P ip j m a 1 (\<lambda>i. if off \<le> i \<and> i < off + l then src (tot + (i - off)) else cont a V i) t V' a' \<Longrightarrow>
        fblk a' V' (off div BSIZE) \<noteq> 0 \<Longrightarrow> wp K Q t"
  shows "wp (bnd (ext2_bmap ip (off div BSIZE)) (\<lambda>addr. bnd (bread_of ip addr) (\<lambda>bp.
      bnd (bmod bp (\<lambda>d. blit d (off mod BSIZE) src tot l)) (\<lambda>_. bnd (bwrite bp) (\<lambda>_. bnd (brelse bp) (\<lambda>_. K)))))) Q s"
proof (rule wp_bndI [OF ext2_bmap_ok [OF f bn fr c]])
  fix b t
  assume "\<exists>V' a'. b \<noteq> 0 \<and> b = fblk a' V' (off div BSIZE) \<and> ewrote s V P ip j m a 1 (cont a V) t V' a'"
  then obtain V' a' where b: "b \<noteq> 0" "b = fblk a' V' (off div BSIZE)" and w: "ewrote s V P ip j m a 1 (cont a V) t V' a'" by blast
  note wd = ewroteD [OF w]
  note ft = eopenD [OF wd(2)]
  have "euse m V' b" unfolding b(2) by (rule efinvD(2) [OF ft(6) bn]) (use b in simp)
  then have ok: "blk_ok EXT2DEV b" by (rule egrpD(9) [OF ft(2)])
  have c1: "card (dom Map.empty) + card P < NBUF" "card P < NBUF" using c by auto
  let ?D = "blit (V' b) (off mod BSIZE) src tot l"
  have "wp (bnd (bread EXT2DEV b) (\<lambda>bp. bnd (bmod bp (\<lambda>d. blit d (off mod BSIZE) src tot l)) (\<lambda>_.
      bnd (bwrite bp) (\<lambda>_. bnd (brelse bp) (\<lambda>_. K))))) Q t"
  proof (rule es.update_block [OF ft(1) ok _ c1(1) _ c1(2), where g = "\<lambda>d. blit d (off mod BSIZE) src tot l"])
    fix u assume u: "efr t u" "erep u (V'(b := ?D)) Map.empty P"
    have "ewrote s V P ip j m a 1 (\<lambda>i. if off \<le> i \<and> i < off + l then src (tot + (i - off)) else cont a V i) u (V'(b := ?D)) a'"
    proof (rule ewrote_cong [OF ewrote_data [OF w bn b(2,1) u]])
      fix i assume i: "i < MAXFILE * BSIZE"
      have "i div BSIZE = off div BSIZE \<Longrightarrow> V' b (i mod BSIZE) = cont a V i"
        using cont_block [of a' V' "off div BSIZE" i] b wd(4) [OF i] by simp
      then show "(if i div BSIZE = off div BSIZE then ?D (i mod BSIZE) else cont a V i)
          = (if off \<le> i \<and> i < off + l then src (tot + (i - off)) else cont a V i)"
        unfolding blit_step [OF l] by auto
    qed
    moreover have "fblk a' (V'(b := ?D)) (off div BSIZE) \<noteq> 0"
      using edata_write(1) [OF ft(6) bn b(2,1)] b by simp
    ultimately show "wp K Q u" by (rule Q)
  qed simp_all
  then show "wp (bnd (bread_of ip b) (\<lambda>bp. bnd (bmod bp (\<lambda>d. blit d (off mod BSIZE) src tot l)) (\<lambda>_.
      bnd (bwrite bp) (\<lambda>_. bnd (brelse bp) (\<lambda>_. K))))) Q t"
    by (simp only: bread_of_ext2 [OF ft(3)])
qed

text \<open>The blocks that are written are direct ones or have been allocated before.\<close>

definition ereach :: "(nat \<Rightarrow> nat) \<Rightarrow> contents \<Rightarrow> nat \<Rightarrow> nat \<Rightarrow> bool" where
  "ereach a V off n \<longleftrightarrow> (\<forall>i. off \<le> i \<and> i < off + n \<longrightarrow> i div BSIZE < NDIRECT \<or> fblk a V (i div BSIZE) \<noteq> 0)"

lemma ext2_writei_loop_ok:
  fixes s :: "'z fstate_scheme"
  assumes "eopen s V P ip j m a" "off + n \<le> MAXFILE * BSIZE" "ereach a V off n"
    "nblk off n \<le> card (efree (exs s) V m)" "card P + 1 < NBUF"
  shows "wp (writei_loop (ext2_bmap ip) bwrite ip src tot off n) (\<lambda>_ t. \<exists>V' a'.
      ewrote s V P ip j m a (nblk off n) (\<lambda>i. if off \<le> i \<and> i < off + n then src (tot + (i - off)) else cont a V i) t V' a'
      \<and> (\<forall>i. off \<le> i \<and> i < off + n \<longrightarrow> fblk a' V' (i div BSIZE) \<noteq> 0)) s"
  using assms
proof (induction n arbitrary: off tot s V a rule: less_induct)
  case (less n)
  note f = less.prems(1)
  show ?case
  proof (cases "n = 0")
    case True
    then have "ewrote s V P ip j m a 0 (\<lambda>i. if off \<le> i \<and> i < off + n then src (tot + (i - off)) else cont a V i) s V a"
      by (intro ewrote_cong [OF ewrote_refl [OF f es.fr_refl f]]) auto
    then show ?thesis using True by (subst writei_loop.simps, subst nblk.simps) (auto simp: wp_ret)
  next
    case False
    define l where "l = min n (BSIZE - off mod BSIZE)"
    have l: "0 < l" "l \<le> n" using False by (auto simp: l_def)
    define k where "k = nblk (off + l) (n - l)"
    have nb: "nblk off n = Suc k" using False by (subst nblk.simps) (simp add: l_def k_def Let_def)
    have "off < MAXFILE * BSIZE" using l less.prems(2) by linarith
    then have bn: "off div BSIZE < MAXFILE" by (rule less_mult_imp_div_less)
    let ?F = "\<lambda>off n tot C i. if off \<le> i \<and> i < off + n then src (tot + (i - off)) else C i"
    let ?Q = "\<lambda>_ t. \<exists>V' a'. ewrote s V P ip j m a (nblk off n) (?F off n tot (cont a V)) t V' a'
      \<and> (\<forall>i. off \<le> i \<and> i < off + n \<longrightarrow> fblk a' V' (i div BSIZE) \<noteq> 0)"
    have "wp (bnd (ext2_bmap ip (off div BSIZE)) (\<lambda>addr. bnd (bread_of ip addr) (\<lambda>bp.
      bnd (bmod bp (\<lambda>d. blit d (off mod BSIZE) src tot l)) (\<lambda>_. bnd (bwrite bp) (\<lambda>_. bnd (brelse bp) (\<lambda>_.
      writei_loop (ext2_bmap ip) bwrite ip src (tot + l) (off + l) (n - l))))))) ?Q s"
    proof (rule ext2_writei_round [OF f bn l_def])
      have "off div BSIZE < NDIRECT \<or> fblk a V (off div BSIZE) \<noteq> 0" using less.prems(3) l by (simp add: ereach_def)
      moreover have "efree (exs s) V m \<noteq> {}" using less.prems(4) nb by auto
      ultimately show "fblk a V (off div BSIZE) \<noteq> 0 \<or> off div BSIZE < NDIRECT \<and> efree (exs s) V m \<noteq> {}" by blast
      show "card P + 1 < NBUF" by fact
      fix t V1 a1
      assume w: "ewrote s V P ip j m a 1 (?F off l tot (cont a V)) t V1 a1" and nz: "fblk a1 V1 (off div BSIZE) \<noteq> 0"
      note wd = ewroteD [OF w]
      show "wp (writei_loop (ext2_bmap ip) bwrite ip src (tot + l) (off + l) (n - l)) ?Q t"
      proof (rule wp_mono [OF less.IH [OF _ wd(2)]])
        show "n - l < n" "off + l + (n - l) \<le> MAXFILE * BSIZE" "card P + 1 < NBUF" using l less.prems(2,5) by auto
        show "nblk (off + l) (n - l) \<le> card (efree (exs t) V1 m)" using less.prems(4) wd(3,11) nb k_def by simp
        show "ereach a1 V1 (off + l) (n - l)"
          unfolding ereach_def
        proof (intro allI impI)
          fix i assume i: "off + l \<le> i \<and> i < off + l + (n - l)"
          then have "off \<le> i \<and> i < off + n" using l by linarith
          moreover then have "i div BSIZE < MAXFILE" using less.prems(2) by (intro less_mult_imp_div_less) linarith
          ultimately show "i div BSIZE < NDIRECT \<or> fblk a1 V1 (i div BSIZE) \<noteq> 0"
            using less.prems(3) wd(5) [of "i div BSIZE"] by (auto simp: ereach_def)
        qed
        fix r u
        assume "\<exists>V' a'. ewrote t V1 P ip j m a1 (nblk (off + l) (n - l)) (?F (off + l) (n - l) (tot + l) (cont a1 V1)) u V' a'
          \<and> (\<forall>i. off + l \<le> i \<and> i < off + l + (n - l) \<longrightarrow> fblk a' V' (i div BSIZE) \<noteq> 0)"
        then obtain V' a' where w': "ewrote t V1 P ip j m a1 k (?F (off + l) (n - l) (tot + l) (cont a1 V1)) u V' a'"
          and nz': "\<And>i. off + l \<le> i \<Longrightarrow> i < off + n \<Longrightarrow> fblk a' V' (i div BSIZE) \<noteq> 0"
          using l unfolding k_def by auto
        have "ewrote s V P ip j m a (1 + k) (?F off n tot (cont a V)) u V' a'"
          by (rule ewrote_cong [OF ewrote_trans [OF w w']]) (use l wd(4) in auto)
        moreover have "fblk a' V' (i div BSIZE) \<noteq> 0" if i: "off \<le> i" "i < off + n" for i
        proof (cases "i < off + l")
          case True
          then have e: "i div BSIZE = off div BSIZE" using span(1) [OF l_def, of "i - off"] i by simp
          show ?thesis unfolding e by (rule ewroteD(5) [OF w' bn nz])
        qed (use nz' i in auto)
        ultimately show "?Q r u" using nb by auto
      qed
    qed
    then show ?thesis using False by (subst writei_loop.simps) (simp add: l_def Let_def)
  qed
qed

end
