(* ===== verification/Ext2Inode.thy ===== *)
theory Ext2Inode
  imports Ext2File FsInode
begin

section \<open>ext2 inodes on disk, and reading and writing ext2 files\<close>

text \<open>
  \<open>ext2_iupdate\<close> stores the type, the link count, the size and the fifteen addresses of an inode in its
  place of the inode table, and \<open>ext2_ilock\<close> reads the same values back. \<open>ext2_readi\<close> and \<open>ext2_writei\<close> on a
  file are \<open>take\<close>/\<open>drop\<close> and a splice on its list of bytes.
\<close>

subsection \<open>The layout of an inode\<close>

definition einode_ok :: "inode \<Rightarrow> (nat \<Rightarrow> nat) \<Rightarrow> bool" where
  "einode_ok x ad \<longleftrightarrow> (i_type x = T_FILE \<or> i_type x = T_DIR) \<and> -32768 \<le> i_nlink x \<and> i_nlink x < 32768 \<and>
     i_size x < 4294967296 \<and> (\<forall>i < EXT2_N_BLOCKS. ad i < 4294967296)"

text \<open>What an inode at offset \<open>k\<close> of a block says.\<close>

definition ext2_saved :: "block \<Rightarrow> nat \<Rightarrow> inode \<Rightarrow> (nat \<Rightarrow> nat) \<Rightarrow> bool" where
  "ext2_saved d k x ad \<longleftrightarrow> rd16 d k = (if i_type x = T_DIR then S_IFDIR else S_IFREG) \<and> s16 (rd16 d (k + 26)) = i_nlink x \<and>
     rd32 d (k + 4) = i_size x \<and> (\<forall>i < EXT2_N_BLOCKS. rd32 d (k + 40 + 4 * i) = ad i)"

lemma mode_rd: "i_type x = T_FILE \<or> i_type x = T_DIR \<Longrightarrow>
    rd16 (ext2_mode_of (i_type x) k d) k = (if i_type x = T_DIR then S_IFDIR else S_IFREG)"
  by (auto simp: ext2_mode_of_def Let_def const_defs)

lemma fill_rd:
  "rd16 (fill_ext2_fields k d) k = rd16 d k" "rd16 (fill_ext2_fields k d) (k + 26) = rd16 d (k + 26)"
  "rd32 (fill_ext2_fields k d) (k + 4) = rd32 d (k + 4)"
  by (simp_all add: fill_ext2_fields_def Let_def)

lemma put_inode_saved:
  assumes "einode_ok x ad" shows "ext2_saved (ext2_put_inode x ad k d) k x ad"
proof -
  have t: "i_type x = T_FILE \<or> i_type x = T_DIR" using assms by (simp add: einode_ok_def)
  have "rd32 (ext2_put_inode x ad k d) (k + 40 + 4 * i) = ad i" if "i < EXT2_N_BLOCKS" for i
    using that assms unfolding ext2_put_inode_def Let_def by (simp add: rd32_put_words einode_ok_def u32_def)
  moreover have "rd16 (ext2_put_inode x ad k d) k = (if i_type x = T_DIR then S_IFDIR else S_IFREG)"
    using mode_rd [OF t] by (simp add: ext2_put_inode_def Let_def rd16_put_words fill_rd)
  moreover have "s16 (rd16 (ext2_put_inode x ad k d) (k + 26)) = i_nlink x"
    using assms by (simp add: ext2_put_inode_def Let_def rd16_put_words fill_rd einode_ok_def)
  moreover have "rd32 (ext2_put_inode x ad k d) (k + 4) = i_size x"
    using assms by (simp add: ext2_put_inode_def Let_def rd32_put_words_before fill_rd einode_ok_def u32_def)
  ultimately show ?thesis by (simp add: ext2_saved_def)
qed

text \<open>An inode takes the 128 bytes from its offset on.\<close>

lemma put_inode_other: "i < k \<or> k + 128 \<le> i \<Longrightarrow> ext2_put_inode x ad k d i = d i"
  by (auto simp: ext2_put_inode_def fill_ext2_fields_def ext2_mode_of_def Let_def put_words_other const_defs)

lemma saved_cong:
  assumes "\<And>i. k \<le> i \<Longrightarrow> i < k + 128 \<Longrightarrow> d i = e i" shows "ext2_saved d k x ad = ext2_saved e k x ad"
proof -
  have r: "rd16 d k = rd16 e k" "rd16 d (k + 26) = rd16 e (k + 26)" "rd32 d (k + 4) = rd32 e (k + 4)"
    using assms by (auto intro!: rd16_cong rd32_cong)
  have "rd32 d (k + 40 + 4 * i) = rd32 e (k + 40 + 4 * i)" if "i < EXT2_N_BLOCKS" for i
    using that assms by (intro rd32_cong) (auto simp: const_defs)
  then show ?thesis unfolding ext2_saved_def r by auto
qed

lemma saved_load:
  assumes "ext2_saved d k x ad" "i_type x = T_FILE \<or> i_type x = T_DIR"
  shows "ext2_load_inode ip j d k s = seti ip (\<lambda>y. y\<lparr>i_type := i_type x, i_major := 0, i_minor := 0, i_nlink := i_nlink x, i_size := i_size x\<rparr>)
    (set_eaddrs j (\<lambda>i. if i < EXT2_N_BLOCKS then ad i else 0) s)"
proof -
  have m: "S_ISDIR S_IFDIR" "S_ISREG S_IFREG" "\<not> S_ISDIR S_IFREG" "int S_IFREG \<noteq> T_DIR"
    by (simp_all add: S_ISDIR_def S_ISREG_def const_defs)
  have "(\<lambda>i. if i < EXT2_N_BLOCKS then rd32 d (k + 40 + 4 * i) else 0) = (\<lambda>i. if i < EXT2_N_BLOCKS then ad i else 0)"
    using assms(1) by (auto simp: ext2_saved_def)
  then show ?thesis using assms m by (auto simp: ext2_load_inode_def ext2_saved_def Let_def set_eaddrs_def)
qed

subsection \<open>Storing and loading\<close>

text \<open>Block and offset of the inode.\<close>

definition eino :: "ext2_superblock \<Rightarrow> contents \<Rightarrow> nat \<Rightarrow> nat" where
  "eino ex V inum = inode_block ex (gdesc ex V inum) (IO inum ex)"

definition eoff :: "ext2_superblock \<Rightarrow> nat \<Rightarrow> nat" where
  "eoff ex inum = inode_off ex (IO inum ex)"

lemma wp_finish: "wp (bnd m ret) Q s = wp m Q s"
  by (simp add: wp_bnd wp_ret)

lemma ext2_iupdate_ok:
  fixes s :: "'z fstate_scheme"
  assumes r: "erep s V Map.empty P" and g: "egrp (exs s) V (i_inum (inodes s ip)) m"
    and x: "i_dev (inodes s ip) = EXT2DEV" "i_addrs (inodes s ip) = AExt j" and b: "b = eino (exs s) V (i_inum (inodes s ip))"
    and u: "euse m V b" and c: "card P + 1 < NBUF"
    and V': "V' = V(b := ext2_put_inode (inodes s ip) (a_addrs (ext2_addrs s j)) (eoff (exs s) (i_inum (inodes s ip))) (V b))"
  shows "wp (ext2_iupdate ip) (\<lambda>_ t. efr s t \<and> erep t V' Map.empty P) s"
proof -
  note gd = egrpD [OF g]
  let ?x = "inodes s ip" and ?ad = "a_addrs (ext2_addrs s j)" and ?ex = "exs s"
  let ?o = "IO (i_inum ?x) ?ex" and ?Q = "\<lambda>_ t. efr s t \<and> erep t V' Map.empty P"
  let ?F = "\<lambda>gdbp bp. bnd (bmod bp (ext2_put_inode ?x ?ad (inode_off ?ex ?o))) (\<lambda>_. bnd (bwrite bp) (\<lambda>_. bnd (brelse gdbp) (\<lambda>_. brelse bp)))"
  have b1: "b \<noteq> 1" "blk_ok EXT2DEV b" using u gd(4) gd(9) [OF u] by (auto simp: euse_def)
  have "wp (bnd (bread EXT2DEV 1) (\<lambda>gdbp. bnd (gets (\<lambda>s. dec_group_desc (b_data (bufs s gdbp)) (32 * GN (i_inum ?x) ?ex))) (\<lambda>gd.
       bnd (bread EXT2DEV (inode_block ?ex gd ?o)) (?F gdbp)))) ?Q s"
  proof (rule es.get_bnd [OF r gd(8)])
    fix y and t :: "'z fstate_scheme"
    let ?H = "[1 \<mapsto> (y, False)] :: holds"
    assume t: "efr s t" "erep t V ?H P"
    have d: "b_data (bufs t y) = V 1" by (rule es.dat_law [OF t(2), of 1 y False]) simp
    have hb: "?H b = None" using b1 by simp
    have "wp (bnd (bread EXT2DEV b) (?F y)) ?Q t"
    proof (rule es.get_bnd [OF t(2) b1(2) hb])
      show "card (dom ?H) + card P < NBUF" using c by simp
      fix z and v :: "'z fstate_scheme"
      assume v: "efr t v" "erep v V (?H(b \<mapsto> (z, False))) P"
      show "wp (?F y z) ?Q v"
      proof (rule es.mdf_bnd [OF v(2), of b z False], simp, rule es.put_bnd [where n = b and m = True], assumption, simp, simp)
        show "card P < NBUF" using c by simp
        fix v1 v2
        let ?H2 = "?H(b \<mapsto> (z, False), b \<mapsto> (z, True), b \<mapsto> (z, False))"
        assume fr: "efr v v1" "efr v1 v2" and v2: "erep v2 (V(b := ext2_put_inode ?x ?ad (inode_off ?ex ?o) (V b))) ?H2 P"
        show "wp (bnd (brelse y) (\<lambda>_. brelse z)) ?Q v2"
        proof (rule es.rel_bnd [OF v2, of 1])
          show "?H2 1 = Some (y, False)" using b1 by simp
          fix w assume w: "efr v2 w" "erep w (V(b := ext2_put_inode ?x ?ad (inode_off ?ex ?o) (V b))) (?H2(1 := None)) P"
          have sw: "efr s w" using t(1) v(1) fr w(1) by (blast intro: es.fr_trans)
          have h: "(?H2(1 := None))(b := None) = Map.empty" by auto
          have "wp (brelse z) (\<lambda>_ t. efr w t \<and> erep t (V(b := ext2_put_inode ?x ?ad (inode_off ?ex ?o) (V b))) ((?H2(1 := None))(b := None)) P) w"
            by (rule es.rel_law [OF w(2)]) (use b1 in simp)
          then show "wp (brelse z) ?Q w"
            by (rule wp_mono) (use sw h V' in \<open>auto simp: eoff_def intro: es.fr_trans\<close>)
        qed
      qed
    qed
    then show "wp (bnd (gets (\<lambda>s. dec_group_desc (b_data (bufs s y)) (32 * GN (i_inum ?x) ?ex))) (\<lambda>gd.
       bnd (bread EXT2DEV (inode_block ?ex gd ?o)) (?F y))) ?Q t"
      by (simp only: wp_gets_bnd d gd(2) b eino_def)
  qed (use c in auto)
  then show ?thesis using x by (simp add: wp_def ext2_iupdate_def Let_def copy_gd_gets [OF gd(1)])
qed

lemma seti_at: "inodes (seti ip f s) ip = f (inodes s ip)" "ext2_addrs (seti ip f s) = ext2_addrs s"
  by (simp_all add: seti_def)

text \<open>\<open>ext2_ilock\<close> of a slot that does not hold its inode yet reads it from disk, whatever the slot had.\<close>

definition loaded :: "inode \<Rightarrow> inode \<Rightarrow> inode" where
  "loaded x y = y\<lparr>i_valid := True, i_type := i_type x, i_major := 0, i_minor := 0, i_nlink := i_nlink x, i_size := i_size x\<rparr>"

lemma ext2_ilock_ok:
  fixes s :: "'z fstate_scheme"
  assumes r: "erep s V Map.empty P" and g: "egrp (exs s) V (i_inum (inodes s ip)) m"
    and x: "i_dev (inodes s ip) = EXT2DEV" "i_addrs (inodes s ip) = AExt j" "0 < i_ref (inodes s ip)" "\<not> i_valid (inodes s ip)"
      "acquiresleep (cur_pid s) (i_lock (inodes s ip)) = Inr l"
    and b: "b = eino (exs s) V (i_inum (inodes s ip))" "euse m V b" and c: "card P < NBUF"
    and sv: "ext2_saved (V b) (eoff (exs s) (i_inum (inodes s ip))) y ad" "i_type y = T_FILE \<or> i_type y = T_DIR"
  shows "wp (ext2_ilock ip) (\<lambda>_ t. erep t V Map.empty P \<and> inodes t ip = loaded y ((inodes s ip)\<lparr>i_lock := l\<rparr>) \<and>
      a_addrs (ext2_addrs t j) = (\<lambda>i. if i < EXT2_N_BLOCKS then ad i else 0)) s"
proof -
  note gd = egrpD [OF g]
  define s1 where "s1 = seti ip (\<lambda>x. x\<lparr>i_lock := l\<rparr>) s"
  let ?x = "inodes s1 ip" and ?ex = "exs s1"
  have s1: "?x = (inodes s ip)\<lparr>i_lock := l\<rparr>" "?ex = exs s" by (simp_all add: s1_def seti_def)
  have r1: "erep s1 V Map.empty P" using r by (simp add: s1_def)
  let ?o = "IO (i_inum ?x) ?ex"
  let ?T = "\<lambda>bp. bnd (\<lambda>s. Inr ((), ext2_load_inode ip j (b_data (bufs s bp)) (inode_off ?ex ?o) s)) (\<lambda>_.
         bnd (brelse bp) (\<lambda>_. bnd (upd (seti ip (\<lambda>x. x\<lparr>i_valid := True\<rparr>))) (\<lambda>_ s.
         if i_type (inodes s ip) = 0 then Inl (Panic ''ilock: no type'') else Inr ((), s))))"
  let ?Q = "\<lambda>_ t. erep t V Map.empty P \<and> inodes t ip = loaded y ((inodes s ip)\<lparr>i_lock := l\<rparr>) \<and>
      a_addrs (ext2_addrs t j) = (\<lambda>i. if i < EXT2_N_BLOCKS then ad i else 0)"
  have gi: "32 * GN (i_inum ?x) ?ex + 32 \<le> BSIZE" "dec_group_desc (V 1) (32 * GN (i_inum ?x) ?ex) = gdesc (exs s) V (i_inum (inodes s ip))"
    using gd(1,2) s1 by simp_all
  have bb: "inode_block ?ex (gdesc (exs s) V (i_inum (inodes s ip))) ?o = b" using b(1) s1 by (simp add: eino_def)
  have "wp (bnd (bread EXT2DEV 1) (\<lambda>bp1. bnd (gets (\<lambda>s. dec_group_desc (b_data (bufs s bp1)) (32 * GN (i_inum ?x) ?ex))) (\<lambda>gd.
       bnd (brelse bp1) (\<lambda>_. bnd (bread EXT2DEV (inode_block ?ex gd ?o)) ?T)))) ?Q s1"
  proof (rule es.read_block [OF r1 gd(8)])
    show "card (dom Map.empty) + card P < NBUF" using c by simp
    fix t assume t: "efr s1 t" "erep t V Map.empty P"
    show "wp (bnd (bread EXT2DEV (inode_block ?ex (dec_group_desc (V 1) (32 * GN (i_inum ?x) ?ex)) ?o)) ?T) ?Q t"
      unfolding gi(2) bb
    proof (rule es.get_bnd [OF t(2) gd(9) [OF b(2)]])
      fix z u assume u: "efr t u" "erep u V [b \<mapsto> (z, False)] P"
      have d: "b_data (bufs u z) = V b" by (rule es.dat_law [OF u(2), of b z False]) simp
      have su: "efr s1 u" using t(1) u(1) by (rule es.fr_trans)
      let ?v = "ext2_load_inode ip j (V b) (inode_off ?ex ?o) u"
      have v: "?v = seti ip (\<lambda>x. x\<lparr>i_type := i_type y, i_major := 0, i_minor := 0, i_nlink := i_nlink y, i_size := i_size y\<rparr>)
          (set_eaddrs j (\<lambda>i. if i < EXT2_N_BLOCKS then ad i else 0) u)"
        by (rule saved_load) (use sv s1 in \<open>simp_all add: eoff_def\<close>)
      have vr: "erep ?v V [b \<mapsto> (z, False)] P" unfolding v using u(2) by simp
      have "wp (bnd (brelse z) (\<lambda>_. bnd (upd (seti ip (\<lambda>x. x\<lparr>i_valid := True\<rparr>))) (\<lambda>_ s.
         if i_type (inodes s ip) = 0 then Inl (Panic ''ilock: no type'') else Inr ((), s)))) ?Q ?v"
      proof (rule es.rel_bnd [OF vr, of b])
        fix w assume w: "efr ?v w" "erep w V ([b \<mapsto> (z, False)](b := None)) P"
        have "inodes w ip = (inodes s ip)\<lparr>i_lock := l, i_type := i_type y, i_major := 0, i_minor := 0, i_nlink := i_nlink y, i_size := i_size y\<rparr>"
          unfolding efr_fields(2) [OF w(1)] v using efr_fields(2) [OF su] s1(1) by (simp add: seti_def)
        moreover have "a_addrs (ext2_addrs w j) = (\<lambda>i. if i < EXT2_N_BLOCKS then ad i else 0)"
          using efr_fields(3) [OF w(1)] by (simp add: v seti_def set_eaddrs_def)
        moreover have "i_type y \<noteq> 0" using sv(2) by (auto simp: const_defs)
        ultimately show "wp (bnd (upd (seti ip (\<lambda>x. x\<lparr>i_valid := True\<rparr>))) (\<lambda>_ s.
           if i_type (inodes s ip) = 0 then Inl (Panic ''ilock: no type'') else Inr ((), s))) ?Q w"
          using w(2) by (simp add: wp_upd_bnd) (simp add: wp_def seti_at loaded_def)
      qed simp
      then show "wp (?T z) ?Q u" by (simp add: wp_def bnd_def d)
    qed (use c in simp_all)
  qed simp
  then show ?thesis
    using x s1 by (simp add: wp_def ext2_ilock_def acquire_inode_def bnd_run s1_def [symmetric] copy_gd_gets [OF gd(1)] Let_def)
qed

subsection \<open>A file as a list of bytes\<close>

definition efile :: "'z fstate_scheme \<Rightarrow> contents \<Rightarrow> pins \<Rightarrow> nat \<Rightarrow> nat \<Rightarrow> nat \<Rightarrow> byte list \<Rightarrow> bool" where
  "efile s V P ip j m bs \<longleftrightarrow> (let x = inodes s ip; a = a_addrs (ext2_addrs s j); b = eino (exs s) V (i_inum x) in
     eopen s V P ip j m a \<and> i_file_type x = Some Ext2fs \<and> einode_ok x a \<and> euse m V b \<and> b \<notin> fblocks a V \<and>
     i_size x = length bs \<and> dense a V (length bs) \<and> bs = map (cont a V) [0..<length bs])"

lemma efileD:
  assumes "efile s V P ip j m bs"
  shows "eopen s V P ip j m (a_addrs (ext2_addrs s j))" "i_file_type (inodes s ip) = Some Ext2fs"
    "einode_ok (inodes s ip) (a_addrs (ext2_addrs s j))" "euse m V (eino (exs s) V (i_inum (inodes s ip)))"
    "eino (exs s) V (i_inum (inodes s ip)) \<notin> fblocks (a_addrs (ext2_addrs s j)) V" "i_size (inodes s ip) = length bs"
    "dense (a_addrs (ext2_addrs s j)) V (length bs)" "bs = map (cont (a_addrs (ext2_addrs s j)) V) [0..<length bs]"
    "i_type (inodes s ip) \<noteq> T_DEV" "length bs < 2147483648"
  using assms by (auto simp: efile_def Let_def einode_ok_def dense_def const_defs)

lemma efile_efr:
  fixes s t :: "'z fstate_scheme"
  assumes "efile s V P ip j m bs" "efr s t" "eopen t V P ip j m (a_addrs (ext2_addrs s j))"
  shows "efile t V P ip j m bs"
  using assms(1,3) efr_fields [OF assms(2)] by (simp add: efile_def Let_def)

lemma ext2_readi_ok:
  fixes s :: "'z fstate_scheme"
  assumes nf: "efile s V P ip j m bs" and c: "card P + 1 < NBUF" and n: "off + n < 4294967296"
  shows "wp (ext2_readi ip off n) (\<lambda>r t. efr s t \<and> efile t V P ip j m bs \<and>
     r = (if off \<le> length bs then (int (min n (length bs - off)), take n (drop off bs)) else (-1, []))) s"
proof -
  note d = efileD [OF nf]
  let ?a = "a_addrs (ext2_addrs s j)"
  have u: "u32 (off + n) = off + n" using n by (simp add: u32_def)
  show ?thesis
  proof (cases "off \<le> length bs")
    case False
    then show ?thesis using d nf by (simp add: ext2_readi_def wp_def Let_def ret_def es.fr_refl)
  next
    case True
    define k where "k = min n (length bs - off)"
    have k: "off + k \<le> length bs" "k \<le> n" using True by (auto simp: k_def)
    have ke: "(if off + n > length bs then length bs - off else n) = k" by (auto simp: k_def)
    have "wp (bnd (readi_loop (ext2_bmap ip) ip off k) (\<lambda>bs. ret (s32 k, bs))) (\<lambda>r t. efr s t \<and> efile t V P ip j m bs \<and>
        r = (int k, take n (drop off bs))) s"
    proof (rule wp_bndI [OF ext2_readi_loop_ok [OF d(1,7) k(1) c]])
      fix r t assume r: "r = map (cont ?a V) [off..<off + k] \<and> efr s t \<and> eopen t V P ip j m ?a"
      have "take n (drop off bs) = map (cont ?a V) [off..<off + k]"
        by (subst d(8)) (simp only: take_drop_map_upt [OF True] k_def)
      moreover have "s32 k = int k" using k d(10) by (simp add: s32_def)
      ultimately show "wp (ret (s32 k, r)) (\<lambda>r t. efr s t \<and> efile t V P ip j m bs \<and> r = (int k, take n (drop off bs))) t"
        using r efile_efr [OF nf, of t] by (simp add: wp_ret)
    qed
    moreover have "ext2_readi ip off n s = bnd (readi_loop (ext2_bmap ip) ip off k) (\<lambda>bs. ret (s32 k, bs)) s"
      using d(6,9) True u ke by (auto simp: ext2_readi_def Let_def split: if_splits)
    ultimately show ?thesis using True by (simp add: wp_def k_def)
  qed
qed

text \<open>What a write to file \<open>ip\<close> leaves alone: other inodes, their address arrays, all blocks outside the group
  and the blocks of the group in use that are neither the file's nor the block of its inode; of the latter, all
  but the 128 bytes of the inode.\<close>

definition efile_frame :: "'z fstate_scheme \<Rightarrow> contents \<Rightarrow> nat \<Rightarrow> nat \<Rightarrow> nat \<Rightarrow> 'z fstate_scheme \<Rightarrow> contents \<Rightarrow> bool" where
  "efile_frame s V ip j m t V' \<longleftrightarrow> exs t = exs s \<and> (\<forall>k. k \<noteq> ip \<longrightarrow> inodes t k = inodes s k) \<and>
     (\<forall>k. k \<noteq> j \<longrightarrow> ext2_addrs t k = ext2_addrs s k) \<and> (\<forall>n. n < m \<or> m + 8 * BSIZE \<le> n \<longrightarrow> V' n = V n) \<and>
     (\<forall>n. euse m V n \<longrightarrow> euse m V' n) \<and>
     (let b = eino (exs s) V (i_inum (inodes s ip)); k = eoff (exs s) (i_inum (inodes s ip)) in
       (\<forall>n. euse m V n \<longrightarrow> n \<notin> fblocks (a_addrs (ext2_addrs s j)) V \<longrightarrow> n \<noteq> b \<longrightarrow> V' n = V n) \<and>
       (\<forall>i. i < k \<or> k + 128 \<le> i \<longrightarrow> V' b i = V b i))"

lemma ewrote_frame:
  fixes s t :: "'z fstate_scheme"
  assumes nf: "efile s V P ip j m bs" and w: "ewrote s V P ip j m (a_addrs (ext2_addrs s j)) d F t V' a'"
  shows "efile_frame s V ip j m t V'" "a_addrs (ext2_addrs t j) = a'" "V' 1 = V 1"
    "eino (exs t) V' (i_inum (inodes t ip)) = eino (exs s) V (i_inum (inodes s ip))"
    "euse m V' (eino (exs s) V (i_inum (inodes s ip)))" "eino (exs s) V (i_inum (inodes s ip)) \<notin> fblocks a' V'"
proof -
  note d = efileD [OF nf] and wd = ewroteD [OF w]
  let ?b = "eino (exs s) V (i_inum (inodes s ip))"
  show "V' 1 = V 1" using egrpD(4) [OF eopenD(2) [OF d(1)]] by (intro wd(9)) simp
  then show "eino (exs t) V' (i_inum (inodes t ip)) = ?b" using wd(11,12) by (simp add: eino_def gdesc_def)
  show "euse m V' ?b" by (rule wd(7) [OF d(4)])
  show "?b \<notin> fblocks a' V'" using wd(6) d(4,5) by blast
  show "a_addrs (ext2_addrs t j) = a'" by (rule eopenD(5) [OF wd(2)])
  have "k \<noteq> j \<Longrightarrow> ext2_addrs t k = ext2_addrs s k" for k using efr_fields(3) [OF wd(1)] by simp
  then show "efile_frame s V ip j m t V'" using wd(7,8,9,11,12) d(4,5) by (simp add: efile_frame_def Let_def)
qed

lemma eopen_size [simp]: "eopen (seti ip (i_size_update f) t) V P ip j m a = eopen t V P ip j m a"
proof -
  have "inodes (seti ip (i_size_update f) t) ip = i_size_update f (inodes t ip)" "exs (seti ip (i_size_update f) t) = exs t"
    "ext2_addrs (seti ip (i_size_update f) t) = ext2_addrs t" by (simp_all add: seti_def)
  then show ?thesis by (simp add: eopen_def)
qed

lemma eopen_addr_less:
  assumes "eopen t V P ip j m a" "i \<le> NDIRECT" shows "a i < 4294967296"
proof (cases "a i = 0")
  case False
  note d = eopenD [OF assms(1)]
  have "euse m V (a i)"
  proof (cases "i = NDIRECT")
    case True
    then show ?thesis using efinvD(1) [OF d(6)] False by simp
  next
    case ne: False
    then have i: "i < NDIRECT" using assms(2) by simp
    then have "fblk a V i = a i" by (simp add: fblk_def)
    moreover have "i < MAXFILE" using i by (simp add: const_defs)
    ultimately show ?thesis using efinvD(2) [OF d(6), of i] False by simp
  qed
  then show ?thesis using egrpD(5) [OF d(2)] by (simp add: euse_def const_defs)
qed simp

lemma ewrote_efile:
  fixes s t :: "'z fstate_scheme"
  assumes nf: "efile s V P ip j m bs" and o: "off \<le> length bs" "off + n \<le> MAXFILE * BSIZE"
    and w: "ewrote s V P ip j m (a_addrs (ext2_addrs s j)) d
      (\<lambda>i. if off \<le> i \<and> i < off + n then src (i - off) else cont (a_addrs (ext2_addrs s j)) V i) t V' a'"
    and nz: "\<And>i. off \<le> i \<Longrightarrow> i < off + n \<Longrightarrow> fblk a' V' (i div BSIZE) \<noteq> 0"
    and x: "x = seti ip (i_size_update (\<lambda>_. max (length bs) (off + n))) t"
  shows "efile x V' P ip j m (splice_at bs off (bytes src 0 n))"
proof -
  note d = efileD [OF nf] and fr = ewrote_frame [OF nf w] and wd = ewroteD [OF w]
  let ?a = "a_addrs (ext2_addrs s j)" and ?l = "max (length bs) (off + n)"
  have le: "?l \<le> MAXFILE * BSIZE" using o d(7) by (simp add: dense_def)
  have xs: "ext2_addrs x = ext2_addrs t" "exs x = exs t" "inodes x ip = (inodes s ip)\<lparr>i_size := ?l\<rparr>"
    using x wd(12) by (simp_all add: seti_def)
  have fx: "eopen x V' P ip j m a'" using x wd(2) by simp
  have c: "cont a' V' i = (if off \<le> i \<and> i < off + n then src (i - off) else cont ?a V i)" if "i < ?l" for i
    by (rule wd(4)) (use that le in linarith)
  have "fblk a' V' (i div BSIZE) \<noteq> 0" if i: "i < ?l" for i
  proof (cases "off \<le> i \<and> i < off + n")
    case False
    then have "i < length bs" using i o by auto
    moreover have "i div BSIZE < MAXFILE" using less_le_trans [OF i le] by (rule less_mult_imp_div_less)
    ultimately show ?thesis using wd(5) d(7) by (simp add: dense_def)
  qed (use nz in blast)
  then have dn: "dense a' V' ?l" using le by (simp add: dense_def)
  have "a' i < 4294967296" if "i < EXT2_N_BLOCKS" for i
    using eopen_addr_less [OF fx, of i] d(3) wd(10) [of i] that by (cases "i \<le> NDIRECT") (auto simp: einode_ok_def)
  then have dk: "einode_ok (inodes x ip) a'" using d(3) le xs(3) by (simp add: einode_ok_def const_defs)
  have sp: "splice_at bs off (bytes src 0 n) = map (cont a' V') [0..<?l]"
    by (subst d(8)) (rule splice_map [OF o(1) c])
  have e: "eino (exs x) V' (i_inum (inodes x ip)) = eino (exs s) V (i_inum (inodes s ip))" using fr(4) wd(12) xs by simp
  have "a_addrs (ext2_addrs x j) = a'" using xs(1) fr(2) by simp
  then show ?thesis unfolding efile_def Let_def e using d(2) fx xs(3) dk dn sp fr(5,6) by simp
qed

text \<open>A block of the group that is not the file's, such as the block of its inode, may change without changing the
  file.\<close>

lemma eother_block:
  assumes g: "egrp ex V inum m" and b: "m < b" "b \<notin> fblocks a V"
  shows "euse m (V(b := d)) n = euse m V n" "fblk a (V(b := d)) k = fblk a V k" "fblocks a (V(b := d)) = fblocks a V"
    "off < MAXFILE * BSIZE \<Longrightarrow> cont a (V(b := d)) off = cont a V off" "efinv m (V(b := d)) a = efinv m V a"
    "gdesc ex (V(b := d)) inum = gdesc ex V inum" "egrp ex (V(b := d)) inum m"
proof -
  let ?W = "V(b := d)"
  have v: "?W m = V m" "?W 1 = V 1" using b(1) egrpD(4) [OF g] by auto
  show us: "euse m ?W n = euse m V n" for n by (simp only: euse_def v)
  show f: "fblk a ?W k = fblk a V k" for k using b(2) by (auto simp: fblk_def fblocks_def)
  show "fblocks a ?W = fblocks a V" by (simp add: fblocks_def f)
  show "efinv m ?W a = efinv m V a" unfolding efinv_def f us ..
  show gr: "gdesc ex ?W inum = gdesc ex V inum" by (simp only: gdesc_def v)
  show "egrp ex ?W inum m" using g unfolding egrp_def gr v .
  assume "off < MAXFILE * BSIZE"
  then have "off div BSIZE < MAXFILE" by (rule less_mult_imp_div_less)
  then have "fblk a V (off div BSIZE) \<noteq> b" using b(2) by (auto simp: fblocks_def)
  then show "cont a ?W off = cont a V off" by (simp add: cont_def f Let_def)
qed

lemma eopen_other:
  fixes s u :: "'z fstate_scheme"
  assumes "eopen s V P ip j m a" "m < b" "b \<notin> fblocks a V" "efr s u" "erep u (V(b := d)) Map.empty P"
  shows "eopen u (V(b := d)) P ip j m a"
  using assms(5) eopenD [OF assms(1)] eother_block [OF eopenD(2) [OF assms(1)] assms(2,3)] efr_fields [OF assms(4)]
  by (simp add: eopen_def)

lemma efile_inode:
  fixes x u :: "'z fstate_scheme"
  assumes nx: "efile x V P ip j m bs" and b: "b = eino (exs x) V (i_inum (inodes x ip))"
    and u: "efr x u" "erep u (V(b := d)) Map.empty P"
  shows "efile u (V(b := d)) P ip j m bs"
proof -
  note e = efileD [OF nx] and fo = eopenD [OF efileD(1) [OF nx]] and ef = efr_fields [OF u(1)]
  let ?a = "a_addrs (ext2_addrs x j)" and ?W = "V(b := d)"
  have bm: "m < b" "b \<notin> fblocks ?a V" "euse m V b" using e(4,5) b by (auto simp: euse_def)
  note o = eother_block [OF fo(2) bm(1,2)]
  have op: "eopen u ?W P ip j m ?a" by (rule eopen_other [OF e(1) bm(1,2) u])
  have ei: "eino (exs x) ?W (i_inum (inodes x ip)) = b" unfolding eino_def o(6) using b by (simp add: eino_def)
  have dn: "dense ?a ?W (length bs)" using e(7) by (simp add: dense_def o(2))
  have "map (cont ?a ?W) [0..<length bs] = map (cont ?a V) [0..<length bs]" using e(7) o(4) by (simp add: dense_def)
  then show ?thesis unfolding efile_def Let_def ef ei o(1,3) using e op bm dn by simp
qed

subsection \<open>ext2\_writei\<close>

definition ewritten :: "'z fstate_scheme \<Rightarrow> contents \<Rightarrow> pins \<Rightarrow> nat \<Rightarrow> nat \<Rightarrow> nat \<Rightarrow> byte list \<Rightarrow> nat \<Rightarrow> block \<Rightarrow> nat \<Rightarrow> 'z fstate_scheme \<Rightarrow> bool" where
  "ewritten s V P ip j m bs off src n t \<longleftrightarrow> (\<exists>V'. efile t V' P ip j m (splice_at bs off (bytes src 0 n)) \<and> efile_frame s V ip j m t V' \<and>
     card (efree (exs s) V m) \<le> card (efree (exs s) V' m) + nblk off n \<and>
     (length bs < off + n \<longrightarrow> ext2_saved (V' (eino (exs s) V (i_inum (inodes s ip)))) (eoff (exs s) (i_inum (inodes s ip)))
        (inodes t ip) (a_addrs (ext2_addrs t j))))"

lemma efile_frame_inode:
  fixes s t x u :: "'z fstate_scheme"
  assumes fr: "efile_frame s V ip j m t V'" and x: "x = seti ip (i_size_update f) t" and u: "efr x u"
    and b: "b = eino (exs s) V (i_inum (inodes s ip))" "m < b" "b < m + 8 * BSIZE" and k: "k = eoff (exs s) (i_inum (inodes s ip))"
  shows "efile_frame s V ip j m u (V'(b := ext2_put_inode y ad k (V' b)))" (is "efile_frame _ _ _ _ _ _ ?W")
proof -
  have us: "exs u = exs t" "\<And>i. i \<noteq> ip \<Longrightarrow> inodes u i = inodes t i" "ext2_addrs u = ext2_addrs t"
    using efr_fields [OF u] x by (simp_all add: seti_def)
  have "euse m ?W n = euse m V' n" for n using b(2) by (simp add: euse_def)
  moreover have "n < m \<or> m + 8 * BSIZE \<le> n \<Longrightarrow> ?W n = V' n" for n using b by auto
  moreover have "i < k \<or> k + 128 \<le> i \<Longrightarrow> ?W b i = V' b i" for i using put_inode_other [of i k] by simp
  ultimately show ?thesis using fr us k b(1) unfolding efile_frame_def Let_def by simp
qed

lemma ext2_writei_size:
  fixes s t :: "'z fstate_scheme"
  assumes nf: "efile s V P ip j m bs" and w: "ewrote s V P ip j m (a_addrs (ext2_addrs s j)) (nblk off n) F t V' a'"
    and x: "x = seti ip (\<lambda>x. x\<lparr>i_size := off + n\<rparr>) t" and nx: "efile x V' P ip j m (splice_at bs off (bytes src 0 n))"
    and c: "card P + 1 < NBUF"
  shows "wp (iops_iupdate ip) (\<lambda>_. ewritten s V P ip j m bs off src n) x"
proof -
  note d = efileD [OF nf] and dx = efileD [OF nx] and fr = ewrote_frame [OF nf w] and wd = ewroteD [OF w]
  note fo = eopenD [OF dx(1)]
  let ?b = "eino (exs s) V (i_inum (inodes s ip))" and ?k = "eoff (exs s) (i_inum (inodes s ip))"
  have xi: "i_inum (inodes x ip) = i_inum (inodes s ip)" "exs x = exs s" "inodes t = inodes s" "ext2_addrs x = ext2_addrs t"
    using wd(11,12) x by (simp_all add: seti_def)
  have eb: "eino (exs x) V' (i_inum (inodes x ip)) = ?b" using fr(4) xi wd(11) by simp
  let ?W = "V'(?b := ext2_put_inode (inodes x ip) (a_addrs (ext2_addrs x j)) ?k (V' ?b))"
  have "wp (ext2_iupdate ip) (\<lambda>_ u. efr x u \<and> erep u ?W Map.empty P) x"
    by (rule ext2_iupdate_ok [OF fo(1-4) eb [symmetric] fr(5) c]) (simp add: xi)
  then have "wp (ext2_iupdate ip) (\<lambda>_. ewritten s V P ip j m bs off src n) x"
  proof (rule wp_mono)
    fix r u assume u: "efr x u \<and> erep u ?W Map.empty P"
    then have u1: "efr x u" "erep u ?W Map.empty P" by blast+
    have "efile u ?W P ip j m (splice_at bs off (bytes src 0 n))" by (rule efile_inode [OF nx eb [symmetric] u1])
    moreover have "efile_frame s V ip j m u ?W"
      by (rule efile_frame_inode [OF fr(1) x u1(1) refl _ _ refl]) (use d(4) in \<open>simp_all add: euse_def\<close>)
    moreover have "ext2_saved (?W ?b) ?k (inodes u ip) (a_addrs (ext2_addrs u j))"
      using put_inode_saved [OF dx(3)] efr_fields [OF u1(1)] by simp
    moreover have "efree (exs s) ?W m = efree (exs s) V' m" using d(4) by (simp add: efree_def euse_def)
    ultimately show "ewritten s V P ip j m bs off src n u" using wd(3) unfolding ewritten_def by force
  qed
  then show ?thesis using dx(2) by (simp add: wp_def iops_iupdate_def iops_def)
qed

lemma ext2_writei_ok:
  fixes s :: "'z fstate_scheme"
  assumes nf: "efile s V P ip j m bs" and o: "off \<le> length bs" "off + n \<le> max (length bs) (NDIRECT * BSIZE)"
    and fb: "nblk off n \<le> card (efree (exs s) V m)" and c: "card P + 1 < NBUF"
  shows "wp (ext2_writei ip src off n) (\<lambda>r t. r = int n \<and> ewritten s V P ip j m bs off src n t) s" (is "wp _ ?Q s")
proof -
  note d = efileD [OF nf]
  let ?a = "a_addrs (ext2_addrs s j)" and ?F = "\<lambda>i. if off \<le> i \<and> i < off + n then src (i - off) else cont (a_addrs (ext2_addrs s j)) V i"
  let ?K = "\<lambda>s. if n > 0 \<and> off + n > i_size (inodes s ip) then
       bnd (upd (seti ip (\<lambda>x. x\<lparr>i_size := off + n\<rparr>))) (\<lambda>_. iops_iupdate ip) s else Inr ((), s)"
  have le: "off + n \<le> MAXFILE * BSIZE"
    by (rule order_trans [OF o(2)]) (use d(7) in \<open>simp add: dense_def MAXFILE_def\<close>)
  have lt: "off + n < 2147483648" using le by (simp add: const_defs)
  have re: "ereach ?a V off n"
    unfolding ereach_def
  proof (intro allI impI)
    fix i assume i: "off \<le> i \<and> i < off + n"
    then have "i < length bs \<or> i < NDIRECT * BSIZE" using o(2) by linarith
    then show "i div BSIZE < NDIRECT \<or> fblk ?a V (i div BSIZE) \<noteq> 0"
      using d(7) less_mult_imp_div_less by (auto simp: dense_def)
  qed
  have "wp (bnd (writei_loop (ext2_bmap ip) bwrite ip src 0 off n) (\<lambda>_. bnd ?K (\<lambda>_. ret (s32 n)))) ?Q s"
  proof (rule wp_bndI [OF ext2_writei_loop_ok [OF d(1) le re fb c, where tot = 0, unfolded add_0]])
    fix r :: unit and t
    assume "\<exists>V' a'. ewrote s V P ip j m ?a (nblk off n) ?F t V' a'
        \<and> (\<forall>i. off \<le> i \<and> i < off + n \<longrightarrow> fblk a' V' (i div BSIZE) \<noteq> 0)"
    then obtain V' a' where w: "ewrote s V P ip j m ?a (nblk off n) ?F t V' a'"
      and nz: "\<And>i. off \<le> i \<Longrightarrow> i < off + n \<Longrightarrow> fblk a' V' (i div BSIZE) \<noteq> 0" by blast
    note fr = ewrote_frame [OF nf w] and wd = ewroteD [OF w] and nx = ewrote_efile [OF nf o(1) le w nz refl]
    show "wp (bnd ?K (\<lambda>_. ret (s32 n))) ?Q t"
    proof (cases "length bs < off + n")
      case False
      have "seti ip (i_size_update (\<lambda>_. max (length bs) (off + n))) t = t"
        using False seti_size_id [of t ip "length bs"] wd(12) d(6) by (simp add: max_def)
      then have "ewritten s V P ip j m bs off src n t"
        using False fr(1) nx wd(3) unfolding ewritten_def by auto
      then show ?thesis using False wd(12) d(6) lt by (simp add: wp_def bnd_def ret_def s32_def)
    next
      case True
      have "efile (seti ip (\<lambda>x. x\<lparr>i_size := off + n\<rparr>) t) V' P ip j m (splice_at bs off (bytes src 0 n))" using nx True by (simp add: max_def)
      from ext2_writei_size [OF nf w refl this c] show ?thesis
        using True wd(12) d(6) lt o(1) by (auto simp: wp_def bnd_def ret_def upd_def s32_def split: sum.splits)
    qed
  qed
  moreover have "ext2_writei ip src off n s = bnd (writei_loop (ext2_bmap ip) bwrite ip src 0 off n) (\<lambda>_. bnd ?K (\<lambda>_. ret (s32 n))) s"
    using d(6,9) o le lt by (simp add: ext2_writei_def Let_def u32_def const_defs)
  ultimately show ?thesis by (simp add: wp_def)
qed

text \<open>Another file of the group with blocks of its own is as it was.\<close>

definition eapart :: "'z fstate_scheme \<Rightarrow> contents \<Rightarrow> nat \<Rightarrow> nat \<Rightarrow> nat \<Rightarrow> bool" where
  "eapart s V ip j k \<longleftrightarrow> j \<noteq> k \<and> fblocks (a_addrs (ext2_addrs s j)) V \<inter> fblocks (a_addrs (ext2_addrs s k)) V \<subseteq> {0} \<and>
     eino (exs s) V (i_inum (inodes s ip)) \<notin> fblocks (a_addrs (ext2_addrs s k)) V"

lemma efblocks_use: "efinv m V a \<Longrightarrow> n \<in> fblocks a V \<Longrightarrow> n \<noteq> 0 \<Longrightarrow> euse m V n"
  by (auto simp: fblocks_def efinv_def)

lemma efile_other:
  fixes s t :: "'z fstate_scheme"
  assumes fr: "efile_frame s V ip j m t V'" and t: "efile t V' P ip j m cs"
    and o: "efile s V P iq k m bs" "iq \<noteq> ip" "eapart s V ip j k"
  shows "efile t V' P iq k m bs"
proof -
  note d = efileD [OF o(1)] and fo = eopenD [OF efileD(1) [OF o(1)]] and ft = eopenD [OF efileD(1) [OF t]]
  let ?a = "a_addrs (ext2_addrs s k)"
  have e: "exs t = exs s" "inodes t iq = inodes s iq" "ext2_addrs t k = ext2_addrs s k"
    using fr o(2,3) by (auto simp: efile_frame_def eapart_def)
  have u: "euse m V n \<Longrightarrow> euse m V' n" and low: "n < m \<Longrightarrow> V' n = V n" for n using fr by (auto simp: efile_frame_def)
  have v: "V' n = V n" if "n \<in> fblocks ?a V" "n \<noteq> 0" for n
    using fr that o(3) efblocks_use [OF fo(6) that] by (auto simp: efile_frame_def eapart_def Let_def)
  have f: "fblk ?a V' n = fblk ?a V n" for n using v [of "?a NDIRECT"] by (simp add: fblk_def fblocks_def)
  have fb: "fblocks ?a V' = fblocks ?a V" by (simp add: fblocks_def f)
  have co: "cont ?a V' off = cont ?a V off" if "off < MAXFILE * BSIZE" for off
  proof -
    have "off div BSIZE < MAXFILE" using that by (rule less_mult_imp_div_less)
    then have "fblk ?a V (off div BSIZE) \<in> fblocks ?a V" by (simp add: fblocks_def)
    then show ?thesis using v by (simp add: cont_def Let_def f)
  qed
  have v1: "V' 1 = V 1" by (rule low [OF egrpD(4) [OF fo(2)]])
  have g: "egrp (exs s) V' (i_inum (inodes s iq)) m"
    using fo(2) egrpD(6) [OF ft(2)] v1 by (simp add: egrp_def gdesc_def)
  have "efinv m V' ?a" using fo(6) u unfolding efinv_def f by blast
  then have op: "eopen t V' P iq k m ?a" using ft(1) fo e g by (simp add: eopen_def)
  have ei: "eino (exs s) V' (i_inum (inodes s iq)) = eino (exs s) V (i_inum (inodes s iq))" by (simp only: eino_def gdesc_def v1)
  have dn: "dense ?a V' (length bs)" using d(7) by (simp add: dense_def f)
  have "map (cont ?a V') [0..<length bs] = map (cont ?a V) [0..<length bs]" using d(7) co by (simp add: dense_def)
  then show ?thesis unfolding efile_def Let_def e ei fb using d op dn u by simp
qed

end
