(* ===== verification/Ext2Trunc.thy ===== *)
theory Ext2Trunc
  imports Ext2Inode
begin

section \<open>Removing an ext2 file\<close>

text \<open>
  \<open>ext2_itrunc\<close> on a file that has only direct blocks, in the first group, frees exactly the blocks of the file;
  \<open>ext2_iput\<close> of the last reference to a file without links frees its inode and its blocks and gives back the
  slots of the inode cache and of the address table.
\<close>

subsection \<open>Freeing the direct blocks\<close>

text \<open>The blocks of \<open>ext2_bfree\<close>'s first group: the inode's group is the first, and the addresses are below its
  end.\<close>

definition first_group :: "ext2_superblock \<Rightarrow> nat \<Rightarrow> (nat \<Rightarrow> nat) \<Rightarrow> bool" where
  "first_group ex inum a \<longleftrightarrow> GN inum ex = 0 \<and> (\<forall>i < NDIRECT. a i \<noteq> 0 \<longrightarrow> a i < s_blocks_per_group ex)"

lemma sub32_minus:
  assumes "m \<le> b" "b < 2 ^ 26" shows "sub32 b m = b - m"
proof -
  have "b + (4294967296 - m) = (b - m) + 4294967296" "b - m < 4294967296" using assms by auto
  then show ?thesis by (simp add: sub32_def u32_def)
qed

lemma ext2_bfree_first:
  fixes s :: "'z fstate_scheme"
  assumes r: "erep s V Map.empty P" and g: "egrp (exs s) V inum m" "GN inum (exs s) = 0"
    and b: "euse m V b" "b < s_blocks_per_group (exs s)" and c: "card P + 1 < NBUF"
  shows "wp (ext2_bfree EXT2DEV b) (\<lambda>_ t. efr s t \<and> erep t (V(m := bclr (b - m) (V m))) Map.empty P) s"
proof -
  note gd = egrpD [OF g(1)]
  have mb: "m < b" "b < m + 8 * BSIZE" "tst (V m) (b - m)" using b(1) by (auto simp: euse_def)
  have d0: "b div s_blocks_per_group (exs s) = 0" "b mod s_blocks_per_group (exs s) = b" using b(2) by simp_all
  have bg: "bgroup (exs s) V b = m" using gd(2,3) g(2) by (simp only: bgroup_def d0 gdesc_def)
  have b26: "b < 2 ^ 26" using gd(9) [OF b(1)] by (simp add: blk_ok_def const_defs)
  show ?thesis
  proof (rule ext2_bfree_ok [OF r _ bg gd(4) gd(7), where i = "b - m"])
    show "b - m = sub32 (b mod s_blocks_per_group (exs s)) m" using sub32_minus [OF _ b26, of m] mb(1) d0 by simp
    show "b - m < 8 * BSIZE" using mb by linarith
  qed (use d0 mb(3) c in \<open>simp_all add: const_defs\<close>)
qed

text \<open>What freeing the addresses from \<open>lo\<close> to \<open>hi\<close> leaves.\<close>

definition etrunc :: "'z fstate_scheme \<Rightarrow> contents \<Rightarrow> pins \<Rightarrow> nat \<Rightarrow> nat \<Rightarrow> nat \<Rightarrow> (nat \<Rightarrow> nat) \<Rightarrow> nat \<Rightarrow> nat
    \<Rightarrow> 'z fstate_scheme \<Rightarrow> contents \<Rightarrow> (nat \<Rightarrow> nat) \<Rightarrow> bool" where
  "etrunc s V P ip j m a lo hi t V' a' \<longleftrightarrow> after_eaddrs j a' s t \<and> eopen t V' P ip j m a' \<and>
     a' = (\<lambda>k. if lo \<le> k \<and> k < hi then 0 else a k) \<and> (\<forall>n. n \<noteq> m \<longrightarrow> V' n = V n) \<and>
     (\<forall>z. tst (V' m) z = (tst (V m) z \<and> \<not> (\<exists>k. lo \<le> k \<and> k < hi \<and> a k \<noteq> 0 \<and> z = a k - m)))"

lemma etruncD:
  assumes "etrunc s V P ip j m a lo hi t V' a'"
  shows "after_eaddrs j a' s t" "eopen t V' P ip j m a'" "n \<noteq> m \<Longrightarrow> V' n = V n"
    "tst (V' m) z = (tst (V m) z \<and> \<not> (\<exists>k. lo \<le> k \<and> k < hi \<and> a k \<noteq> 0 \<and> z = a k - m))"
  using assms unfolding etrunc_def by blast+

lemma etrunc_refl: "eopen s V P ip j m a \<Longrightarrow> etrunc s V P ip j m a lo lo s V a"
  using set_eaddrs_id [of s j a] eopenD(5) [of s V P ip j m a] by (auto simp: etrunc_def es.fr_refl)

lemma etrunc_trans:
  fixes s t u :: "'z fstate_scheme"
  assumes 1: "etrunc s V P ip j m a lo mid t V' a'" and 2: "etrunc t V' P ip j m a' mid hi u V'' a''" and le: "lo \<le> mid" "mid \<le> hi"
  shows "etrunc s V P ip j m a lo hi u V'' a''"
proof -
  have a1: "a' = (\<lambda>k. if lo \<le> k \<and> k < mid then 0 else a k)" and a2: "a'' = (\<lambda>k. if mid \<le> k \<and> k < hi then 0 else a' k)"
    using 1 2 by (auto simp: etrunc_def)
  have "a'' = (\<lambda>k. if lo \<le> k \<and> k < hi then 0 else a k)" unfolding a2 a1 using le by auto
  moreover have "after_eaddrs j a'' s u" using 1 2 by (auto simp: etrunc_def intro: after_eaddrs_trans)
  moreover have "tst (V'' m) z = (tst (V m) z \<and> \<not> (\<exists>k. lo \<le> k \<and> k < hi \<and> a k \<noteq> 0 \<and> z = a k - m))" for z
  proof -
    have t1: "tst (V' m) z = (tst (V m) z \<and> \<not> (\<exists>k. lo \<le> k \<and> k < mid \<and> a k \<noteq> 0 \<and> z = a k - m))"
      and t2: "tst (V'' m) z = (tst (V' m) z \<and> \<not> (\<exists>k. mid \<le> k \<and> k < hi \<and> a' k \<noteq> 0 \<and> z = a' k - m))"
      using 1 2 by (auto simp: etrunc_def)
    have e: "a' k = a k" if "mid \<le> k" for k using that by (simp add: a1)
    have "(\<exists>k. lo \<le> k \<and> k < hi \<and> a k \<noteq> 0 \<and> z = a k - m) \<longleftrightarrow>
      (\<exists>k. lo \<le> k \<and> k < mid \<and> a k \<noteq> 0 \<and> z = a k - m) \<or> (\<exists>k. mid \<le> k \<and> k < hi \<and> a' k \<noteq> 0 \<and> z = a' k - m)" (is "?L \<longleftrightarrow> ?A \<or> ?B")
    proof
      assume ?L
      then obtain k where k: "lo \<le> k" "k < hi" "a k \<noteq> 0" "z = a k - m" by blast
      show "?A \<or> ?B"
      proof (cases "k < mid")
        case False
        then have "mid \<le> k" by simp
        then show ?thesis using k e by (intro disjI2 exI [of _ k]) simp
      qed (use k in blast)
    next
      assume "?A \<or> ?B"
      then show ?L
      proof
        assume ?B
        then obtain k where k: "mid \<le> k" "k < hi" "a' k \<noteq> 0" "z = a' k - m" by blast
        show ?L using k e [OF k(1)] le by (intro exI [of _ k]) simp
      next
        assume ?A
        then obtain k where k: "lo \<le> k" "k < mid" "a k \<noteq> 0" "z = a k - m" by blast
        show ?L using k le by (intro exI [of _ k]) simp
      qed
    qed
    then show ?thesis using t1 t2 by blast
  qed
  moreover have "eopen u V'' P ip j m a''" "\<And>n. n \<noteq> m \<Longrightarrow> V'' n = V n" using 1 2 by (auto simp: etrunc_def)
  ultimately show ?thesis unfolding etrunc_def by blast
qed

text \<open>One block.\<close>

lemma efinv_free:
  assumes fi: "efinv m V a" and i: "i < NDIRECT" "a i \<noteq> 0" and W: "W = V(m := bclr (a i - m) (V m))"
  shows "efinv m W (a(i := 0))"
proof -
  have im: "i < MAXFILE" and fbi: "fblk a V i = a i" using i by (simp_all add: const_defs fblk_def)
  have ub: "euse m V (a i)" "a i \<noteq> a NDIRECT" using efinvD(2,3) [OF fi im] i(2) fbi by auto
  have wn: "n \<noteq> m \<Longrightarrow> W n = V n" for n using W by simp
  have us: "euse m W n = (euse m V n \<and> n \<noteq> a i)" for n
    using ub(1) by (auto simp: euse_def W tst_bclr)
  have ni: "a NDIRECT \<noteq> 0 \<Longrightarrow> W (a NDIRECT) = V (a NDIRECT)" using efinvD(1) [OF fi] wn by (auto simp: euse_def)
  have f: "fblk (a(i := 0)) W k = (if k = i then 0 else fblk a V k)" for k
    using i(1) ni by (auto simp: fblk_def)
  have ne: "k < MAXFILE \<Longrightarrow> k \<noteq> i \<Longrightarrow> fblk a V k \<noteq> a i" for k
    using efinvD(4) [OF fi im, of k] fbi i(2) by metis
  show ?thesis
    unfolding efinv_def f us
    using efinvD(1,2,3,4) [OF fi] ub(2) ne i(1) by auto
qed

lemma ext2_trunc_one:
  fixes s :: "'z fstate_scheme"
  assumes f: "eopen s V P ip j m a" and g: "first_group (exs s) (i_inum (inodes s ip)) a" and i: "i < NDIRECT" and c: "card P + 1 < NBUF"
    and Q: "\<And>t V' a'. etrunc s V P ip j m a i (i + 1) t V' a' \<Longrightarrow> wp (K ()) Q t"
  shows "wp (bnd (get_addr ip i) (\<lambda>b. bnd (if b \<noteq> 0 then bnd (ext2_bfree_of ip b) (\<lambda>_. set_addr ip i 0) else ret ()) K)) Q s"
proof (cases "a i = 0")
  case True
  note fo = eopenD [OF f]
  have "etrunc s V P ip j m a i (i + 1) s V a"
    using etrunc_refl [OF f, of i] True by (auto simp: etrunc_def less_Suc_eq fun_eq_iff)
  then show ?thesis using fo True Q by (simp add: wp_get_eaddr)
next
  case False
  note fo = eopenD [OF f]
  let ?W = "V(m := bclr (a i - m) (V m))"
  have b: "euse m V (a i)" using efinvD(2) [OF fo(6), of i] i False by (simp add: fblk_def const_defs)
  have lt: "a i < s_blocks_per_group (exs s)" using g i False by (simp add: first_group_def)
  have "wp (bnd (ext2_bfree EXT2DEV (a i)) (\<lambda>_. bnd (set_addr ip i 0) K)) Q s"
  proof (rule wp_bndI [OF ext2_bfree_first [OF fo(1,2) _ b lt c]])
    show "GN (i_inum (inodes s ip)) (exs s) = 0" using g by (simp add: first_group_def)
    fix r t assume "efr s t \<and> erep t ?W Map.empty P"
    then have t: "efr s t" "erep t ?W Map.empty P" by auto
    note tf = efr_fields [OF t(1)]
    let ?t = "set_eaddrs j (a(i := 0)) t"
    have mb: "m < a i" using b by (simp add: euse_def)
    have "egrp (exs s) ?W (i_inum (inodes s ip)) m"
      using fo(2) mb by (simp add: egrp_def gdesc_def tst_bclr)
    then have "eopen ?t ?W P ip j m (a(i := 0))"
      using t(2) tf fo efinv_free [OF fo(6) i False refl] by (simp add: eopen_def)
    moreover have "after_eaddrs j (a(i := 0)) s ?t" by (rule efr_set_eaddrs [OF t(1)])
    moreover have "a(i := 0) = (\<lambda>k. if i \<le> k \<and> k < i + 1 then 0 else a k)" by auto
    moreover have "tst (?W m) z = (tst (V m) z \<and> \<not> (\<exists>k. i \<le> k \<and> k < i + 1 \<and> a k \<noteq> 0 \<and> z = a k - m))" for z
      using False by (auto simp: tst_bclr less_Suc_eq)
    ultimately have "etrunc s V P ip j m a i (i + 1) ?t ?W (a(i := 0))" by (simp add: etrunc_def)
    then show "wp (bnd (set_addr ip i 0) K) Q t" using Q tf fo by (simp add: wp_set_eaddr)
  qed
  then have "wp (bnd (ext2_bfree_of ip (a i)) (\<lambda>_. bnd (set_addr ip i 0) K)) Q s"
    using fo(3) by (subst wp_run_bnd [of _ s "ext2_bfree EXT2DEV (a i)"]) (simp_all add: ext2_bfree_of_def)
  then show ?thesis using fo False by (simp add: wp_get_eaddr bnd_assoc)
qed

lemma ext2_trunc_direct_ok:
  fixes s :: "'z fstate_scheme"
  assumes "eopen s V P ip j m a" "first_group (exs s) (i_inum (inodes s ip)) a" "i + n \<le> NDIRECT" "card P + 1 < NBUF"
  shows "wp (ext2_trunc_direct ip i n) (\<lambda>_ t. \<exists>V' a'. etrunc s V P ip j m a i (i + n) t V' a') s"
  using assms
proof (induction n arbitrary: i s V a)
  case 0
  then show ?case using etrunc_refl [of s V P ip j m a i] by (auto simp: wp_ret)
next
  case (Suc n)
  note IH = Suc.IH and prems = Suc.prems
  show ?case
    unfolding ext2_trunc_direct.simps
  proof (rule ext2_trunc_one [OF prems(1,2) _ prems(4)])
    show "i < NDIRECT" using prems(3) by simp
    fix t V1 a1 assume t: "etrunc s V P ip j m a i (i + 1) t V1 a1"
    have f1: "eopen t V1 P ip j m a1" and e1: "exs t = exs s" "inodes t = inodes s"
      using t efr_fields [of "set_eaddrs j a1 s" t] by (auto simp: etrunc_def)
    have "first_group (exs t) (i_inum (inodes t ip)) a1" using prems(2) t e1 by (simp add: first_group_def etrunc_def)
    from IH [OF f1 this _ prems(4), of "i + 1"] prems(3)
    have "wp (ext2_trunc_direct ip (i + 1) n) (\<lambda>_ u. \<exists>V' a'. etrunc t V1 P ip j m a1 (i + 1) (i + 1 + n) u V' a') t" by simp
    then show "wp (ext2_trunc_direct ip (i + 1) n) (\<lambda>_ t. \<exists>V' a'. etrunc s V P ip j m a i (i + Suc n) t V' a') t"
      by (rule wp_mono) (use etrunc_trans [OF t] in fastforce)
  qed
qed

text \<open>A block that is not the file's stays in use.\<close>

lemma etrunc_keeps:
  assumes f: "eopen s V P ip j m a" and t: "etrunc s V P ip j m a 0 NDIRECT t V' a'" and b: "euse m V b" "b \<notin> fblocks a V"
  shows "euse m V' b"
proof -
  have "\<not> (\<exists>k. 0 \<le> k \<and> k < NDIRECT \<and> a k \<noteq> 0 \<and> b - m = a k - m)"
  proof
    assume "\<exists>k. 0 \<le> k \<and> k < NDIRECT \<and> a k \<noteq> 0 \<and> b - m = a k - m"
    then obtain k where k: "k < NDIRECT" "a k \<noteq> 0" "b - m = a k - m" by blast
    have fk: "fblk a V k = a k" "k < MAXFILE" using k(1) by (simp_all add: fblk_def const_defs)
    then have "m < a k" using efinvD(2) [OF eopenD(6) [OF f], of k] k(2) by (simp add: euse_def)
    then have "b = fblk a V k" using k(3) b(1) fk(1) by (simp add: euse_def)
    then show False using b(2) fk(2) by (auto simp: fblocks_def)
  qed
  then show ?thesis using b(1) etruncD(4) [OF t] by (simp add: euse_def)
qed

lemma ext2_itrunc_ok:
  fixes s :: "'z fstate_scheme"
  assumes f: "eopen s V P ip j m a" and g: "first_group (exs s) (i_inum (inodes s ip)) a" and c: "card P + 1 < NBUF"
    and d: "a EXT2_IND_BLOCK = 0" "a EXT2_DIND_BLOCK = 0" "a EXT2_TIND_BLOCK = 0"
  shows "wp (ext2_itrunc ip) (\<lambda>_ t. \<exists>V' a'. etrunc s V P ip j m a 0 NDIRECT t V' a') s"
proof -
  have n: "EXT2_NDIR_BLOCKS = NDIRECT" by (simp add: const_defs)
  show ?thesis
    unfolding ext2_itrunc_def n
  proof (rule wp_bndI [OF ext2_trunc_direct_ok [OF f g _ c]])
    fix r t assume "\<exists>V' a'. etrunc s V P ip j m a 0 (0 + NDIRECT) t V' a'"
    then obtain V' a' where t: "etrunc s V P ip j m a 0 NDIRECT t V' a'" by auto
    have fo: "i_addrs (inodes t ip) = AExt j" "a_addrs (ext2_addrs t j) = a'"
      using t eopenD(4,5) [of t V' P ip j m a'] by (auto simp: etrunc_def)
    have z: "a' EXT2_IND_BLOCK = 0" "a' EXT2_DIND_BLOCK = 0" "a' EXT2_TIND_BLOCK = 0"
      using t d by (simp_all add: etrunc_def)
    show "wp (bnd (get_addr ip EXT2_IND_BLOCK) (\<lambda>a. bnd (if a \<noteq> 0 then ext2_trunc_tree ip EXT2_IND_BLOCK EXT2_IND_BLOCK
            (\<lambda>bp. ext2_trunc_words ip bp 0 NINDIRECT1) else ret ()) (\<lambda>_. bnd (get_addr ip EXT2_DIND_BLOCK) (\<lambda>a.
      bnd (if a \<noteq> 0 then ext2_trunc_tree ip EXT2_DIND_BLOCK EXT2_DIND_BLOCK (\<lambda>bp. ext2_trunc_double ip bp 0 NINDIRECT1) else ret ()) (\<lambda>_.
      bnd (get_addr ip EXT2_TIND_BLOCK) (\<lambda>a. if a \<noteq> 0 then
       bnd (ext2_trunc_tree ip EXT2_DIND_BLOCK EXT2_TIND_BLOCK (\<lambda>bp. ext2_trunc_triple ip bp 0 NINDIRECT1)) (\<lambda>_.
       bnd (upd (seti ip (\<lambda>x. x\<lparr>i_size := 0\<rparr>))) (\<lambda>_. iops_iupdate ip)) else ret ()))))))
      (\<lambda>_ t. \<exists>V' a'. etrunc s V P ip j m a 0 NDIRECT t V' a') t"
      using t fo z by (auto simp: wp_get_eaddr wp_ret)
  qed simp
qed

subsection \<open>Freeing the inode\<close>

lemma ext2_ifree_ok:
  fixes s :: "'z fstate_scheme"
  assumes r: "erep s V Map.empty P" and g: "egrp (exs s) V (i_inum (inodes s ip)) m" and x: "i_dev (inodes s ip) = EXT2DEV"
    and q: "q = bg_inode_bitmap (gdesc (exs s) V (i_inum (inodes s ip)))" "blk_ok EXT2DEV q"
    and i: "i = IO (i_inum (inodes s ip)) (exs s)" "i < 8 * BSIZE" "tst (V q) i" and c: "card P + 1 < NBUF"
  shows "wp (ext2_ifree ip) (\<lambda>_ t. efr s t \<and> erep t (V(q := bclr i (V q))) Map.empty P) s"
proof -
  note gd = egrpD [OF g]
  let ?g = "GN (i_inum (inodes s ip)) (exs s)" and ?W = "V(q := bclr i (V q))"
  let ?F = "\<lambda>bp. bnd (bmod bp (bclr i)) (\<lambda>_. bnd (bwrite bp) (\<lambda>_. bnd (brelse bp) ret))"
  let ?T = "\<lambda>bp. bnd (gets (\<lambda>s. tst (b_data (bufs s bp)) i)) (\<lambda>used. if \<not> used then panic ''freeing free inode'' else ?F bp)"
  have id: "\<not> BSIZE \<le> i div 8" using i(2) by (simp add: not_le less_mult_imp_div_less mult.commute)
  have "wp (bnd (bread EXT2DEV 1) (\<lambda>gd_bp. bnd (gets (\<lambda>s. dec_group_desc (b_data (bufs s gd_bp)) (32 * ?g))) (\<lambda>gd.
      bnd (brelse gd_bp) (\<lambda>_. bnd (bread EXT2DEV (bg_inode_bitmap gd)) ?T)))) (\<lambda>_ t. efr s t \<and> erep t ?W Map.empty P) s"
  proof (rule es.read_block [OF r gd(8)])
    fix t assume t: "efr s t" "erep t V Map.empty P"
    show "wp (bnd (bread EXT2DEV (bg_inode_bitmap (dec_group_desc (V 1) (32 * ?g)))) ?T) (\<lambda>_ t. efr s t \<and> erep t ?W Map.empty P) t"
      unfolding gd(2) q(1) [symmetric]
    proof (rule es.get_bnd [OF t(2) q(2)])
      fix y u assume u: "efr t u" "erep u V [q \<mapsto> (y, False)] P"
      have d: "b_data (bufs u y) = V q" by (rule es.dat_law [OF u(2), of q y False]) simp
      have "wp (?F y) (\<lambda>_ t. efr s t \<and> erep t ?W Map.empty P) u"
      proof (rule es.mdf_bnd [OF u(2), of q y False], simp, rule es.put_bnd [where n = q and m = True], assumption, simp, simp)
        show "card P < NBUF" using c by simp
        fix v w assume vw: "efr u v" "efr v w" and w: "erep w ?W ([q \<mapsto> (y, False), q \<mapsto> (y, True), q \<mapsto> (y, False)]) P"
        show "wp (bnd (brelse y) ret) (\<lambda>_ t. efr s t \<and> erep t ?W Map.empty P) w"
        proof (rule es.rel_bnd [OF w, of q], simp)
          fix z assume z: "efr w z" "erep z ?W ([q \<mapsto> (y, False), q \<mapsto> (y, True), q \<mapsto> (y, False)](q := None)) P"
          have "efr s z" using t(1) u(1) vw z(1) by (blast intro: es.fr_trans)
          then show "wp (ret ()) (\<lambda>_ t. efr s t \<and> erep t ?W Map.empty P) z"
            using z(2) held_again [of Map.empty q "(y, False)"] by (simp add: wp_ret)
        qed
      qed
      then show "wp (?T y) (\<lambda>_ t. efr s t \<and> erep t ?W Map.empty P) u" by (simp add: wp_gets_bnd d i(3))
    qed (use c in simp_all)
  qed (use c in simp_all)
  moreover have "bnd k ret = k" for k :: "('z fstate_scheme, unit) kern" by (auto simp: bnd_def ret_def fun_eq_iff split: sum.splits)
  ultimately show ?thesis
    using x id by (simp add: wp_def ext2_ifree_def Let_def copy_gd_gets [OF gd(1)] i(1) [symmetric] cong: if_cong)
qed

subsection \<open>The last reference\<close>

lemma eopen_seti:
  assumes "i_dev (f (inodes t ip)) = i_dev (inodes t ip)" "i_inum (f (inodes t ip)) = i_inum (inodes t ip)"
    "i_addrs (f (inodes t ip)) = i_addrs (inodes t ip)"
  shows "eopen (seti ip f t) V P ip j m a = eopen t V P ip j m a"
proof -
  have "exs (seti ip f t) = exs t" by (simp add: seti_def)
  then show ?thesis using assms by (simp add: eopen_def seti_at)
qed

lemma efr_seti:
  fixes s t :: "'z fstate_scheme"
  assumes "efr s t" shows "efr (seti ip f s) (seti ip f t)"
proof -
  have v: "view (seti ip f x) = view x" "dblk (seti ip f x) = dblk x" for x :: "'z fstate_scheme"
    using bsameD(5,8) [OF set_eaddrs_bsame(2)] by blast+
  have m: "cur_pid (seti ip f x) = cur_pid x" for x :: "'z fstate_scheme" by (simp add: seti_def)
  have "bstate.more (seti ip f t) = bstate.more (seti ip f s)"
    using assms by (cases s; cases t) (simp add: efr_def bframe_def seti_def)
  then show ?thesis using assms by (simp add: efr_def bframe_def v m)
qed

text \<open>The changes on disk: the bits of the file's blocks and of its inode are clear, and its inode is stored.\<close>

definition removed :: "contents \<Rightarrow> nat \<Rightarrow> nat \<Rightarrow> nat \<Rightarrow> (nat \<Rightarrow> nat) \<Rightarrow> nat \<Rightarrow> contents \<Rightarrow> bool" where
  "removed V m q b a i V' \<longleftrightarrow> (\<forall>z. tst (V' m) z = (tst (V m) z \<and> \<not> (\<exists>k < NDIRECT. a k \<noteq> 0 \<and> z = a k - m))) \<and>
     (\<forall>z. tst (V' q) z = (tst (V q) z \<and> z \<noteq> i)) \<and> (\<forall>n. n \<notin> {m, q, b} \<longrightarrow> V' n = V n)"

lemma ext2_clear_inode:
  fixes s :: "'z fstate_scheme"
  assumes f: "eopen s V P ip j m a" and ft: "i_file_type (inodes s ip) = Some Ext2fs"
    and gr: "first_group (exs s) (i_inum (inodes s ip)) a" and d: "a EXT2_IND_BLOCK = 0" "a EXT2_DIND_BLOCK = 0" "a EXT2_TIND_BLOCK = 0"
    and b: "b = eino (exs s) V (i_inum (inodes s ip))" "euse m V b" "b \<notin> fblocks a V"
    and q: "q = bg_inode_bitmap (gdesc (exs s) V (i_inum (inodes s ip)))" "euse m V q" "q \<notin> fblocks a V" "q \<noteq> b"
    and i: "i = IO (i_inum (inodes s ip)) (exs s)" "i < 8 * BSIZE" "tst (V q) i" and c: "card P + 1 < NBUF"
    and Q: "\<And>t V' a'. erep t V' Map.empty P \<Longrightarrow> removed V m q b a i V' \<Longrightarrow>
        after_eaddrs j a' (seti ip (\<lambda>x. x\<lparr>i_type := 0, i_size := 0\<rparr>) s) t \<Longrightarrow> wp (K ()) Q t"
  shows "wp (bnd (ext2_ifree ip) (\<lambda>_. bnd (ext2_itrunc ip) (\<lambda>_.
      bnd (upd (seti ip (\<lambda>x. x\<lparr>i_type := 0, i_size := 0\<rparr>))) (\<lambda>_. bnd (iops_iupdate ip) K)))) Q s"
proof -
  note fo = eopenD [OF f]
  let ?V1 = "V(q := bclr i (V q))" and ?c = "\<lambda>x. x\<lparr>i_type := 0, i_size := 0\<rparr>"
  have mq: "m < q" "m < b" using q(2) b(2) by (auto simp: euse_def)
  show ?thesis
  proof (rule wp_bndI [OF ext2_ifree_ok [OF fo(1-3) q(1) egrpD(9) [OF fo(2) q(2)] i c]])
    fix r t assume "efr s t \<and> erep t ?V1 Map.empty P"
    then have t: "efr s t" "erep t ?V1 Map.empty P" by auto
    note tf = efr_fields [OF t(1)] and o = eother_block [OF fo(2) mq(1) q(3)]
    have f1: "eopen t ?V1 P ip j m a" by (rule eopen_other [OF f mq(1) q(3) t])
    have g1: "first_group (exs t) (i_inum (inodes t ip)) a" using gr tf by simp
    show "wp (bnd (ext2_itrunc ip) (\<lambda>_. bnd (upd (seti ip ?c)) (\<lambda>_. bnd (iops_iupdate ip) K))) Q t"
    proof (rule wp_bndI [OF ext2_itrunc_ok [OF f1 g1 c d]])
      fix r u assume "\<exists>V' a'. etrunc t ?V1 P ip j m a 0 NDIRECT u V' a'"
      then obtain V2 a2 where u: "etrunc t ?V1 P ip j m a 0 NDIRECT u V2 a2" by blast
      note v2 = etruncD(3) [OF u] and t2 = etruncD(4) [OF u] and au = etruncD(1) [OF u] and f2 = etruncD(2) [OF u]
      have uf: "exs u = exs s" "inodes u = inodes s" using efr_fields [OF au] tf by simp_all
      have b2: "euse m V2 b" by (rule etrunc_keeps [OF f1 u]) (use b(2,3) o in simp_all)
      have m1: "1 < m" by (rule egrpD(4) [OF fo(2)])
      have e2: "eino (exs u) V2 (i_inum (inodes u ip)) = b"
        using b(1) v2 [of 1] m1 mq uf by (simp add: eino_def gdesc_def)
      let ?u = "seti ip ?c u"
      have us: "exs ?u = exs u" "inodes ?u ip = ?c (inodes s ip)" using uf by (simp_all add: seti_def)
      have f3: "eopen ?u V2 P ip j m a2" using f2 by (simp add: eopen_seti)
      note fu = eopenD [OF f3]
      let ?D = "ext2_put_inode (inodes ?u ip) (a_addrs (ext2_addrs ?u j)) (eoff (exs ?u) (i_inum (inodes ?u ip))) (V2 b)"
      have "wp (ext2_iupdate ip) (\<lambda>_ w. efr ?u w \<and> erep w (V2(b := ?D)) Map.empty P) ?u"
        by (rule ext2_iupdate_ok [OF fu(1-4) _ b2 c refl]) (use e2 us uf in simp)
      moreover have "wp (iops_iupdate ip) X ?u = wp (ext2_iupdate ip) X ?u" for X
        using ft us by (simp add: wp_def iops_iupdate_def iops_def)
      ultimately have "wp (iops_iupdate ip) (\<lambda>_ w. efr ?u w \<and> erep w (V2(b := ?D)) Map.empty P) ?u" by simp
      then have "wp (bnd (iops_iupdate ip) K) Q ?u"
      proof (rule wp_bndI)
        fix r w assume w: "efr ?u w \<and> erep w (V2(b := ?D)) Map.empty P"
        have "removed V m q b a i (V2(b := ?D))"
          using v2 t2 mq q(4) by (auto simp: removed_def tst_bclr)
        moreover have "after_eaddrs j a2 (seti ip ?c s) w"
        proof -
          have "after_eaddrs j a2 s u" using efr_set_eaddrs [OF t(1), of j a2] au by (rule es.fr_trans)
          then have "efr (seti ip ?c (set_eaddrs j a2 s)) ?u" by (rule efr_seti)
          moreover have "seti ip ?c (set_eaddrs j a2 s) = set_eaddrs j a2 (seti ip ?c s)" by (simp add: seti_def set_eaddrs_def)
          ultimately show ?thesis using w by (auto intro: es.fr_trans)
        qed
        ultimately have "wp (K ()) Q w" using w Q [of w "V2(b := ?D)" a2] by blast
        then show "wp (K r) Q w" by simp
      qed
      then show "wp (bnd (upd (seti ip ?c)) (\<lambda>_. bnd (iops_iupdate ip) K)) Q u" by (simp add: wp_upd_bnd)
    qed
  qed
qed

text \<open>\<open>ext2_iput\<close> when nobody else refers to the inode and it has no links.\<close>

lemma ext2_iput_ok:
  fixes s :: "'z fstate_scheme"
  assumes f: "eopen s V P ip j m a" and ft: "i_file_type (inodes s ip) = Some Ext2fs"
    and last: "i_valid (inodes s ip)" "i_nlink (inodes s ip) = 0" "i_ref (inodes s ip) = 1" "\<not> sl_locked (i_lock (inodes s ip))"
    and gr: "first_group (exs s) (i_inum (inodes s ip)) a" and d: "a EXT2_IND_BLOCK = 0" "a EXT2_DIND_BLOCK = 0" "a EXT2_TIND_BLOCK = 0"
    and b: "b = eino (exs s) V (i_inum (inodes s ip))" "euse m V b" "b \<notin> fblocks a V"
    and q: "q = bg_inode_bitmap (gdesc (exs s) V (i_inum (inodes s ip)))" "euse m V q" "q \<notin> fblocks a V" "q \<noteq> b"
    and i: "i = IO (i_inum (inodes s ip)) (exs s)" "i < 8 * BSIZE" "tst (V q) i" and c: "card P + 1 < NBUF"
  shows "wp (ext2_iput ip) (\<lambda>_ t. \<exists>V'. erep t V' Map.empty P \<and> removed V m q b a i V' \<and> i_ref (inodes t ip) = 0 \<and>
      \<not> i_valid (inodes t ip) \<and> i_file_type (inodes t ip) = None \<and> \<not> sl_locked (i_lock (inodes t ip)) \<and>
      \<not> a_busy (ext2_addrs t j) \<and> (\<forall>k. k \<noteq> ip \<longrightarrow> inodes t k = inodes s k) \<and> (\<forall>k. k \<noteq> j \<longrightarrow> ext2_addrs t k = ext2_addrs s k)) s"
    (is "wp _ ?Q s")
proof -
  note fo = eopenD [OF f]
  obtain l where l: "acquiresleep (cur_pid s) (i_lock (inodes s ip)) = Inr l" using last(4) by (simp add: acquiresleep_def)
  define s1 where "s1 = seti ip (\<lambda>x. x\<lparr>i_lock := l\<rparr>) s"
  have s1: "inodes s1 = (inodes s)(ip := (inodes s ip)\<lparr>i_lock := l\<rparr>)" "exs s1 = exs s" "ext2_addrs s1 = ext2_addrs s"
    by (simp_all add: s1_def seti_def)
  have f1: "eopen s1 V P ip j m a" using f by (simp add: s1_def eopen_seti)
  let ?R = "\<lambda>_ :: unit. bnd (upd (release_inode ip)) (\<lambda>_. bnd (upd (seti ip (\<lambda>x. x\<lparr>i_ref := i_ref x - 1\<rparr>))) (\<lambda>_ s.
     if i_ref (inodes s ip) = 0 then bnd (clear_busy (AExt j)) (\<lambda>_. upd (seti ip (\<lambda>x. x\<lparr>i_file_type := None\<rparr>))) s
     else Inr ((), s)))"
  have "wp (bnd (ext2_ifree ip) (\<lambda>_. bnd (ext2_itrunc ip) (\<lambda>_. bnd (upd (seti ip (\<lambda>x. x\<lparr>i_type := 0, i_size := 0\<rparr>))) (\<lambda>_.
      bnd (iops_iupdate ip) (\<lambda>_. bnd (upd (seti ip (\<lambda>x. x\<lparr>i_valid := False, i_file_type := None\<rparr>))) ?R))))) ?Q s1"
  proof (rule ext2_clear_inode [OF f1])
    fix t V' a' assume t: "erep t V' Map.empty P" "removed V m q b a i V'"
      "after_eaddrs j a' (seti ip (\<lambda>x. x\<lparr>i_type := 0, i_size := 0\<rparr>) s1) t"
    note tf = efr_fields [OF t(3)]
    let ?w = "seti ip (\<lambda>x. x\<lparr>i_file_type := None\<rparr>) ((seti ip (\<lambda>x. x\<lparr>i_ref := i_ref x - 1\<rparr>) (release_inode ip
        (seti ip (\<lambda>x. x\<lparr>i_valid := False, i_file_type := None\<rparr>) t)))\<lparr>ext2_addrs := (ext2_addrs t)(j := (ext2_addrs t j)\<lparr>a_busy := False\<rparr>)\<rparr>)"
    have in_t: "inodes t = (inodes s)(ip := (inodes s ip)\<lparr>i_lock := l, i_type := 0, i_size := 0\<rparr>)"
      using tf(2) s1 by (simp add: seti_def)
    have "bsame t ?w" by (simp add: bsame_def seti_def release_inode_def)
    then have w: "erep ?w V' Map.empty P" using erep_bsame t(1) by blast
    have "inodes ?w = (inodes s)(ip := (inodes s ip)\<lparr>i_type := 0, i_size := 0, i_valid := False, i_lock := releasesleep l, i_ref := 0, i_file_type := None\<rparr>)"
      using in_t last(3) by (simp add: seti_def release_inode_def)
    moreover have "ext2_addrs ?w = (ext2_addrs t)(j := (ext2_addrs t j)\<lparr>a_busy := False\<rparr>)" by (simp add: seti_def)
    moreover have "k \<noteq> j \<Longrightarrow> ext2_addrs t k = ext2_addrs s k" for k using tf(3) s1(3) by (simp add: seti_def set_eaddrs_def)
    ultimately have "?Q () ?w" using w t(2) by (auto simp: releasesleep_def)
    moreover have "wp (bnd (upd (seti ip (\<lambda>x. x\<lparr>i_valid := False, i_file_type := None\<rparr>))) ?R) ?Q t = ?Q () ?w"
      using in_t last(3) by (simp add: wp_def bnd_def upd_def clear_busy_def seti_def release_inode_def)
    ultimately show "wp (bnd (upd (seti ip (\<lambda>x. x\<lparr>i_valid := False, i_file_type := None\<rparr>))) ?R) ?Q t" by blast
  qed (use s1 ft gr d b q i c in simp_all)
  moreover have "ext2_iput ip s = bnd (ext2_ifree ip) (\<lambda>_. bnd (ext2_itrunc ip) (\<lambda>_. bnd (upd (seti ip (\<lambda>x. x\<lparr>i_type := 0, i_size := 0\<rparr>))) (\<lambda>_.
      bnd (iops_iupdate ip) (\<lambda>_. bnd (upd (seti ip (\<lambda>x. x\<lparr>i_valid := False, i_file_type := None\<rparr>))) ?R)))) s1"
    using fo(4) l last s1 by (simp add: ext2_iput_def bnd_run gets_run acquire_inode_def s1_def [symmetric] bnd_assoc cong: if_cong)
  ultimately show ?thesis by (simp add: wp_def)
qed

end
