(* ===== verification/Ext2Props.thy ===== *)
theory Ext2Props
  imports Ext2Trunc Machine
begin

section \<open>Properties of the ext2 file system\<close>

text \<open>
  The properties of ext2 blocks, inodes and files, each applied to a machine whose second drive has a small
  ext2 volume with blocks of 2048 bytes and one group: the descriptor in block 1, the block bitmap in block
  3, the inode bitmap in block 4, the inode table in blocks 5 and 6, and two files in blocks 8 and 9.
\<close>

subsection \<open>A volume\<close>

definition ex0 :: ext2_superblock where
  "ex0 = \<lparr>s_inodes_count = 32, s_blocks_count = 1024, s_log_block_size = 1, s_blocks_per_group = 16384,
     s_inodes_per_group = 32, s_magic = 61267, s_first_ino = 11, s_inode_size = 128\<rparr>"

definition eimg :: "nat \<Rightarrow> block" where
  "eimg n = (if n = 1 then put_words (\<lambda>i. [3, 4, 5] ! i) 0 3 (\<lambda>_. 0)
     else if n = 3 then fold bset [0..<11] (\<lambda>_. 0) else if n = 4 then fold bset [0..<13] (\<lambda>_. 0)
     else if n = 8 then (\<lambda>i. if i < 3 then of_nat (i + 1) else 0) else if n = 9 then (\<lambda>i. if i < 2 then of_nat (i + 4) else 0)
     else (\<lambda>_. 0))"

definition eboot_disk :: "nat \<Rightarrow> nat \<Rightarrow> block" where
  "eboot_disk p k = (if p = ide_port EXT2DEV \<and> k mod 4 = 0 then eimg (k div 4) else (\<lambda>_. 0))"

definition efile0 :: "nat \<Rightarrow> nat \<Rightarrow> nat \<Rightarrow> inode" where
  "efile0 inum j sz = \<lparr>i_dev = EXT2DEV, i_inum = inum, i_ref = 1, i_lock = initsleeplock, i_valid = True, i_type = T_FILE,
     i_major = 0, i_minor = 0, i_nlink = 1, i_size = sz, i_addrs = AExt j, i_file_type = Some Ext2fs\<rparr>"

definition e0 :: fstate where
  "e0 = binit \<lparr>cur_pid = 1, disk = eboot_disk, dwrites = [], havedisk1 = True, havedisk2 = True, idequeue = [],
     ide_lba = (\<lambda>_. 0), bufs = (\<lambda>_. zbuf), log_start = 2, log_size = 30, outstanding = 1,
     committing = False, log_dev = 1, lh_n = 0, lh_block = (\<lambda>_. 0),
     sb = sb0, inodes = (\<lambda>ip. if ip = 0 then efile0 12 0 3 else if ip = 1 then efile0 13 1 2
       else (file0 0 0 0 0)\<lparr>i_ref := 0, i_valid := False, i_addrs := ANull\<rparr>),
     addrs = (\<lambda>j. adr0 53), ext2_addrs = (\<lambda>j. adr0 (8 + j)), exs = ex0,
     cons = \<lparr>uart = True, uart_out = [], crt = (\<lambda>_. 0), crt_pos = 0, in_buf = (\<lambda>_. 0), in_r = 0, in_w = 0, in_e = 0\<rparr>,
     cur_killed = False, cur_cwd = 0, stack_junk = (\<lambda>_. 0)\<rparr>"

definition E0 :: contents where
  "E0 = view e0 EXT2DEV"

lemma e0_quiet: "quiet e0" "dirty e0 = {}"
  unfolding e0_def by (rule binit_ok; simp add: zeroed_def zbuf_def)+

lemma e0_sel: "inodes e0 0 = efile0 12 0 3" "inodes e0 1 = efile0 13 1 2" "ext2_addrs e0 j = adr0 (8 + j)" "exs e0 = ex0"
  "disk e0 = eboot_disk"
  by (simp_all add: e0_def binit_def)

lemma E0_at: "n < 2 ^ 26 \<Longrightarrow> E0 n = eimg n"
  using clean_view [OF e0_quiet(1), of EXT2DEV n] e0_quiet(2)
  by (simp add: E0_def dkeys_def blk_ok_def dblk_def e0_sel eboot_disk_def ide_sector_def const_defs SECTOR_SIZE_def)

lemma erep0: "erep e0 E0 Map.empty {}"
  using e0_quiet by (simp add: E0_def erep_def brep_def quiet_def dkeys_def hrep_def)

lemma tst_fold: "tst (fold bset [0..<k] (\<lambda>_. 0)) n = (n < k)"
proof -
  have "tst (fold bset xs d) n = (n \<in> set xs \<or> tst d n)" for xs d
    by (induction xs arbitrary: d) (auto simp: tst_bset)
  then show ?thesis by (simp add: tst_def)
qed

lemma eimg_bits: "tst (E0 3) n = (n < 11)" "tst (E0 4) n = (n < 13)"
  using E0_at [of 3] E0_at [of 4] by (simp_all add: eimg_def tst_fold)

lemma gd0: "dec_group_desc (E0 1) 0 = \<lparr>bg_block_bitmap = 3, bg_inode_bitmap = 4, bg_inode_table = 5\<rparr>"
proof -
  have "rd32 (E0 1) (0 + 4 * i) = u32 ([3, 4, 5] ! i)" if "i < 3" for i
    using E0_at [of 1] rd32_put_words [OF that, of "\<lambda>i. [3, 4, 5] ! i" 0 "\<lambda>_. 0"] by (simp add: eimg_def)
  from this [of 0] this [of 1] this [of 2] show ?thesis by (simp add: dec_group_desc_def)
qed

lemma egrp0: "inum \<in> {12, 13} \<Longrightarrow> egrp ex0 E0 inum 3"
proof -
  assume "inum \<in> {12, 13}"
  then have "GN inum ex0 = 0" by (auto simp: GN_def ex0_def u32_def)
  then show ?thesis using gd0 eimg_bits by (simp add: egrp_def gdesc_def const_defs)
qed

lemma euse0: "euse 3 E0 n = (3 < n \<and> n < 14)"
  by (auto simp: euse_def eimg_bits const_defs)

lemma efree0: "efree ex0 E0 3 = {11..<16384}"
  by (auto simp: efree_def eimg_bits ex0_def u32_def const_defs)

lemma efile0_ok:
  assumes ip: "inodes e0 ip = efile0 inum j sz" and inum: "inum \<in> {12, 13}" and j: "j < 2"
    and sz: "0 < sz" "sz < 2048" "length bs = sz" and bs: "\<And>k. k < sz \<Longrightarrow> eimg (8 + j) k = bs ! k"
  shows "efile e0 E0 {} ip j 3 bs"
proof -
  let ?a = "a_addrs (adr0 (8 + j))"
  have fi: "efinv 3 E0 ?a" using j by (auto simp: efinv_def fblk0 euse0) (auto simp: adr0_def const_defs)
  have op: "eopen e0 E0 {} ip j 3 ?a"
    using erep0 egrp0 [OF inum] fi ip by (simp add: eopen_def e0_sel efile0_def)
  have ib: "eino ex0 E0 inum = 5"
    using inum gd0 by (auto simp: eino_def gdesc_def inode_block_def GN_def IO_def ex0_def u32_def const_defs)
  have dn: "dense ?a E0 sz" using sz by (auto simp: dense_def fblk0 const_defs)
  have nb: "5 \<notin> fblocks ?a E0" using j by (auto simp: fblocks_def fblk0) (auto simp: adr0_def const_defs)
  have "cont ?a E0 k = bs ! k" if "k < sz" for k
    using j sz bs that E0_at [of "8 + j"] by (simp add: cont_def fblk0 const_defs)
  then have "bs = map (cont ?a E0) [0..<sz]" using sz by (intro nth_equalityI) auto
  then show ?thesis
    using op dn nb ip sz j by (auto simp: efile_def Let_def e0_sel efile0_def ib euse0 einode_ok_def adr0_def const_defs)
qed

lemma e0_file: "efile e0 E0 {} 0 0 3 [1, 2, 3]"
  by (rule efile0_ok [where inum = 12 and sz = 3]) (auto simp: e0_sel eimg_def less_Suc_eq numeral_3_eq_3)

lemma e0_other: "efile e0 E0 {} 1 1 3 [4, 5]"
  by (rule efile0_ok [where inum = 13 and sz = 2]) (simp_all add: e0_sel eimg_def less_2_cases_iff del: One_nat_def, auto)

subsection \<open>Blocks\<close>

lemma balloc_bfree_first:
  fixes s :: "'z fstate_scheme"
  assumes "erep s V Map.empty P" "egrp (exs s) V inum m" "GN inum (exs s) = 0" "efree (exs s) V m \<noteq> {}"
    "m + Min (efree (exs s) V m) < s_blocks_per_group (exs s)" "card P + 1 < NBUF"
  shows "wp (bnd (ext2_balloc EXT2DEV inum) (\<lambda>b. bnd (ext2_bfree EXT2DEV b) (\<lambda>_. ret b)))
    (\<lambda>b t. b = m + Min (efree (exs s) V m) \<and> efr s t \<and> erep t (V(b := (\<lambda>_. 0))) Map.empty P) s"
proof (rule ext2_balloc_ok [OF assms(1,2,4)])
  fix b and t :: "'z fstate_scheme"
  assume b: "b = m + Min (efree (exs s) V m)" "eavail m V b" and t: "efr s t" "erep t (eallocd m b V) Map.empty P"
  let ?Q = "\<lambda>b t. b = m + Min (efree (exs s) V m) \<and> efr s t \<and> erep t (V(b := (\<lambda>_. 0))) Map.empty P"
  let ?W = "eallocd m b V"
  note ex = efr_fields(1) [OF t(1)]
  have mb: "m < b" "\<not> tst (V m) (b - m)" using b(2) by (auto simp: eavail_def)
  have e: "?W(m := bclr (b - m) (?W m)) = V(b := (\<lambda>_. 0))"
    using eallocd_simps(1) [OF mb(1)] bclr_bset [OF mb(2)] mb(1) by (auto simp: eallocd_def fun_eq_iff)
  have "wp (ext2_bfree EXT2DEV b) (\<lambda>_ u. efr t u \<and> erep u (?W(m := bclr (b - m) (?W m))) Map.empty P) t"
    by (rule ext2_bfree_first [OF t(2), where inum = inum])
      (use ex assms egrp_eallocd [OF assms(2) b(2)] euse_eallocd(1) [OF b(2)] b(1) in simp_all)
  then have "wp (ext2_bfree EXT2DEV b) (\<lambda>_ u. efr t u \<and> erep u (V(b := (\<lambda>_. 0))) Map.empty P) t" unfolding e .
  then show "wp (bnd (ext2_bfree EXT2DEV b) (\<lambda>_. ret b)) ?Q t"
    by (rule wp_bndI) (use b(1) t(1) es.fr_trans in \<open>auto simp: wp_ret\<close>)
qed (use assms(6) in simp_all)

text \<open>C14. In the first group \<open>ext2_balloc\<close> takes the first clear bit of the bitmap, sets it, zeroes the block it
  stands for and returns its number; \<open>ext2_bfree\<close> of that number finds the same bit and clears it. Together they
  leave the ext2 device as it was but for the zeroed block, and they do not touch the root device.\<close>

theorem ext2_balloc_bfree:
  fixes s :: "'z fstate_scheme"
  assumes "erep s V Map.empty P" "egrp (exs s) V inum m" "GN inum (exs s) = 0" "efree (exs s) V m \<noteq> {}"
    "m + Min (efree (exs s) V m) < s_blocks_per_group (exs s)" "card P + 1 < NBUF"
  shows "\<exists>b t. bnd (ext2_balloc EXT2DEV inum) (\<lambda>b. bnd (ext2_bfree EXT2DEV b) (\<lambda>_. ret b)) s = Inr (b, t) \<and>
    b = m + Min (efree (exs s) V m) \<and> efr s t \<and> erep t (V(b := (\<lambda>_. 0))) Map.empty P"
  using balloc_bfree_first [OF assms] by (simp add: wp_iff)

lemma min_free0: "Min (efree ex0 E0 3) = 11"
  unfolding efree0 by (rule Min_eqI) auto

theorem ext2_balloc_bfree_witness:
  "\<exists>t. bnd (ext2_balloc EXT2DEV 12) (\<lambda>b. bnd (ext2_bfree EXT2DEV b) (\<lambda>_. ret b)) e0 = Inr (14, t)"
proof -
  have "egrp (exs e0) E0 12 3" "GN 12 (exs e0) = 0" "efree (exs e0) E0 3 \<noteq> {}" "s_blocks_per_group (exs e0) = 16384"
    using egrp0 [of 12] efree0 by (auto simp: e0_sel GN_def ex0_def u32_def)
  then show ?thesis using ext2_balloc_bfree [OF erep0, of 12 3] min_free0 by (auto simp: e0_sel const_defs)
qed

text \<open>Blocks of the other groups cannot be freed. Their bitmap lies behind the first group, so that the index
  \<open>ext2_bfree\<close> computes wraps around and points outside the block of the bitmap.\<close>

theorem ext2_bfree_later_group:
  fixes s :: "'z fstate_scheme"
  assumes "erep s V Map.empty P" "0 < s_blocks_per_group (exs s)" "32 * (b div s_blocks_per_group (exs s)) + 32 \<le> BSIZE"
    "bgroup (exs s) V b = m" "s_blocks_per_group (exs s) \<le> m" "1 < m" "blk_ok EXT2DEV m" "card P + 1 < NBUF"
  shows "ext2_bfree EXT2DEV b s = Inl (Undef ''bp->data'')"
  by (rule ext2_bfree_wraps [OF assms(1,3,2,4-7)]) (use assms(8) in simp_all)

text \<open>In the double indirect range \<open>ext2_bmap\<close> looks twice at the first indirect block, so that 512 blocks of the
  file in a row have one block of the disk.\<close>

theorem ext2_bmap_double_alias:
  assumes "EXT2_NDIR_BLOCKS + NINDIRECT1 \<le> bn" "bn < EXT2_NDIR_BLOCKS + NINDIRECT1 + NDINDIRECT"
    "EXT2_NDIR_BLOCKS + NINDIRECT1 \<le> bn'" "bn' < EXT2_NDIR_BLOCKS + NINDIRECT1 + NDINDIRECT"
    "(bn - EXT2_NDIR_BLOCKS - NINDIRECT1) div NINDIRECT1 = (bn' - EXT2_NDIR_BLOCKS - NINDIRECT1) div NINDIRECT1"
  shows "ext2_bmap ip bn = ext2_bmap ip bn'"
proof -
  have "\<not> bn < EXT2_NDIR_BLOCKS" "\<not> bn - EXT2_NDIR_BLOCKS < NINDIRECT1" "bn - EXT2_NDIR_BLOCKS - NINDIRECT1 < NDINDIRECT"
    "\<not> bn' < EXT2_NDIR_BLOCKS" "\<not> bn' - EXT2_NDIR_BLOCKS < NINDIRECT1" "bn' - EXT2_NDIR_BLOCKS - NINDIRECT1 < NDINDIRECT"
    using assms(1-4) by linarith+
  then show ?thesis using assms(5) by (simp add: ext2_bmap_def Let_def fun_eq_iff cong: if_cong)
qed

subsection \<open>Inodes\<close>

text \<open>C13. What \<open>ext2_iupdate\<close> stores, \<open>ext2_ilock\<close> reads: after an update of a file's inode, locking the inode in
  any slot that is not valid gives the type, link count, size and all fifteen addresses of before; the update
  leaves the bytes of the file as they were.\<close>

theorem ext2_inode_roundtrip:
  fixes s :: "'z fstate_scheme"
  assumes "efile s V P ip j m bs" "card P + 1 < NBUF" "i_dev y = EXT2DEV" "i_inum y = i_inum (inodes s ip)" "i_addrs y = AExt j"
    "0 < i_ref y" "\<not> i_valid y" "\<not> sl_locked (i_lock y)"
  shows "\<exists>t V'. ext2_iupdate ip s = Inr ((), t) \<and> efile t V' P ip j m bs \<and>
    (\<exists>u. ext2_ilock ip (seti ip (\<lambda>_. y) (set_eaddrs j a t)) = Inr ((), u) \<and>
      inodes u ip = y\<lparr>i_lock := (i_lock y)\<lparr>sl_locked := True, sl_pid := cur_pid t\<rparr>, i_valid := True, i_type := i_type (inodes s ip),
        i_major := 0, i_minor := 0, i_nlink := i_nlink (inodes s ip), i_size := length bs\<rparr> \<and>
      (\<forall>i. i < EXT2_N_BLOCKS \<longrightarrow> a_addrs (ext2_addrs u j) i = a_addrs (ext2_addrs s j) i))"
proof -
  note d = efileD [OF assms(1)] and fo = eopenD [OF efileD(1) [OF assms(1)]]
  let ?n = "i_inum (inodes s ip)" and ?a = "a_addrs (ext2_addrs s j)"
  let ?b = "eino (exs s) V ?n" and ?k = "eoff (exs s) ?n"
  let ?W = "V(?b := ext2_put_inode (inodes s ip) ?a ?k (V ?b))"
  obtain t where t: "ext2_iupdate ip s = Inr ((), t)" "efr s t" "erep t ?W Map.empty P"
    using ext2_iupdate_ok [OF fo(1-4) refl d(4) assms(2) refl] by (auto simp: wp_iff)
  have ft: "efile t ?W P ip j m bs" by (rule efile_inode [OF assms(1) refl t(2,3)])
  note ex = efr_fields [OF t(2)]
  note dt = efileD [OF ft] and ot = eopenD [OF efileD(1) [OF ft]]
  have sv: "ext2_saved (?W ?b) ?k (inodes s ip) ?a" using put_inode_saved [OF d(3)] by simp
  have mb: "m < ?b" "1 < m" using d(4) egrpD(4) [OF fo(2)] by (auto simp: euse_def)
  have eb: "eino (exs t) ?W ?n = ?b" using mb ex by (simp add: eino_def gdesc_def)
  let ?v = "seti ip (\<lambda>_. y) (set_eaddrs j a t)"
  let ?l = "(i_lock y)\<lparr>sl_locked := True, sl_pid := cur_pid t\<rparr>"
  have v: "inodes ?v ip = y" "exs ?v = exs s" "cur_pid ?v = cur_pid t"
    using ex by (simp_all add: seti_def set_eaddrs_def)
  have vr: "erep ?v ?W Map.empty P" using t(3) by simp
  have "wp (ext2_ilock ip) (\<lambda>_ u. erep u ?W Map.empty P \<and> inodes u ip = loaded (inodes s ip) ((inodes ?v ip)\<lparr>i_lock := ?l\<rparr>) \<and>
      a_addrs (ext2_addrs u j) = (\<lambda>i. if i < EXT2_N_BLOCKS then ?a i else 0)) ?v"
  proof (rule ext2_ilock_ok [OF vr, where b = ?b and m = m])
    show "egrp (exs ?v) ?W (i_inum (inodes ?v ip)) m" using ot(2) v assms(4) ex by simp
    show "ext2_saved (?W ?b) (eoff (exs ?v) (i_inum (inodes ?v ip))) (inodes s ip) ?a" using sv v assms(4) by simp
    show "?b = eino (exs ?v) ?W (i_inum (inodes ?v ip))" using eb v assms(4) ex by simp
    show "euse m ?W ?b" using d(4) mb by (simp add: euse_def)
    show "acquiresleep (cur_pid ?v) (i_lock (inodes ?v ip)) = Inr ?l" using assms(8) v by (simp add: acquiresleep_def)
    show "i_type (inodes s ip) = T_FILE \<or> i_type (inodes s ip) = T_DIR" using d(3) by (simp add: einode_ok_def)
  qed (use assms v in simp_all)
  then show ?thesis using t(1) ft v(1) d(6) by (auto simp: wp_iff loaded_def)
qed

theorem ext2_inode_roundtrip_witness:
  "\<exists>t u. ext2_iupdate 0 e0 = Inr ((), t) \<and>
    ext2_ilock 0 (seti 0 (\<lambda>_. (efile0 12 0 99)\<lparr>i_valid := False, i_nlink := 7\<rparr>) (set_eaddrs 0 (\<lambda>_. 0) t)) = Inr ((), u) \<and>
    i_size (inodes u 0) = 3 \<and> i_nlink (inodes u 0) = 1 \<and> a_addrs (ext2_addrs u 0) 0 = 8"
  using ext2_inode_roundtrip [OF e0_file, of "(efile0 12 0 99)\<lparr>i_valid := False, i_nlink := 7\<rparr>" "\<lambda>_. 0"]
  by (fastforce simp: e0_sel efile0_def adr0_def initsleeplock_def const_defs)

subsection \<open>Files\<close>

text \<open>C10. An ext2 file is a list of bytes. \<open>ext2_writei\<close> replaces the bytes from \<open>off\<close> on and extends the file, as long
  as the offset is not past the end, what is added lies in the direct blocks, and the bitmap has room. A later
  \<open>ext2_readi\<close> returns what was written, between the bytes that were there; when the file grew, the inode in the
  inode table has the new size and addresses.\<close>

theorem ext2_writei_readi:
  assumes "efile s V P ip j m bs" "off \<le> length bs" "off + n \<le> max (length bs) (NDIRECT * BSIZE)"
    "nblk off n \<le> card (efree (exs s) V m)" "card P + 1 < NBUF" "at \<le> max (length bs) (off + n)" "at + l < 4294967296"
  shows "\<exists>t u V' k. ext2_writei ip src off n s = Inr (int n, t) \<and> efile t V' P ip j m (splice_at bs off (bytes src 0 n)) \<and>
     (length bs < off + n \<longrightarrow> ext2_saved (V' (eino (exs s) V (i_inum (inodes s ip)))) (eoff (exs s) (i_inum (inodes s ip)))
        (inodes t ip) (a_addrs (ext2_addrs t j))) \<and>
     ext2_readi ip at l t = Inr ((k, take l (drop at (splice_at bs off (bytes src 0 n)))), u)"
proof -
  obtain t V' where t: "ext2_writei ip src off n s = Inr (int n, t)" "efile t V' P ip j m (splice_at bs off (bytes src 0 n))"
    "length bs < off + n \<longrightarrow> ext2_saved (V' (eino (exs s) V (i_inum (inodes s ip)))) (eoff (exs s) (i_inum (inodes s ip)))
        (inodes t ip) (a_addrs (ext2_addrs t j))"
    using ext2_writei_ok [OF assms(1-5), of src] by (auto simp: wp_iff ewritten_def)
  from ext2_readi_ok [OF t(2) assms(5,7)] show ?thesis
    using t assms(6) length_splice [OF assms(2)] by (auto simp: wp_iff)
qed

lemma e0_room: "0 < n \<Longrightarrow> off + n \<le> 2048 \<Longrightarrow> nblk off n \<le> card (efree (exs e0) E0 3)"
  "off + n \<le> 2048 \<Longrightarrow> off + n \<le> max l (NDIRECT * BSIZE)" "card {} + 1 < NBUF"
proof -
  assume "0 < n" "off + n \<le> 2048"
  then have "0 < n" "off + n \<le> BSIZE" by (simp_all add: const_defs)
  then have "off mod BSIZE = off" "min n (BSIZE - off) = n" by auto
  then have "nblk off n = 1" using \<open>0 < n\<close> by (subst nblk.simps) (simp add: Let_def nblk.simps [of _ 0])
  then show "nblk off n \<le> card (efree (exs e0) E0 3)" by (simp add: e0_sel efree0)
qed (simp_all add: const_defs)

theorem ext2_writei_readi_witness:
  "\<exists>t u k. ext2_writei 0 (\<lambda>i. of_nat (i + 7)) 2 3 e0 = Inr (3, t) \<and> ext2_readi 0 0 9 t = Inr ((k, [1, 2, 7, 8, 9]), u)"
  using ext2_writei_readi [OF e0_file _ e0_room(2) e0_room(1,3), of 2 3 0 9 "\<lambda>i. of_nat (i + 7)"]
  by (auto simp: splice_at_def bytes_def upt_rec)

text \<open>C11. Writing to one ext2 file leaves every other file of the group alone: a file whose blocks are its own has the
  same bytes afterwards, and an inode at another place of the inode table says what it said.\<close>

theorem ext2_writei_keeps_others:
  assumes "efile s V P ip j m bs" "off \<le> length bs" "off + n \<le> max (length bs) (NDIRECT * BSIZE)"
    "nblk off n \<le> card (efree (exs s) V m)" "card P + 1 < NBUF" "efile s V P iq k m cs" "iq \<noteq> ip" "eapart s V ip j k"
    "eino (exs s) V (i_inum (inodes s iq)) \<notin> fblocks (a_addrs (ext2_addrs s j)) V"
    "eino (exs s) V (i_inum (inodes s iq)) \<noteq> eino (exs s) V (i_inum (inodes s ip)) \<or>
      eoff (exs s) (i_inum (inodes s iq)) + 128 \<le> eoff (exs s) (i_inum (inodes s ip)) \<or>
      eoff (exs s) (i_inum (inodes s ip)) + 128 \<le> eoff (exs s) (i_inum (inodes s iq))"
  shows "\<exists>t V'. ext2_writei ip src off n s = Inr (int n, t) \<and> efile t V' P iq k m cs \<and>
    (\<forall>x ad. ext2_saved (V' (eino (exs s) V (i_inum (inodes s iq)))) (eoff (exs s) (i_inum (inodes s iq))) x ad =
      ext2_saved (V (eino (exs s) V (i_inum (inodes s iq)))) (eoff (exs s) (i_inum (inodes s iq))) x ad)"
proof -
  let ?c = "eino (exs s) V (i_inum (inodes s iq))" and ?k = "eoff (exs s) (i_inum (inodes s iq))"
  obtain t V' where t: "ext2_writei ip src off n s = Inr (int n, t)" "efile t V' P ip j m (splice_at bs off (bytes src 0 n))"
    "efile_frame s V ip j m t V'"
    using ext2_writei_ok [OF assms(1-5), of src] by (auto simp: wp_iff ewritten_def)
  have "V' ?c i = V ?c i" if i: "?k \<le> i" "i < ?k + 128" for i
  proof (cases "?c = eino (exs s) V (i_inum (inodes s ip))")
    case True
    then show ?thesis using t(3) assms(10) i by (auto simp: efile_frame_def Let_def)
  next
    case False
    then show ?thesis using t(3) assms(9) efileD(4) [OF assms(6)] by (simp add: efile_frame_def Let_def)
  qed
  then have "ext2_saved (V' ?c) ?k x ad = ext2_saved (V ?c) ?k x ad" for x ad by (rule saved_cong)
  then show ?thesis using t(1) efile_other [OF t(3,2) assms(6-8)] by blast
qed

lemma e0_places: "eino ex0 E0 12 = 5" "eino ex0 E0 13 = 5" "eoff ex0 12 = 1408" "eoff ex0 13 = 1536"
  using gd0 by (simp_all add: eino_def eoff_def inode_off_def gdesc_def inode_block_def GN_def IO_def ex0_def u32_def const_defs)

theorem ext2_writei_keeps_others_witness:
  "\<exists>t V'. ext2_writei 0 (\<lambda>_. 9) 0 2000 e0 = Inr (2000, t) \<and> efile t V' {} 1 1 3 [4, 5]"
proof -
  have fb: "fblocks (a_addrs (adr0 b)) E0 = {0, b}" for b
    by (auto simp: fblocks_def fblk0 image_def) (auto simp: adr0_def const_defs)
  have "eino (exs e0) E0 (i_inum (inodes e0 0)) = 5" using e0_places(1) by (simp add: e0_sel efile0_def)
  then have "eapart e0 E0 0 0 1" by (auto simp: eapart_def e0_sel(3) fb)
  then show ?thesis
    using ext2_writei_keeps_others [OF e0_file _ e0_room(2) e0_room(1,3) e0_other, of 0 2000 "\<lambda>_. 9"] e0_places
    by (auto simp: fb e0_sel efile0_def simp del: One_nat_def)
qed

subsection \<open>Removing a file\<close>

text \<open>C12. \<open>ext2_iput\<close> of the last reference to a file that has no links, only direct blocks, and lies in the first group,
  removes it: exactly the bits of its blocks in the block bitmap and its bit in the inode bitmap are cleared, no
  block but these two and the one of its inode changes, and the slot of the inode cache and the entry of the address
  table are free again, all others as they were.\<close>

theorem ext2_iput_removes:
  fixes s :: "'z fstate_scheme"
  assumes "efile s V P ip j m bs" "i_valid (inodes s ip)" "i_nlink (inodes s ip) = 0" "i_ref (inodes s ip) = 1"
    "\<not> sl_locked (i_lock (inodes s ip))" "a = a_addrs (ext2_addrs s j)" "first_group (exs s) (i_inum (inodes s ip)) a"
    "a EXT2_IND_BLOCK = 0" "a EXT2_DIND_BLOCK = 0" "a EXT2_TIND_BLOCK = 0"
    "q = bg_inode_bitmap (gdesc (exs s) V (i_inum (inodes s ip)))" "euse m V q" "q \<notin> fblocks a V"
    "b = eino (exs s) V (i_inum (inodes s ip))" "q \<noteq> b" "i = IO (i_inum (inodes s ip)) (exs s)" "i < 8 * BSIZE" "tst (V q) i" "card P + 1 < NBUF"
  shows "\<exists>t V'. ext2_iput ip s = Inr ((), t) \<and> erep t V' Map.empty P \<and>
    (\<forall>z. tst (V' m) z = (tst (V m) z \<and> \<not> (\<exists>k < NDIRECT. a k \<noteq> 0 \<and> z = a k - m))) \<and>
    (\<forall>z. tst (V' q) z = (tst (V q) z \<and> z \<noteq> i)) \<and> (\<forall>n. n \<notin> {m, q, b} \<longrightarrow> V' n = V n) \<and>
    i_ref (inodes t ip) = 0 \<and> \<not> i_valid (inodes t ip) \<and> i_file_type (inodes t ip) = None \<and> \<not> sl_locked (i_lock (inodes t ip)) \<and>
    \<not> a_busy (ext2_addrs t j) \<and> (\<forall>k. k \<noteq> ip \<longrightarrow> inodes t k = inodes s k) \<and> (\<forall>k. k \<noteq> j \<longrightarrow> ext2_addrs t k = ext2_addrs s k)"
proof -
  note d = efileD [OF assms(1)]
  have b: "euse m V b" "b \<notin> fblocks a V" using d(4,5) assms(6,14) by simp_all
  have f: "eopen s V P ip j m a" using d(1) assms(6) by simp
  note w = ext2_iput_ok [OF f d(2) assms(2-5,7-10,14) b assms(11-13,15-19)]
  then obtain t V' where "ext2_iput ip s = Inr ((), t)" "erep t V' Map.empty P" "removed V m q b a i V'"
    "i_ref (inodes t ip) = 0" "\<not> i_valid (inodes t ip)" "i_file_type (inodes t ip) = None" "\<not> sl_locked (i_lock (inodes t ip))"
    "\<not> a_busy (ext2_addrs t j)" "\<forall>k. k \<noteq> ip \<longrightarrow> inodes t k = inodes s k" "\<forall>k. k \<noteq> j \<longrightarrow> ext2_addrs t k = ext2_addrs s k"
    unfolding wp_iff by (elim exE conjE) (rule that; simp)
  then show ?thesis unfolding removed_def by (intro exI [of _ t] exI [of _ V']) simp
qed

text \<open>The first file without links.\<close>

definition e1 :: fstate where
  "e1 = seti 0 (\<lambda>x. x\<lparr>i_nlink := 0\<rparr>) e0"

lemma e1_sel: "inodes e1 0 = (efile0 12 0 3)\<lparr>i_nlink := 0\<rparr>" "ext2_addrs e1 j = adr0 (8 + j)" "exs e1 = ex0"
  by (simp_all add: e1_def seti_def e0_sel)

lemma e1_file: "efile e1 E0 {} 0 0 3 [1, 2, 3]"
proof -
  have "eopen e1 E0 {} 0 0 3 (a_addrs (ext2_addrs e0 0))" using efileD(1) [OF e0_file] by (simp add: e1_def eopen_seti)
  then show ?thesis using e0_file by (simp add: efile_def Let_def e1_sel e0_sel efile0_def einode_ok_def)
qed

theorem ext2_iput_removes_witness:
  "\<exists>t (V' :: contents). ext2_iput 0 e1 = Inr ((), t) \<and> erep t V' Map.empty {} \<and> tst (E0 3) 5 \<and> \<not> tst (V' 3) 5 \<and> tst (V' 3) 6 \<and> \<not> tst (V' 4) 11 \<and>
    i_ref (inodes t 0) = 0 \<and> \<not> a_busy (ext2_addrs t 0)"
proof -
  have gn: "GN 12 ex0 = 0" "IO 12 ex0 = 11" by (simp_all add: GN_def IO_def ex0_def u32_def)
  have gq: "bg_inode_bitmap (gdesc ex0 E0 12) = 4" using gd0 gn by (simp add: gdesc_def)
  have fb: "fblocks (a_addrs (adr0 8)) E0 = {0, 8}"
    by (auto simp: fblocks_def fblk0 image_def) (auto simp: adr0_def const_defs)
  have fg: "first_group ex0 12 (a_addrs (adr0 8))" using gn by (simp add: first_group_def adr0_def ex0_def)
  have x: "i_valid (inodes e1 0)" "i_nlink (inodes e1 0) = 0" "i_ref (inodes e1 0) = 1" "\<not> sl_locked (i_lock (inodes e1 0))"
    "i_inum (inodes e1 0) = 12" by (simp_all add: e1_sel efile0_def initsleeplock_def)
  have ad: "adr0 8 = ext2_addrs e1 0" by (simp add: e1_sel)
  have z: "a_addrs (adr0 8) EXT2_IND_BLOCK = 0" "a_addrs (adr0 8) EXT2_DIND_BLOCK = 0" "a_addrs (adr0 8) EXT2_TIND_BLOCK = 0"
    by (simp_all add: adr0_def const_defs)
  have c: "(11 :: nat) < 8 * BSIZE" "card {} + 1 < NBUF" by (simp_all add: const_defs)
  have "\<exists>t V'. ext2_iput 0 e1 = Inr ((), t) \<and> erep t V' Map.empty {} \<and>
    (\<forall>z. tst (V' 3) z = (tst (E0 3) z \<and> \<not> (\<exists>k < NDIRECT. a_addrs (adr0 8) k \<noteq> 0 \<and> z = a_addrs (adr0 8) k - 3))) \<and>
    (\<forall>z. tst (V' 4) z = (tst (E0 4) z \<and> z \<noteq> 11)) \<and> (\<forall>n. n \<notin> {3, 4, 5} \<longrightarrow> V' n = E0 n) \<and>
    i_ref (inodes t 0) = 0 \<and> \<not> i_valid (inodes t 0) \<and> i_file_type (inodes t 0) = None \<and> \<not> sl_locked (i_lock (inodes t 0)) \<and>
    \<not> a_busy (ext2_addrs t 0) \<and> (\<forall>k. k \<noteq> 0 \<longrightarrow> inodes t k = inodes e1 k) \<and> (\<forall>k. k \<noteq> 0 \<longrightarrow> ext2_addrs t k = ext2_addrs e1 k)"
    by (rule ext2_iput_removes [OF e1_file x(1-4) _ _ z _ _ _ _ _ _ c(1) _ c(2)])
      (simp_all only: x(5) ad e1_sel(3) gq gn fg [unfolded ad] e0_places, simp_all add: ad [symmetric] fb euse0 eimg_bits)
  then obtain t and V' :: contents where t: "ext2_iput 0 e1 = Inr ((), t)" "i_ref (inodes t 0) = 0" "\<not> a_busy (ext2_addrs t 0)"
    "\<forall>z. tst (V' 3) z = (tst (E0 3) z \<and> \<not> (\<exists>k < NDIRECT. a_addrs (adr0 8) k \<noteq> 0 \<and> z = a_addrs (adr0 8) k - 3))"
    "\<forall>z. tst (V' 4) z = (tst (E0 4) z \<and> z \<noteq> 11)" "erep t V' Map.empty {}" by (elim exE conjE) (rule that)
  have "\<not> tst (V' 3) 5" "tst (V' 3) 6" "\<not> tst (V' 4) 11"
    unfolding t(4) [rule_format] t(5) [rule_format] by (auto simp: adr0_def eimg_bits const_defs)
  then show ?thesis using t(1-3,6) eimg_bits(1) by (intro exI [of _ t] exI [of _ V']) simp
qed

end
