(* ===== verification/User.thy ===== *)
theory User
  imports Vfs
begin

section \<open>The user library (ulib.c, printf.c, user.h)\<close>

text \<open>
  A user program as one process sees it: a function on the world \<open>'w\<close> outside the process, which it
  changes through system calls only. The table of calls \<open>os\<close> (the functions of user.h) is an argument of
  every routine. A run gives None when it does not end, and otherwise a value, the end of the process,
  or a fault (an access outside the objects of the program). A C string is the list of its bytes before
  the terminating zero where its end is known, and a \<open>block\<close> where the code searches for it.
\<close>

subsection \<open>Programs\<close>

datatype 'a uret = Val 'a | Exited | UFault

type_synonym ('w, 'a) prog = "'w \<Rightarrow> ('a uret \<times> 'w) option"

definition pret :: "'a \<Rightarrow> ('w, 'a) prog" where
  "pret a = (\<lambda>w. Some (Val a, w))"

definition pexit :: "('w, 'a) prog" where
  "pexit = (\<lambda>w. Some (Exited, w))"

definition pfault :: "('w, 'a) prog" where
  "pfault = (\<lambda>w. Some (UFault, w))"

definition pbind :: "('w, 'a) prog \<Rightarrow> ('a \<Rightarrow> ('w, 'b) prog) \<Rightarrow> ('w, 'b) prog" where
  "pbind m f = (\<lambda>w. Option.bind (m w) (\<lambda>r. case r of
      (Val a, w') \<Rightarrow> f a w' | (Exited, w') \<Rightarrow> Some (Exited, w') | (UFault, w') \<Rightarrow> Some (UFault, w')))"

definition call :: "('w \<Rightarrow> 'a \<times> 'w) \<Rightarrow> ('w, 'a) prog" where
  "call f = (\<lambda>w. case f w of (a, w') \<Rightarrow> Some (Val a, w'))"

lemma pbind_simps [simp]:
  "pbind (pret a) f = f a" "pbind pexit f = pexit" "pbind pfault f = pfault"
  by (simp_all add: pbind_def pret_def pexit_def pfault_def)

lemma pbind_call: "pbind (call g) f w = (case g w of (a, w') \<Rightarrow> f a w')"
  by (simp add: pbind_def call_def split: prod.split)

lemma pbind_assoc: "pbind (pbind m f) g = pbind m (\<lambda>a. pbind (f a) g)"
  by (auto simp: pbind_def fun_eq_iff split: bind_splits option.splits uret.splits)

lemma pbind_Val: "m w = Some (Val a, w') \<Longrightarrow> pbind m f w = f a w'"
  by (simp add: pbind_def)

text \<open>The system calls of user.h: those with an output argument return what they store there. \<open>exec\<close>
  gives a negative value when it returns; otherwise the program is gone.\<close>

record 'w os =
  os_read :: "int \<Rightarrow> nat \<Rightarrow> 'w \<Rightarrow> (int \<times> byte list) \<times> 'w"
  os_write :: "int \<Rightarrow> byte list \<Rightarrow> 'w \<Rightarrow> int \<times> 'w"
  os_open :: "byte list \<Rightarrow> nat \<Rightarrow> 'w \<Rightarrow> int \<times> 'w"
  os_close :: "int \<Rightarrow> 'w \<Rightarrow> int \<times> 'w"
  os_fstat :: "int \<Rightarrow> 'w \<Rightarrow> (int \<times> stat) \<times> 'w"
  os_link :: "byte list \<Rightarrow> byte list \<Rightarrow> 'w \<Rightarrow> int \<times> 'w"
  os_unlink :: "byte list \<Rightarrow> 'w \<Rightarrow> int \<times> 'w"
  os_mkdir :: "byte list \<Rightarrow> 'w \<Rightarrow> int \<times> 'w"
  os_mknod :: "byte list \<Rightarrow> int \<Rightarrow> int \<Rightarrow> 'w \<Rightarrow> int \<times> 'w"
  os_chdir :: "byte list \<Rightarrow> 'w \<Rightarrow> int \<times> 'w"
  os_dup :: "int \<Rightarrow> 'w \<Rightarrow> int \<times> 'w"
  os_pipe :: "'w \<Rightarrow> (int \<times> int \<times> int) \<times> 'w"
  os_kill :: "int \<Rightarrow> 'w \<Rightarrow> int \<times> 'w"
  os_fork :: "'w \<Rightarrow> int \<times> 'w"
  os_wait :: "'w \<Rightarrow> int \<times> 'w"
  os_exec :: "byte list \<Rightarrow> byte list list \<Rightarrow> 'w \<Rightarrow> int \<times> 'w"
  os_sleep :: "int \<Rightarrow> 'w \<Rightarrow> int \<times> 'w"
  os_sbrk :: "nat \<Rightarrow> 'w \<Rightarrow> int \<times> 'w"

subsection \<open>ulib.c\<close>

partial_function (option) u_strcpy :: "block \<Rightarrow> nat \<Rightarrow> nat \<Rightarrow> block option" where
  "u_strcpy m s t = (let m' = m(s := m t) in if m t \<noteq> 0 then u_strcpy m' (s + 1) (t + 1) else Some m')"

partial_function (option) u_strcmp :: "block \<Rightarrow> block \<Rightarrow> nat \<Rightarrow> int option" where
  "u_strcmp p q i = (if p i \<noteq> 0 \<and> p i = q i then u_strcmp p q (i + 1) else Some (int (unat (p i)) - int (unat (q i))))"

partial_function (option) u_strlen :: "block \<Rightarrow> nat \<Rightarrow> nat option" where
  "u_strlen s n = (if s n \<noteq> 0 then u_strlen s (n + 1) else Some n)"

definition u_memset :: "block \<Rightarrow> nat \<Rightarrow> byte \<Rightarrow> nat \<Rightarrow> block" where
  "u_memset m dst c n = stosb m dst c n"

text \<open>The position of \<open>c\<close>, or None for the null pointer.\<close>

partial_function (option) u_strchr :: "block \<Rightarrow> byte \<Rightarrow> nat \<Rightarrow> nat option option" where
  "u_strchr s c i = (if s i \<noteq> 0 then (if s i = c then Some (Some i) else u_strchr s c (i + 1)) else Some None)"

text \<open>\<open>k\<close> bytes may still be read at \<open>i\<close>; \<open>c\<close> is the local variable.\<close>

fun gets_loop :: "'w os \<Rightarrow> block \<Rightarrow> nat \<Rightarrow> byte \<Rightarrow> nat \<Rightarrow> ('w, block \<times> nat) prog" where
  "gets_loop os buf i c 0 = pret (buf, i)"
| "gets_loop os buf i c (Suc k) =
     pbind (call (os_read os 0 1)) (\<lambda>(cc, bs).
     if cc < 1 then pret (buf, i)
     else (let c = (case bs of b # _ \<Rightarrow> b | [] \<Rightarrow> c); buf = buf(i := c) in
       if c = 10 \<or> c = 13 then pret (buf, i + 1) else gets_loop os buf (i + 1) c k))"

definition u_gets :: "'w os \<Rightarrow> block \<Rightarrow> int \<Rightarrow> ('w, block) prog" where
  "u_gets os buf mx = pbind (gets_loop os buf 0 0 (nat (mx - 1))) (\<lambda>(buf, i). pret (buf(i := 0)))"

definition u_stat :: "'w os \<Rightarrow> byte list \<Rightarrow> ('w, int \<times> stat option) prog" where
  "u_stat os n =
     pbind (call (os_open os n 0)) (\<lambda>fd.
     if fd < 0 then pret (-1, None)
     else pbind (call (os_fstat os fd)) (\<lambda>(r, st).
       pbind (call (os_close os fd)) (\<lambda>_. pret (r, Some st))))"

text \<open>C's \<open>int\<close> arithmetic, wrapped to 32 bits.\<close>

definition i32 :: "int \<Rightarrow> int" where
  "i32 x = s32 (nat (x mod 4294967296))"

partial_function (option) u_atoi :: "block \<Rightarrow> nat \<Rightarrow> int \<Rightarrow> int option" where
  "u_atoi s i n = (if 48 \<le> unat (s i) \<and> unat (s i) \<le> 57
     then u_atoi s (i + 1) (i32 (n * 10 + int (unat (s i)) - 48)) else Some n)"

text \<open>Unlike the kernel's, this \<open>memmove\<close> always copies upwards.\<close>

definition u_memmove :: "block \<Rightarrow> nat \<Rightarrow> nat \<Rightarrow> int \<Rightarrow> block" where
  "u_memmove m dst src n = copy_up m dst src (nat n)"

subsection \<open>printf.c\<close>

definition putc :: "'w os \<Rightarrow> int \<Rightarrow> byte \<Rightarrow> ('w, unit) prog" where
  "putc os fd c = pbind (call (os_write os fd [c])) (\<lambda>_. pret ())"

fun puts :: "'w os \<Rightarrow> int \<Rightarrow> byte list \<Rightarrow> ('w, unit) prog" where
  "puts os fd [] = pret ()"
| "puts os fd (c # cs) = pbind (putc os fd c) (\<lambda>_. puts os fd cs)"

definition u_digit :: "nat \<Rightarrow> byte" where
  "u_digit d = word_of_nat (if d < 10 then 48 + d else 55 + d)"

text \<open>The text \<open>printint\<close> builds backwards in \<open>buf\<close> and sends.\<close>

definition u_int_text :: "nat \<Rightarrow> nat \<Rightarrow> bool \<Rightarrow> byte list" where
  "u_int_text xx base sg =
     (let neg = (sg \<and> xx \<ge> 2147483648); x = (if neg then 4294967296 - xx else xx)
      in rev (map u_digit (digits base x) @ (if neg then [45] else [])))"

definition u_printint :: "'w os \<Rightarrow> int \<Rightarrow> nat \<Rightarrow> nat \<Rightarrow> bool \<Rightarrow> ('w, unit) prog" where
  "u_printint os fd xx base sg = puts os fd (u_int_text xx base sg)"

datatype uarg = UWord nat | UStr "byte list option"

text \<open>\<open>state\<close> says whether a percent sign came before.\<close>

fun printf_loop :: "'w os \<Rightarrow> int \<Rightarrow> bool \<Rightarrow> byte list \<Rightarrow> uarg list \<Rightarrow> ('w, unit) prog" where
  "printf_loop os fd state [] as = pret ()"
| "printf_loop os fd False (c # cs) as =
     (if c = 37 then printf_loop os fd True cs as
      else pbind (putc os fd c) (\<lambda>_. printf_loop os fd False cs as))"
| "printf_loop os fd True (c # cs) as =
     (if c = 100 then (case as of UWord x # as \<Rightarrow>
        pbind (u_printint os fd x 10 True) (\<lambda>_. printf_loop os fd False cs as) | _ \<Rightarrow> pfault)
      else if c = 120 \<or> c = 112 then (case as of UWord x # as \<Rightarrow>
        pbind (u_printint os fd x 16 False) (\<lambda>_. printf_loop os fd False cs as) | _ \<Rightarrow> pfault)
      else if c = 115 then (case as of UStr p # as \<Rightarrow>
        pbind (puts os fd (case p of None \<Rightarrow> [40, 110, 117, 108, 108, 41] | Some t \<Rightarrow> t)) (\<lambda>_. printf_loop os fd False cs as) | _ \<Rightarrow> pfault)
      else if c = 99 then (case as of UWord x # as \<Rightarrow>
        pbind (putc os fd (word_of_nat x)) (\<lambda>_. printf_loop os fd False cs as) | _ \<Rightarrow> pfault)
      else if c = 37 then pbind (putc os fd c) (\<lambda>_. printf_loop os fd False cs as)
      else pbind (putc os fd 37) (\<lambda>_. pbind (putc os fd c) (\<lambda>_. printf_loop os fd False cs as)))"

definition u_printf :: "'w os \<Rightarrow> int \<Rightarrow> byte list \<Rightarrow> uarg list \<Rightarrow> ('w, unit) prog" where
  "u_printf os fd fmt as = printf_loop os fd False fmt as"

text \<open>The bytes of a string literal.\<close>

definition lit :: "string \<Rightarrow> byte list" where
  "lit s = map (\<lambda>c. of_char c) s"

end
