(* ===== verification/Progs.thy ===== *)
theory Progs
  imports User Pipe
begin

section \<open>User programs (cat.c, wc.c, echo.c, ln.c, rm.c, mkdir.c, kill.c, ls.c, init.c, zombie.c, forktest.c, stressfs.c)\<close>

text \<open>
  The programs as functions of the system calls and their arguments (without the program's name), and,
  for the filters, what they do with an input that a pipe or a file delivers in pieces and an output
  such as the console.
\<close>

subsection \<open>Filters\<close>

partial_function (option) cat :: "'w os \<Rightarrow> int \<Rightarrow> 'w \<Rightarrow> (unit uret \<times> 'w) option" where
  "cat os fd w = (case os_read os fd 512 w of ((n, bs), w) \<Rightarrow>
     if n > 0 then
       (case os_write os 1 bs w of (k, w) \<Rightarrow>
          if k \<noteq> n then pbind (u_printf os 1 (lit ''cat: write error'' @ [10]) []) (\<lambda>_. pexit) w
          else cat os fd w)
     else if n < 0 then pbind (u_printf os 1 (lit ''cat: read error'' @ [10]) []) (\<lambda>_. pexit) w
     else Some (Val (), w))"

fun files_main :: "string \<Rightarrow> (int \<Rightarrow> byte list \<Rightarrow> ('w, unit) prog) \<Rightarrow> 'w os \<Rightarrow> byte list list \<Rightarrow> ('w, unit) prog" where
  "files_main nm f os [] = pexit"
| "files_main nm f os (a # as) =
     pbind (call (os_open os a 0)) (\<lambda>fd.
     if fd < 0 then pbind (u_printf os 1 (lit nm @ lit '': cannot open %s'' @ [10]) [UStr (Some a)]) (\<lambda>_. pexit)
     else pbind (f fd a) (\<lambda>_. pbind (call (os_close os fd)) (\<lambda>_. files_main nm f os as)))"

definition cat_main :: "'w os \<Rightarrow> byte list list \<Rightarrow> ('w, unit) prog" where
  "cat_main os as = (if as = [] then pbind (cat os 0) (\<lambda>_. pexit) else files_main ''cat'' (\<lambda>fd _. cat os fd) os as)"

record wc_state =
  wc_l :: int
  wc_w :: int
  wc_c :: int
  wc_inword :: bool

text \<open>One byte: \<open>strchr\<close> of the separators finds the terminating zero of the list for no byte. The counters
  are 32-bit ints.\<close>

definition wc_byte :: "wc_state \<Rightarrow> byte \<Rightarrow> wc_state" where
  "wc_byte s b =
     (let s = s\<lparr>wc_c := i32 (wc_c s + 1)\<rparr>; s = (if b = 10 then s\<lparr>wc_l := i32 (wc_l s + 1)\<rparr> else s) in
      if b \<in> {32, 13, 9, 10, 11} then s\<lparr>wc_inword := False\<rparr>
      else if \<not> wc_inword s then s\<lparr>wc_w := i32 (wc_w s + 1), wc_inword := True\<rparr> else s)"

partial_function (option) wc_loop :: "'w os \<Rightarrow> int \<Rightarrow> wc_state \<Rightarrow> 'w \<Rightarrow> ((int \<times> wc_state) uret \<times> 'w) option" where
  "wc_loop os fd s w = (case os_read os fd 512 w of ((n, bs), w) \<Rightarrow>
     if n > 0 then wc_loop os fd (foldl wc_byte s bs) w else Some (Val (n, s), w))"

definition wc0 :: wc_state where
  "wc0 = \<lparr>wc_l = 0, wc_w = 0, wc_c = 0, wc_inword = False\<rparr>"

text \<open>The word that an int is passed as.\<close>

definition u32_of :: "int \<Rightarrow> nat" where
  "u32_of x = nat (x mod 4294967296)"

definition wc :: "'w os \<Rightarrow> int \<Rightarrow> byte list \<Rightarrow> ('w, unit) prog" where
  "wc os fd name =
     pbind (wc_loop os fd wc0) (\<lambda>(n, s).
     if n < 0 then pbind (u_printf os 1 (lit ''wc: read error'' @ [10]) []) (\<lambda>_. pexit)
     else u_printf os 1 (lit ''%d %d %d %s'' @ [10]) [UWord (u32_of (wc_l s)), UWord (u32_of (wc_w s)), UWord (u32_of (wc_c s)), UStr (Some name)])"

definition wc_main :: "'w os \<Rightarrow> byte list list \<Rightarrow> ('w, unit) prog" where
  "wc_main os as = (if as = [] then pbind (wc os 0 []) (\<lambda>_. pexit) else files_main ''wc'' (wc os) os as)"

subsection \<open>Programs around one call\<close>

fun echo_main :: "'w os \<Rightarrow> byte list list \<Rightarrow> ('w, unit) prog" where
  "echo_main os [] = pexit"
| "echo_main os (a # as) =
     pbind (u_printf os 1 (lit ''%s%s'') [UStr (Some a), UStr (Some (if as \<noteq> [] then [32] else [10]))]) (\<lambda>_. echo_main os as)"

definition ln_main :: "'w os \<Rightarrow> byte list list \<Rightarrow> ('w, unit) prog" where
  "ln_main os as = (case as of
     [a, b] \<Rightarrow> pbind (call (os_link os a b)) (\<lambda>r.
       if r < 0 then pbind (u_printf os 2 (lit ''link %s %s: failed'' @ [10]) [UStr (Some a), UStr (Some b)]) (\<lambda>_. pexit) else pexit)
   | _ \<Rightarrow> pbind (u_printf os 2 (lit ''Usage: ln old new'' @ [10]) []) (\<lambda>_. pexit))"

fun each_path :: "'w os \<Rightarrow> (byte list \<Rightarrow> 'w \<Rightarrow> int \<times> 'w) \<Rightarrow> byte list \<Rightarrow> byte list list \<Rightarrow> ('w, unit) prog" where
  "each_path os f msg [] = pexit"
| "each_path os f msg (a # as) =
     pbind (call (f a)) (\<lambda>r. if r < 0 then pbind (u_printf os 2 msg [UStr (Some a)]) (\<lambda>_. pexit) else each_path os f msg as)"

definition rm_main :: "'w os \<Rightarrow> byte list list \<Rightarrow> ('w, unit) prog" where
  "rm_main os as = (if as = [] then pbind (u_printf os 2 (lit ''Usage: rm files...'' @ [10]) []) (\<lambda>_. pexit)
     else each_path os (os_unlink os) (lit ''rm: %s failed to delete'' @ [10]) as)"

definition mkdir_main :: "'w os \<Rightarrow> byte list list \<Rightarrow> ('w, unit) prog" where
  "mkdir_main os as = (if as = [] then pbind (u_printf os 2 (lit ''Usage: mkdir files...'' @ [10]) []) (\<lambda>_. pexit)
     else each_path os (os_mkdir os) (lit ''mkdir: %s failed to create'' @ [10]) as)"

definition str_block :: "byte list \<Rightarrow> block" where
  "str_block bs = (\<lambda>i. if i < length bs then bs ! i else 0)"

fun kill_all :: "'w os \<Rightarrow> byte list list \<Rightarrow> ('w, unit) prog" where
  "kill_all os [] = pexit"
| "kill_all os (a # as) = (case u_atoi (str_block a) 0 0 of
     None \<Rightarrow> (\<lambda>_. None) | Some n \<Rightarrow> pbind (call (os_kill os n)) (\<lambda>_. kill_all os as))"

definition kill_main :: "'w os \<Rightarrow> byte list list \<Rightarrow> ('w, unit) prog" where
  "kill_main os as = (if as = [] then pbind (u_printf os 2 (lit ''usage: kill pid...'' @ [10]) []) (\<lambda>_. pexit)
     else kill_all os as)"

definition zombie_main :: "'w os \<Rightarrow> ('w, unit) prog" where
  "zombie_main os = pbind (call (os_fork os)) (\<lambda>r.
     if r > 0 then pbind (call (os_sleep os 5)) (\<lambda>_. pexit) else pexit)"

subsection \<open>ls.c\<close>

text \<open>The name behind the last slash, padded with blanks to \<open>DIRSIZ\<close>. The buffer has room for the
  padded name and keeps the zero behind it.\<close>

definition fmtname :: "byte list \<Rightarrow> byte list" where
  "fmtname path = (let p = rev (takeWhile (\<lambda>c. c \<noteq> 47) (rev path)) in
     if length p \<ge> DIRSIZ then p else p @ replicate (DIRSIZ - length p) 32)"

definition ls_line :: "'w os \<Rightarrow> byte list \<Rightarrow> stat \<Rightarrow> ('w, unit) prog" where
  "ls_line os path st = u_printf os 1 (lit ''%s %d %d %d'' @ [10])
     [UStr (Some (fmtname path)), UWord (nat (st_type st mod 4294967296)), UWord (st_ino st), UWord (st_size st)]"

text \<open>The entries are read as native \<open>dirent\<close> records.\<close>

partial_function (option) ls_entries :: "'w os \<Rightarrow> int \<Rightarrow> byte list \<Rightarrow> 'w \<Rightarrow> (unit uret \<times> 'w) option" where
  "ls_entries os fd path w = (case os_read os fd 16 w of ((n, bs), w) \<Rightarrow>
     if n \<noteq> 16 then Some (Val (), w)
     else if rd16 (str_block bs) 0 = 0 then ls_entries os fd path w
     else (let p = path @ [47] @ cstr (\<lambda>i. str_block bs (2 + i)) DIRSIZ in
       Option.bind (u_stat os p w) (\<lambda>r. case r of
          (Val (e, st), w) \<Rightarrow>
             (if e < 0 then Option.bind (u_printf os 1 (lit ''ls: cannot stat %s'' @ [10]) [UStr (Some p)] w) (\<lambda>r. ls_entries os fd path (snd r))
              else (case st of None \<Rightarrow> Some (UFault, w)
                | Some st \<Rightarrow> Option.bind (ls_line os p st w) (\<lambda>r. ls_entries os fd path (snd r))))
        | (_, w) \<Rightarrow> Some (UFault, w))))"

definition ls :: "'w os \<Rightarrow> byte list \<Rightarrow> ('w, unit) prog" where
  "ls os path =
     pbind (call (os_open os path 0)) (\<lambda>fd.
     if fd < 0 then u_printf os 2 (lit ''ls: cannot open %s'' @ [10]) [UStr (Some path)]
     else pbind (call (os_fstat os fd)) (\<lambda>(r, st).
       if r < 0 then pbind (u_printf os 2 (lit ''ls: cannot stat %s'' @ [10]) [UStr (Some path)]) (\<lambda>_.
         pbind (call (os_close os fd)) (\<lambda>_. pret ()))
       else pbind
         (if st_type st = T_FILE then ls_line os path st
          else if st_type st = T_DIR then
            (if length path + 1 + DIRSIZ + 1 > 512 then u_printf os 1 (lit ''ls: path too long'' @ [10]) []
             else ls_entries os fd path)
          else pret ()) (\<lambda>_.
         pbind (call (os_close os fd)) (\<lambda>_. pret ()))))"

fun ls_all :: "'w os \<Rightarrow> byte list list \<Rightarrow> ('w, unit) prog" where
  "ls_all os [] = pexit"
| "ls_all os (a # as) = pbind (ls os a) (\<lambda>_. ls_all os as)"

definition ls_main :: "'w os \<Rightarrow> byte list list \<Rightarrow> ('w, unit) prog" where
  "ls_main os as = (if as = [] then pbind (ls os [46]) (\<lambda>_. pexit) else ls_all os as)"

subsection \<open>init.c\<close>

partial_function (option) init_wait :: "'w os \<Rightarrow> int \<Rightarrow> 'w \<Rightarrow> (unit uret \<times> 'w) option" where
  "init_wait os pid w = (case os_wait os w of (wpid, w) \<Rightarrow>
     if wpid \<ge> 0 \<and> wpid \<noteq> pid then Option.bind (u_printf os 1 (lit ''zombie!'' @ [10]) [] w) (\<lambda>r. init_wait os pid (snd r))
     else Some (Val (), w))"

partial_function (option) init_loop :: "'w os \<Rightarrow> 'w \<Rightarrow> (unit uret \<times> 'w) option" where
  "init_loop os w = Option.bind (u_printf os 1 (lit ''init: starting sh'' @ [10]) [] w) (\<lambda>r.
     case os_fork os (snd r) of (pid, w) \<Rightarrow>
       if pid < 0 then pbind (u_printf os 1 (lit ''init: fork failed'' @ [10]) []) (\<lambda>_. pexit) w
       else if pid = 0 then
         (case os_exec os (lit ''sh'') [lit ''sh''] w of (r, w) \<Rightarrow>
            if r \<ge> 0 then Some (Exited, w)
            else pbind (u_printf os 1 (lit ''init: exec sh failed'' @ [10]) []) (\<lambda>_. pexit) w)
       else Option.bind (init_wait os pid w) (\<lambda>r. init_loop os (snd r)))"

definition init_main :: "'w os \<Rightarrow> ('w, unit) prog" where
  "init_main os =
     pbind (call (os_open os (lit ''console'') 2)) (\<lambda>fd.
     pbind (if fd < 0 then pbind (call (os_mknod os (lit ''console'') 1 1)) (\<lambda>_.
              pbind (call (os_open os (lit ''console'') 2)) (\<lambda>_. pret ())) else pret ()) (\<lambda>_.
     pbind (call (os_dup os 0)) (\<lambda>_.
     pbind (call (os_dup os 0)) (\<lambda>_.
     init_loop os))))"

subsection \<open>forktest.c and stressfs.c\<close>

definition ft_printf :: "'w os \<Rightarrow> int \<Rightarrow> byte list \<Rightarrow> ('w, unit) prog" where
  "ft_printf os fd s = pbind (call (os_write os fd s)) (\<lambda>_. pret ())"

text \<open>At most \<open>k\<close> more forks after \<open>n\<close>; each child exits.\<close>

fun ft_forks :: "'w os \<Rightarrow> nat \<Rightarrow> nat \<Rightarrow> ('w, nat) prog" where
  "ft_forks os 0 n = pret n"
| "ft_forks os (Suc k) n = pbind (call (os_fork os)) (\<lambda>pid.
     if pid < 0 then pret n else if pid = 0 then pexit else ft_forks os k (n + 1))"

fun ft_waits :: "'w os \<Rightarrow> nat \<Rightarrow> ('w, unit) prog" where
  "ft_waits os 0 = pret ()"
| "ft_waits os (Suc n) = pbind (call (os_wait os)) (\<lambda>r.
     if r < 0 then pbind (ft_printf os 1 (lit ''wait stopped early'' @ [10])) (\<lambda>_. pexit) else ft_waits os n)"

definition forktest :: "'w os \<Rightarrow> ('w, unit) prog" where
  "forktest os =
     pbind (ft_printf os 1 (lit ''fork test'' @ [10])) (\<lambda>_.
     pbind (ft_forks os 1000 0) (\<lambda>n.
     if n = 1000 then pbind (ft_printf os 1 (lit ''fork claimed to work N times!'' @ [10])) (\<lambda>_. pexit)
     else pbind (ft_waits os n) (\<lambda>_.
       pbind (call (os_wait os)) (\<lambda>r.
       if r \<noteq> -1 then pbind (ft_printf os 1 (lit ''wait got too many'' @ [10])) (\<lambda>_. pexit)
       else ft_printf os 1 (lit ''fork test OK'' @ [10])))))"

fun sf_forks :: "'w os \<Rightarrow> nat \<Rightarrow> nat \<Rightarrow> ('w, nat) prog" where
  "sf_forks os 0 i = pret i"
| "sf_forks os (Suc k) i = pbind (call (os_fork os)) (\<lambda>r. if r > 0 then pret i else sf_forks os k (i + 1))"

fun repeat :: "nat \<Rightarrow> ('w, 'a) prog \<Rightarrow> ('w, unit) prog" where
  "repeat 0 m = pret ()"
| "repeat (Suc k) m = pbind m (\<lambda>_. repeat k m)"

definition stressfs_main :: "'w os \<Rightarrow> ('w, unit) prog" where
  "stressfs_main os =
     pbind (u_printf os 1 (lit ''stressfs starting'' @ [10]) []) (\<lambda>_.
     pbind (sf_forks os 4 0) (\<lambda>i.
     pbind (u_printf os 1 (lit ''write %d'' @ [10]) [UWord i]) (\<lambda>_.
     let path = lit ''stressfs'' @ [48 + of_nat i] in
     pbind (call (os_open os path (0x200 + 2))) (\<lambda>fd.
     pbind (repeat 20 (call (os_write os fd (replicate 512 97)))) (\<lambda>_.
     pbind (call (os_close os fd)) (\<lambda>_.
     pbind (u_printf os 1 (lit ''read'' @ [10]) []) (\<lambda>_.
     pbind (call (os_open os path 0)) (\<lambda>fd.
     pbind (repeat 20 (call (os_read os fd 512))) (\<lambda>_.
     pbind (call (os_close os fd)) (\<lambda>_.
     pbind (call (os_wait os)) (\<lambda>_. pexit)))))))))))"

end
