(* ===== verification/ProgProps.thy ===== *)
theory ProgProps
  imports Progs
begin

section \<open>What the filters do with a stream\<close>

text \<open>
  A source delivers a finite stream in pieces of any size, a sink takes all bytes it is given; a pipe
  that a writer fills again whenever the reader would block is a source and the console is a sink.
  \<open>cat\<close> copies the stream, \<open>wc\<close> prints its numbers of lines, words and bytes, \<open>printf\<close> prints numerals
  that \<open>atoi\<close> reads back.
\<close>

subsection \<open>Sources and sinks\<close>

locale byte_source =
  fixes rd :: "nat \<Rightarrow> 'w \<Rightarrow> (int \<times> byte list) \<times> 'w" and inv :: "'w \<Rightarrow> bool" and rest :: "'w \<Rightarrow> byte list"
  assumes rd_law: "inv w \<Longrightarrow> 0 < n \<Longrightarrow> \<exists>bs w'. rd n w = ((int (length bs), bs), w') \<and> inv w' \<and>
     rest w = bs @ rest w' \<and> length bs \<le> n \<and> (bs = [] \<longrightarrow> rest w = [])"

locale byte_sink =
  fixes wr :: "byte list \<Rightarrow> 'w \<Rightarrow> int \<times> 'w" and inv :: "'w \<Rightarrow> bool" and out :: "'w \<Rightarrow> byte list"
  assumes wr_law: "inv w \<Longrightarrow> \<exists>w'. wr bs w = (int (length bs), w') \<and> inv w' \<and> out w' = out w @ bs"

text \<open>A program with a source as its input and a sink as its output.\<close>

locale stdio = src: byte_source rd inv rest + snk: byte_sink wr inv out
  for rd :: "nat \<Rightarrow> 'w \<Rightarrow> (int \<times> byte list) \<times> 'w" and wr :: "byte list \<Rightarrow> 'w \<Rightarrow> int \<times> 'w"
    and inv :: "'w \<Rightarrow> bool" and rest :: "'w \<Rightarrow> byte list" and out :: "'w \<Rightarrow> byte list" +
  assumes rd_out: "inv w \<Longrightarrow> rd n w = (r, w') \<Longrightarrow> out w' = out w"
    and wr_rest: "inv w \<Longrightarrow> wr bs w = (k, w') \<Longrightarrow> rest w' = rest w"

text \<open>A program that sends the bytes \<open>t\<close> to a sink and goes on.\<close>

definition emits :: "('w \<Rightarrow> bool) \<Rightarrow> ('w \<Rightarrow> byte list) \<Rightarrow> ('w, unit) prog \<Rightarrow> byte list \<Rightarrow> bool" where
  "emits J out m t \<longleftrightarrow> (\<forall>w. J w \<longrightarrow> (\<exists>w'. m w = Some (Val (), w') \<and> J w' \<and> out w' = out w @ t))"

context byte_sink
begin

lemma puts_ok:
  assumes "os_write os fd = wr" "inv w"
  shows "\<exists>w'. puts os fd cs w = Some (Val (), w') \<and> inv w' \<and> out w' = out w @ cs"
  using assms(2)
proof (induction cs arbitrary: w)
  case (Cons c cs)
  obtain v where v: "wr [c] w = (1, v)" "inv v" "out v = out w @ [c]" using wr_law [OF Cons.prems, of "[c]"] by auto
  obtain u where u: "puts os fd cs v = Some (Val (), u)" "inv u" "out u = out v @ cs" using Cons.IH [OF v(2)] by blast
  then show ?case using v assms(1) by (simp add: putc_def pbind_assoc pbind_call)
qed (simp add: pret_def)

lemma emits_puts: "os_write os fd = wr \<Longrightarrow> emits inv out (puts os fd cs) cs"
  using puts_ok by (auto simp: emits_def)

lemma emits_putc: "os_write os fd = wr \<Longrightarrow> emits inv out (putc os fd c) [c]"
  using emits_puts [of os fd "[c]"] by (simp add: emits_def putc_def pbind_assoc)

lemma emits_ret: "emits inv out (pret ()) []"
  by (simp add: emits_def pret_def)

lemma emits_bind:
  assumes "emits inv out m t" "emits inv out m' t'"
  shows "emits inv out (pbind m (\<lambda>_. m')) (t @ t')"
  unfolding emits_def
proof (intro allI impI)
  fix w assume "inv w"
  then obtain v where v: "m w = Some (Val (), v)" "inv v" "out v = out w @ t" using assms(1) by (auto simp: emits_def)
  obtain u where "m' v = Some (Val (), u)" "inv u" "out u = out v @ t'" using assms(2) v(2) by (auto simp: emits_def)
  then show "\<exists>w'. pbind m (\<lambda>_. m') w = Some (Val (), w') \<and> inv w' \<and> out w' = out w @ t @ t'"
    using v by (simp add: pbind_Val [where m = m and w = w, OF v(1)])
qed

text \<open>A format: characters, numbers and strings.\<close>

lemma emits_printf:
  assumes "os_write os fd = wr"
  shows "emits inv out (printf_loop os fd False [] as) []"
    "c \<noteq> 37 \<Longrightarrow> emits inv out (printf_loop os fd False cs as) t \<Longrightarrow> emits inv out (printf_loop os fd False (c # cs) as) (c # t)"
    "emits inv out (printf_loop os fd False cs as) t \<Longrightarrow> emits inv out (printf_loop os fd False (37 # 100 # cs) (UWord x # as)) (u_int_text x 10 True @ t)"
    "emits inv out (printf_loop os fd False cs as) t \<Longrightarrow> emits inv out (printf_loop os fd False (37 # 115 # cs) (UStr (Some u) # as)) (u @ t)"
  using emits_bind [OF emits_putc [OF assms]] emits_bind [OF emits_puts [OF assms]]
  by (auto simp: emits_ret u_printint_def)

lemma printf_d:
  assumes "os_write os fd = wr" "inv w"
  shows "\<exists>w'. u_printf os fd [37, 100] [UWord x] w = Some (Val (), w') \<and> inv w' \<and> out w' = out w @ u_int_text x 10 True"
proof -
  have "emits inv out (printf_loop os fd False [37, 100] [UWord x]) (u_int_text x 10 True @ [])"
    by (rule emits_printf(3) [OF assms(1)], rule emits_printf(1) [OF assms(1)])
  then show ?thesis using assms(2) by (simp add: emits_def u_printf_def)
qed

lemma printf_ddds:
  assumes "os_write os fd = wr" "inv w"
  shows "\<exists>w'. u_printf os fd (lit ''%d %d %d %s'' @ [10]) [UWord x, UWord y, UWord z, UStr (Some nm)] w = Some (Val (), w') \<and>
    inv w' \<and> out w' = out w @ u_int_text x 10 True @ 32 # u_int_text y 10 True @ 32 # u_int_text z 10 True @ 32 # nm @ [10]"
proof -
  note e = emits_printf [OF assms(1)]
  have f: "lit ''%d %d %d %s'' @ [10] = [37, 100, 32, 37, 100, 32, 37, 100, 32, 37, 115, 10]" by (simp add: lit_def)
  have "emits inv out (u_printf os fd [37, 100, 32, 37, 100, 32, 37, 100, 32, 37, 115, 10] [UWord x, UWord y, UWord z, UStr (Some nm)])
     (u_int_text x 10 True @ 32 # u_int_text y 10 True @ 32 # u_int_text z 10 True @ 32 # nm @ [10])"
    unfolding u_printf_def by (intro e) simp_all
  then show ?thesis using assms(2) unfolding f by (simp add: emits_def)
qed

end

context stdio
begin

lemma cat_ok:
  assumes "os_read os fd = rd" "os_write os 1 = wr" "inv w"
  shows "\<exists>w'. cat os fd w = Some (Val (), w') \<and> inv w' \<and> rest w' = [] \<and> out w' = out w @ rest w"
  using assms(3)
proof (induction "length (rest w)" arbitrary: w rule: less_induct)
  case less
  obtain bs v where v: "rd 512 w = ((int (length bs), bs), v)" "inv v" "rest w = bs @ rest v" "bs = [] \<longrightarrow> rest w = []"
    using src.rd_law [OF less.prems, of 512] by auto
  have ov: "out v = out w" by (rule rd_out [OF less.prems v(1)])
  show ?case
  proof (cases bs)
    case Nil
    then show ?thesis using v ov assms(1) by (subst cat.simps) simp
  next
    case (Cons b cs)
    obtain u where u: "wr bs v = (int (length bs), u)" "inv u" "out u = out v @ bs" using snk.wr_law [OF v(2)] by blast
    have ru: "rest u = rest v" by (rule wr_rest [OF v(2) u(1)])
    have "length (rest u) < length (rest w)" using v(3) ru Cons by simp
    from less.hyps [OF this u(2)] obtain w' where
      "cat os fd u = Some (Val (), w')" "inv w'" "rest w' = []" "out w' = out u @ rest u" by blast
    then show ?thesis using v u ru ov assms(1,2) Cons by (subst cat.simps) simp
  qed
qed

end

context stdio
begin

lemma wc_loop_ok:
  assumes "os_read os fd = rd" "inv w"
  shows "\<exists>w'. wc_loop os fd s w = Some (Val (0, foldl wc_byte s (rest w)), w') \<and> inv w' \<and> rest w' = [] \<and> out w' = out w"
  using assms(2)
proof (induction "length (rest w)" arbitrary: w s rule: less_induct)
  case less
  obtain bs v where v: "rd 512 w = ((int (length bs), bs), v)" "inv v" "rest w = bs @ rest v" "bs = [] \<longrightarrow> rest w = []"
    using src.rd_law [OF less.prems, of 512] by auto
  have ov: "out v = out w" by (rule rd_out [OF less.prems v(1)])
  show ?case
  proof (cases bs)
    case Nil
    then show ?thesis using v ov assms(1) by (subst wc_loop.simps) simp
  next
    case (Cons b cs)
    then have "length (rest v) < length (rest w)" using v(3) by simp
    from less.hyps [OF this v(2), of "foldl wc_byte s bs"] show ?thesis
      using v ov assms(1) Cons by (subst wc_loop.simps) simp
  qed
qed

text \<open>Output leaves the input as it is.\<close>

lemma sink_rest: "byte_sink wr (\<lambda>w. inv w \<and> rest w = r) out"
proof
  show "\<exists>w'. wr bs w = (int (length bs), w') \<and> (inv w' \<and> rest w' = r) \<and> out w' = out w @ bs" if "inv w \<and> rest w = r" for w bs
    using snk.wr_law [of w bs] wr_rest [of w bs] that by blast
qed

lemma wc_ok:
  assumes "os_read os fd = rd" "os_write os 1 = wr" "inv w" "s = foldl wc_byte wc0 (rest w)"
  shows "\<exists>w'. wc os fd nm w = Some (Val (), w') \<and> rest w' = [] \<and>
    out w' = out w @ u_int_text (u32_of (wc_l s)) 10 True @ 32 # u_int_text (u32_of (wc_w s)) 10 True @ 32 #
      u_int_text (u32_of (wc_c s)) 10 True @ 32 # nm @ [10]"
proof -
  obtain v where v: "wc_loop os fd wc0 w = Some (Val (0, s), v)" "inv v" "rest v = []" "out v = out w"
    using wc_loop_ok [OF assms(1,3), of wc0] assms(4) by blast
  let ?f = "u_printf os 1 (lit ''%d %d %d %s'' @ [10]) [UWord (u32_of (wc_l s)), UWord (u32_of (wc_w s)), UWord (u32_of (wc_c s)), UStr (Some nm)]"
  let ?t = "u_int_text (u32_of (wc_l s)) 10 True @ 32 # u_int_text (u32_of (wc_w s)) 10 True @ 32 # u_int_text (u32_of (wc_c s)) 10 True @ 32 # nm @ [10]"
  obtain u where u: "?f v = Some (Val (), u)" "rest u = []" "out u = out v @ ?t"
    using byte_sink.printf_ddds [OF sink_rest [of "[]"] assms(2), of v] v(2,3) by blast
  have "wc os fd nm w = ?f v" by (simp add: wc_def pbind_Val [where m = "wc_loop os fd wc0" and w = w, OF v(1)])
  then show ?thesis using u v(4) by simp
qed

end

subsection \<open>A pipe with its writer, and the console\<close>

text \<open>\<open>io_writes\<close> are the writes that the process at the other end of the pipe has still to do before it
  closes its end. It runs when the reader would block.\<close>

record io =
  io_writes :: "byte list list"
  io_pipe :: pipe
  io_cons :: console

fun feed_rd :: "nat \<Rightarrow> byte list list \<Rightarrow> pipe \<Rightarrow> (int \<times> byte list) \<times> byte list list \<times> pipe" where
  "feed_rd n [] p = (case piperead False n p of
     Inr (r, q) \<Rightarrow> (r, [], q)
   | Inl e \<Rightarrow> (case piperead False n (fst (pipe_shut True p)) of Inr (r, q) \<Rightarrow> (r, [], q) | Inl e \<Rightarrow> ((-1, []), [], p)))"
| "feed_rd n (x # ws) p = (case piperead False n p of
     Inr (r, q) \<Rightarrow> (r, x # ws, q)
   | Inl e \<Rightarrow> (case pipewrite False x p of Inr (k, q) \<Rightarrow> feed_rd n ws q | Inl e \<Rightarrow> ((-1, []), x # ws, p)))"

definition pipe_rd :: "nat \<Rightarrow> io \<Rightarrow> (int \<times> byte list) \<times> io" where
  "pipe_rd n w = (case feed_rd n (io_writes w) (io_pipe w) of (r, ws, p) \<Rightarrow> (r, w\<lparr>io_writes := ws, io_pipe := p\<rparr>))"

definition cons_wr :: "byte list \<Rightarrow> io \<Rightarrow> int \<times> io" where
  "cons_wr bs w = (case consputs (map unat bs) (io_cons w) of Inr c \<Rightarrow> (int (length bs), w\<lparr>io_cons := c\<rparr>) | Inl e \<Rightarrow> (-1, w))"

text \<open>The writer's end is open until its last write; each write fits the pipe.\<close>

definition feed_inv :: "byte list list \<Rightarrow> pipe \<Rightarrow> bool" where
  "feed_inv ws p \<longleftrightarrow> pinv p \<and> (ws = [] \<or> writeopen p) \<and> (\<forall>x \<in> set ws. length x \<le> PIPESIZE)"

definition io_inv :: "io \<Rightarrow> bool" where
  "io_inv w \<longleftrightarrow> feed_inv (io_writes w) (io_pipe w) \<and> con_ok (io_cons w)"

definition pieces :: "byte list list \<Rightarrow> pipe \<Rightarrow> byte list list" where
  "pieces ws p = filter (\<lambda>x. x \<noteq> []) (pqueue p # ws)"

text \<open>What the reader has still to get, piece by piece and as a stream, and what the console has got.\<close>

definition io_pieces :: "io \<Rightarrow> byte list list" where
  "io_pieces w = pieces (io_writes w) (io_pipe w)"

definition io_rest :: "io \<Rightarrow> byte list" where
  "io_rest w = concat (io_pieces w)"

definition io_out :: "io \<Rightarrow> byte list" where
  "io_out w = map word_of_nat (uart_out (io_cons w))"

lemma piperead_loop_open: "piperead_loop n p = (bs, q) \<Longrightarrow> writeopen q = writeopen p"
  by (induction n arbitrary: p bs q) (auto simp: pipe_get_def split: if_splits prod.splits)

lemma pipewrite_loop_open: "pipewrite_loop k bs p = Inr (b, q) \<Longrightarrow> writeopen q = writeopen p"
  by (induction k bs p rule: pipewrite_loop.induct) (auto simp: pipe_put_def split: if_splits)

text \<open>A read gets the next piece, or what fits of it; the stream has ended when there is none.\<close>

lemma feed_rd_ok:
  assumes "feed_inv ws p"
  shows "\<exists>bs ws' q. feed_rd n ws p = ((int (length bs), bs), ws', q) \<and> feed_inv ws' q \<and>
    (case pieces ws p of [] \<Rightarrow> bs = [] \<and> pieces ws' q = []
     | x # xs \<Rightarrow> bs = take n x \<and> pieces ws' q = filter (\<lambda>x. x \<noteq> []) (drop n x # xs))"
  using assms
proof (induction ws arbitrary: p)
  case Nil
  define p' where "p' = (if pipe_empty p \<and> writeopen p then fst (pipe_shut True p) else p)"
  have p': "pinv p'" "pqueue p' = pqueue p"
    using Nil by (auto simp: p'_def feed_inv_def pipe_shut_def pinv_def pcount_def pqueue_def Let_def)
  obtain bs q where q: "piperead_loop n p' = (bs, q)" by (cases "piperead_loop n p'")
  have "feed_rd n [] p = ((int (length bs), bs), [], q)" using q by (auto simp: piperead_def p'_def pipe_shut_def pipe_empty_def Let_def)
  then show ?case using piperead_loop_ok [OF p'(1) q] p'(2) by (auto simp: feed_inv_def pieces_def)
next
  case (Cons x ws)
  note inv = Cons.prems [unfolded feed_inv_def]
  show ?case
  proof (cases "pipe_empty p")
    case True
    then have e: "pqueue p = []" using pipe_empty_queue inv by blast
    then obtain q where q: "pipewrite_loop False x p = Inr (True, q)" "pinv q" "pqueue q = x"
      using pipewrite_loop_ok [of p x False] inv by auto
    have "feed_inv ws q" using q inv pipewrite_loop_open [OF q(1)] by (auto simp: feed_inv_def)
    moreover have "feed_rd n (x # ws) p = feed_rd n ws q" using True inv q(1) by (simp add: piperead_def pipewrite_def)
    moreover have "pieces (x # ws) p = pieces ws q" using e q(3) by (simp add: pieces_def)
    ultimately show ?thesis using Cons.IH [of q] by simp
  next
    case False
    then have e: "pqueue p \<noteq> []" using pipe_empty_queue inv by blast
    obtain bs q where q: "piperead_loop n p = (bs, q)" by (cases "piperead_loop n p")
    have "feed_rd n (x # ws) p = ((int (length bs), bs), x # ws, q)" using False q by (simp add: piperead_def)
    then show ?thesis using piperead_loop_ok [OF _ q] piperead_loop_open [OF q] inv e by (auto simp: feed_inv_def pieces_def)
  qed
qed

lemma pieces_le: "feed_inv ws p \<Longrightarrow> x \<in> set (pieces ws p) \<Longrightarrow> x \<noteq> [] \<and> length x \<le> PIPESIZE"
  by (auto simp: feed_inv_def pieces_def pinv_def pqueue_def split: if_splits)

lemma concat_filter: "concat (filter (\<lambda>x. x \<noteq> []) xs) = concat xs"
  by (induction xs) auto

lemma pipe_rd_ok:
  assumes "io_inv w"
  shows "\<exists>bs w'. pipe_rd n w = ((int (length bs), bs), w') \<and> io_inv w' \<and> io_out w' = io_out w \<and>
    (case io_pieces w of [] \<Rightarrow> bs = [] \<and> io_pieces w' = []
     | x # xs \<Rightarrow> bs = take n x \<and> io_pieces w' = filter (\<lambda>x. x \<noteq> []) (drop n x # xs))"
proof -
  obtain bs ws q where r: "feed_rd n (io_writes w) (io_pipe w) = ((int (length bs), bs), ws, q)" "feed_inv ws q"
    "case pieces (io_writes w) (io_pipe w) of [] \<Rightarrow> bs = [] \<and> pieces ws q = []
     | x # xs \<Rightarrow> bs = take n x \<and> pieces ws q = filter (\<lambda>x. x \<noteq> []) (drop n x # xs)"
    using feed_rd_ok [of "io_writes w" "io_pipe w" n] assms by (auto simp: io_inv_def)
  then show ?thesis using assms
    by (intro exI [of _ bs] exI [of _ "w\<lparr>io_writes := ws, io_pipe := q\<rparr>"])
      (cases "pieces (io_writes w) (io_pipe w)"; simp add: pipe_rd_def io_inv_def io_pieces_def io_out_def)
qed

lemma io_pieces_id:
  assumes "io_pieces w = y # ys"
  shows "filter (\<lambda>x. x \<noteq> []) ys = ys"
proof -
  have "\<forall>x \<in> set (io_pieces w). x \<noteq> []" by (simp add: io_pieces_def pieces_def)
  then show ?thesis by (simp add: assms filter_id_conv)
qed

lemma cons_wr_ok:
  assumes "io_inv w"
  shows "\<exists>w'. cons_wr bs w = (int (length bs), w') \<and> io_inv w' \<and> io_out w' = io_out w @ bs \<and> io_pieces w' = io_pieces w"
proof -
  have "unat c \<noteq> 256" for c :: byte by (rule less_imp_neq [OF unat_byte])
  then have nb: "\<forall>c \<in> set (map unat bs). c \<noteq> BACKSPACE" by (auto simp: const_defs)
  have g: "con_ok (io_cons w)" using assms by (simp add: io_inv_def)
  obtain c where "consputs (map unat bs) (io_cons w) = Inr c" "con_ok c" "uart_out c = uart_out (io_cons w) @ map (\<lambda>c. c mod 256) (map unat bs)"
    using consputs_ok [OF g nb] by blast
  then show ?thesis using assms unat_byte by (auto simp: cons_wr_def io_inv_def io_out_def io_pieces_def o_def mod_less)
qed

interpretation io: stdio pipe_rd cons_wr io_inv io_rest io_out
proof
  show "\<exists>bs w'. pipe_rd n w = ((int (length bs), bs), w') \<and> io_inv w' \<and> io_rest w = bs @ io_rest w' \<and> length bs \<le> n \<and> (bs = [] \<longrightarrow> io_rest w = [])"
    if "io_inv w" "0 < n" for w n
  proof -
    note io = that
    obtain bs w' where r: "pipe_rd n w = ((int (length bs), bs), w')" "io_inv w'" "case io_pieces w of [] \<Rightarrow> bs = [] \<and> io_pieces w' = []
       | x # xs \<Rightarrow> bs = take n x \<and> io_pieces w' = filter (\<lambda>x. x \<noteq> []) (drop n x # xs)"
      using pipe_rd_ok [OF io(1), of n] by blast
    show ?thesis
    proof (cases "io_pieces w")
      case Nil
      then show ?thesis using r by (simp add: io_rest_def)
    next
      case (Cons x xs)
      then have "x \<noteq> []" using pieces_le [of "io_writes w" "io_pipe w" x] that(1) by (simp add: io_inv_def io_pieces_def)
      moreover have "io_rest w' = drop n x @ concat xs" using r(3) Cons by (simp only: io_rest_def list.case concat_filter) simp
      ultimately show ?thesis using r Cons that(2) by (simp add: io_rest_def)
    qed
  qed
  show "\<exists>w'. cons_wr bs w = (int (length bs), w') \<and> io_inv w' \<and> io_out w' = io_out w @ bs" if "io_inv w" for w bs
    using cons_wr_ok [OF that, of bs] by blast
  show "io_out w' = io_out w" if "io_inv w" "pipe_rd n w = (r, w')" for w w' n r
    using that by (auto simp: pipe_rd_def io_out_def split: prod.splits)
  show "io_rest w' = io_rest w" if "io_inv w" "cons_wr bs w = (r, w')" for w w' bs r
    using that by (auto simp: cons_wr_def io_rest_def io_pieces_def split: sum.splits)
qed

subsection \<open>Numerals\<close>

lemma i32_small: "0 \<le> x \<Longrightarrow> x < 2147483648 \<Longrightarrow> i32 x = x"
  by (simp add: i32_def s32_def)

text \<open>\<open>atoi\<close> on the digits of a number.\<close>

lemma atoi_digits:
  assumes "\<And>k. k < length ds \<Longrightarrow> s (i + k) = u_digit (ds ! k)" "\<forall>d \<in> set ds. d < 10" "\<not> (48 \<le> unat (s (i + length ds)) \<and> unat (s (i + length ds)) \<le> 57)"
    "foldl (\<lambda>a d. 10 * a + d) n ds < 2147483648"
  shows "u_atoi s i (int n) = Some (int (foldl (\<lambda>a d. 10 * a + d) n ds))"
  using assms
proof (induction ds arbitrary: i n)
  case Nil
  then show ?case by (subst u_atoi.simps) auto
next
  case (Cons d ds)
  have d: "d < 10" using Cons.prems(2) by simp
  have "u_digit d = word_of_nat (48 + d)" using d by (simp add: u_digit_def)
  then have u: "unat (u_digit d) = 48 + d" using d by (simp only: unat_of_nat) simp
  have s: "s i = u_digit d" using Cons.prems(1) [of 0] by simp
  have mono: "n \<le> foldl (\<lambda>a d. 10 * a + d) n ds" for n :: nat and ds
  proof (induction ds arbitrary: n)
    case (Cons e es)
    then show ?case using le_trans [OF _ Cons.IH [of "10 * n + e"]] by simp
  qed simp
  have "10 * n + d < 2147483648" using Cons.prems(4) mono [of "10 * n + d" ds] by simp
  then have w: "i32 (int n * 10 + int (48 + d) - 48) = int (10 * n + d)" by (subst i32_small) auto
  have "u_atoi s (Suc i) (int (10 * n + d)) = Some (int (foldl (\<lambda>a d. 10 * a + d) (10 * n + d) ds))"
  proof (rule Cons.IH)
    show "s (Suc i + k) = u_digit (ds ! k)" if "k < length ds" for k using Cons.prems(1) [of "Suc k"] that by simp
  qed (use Cons.prems in auto)
  then show ?case using w d by (subst u_atoi.simps) (simp only: s u, simp)
qed

lemma digits_foldl: "foldl (\<lambda>a d. 10 * a + d) 0 (rev (digits 10 x)) = x"
  by (simp add: foldl_conv_foldr digits_value)

text \<open>C23. What \<open>printf("%d")\<close> sends for an int that is not negative is a text that \<open>atoi\<close> reads back as that
  number. For a negative one, other than the least, \<open>atoi\<close> stops at the minus sign with 0, and reads what is
  behind it as the absolute value. Here the output is the console, whose serial line gets the text.\<close>

theorem printf_atoi:
  assumes "x < 4294967296" "x \<noteq> 2147483648" "io_inv w" "os_write os fd = cons_wr"
  shows "\<exists>w' t. u_printf os fd (lit ''%d'') [UWord x] w = Some (Val (), w') \<and> io_out w' = io_out w @ t \<and>
    (0 \<le> s32 x \<longrightarrow> u_atoi (str_block t) 0 0 = Some (s32 x)) \<and>
    (s32 x < 0 \<longrightarrow> hd t = 45 \<and> u_atoi (str_block t) 0 0 = Some 0 \<and> u_atoi (str_block t) 1 0 = Some (- s32 x))"
proof -
  define y where "y = (if x < 2147483648 then x else 4294967296 - x)"
  define m :: "byte list" where "m = (if x < 2147483648 then [] else [45])"
  have y: "y < 2147483648" using assms(1,2) by (auto simp: y_def)
  let ?ds = "rev (digits 10 y)"
  let ?t = "m @ map u_digit ?ds"
  have tx: "u_int_text x 10 True = ?t" by (simp add: u_int_text_def rev_map y_def m_def Let_def)
  obtain w' where w': "u_printf os fd [37, 100] [UWord x] w = Some (Val (), w')" "io_out w' = io_out w @ ?t"
    using io.snk.printf_d [OF assms(4,3), of x] tx by auto
  have "u_atoi (str_block ?t) (length m) (int 0) = Some (int (foldl (\<lambda>a d. 10 * a + d) 0 ?ds))"
    by (rule atoi_digits) (use y digits_less [of 10] digits_foldl [of y] in \<open>auto simp: str_block_def nth_append\<close>)
  then have a: "u_atoi (str_block ?t) (length m) 0 = Some (int y)" using digits_foldl [of y] by simp
  have "u_atoi (str_block ?t) 0 0 = Some 0" if "m = [45]" using that by (subst u_atoi.simps) (simp add: str_block_def)
  moreover have "lit ''%d'' = [37, 100]" by (simp add: lit_def)
  ultimately show ?thesis using w' a assms(1) by (intro exI [of _ w'] exI [of _ ?t]) (auto simp: s32_def y_def m_def split: if_splits)
qed

definition os_of :: "(nat \<Rightarrow> 'w \<Rightarrow> (int \<times> byte list) \<times> 'w) \<Rightarrow> (byte list \<Rightarrow> 'w \<Rightarrow> int \<times> 'w) \<Rightarrow> 'w os" where
  "os_of rd wr = \<lparr>os_read = (\<lambda>_. rd), os_write = (\<lambda>_. wr), os_open = (\<lambda>_ _ w. (-1, w)), os_close = (\<lambda>_ w. (0, w)),
     os_fstat = (\<lambda>_ w. ((-1, \<lparr>st_type = 0, st_dev = 0, st_ino = 0, st_nlink = 0, st_size = 0\<rparr>), w)), os_link = (\<lambda>_ _ w. (-1, w)),
     os_unlink = (\<lambda>_ w. (-1, w)), os_mkdir = (\<lambda>_ w. (-1, w)), os_mknod = (\<lambda>_ _ _ w. (-1, w)), os_chdir = (\<lambda>_ w. (-1, w)),
     os_dup = (\<lambda>_ w. (-1, w)), os_pipe = (\<lambda>w. ((-1, 0, 0), w)), os_kill = (\<lambda>_ w. (-1, w)), os_fork = (\<lambda>w. (-1, w)),
     os_wait = (\<lambda>w. (-1, w)), os_exec = (\<lambda>_ _ w. (-1, w)), os_sleep = (\<lambda>_ w. (0, w)), os_sbrk = (\<lambda>_ w. (-1, w))\<rparr>"

definition os0 :: "io os" where
  "os0 = os_of pipe_rd cons_wr"

text \<open>An empty pipe whose writer sends "one t" and "wo", the end of a line and "x", and an empty console.\<close>

definition io_of :: "byte list list \<Rightarrow> io" where
  "io_of ws = \<lparr>io_writes = ws, io_pipe = pipe_init (\<lambda>_. 0), io_cons = con0\<rparr>"

definition io0 :: io where
  "io0 = io_of [lit ''one t'', lit ''wo'' @ [10], lit ''x'']"

lemma io_of:
  assumes "\<forall>x \<in> set ws. length x \<le> PIPESIZE"
  shows "io_inv (io_of ws)" "io_pieces (io_of ws) = filter (\<lambda>x. x \<noteq> []) ws" "io_out (io_of ws) = []"
  using assms by (simp_all add: io_of_def io_inv_def feed_inv_def pinv_def pcount_def pipe_init_def sub32_def u32_def con0_def con_ok_def
    io_pieces_def pieces_def pqueue_def io_out_def const_defs)

lemma io0_inv: "io_inv io0" "io_rest io0 = lit ''one two'' @ [10] @ lit ''x''" "io_out io0 = []"
proof -
  have "\<forall>x \<in> set [lit ''one t'', lit ''wo'' @ [10], lit ''x'']. length x \<le> PIPESIZE" by (simp add: lit_def const_defs)
  note i = io_of [OF this]
  show "io_inv io0" "io_out io0 = []" using i by (simp_all add: io0_def)
  show "io_rest io0 = lit ''one two'' @ [10] @ lit ''x''" using i(2) by (simp add: io_rest_def io0_def lit_def)
qed

lemma os0_calls [simp]: "os_read os0 fd = pipe_rd" "os_write os0 fd = cons_wr"
  by (simp_all add: os0_def os_of_def)

theorem printf_atoi_witness:
  "(\<exists>w' t. u_printf os0 1 (lit ''%d'') [UWord 1024] io0 = Some (Val (), w') \<and> io_out w' = t \<and> u_atoi (str_block t) 0 0 = Some 1024) \<and>
   (\<exists>w' t. u_printf os0 1 (lit ''%d'') [UWord 4294967295] io0 = Some (Val (), w') \<and> io_out w' = t \<and> u_atoi (str_block t) 0 0 = Some 0 \<and>
      u_atoi (str_block t) 1 0 = Some 1)"
  using printf_atoi [of 1024 io0 os0 1] printf_atoi [of 4294967295 io0 os0 1] io0_inv by (auto simp: s32_def)

text \<open>C21. \<open>cat\<close> ends and copies its whole input to its output, however many writes of whatever sizes the
  writer of the pipe does: the pipe is read again until the writer has closed it.\<close>

theorem cat_copies:
  assumes "io_inv w" "os_read os fd = pipe_rd" "os_write os 1 = cons_wr"
  shows "\<exists>w'. cat os fd w = Some (Val (), w') \<and> io_rest w' = [] \<and> io_out w' = io_out w @ io_rest w"
  using io.cat_ok [OF assms(2,3,1)] by blast

theorem cat_copies_witness: "\<exists>w'. cat os0 0 io0 = Some (Val (), w') \<and> io_out w' = lit ''one two'' @ [10] @ lit ''x''"
  using cat_copies [of io0 os0 0] io0_inv by auto

text \<open>The numbers \<open>wc\<close> should print: newlines, maximal runs without white space, bytes.\<close>

definition is_space :: "byte \<Rightarrow> bool" where
  "is_space b \<longleftrightarrow> b \<in> {32, 13, 9, 10, 11}"

definition word_starts :: "byte list \<Rightarrow> nat" where
  "word_starts bs = card {i. i < length bs \<and> \<not> is_space (bs ! i) \<and> (i = 0 \<or> is_space (bs ! (i - 1)))}"

lemma word_starts_snoc:
  "word_starts (bs @ [b]) = word_starts bs + (if \<not> is_space b \<and> (bs = [] \<or> is_space (last bs)) then 1 else 0)"
proof -
  let ?S = "\<lambda>bs. {i. i < length bs \<and> \<not> is_space (bs ! i) \<and> (i = 0 \<or> is_space (bs ! (i - 1)))}"
  have l: "bs \<noteq> [] \<Longrightarrow> bs ! (length bs - 1) = last bs" by (simp add: last_conv_nth)
  have "?S (bs @ [b]) = ?S bs \<union> (if \<not> is_space b \<and> (bs = [] \<or> is_space (last bs)) then {length bs} else {})"
  proof (cases "bs = []")
    case False
    then show ?thesis using l by (auto simp: nth_append less_Suc_eq split: if_splits)
  qed auto
  moreover have "finite (?S bs)" "length bs \<notin> ?S bs" by auto
  ultimately show ?thesis by (simp add: word_starts_def)
qed

lemma word_starts_le: "word_starts bs \<le> length bs"
proof -
  have "word_starts bs \<le> card {i. i < length bs}" unfolding word_starts_def by (rule card_mono) auto
  then show ?thesis by simp
qed

lemma wc_byte_sel:
  "wc_l (wc_byte s b) = (if b = 10 then i32 (wc_l s + 1) else wc_l s)" "wc_c (wc_byte s b) = i32 (wc_c s + 1)"
  "wc_w (wc_byte s b) = (if \<not> is_space b \<and> \<not> wc_inword s then i32 (wc_w s + 1) else wc_w s)" "wc_inword (wc_byte s b) = (\<not> is_space b)"
  by (simp_all add: wc_byte_def Let_def is_space_def)

lemma wc_fold:
  assumes "length bs < 2147483648"
  shows "wc_l (foldl wc_byte wc0 bs) = int (count_list bs 10) \<and> wc_w (foldl wc_byte wc0 bs) = int (word_starts bs) \<and>
   wc_c (foldl wc_byte wc0 bs) = int (length bs) \<and> (wc_inword (foldl wc_byte wc0 bs) \<longleftrightarrow> bs \<noteq> [] \<and> \<not> is_space (last bs))"
  using assms
proof (induction bs rule: rev_induct)
  case Nil
  then show ?case by (simp add: wc0_def word_starts_def)
next
  case (snoc b bs)
  have inc: "i32 (int n + 1) = int (n + 1)" if "n \<le> length bs" for n using that snoc.prems by (subst i32_small) auto
  show ?case using snoc inc [OF count_le_length [of bs 10]] inc [OF word_starts_le] inc [of "length bs"]
    by (simp add: wc_byte_sel word_starts_snoc)
qed

text \<open>The decimal numeral of a number.\<close>

fun decimal :: "nat \<Rightarrow> byte list" where
  "decimal n = (if n < 10 then [] else decimal (n div 10)) @ [48 + word_of_nat (n mod 10)]"

declare decimal.simps [simp del]

lemma u_int_decimal: "n < 2147483648 \<Longrightarrow> u_int_text n 10 True = decimal n"
proof (induction n rule: decimal.induct)
  case (1 n)
  have d: "u_digit (n mod 10) = 48 + word_of_nat (n mod 10)" by (simp add: u_digit_def)
  have "n div 10 < 2147483648" using 1(2) by simp
  then show ?case using 1 d by (subst decimal.simps) (simp add: u_int_text_def digits.simps [of 10 n] div_eq_0_iff)
qed

text \<open>C22. \<open>wc\<close> ends and prints the numbers of newlines, of words (maximal runs of bytes that are not white
  space) and of bytes of its whole input as decimal numerals, with the name, however many writes the input
  comes in, if it is shorter than 2^31 bytes.\<close>

theorem wc_counts:
  assumes "io_inv w" "os_read os fd = pipe_rd" "os_write os 1 = cons_wr" "length (io_rest w) < 2147483648"
  shows "\<exists>w'. wc os fd name w = Some (Val (), w') \<and> io_rest w' = [] \<and>
    io_out w' = io_out w @ decimal (count_list (io_rest w) 10) @ [32] @ decimal (word_starts (io_rest w)) @ [32] @
      decimal (length (io_rest w)) @ [32] @ name @ [10]"
proof -
  define s where "s = foldl wc_byte wc0 (io_rest w)"
  have u: "u32_of (int n) = n" if "n \<le> length (io_rest w)" for n using that assms(4) by (simp add: u32_of_def nat_mod_distrib)
  have le: "count_list (io_rest w) 10 \<le> length (io_rest w)" "word_starts (io_rest w) \<le> length (io_rest w)"
    by (rule count_le_length, rule word_starts_le)
  have d: "u_int_text n 10 True = decimal n" if "n \<le> length (io_rest w)" for n using that assms(4) by (simp add: u_int_decimal)
  show ?thesis using io.wc_ok [OF assms(2,3,1) s_def, of name] wc_fold [OF assms(4)] u le d by (simp add: s_def)
qed

theorem wc_counts_witness: "\<exists>w'. wc os0 0 (lit ''f'') io0 = Some (Val (), w') \<and> io_out w' = lit ''1 3 9 f'' @ [10]"
proof -
  have b: "io_rest io0 = [111, 110, 101, 32, 116, 119, 111, 10, 120]" using io0_inv(2) by (simp add: lit_def)
  have "int (word_starts (io_rest io0)) = wc_w (foldl wc_byte wc0 (io_rest io0))" using wc_fold [of "io_rest io0"] b by simp
  then have "word_starts (io_rest io0) = 3" by (simp add: b wc_byte_def wc0_def i32_def s32_def)
  then show ?thesis using wc_counts [OF io0_inv(1), of os0 0 "lit ''f''"] io0_inv(3) b by (auto simp: decimal.simps lit_def)
qed

end
