(* ===== verification/Grep.thy ===== *)
theory Grep
  imports ProgProps
begin

section \<open>grep.c\<close>

text \<open>
  The matcher on C strings and the loop over the lines of the input. The matcher decides the language
  of its pattern; the loop prints the matching lines as long as each read brings a newline, and when a
  read brings none it drops the beginning of the line.
\<close>

subsection \<open>The matcher\<close>

text \<open>A zero is behind the end of each string.\<close>

function (sequential) matchhere :: "byte list \<Rightarrow> byte list \<Rightarrow> bool" and matchstar :: "byte \<Rightarrow> byte list \<Rightarrow> byte list \<Rightarrow> bool" where
  "matchhere [] text = True"
| "matchhere (c # re) text =
     (if re \<noteq> [] \<and> hd re = 42 then matchstar c (tl re) text
      else if c = 36 \<and> re = [] then text = []
      else (case text of [] \<Rightarrow> False | t # ts \<Rightarrow> if c = 46 \<or> c = t then matchhere re ts else False))"
| "matchstar c re text =
     (if matchhere re text then True
      else (case text of [] \<Rightarrow> False | t # ts \<Rightarrow> if t = c \<or> c = 46 then matchstar c re ts else False))"
  by pat_completeness auto
termination
  by (relation "measures [\<lambda>x. case x of Inl (re, t) \<Rightarrow> length re | Inr (c, re, t) \<Rightarrow> Suc (length re),
      \<lambda>x. case x of Inl (re, t) \<Rightarrow> length t | Inr (c, re, t) \<Rightarrow> length t]") (auto simp: neq_Nil_conv)

declare matchhere.simps(2) [simp del] matchstar.simps [simp del]

fun match_loop :: "byte list \<Rightarrow> byte list \<Rightarrow> bool" where
  "match_loop re [] = matchhere re []"
| "match_loop re (t # ts) = (if matchhere re (t # ts) then True else match_loop re ts)"

definition grep_match :: "byte list \<Rightarrow> byte list \<Rightarrow> bool" where
  "grep_match re text = (if re \<noteq> [] \<and> hd re = 94 then matchhere (tl re) text else match_loop re text)"

subsection \<open>The loop\<close>

text \<open>The lines in the buffer from \<open>p\<close> on: those written, and the position where the search for a newline
  fails. A zero in the data ends the search.\<close>

function grep_lines :: "byte list \<Rightarrow> byte list \<Rightarrow> byte list list \<times> byte list" where
  "grep_lines pat p =
     (if 10 \<in> set (takeWhile (\<lambda>c. c \<noteq> 0) p) then
        (let line = takeWhile (\<lambda>c. c \<noteq> 10) p; (out, q) = grep_lines pat (drop (length line + 1) p)
         in ((if grep_match pat line then [line @ [10]] else []) @ out, q))
      else ([], p))"
  by pat_completeness auto
termination
proof (relation "measure (length \<circ> snd)", goal_cases)
  case (2 pat p x)
  then have "p \<noteq> []" by auto
  then show ?case by simp
qed simp

declare grep_lines.simps [simp del]

fun write_all :: "'w os \<Rightarrow> byte list list \<Rightarrow> 'w \<Rightarrow> 'w" where
  "write_all os [] w = w"
| "write_all os (l # xs) w = write_all os xs (snd (os_write os 1 l w))"

text \<open>\<open>left\<close> are the \<open>m\<close> bytes kept in the buffer of 1024.\<close>

partial_function (option) grep :: "'w os \<Rightarrow> byte list \<Rightarrow> int \<Rightarrow> byte list \<Rightarrow> 'w \<Rightarrow> (unit uret \<times> 'w) option" where
  "grep os pat fd left w = (case os_read os fd (1023 - length left) w of ((n, bs), w) \<Rightarrow>
     if n > 0 then
       (case grep_lines pat (left @ bs) of (out, p) \<Rightarrow>
          grep os pat fd (if length p = length (left @ bs) then [] else p) (write_all os out w))
     else Some (Val (), w))"

definition grep_main :: "'w os \<Rightarrow> byte list list \<Rightarrow> ('w, unit) prog" where
  "grep_main os as = (case as of
     [] \<Rightarrow> pbind (u_printf os 2 (lit ''usage: grep pattern [file ...]'' @ [10]) []) (\<lambda>_. pexit)
   | [pat] \<Rightarrow> pbind (grep os pat 0 []) (\<lambda>_. pexit)
   | pat # files \<Rightarrow> files_main ''grep'' (\<lambda>fd _. grep os pat fd []) os files)"

subsection \<open>What the matcher decides\<close>

text \<open>\<open>accepts re u v\<close>: the pattern matches \<open>u\<close> in a text that goes on with \<open>v\<close>.\<close>

inductive accepts :: "byte list \<Rightarrow> byte list \<Rightarrow> byte list \<Rightarrow> bool" where
  acc_end: "accepts [] [] v"
| acc_star: "\<forall>x \<in> set w. c = 46 \<or> x = c \<Longrightarrow> accepts re u v \<Longrightarrow> accepts (c # 42 # re) (w @ u) v"
| acc_eol: "accepts [36] [] []"
| acc_one: "re = [] \<or> hd re \<noteq> 42 \<Longrightarrow> \<not> (c = 36 \<and> re = []) \<Longrightarrow> c = 46 \<or> c = x \<Longrightarrow> accepts re u v \<Longrightarrow> accepts (c # re) (x # u) v"

inductive_cases accepts_NilE: "accepts [] u v"
inductive_cases accepts_ConsE: "accepts (c # re) u v"

text \<open>Some prefix of the text is accepted.\<close>

definition here :: "byte list \<Rightarrow> byte list \<Rightarrow> bool" where
  "here re text \<longleftrightarrow> (\<exists>u v. text = u @ v \<and> accepts re u v)"

lemma hereI: "accepts re u v \<Longrightarrow> here re (u @ v)"
  by (auto simp: here_def)

lemma here_star: "here (c # 42 # re) text \<longleftrightarrow> (\<exists>w t. text = w @ t \<and> (\<forall>x \<in> set w. c = 46 \<or> x = c) \<and> here re t)"
proof
  assume "here (c # 42 # re) text"
  then obtain u v where t: "text = u @ v" and a: "accepts (c # 42 # re) u v" by (auto simp: here_def)
  from a show "\<exists>w t. text = w @ t \<and> (\<forall>x \<in> set w. c = 46 \<or> x = c) \<and> here re t"
  proof (cases rule: accepts.cases)
    case (acc_star w u')
    then show ?thesis using t hereI [of re u' v] by (intro exI [of _ w] exI [of _ "u' @ v"]) simp
  qed auto
next
  assume "\<exists>w t. text = w @ t \<and> (\<forall>x \<in> set w. c = 46 \<or> x = c) \<and> here re t"
  then obtain w u v where "text = w @ u @ v" "\<forall>x \<in> set w. c = 46 \<or> x = c" "accepts re u v" by (auto simp: here_def)
  then show "here (c # 42 # re) text" using hereI [OF acc_star, of w c re u v] by simp
qed

lemma here_one:
  assumes "re = [] \<or> hd re \<noteq> 42" "\<not> (c = 36 \<and> re = [])"
  shows "here (c # re) text \<longleftrightarrow> (\<exists>t ts. text = t # ts \<and> (c = 46 \<or> c = t) \<and> here re ts)"
proof
  assume "here (c # re) text"
  then obtain u v where t: "text = u @ v" and a: "accepts (c # re) u v" by (auto simp: here_def)
  from a show "\<exists>t ts. text = t # ts \<and> (c = 46 \<or> c = t) \<and> here re ts"
  proof (cases rule: accepts.cases)
    case (acc_one x u')
    then show ?thesis using t hereI [of re u' v] by simp
  qed (use assms in auto)
next
  assume "\<exists>t ts. text = t # ts \<and> (c = 46 \<or> c = t) \<and> here re ts"
  then obtain t u v where "text = t # u @ v" "c = 46 \<or> c = t" "accepts re u v" by (auto simp: here_def)
  then show "here (c # re) text" using hereI [OF acc_one [OF assms], of t u v] by simp
qed

lemma here_eol: "here [36] text \<longleftrightarrow> text = []"
  by (auto simp: here_def elim: accepts_ConsE intro: acc_eol)

lemma here_Nil: "here [] text"
  using hereI [OF acc_end] by simp

lemma here_star_step:
  "here (c # 42 # re) text \<longleftrightarrow> here re text \<or> (\<exists>t ts. text = t # ts \<and> (t = c \<or> c = 46) \<and> here (c # 42 # re) ts)"
proof -
  have "(\<exists>w t. text = w @ t \<and> (\<forall>x \<in> set w. c = 46 \<or> x = c) \<and> here re t) \<longleftrightarrow> here re text \<or>
    (\<exists>x ts. text = x # ts \<and> (x = c \<or> c = 46) \<and> (\<exists>w t. ts = w @ t \<and> (\<forall>x \<in> set w. c = 46 \<or> x = c) \<and> here re t))" (is "?l \<longleftrightarrow> ?r")
  proof
    assume ?l
    then obtain w t where "text = w @ t" "\<forall>x \<in> set w. c = 46 \<or> x = c" "here re t" by blast
    then show ?r by (cases w) auto
  next
    assume ?r
    then show ?l
    proof
      assume "here re text"
      then show ?l by (intro exI [of _ "[]"] exI [of _ "text"]) simp
    next
      assume "\<exists>x ts. text = x # ts \<and> (x = c \<or> c = 46) \<and> (\<exists>w t. ts = w @ t \<and> (\<forall>x \<in> set w. c = 46 \<or> x = c) \<and> here re t)"
      then obtain x w t where "text = (x # w) @ t" "x = c \<or> c = 46" "\<forall>x \<in> set w. c = 46 \<or> x = c" "here re t" by auto
      then show ?l by (intro exI [of _ "x # w"] exI [of _ t]) auto
    qed
  qed
  then show ?thesis unfolding here_star .
qed

lemma matcher_here:
  "matchhere re text \<longleftrightarrow> here re text"
  "matchstar c re text \<longleftrightarrow> here (c # 42 # re) text"
proof (induction re "text" and c re "text" rule: matchhere_matchstar.induct)
  case (2 c re tx)
  note IH = 2
  consider (star) "re \<noteq> [] \<and> hd re = 42" | (eol) "\<not> (re \<noteq> [] \<and> hd re = 42)" "c = 36 \<and> re = []"
    | (one) "\<not> (re \<noteq> [] \<and> hd re = 42)" "\<not> (c = 36 \<and> re = [])" by blast
  then show ?case
  proof cases
    case star
    then have "c # 42 # tl re = c # re" by (cases re) auto
    then show ?thesis using star IH(1) by (simp add: matchhere.simps(2))
  next
    case eol
    then show ?thesis by (auto simp: here_eol matchhere.simps(2))
  next
    case one
    then have e: "here (c # re) tx \<longleftrightarrow> (\<exists>t ts. tx = t # ts \<and> (c = 46 \<or> c = t) \<and> here re ts)" by (intro here_one) auto
    show ?thesis unfolding e matchhere.simps(2) [of c re] using one IH(2) by (auto split: list.splits)
  qed
next
  case (3 c re tx)
  then show ?case unfolding here_star_step [of c re tx] matchstar.simps [of c re tx] by (auto split: list.splits)
qed (simp add: here_Nil)

text \<open>C24. The matcher decides the language of its pattern. A pattern is a sequence of single characters,
  where a dot stands for any character, a star after a character for any number of it, and a dollar
  sign at the very end for the end of the text; \<open>matchhere\<close> says whether some prefix of the text is in
  it, and \<open>match\<close> whether some part of the text is, or a prefix if the pattern begins with a caret.\<close>

theorem grep_match_language:
  "grep_match re text \<longleftrightarrow>
     (if re \<noteq> [] \<and> hd re = 94 then (\<exists>u v. text = u @ v \<and> accepts (tl re) u v)
      else (\<exists>s u v. text = s @ u @ v \<and> accepts re u v))"
proof -
  have "match_loop re text \<longleftrightarrow> (\<exists>s t. text = s @ t \<and> here re t)"
  proof (induction "text")
    case Nil
    then show ?case by (simp add: matcher_here)
  next
    case (Cons a tx)
    have "(\<exists>s t. a # tx = s @ t \<and> here re t) \<longleftrightarrow> here re (a # tx) \<or> (\<exists>s t. tx = s @ t \<and> here re t)"
      by (auto simp: Cons_eq_append_conv)
    then show ?case using Cons by (simp add: matcher_here)
  qed
  then show ?thesis by (auto simp: grep_match_def matcher_here here_def)
qed

subsection \<open>What the loop prints\<close>

definition unlines :: "byte list list \<Rightarrow> byte list" where
  "unlines xs = concat (map (\<lambda>l. l @ [10]) xs)"

text \<open>A line as the search sees it: no newline and no zero in it.\<close>

definition line_ok :: "byte list \<Rightarrow> bool" where
  "line_ok l \<longleftrightarrow> 10 \<notin> set l \<and> 0 \<notin> set l"

lemma grep_lines_ok:
  assumes "\<forall>l \<in> set xs. line_ok l" "line_ok r"
  shows "grep_lines pat (unlines xs @ r) = (map (\<lambda>l. l @ [10]) (filter (grep_match pat) xs), r)"
  using assms(1)
proof (induction xs)
  case Nil
  have "10 \<notin> set (takeWhile (\<lambda>c. c \<noteq> 0) r)" using assms(2) by (auto simp: line_ok_def dest: set_takeWhileD)
  then show ?case by (subst grep_lines.simps) (simp add: unlines_def)
next
  case (Cons l xs)
  have l: "10 \<notin> set l" "0 \<notin> set l" using Cons.prems by (auto simp: line_ok_def)
  let ?p = "unlines (l # xs) @ r"
  have p: "?p = l @ 10 # (unlines xs @ r)" by (simp add: unlines_def)
  have ne: "\<forall>x \<in> set l. x \<noteq> 10" "\<forall>x \<in> set l. x \<noteq> 0" using l by auto
  have tw: "takeWhile (\<lambda>c. c \<noteq> 10) ?p = l" using ne(1) by (simp add: p takeWhile_append2)
  have dr: "drop (length l + 1) ?p = unlines xs @ r" by (simp add: p)
  have "10 \<in> set (takeWhile (\<lambda>c. c \<noteq> 0) ?p)" using ne(2) by (simp add: p takeWhile_append2)
  then show ?case using Cons.IH Cons.prems by (subst grep_lines.simps) (simp only: tw dr Let_def, simp)
qed

lemma write_all_io:
  assumes "io_inv w" "os_write os 1 = cons_wr"
  shows "io_inv (write_all os xs w) \<and> io_out (write_all os xs w) = io_out w @ concat xs \<and> io_pieces (write_all os xs w) = io_pieces w"
  using assms(1)
proof (induction xs arbitrary: w)
  case (Cons x xs)
  obtain v where "cons_wr x w = (int (length x), v)" "io_inv v" "io_out v = io_out w @ x" "io_pieces v = io_pieces w"
    using cons_wr_ok [OF Cons.prems, of x] by blast
  then show ?case using Cons.IH [of v] assms(2) by simp
qed simp

text \<open>A read with room for a full pipe gets the next piece whole.\<close>

lemma pipe_rd_piece:
  assumes "io_inv w" "512 \<le> n"
  shows "io_pieces w = [] \<Longrightarrow> \<exists>v. pipe_rd n w = ((0, []), v) \<and> io_out v = io_out w"
    "io_pieces w = x # xs \<Longrightarrow> \<exists>v. pipe_rd n w = ((int (length x), x), v) \<and> io_inv v \<and> io_pieces v = xs \<and> io_out v = io_out w \<and>
       x \<noteq> [] \<and> length x \<le> 512"
proof -
  show "\<exists>v. pipe_rd n w = ((0, []), v) \<and> io_out v = io_out w" if "io_pieces w = []"
    using pipe_rd_ok [OF assms(1), of n] that by auto
  show "\<exists>v. pipe_rd n w = ((int (length x), x), v) \<and> io_inv v \<and> io_pieces v = xs \<and> io_out v = io_out w \<and> x \<noteq> [] \<and> length x \<le> 512"
    if p: "io_pieces w = x # xs"
  proof -
    have x: "x \<noteq> []" "length x \<le> 512"
      using pieces_le [of "io_writes w" "io_pipe w" x] p assms(1) by (auto simp: io_inv_def io_pieces_def const_defs)
    then show ?thesis using pipe_rd_ok [OF assms(1), of n] p io_pieces_id [OF p] assms(2) by auto
  qed
qed

text \<open>One turn of the loop: the complete lines of what is kept and what is read are looked at, and the rest is
  kept if there was a line.\<close>

lemma grep_turn:
  assumes "io_inv w" "os_read os fd = pipe_rd" "os_write os 1 = cons_wr" "io_pieces w = x # ps" "length left \<le> 511"
    "left @ x = unlines ys @ r" "\<forall>l \<in> set ys. line_ok l" "line_ok r"
  shows "\<exists>v. grep os pat fd left w = grep os pat fd (if ys = [] then [] else r) v \<and> io_inv v \<and> io_pieces v = ps \<and>
    io_out v = io_out w @ unlines (filter (grep_match pat) ys)"
proof -
  let ?out = "map (\<lambda>l. l @ [10]) (filter (grep_match pat) ys)"
  have "512 \<le> 1023 - length left" using assms(5) by simp
  from pipe_rd_piece(2) [OF assms(1) this assms(4)] obtain u where
    u: "pipe_rd (1023 - length left) w = ((int (length x), x), u)" "io_inv u" "io_pieces u = ps" "io_out u = io_out w" "x \<noteq> []" by blast
  have e: "length r = length left + length x \<longleftrightarrow> ys = []"
    using arg_cong [OF assms(6), of length] by (cases ys) (auto simp: unlines_def)
  have "grep os pat fd left w = grep os pat fd (if ys = [] then [] else r) (write_all os ?out u)"
    using u(1,5) assms(2) e by (subst grep.simps) (simp add: assms(6) grep_lines_ok [OF assms(7,8)])
  then show ?thesis using write_all_io [OF u(2) assms(3), of ?out] u(3,4) by (auto simp: unlines_def)
qed

lemma split_lines: "0 \<notin> set bs \<Longrightarrow> \<exists>ys r. bs = unlines ys @ r \<and> (\<forall>l \<in> set ys. line_ok l) \<and> line_ok r"
proof (induction bs)
  case Nil
  then show ?case by (intro exI [of _ "[]"]) (simp add: unlines_def line_ok_def)
next
  case (Cons b bs)
  then obtain ys r where y: "bs = unlines ys @ r" "\<forall>l \<in> set ys. line_ok l" "line_ok r" by auto
  show ?case
  proof (cases "b = 10")
    case True
    then show ?thesis using y by (intro exI [of _ "[] # ys"] exI [of _ r]) (simp add: unlines_def line_ok_def)
  next
    case False
    show ?thesis
    proof (cases ys)
      case Nil
      then show ?thesis using y False Cons.prems by (intro exI [of _ "[]"] exI [of _ "b # r"]) (simp add: unlines_def line_ok_def)
    next
      case (Cons z zs)
      then show ?thesis using y False Cons.prems
        by (intro exI [of _ "(b # z) # zs"] exI [of _ r]) (auto simp: unlines_def line_ok_def)
    qed
  qed
qed

lemma unlines_app: "unlines (xs @ ys) = unlines xs @ unlines ys"
  by (simp add: unlines_def)

text \<open>The lines of a text begin with those of each prefix.\<close>

lemma unlines_prefix:
  assumes "unlines xs @ r = unlines ys @ t" "\<forall>l \<in> set xs. line_ok l" "\<forall>l \<in> set ys. line_ok l" "line_ok r"
  shows "\<exists>zs. xs = ys @ zs \<and> unlines zs @ r = t"
  using assms
proof (induction ys arbitrary: xs)
  case Nil
  then show ?case by (simp add: unlines_def)
next
  case (Cons y ys)
  show ?case
  proof (cases xs)
    case Nil
    then show ?thesis using Cons.prems(1,4) by (auto simp: unlines_def line_ok_def)
  next
    case (Cons x xs')
    have e: "x @ 10 # (unlines xs' @ r) = y @ 10 # (unlines ys @ t)" using Cons.prems(1) Cons by (simp add: unlines_def)
    have n: "10 \<notin> set x" "10 \<notin> set y" using Cons.prems(2,3) Cons by (auto simp: line_ok_def)
    have tw: "takeWhile (\<lambda>c. c \<noteq> 10) (z @ 10 # u) = z" if "10 \<notin> set z" for z u :: "byte list"
      using that by (induction z) auto
    have "x = y" using arg_cong [OF e, of "takeWhile (\<lambda>c. c \<noteq> 10)"] tw [OF n(1)] tw [OF n(2)] by simp
    then show ?thesis using e Cons Cons.IH [of xs'] Cons.prems by auto
  qed
qed

lemma unlines_newline: "10 \<in> set (unlines ys @ r) \<Longrightarrow> line_ok r \<Longrightarrow> ys \<noteq> []"
  by (auto simp: unlines_def line_ok_def)

lemma kept_less:
  assumes "left @ x = unlines ys @ r" "line_ok left" "ys \<noteq> []"
  shows "length r < length x"
proof (rule ccontr)
  assume "\<not> length r < length x"
  moreover have "length left + length x = length (unlines ys) + length r" using arg_cong [OF assms(1), of length] by simp
  ultimately have "length (unlines ys) \<le> length left" by simp
  then have "unlines ys = take (length (unlines ys)) left" using arg_cong [OF assms(1), of "take (length (unlines ys))"] by simp
  then have "set (unlines ys) \<subseteq> set left" by (metis set_take_subset)
  moreover have "10 \<in> set (unlines ys)" using assms(3) by (cases ys) (auto simp: unlines_def)
  ultimately show False using assms(2) by (auto simp: line_ok_def)
qed

lemma grep_loop_ok:
  assumes "io_inv w" "os_read os fd = pipe_rd" "os_write os 1 = cons_wr"
    "line_ok left" "length left \<le> 511" "left @ io_rest w = unlines xs @ r" "\<forall>l \<in> set xs. line_ok l" "line_ok r"
    "\<forall>x \<in> set (butlast (io_pieces w)). 10 \<in> set x"
  shows "\<exists>w'. grep os pat fd left w = Some (Val (), w') \<and> io_out w' = io_out w @ unlines (filter (grep_match pat) xs)"
  using assms
proof (induction "io_pieces w" arbitrary: w left xs r)
  case Nil
  have "512 \<le> 1023 - length left" using Nil.prems(5) by simp
  then obtain v where "pipe_rd (1023 - length left) w = ((0, []), v)" "io_out v = io_out w"
    using pipe_rd_piece(1) [OF Nil.prems(1)] Nil.hyps by metis
  moreover have "xs = []" using Nil unlines_newline [of xs r] by (cases xs) (auto simp: io_rest_def line_ok_def unlines_def)
  ultimately show ?case using Nil.prems(2) by (subst grep.simps) (simp add: unlines_def)
next
  case (Cons x ps)
  note pc = Cons.hyps(2) [symmetric]
  have all: "left @ x @ concat ps = unlines xs @ r" using Cons.prems(6) pc by (simp add: io_rest_def)
  have "0 \<notin> set (unlines xs @ r)" using Cons.prems(7,8) by (auto simp: unlines_def line_ok_def)
  then have "0 \<notin> set (left @ x)" using all by (metis UnCI append.assoc set_append)
  then obtain ys r1 where y: "left @ x = unlines ys @ r1" "\<forall>l \<in> set ys. line_ok l" "line_ok r1" using split_lines by blast
  have "unlines xs @ r = unlines ys @ (r1 @ concat ps)" using all y(1) by (metis append.assoc)
  then obtain zs where z: "xs = ys @ zs" "unlines zs @ r = r1 @ concat ps"
    using unlines_prefix [OF _ Cons.prems(7) y(2) Cons.prems(8)] by blast
  let ?l = "if ys = [] then [] else r1"
  obtain v where v: "grep os pat fd left w = grep os pat fd ?l v" "io_inv v" "io_pieces v = ps"
      "io_out v = io_out w @ unlines (filter (grep_match pat) ys)"
    using grep_turn [OF Cons.prems(1-3) pc Cons.prems(5) y, of pat] by blast
  have nl: "ps \<noteq> [] \<Longrightarrow> 10 \<in> set x" using Cons.prems(9) pc by auto
  have lx: "length x \<le> 512" using pipe_rd_piece(2) [OF Cons.prems(1) _ pc, of 512] by auto
  have l: "line_ok ?l" "length ?l \<le> 511" using y(3) kept_less [OF y(1) Cons.prems(4)] lx by (auto simp: line_ok_def)
  have "\<exists>w'. grep os pat fd ?l v = Some (Val (), w') \<and> io_out w' = io_out v @ unlines (filter (grep_match pat) zs)"
  proof (cases "ps = []")
    case True
    have "zs = []" using z(2) True y(3) unlines_newline [of zs r] by (cases zs) (auto simp: unlines_def line_ok_def)
    then show ?thesis
      using Cons.hyps(1) [of v ?l "[]" ?l] v(2,3) Cons.prems(2,3) l True by (simp add: io_rest_def unlines_def)
  next
    case False
    then have "ys \<noteq> []" using nl unlines_newline [of ys r1] y by (metis UnCI set_append)
    then show ?thesis
      using Cons.hyps(1) [of v r1 zs r] v(2,3) Cons.prems l False z pc by (simp add: io_rest_def)
  qed
  then show ?case using v(1,4) z(1) by (auto simp: unlines_app)
qed

text \<open>C25. If the input has no zero bytes and each piece that a read of the pipe gets, but the last, has a
  newline in it, \<open>grep\<close> ends and prints the lines of the input that match, in their order and complete.
  Bytes behind the last newline are not looked at.\<close>

theorem grep_prints_matches:
  assumes "io_inv w" "os_read os fd = pipe_rd" "os_write os 1 = cons_wr"
    "io_rest w = unlines xs @ r" "\<forall>l \<in> set xs. line_ok l" "line_ok r" "\<forall>x \<in> set (butlast (io_pieces w)). 10 \<in> set x"
  shows "\<exists>w'. grep os pat fd [] w = Some (Val (), w') \<and> io_out w' = io_out w @ unlines (filter (grep_match pat) xs)"
  by (rule grep_loop_ok [OF assms(1-3)]) (use assms in \<open>auto simp: line_ok_def\<close>)

text \<open>Two lines and the beginning of a third; the second line comes in two pieces.\<close>

definition io_lines :: io where
  "io_lines = io_of [lit ''ab'' @ [10] @ lit ''c'', lit ''a'' @ [10] @ lit ''b'']"

lemma match_eval:
  "grep_match [97] [97, 98]" "grep_match [97] [99, 97]" "grep_match [98] [97, 98]" "\<not> grep_match [98] [99, 97]"
  "\<not> grep_match [97, 98] [98]" "grep_match [97, 98] [97, 98]" "grep_match [98] [98]"
  by (simp_all add: grep_match_def matchhere.simps)

theorem grep_prints_matches_witness:
  "(\<exists>w'. grep os0 (lit ''a'') 0 [] io_lines = Some (Val (), w') \<and> io_out w' = lit ''ab'' @ [10] @ lit ''ca'' @ [10]) \<and>
   (\<exists>w'. grep os0 (lit ''b'') 0 [] io_lines = Some (Val (), w') \<and> io_out w' = lit ''ab'' @ [10])"
proof -
  have i: "io_inv io_lines" "io_pieces io_lines = [lit ''ab'' @ [10] @ lit ''c'', lit ''a'' @ [10] @ lit ''b'']" "io_out io_lines = []"
    using io_of [of "[lit ''ab'' @ [10] @ lit ''c'', lit ''a'' @ [10] @ lit ''b'']"] by (simp_all add: io_lines_def lit_def const_defs)
  have r: "io_rest io_lines = unlines [lit ''ab'', lit ''ca''] @ lit ''b''" using i(2) by (simp add: io_rest_def unlines_def lit_def)
  have "\<forall>l \<in> set [lit ''ab'', lit ''ca'']. line_ok l" "line_ok (lit ''b'')" "\<forall>x \<in> set (butlast (io_pieces io_lines)). 10 \<in> set x"
    using i(2) by (simp_all add: line_ok_def lit_def)
  note g = grep_prints_matches [OF i(1) _ _ r this, of os0 0]
  show ?thesis using g [of "lit ''a''"] g [of "lit ''b''"] i(3) by (simp add: lit_def match_eval unlines_def)
qed

subsection \<open>Lines that a read ends in\<close>

text \<open>C26. When a read brings no newline, \<open>grep\<close> drops what it has of the line: the bytes kept from the read
  before and those of this one. The line they begin is then matched, and printed, without them, whatever
  the pattern; the lines behind it are not affected, as long as each further read but the last has a newline.\<close>

theorem grep_loses_split_line:
  assumes "io_inv w" "os_read os fd = pipe_rd" "os_write os 1 = cons_wr" "length left \<le> 511" "line_ok left"
    "io_pieces w = a # ps" "line_ok a" "concat ps = unlines (l # xs) @ r" "\<forall>y \<in> set (l # xs). line_ok y" "line_ok r"
    "\<forall>x \<in> set (butlast ps). 10 \<in> set x"
  shows "left @ io_rest w = unlines ((left @ a @ l) # xs) @ r \<and>
    (\<exists>w'. grep os pat fd left w = Some (Val (), w') \<and> io_out w' = io_out w @ unlines (filter (grep_match pat) (l # xs)))"
proof
  show "left @ io_rest w = unlines ((left @ a @ l) # xs) @ r" using assms(6,8) by (simp add: io_rest_def unlines_def)
  have "left @ a = unlines [] @ (left @ a)" "line_ok (left @ a)" using assms(5,7) by (auto simp: unlines_def line_ok_def)
  from grep_turn [OF assms(1-3,6,4) this(1) _ this(2), of pat] obtain v where
    v: "grep os pat fd left w = grep os pat fd [] v" "io_inv v" "io_pieces v = ps" "io_out v = io_out w" by (auto simp: unlines_def)
  have "\<exists>w'. grep os pat fd [] v = Some (Val (), w') \<and> io_out w' = io_out v @ unlines (filter (grep_match pat) (l # xs))"
    by (rule grep_loop_ok [OF v(2) assms(2,3), of "[]" "l # xs" r]) (use assms(8-11) v(3) in \<open>auto simp: line_ok_def io_rest_def\<close>)
  then show "\<exists>w'. grep os pat fd left w = Some (Val (), w') \<and> io_out w' = io_out w @ unlines (filter (grep_match pat) (l # xs))"
    using v(1,4) by simp
qed

text \<open>The line "ab" in the pieces "a" and "b" with its newline.\<close>

theorem grep_loses_split_line_witness:
  "grep_match (lit ''ab'') (lit ''ab'') \<and>
   (\<exists>w'. grep os0 (lit ''ab'') 0 [] (io_of [lit ''a'', lit ''b'' @ [10]]) = Some (Val (), w') \<and> io_out w' = []) \<and>
   (\<exists>w'. grep os0 (lit ''b'') 0 [] (io_of [lit ''a'', lit ''b'' @ [10]]) = Some (Val (), w') \<and> io_out w' = lit ''b'' @ [10])"
proof -
  let ?w = "io_of [lit ''a'', lit ''b'' @ [10]]"
  have i: "io_inv ?w" "io_pieces ?w = lit ''a'' # [lit ''b'' @ [10]]" "io_out ?w = []"
    using io_of [of "[lit ''a'', lit ''b'' @ [10]]"] by (simp_all add: lit_def const_defs)
  have "line_ok (lit ''a'')" "concat [lit ''b'' @ [10]] = unlines [lit ''b''] @ []" "\<forall>y \<in> set [lit ''b'']. line_ok y" "line_ok []"
    "\<forall>x \<in> set (butlast [lit ''b'' @ [10]]). 10 \<in> set x" by (simp_all add: line_ok_def lit_def unlines_def)
  note g = grep_loses_split_line [OF i(1) _ _ _ _ i(2) this, of os0 0 "[]"]
  show ?thesis using g [of "lit ''ab''"] g [of "lit ''b''"] i(3) by (simp add: lit_def match_eval unlines_def line_ok_def)
qed

end
