(* ===== verification/Sh.thy ===== *)
theory Sh
  imports Progs
begin

section \<open>The shell (sh.c)\<close>

text \<open>
  The parser and the interpreter of commands. A pointer into the line is the rest of the line from there
  on, and a token is the pair of pointers to its start and behind its end. The parsers call each other
  with a bound on the depth of calls; None means that it is too small, and \<open>parsecmd\<close> gives one that is
  enough for every line. \<open>malloc\<close> is taken to succeed (the code does not check it).
\<close>

subsection \<open>Commands\<close>

definition MAXARGS :: nat where [const_defs]: "MAXARGS = 10"

datatype 't cmd = Exec "'t list" | Redir "'t cmd" 't nat nat | Pipe "'t cmd" "'t cmd" | List "'t cmd" "'t cmd" | Back "'t cmd"

type_synonym token = "byte list \<times> byte list"

definition O_CREAT_WRONLY :: nat where
  "O_CREAT_WRONLY = 0x201"

subsection \<open>Tokens\<close>

definition is_ws :: "byte \<Rightarrow> bool" where
  "is_ws c \<longleftrightarrow> c \<in> {32, 9, 13, 10, 11}"

definition is_sym :: "byte \<Rightarrow> bool" where
  "is_sym c \<longleftrightarrow> c \<in> {60, 124, 62, 38, 59, 40, 41}"

definition skip_ws :: "byte list \<Rightarrow> byte list" where
  "skip_ws s = dropWhile is_ws s"

definition chr_at :: "byte list \<Rightarrow> byte" where
  "chr_at s = (case s of [] \<Rightarrow> 0 | c # _ \<Rightarrow> c)"

text \<open>The kind of the token (0 at the end, the letter a for a word, + for two angle brackets), the token, and
  the rest behind the white space after it.\<close>

definition gettoken :: "byte list \<Rightarrow> byte \<times> token \<times> byte list" where
  "gettoken ps =
     (let s = skip_ws ps; c = chr_at s;
          (ret, e) = (if c = 0 then (0, s)
            else if c \<in> {124, 40, 41, 59, 38, 60} then (c, tl s)
            else if c = 62 then (if chr_at (tl s) = 62 then (43, tl (tl s)) else (62, tl s))
            else (97, dropWhile (\<lambda>c. \<not> is_ws c \<and> \<not> is_sym c) s))
      in (ret, (s, e), skip_ws e))"

definition peek :: "byte list \<Rightarrow> byte list \<Rightarrow> bool" where
  "peek ps toks \<longleftrightarrow> chr_at (skip_ws ps) \<noteq> 0 \<and> chr_at (skip_ws ps) \<in> set toks"

definition tok_rest :: "byte list \<Rightarrow> byte list" where
  "tok_rest ps = snd (snd (gettoken ps))"

lemma skip_len: "length (skip_ws s) \<le> length s"
  by (simp add: skip_ws_def length_dropWhile_le)

lemma gettoken_len:
  assumes "gettoken ps = (tok, q, r)"
  shows "length r \<le> length ps" "tok \<noteq> 0 \<Longrightarrow> length r < length ps"
proof -
  define s where "s = skip_ws ps"
  obtain e where e: "r = skip_ws e" "length e \<le> length s" "tok \<noteq> 0 \<longrightarrow> length e < length s"
  proof (cases s)
    case Nil
    then show thesis using assms that by (auto simp: gettoken_def s_def [symmetric] chr_at_def Let_def)
  next
    case (Cons c s')
    have "length (dropWhile (\<lambda>c. \<not> is_ws c \<and> \<not> is_sym c) s) < length s" if "c \<noteq> 0" "c \<notin> {124, 40, 41, 59, 38, 60, 62}"
    proof -
      have "\<not> is_ws c" using hd_dropWhile [of is_ws ps] Cons unfolding s_def skip_ws_def by (metis list.distinct(1) list.sel(1))
      moreover have "\<not> is_sym c" using that by (simp add: is_sym_def)
      ultimately show ?thesis using Cons by (simp add: le_imp_less_Suc length_dropWhile_le)
    qed
    then show thesis using assms that Cons
      by (auto simp: gettoken_def s_def [symmetric] chr_at_def Let_def length_dropWhile_le split: if_splits list.splits)
  qed
  then show "length r \<le> length ps" "tok \<noteq> 0 \<Longrightarrow> length r < length ps"
    using skip_len [of e] skip_len [of ps] by (auto simp: s_def)
qed

lemma peek_tok: "peek ps ts \<Longrightarrow> gettoken ps = (tok, q, r) \<Longrightarrow> tok \<noteq> 0"
  by (auto simp: peek_def gettoken_def Let_def split: if_splits)

subsection \<open>The parser\<close>

text \<open>The redirections at \<open>ps\<close>, in their order; \<open>wrap\<close> puts them around a command.\<close>

function parseredirs :: "byte list \<Rightarrow> string + (token \<times> nat \<times> nat) list \<times> byte list" where
  "parseredirs ps =
     (if \<not> peek ps [60, 62] then Inr ([], skip_ws ps)
      else case gettoken ps of (tok, _, r) \<Rightarrow> case gettoken r of (tok2, f, r2) \<Rightarrow>
        if tok2 \<noteq> 97 then Inl ''missing file for redirection''
        else case parseredirs r2 of
          Inl e \<Rightarrow> Inl e
        | Inr (rs, r3) \<Rightarrow> Inr ((f, if tok = 60 then (0, 0) else (O_CREAT_WRONLY, 1)) # rs, r3))"
  by pat_completeness auto
termination
proof (relation "measure length", goal_cases)
  case (2 ps tok x q r tok2 y f r2)
  have g: "gettoken ps = (tok, q, r)" "gettoken r = (tok2, f, r2)" using 2 by auto
  have "tok \<noteq> 0" using peek_tok [OF _ g(1)] 2(1) by auto
  then show ?case using gettoken_len(2) [OF g(1)] gettoken_len(1) [OF g(2)] by simp
qed simp

declare parseredirs.simps [simp del]

lemma parseredirs_len: "parseredirs ps = Inr (rs, r) \<Longrightarrow> length r \<le> length ps"
proof (induction ps arbitrary: rs r rule: parseredirs.induct)
  case (1 ps)
  show ?case
  proof (cases "peek ps [60, 62]")
    case False
    then show ?thesis using 1(2) skip_len by (subst (asm) parseredirs.simps) auto
  next
    case True
    obtain tok q r1 where g1: "gettoken ps = (tok, q, r1)" by (cases "gettoken ps")
    obtain tok2 f r2 where g2: "gettoken r1 = (tok2, f, r2)" by (cases "gettoken r1")
    obtain rs' where "parseredirs r2 = Inr (rs', r)" "tok2 = 97"
      using 1(2) True g1 g2 by (subst (asm) parseredirs.simps) (auto split: if_splits sum.splits)
    then show ?thesis using 1(1) [OF _ g1 [symmetric] refl g2 [symmetric] refl] True gettoken_len(1) [OF g1] gettoken_len(1) [OF g2] by fastforce
  qed
qed

definition wrap :: "'t cmd \<Rightarrow> ('t \<times> nat \<times> nat) list \<Rightarrow> 't cmd" where
  "wrap c rs = foldl (\<lambda>c (f, mode, fd). Redir c f mode fd) c rs"

text \<open>The words of a command from number \<open>argc\<close> on, and its redirections.\<close>

function parseargs :: "nat \<Rightarrow> byte list \<Rightarrow> string + token list \<times> (token \<times> nat \<times> nat) list \<times> byte list" where
  "parseargs argc ps =
     (if peek ps [124, 41, 38, 59] then Inr ([], [], skip_ws ps)
      else case gettoken ps of (tok, q, r) \<Rightarrow>
        if tok = 0 then Inr ([], [], r)
        else if tok \<noteq> 97 then Inl ''syntax''
        else if argc + 1 \<ge> MAXARGS then Inl ''too many args''
        else case parseredirs r of
          Inl e \<Rightarrow> Inl e
        | Inr (rs, r2) \<Rightarrow>
            (case parseargs (argc + 1) r2 of
               Inl e \<Rightarrow> Inl e
             | Inr (as, rs', r3) \<Rightarrow> Inr (q # as, rs @ rs', r3)))"
  by pat_completeness auto
termination
proof (relation "measure (length \<circ> snd)", goal_cases)
  case (2 argc ps tok x q r y rs r2)
  have g: "gettoken ps = (tok, q, r)" "parseredirs r = Inr (rs, r2)" using 2 by auto
  then show ?case using gettoken_len(2) [OF g(1)] parseredirs_len [OF g(2)] 2(4) by simp
qed simp

declare parseargs.simps [simp del]

text \<open>The background signs at \<open>ps\<close>.\<close>

function parsebacks :: "token cmd \<Rightarrow> byte list \<Rightarrow> token cmd \<times> byte list" where
  "parsebacks c ps = (if peek ps [38] then parsebacks (Back c) (tok_rest ps) else (c, skip_ws ps))"
  by pat_completeness auto
termination
proof (relation "measure (length \<circ> snd)", goal_cases)
  case (2 c ps)
  then show ?case using gettoken_len(2) [of ps] peek_tok [of ps "[38]"] by (cases "gettoken ps") (auto simp: tok_rest_def)
qed simp

declare parsebacks.simps [simp del]

text \<open>The grammar. \<open>n\<close> bounds the depth of calls; \<open>parseblock\<close> is part of \<open>parseexec\<close>, its only caller.\<close>

fun parseline :: "nat \<Rightarrow> byte list \<Rightarrow> (string + token cmd \<times> byte list) option"
  and parsepipe :: "nat \<Rightarrow> byte list \<Rightarrow> (string + token cmd \<times> byte list) option"
  and parseexec :: "nat \<Rightarrow> byte list \<Rightarrow> (string + token cmd \<times> byte list) option" where
  "parseline 0 ps = None"
| "parseline (Suc n) ps = Option.bind (parsepipe n ps) (\<lambda>x. case x of
     Inl e \<Rightarrow> Some (Inl e)
   | Inr (c, r) \<Rightarrow> (case parsebacks c r of (c, r) \<Rightarrow>
       if peek r [59] then Option.bind (parseline n (tok_rest r)) (\<lambda>y. case y of
         Inl e \<Rightarrow> Some (Inl e) | Inr (d, r) \<Rightarrow> Some (Inr (List c d, r)))
       else Some (Inr (c, skip_ws r))))"
| "parsepipe 0 ps = None"
| "parsepipe (Suc n) ps = Option.bind (parseexec n ps) (\<lambda>x. case x of
     Inl e \<Rightarrow> Some (Inl e)
   | Inr (c, r) \<Rightarrow>
       if peek r [124] then Option.bind (parsepipe n (tok_rest r)) (\<lambda>y. case y of
         Inl e \<Rightarrow> Some (Inl e) | Inr (d, r) \<Rightarrow> Some (Inr (Pipe c d, r)))
       else Some (Inr (c, skip_ws r)))"
| "parseexec 0 ps = None"
| "parseexec (Suc n) ps =
     (if peek ps [40] then Option.bind (parseline n (tok_rest ps)) (\<lambda>x. case x of
        Inl e \<Rightarrow> Some (Inl e)
      | Inr (c, r) \<Rightarrow>
          if \<not> peek r [41] then Some (Inl ''syntax - missing )'')
          else (case parseredirs (tok_rest r) of
            Inl e \<Rightarrow> Some (Inl e) | Inr (rs, r) \<Rightarrow> Some (Inr (wrap c rs, r))))
      else (case parseredirs ps of
        Inl e \<Rightarrow> Some (Inl e)
      | Inr (rs, r) \<Rightarrow> (case parseargs 0 r of
          Inl e \<Rightarrow> Some (Inl e) | Inr (as, rs', r) \<Rightarrow> Some (Inr (wrap (Exec as) (rs @ rs'), r)))))"

text \<open>\<open>nulterminate\<close> writes a zero behind each token of the command; then each argument is the C string at the
  start of its token. \<open>n\<close> is the length of the line.\<close>

fun tokens :: "'t cmd \<Rightarrow> 't list" where
  "tokens (Exec as) = as"
| "tokens (Redir c f mode fd) = tokens c @ [f]"
| "tokens (Pipe c d) = tokens c @ tokens d"
| "tokens (List c d) = tokens c @ tokens d"
| "tokens (Back c) = tokens c"

definition nulterminate :: "token cmd \<Rightarrow> byte list \<Rightarrow> byte list" where
  "nulterminate c line = foldl (\<lambda>b (q, eq). b[length line - length eq := 0]) line (tokens c)"

definition string_at :: "byte list \<Rightarrow> token \<Rightarrow> byte list" where
  "string_at buf t = takeWhile (\<lambda>c. c \<noteq> 0) (drop (length buf - length (fst t)) buf)"

definition parse_fuel :: "byte list \<Rightarrow> nat" where
  "parse_fuel s = 3 * length s + 3"

text \<open>An error is a message, with what was left of the line if that was the reason.\<close>

definition parsecmd :: "byte list \<Rightarrow> (string \<times> byte list + byte list cmd) option" where
  "parsecmd s = Option.bind (parseline (parse_fuel s) s) (\<lambda>x. case x of
     Inl e \<Rightarrow> Some (Inl (e, []))
   | Inr (c, r) \<Rightarrow> if skip_ws r \<noteq> [] then Some (Inl (''syntax'', skip_ws r)) else Some (Inr (map_cmd (string_at (nulterminate c s)) c)))"

subsection \<open>Running commands\<close>

definition sh_panic :: "'w os \<Rightarrow> byte list \<Rightarrow> ('w, 'a) prog" where
  "sh_panic os s = pbind (u_printf os 2 (lit ''%s'' @ [10]) [UStr (Some s)]) (\<lambda>_. pexit)"

definition fork1 :: "'w os \<Rightarrow> ('w, int) prog" where
  "fork1 os = pbind (call (os_fork os)) (\<lambda>pid. if pid = -1 then sh_panic os (lit ''fork'') else pret pid)"

text \<open>\<open>runcmd\<close> ends the process in every case.\<close>

fun runcmd :: "'w os \<Rightarrow> byte list cmd \<Rightarrow> ('w, unit) prog" where
  "runcmd os (Exec as) = (case as of
     [] \<Rightarrow> pexit
   | a # _ \<Rightarrow> pbind (call (os_exec os a as)) (\<lambda>r.
       if r \<ge> 0 then pexit
       else pbind (u_printf os 2 (lit ''exec %s failed'' @ [10]) [UStr (Some a)]) (\<lambda>_. pexit)))"
| "runcmd os (Redir c f mode fd) =
     pbind (call (os_close os (int fd))) (\<lambda>_.
     pbind (call (os_open os f mode)) (\<lambda>r.
     if r < 0 then pbind (u_printf os 2 (lit ''open %s failed'' @ [10]) [UStr (Some f)]) (\<lambda>_. pexit)
     else runcmd os c))"
| "runcmd os (List c d) =
     pbind (fork1 os) (\<lambda>pid.
     if pid = 0 then runcmd os c
     else pbind (call (os_wait os)) (\<lambda>_. runcmd os d))"
| "runcmd os (Pipe c d) =
     pbind (call (os_pipe os)) (\<lambda>(r, p0, p1).
     if r < 0 then sh_panic os (lit ''pipe'')
     else pbind (fork1 os) (\<lambda>pid.
       if pid = 0 then
         pbind (call (os_close os 1)) (\<lambda>_.
         pbind (call (os_dup os p1)) (\<lambda>_.
         pbind (call (os_close os p0)) (\<lambda>_.
         pbind (call (os_close os p1)) (\<lambda>_.
         runcmd os c))))
       else pbind (fork1 os) (\<lambda>pid.
         if pid = 0 then
           pbind (call (os_close os 0)) (\<lambda>_.
           pbind (call (os_dup os p0)) (\<lambda>_.
           pbind (call (os_close os p0)) (\<lambda>_.
           pbind (call (os_close os p1)) (\<lambda>_.
           runcmd os d))))
         else
           pbind (call (os_close os p0)) (\<lambda>_.
           pbind (call (os_close os p1)) (\<lambda>_.
           pbind (call (os_wait os)) (\<lambda>_.
           pbind (call (os_wait os)) (\<lambda>_. pexit)))))))"
| "runcmd os (Back c) =
     pbind (fork1 os) (\<lambda>pid. if pid = 0 then runcmd os c else pexit)"

definition getcmd :: "'w os \<Rightarrow> ('w, int \<times> block) prog" where
  "getcmd os =
     pbind (u_printf os 2 (lit ''$ '') []) (\<lambda>_.
     pbind (u_gets os (\<lambda>_. 0) 100) (\<lambda>buf.
     pret (if buf 0 = 0 then -1 else 0, buf)))"

definition line_of :: "block \<Rightarrow> byte list" where
  "line_of buf = cstr buf 100"

text \<open>A child that parses and runs the line.\<close>

definition sh_child :: "'w os \<Rightarrow> byte list \<Rightarrow> ('w, unit) prog" where
  "sh_child os line = (case parsecmd line of
     None \<Rightarrow> (\<lambda>_. None)
   | Some (Inl (e, left)) \<Rightarrow>
       pbind (if left \<noteq> [] then u_printf os 2 (lit ''leftovers: %s'' @ [10]) [UStr (Some left)] else pret ()) (\<lambda>_.
       sh_panic os (lit e))
   | Some (Inr c) \<Rightarrow> runcmd os c)"

text \<open>A line \<open>cd dir\<close> is done by the shell itself; its last byte (the newline) is cut off.\<close>

definition sh_cd :: "'w os \<Rightarrow> byte list \<Rightarrow> ('w, unit) prog" where
  "sh_cd os line =
     (let dir = drop 3 (butlast line) in
      pbind (call (os_chdir os dir)) (\<lambda>r.
      if r < 0 then u_printf os 2 (lit ''cannot cd %s'' @ [10]) [UStr (Some dir)] else pret ()))"

partial_function (option) sh_loop :: "'w os \<Rightarrow> 'w \<Rightarrow> (unit uret \<times> 'w) option" where
  "sh_loop os w = Option.bind (getcmd os w) (\<lambda>r. case r of
     (Val (n, buf), w) \<Rightarrow>
       if n < 0 then Some (Exited, w)
       else if take 3 (line_of buf) = [99, 100, 32] then Option.bind (sh_cd os (line_of buf) w) (\<lambda>r. case r of
         (Val _, w) \<Rightarrow> sh_loop os w | (Exited, w) \<Rightarrow> Some (Exited, w) | (UFault, w) \<Rightarrow> Some (UFault, w))
       else Option.bind (fork1 os w) (\<lambda>r. case r of
         (Val pid, w) \<Rightarrow> if pid = 0 then sh_child os (line_of buf) w else (case os_wait os w of (_, w) \<Rightarrow> sh_loop os w)
       | (Exited, w) \<Rightarrow> Some (Exited, w) | (UFault, w) \<Rightarrow> Some (UFault, w))
   | (Exited, w) \<Rightarrow> Some (Exited, w) | (UFault, w) \<Rightarrow> Some (UFault, w))"

partial_function (option) sh_open :: "'w os \<Rightarrow> 'w \<Rightarrow> (unit uret \<times> 'w) option" where
  "sh_open os w = (case os_open os (lit ''console'') 2 w of (fd, w) \<Rightarrow>
     if fd < 0 then Some (Val (), w)
     else if fd \<ge> 3 then (case os_close os fd w of (_, w) \<Rightarrow> Some (Val (), w))
     else sh_open os w)"

definition sh_main :: "'w os \<Rightarrow> ('w, unit) prog" where
  "sh_main os = pbind (sh_open os) (\<lambda>_. sh_loop os)"

end
