(* ===== verification/ShProps.thy ===== *)
theory ShProps
  imports Sh "HOL-Library.Sublist"
begin

section \<open>The shell's parser\<close>

text \<open>
  The parser ends on every line; the strings that \<open>nulterminate\<close> leaves are the tokens; and every command,
  written out, is parsed back.
\<close>

subsection \<open>Termination\<close>

lemma tok_rest_len: "length (tok_rest ps) \<le> length ps" "peek ps ts \<Longrightarrow> length (tok_rest ps) < length ps"
proof -
  obtain tok q r where g: "gettoken ps = (tok, q, r)" by (cases "gettoken ps")
  show "length (tok_rest ps) \<le> length ps" using gettoken_len(1) [OF g] g by (simp add: tok_rest_def)
  show "length (tok_rest ps) < length ps" if "peek ps ts" using gettoken_len(2) [OF g] peek_tok [OF that g] g by (simp add: tok_rest_def)
qed

lemma parsebacks_len: "parsebacks c ps = (d, r) \<Longrightarrow> length r \<le> length ps"
proof (induction c ps arbitrary: d r rule: parsebacks.induct)
  case (1 c ps)
  show ?case
  proof (cases "peek ps [38]")
    case True
    then have "parsebacks (Back c) (tok_rest ps) = (d, r)" using 1(2) by (simp add: parsebacks.simps [of c ps])
    then show ?thesis using 1(1) [OF True] tok_rest_len(1) [of ps] by fastforce
  next
    case False
    then show ?thesis using 1(2) skip_len [of ps] by (auto simp: parsebacks.simps [of c ps])
  qed
qed

lemma parseargs_len: "parseargs argc ps = Inr (as, rs, r) \<Longrightarrow> length r \<le> length ps"
proof (induction argc ps arbitrary: as rs r rule: parseargs.induct)
  case (1 argc ps)
  obtain tok q r1 where g: "gettoken ps = (tok, q, r1)" by (cases "gettoken ps")
  note e = 1(2) [unfolded parseargs.simps [of argc ps] g, simplified]
  show ?case
  proof (cases "peek ps [124, 41, 38, 59] \<or> tok = 0")
    case True
    then show ?thesis using e skip_len [of ps] gettoken_len(1) [OF g] by (auto split: if_splits)
  next
    case False
    then obtain rs1 r2 as' rs' where p: "parseredirs r1 = Inr (rs1, r2)" "parseargs (argc + 1) r2 = Inr (as', rs', r)" "tok = 97" "\<not> argc + 1 \<ge> MAXARGS"
      using e by (auto split: if_splits sum.splits)
    show ?thesis using 1(1) [OF _ g [symmetric] refl _ _ _ p(1) refl p(2)] False p(3,4) parseredirs_len [OF p(1)] gettoken_len(1) [OF g] by simp
  qed
qed

lemma parse_len:
  "(parseline n ps = Some (Inr (c, r)) \<longrightarrow> length r \<le> length ps) \<and> (parsepipe n ps = Some (Inr (c, r)) \<longrightarrow> length r \<le> length ps) \<and>
   (parseexec n ps = Some (Inr (c, r)) \<longrightarrow> length r \<le> length ps)"
proof (induction n arbitrary: ps c r)
  case (Suc n)
  have L: "length r \<le> length ps" if "parseline n ps = Some (Inr (c, r))" for ps c r using Suc that by blast
  have P: "length r \<le> length ps" if "parsepipe n ps = Some (Inr (c, r))" for ps c r using Suc that by blast
  have E: "length r \<le> length ps" if "parseexec n ps = Some (Inr (c, r))" for ps c r using Suc that by blast
  have "length r \<le> length ps" if a: "parseline (Suc n) ps = Some (Inr (c, r))"
  proof -
    obtain c1 r1 where x1: "parsepipe n ps = Some (Inr (c1, r1))" using a by (cases "parsepipe n ps"; cases "the (parsepipe n ps)") auto
    obtain c2 r2 where x2: "parsebacks c1 r1 = (c2, r2)" by (cases "parsebacks c1 r1")
    have "peek r2 [59] \<and> (\<exists>d. parseline n (tok_rest r2) = Some (Inr (d, r))) \<or> r = skip_ws r2"
      using a x1 x2 by (cases "parseline n (tok_rest r2)"; cases "the (parseline n (tok_rest r2))") (auto split: if_splits)
    note x = x1 x2 this
    show ?thesis using x(3) L P [OF x(1)] parsebacks_len [OF x(2)] tok_rest_len(1) [of r2] skip_len [of r2] by fastforce
  qed
  moreover have "length r \<le> length ps" if a: "parsepipe (Suc n) ps = Some (Inr (c, r))"
  proof -
    obtain c1 r1 where x1: "parseexec n ps = Some (Inr (c1, r1))" using a by (cases "parseexec n ps"; cases "the (parseexec n ps)") auto
    have "(\<exists>d. parsepipe n (tok_rest r1) = Some (Inr (d, r))) \<or> r = skip_ws r1"
      using a x1 by (cases "parsepipe n (tok_rest r1)"; cases "the (parsepipe n (tok_rest r1))") (auto split: if_splits)
    note x = x1 this
    show ?thesis using x(2) P E [OF x(1)] tok_rest_len(1) [of r1] skip_len [of r1] by fastforce
  qed
  moreover have "length r \<le> length ps" if a: "parseexec (Suc n) ps = Some (Inr (c, r))"
  proof (cases "peek ps [40]")
    case True
    then obtain c1 r1 where x1: "parseline n (tok_rest ps) = Some (Inr (c1, r1))"
      using a by (cases "parseline n (tok_rest ps)"; cases "the (parseline n (tok_rest ps))") auto
    obtain rs where "parseredirs (tok_rest r1) = Inr (rs, r)" using a x1 True by (auto split: if_splits sum.splits)
    note x = x1 this
    show ?thesis using L [OF x(1)] parseredirs_len [OF x(2)] tok_rest_len(1) [of ps] tok_rest_len(1) [of r1] by linarith
  next
    case False
    then obtain rs r1 as rs' where x: "parseredirs ps = Inr (rs, r1)" "parseargs 0 r1 = Inr (as, rs', r)"
      using a by (auto split: sum.splits prod.splits)
    show ?thesis using parseredirs_len [OF x(1)] parseargs_len [OF x(2)] by linarith
  qed
  ultimately show ?case by blast
qed simp

lemma parse_enough:
  "(3 * length ps + 3 \<le> n \<longrightarrow> parseline n ps \<noteq> None) \<and> (3 * length ps + 2 \<le> n \<longrightarrow> parsepipe n ps \<noteq> None) \<and>
   (3 * length ps + 1 \<le> n \<longrightarrow> parseexec n ps \<noteq> None)"
proof (induction n arbitrary: ps)
  case (Suc n)
  have L: "parseline n ps \<noteq> None" if "3 * length ps + 3 \<le> n" for ps using Suc that by blast
  have P: "parsepipe n ps \<noteq> None" if "3 * length ps + 2 \<le> n" for ps using Suc that by blast
  have E: "parseexec n ps \<noteq> None" if "3 * length ps + 1 \<le> n" for ps using Suc that by blast
  have "parseline (Suc n) ps \<noteq> None" if a: "3 * length ps + 3 \<le> Suc n"
  proof -
    have "parseline n (tok_rest r2) \<noteq> None" if "parsepipe n ps = Some (Inr (c1, r1))" "parsebacks c1 r1 = (c2, r2)" "peek r2 [59]" for c1 r1 c2 r2
      using L [of "tok_rest r2"] a parse_len [of n ps c1 r1] that parsebacks_len [OF that(2)] tok_rest_len(2) [OF that(3)] by simp
    then have "\<forall>c1 r1 c2 r2. parsepipe n ps = Some (Inr (c1, r1)) \<longrightarrow> parsebacks c1 r1 = (c2, r2) \<longrightarrow> peek r2 [59] \<longrightarrow> (\<exists>y. parseline n (tok_rest r2) = Some y)"
      by blast
    then show ?thesis using P [of ps] a by (auto split: sum.splits prod.splits if_splits option.splits bind_splits)
  qed
  moreover have "parsepipe (Suc n) ps \<noteq> None" if a: "3 * length ps + 2 \<le> Suc n"
  proof -
    have "parsepipe n (tok_rest r1) \<noteq> None" if "parseexec n ps = Some (Inr (c1, r1))" "peek r1 [124]" for c1 r1
      using P [of "tok_rest r1"] a parse_len [of n ps c1 r1] that tok_rest_len(2) [OF that(2)] by simp
    then show ?thesis using E [of ps] a by (auto split: sum.splits prod.splits if_splits option.splits bind_splits)
  qed
  moreover have "parseexec (Suc n) ps \<noteq> None" if a: "3 * length ps + 1 \<le> Suc n"
  proof -
    have "parseline n (tok_rest ps) \<noteq> None" if "peek ps [40]" using L [of "tok_rest ps"] a tok_rest_len(2) [OF that] by simp
    then show ?thesis by (auto split: sum.splits prod.splits if_splits option.splits bind_splits)
  qed
  ultimately show ?case by blast
qed simp

subsection \<open>More depth does not matter\<close>

definition extends :: "'a option \<Rightarrow> 'a option \<Rightarrow> bool" where
  "extends a b \<longleftrightarrow> a = None \<or> a = b"

lemma extends_refl: "extends a a"
  by (simp add: extends_def)

lemma extends_bind: "extends m m' \<Longrightarrow> (\<And>x. extends (f x) (f' x)) \<Longrightarrow> extends (Option.bind m f) (Option.bind m' f')"
  by (cases m) (force simp: extends_def)+

lemma parse_mono:
  "extends (parseline n ps) (parseline (Suc n) ps) \<and> extends (parsepipe n ps) (parsepipe (Suc n) ps) \<and> extends (parseexec n ps) (parseexec (Suc n) ps)"
proof (induction n arbitrary: ps)
  case 0
  then show ?case by (simp add: extends_def)
next
  case (Suc n)
  have L: "extends (parseline n ps) (parseline (Suc n) ps)" and P: "extends (parsepipe n ps) (parsepipe (Suc n) ps)"
    and E: "extends (parseexec n ps) (parseexec (Suc n) ps)" for ps using Suc by blast+
  have "extends (parseline (Suc n) ps) (parseline (Suc (Suc n)) ps)" unfolding parseline.simps(2) [of "Suc n"] parseline.simps(2) [of n ps]
    by (auto intro!: extends_bind L P E extends_refl split: sum.split prod.split simp del: parseline.simps parsepipe.simps parseexec.simps)
  moreover have "extends (parsepipe (Suc n) ps) (parsepipe (Suc (Suc n)) ps)" unfolding parsepipe.simps(2) [of "Suc n"] parsepipe.simps(2) [of n ps]
    by (auto intro!: extends_bind L P E extends_refl split: sum.split prod.split simp del: parseline.simps parsepipe.simps parseexec.simps)
  moreover have "extends (parseexec (Suc n) ps) (parseexec (Suc (Suc n)) ps)" unfolding parseexec.simps(2) [of "Suc n"] parseexec.simps(2) [of n ps]
    by (auto intro!: extends_bind L P E extends_refl split: sum.split prod.split simp del: parseline.simps parsepipe.simps parseexec.simps)
  ultimately show ?case by blast
qed

lemma parse_same:
  assumes "n \<le> m"
  shows "extends (parseline n ps) (parseline m ps)" "extends (parsepipe n ps) (parsepipe m ps)" "extends (parseexec n ps) (parseexec m ps)"
proof -
  have tr: "extends a b \<Longrightarrow> extends b c \<Longrightarrow> extends a c" for a b c :: "'x option" by (auto simp: extends_def)
  show "extends (parseline n ps) (parseline m ps)" "extends (parsepipe n ps) (parsepipe m ps)" "extends (parseexec n ps) (parseexec m ps)"
    using assms by (induction m rule: dec_induct) (use extends_refl parse_mono tr in blast)+
qed

lemma extends_Some: "extends a b \<Longrightarrow> a = Some x \<Longrightarrow> b = Some x"
  by (auto simp: extends_def)

subsection \<open>White space in front\<close>

lemma skip_skip [simp]: "skip_ws (skip_ws s) = skip_ws s"
  by (simp add: skip_ws_def)

lemma peek_skip [simp]: "peek (skip_ws s) ts = peek s ts"
  by (simp add: peek_def)

lemma gettoken_skip [simp]: "gettoken (skip_ws s) = gettoken s" "tok_rest (skip_ws s) = tok_rest s"
  by (simp_all add: gettoken_def tok_rest_def)

lemma parseredirs_skip: "parseredirs (skip_ws s) = parseredirs s"
  by (subst (1 2) parseredirs.simps) simp

lemma parseargs_skip: "parseargs n (skip_ws s) = parseargs n s"
  by (subst (1 2) parseargs.simps) simp

lemma parsebacks_skip: "parsebacks c (skip_ws s) = parsebacks c s"
  by (subst (1 2) parsebacks.simps) simp

lemma parse_skip: "parseexec n (skip_ws s) = parseexec n s" "parsepipe n (skip_ws s) = parsepipe n s" "parseline n (skip_ws s) = parseline n s"
proof -
  show e: "parseexec n (skip_ws s) = parseexec n s" for n by (cases n) (simp_all add: parseredirs_skip)
  show p: "parsepipe n (skip_ws s) = parsepipe n s" for n by (cases n) (simp_all add: e)
  show "parseline n (skip_ws s) = parseline n s" by (cases n) (simp_all add: p)
qed

subsection \<open>The tokens of a parsed command\<close>

text \<open>A token of a line is a word of it: it starts somewhere in the line, has no white space and no symbol, and
  ends at the end of the line or in front of one of these.\<close>

definition good :: "byte \<Rightarrow> bool" where
  "good c \<longleftrightarrow> c \<noteq> 0 \<and> \<not> is_ws c \<and> \<not> is_sym c"

definition word_ok :: "byte list \<Rightarrow> bool" where
  "word_ok w \<longleftrightarrow> w \<noteq> [] \<and> list_all good w"

definition tok_text :: "token \<Rightarrow> byte list" where
  "tok_text t = take (length (fst t) - length (snd t)) (fst t)"

definition tok_ok :: "byte list \<Rightarrow> token \<Rightarrow> bool" where
  "tok_ok line t \<longleftrightarrow> suffix (fst t) line \<and> fst t = tok_text t @ snd t \<and> word_ok (tok_text t) \<and> (snd t = [] \<or> \<not> good (hd (snd t)))"

lemma tok_ok_suffix: "tok_ok s t \<Longrightarrow> suffix s line \<Longrightarrow> tok_ok line t"
  by (auto simp: tok_ok_def intro: suffix_order.trans)

lemma suffix_zero: "suffix s line \<Longrightarrow> 0 \<notin> set line \<Longrightarrow> (0 :: byte) \<notin> set s"
  by (auto simp: suffix_def)

lemma skip_suffix: "suffix (skip_ws s) s"
  by (simp add: skip_ws_def suffix_dropWhile)

lemma skip_head: "skip_ws s = c # s' \<Longrightarrow> \<not> is_ws c"
  unfolding skip_ws_def by (metis hd_dropWhile list.distinct(1) list.sel(1))

lemma gettoken_ok:
  assumes g: "gettoken ps = (tok, q, r)" and z: "0 \<notin> set ps"
  shows "suffix r ps" and "tok = 97 \<Longrightarrow> tok_ok ps q"
proof -
  define s where "s = skip_ws ps"
  have s: "suffix s ps" "0 \<notin> set s" using skip_suffix suffix_zero [OF skip_suffix z] by (simp_all add: s_def)
  define e where "e = snd q"
  have e: "suffix e s" using g unfolding e_def gettoken_def s_def [symmetric] Let_def
    using suffix_dropWhile [of _ s] suffix_tl [of s] suffix_order.trans [OF suffix_tl suffix_tl, of s] by (auto split: if_splits)
  moreover have "r = skip_ws e" using g unfolding e_def gettoken_def Let_def by (auto split: if_splits)
  ultimately show "suffix r ps" using s(1) skip_suffix suffix_order.trans by metis
  show "tok_ok ps q" if t: "tok = 97"
  proof -
    have c: "chr_at s \<noteq> 0" "chr_at s \<notin> {124, 40, 41, 59, 38, 60}" "chr_at s \<noteq> 62" and
      q: "q = (s, dropWhile (\<lambda>c. \<not> is_ws c \<and> \<not> is_sym c) s)"
      using g t unfolding gettoken_def s_def [symmetric] Let_def by (auto split: if_splits)
    obtain c s' where cs: "s = c # s'" using c(1) by (cases s) (auto simp: chr_at_def)
    have "good c" using skip_head [of ps c s'] cs c by (auto simp: good_def s_def [symmetric] chr_at_def is_sym_def)
    have gd: "dropWhile (\<lambda>c. \<not> is_ws c \<and> \<not> is_sym c) s = dropWhile good s"
      by (rule dropWhile_cong) (use s(2) in \<open>auto simp: good_def\<close>)
    have sp: "s = takeWhile good s @ dropWhile good s" by simp
    have "length s = length (takeWhile good s) + length (dropWhile good s)" by (metis sp length_append)
    then have "tok_text q = take (length (takeWhile good s)) s" by (simp add: tok_text_def q gd)
    then have tt: "tok_text q = takeWhile good s" using takeWhile_eq_take [of good s] by (rule trans [OF _ sym])
    have "word_ok (takeWhile good s)" using \<open>good c\<close> by (auto simp: word_ok_def cs list_all_iff dest: set_takeWhileD)
    moreover have "dropWhile good s = [] \<or> \<not> good (hd (dropWhile good s))" using hd_dropWhile by blast
    ultimately show ?thesis unfolding tok_ok_def tt using s(1) sp by (simp add: q gd)
  qed
qed

lemma parseredirs_ok: "parseredirs ps = Inr (rs, r) \<Longrightarrow> 0 \<notin> set ps \<Longrightarrow> suffix r ps \<and> (\<forall>(f, x)\<in>set rs. tok_ok ps f)"
proof (induction ps arbitrary: rs r rule: parseredirs.induct)
  case (1 ps)
  show ?case
  proof (cases "peek ps [60, 62]")
    case False
    then show ?thesis using 1(2) skip_suffix by (subst (asm) parseredirs.simps) auto
  next
    case True
    obtain tok q r1 where g1: "gettoken ps = (tok, q, r1)" by (cases "gettoken ps")
    obtain tok2 f r2 where g2: "gettoken r1 = (tok2, f, r2)" by (cases "gettoken r1")
    obtain rs' x where p: "parseredirs r2 = Inr (rs', r)" "tok2 = 97" "rs = (f, x) # rs'"
      using 1(2) True g1 g2 by (subst (asm) parseredirs.simps) (auto split: if_splits sum.splits)
    have s: "suffix r1 ps" "suffix r2 r1" using gettoken_ok(1) [OF g1 1(3)] gettoken_ok(1) [OF g2 suffix_zero [OF gettoken_ok(1) [OF g1 1(3)] 1(3)]] .
    have z: "0 \<notin> set r1" using suffix_zero [OF s(1) 1(3)] .
    have z: "0 \<notin> set r1" "0 \<notin> set r2" using z suffix_zero [OF s(2) z] .
    have "suffix r r2 \<and> (\<forall>(f, x)\<in>set rs'. tok_ok r2 f)" using 1(1) [OF _ g1 [symmetric] refl g2 [symmetric] refl] True p z by simp
    moreover have "tok_ok r1 f" using gettoken_ok(2) [OF g2 z(1)] p(2) by simp
    moreover have "suffix r2 ps" using s(2,1) by (rule suffix_order.trans)
    ultimately show ?thesis unfolding p(3) using tok_ok_suffix [OF _ \<open>suffix r2 ps\<close>] tok_ok_suffix [OF _ s(1)] suffix_order.trans [OF _ \<open>suffix r2 ps\<close>] by auto
  qed
qed

lemma tok_rest_ok: "0 \<notin> set ps \<Longrightarrow> suffix (tok_rest ps) ps"
  by (cases "gettoken ps") (auto simp: tok_rest_def dest: gettoken_ok(1))

lemma parseargs_ok:
  "parseargs argc ps = Inr (as, rs, r) \<Longrightarrow> 0 \<notin> set ps \<Longrightarrow> suffix r ps \<and> (\<forall>f\<in>set as. tok_ok ps f) \<and> (\<forall>(f, x)\<in>set rs. tok_ok ps f)"
proof (induction argc ps arbitrary: as rs r rule: parseargs.induct)
  case (1 argc ps)
  obtain tok q r1 where g: "gettoken ps = (tok, q, r1)" by (cases "gettoken ps")
  note e = 1(2) [unfolded parseargs.simps [of argc ps] g, simplified]
  show ?case
  proof (cases "peek ps [124, 41, 38, 59] \<or> tok = 0")
    case True
    then show ?thesis using e skip_suffix [of ps] gettoken_ok(1) [OF g 1(3)] by (auto split: if_splits)
  next
    case False
    then obtain rs1 r2 as' rs' where p: "parseredirs r1 = Inr (rs1, r2)" "parseargs (argc + 1) r2 = Inr (as', rs', r)" "tok = 97" "\<not> argc + 1 \<ge> MAXARGS"
      and a: "as = q # as'" "rs = rs1 @ rs'" using e by (auto split: if_splits sum.splits)
    have s1: "suffix r1 ps" "0 \<notin> set r1" using gettoken_ok(1) [OF g 1(3)] suffix_zero [OF gettoken_ok(1) [OF g 1(3)] 1(3)] .
    have s2: "suffix r2 r1" "\<forall>(f, x)\<in>set rs1. tok_ok r1 f" using parseredirs_ok [OF p(1) s1(2)] by blast+
    have s3: "suffix r r2 \<and> (\<forall>f\<in>set as'. tok_ok r2 f) \<and> (\<forall>(f, x)\<in>set rs'. tok_ok r2 f)"
      using 1(1) [OF _ g [symmetric] refl _ _ _ p(1) refl p(2) suffix_zero [OF s2(1) s1(2)]] False p(3,4) by simp
    have "suffix r2 ps" using s1(1) s2(1) by (rule suffix_order.trans [rotated])
    then show ?thesis unfolding a using s2(2) s3 gettoken_ok(2) [OF g 1(3) p(3)] tok_ok_suffix [OF _ s1(1)] tok_ok_suffix [OF _ \<open>suffix r2 ps\<close>]
        suffix_order.trans [OF _ \<open>suffix r2 ps\<close>] by auto
  qed
qed

text \<open>What a parser keeps: it stops at a suffix of its input, and the tokens of its command are words of the input.\<close>

definition parse_ok :: "byte list \<Rightarrow> token cmd \<Rightarrow> byte list \<Rightarrow> bool" where
  "parse_ok ps c r \<longleftrightarrow> suffix r ps \<and> (\<forall>t\<in>set (tokens c). tok_ok ps t)"

lemma tokens_wrap: "set (tokens (wrap c rs)) = set (tokens c) \<union> fst ` set rs"
  by (induction rs arbitrary: c) (auto simp: wrap_def)

lemma parsebacks_ok: "parsebacks c ps = (d, r) \<Longrightarrow> 0 \<notin> set ps \<Longrightarrow> suffix r ps \<and> tokens d = tokens c"
proof (induction c ps arbitrary: d r rule: parsebacks.induct)
  case (1 c ps)
  show ?case
  proof (cases "peek ps [38]")
    case True
    then have "parsebacks (Back c) (tok_rest ps) = (d, r)" using 1(2) by (simp add: parsebacks.simps [of c ps])
    then have "suffix r (tok_rest ps) \<and> tokens d = tokens c" using 1(1) [OF True] suffix_zero [OF tok_rest_ok] 1(3) by simp
    then show ?thesis using tok_rest_ok [OF 1(3)] suffix_order.trans by blast
  next
    case False
    then show ?thesis using 1(2) skip_suffix by (auto simp: parsebacks.simps [of c ps])
  qed
qed

lemma suffix_rest:
  assumes "suffix r ps" "0 \<notin> set ps"
  shows "0 \<notin> set r" "suffix (skip_ws r) ps" "suffix (tok_rest r) ps" "0 \<notin> set (tok_rest r)"
proof -
  show z: "0 \<notin> set r" using suffix_zero assms .
  show "suffix (skip_ws r) ps" using skip_suffix assms(1) by (rule suffix_order.trans)
  show s: "suffix (tok_rest r) ps" using tok_rest_ok [OF z] assms(1) by (rule suffix_order.trans)
  show "0 \<notin> set (tok_rest r)" using suffix_zero [OF s assms(2)] .
qed

lemma parse_ok_trans:
  assumes "parse_ok s c r" "suffix s ps" "suffix r' r"
    and "\<And>t. t \<in> set (tokens d) \<Longrightarrow> t \<in> set (tokens c) \<or> tok_ok ps t"
  shows "parse_ok ps d r'"
proof -
  have "suffix r s" using assms(1) by (simp add: parse_ok_def)
  then have "suffix r' ps" using assms(2,3) suffix_order.trans by blast
  then show ?thesis using assms tok_ok_suffix unfolding parse_ok_def by blast
qed

text \<open>One level of the grammar at a time.\<close>

lemma parseline_tokens:
  assumes a: "parseline (Suc n) ps = Some (Inr (c, r))" and z: "0 \<notin> set ps"
    and P: "\<And>c r. parsepipe n ps = Some (Inr (c, r)) \<Longrightarrow> parse_ok ps c r"
    and L: "\<And>s c r. parseline n s = Some (Inr (c, r)) \<Longrightarrow> 0 \<notin> set s \<Longrightarrow> parse_ok s c r"
  shows "parse_ok ps c r"
proof -
  obtain c1 r1 where x1: "parsepipe n ps = Some (Inr (c1, r1))" using a by (cases "parsepipe n ps"; cases "the (parsepipe n ps)") auto
  obtain c2 r2 where x2: "parsebacks c1 r1 = (c2, r2)" by (cases "parsebacks c1 r1")
  have x3: "(\<exists>d. parseline n (tok_rest r2) = Some (Inr (d, r)) \<and> c = List c2 d) \<or> (c = c2 \<and> r = skip_ws r2)"
    using a x1 x2 by (cases "parseline n (tok_rest r2)"; cases "the (parseline n (tok_rest r2))") (auto split: if_splits)
  have p: "parse_ok ps c1 r1" using P [OF x1] .
  then have s1: "suffix r1 ps" by (simp add: parse_ok_def)
  have b: "suffix r2 r1" "tokens c2 = tokens c1" using parsebacks_ok [OF x2 suffix_rest(1) [OF s1 z]] by auto
  have s2: "suffix r2 ps" using b(1) s1 by (rule suffix_order.trans)
  show ?thesis using x3
  proof (elim disjE exE conjE)
    fix d assume d: "parseline n (tok_rest r2) = Some (Inr (d, r))" "c = List c2 d"
    show ?thesis using p b(2) d(2)
      by (intro parse_ok_trans [OF L [OF d(1) suffix_rest(4) [OF s2 z]] suffix_rest(3) [OF s2 z] suffix_order.refl]) (auto simp: parse_ok_def)
  next
    assume "c = c2" "r = skip_ws r2"
    then show ?thesis using b by (intro parse_ok_trans [OF p suffix_order.refl]) (auto intro: suffix_order.trans [OF skip_suffix])
  qed
qed

lemma parsepipe_tokens:
  assumes a: "parsepipe (Suc n) ps = Some (Inr (c, r))" and z: "0 \<notin> set ps"
    and E: "\<And>c r. parseexec n ps = Some (Inr (c, r)) \<Longrightarrow> parse_ok ps c r"
    and P: "\<And>s c r. parsepipe n s = Some (Inr (c, r)) \<Longrightarrow> 0 \<notin> set s \<Longrightarrow> parse_ok s c r"
  shows "parse_ok ps c r"
proof -
  obtain c1 r1 where x1: "parseexec n ps = Some (Inr (c1, r1))" using a by (cases "parseexec n ps"; cases "the (parseexec n ps)") auto
  have x3: "(\<exists>d. parsepipe n (tok_rest r1) = Some (Inr (d, r)) \<and> c = Pipe c1 d) \<or> (c = c1 \<and> r = skip_ws r1)"
    using a x1 by (cases "parsepipe n (tok_rest r1)"; cases "the (parsepipe n (tok_rest r1))") (auto split: if_splits)
  have p: "parse_ok ps c1 r1" using E [OF x1] .
  then have s1: "suffix r1 ps" by (simp add: parse_ok_def)
  show ?thesis using x3
  proof (elim disjE exE conjE)
    fix d assume d: "parsepipe n (tok_rest r1) = Some (Inr (d, r))" "c = Pipe c1 d"
    show ?thesis using p d(2)
      by (intro parse_ok_trans [OF P [OF d(1) suffix_rest(4) [OF s1 z]] suffix_rest(3) [OF s1 z] suffix_order.refl]) (auto simp: parse_ok_def)
  next
    assume "c = c1" "r = skip_ws r1"
    then show ?thesis by (intro parse_ok_trans [OF p suffix_order.refl]) (auto intro: skip_suffix)
  qed
qed

lemma parseexec_tokens:
  assumes a: "parseexec (Suc n) ps = Some (Inr (c, r))" and z: "0 \<notin> set ps"
    and L: "\<And>s c r. parseline n s = Some (Inr (c, r)) \<Longrightarrow> 0 \<notin> set s \<Longrightarrow> parse_ok s c r"
  shows "parse_ok ps c r"
proof (cases "peek ps [40]")
  case True
  then obtain c1 r1 where x1: "parseline n (tok_rest ps) = Some (Inr (c1, r1))"
    using a by (cases "parseline n (tok_rest ps)"; cases "the (parseline n (tok_rest ps))") auto
  obtain rs where x2: "parseredirs (tok_rest r1) = Inr (rs, r)" "c = wrap c1 rs" using a x1 True by (auto split: if_splits sum.splits)
  note t = suffix_rest [OF suffix_order.refl z]
  have p: "parse_ok (tok_rest ps) c1 r1" using L [OF x1 t(4)] .
  then have s0: "suffix r1 (tok_rest ps)" by (simp add: parse_ok_def)
  have s1: "suffix r1 ps" using s0 t(3) by (rule suffix_order.trans)
  have y: "suffix r (tok_rest r1)" "\<forall>(f, x)\<in>set rs. tok_ok (tok_rest r1) f" using parseredirs_ok [OF x2(1) suffix_rest(4) [OF s1 z]] by blast+
  have "tok_ok ps f" if "f \<in> fst ` set rs" for f using y(2) that tok_ok_suffix [OF _ suffix_rest(3) [OF s1 z]] by auto
  moreover have "suffix r r1" using y(1) tok_rest_ok [OF suffix_rest(1) [OF s1 z]] by (rule suffix_order.trans)
  ultimately show ?thesis unfolding x2(2) by (intro parse_ok_trans [OF p t(3)]) (auto simp: tokens_wrap)
next
  case False
  then obtain rs r1 as rs' where x: "parseredirs ps = Inr (rs, r1)" "parseargs 0 r1 = Inr (as, rs', r)" "c = wrap (Exec as) (rs @ rs')"
    using a by (auto split: sum.splits prod.splits)
  have y: "suffix r1 ps" "\<forall>(f, x)\<in>set rs. tok_ok ps f" using parseredirs_ok [OF x(1) z] by blast+
  have w: "suffix r r1" "\<forall>f\<in>set as. tok_ok r1 f" "\<forall>(f, x)\<in>set rs'. tok_ok r1 f" using parseargs_ok [OF x(2) suffix_rest(1) [OF y(1) z]] by blast+
  show ?thesis unfolding x(3) parse_ok_def tokens_wrap using y w tok_ok_suffix [OF _ y(1)] suffix_order.trans [OF w(1) y(1)] by fastforce
qed

lemma parse_tokens:
  "0 \<notin> set ps \<Longrightarrow> (parseline n ps = Some (Inr (c, r)) \<longrightarrow> parse_ok ps c r) \<and> (parsepipe n ps = Some (Inr (c, r)) \<longrightarrow> parse_ok ps c r) \<and>
   (parseexec n ps = Some (Inr (c, r)) \<longrightarrow> parse_ok ps c r)"
proof (induction n arbitrary: ps c r)
  case (Suc n)
  have L: "parse_ok ps c r" if "parseline n ps = Some (Inr (c, r))" "0 \<notin> set ps" for ps c r using Suc(1) that by blast
  have P: "parse_ok ps c r" if "parsepipe n ps = Some (Inr (c, r))" "0 \<notin> set ps" for ps c r using Suc(1) that by blast
  have E: "parse_ok ps c r" if "parseexec n ps = Some (Inr (c, r))" "0 \<notin> set ps" for ps c r using Suc(1) that by blast
  show ?case using parseline_tokens [OF _ Suc(2) P [OF _ Suc(2)] L] parsepipe_tokens [OF _ Suc(2) E [OF _ Suc(2)] P] parseexec_tokens [OF _ Suc(2) L]
    by blast
qed simp

subsection \<open>The strings of a parsed command\<close>

lemma nul_length: "length (nulterminate c line) = length line"
proof -
  have "length (foldl (\<lambda>b (q, eq). b[n - length eq := (0 :: byte)]) b ts) = length b" for n b and ts :: "token list"
    by (induction ts arbitrary: b) auto
  then show ?thesis by (simp add: nulterminate_def)
qed

lemma nul_nth:
  assumes "i < length line"
  shows "nulterminate c line ! i = (if \<exists>t\<in>set (tokens c). length line - length (snd t) = i then 0 else line ! i)"
proof -
  have "i < length b \<Longrightarrow> foldl (\<lambda>b (q, eq). b[n - length eq := (0 :: byte)]) b ts ! i = (if \<exists>t\<in>set ts. n - length (snd t) = i then 0 else b ! i)"
    for n b and ts :: "token list" by (induction ts arbitrary: b) (force simp: nth_list_update)+
  then show ?thesis using assms by (simp add: nulterminate_def)
qed

lemma takeWhile_zero:
  assumes "\<And>i. i < k \<Longrightarrow> b ! i \<noteq> (0 :: byte)" "k \<le> length b" "k < length b \<Longrightarrow> b ! k = 0"
  shows "takeWhile (\<lambda>c. c \<noteq> 0) b = take k b"
  using assms takeWhile_eq_take_P_nth [of k b "\<lambda>c. c \<noteq> 0"] by (cases "k < length b") auto

lemma string_at_token:
  assumes ok: "\<forall>t\<in>set (tokens c). tok_ok line t" and t: "t \<in> set (tokens c)"
  shows "string_at (nulterminate c line) t = tok_text t"
proof -
  define n where "n = length line"
  obtain q e where te [simp]: "t = (q, e)" by (cases t)
  define w where "w = tok_text t"
  have q: "q = w @ e" and sq: "suffix q line" and g: "list_all good w" using ok t by (auto simp: tok_ok_def w_def word_ok_def)
  obtain p where l: "line = p @ w @ e" using sq q by (auto simp: suffix_def)
  define b where "b = drop (length p) (nulterminate c line)"
  have len: "length b = length w + length e" using l by (simp add: b_def nul_length)
  have nth: "b ! i = (if \<exists>t\<in>set (tokens c). n - length (snd t) = length p + i then 0 else (w @ e) ! i)" if "i < length b" for i
    using that nul_nth [of "length p + i" line c] len l by (simp add: b_def nul_length n_def nth_append)
  have word: "b ! i = w ! i \<and> w ! i \<noteq> 0" if i: "i < length w" for i
  proof -
    have "n - length (snd t') \<noteq> length p + i" if t': "t' \<in> set (tokens c)" for t'
    proof
      assume a: "n - length (snd t') = length p + i"
      have s: "suffix (snd t') line" and h: "snd t' = [] \<or> \<not> good (hd (snd t'))" using ok t' by (auto simp: tok_ok_def suffix_def)
      then have "snd t' = drop (length p + i) line" using a by (auto simp: n_def suffix_def)
      then have "snd t' = drop i w @ e" using i by (simp add: l)
      then show False using h i g by (auto simp: hd_append hd_drop_conv_nth list_all_length)
    qed
    then show ?thesis using nth [of i] i len g by (auto simp: nth_append list_all_length good_def)
  qed
  have "takeWhile (\<lambda>c. c \<noteq> 0) b = take (length w) b"
  proof (rule takeWhile_zero)
    show "b ! length w = 0" if "length w < length b" using nth [OF that] t l by (force simp: n_def)
  qed (use word len in auto)
  moreover have "take (length w) b = w" using word len by (intro nth_equalityI) auto
  moreover have "string_at (nulterminate c line) t = takeWhile (\<lambda>c. c \<noteq> 0) b"
    by (simp add: string_at_def b_def nul_length l q)
  ultimately show ?thesis by (simp add: w_def)
qed

lemma map_tokens: "(\<And>t. t \<in> set (tokens c) \<Longrightarrow> f t = g t) \<Longrightarrow> map_cmd f c = map_cmd g c"
  by (induction c) auto

lemma set_tokens: "set_cmd c = set (tokens c)" "tokens (map_cmd f c) = map f (tokens c)"
  by (induction c) auto

lemma parsecmd_eq:
  assumes "0 \<notin> set s"
  shows "parsecmd s = Option.bind (parseline (parse_fuel s) s) (\<lambda>x. case x of
     Inl e \<Rightarrow> Some (Inl (e, []))
   | Inr (c, r) \<Rightarrow> if skip_ws r \<noteq> [] then Some (Inl (''syntax'', skip_ws r)) else Some (Inr (map_cmd tok_text c)))"
proof -
  have "map_cmd (string_at (nulterminate c s)) c = map_cmd tok_text c" if "parseline (parse_fuel s) s = Some (Inr (c, r))" for c r
    using parse_tokens [OF assms] that string_at_token map_tokens unfolding parse_ok_def by metis
  then show ?thesis unfolding parsecmd_def by (cases "parseline (parse_fuel s) s") (auto split: sum.split)
qed

text \<open>C37. The parser ends on every line, whatever its bytes: the depth of calls is bounded by three times the
  length of the line, and the loops over redirections, arguments and background signs get shorter inputs.
\<close>

theorem parsecmd_terminates: "\<exists>x. parsecmd s = Some x"
  using parse_enough [of s "parse_fuel s"] unfolding parsecmd_def parse_fuel_def
  by (auto split: sum.split prod.split bind_split)

text \<open>C36. After \<open>nulterminate\<close> the strings of a parsed command are words of the line: nonempty, without white
  space, symbol or zero, and found in the line as they stand, although the zeros are written into the line
  itself.
\<close>

theorem parsecmd_words:
  assumes "parsecmd s = Some (Inr c)" and "0 \<notin> set s" and "w \<in> set (tokens c)"
  shows "word_ok w \<and> sublist w s"
proof -
  obtain d r where d: "parseline (parse_fuel s) s = Some (Inr (d, r))" "c = map_cmd tok_text d"
    using assms(1) unfolding parsecmd_eq [OF assms(2)] by (auto split: bind_splits sum.splits if_splits)
  then obtain t where t: "t \<in> set (tokens d)" "w = tok_text t" using assms(3) by (auto simp: set_tokens)
  have ok: "tok_ok s t" using parse_tokens [OF assms(2)] d t unfolding parse_ok_def by blast
  then obtain p where "s = p @ fst t" "fst t = w @ snd t" using t(2) by (auto simp: tok_ok_def suffix_def)
  then have "s = p @ w @ snd t" by simp
  then show ?thesis using ok t(2) unfolding tok_ok_def sublist_def by blast
qed

theorem parsecmd_words_witness:
  "parsecmd [97, 60, 98] = Some (Inr (Redir (Exec [[97]]) [98] 0 0)) \<and> word_ok [98] \<and> sublist [98] [97, 60, 98 :: byte]"
proof -
  have "parsecmd [97, 60, 98] = Some (Inr (Redir (Exec [[97]]) [98] 0 0))" by code_simp
  then show ?thesis using parsecmd_words [of "[97, 60, 98]" "Redir (Exec [[97]]) [98] 0 0" "[98]"] by simp
qed

subsection \<open>Writing a command out\<close>

text \<open>The text of a command at a level of the grammar: 0 for a line, 1 for what \<open>&\<close> may follow, 2 for a
  pipeline, 3 for what a pipe joins. A command of a lower level gets parentheses.\<close>

definition pr_words :: "byte list list \<Rightarrow> byte list" where
  "pr_words ws = concat (map (\<lambda>w. w @ [32]) ws)"

definition pr_redirs :: "(byte list \<times> nat \<times> nat) list \<Rightarrow> byte list" where
  "pr_redirs rl = concat (map (\<lambda>(f, mode, fd). (if fd = 0 then 60 else 62) # f @ [32]) rl)"

definition paren :: "bool \<Rightarrow> byte list \<Rightarrow> byte list" where
  "paren b s = (if b then 40 # s @ [41] else s)"

fun unparse :: "nat \<Rightarrow> byte list cmd \<Rightarrow> byte list" where
  "unparse k (Exec ws) = pr_words ws"
| "unparse k (Redir c f mode fd) = unparse 3 c @ pr_redirs [(f, mode, fd)]"
| "unparse k (Pipe c d) = paren (2 < k) (unparse 3 c @ [124] @ unparse 2 d)"
| "unparse k (Back c) = paren (1 < k) (unparse 1 c @ [38])"
| "unparse k (List c d) = paren (0 < k) (unparse 1 c @ [59] @ unparse 0 d)"

definition redir_ok :: "byte list \<times> nat \<times> nat \<Rightarrow> bool" where
  "redir_ok x \<longleftrightarrow> word_ok (fst x) \<and> snd x \<in> {(0, 0), (O_CREAT_WRONLY, 1)}"

fun cmd_ok :: "byte list cmd \<Rightarrow> bool" where
  "cmd_ok (Exec ws) \<longleftrightarrow> length ws < MAXARGS \<and> list_all word_ok ws"
| "cmd_ok (Redir c f mode fd) \<longleftrightarrow> cmd_ok c \<and> redir_ok (f, mode, fd)"
| "cmd_ok (Pipe c d) \<longleftrightarrow> cmd_ok c \<and> cmd_ok d"
| "cmd_ok (Back c) \<longleftrightarrow> cmd_ok c"
| "cmd_ok (List c d) \<longleftrightarrow> cmd_ok c \<and> cmd_ok d"

text \<open>What may follow.\<close>

definition follow :: "byte set \<Rightarrow> byte list \<Rightarrow> bool" where
  "follow S R \<longleftrightarrow> skip_ws R = [] \<or> hd (skip_ws R) \<in> S"

lemma follow_mono: "follow S R \<Longrightarrow> S \<subseteq> T \<Longrightarrow> follow T R"
  by (auto simp: follow_def)

lemma follow_peek: "follow S R \<Longrightarrow> S \<inter> set ts = {} \<Longrightarrow> \<not> peek R ts"
  by (cases "skip_ws R") (auto simp: follow_def peek_def chr_at_def)

lemma skip_cons: "skip_ws (c # s) = (if is_ws c then skip_ws s else c # s)"
  by (simp add: skip_ws_def)

lemma skip_sep: "skip_ws (124 # s) = 124 # s" "skip_ws (59 # s) = 59 # s"
  by (simp_all add: skip_cons is_ws_def)

lemma skip_Nil: "skip_ws [] = []"
  by (simp add: skip_ws_def)

lemma skip_word: "word_ok w \<Longrightarrow> skip_ws (w @ R) = w @ R"
  by (cases w) (auto simp: word_ok_def good_def skip_cons)

lemma peek_cons: "c \<noteq> 0 \<Longrightarrow> \<not> is_ws c \<Longrightarrow> peek (c # R) ts \<longleftrightarrow> c \<in> set ts"
  by (simp add: peek_def skip_cons chr_at_def)

lemma peek_word: "word_ok w \<Longrightarrow> set ts \<subseteq> Collect is_sym \<Longrightarrow> \<not> peek (w @ R) ts"
  by (cases w) (auto simp: word_ok_def good_def peek_def skip_cons chr_at_def)

lemma gettoken_sym:
  "c \<in> {124, 40, 41, 59, 38, 60} \<Longrightarrow> gettoken (c # s) = (c, (c # s, s), skip_ws s)"
  "chr_at s \<noteq> 62 \<Longrightarrow> gettoken (62 # s) = (62, (62 # s, s), skip_ws s)"
  by (auto simp: gettoken_def skip_cons is_ws_def chr_at_def)

lemma tok_rest_sym: "c \<in> {124, 40, 41, 59, 38, 60} \<Longrightarrow> tok_rest (c # s) = skip_ws s"
  by (simp only: tok_rest_def gettoken_sym(1) snd_conv)

lemma gettoken_word:
  assumes "word_ok w"
  shows "gettoken (w @ 32 # R) = (97, (w @ 32 # R, 32 # R), skip_ws R)"
proof -
  obtain c w' where w: "w = c # w'" using assms by (cases w) (auto simp: word_ok_def)
  have "\<not> is_sym c" "c \<noteq> 0" using assms by (auto simp: w word_ok_def good_def)
  then have c: "c \<noteq> 0" "c \<notin> {124, 40, 41, 59, 38, 60}" "c \<noteq> 62" by (auto simp: is_sym_def)
  have "dropWhile (\<lambda>c. \<not> is_ws c \<and> \<not> is_sym c) (w @ 32 # R) = 32 # R"
    using assms by (subst dropWhile_append2) (auto simp: word_ok_def good_def list_all_iff is_ws_def)
  then show ?thesis using c unfolding gettoken_def skip_word [OF assms] by (simp add: w chr_at_def Let_def skip_cons is_ws_def)
qed

lemma tok_text_word: "tok_text (w @ e, e) = w"
  by (simp add: tok_text_def)

subsection \<open>Reading it back\<close>

lemma parseredirs_print:
  "list_all redir_ok rl \<Longrightarrow> \<not> peek R [60, 62] \<Longrightarrow> \<exists>rs. parseredirs (pr_redirs rl @ R) = Inr (rs, skip_ws R) \<and> map (apfst tok_text) rs = rl"
proof (induction rl)
  case Nil
  then show ?case by (simp add: pr_redirs_def parseredirs.simps [of R])
next
  case (Cons x rl)
  obtain f mode fd where x [simp]: "x = (f, mode, fd)" by (cases x) auto
  have f: "word_ok f" "(mode, fd) \<in> {(0, 0), (O_CREAT_WRONLY, 1)}" using Cons.prems by (auto simp: redir_ok_def)
  define r where "r = pr_redirs rl @ R"
  define sg where "sg = (if fd = 0 then 60 else 62 :: byte)"
  have tx: "pr_redirs (x # rl) @ R = sg # f @ 32 # r" by (simp add: pr_redirs_def r_def sg_def)
  obtain rs where rs: "parseredirs r = Inr (rs, skip_ws R)" "map (apfst tok_text) rs = rl" using Cons by (auto simp: r_def)
  have "chr_at (f @ 32 # r) \<noteq> 62" using f(1) by (cases f) (auto simp: chr_at_def word_ok_def good_def is_sym_def)
  then have g: "gettoken (sg # f @ 32 # r) = (sg, (sg # f @ 32 # r, f @ 32 # r), f @ 32 # r)"
    using gettoken_sym skip_word [OF f(1)] by (simp add: sg_def)
  have p: "peek (sg # f @ 32 # r) [60, 62]" by (simp add: sg_def peek_cons is_ws_def)
  have "parseredirs (sg # f @ 32 # r) = Inr (((f @ 32 # r, 32 # r), mode, fd) # rs, skip_ws R)"
    using f(2) by (subst parseredirs.simps) (simp add: p g gettoken_word [OF f(1)] parseredirs_skip rs(1), auto simp: sg_def)
  then show ?case unfolding tx using rs(2) by (simp add: tok_text_word)
qed

lemma parseargs_end: "follow {124, 41, 38, 59} R \<Longrightarrow> parseargs argc R = Inr ([], [], skip_ws R)"
proof (cases "skip_ws R")
  case Nil
  then show ?thesis by (subst parseargs.simps) (simp add: peek_def gettoken_def chr_at_def skip_Nil)
next
  case (Cons c s)
  assume "follow {124, 41, 38, 59} R"
  then have "peek R [124, 41, 38, 59]" using Cons by (auto simp: follow_def peek_def chr_at_def)
  then show ?thesis by (subst parseargs.simps) simp
qed

lemma parseargs_print:
  assumes "list_all word_ok ws" "argc + length ws < MAXARGS" "list_all redir_ok rl" "ws \<noteq> [] \<or> rl = []" "follow {124, 41, 38, 59} R"
  shows "\<exists>as rs. parseargs argc (pr_words ws @ pr_redirs rl @ R) = Inr (as, rs, skip_ws R) \<and> map tok_text as = ws \<and> map (apfst tok_text) rs = rl"
  using assms
proof (induction ws arbitrary: argc)
  case Nil
  then show ?case by (simp add: pr_words_def pr_redirs_def parseargs_end)
next
  case (Cons w ws)
  note IH = Cons.IH and prems = Cons.prems
  define r where "r = pr_words ws @ pr_redirs rl @ R"
  have tx: "pr_words (w # ws) @ pr_redirs rl @ R = w @ 32 # r" by (simp add: pr_words_def r_def)
  have w: "word_ok w" using prems by simp
  have p: "\<not> peek (w @ 32 # r) [124, 41, 38, 59]" using peek_word [OF w] by (auto simp: is_sym_def)
  have np: "\<not> peek R [60, 62]" using follow_peek [OF prems(5)] by simp
  obtain rs1 r2 as rs' where x: "parseredirs r = Inr (rs1, r2)" "parseargs (argc + 1) r2 = Inr (as, rs', skip_ws R)"
    "map tok_text as = ws" "map (apfst tok_text) (rs1 @ rs') = rl"
  proof (cases ws)
    case Nil
    obtain rs where "parseredirs (pr_redirs rl @ R) = Inr (rs, skip_ws R)" "map (apfst tok_text) rs = rl"
      using parseredirs_print [OF prems(3) np] by blast
    then show thesis using that [of rs "skip_ws R" "[]" "[]"] parseargs_end [OF prems(5)] Nil by (simp add: r_def pr_words_def parseargs_skip)
  next
    case (Cons v vs)
    have v: "word_ok v" using prems(1) Cons by simp
    have "\<not> peek r [60, 62]" using peek_word [OF v, of "[60, 62]"] by (simp add: r_def Cons pr_words_def is_sym_def)
    then have "parseredirs r = Inr ([], skip_ws r)" by (simp add: parseredirs.simps [of r])
    moreover obtain as rs where "parseargs (argc + 1) r = Inr (as, rs, skip_ws R)" "map tok_text as = ws" "map (apfst tok_text) rs = rl"
      using IH [of "argc + 1"] prems Cons by (auto simp: r_def)
    ultimately show thesis using that [of "[]" "skip_ws r" as rs] by (simp add: parseargs_skip)
  qed
  have "parseargs argc (w @ 32 # r) = Inr ((w @ 32 # r, 32 # r) # as, rs1 @ rs', skip_ws R)"
    using prems(2) x(1,2) by (subst parseargs.simps) (simp add: p gettoken_word [OF w] parseredirs_skip)
  then show ?case unfolding tx using x(3,4) by (simp add: tok_text_word)
qed

lemma map_wrap: "map_cmd f (wrap c rs) = wrap (map_cmd f c) (map (apfst f) rs)"
  by (induction rs arbitrary: c) (auto simp: wrap_def)

text \<open>What each parser makes of the text at its level.\<close>

definition reads_exec :: "byte list cmd \<Rightarrow> bool" where
  "reads_exec c \<longleftrightarrow> (\<forall>rl R. list_all redir_ok rl \<longrightarrow> follow {124, 41, 38, 59} R \<longrightarrow>
     (\<exists>n d. parseexec n (unparse 3 c @ pr_redirs rl @ R) = Some (Inr (d, skip_ws R)) \<and> map_cmd tok_text d = wrap c rl))"

definition reads_pipe :: "byte list cmd \<Rightarrow> bool" where
  "reads_pipe c \<longleftrightarrow> (\<forall>R. follow {41, 38, 59} R \<longrightarrow> (\<exists>n d. parsepipe n (unparse 2 c @ R) = Some (Inr (d, skip_ws R)) \<and> map_cmd tok_text d = c))"

definition reads_back :: "byte list cmd \<Rightarrow> bool" where
  "reads_back c \<longleftrightarrow> (\<forall>R. follow {41, 38, 59} R \<longrightarrow>
     (\<exists>n d r e. parsepipe n (unparse 1 c @ R) = Some (Inr (d, r)) \<and> parsebacks d r = parsebacks e R \<and> map_cmd tok_text e = c))"

definition reads_line :: "byte list cmd \<Rightarrow> bool" where
  "reads_line c \<longleftrightarrow> (\<forall>R. follow {41} R \<longrightarrow> (\<exists>n d. parseline n (unparse 0 c @ R) = Some (Inr (d, skip_ws R)) \<and> map_cmd tok_text d = c))"

lemma reads_Exec:
  assumes "cmd_ok (Exec ws)"
  shows "reads_exec (Exec ws)"
  unfolding reads_exec_def
proof (intro allI impI)
  fix rl R assume rl: "list_all redir_ok rl" and R: "follow {124, 41, 38, 59} R"
  define s where "s = pr_words ws @ pr_redirs rl @ R"
  have np: "\<not> peek R [60, 62]" "\<not> peek R [40]" using follow_peek [OF R] by simp_all
  obtain rs1 r as rs2 where x: "parseredirs s = Inr (rs1, r)" "parseargs 0 r = Inr (as, rs2, skip_ws R)" "map tok_text as = ws"
    "map (apfst tok_text) (rs1 @ rs2) = rl" "\<not> peek s [40]"
  proof (cases ws)
    case Nil
    have s: "s = pr_redirs rl @ R" by (simp add: s_def Nil pr_words_def)
    obtain rs where "parseredirs s = Inr (rs, skip_ws R)" "map (apfst tok_text) rs = rl" using parseredirs_print [OF rl np(1)] s by auto
    moreover have "\<not> peek s [40]" using np(2) by (cases rl) (auto simp: s pr_redirs_def peek_cons is_ws_def split: if_splits)
    ultimately show thesis using that [of rs "skip_ws R" "[]" "[]"] parseargs_end [OF R] Nil by (simp add: parseargs_skip)
  next
    case (Cons v vs)
    have v: "word_ok v" using assms Cons by simp
    have "\<not> peek s [60, 62]" "\<not> peek s [40]" using peek_word [OF v, of "[60, 62]"] peek_word [OF v, of "[40]"] by (simp_all add: s_def Cons pr_words_def is_sym_def)
    moreover have "parseredirs s = Inr ([], skip_ws s)" using calculation(1) by (simp add: parseredirs.simps [of s])
    moreover obtain as rs where "parseargs 0 s = Inr (as, rs, skip_ws R)" "map tok_text as = ws" "map (apfst tok_text) rs = rl"
      using parseargs_print [of ws 0 rl R] assms rl R Cons by (auto simp: s_def)
    ultimately show thesis using that [of "[]" "skip_ws s" as rs] by (simp add: parseargs_skip)
  qed
  have "parseexec (Suc 0) s = Some (Inr (wrap (Exec as) (rs1 @ rs2), skip_ws R))" using x by simp
  moreover have "map_cmd tok_text (wrap (Exec as) (rs1 @ rs2)) = wrap (Exec ws) rl" using x(3,4) by (simp add: map_wrap)
  ultimately show "\<exists>n d. parseexec n (unparse 3 (Exec ws) @ pr_redirs rl @ R) = Some (Inr (d, skip_ws R)) \<and> map_cmd tok_text d = wrap (Exec ws) rl"
    unfolding s_def unparse.simps by blast
qed

lemma reads_Redir: "reads_exec c \<Longrightarrow> redir_ok (f, mode, fd) \<Longrightarrow> reads_exec (Redir c f mode fd)"
proof -
  assume c: "reads_exec c" and f: "redir_ok (f, mode, fd)"
  have "pr_redirs [(f, mode, fd)] @ pr_redirs rl = pr_redirs ((f, mode, fd) # rl)" "wrap (Redir c f mode fd) rl = wrap c ((f, mode, fd) # rl)" for rl
    by (simp_all add: pr_redirs_def wrap_def)
  then show ?thesis using c f unfolding reads_exec_def unparse.simps append_assoc by (metis append_assoc list.pred_inject(2))
qed

text \<open>A command in parentheses, with redirections behind them.\<close>

lemma reads_paren:
  assumes "reads_line c" "unparse 3 c = 40 # unparse 0 c @ [41]"
  shows "reads_exec c"
  unfolding reads_exec_def
proof (intro allI impI)
  fix rl R assume rl: "list_all redir_ok rl" and R: "follow {124, 41, 38, 59} R"
  define r where "r = pr_redirs rl @ R"
  define s where "s = unparse 0 c @ 41 # r"
  have "follow {41} (41 # r)" by (simp add: follow_def skip_cons is_ws_def)
  then obtain n d where d: "parseline n s = Some (Inr (d, 41 # r))" "map_cmd tok_text d = c"
    using assms(1) unfolding reads_line_def s_def by (force simp: skip_cons is_ws_def)
  obtain rs where rs: "parseredirs r = Inr (rs, skip_ws R)" "map (apfst tok_text) rs = rl"
    using parseredirs_print [OF rl] follow_peek [OF R, of "[60, 62]"] by (auto simp: r_def)
  have "parseexec (Suc n) (40 # s) = Some (Inr (wrap d rs, skip_ws R))"
    using d(1) rs(1) by (simp add: peek_cons is_ws_def tok_rest_sym parse_skip parseredirs_skip)
  moreover have "unparse 3 c @ pr_redirs rl @ R = 40 # s" using assms(2) by (simp add: s_def r_def)
  ultimately show "\<exists>n d. parseexec n (unparse 3 c @ pr_redirs rl @ R) = Some (Inr (d, skip_ws R)) \<and> map_cmd tok_text d = wrap c rl"
    using d(2) rs(2) by (metis map_wrap)
qed

lemma reads_execD:
  assumes "reads_exec c" "follow {124, 41, 38, 59} R"
  obtains n d where "parseexec n (unparse 3 c @ R) = Some (Inr (d, skip_ws R))" "map_cmd tok_text d = c"
proof -
  have "pr_redirs [] = []" "wrap c [] = c" by (simp_all add: pr_redirs_def wrap_def)
  then show thesis using that assms unfolding reads_exec_def by (metis append_Nil list.pred_inject(1))
qed

lemma exec_pipe:
  assumes "reads_exec c" "unparse 2 c = unparse 3 c"
  shows "reads_pipe c"
  unfolding reads_pipe_def
proof (intro allI impI)
  fix R assume R: "follow {41, 38, 59} R"
  obtain n d where d: "parseexec n (unparse 3 c @ R) = Some (Inr (d, skip_ws R))" "map_cmd tok_text d = c"
    using reads_execD [OF assms(1) follow_mono [OF R]] by blast
  have "parsepipe (Suc n) (unparse 2 c @ R) = Some (Inr (d, skip_ws R))" using d(1) follow_peek [OF R, of "[124]"] assms(2) by simp
  then show "\<exists>n d. parsepipe n (unparse 2 c @ R) = Some (Inr (d, skip_ws R)) \<and> map_cmd tok_text d = c" using d(2) by blast
qed

lemma reads_Pipe:
  assumes "reads_exec a" "reads_pipe b"
  shows "reads_pipe (Pipe a b)"
  unfolding reads_pipe_def
proof (intro allI impI)
  fix R assume R: "follow {41, 38, 59} R"
  define s where "s = unparse 2 b @ R"
  have "follow {124, 41, 38, 59} (124 # s)" by (simp add: follow_def skip_cons is_ws_def)
  then obtain n d where d: "parseexec n (unparse 3 a @ 124 # s) = Some (Inr (d, 124 # s))" "map_cmd tok_text d = a"
    using reads_execD [OF assms(1), of "124 # s"] unfolding skip_sep(1) by blast
  obtain m e where e: "parsepipe m s = Some (Inr (e, skip_ws R))" "map_cmd tok_text e = b" using assms(2) R unfolding reads_pipe_def s_def by blast
  define k where "k = max n m"
  have "parseexec k (unparse 3 a @ 124 # s) = Some (Inr (d, 124 # s))" "parsepipe k s = Some (Inr (e, skip_ws R))"
    using parse_same(3) [of n k] parse_same(2) [of m k] d(1) e(1) by (auto simp: k_def intro: extends_Some)
  then have "parsepipe (Suc k) (unparse 3 a @ 124 # s) = Some (Inr (Pipe d e, skip_ws R))"
    by (simp add: peek_cons is_ws_def tok_rest_sym parse_skip)
  then show "\<exists>n d. parsepipe n (unparse 2 (Pipe a b) @ R) = Some (Inr (d, skip_ws R)) \<and> map_cmd tok_text d = Pipe a b"
    using d(2) e(2) unfolding s_def by (intro exI [of _ "Suc k"] exI [of _ "Pipe d e"]) (simp add: paren_def)
qed

lemma pipe_back: "reads_pipe c \<Longrightarrow> unparse 1 c = unparse 2 c \<Longrightarrow> reads_back c"
  unfolding reads_pipe_def reads_back_def by (metis parsebacks_skip)

lemma reads_Back: "reads_back c \<Longrightarrow> reads_back (Back c)"
  unfolding reads_back_def
proof (intro allI impI)
  fix R assume c: "\<forall>R. follow {41, 38, 59} R \<longrightarrow>
     (\<exists>n d r e. parsepipe n (unparse 1 c @ R) = Some (Inr (d, r)) \<and> parsebacks d r = parsebacks e R \<and> map_cmd tok_text e = c)"
  have "follow {41, 38, 59} (38 # R)" by (simp add: follow_def skip_cons is_ws_def)
  then obtain n d r e where d: "parsepipe n (unparse 1 c @ 38 # R) = Some (Inr (d, r))" "parsebacks d r = parsebacks e (38 # R)" "map_cmd tok_text e = c"
    using c by blast
  have "parsebacks e (38 # R) = parsebacks (Back e) R"
    by (subst parsebacks.simps) (simp add: peek_cons is_ws_def tok_rest_sym parsebacks_skip)
  then show "\<exists>n d r e. parsepipe n (unparse 1 (Back c) @ R) = Some (Inr (d, r)) \<and> parsebacks d r = parsebacks e R \<and> map_cmd tok_text e = Back c"
    using d by (intro exI [of _ n] exI [of _ d] exI [of _ r] exI [of _ "Back e"]) (simp add: paren_def)
qed

lemma reads_backD:
  assumes "reads_back c" "follow {41, 59} R"
  obtains n d r e where "parsepipe n (unparse 1 c @ R) = Some (Inr (d, r))" "parsebacks d r = (e, skip_ws R)" "map_cmd tok_text e = c"
proof -
  have "parsebacks e R = (e, skip_ws R)" for e using follow_peek [OF assms(2), of "[38]"] by (simp add: parsebacks.simps [of e R])
  moreover have "follow {41, 38, 59} R" using assms(2) by (rule follow_mono) simp
  ultimately show thesis using that assms(1) unfolding reads_back_def by metis
qed

lemma back_line:
  assumes "reads_back c" "unparse 0 c = unparse 1 c"
  shows "reads_line c"
  unfolding reads_line_def
proof (intro allI impI)
  fix R assume R: "follow {41} R"
  obtain n d r e where d: "parsepipe n (unparse 1 c @ R) = Some (Inr (d, r))" "parsebacks d r = (e, skip_ws R)" "map_cmd tok_text e = c"
    using reads_backD [OF assms(1) follow_mono [OF R]] by blast
  have "parseline (Suc n) (unparse 0 c @ R) = Some (Inr (e, skip_ws R))" using d(1,2) follow_peek [OF R, of "[59]"] assms(2) by simp
  then show "\<exists>n d. parseline n (unparse 0 c @ R) = Some (Inr (d, skip_ws R)) \<and> map_cmd tok_text d = c" using d(3) by blast
qed

lemma reads_List:
  assumes "reads_back a" "reads_line b"
  shows "reads_line (List a b)"
  unfolding reads_line_def
proof (intro allI impI)
  fix R assume R: "follow {41} R"
  define s where "s = unparse 0 b @ R"
  have "follow {41, 59} (59 # s)" by (simp add: follow_def skip_cons is_ws_def)
  then obtain n c r d where d: "parsepipe n (unparse 1 a @ 59 # s) = Some (Inr (c, r))" "parsebacks c r = (d, 59 # s)" "map_cmd tok_text d = a"
    using reads_backD [OF assms(1), of "59 # s"] unfolding skip_sep(2) by blast
  obtain m e where e: "parseline m s = Some (Inr (e, skip_ws R))" "map_cmd tok_text e = b" using assms(2) R unfolding reads_line_def s_def by blast
  define k where "k = max n m"
  have "parsepipe k (unparse 1 a @ 59 # s) = Some (Inr (c, r))" "parseline k s = Some (Inr (e, skip_ws R))"
    using parse_same(2) [of n k] parse_same(1) [of m k] d(1) e(1) by (auto simp: k_def intro: extends_Some)
  then have "parseline (Suc k) (unparse 1 a @ 59 # s) = Some (Inr (List d e, skip_ws R))"
    using d(2) by (simp add: peek_cons is_ws_def tok_rest_sym parse_skip)
  then show "\<exists>n d. parseline n (unparse 0 (List a b) @ R) = Some (Inr (d, skip_ws R)) \<and> map_cmd tok_text d = List a b"
    using d(3) e(2) unfolding s_def by (intro exI [of _ "Suc k"] exI [of _ "List d e"]) (simp add: paren_def)
qed

lemma reads_all: "cmd_ok c \<Longrightarrow> reads_exec c \<and> reads_pipe c \<and> reads_back c \<and> reads_line c"
proof (induction c)
  case (Exec ws)
  then show ?case using reads_Exec exec_pipe pipe_back back_line by (metis unparse.simps(1))
next
  case (Redir c f mode fd)
  then have "reads_exec (Redir c f mode fd)" using reads_Redir by simp
  then show ?case using exec_pipe pipe_back back_line by (metis unparse.simps(2))
next
  case (Pipe a b)
  have p: "reads_pipe (Pipe a b)" using Pipe reads_Pipe by simp
  then have b: "reads_back (Pipe a b)" by (rule pipe_back) (simp add: paren_def)
  then have l: "reads_line (Pipe a b)" by (rule back_line) (simp add: paren_def)
  then have "reads_exec (Pipe a b)" by (rule reads_paren) (simp add: paren_def)
  then show ?case using p b l by blast
next
  case (Back c)
  then have b: "reads_back (Back c)" using reads_Back by simp
  then have l: "reads_line (Back c)" by (rule back_line) (simp add: paren_def)
  then have e: "reads_exec (Back c)" by (rule reads_paren) (simp add: paren_def)
  then have "reads_pipe (Back c)" by (rule exec_pipe) (simp add: paren_def)
  then show ?case using b e l by blast
next
  case (List a b)
  then have l: "reads_line (List a b)" using reads_List by simp
  then have e: "reads_exec (List a b)" by (rule reads_paren) (simp add: paren_def)
  then have p: "reads_pipe (List a b)" by (rule exec_pipe) (simp add: paren_def)
  then have "reads_back (List a b)" by (rule pipe_back) (simp add: paren_def)
  then show ?case using e p l by blast
qed

lemma unparse_nonzero: "cmd_ok c \<Longrightarrow> 0 \<notin> set (unparse k c)"
  by (induction c arbitrary: k) (auto simp: pr_words_def pr_redirs_def paren_def redir_ok_def list_all_iff word_ok_def good_def split: if_splits)

text \<open>C35. Round trip of the shell's parser: every command of words, redirections, pipes, sequences and background
  jobs, at any nesting and with fewer than MAXARGS words for a program, written out with the parentheses it
  needs, is parsed to itself. So the grammar's precedences are those of the printer, no ambiguity is left, and
  every such command can be typed.
\<close>

theorem parse_unparse:
  assumes "cmd_ok c"
  shows "parsecmd (unparse 0 c) = Some (Inr c)"
proof -
  define s where "s = unparse 0 c"
  have "follow {41} []" by (simp add: follow_def skip_Nil)
  then obtain n d where d: "parseline n s = Some (Inr (d, []))" "map_cmd tok_text d = c"
    using reads_all [OF assms] unfolding reads_line_def s_def by (metis append_Nil2 skip_Nil)
  obtain x where x: "parseline (parse_fuel s) s = Some x" using parse_enough [of s "parse_fuel s"] by (auto simp: parse_fuel_def)
  have "parseline (max n (parse_fuel s)) s = Some (Inr (d, []))" "parseline (max n (parse_fuel s)) s = Some x"
    using parse_same(1) [of n "max n (parse_fuel s)" s] parse_same(1) [of "parse_fuel s" "max n (parse_fuel s)" s] d(1) x by (auto intro: extends_Some)
  then have "x = Inr (d, [])" by simp
  then show ?thesis using x d(2) unfolding s_def [symmetric] parsecmd_eq [OF unparse_nonzero [OF assms, of 0, folded s_def]]
    by (simp add: skip_Nil)
qed

theorem parse_unparse_witness:
  "parsecmd (unparse 0 (List (Back (Exec [[97]])) (Pipe (Exec [[98], [99]]) (Redir (Pipe (Exec [[100]]) (Exec [[101]])) [102] 0 0))))
     = Some (Inr (List (Back (Exec [[97]])) (Pipe (Exec [[98], [99]]) (Redir (Pipe (Exec [[100]]) (Exec [[101]])) [102] 0 0))))"
  by (rule parse_unparse) (simp add: word_ok_def good_def redir_ok_def is_ws_def is_sym_def MAXARGS_def)

end
