(* ===== verification/VmProps.thy ===== *)
theory VmProps
  imports Vm
begin

section \<open>Address spaces\<close>

text \<open>
  What a page table is as a map, and that \<open>setupkvm\<close>, \<open>copyuvm\<close> and \<open>freevm\<close> keep account of every page.
\<close>

unbundle bit_operations_syntax

subsection \<open>Entries\<close>

lemma or_page:
  assumes "x mod 4096 = 0" "y < (4096 :: nat)"
  shows "x OR y = x + y"
proof -
  obtain q where x: "x = push_bit 12 q" using assms(1) by (auto simp: push_bit_eq_mult dvd_eq_mod_eq_0 [symmetric] mult.commute)
  have "bit y n \<Longrightarrow> n < 12" for n using assms(2) bit_take_bit_iff [of 12 y n] take_bit_nat_eq_self [of y 12] by simp
  then have "x AND y = 0" unfolding x by (intro bit_eqI) (fastforce simp: bit_simps)
  then show ?thesis by (simp add: disjunctive_add_eq_or)
qed

lemma flag_P: "flag e PTE_P \<longleftrightarrow> odd e"
  by (simp add: flag_def PTE_P_def and_one_eq odd_iff_mod_2_eq_one)

text \<open>An entry: the frame's address with some of the low bits.\<close>

lemma entry_simps:
  assumes "x mod 4096 = 0" "y < 4096"
  shows "PTE_ADDR (x OR y) = x" "PTE_FLAGS (x OR y) = y" "flag (x OR y) PTE_P = odd y"
proof -
  have "odd (x + y) = odd y" using assms(1) by (metis even_numeral even_plus_one_iff even_add mod_0_imp_dvd dvd_trans even_numeral dvd_def numeral_Bit0_eq_double)
  then show "PTE_ADDR (x OR y) = x" "PTE_FLAGS (x OR y) = y" "flag (x OR y) PTE_P = odd y"
    using assms by (auto simp: or_page PTE_ADDR_def PTE_FLAGS_def flag_P)
qed

lemma perm_P: "perm < 4096 \<Longrightarrow> perm OR PTE_P < 4096 \<and> odd (perm OR PTE_P)"
proof -
  assume a: "perm < 4096"
  have "perm OR PTE_P = (if even perm then perm + 1 else perm)" by (simp add: PTE_P_def or_Suc_0_eq)
  moreover have "perm + 1 < 4096" if "even perm" using a that by (auto elim!: evenE)
  ultimately show ?thesis using a by simp
qed

lemma kern_P2V: "a < 4294967296 \<Longrightarrow> P2V (V2P a) = a"
  by (simp add: P2V_def V2P_def const_defs u32_def mod_add_left_eq add.assoc)

lemma V2P_high: "KERNBASE \<le> a \<Longrightarrow> a < 4294967296 \<Longrightarrow> V2P a = a - KERNBASE"
proof -
  assume a: "KERNBASE \<le> a" "a < 4294967296"
  have e: "a + 2147483648 = (a - 2147483648) + 4294967296" using a(1) by (simp add: KERNBASE_def)
  have "(a + 2147483648) mod 4294967296 = a - 2147483648" unfolding e using a(2) by simp
  then show ?thesis by (simp add: V2P_def u32_def KERNBASE_def)
qed

lemma page_ok_facts:
  assumes "page_ok e p" "KERNLINK \<le> e"
  shows "p mod 4096 = 0" "KERNLINK \<le> p" "p + 4096 \<le> KERNBASE + PHYSTOP" "P2V (V2P p) = p" "V2P p = p - KERNBASE" "V2P p mod 4096 = 0" "V2P p \<noteq> 0" "p < 4294967296" "p \<noteq> 0"
proof -
  have p: "p mod 4096 = 0" "e \<le> p" "p < 4294967296" "V2P p < PHYSTOP" using assms(1) by (simp_all add: page_ok_def const_defs)
  have l: "KERNLINK \<le> p" using p(2) assms(2) by simp
  have v: "V2P p = p - KERNBASE" "KERNLINK \<le> p" using l V2P_high [OF _ p(3)] by (simp_all add: KERNLINK_def)
  then have "p < KERNBASE + PHYSTOP" using p(4) by (simp add: const_defs)
  moreover obtain q where q: "p = 4096 * q" using p(1) by auto
  ultimately have "p + 4096 \<le> KERNBASE + PHYSTOP" by (simp add: const_defs)
  moreover have "p - KERNBASE = 4096 * (q - 524288)" using v(2) by (simp add: q const_defs)
  then have "(p - KERNBASE) mod 4096 = 0" by simp
  ultimately show "p mod 4096 = 0" "KERNLINK \<le> p" "p + 4096 \<le> KERNBASE + PHYSTOP" "P2V (V2P p) = p" "V2P p = p - KERNBASE" "V2P p mod 4096 = 0" "V2P p \<noteq> 0" "p < 4294967296" "p \<noteq> 0"
    using p v kern_P2V [OF p(3)] by (auto simp: const_defs)
qed

subsection \<open>Pages of memory\<close>

text \<open>Two states that agree outside the pages \<open>S\<close>, and in the linker's symbols.\<close>

definition same_out :: "nat set \<Rightarrow> kmem \<Rightarrow> kmem \<Rightarrow> bool" where
  "same_out S k k' \<longleftrightarrow> (\<forall>i. PGROUNDDOWN i \<notin> S \<longrightarrow> mem k' i = mem k i) \<and> kend k' = kend k \<and> kdata k' = kdata k"

lemma same_refl: "same_out S k k"
  by (simp add: same_out_def)

lemma same_trans: "same_out S k k' \<Longrightarrow> same_out S k' k'' \<Longrightarrow> same_out S k k''"
  by (simp add: same_out_def)

lemma same_mono: "same_out S k k' \<Longrightarrow> S \<subseteq> S' \<Longrightarrow> same_out S' k k'"
  by (auto simp: same_out_def)

lemma page_of: "p mod 4096 = 0 \<Longrightarrow> PGROUNDDOWN i = p \<longleftrightarrow> p \<le> i \<and> i < p + 4096"
  unfolding PGROUNDDOWN_def PGSIZE_def by auto

lemma word_page: "t mod 4096 = 0 \<Longrightarrow> j < 1024 \<Longrightarrow> t + 4 * j \<le> i \<Longrightarrow> i < t + 4 * j + 4 \<Longrightarrow> PGROUNDDOWN i = t"
  by (simp add: page_of)

lemma same_word: "same_out S k k' \<Longrightarrow> t mod 4096 = 0 \<Longrightarrow> t \<notin> S \<Longrightarrow> j < 1024 \<Longrightarrow> rd32 (mem k') (t + 4 * j) = rd32 (mem k) (t + 4 * j)"
  using word_page by (intro rd32_cong) (auto simp: same_out_def)

lemma kst_run: "kst a v k = Inr ((), k\<lparr>mem := wr32 (mem k) a v\<rparr>)" "kld a k = Inr (rd32 (mem k) a, k)"
  "kzero a k = Inr ((), k\<lparr>mem := fill (mem k) a PGSIZE 0\<rparr>)"
  by (simp_all add: kst_def kld_def kzero_def upd_def gets_def memset_fill)

lemma kst_same: "t mod 4096 = 0 \<Longrightarrow> j < 1024 \<Longrightarrow> same_out {t} k (k\<lparr>mem := wr32 (mem k) (t + 4 * j) v\<rparr>)"
proof -
  assume t: "t mod 4096 = 0" "j < 1024"
  have "wr32 (mem k) (t + 4 * j) v i = mem k i" if "PGROUNDDOWN i \<noteq> t" for i
    using word_page [OF t, of i] that by (intro wr32_other) (meson not_le)
  then show ?thesis by (simp add: same_out_def)
qed

lemma fill_same: "t mod 4096 = 0 \<Longrightarrow> same_out {t} k (k\<lparr>mem := fill (mem k) t PGSIZE c\<rparr>)"
  by (auto simp: same_out_def fill_def page_of PGSIZE_def)

lemma kinv_same:
  assumes "kinv k ps" "same_out S k k'" "S \<inter> set ps = {}" "freelist k' = freelist k"
  shows "kinv k' ps"
proof -
  have "flist (mem k') (freelist k) ps = flist (mem k) (freelist k) ps"
  proof (rule flist_cong)
    fix p i assume p: "p \<in> set ps" and i: "p \<le> i" "i < p + PGSIZE"
    then have "p mod 4096 = 0" using assms(1) by (auto simp: kinv_def page_ok_def PGSIZE_def)
    then have "PGROUNDDOWN i = p" using i by (simp add: page_of PGSIZE_def)
    then show "mem k' i = mem k i" using assms(2,3) p by (auto simp: same_out_def)
  qed
  then show ?thesis using assms by (simp add: kinv_def same_out_def)
qed

lemma kfree_run:
  assumes "kinv k ps" "page_ok (kend k) p" "p \<notin> set ps"
  obtains k' where "kfree p k = Inr ((), k')" "kinv k' (p # ps)" "same_out {p} k k'"
proof -
  have "p mod 4096 = 0" using assms(2) by (simp add: page_ok_def PGSIZE_def)
  note pg = page_of [OF this]
  obtain k' where k: "kfree p k = Inr ((), k')" "kinv k' (p # ps)" "kend k' = kend k" "\<forall>i. i < p \<or> p + PGSIZE \<le> i \<longrightarrow> mem k' i = mem k i"
    using kfree_ok [OF assms] by blast
  moreover have "kdata k' = kdata k" using k(1) by (auto simp: kfree_def split: if_splits)
  moreover have "mem k' i = mem k i" if "PGROUNDDOWN i \<notin> {p}" for i using k(4) that pg [of i] by (simp add: PGSIZE_def) (meson not_le)
  ultimately show thesis using that [of k'] by (simp add: same_out_def)
qed

subsection \<open>Page tables as maps\<close>

text \<open>The page tables of a directory, by index, and the entry for an address; an entry that has no table is 0.\<close>

type_synonym tabs = "nat \<rightharpoonup> nat"

definition tent :: "tabs \<Rightarrow> block \<Rightarrow> nat \<Rightarrow> nat" where
  "tent T m va = (case T (PDX va) of None \<Rightarrow> 0 | Some t \<Rightarrow> rd32 m (t + 4 * PTX va))"

definition dir_ok :: "kmem \<Rightarrow> nat \<Rightarrow> tabs \<Rightarrow> bool" where
  "dir_ok k d T \<longleftrightarrow> page_ok (kend k) d \<and> dom T \<subseteq> {..<1024} \<and>
     (\<forall>i<1024. case T i of
        None \<Rightarrow> \<not> flag (rd32 (mem k) (d + 4 * i)) PTE_P
      | Some t \<Rightarrow> page_ok (kend k) t \<and> t \<noteq> d \<and> flag (rd32 (mem k) (d + 4 * i)) PTE_P \<and> PTE_ADDR (rd32 (mem k) (d + 4 * i)) = V2P t) \<and>
     inj_on T (dom T)"

text \<open>The user's frames: \<open>F\<close> maps the base of each mapped user page to the page in kernel memory.\<close>

definition frames_ok :: "kmem \<Rightarrow> tabs \<Rightarrow> (nat \<rightharpoonup> nat) \<Rightarrow> bool" where
  "frames_ok k T F \<longleftrightarrow> dom F \<subseteq> {va. va mod 4096 = 0 \<and> va < KERNBASE} \<and> inj_on F (dom F) \<and>
     (\<forall>va<KERNBASE. va mod 4096 = 0 \<longrightarrow> (case F va of
        None \<Rightarrow> \<not> flag (tent T (mem k) va) PTE_P
      | Some p \<Rightarrow> page_ok (kend k) p \<and> flag (tent T (mem k) va) PTE_P \<and> PTE_ADDR (tent T (mem k) va) = V2P p))"

text \<open>An address space, with the pages \<open>P\<close> that it and the free list share out.\<close>

definition aspace :: "nat set \<Rightarrow> kmem \<Rightarrow> nat list \<Rightarrow> nat \<Rightarrow> tabs \<Rightarrow> (nat \<rightharpoonup> nat) \<Rightarrow> bool" where
  "aspace P k ps d T F \<longleftrightarrow> KERNLINK \<le> kend k \<and> kinv k ps \<and> dir_ok k d T \<and> frames_ok k T F \<and>
     set ps \<union> insert d (ran T) \<union> ran F = P \<and> set ps \<inter> insert d (ran T) = {} \<and> set ps \<inter> ran F = {} \<and> insert d (ran T) \<inter> ran F = {}"

lemma PDX_less [simp]: "PDX va < 1024" "PTX va < 1024"
  by (simp_all add: PDX_def PTX_def)

lemma same_entry:
  assumes "va < 4294967296" "va' < 4294967296"
  shows "PDX va = PDX va' \<and> PTX va = PTX va' \<longleftrightarrow> va div 4096 = va' div 4096"
proof -
  have "PDX x = x div 4096 div 1024" if "x < 4294967296" for x using that by (simp add: PDX_def div_mult2_eq [symmetric] less_mult_imp_div_less)
  then show ?thesis using assms by (metis PTX_def div_mult_mod_eq)
qed

subsection \<open>Changes that keep an address space\<close>

lemma dir_okD:
  assumes "dir_ok k d T" "T i = Some t"
  shows "i < 1024" "page_ok (kend k) t" "t \<noteq> d" "flag (rd32 (mem k) (d + 4 * i)) PTE_P" "PTE_ADDR (rd32 (mem k) (d + 4 * i)) = V2P t" "T j = Some t \<Longrightarrow> j = i"
proof -
  show i: "i < 1024" using assms by (auto simp: dir_ok_def)
  show "page_ok (kend k) t" "t \<noteq> d" "flag (rd32 (mem k) (d + 4 * i)) PTE_P" "PTE_ADDR (rd32 (mem k) (d + 4 * i)) = V2P t"
    using assms i by (auto simp: dir_ok_def)
  show "T j = Some t \<Longrightarrow> j = i" using assms by (auto simp: dir_ok_def inj_on_def dom_def)
qed

lemma dir_none: "dir_ok k d T \<Longrightarrow> T i = None \<Longrightarrow> i < 1024 \<Longrightarrow> \<not> flag (rd32 (mem k) (d + 4 * i)) PTE_P"
  unfolding dir_ok_def by (drule conjunct2, drule conjunct2, drule conjunct1, drule spec [of _ i]) simp

lemma page_aligned: "page_ok e p \<Longrightarrow> p mod 4096 = 0"
  by (simp add: page_ok_def PGSIZE_def)

lemma tent_same:
  assumes "dir_ok k d T" "same_out S k k'" "ran T \<inter> S = {}"
  shows "tent T (mem k') va = tent T (mem k) va"
proof (cases "T (PDX va)")
  case (Some t)
  then have "t mod 4096 = 0" "t \<notin> S" using dir_okD(2) [OF assms(1) Some] assms(3) page_aligned by (auto simp: ran_def)
  then show ?thesis using same_word [OF assms(2)] Some by (simp add: tent_def)
qed (simp add: tent_def)

lemma dir_same:
  assumes "dir_ok k d T" "same_out S k k'" "d \<notin> S"
  shows "dir_ok k' d T"
proof -
  have d: "d mod 4096 = 0" using assms(1) page_aligned by (auto simp: dir_ok_def)
  have "rd32 (mem k') (d + 4 * i) = rd32 (mem k) (d + 4 * i)" if "i < 1024" for i using same_word [OF assms(2) d assms(3) that] .
  then show ?thesis using assms(1,2) unfolding dir_ok_def same_out_def by (simp cong: option.case_cong)
qed

lemma frames_same:
  assumes "frames_ok k T F" "\<And>va. va < KERNBASE \<Longrightarrow> va mod 4096 = 0 \<Longrightarrow> tent T' (mem k') va = tent T (mem k) va" "kend k' = kend k"
  shows "frames_ok k' T' F"
proof -
  have "case F va of None \<Rightarrow> \<not> flag (tent T' (mem k') va) PTE_P
      | Some p \<Rightarrow> page_ok (kend k') p \<and> flag (tent T' (mem k') va) PTE_P \<and> PTE_ADDR (tent T' (mem k') va) = V2P p"
    if "va < KERNBASE" "va mod 4096 = 0" for va using assms(1) that unfolding assms(2) [OF that] assms(3) frames_ok_def by simp
  then show ?thesis using assms(1) unfolding frames_ok_def by blast
qed

lemma framesD:
  "frames_ok k T F \<Longrightarrow> va < KERNBASE \<Longrightarrow> va mod 4096 = 0 \<Longrightarrow> case F va of None \<Rightarrow> \<not> flag (tent T (mem k) va) PTE_P
      | Some p \<Rightarrow> page_ok (kend k) p \<and> flag (tent T (mem k) va) PTE_P \<and> PTE_ADDR (tent T (mem k) va) = V2P p"
  by (simp add: frames_ok_def)

lemma aspaceD:
  assumes "aspace P k ps d T F"
  shows "KERNLINK \<le> kend k" "kinv k ps" "dir_ok k d T" "frames_ok k T F" "page_ok (kend k) d" "d \<notin> set ps" "ran T \<inter> set ps = {}" "d \<notin> ran T" "d \<in> P" "ran T \<subseteq> P" "set ps \<subseteq> P" "d \<notin> ran F" "ran T \<inter> ran F = {}"
proof -
  show "KERNLINK \<le> kend k" "kinv k ps" "dir_ok k d T" "frames_ok k T F" "d \<notin> set ps" "ran T \<inter> set ps = {}" "d \<in> P" "ran T \<subseteq> P" "set ps \<subseteq> P"
    "d \<notin> ran F" "ran T \<inter> ran F = {}"
    using assms by (auto simp: aspace_def)
  then show "page_ok (kend k) d" "d \<notin> ran T" using dir_okD(3) by (auto simp: dir_ok_def ran_def) blast
qed

text \<open>A change outside the address space and the free list.\<close>

lemma aspace_same:
  assumes "aspace P k ps d T F" "same_out S k k'" "S \<inter> P = {}" "freelist k' = freelist k"
  shows "aspace P k' ps d T F"
proof -
  note a = aspaceD [OF assms(1)]
  have "kend k' = kend k" using assms(2) by (simp add: same_out_def)
  moreover have "kinv k' ps" using kinv_same [OF a(2) assms(2) _ assms(4)] a(11) assms(3) by blast
  moreover have "dir_ok k' d T" using dir_same [OF a(3) assms(2)] a(9) assms(3) by blast
  moreover have "frames_ok k' T F" using frames_same [OF a(4) tent_same [OF a(3) assms(2)]] a(10) assms(3) calculation(1) by blast
  ultimately show ?thesis using assms(1) unfolding aspace_def by simp
qed

text \<open>A new page table.\<close>

lemma aspace_table:
  assumes a: "aspace P k (t # ps) d T F" and i: "i < 1024" and T: "T i = None" and k': "kinv k' ps" "same_out {d, t} k k'"
    and e: "flag (rd32 (mem k') (d + 4 * i)) PTE_P" "PTE_ADDR (rd32 (mem k') (d + 4 * i)) = V2P t"
    and same: "\<And>j. j < 1024 \<Longrightarrow> j \<noteq> i \<Longrightarrow> rd32 (mem k') (d + 4 * j) = rd32 (mem k) (d + 4 * j)"
    and zero: "\<And>j. j < 1024 \<Longrightarrow> rd32 (mem k') (t + 4 * j) = 0"
  shows "aspace P k' ps d (T(i \<mapsto> t)) F" "tent (T(i \<mapsto> t)) (mem k') va = tent T (mem k) va"
proof -
  note f = aspaceD [OF a]
  have t: "page_ok (kend k) t" "t \<noteq> d" "t \<notin> ran T" "t \<notin> set ps" "t \<notin> ran F" using a f(2) by (auto simp: aspace_def kinv_def)
  have ke: "kend k' = kend k" using k'(2) by (simp add: same_out_def)
  have "inj_on T (dom T)" using f(3) by (simp add: dir_ok_def)
  then have "inj_on (T(i \<mapsto> t)) (dom (T(i \<mapsto> t)))" using t(3) T by (auto simp: inj_on_def ran_def)
  then have "dir_ok k' d (T(i \<mapsto> t))" using f(3) i e t(1,2) same by (auto simp: dir_ok_def ke split: option.splits)
  moreover have te: "tent (T(i \<mapsto> t)) (mem k') va = tent T (mem k) va" for va
  proof (cases "PDX va = i")
    case True
    then show ?thesis using zero T by (simp add: tent_def)
  next
    case False
    show ?thesis
    proof (cases "T (PDX va)")
      case (Some u)
      have "u \<notin> {d, t}" using dir_okD(3) [OF f(3) Some] t(3) Some by (auto simp: ran_def)
      then show ?thesis using same_word [OF k'(2) page_aligned [OF dir_okD(2) [OF f(3) Some]]] Some False by (simp add: tent_def)
    qed (use False in \<open>simp add: tent_def\<close>)
  qed
  moreover have "frames_ok k' (T(i \<mapsto> t)) F" using frames_same [OF f(4) te ke] .
  moreover have "ran (T(i \<mapsto> t)) = insert t (ran T)" using T by simp
  ultimately show "aspace P k' ps d (T(i \<mapsto> t)) F" "tent (T(i \<mapsto> t)) (mem k') va = tent T (mem k) va"
    using a k'(1) t unfolding aspace_def by (auto simp: ke)
qed

subsection \<open>walkpgdir\<close>

lemma walk_dir:
  assumes "dir_ok k d T" "KERNLINK \<le> kend k"
  shows "walkpgdir d va False k = Inr (map_option (\<lambda>t. t + 4 * PTX va) (T (PDX va)), k)"
    and "T (PDX va) = Some t \<Longrightarrow> walkpgdir d va True k = Inr (Some (t + 4 * PTX va), k)"
proof -
  have t: "P2V (PTE_ADDR (rd32 (mem k) (d + 4 * PDX va))) = t" "flag (rd32 (mem k) (d + 4 * PDX va)) PTE_P" if "T (PDX va) = Some t" for t
    using dir_okD(4,5) [OF assms(1) that] page_ok_facts(4) [OF dir_okD(2) [OF assms(1) that] assms(2)] by simp_all
  have n: "\<not> flag (rd32 (mem k) (d + 4 * PDX va)) PTE_P" if "T (PDX va) = None"
    using dir_none [OF assms(1) that] by simp
  show "walkpgdir d va False k = Inr (map_option (\<lambda>t. t + 4 * PTX va) (T (PDX va)), k)"
    using t n by (cases "T (PDX va)") (simp_all add: walkpgdir_def kern_simps kst_run)
  show "T (PDX va) = Some t \<Longrightarrow> walkpgdir d va True k = Inr (Some (t + 4 * PTX va), k)"
    using t by (simp add: walkpgdir_def kern_simps kst_run)
qed

lemma walk_find:
  assumes "aspace P k ps d T F"
  shows "walkpgdir d va False k = Inr (map_option (\<lambda>t. t + 4 * PTX va) (T (PDX va)), k)"
    and "T (PDX va) = Some t \<Longrightarrow> walkpgdir d va True k = Inr (Some (t + 4 * PTX va), k)"
  using walk_dir [OF aspaceD(3,1) [OF assms]] by auto

text \<open>With a new table where there is none; \<open>walked\<close> is the state after a walk that found an entry.\<close>

definition walked :: "nat set \<Rightarrow> kmem \<Rightarrow> nat \<Rightarrow> tabs \<Rightarrow> (nat \<rightharpoonup> nat) \<Rightarrow> nat \<Rightarrow> kmem \<Rightarrow> nat list \<Rightarrow> tabs \<Rightarrow> nat \<Rightarrow> bool" where
  "walked P k d T F va k' ps' T' t \<longleftrightarrow> aspace P k' ps' d T' F \<and> same_out (P - ran F) k k' \<and> T' (PDX va) = Some t \<and> (\<forall>va. tent T' (mem k') va = tent T (mem k) va) \<and>
     dom T' \<subseteq> insert (PDX va) (dom T)"

lemma walk_alloc:
  assumes a: "aspace P k ps d T F"
  obtains "walkpgdir d va True k = Inr (None, k)" "ps = []" "T (PDX va) = None" | k' ps' T' t where "walkpgdir d va True k = Inr (Some (t + 4 * PTX va), k')" "walked P k d T F va k' ps' T' t"
proof (cases "T (PDX va)")
  case (Some t)
  then show thesis using that(2) [OF walk_find(2) [OF a Some], of ps T] a by (auto simp: walked_def same_refl)
next
  case None
  note f = aspaceD [OF a]
  have n: "\<not> flag (rd32 (mem k) (d + 4 * PDX va)) PTE_P" using dir_none [OF f(3) None] by simp
  obtain k1 where k1: "kalloc k = Inr (if ps = [] then 0 else hd ps, k1)" "kinv k1 (tl ps)" "kend k1 = kend k" "mem k1 = mem k"
    using kalloc_ok [OF f(2)] by blast
  have kd: "kdata k1 = kdata k" using k1(1) by (auto simp: kalloc_def Let_def split: if_splits)
  show thesis
  proof (cases ps)
    case Nil
    then have "k1 = k" using k1(1) f(2) by (simp add: kalloc_def kinv_def)
    then show thesis using that(1) [OF _ Nil None] n k1(1) Nil by (simp add: walkpgdir_def kern_simps kst_run)
  next
    case (Cons t qs)
    have t: "page_ok (kend k) t" "t \<notin> set qs" "t \<in> P" "d \<noteq> t" "t \<notin> ran F" using f(2) a by (auto simp: Cons kinv_def aspace_def)
    note pg = page_ok_facts [OF t(1) f(1)] and dpg = page_ok_facts(1) [OF f(5,1)]
    define k2 where "k2 = k1\<lparr>mem := fill (mem k1) t PGSIZE 0\<rparr>"
    define e where "e = V2P t OR PTE_P OR PTE_W OR PTE_U"
    define k3 where "k3 = k2\<lparr>mem := wr32 (mem k2) (d + 4 * PDX va) e\<rparr>"
    have "same_out {t} k1 k2" using fill_same [OF pg(1)] by (simp add: k2_def)
    moreover have "same_out {d} k2 k3" using kst_same [OF dpg PDX_less(1)] by (simp add: k3_def)
    ultimately have s: "same_out {d, t} k1 k3" using same_trans same_mono [of _ _ _ "{d, t}"] by blast
    have i: "kinv k3 qs" using kinv_same [OF k1(2) s] f(6) t(2) Cons by (simp add: k3_def k2_def)
    have e7: "e = V2P t OR 7" by (simp add: e_def const_defs or.assoc)
    have el: "u32 e = e" using or_page [OF pg(6), of 7] pg(3,5) by (simp add: e7 const_defs)
    have w: "rd32 (mem k3) (d + 4 * PDX va) = e" by (simp add: k3_def el)
    have o: "rd32 (mem k3) (d + 4 * j) = rd32 (mem k) (d + 4 * j)" if "j < 1024" "j \<noteq> PDX va" for j
    proof -
      have "rd32 (mem k3) (d + 4 * j) = rd32 (mem k2) (d + 4 * j)" unfolding k3_def using that by (simp, intro rd32_wr32_other) linarith
      then show ?thesis using same_word [OF \<open>same_out {t} k1 k2\<close> dpg _ that(1)] t(4) k1(4) by simp
    qed
    have z: "rd32 (mem k3) (t + 4 * j) = 0" if "j < 1024" for j
      using same_word [OF \<open>same_out {d} k2 k3\<close> pg(1) _ that] t(4) that by (simp add: k2_def rd32_def fill_def PGSIZE_def)
    have s': "same_out {d, t} k k3" using s k1(3,4) kd by (simp add: same_out_def)
    note tb = aspace_table [OF a [unfolded Cons] PDX_less(1) None i s' _ _ o z, unfolded w e7]
    have "walkpgdir d va True k = Inr (Some (t + 4 * PTX va), k3)"
      using n k1(1) pg(9) Cons by (simp add: walkpgdir_def kern_simps kst_run k3_def k2_def e_def)
    moreover have "walked P k d T F va k3 qs (T(PDX va \<mapsto> t)) t"
      using tb same_mono [OF s', of "P - ran F"] t(3,5) f(9,12) entry_simps [OF pg(6), of 7] by (auto simp: walked_def)
    ultimately show thesis using that(2) by blast
  qed
qed

subsection \<open>Writing an entry\<close>

lemma set_entry:
  assumes a: "aspace P k ps d T F" and T: "T (PDX va) = Some t" and va: "va < 4294967296"
    and k': "k' = k\<lparr>mem := wr32 (mem k) (t + 4 * PTX va) v\<rparr>"
  shows "kinv k' ps" "dir_ok k' d T" "same_out (P - ran F) k k'"
    and "va' < 4294967296 \<Longrightarrow> tent T (mem k') va' = (if va' div 4096 = va div 4096 then u32 v else tent T (mem k) va')"
proof -
  note f = aspaceD [OF a]
  have t: "page_ok (kend k) t" "t \<in> ran T" "t mod 4096 = 0" "t \<noteq> d" using dir_okD(2,3) [OF f(3) T] page_aligned T by (auto simp: ran_def)
  have s: "same_out {t} k k'" unfolding k' by (rule kst_same [OF t(3) PDX_less(2)])
  show "kinv k' ps" using kinv_same [OF f(2) s] t(2) f(7) by (auto simp: k')
  show "dir_ok k' d T" using dir_same [OF f(3) s] t(4) by blast
  have "{t} \<subseteq> P - ran F" using t(2) f(10,13) by auto
  then show "same_out (P - ran F) k k'" by (rule same_mono [OF s])
  assume va': "va' < 4294967296"
  show "tent T (mem k') va' = (if va' div 4096 = va div 4096 then u32 v else tent T (mem k) va')"
  proof (cases "va' div 4096 = va div 4096")
    case True
    then have "PDX va' = PDX va" "PTX va' = PTX va" using same_entry [OF va' va] by auto
    then show ?thesis using T True by (simp add: tent_def k')
  next
    case False
    show ?thesis
    proof (cases "T (PDX va')")
      case (Some u)
      show ?thesis
      proof (cases "u = t")
        case True
        then have "PDX va' = PDX va" using dir_okD(6) [OF f(3) T, of "PDX va'"] Some by simp
        then have "PTX va' \<noteq> PTX va" using same_entry [OF va' va] False by blast
        then have "t + 4 * PTX va' + 4 \<le> t + 4 * PTX va \<or> t + 4 * PTX va + 4 \<le> t + 4 * PTX va'" by linarith
        then show ?thesis using Some False True by (simp add: tent_def k')
      next
        case ne: False
        then show ?thesis using same_word [OF s page_aligned [OF dir_okD(2) [OF f(3) Some]]] Some False by (simp add: tent_def)
      qed
    qed (use False in \<open>simp add: tent_def\<close>)
  qed
qed

lemma page_base: "va mod 4096 = 0 \<Longrightarrow> va' mod 4096 = 0 \<Longrightarrow> va' div 4096 = va div 4096 \<longleftrightarrow> va' = (va :: nat)"
  by (metis div_mult_mod_eq)

text \<open>An entry of the kernel's part, of a new user page, and of a user page that goes.\<close>

lemma set_kernel:
  assumes a: "aspace P k ps d T F" and T: "T (PDX va) = Some t" and va: "KERNBASE \<le> va" "va < 4294967296"
  shows "aspace P (k\<lparr>mem := wr32 (mem k) (t + 4 * PTX va) v\<rparr>) ps d T F"
proof -
  note s = set_entry [OF a T va(2) refl, where v = v] and f = aspaceD [OF a]
  have "frames_ok (k\<lparr>mem := wr32 (mem k) (t + 4 * PTX va) v\<rparr>) T F"
  proof (rule frames_same [OF f(4)])
    fix va' assume v: "va' < KERNBASE" "va' mod 4096 = 0"
    have "va' div 4096 < 524288" using v(1) by (simp add: KERNBASE_def less_mult_imp_div_less)
    moreover have "524288 \<le> va div 4096" using div_le_mono [OF va(1), of 4096] by (simp add: KERNBASE_def)
    ultimately have "va' div 4096 \<noteq> va div 4096" by linarith
    then show "tent T (mem (k\<lparr>mem := wr32 (mem k) (t + 4 * PTX va) v\<rparr>)) va' = tent T (mem k) va'"
      using s(4) [of va'] v by (simp add: KERNBASE_def)
  qed simp
  then show ?thesis using a s(1,2) unfolding aspace_def by simp
qed

lemma set_user:
  assumes a: "aspace P k ps d T F" and T: "T (PDX va) = Some t" and va: "va < KERNBASE" "va mod 4096 = 0"
    and F: "F va = None" and p: "page_ok (kend k) p" "p \<notin> P" and fl: "odd fl" "fl < 4096"
  shows "aspace (insert p P) (k\<lparr>mem := wr32 (mem k) (t + 4 * PTX va) (V2P p OR fl)\<rparr>) ps d T (F(va \<mapsto> p))"
proof -
  note f = aspaceD [OF a]
  have v: "va < 4294967296" using va(1) by (simp add: KERNBASE_def)
  define k' where "k' = k\<lparr>mem := wr32 (mem k) (t + 4 * PTX va) (V2P p OR fl)\<rparr>"
  note s = set_entry [OF a T v k'_def] and pg = page_ok_facts [OF p(1) f(1)]
  have e: "u32 (V2P p OR fl) = V2P p OR fl" using or_page [OF pg(6) fl(2)] pg(3,5) fl(2) by (simp add: const_defs)
  have te: "tent T (mem k') va' = (if va' = va then V2P p OR fl else tent T (mem k) va')" if "va' < KERNBASE" "va' mod 4096 = 0" for va'
    using s(4) [of va'] that page_base [OF va(2) that(2)] e by (simp add: KERNBASE_def)
  have rF: "ran F \<subseteq> P" "p \<notin> ran F" using a p(2) by (auto simp: aspace_def)
  have "inj_on F (dom F)" using f(4) by (simp add: frames_ok_def)
  then have inj: "inj_on (F(va \<mapsto> p)) (dom (F(va \<mapsto> p)))" using rF(2) F by (auto simp: inj_on_def ran_def)
  have ke: "kend k' = kend k" by (simp add: k'_def)
  have fr: "frames_ok k' T (F(va \<mapsto> p))" unfolding frames_ok_def
  proof (intro conjI allI impI)
    show "dom (F(va \<mapsto> p)) \<subseteq> {va. va mod 4096 = 0 \<and> va < KERNBASE}" using f(4) va by (auto simp: frames_ok_def)
    fix va' assume v': "va' < KERNBASE" "va' mod 4096 = 0"
    show "case (F(va \<mapsto> p)) va' of None \<Rightarrow> \<not> flag (tent T (mem k') va') PTE_P
      | Some p \<Rightarrow> page_ok (kend k') p \<and> flag (tent T (mem k') va') PTE_P \<and> PTE_ADDR (tent T (mem k') va') = V2P p"
      using framesD [OF f(4) v'] entry_simps [OF pg(6) fl(2)] fl(1) p(1) unfolding te [OF v'] ke by (cases "va' = va") simp_all
  qed (rule inj)
  have "ran (F(va \<mapsto> p)) = insert p (ran F)" using F by simp
  then show ?thesis using a s(1,2) fr p(2) unfolding aspace_def k'_def [symmetric] ke by auto
qed

lemma clear_user:
  assumes a: "aspace P k ps d T F" and T: "T (PDX va) = Some t" and va: "va < KERNBASE" "va mod 4096 = 0" and F: "F va = Some p"
  shows "aspace (P - {p}) (k\<lparr>mem := wr32 (mem k) (t + 4 * PTX va) 0\<rparr>) ps d T (F(va := None))"
proof -
  note f = aspaceD [OF a]
  have v: "va < 4294967296" using va(1) by (simp add: KERNBASE_def)
  define k' where "k' = k\<lparr>mem := wr32 (mem k) (t + 4 * PTX va) 0\<rparr>"
  note s = set_entry [OF a T v k'_def]
  have te: "tent T (mem k') va' = (if va' = va then 0 else tent T (mem k) va')" if "va' < KERNBASE" "va' mod 4096 = 0" for va'
    using s(4) [of va'] that page_base [OF va(2) that(2)] by (simp add: KERNBASE_def)
  have ke: "kend k' = kend k" by (simp add: k'_def)
  have fr: "frames_ok k' T (F(va := None))" unfolding frames_ok_def
  proof (intro conjI allI impI)
    show "dom (F(va := None)) \<subseteq> {va. va mod 4096 = 0 \<and> va < KERNBASE}" "inj_on (F(va := None)) (dom (F(va := None)))"
      using f(4) by (auto simp: frames_ok_def inj_on_def)
    fix va' assume v': "va' < KERNBASE" "va' mod 4096 = 0"
    show "case (F(va := None)) va' of None \<Rightarrow> \<not> flag (tent T (mem k') va') PTE_P
      | Some p \<Rightarrow> page_ok (kend k') p \<and> flag (tent T (mem k') va') PTE_P \<and> PTE_ADDR (tent T (mem k') va') = V2P p"
      using framesD [OF f(4) v'] unfolding te [OF v'] ke by (cases "va' = va") (simp_all add: flag_P [of 0])
  qed
  have "inj_on F (dom F)" using f(4) by (simp add: frames_ok_def)
  then have "ran (F(va := None)) = ran F - {p}" using F by (auto simp: ran_def inj_on_def dom_def) (metis option.inject)
  moreover have "p \<in> ran F" using F by (auto simp: ran_def)
  ultimately show ?thesis using a s(1,2) fr unfolding aspace_def k'_def [symmetric] ke by auto
qed

subsection \<open>mappages\<close>

lemma map_step:
  assumes a: "aspace P k ps d T F" and e: "\<not> flag (tent T (mem k) va) PTE_P"
  obtains "\<And>lst n. mappages_loop d va lst pa perm (Suc n) k = Inr (-1, k)" "ps = []" "T (PDX va) = None" | k1 ps' T' t where "walked P k d T F va k1 ps' T' t"
    "\<And>lst n. mappages_loop d va lst pa perm (Suc n) k =
       (if va = lst then ret 0 else mappages_loop d (u32 (va + PGSIZE)) lst (u32 (pa + PGSIZE)) perm n)
       (k1\<lparr>mem := wr32 (mem k1) (t + 4 * PTX va) (pa OR perm OR PTE_P)\<rparr>)"
proof (rule walk_alloc [OF a, of va])
  assume "walkpgdir d va True k = Inr (None, k)" "ps = []" "T (PDX va) = None"
  then show thesis using that(1) by (simp add: kern_simps)
next
  fix k1 ps' T' t assume w: "walkpgdir d va True k = Inr (Some (t + 4 * PTX va), k1)" "walked P k d T F va k1 ps' T' t"
  have "tent T' (mem k1) va = tent T (mem k) va" "T' (PDX va) = Some t" using w(2) by (simp_all add: walked_def)
  then have "rd32 (mem k1) (t + 4 * PTX va) = tent T (mem k) va" by (simp add: tent_def [of T'])
  then show thesis using that(2) [OF w(2)] w(1) e by (simp add: kern_simps kst_run)
qed

lemma in_page: "(a :: nat) mod 4096 = 0 \<Longrightarrow> va div 4096 = a div 4096 \<longleftrightarrow> a \<le> va \<and> va < a + 4096"
  by auto

lemma base_le:
  assumes "(a :: nat) mod 4096 = 0" "a \<le> va"
  shows "a \<le> va div 4096 * 4096"
proof -
  obtain q where a: "a = 4096 * q" using assms(1) by auto
  have "q \<le> va div 4096" using div_le_mono [OF assms(2), of 4096] by (simp add: a)
  then show ?thesis by (simp add: a)
qed

lemma entry_less:
  assumes "pa mod 4096 = 0" "pa < 4294967296" "perm < 4096"
  shows "u32 (pa OR perm OR PTE_P) = pa OR perm OR PTE_P"
proof -
  obtain q where "pa = 4096 * q" using assms(1) by auto
  then have "pa + 4096 \<le> 4294967296" using assms(2) by simp
  then show ?thesis using or_page [OF assms(1)] perm_P [OF assms(3)] by simp
qed

lemma map_kernel_page:
  assumes a: "aspace P k ps d T F" "\<not> flag (tent T (mem k) va) PTE_P" and va: "KERNBASE \<le> va" "va < 4294967296"
    and pa: "pa mod 4096 = 0" "pa < 4294967296" "perm < 4096"
  obtains "\<And>lst n. mappages_loop d va lst pa perm (Suc n) k = Inr (-1, k)" "ps = []" "T (PDX va) = None" | k' ps' T' where "aspace P k' ps' d T' F" "same_out (P - ran F) k k'"
    "dom T' \<subseteq> insert (PDX va) (dom T)"
    "\<And>va'. va' < 4294967296 \<Longrightarrow> tent T' (mem k') va' = (if va' div 4096 = va div 4096 then pa OR perm OR PTE_P else tent T (mem k) va')"
    "\<And>lst n. mappages_loop d va lst pa perm (Suc n) k =
       (if va = lst then ret 0 else mappages_loop d (u32 (va + PGSIZE)) lst (u32 (pa + PGSIZE)) perm n) k'"
proof (rule map_step [OF a, of pa perm])
  assume "\<And>lst n. mappages_loop d va lst pa perm (Suc n) k = Inr (-1, k)" "ps = []" "T (PDX va) = None"
  then show thesis by (rule that(1))
next
  fix k1 ps' T' t assume w: "walked P k d T F va k1 ps' T' t" and
    l: "\<And>lst n. mappages_loop d va lst pa perm (Suc n) k = (if va = lst then ret 0 else mappages_loop d (u32 (va + PGSIZE)) lst (u32 (pa + PGSIZE)) perm n)
       (k1\<lparr>mem := wr32 (mem k1) (t + 4 * PTX va) (pa OR perm OR PTE_P)\<rparr>)"
  define k' where "k' = k1\<lparr>mem := wr32 (mem k1) (t + 4 * PTX va) (pa OR perm OR PTE_P)\<rparr>"
  have w1: "aspace P k1 ps' d T' F" "same_out (P - ran F) k k1" "T' (PDX va) = Some t" "\<And>va. tent T' (mem k1) va = tent T (mem k) va"
    "dom T' \<subseteq> insert (PDX va) (dom T)"
    using w by (simp_all add: walked_def)
  note s = set_entry [OF w1(1,3) va(2) k'_def]
  show thesis
  proof (rule that(2) [OF _ _ w1(5) _ l [folded k'_def]])
    show "aspace P k' ps' d T' F" unfolding k'_def by (rule set_kernel [OF w1(1,3) va])
    show "same_out (P - ran F) k k'" using w1(2) s(3) by (rule same_trans)
    show "tent T' (mem k') va' = (if va' div 4096 = va div 4096 then pa OR perm OR PTE_P else tent T (mem k) va')" if "va' < 4294967296" for va'
      using s(4) [OF that] w1(4) entry_less [OF pa] by simp
  qed
qed

text \<open>A range of whole pages in the kernel's part. It fails only for want of a page table, and even then keeps
  the account.\<close>

lemma mapkernel:
  assumes "aspace P k ps d T F" "KERNBASE \<le> a" "a mod 4096 = 0" "pa mod 4096 = 0" "a + 4096 * n < 4294967296" "pa + 4096 * n < 4294967296"
    and "perm < 4096" "\<And>va. a \<le> va \<Longrightarrow> va < a + 4096 * Suc n \<Longrightarrow> va < 4294967296 \<Longrightarrow> \<not> flag (tent T (mem k) va) PTE_P"
    and "dom T \<subseteq> D" "\<And>va. a \<le> va \<Longrightarrow> va < a + 4096 * Suc n \<Longrightarrow> PDX va \<in> D"
  shows "\<exists>r k' ps' T'. mappages_loop d a (a + 4096 * n) pa perm (Suc n) k = Inr (r, k') \<and> aspace P k' ps' d T' F \<and> same_out (P - ran F) k k' \<and>
     dom T' \<subseteq> D \<and> (r = -1 \<longrightarrow> ps' = [] \<and> dom T' \<noteq> D) \<and>
     (r = -1 \<or> r = 0 \<and> (\<forall>va<4294967296. tent T' (mem k') va =
        (if a \<le> va \<and> va < a + 4096 * Suc n then (pa + (va div 4096 * 4096 - a)) OR perm OR PTE_P else tent T (mem k) va)))"
  using assms
proof (induction n arbitrary: k ps T a pa)
  case base: 0
  have a: "a < 4294967296" "pa < 4294967296" "\<not> flag (tent T (mem k) a) PTE_P" using base(5,6,8) by auto
  show ?case
  proof (rule map_kernel_page [OF base(1) a(3) base(2) a(1) base(4) a(2) base(7)])
    assume f: "\<And>lst n. mappages_loop d a lst pa perm (Suc n) k = Inr (-1, k)" "ps = []" "T (PDX a) = None"
    have "dom T \<noteq> D" using f(3) base(10) [of a] by auto
    then show ?thesis using base(1,9) same_refl f(1,2) by (intro exI [of _ "-1"] exI [of _ k] exI [of _ ps] exI [of _ T]) simp
  next
    fix k' ps' T' assume k': "aspace P k' ps' d T' F" "same_out (P - ran F) k k'" and dm: "dom T' \<subseteq> insert (PDX a) (dom T)" and k'':
      "\<And>va'. va' < 4294967296 \<Longrightarrow> tent T' (mem k') va' = (if va' div 4096 = a div 4096 then pa OR perm OR PTE_P else tent T (mem k) va')"
      "\<And>lst n. mappages_loop d a lst pa perm (Suc n) k = (if a = lst then ret 0 else mappages_loop d (u32 (a + PGSIZE)) lst (u32 (pa + PGSIZE)) perm n) k'"
    have z: "pa + (va div 4096 * 4096 - a) = pa" if "va div 4096 = a div 4096" for va using that base(3) by auto
    have "tent T' (mem k') va = (if a \<le> va \<and> va < a + 4096 * Suc 0 then (pa + (va div 4096 * 4096 - a)) OR perm OR PTE_P else tent T (mem k) va)"
      if "va < 4294967296" for va using k''(1) [OF that] in_page [OF base(3), of va] z [of va] by auto
    moreover have "dom T' \<subseteq> D" using dm base(9) base(10) [of a] by auto
    ultimately show ?thesis using k' k''(2) by (intro exI [of _ 0] exI [of _ k'] exI [of _ ps'] exI [of _ T']) (simp add: ret_def)
  qed
next
  case (Suc n)
  have a: "a < 4294967296" "pa < 4294967296" "\<not> flag (tent T (mem k) a) PTE_P" using Suc.prems(5,6,8) by auto
  show ?case
  proof (rule map_kernel_page [OF Suc.prems(1) a(3) Suc.prems(2) a(1) Suc.prems(4) a(2) Suc.prems(7)])
    assume f: "\<And>lst n. mappages_loop d a lst pa perm (Suc n) k = Inr (-1, k)" "ps = []" "T (PDX a) = None"
    have "dom T \<noteq> D" using f(3) Suc.prems(10) [of a] by auto
    then show ?thesis using Suc.prems(1,9) same_refl f(1) f(2) by (intro exI [of _ "-1"] exI [of _ k] exI [of _ ps] exI [of _ T]) (simp del: mappages_loop.simps)
  next
    fix k1 ps1 T1 assume k12: "aspace P k1 ps1 d T1 F" "same_out (P - ran F) k k1" and dm: "dom T1 \<subseteq> insert (PDX a) (dom T)" and k34:
      "\<And>va'. va' < 4294967296 \<Longrightarrow> tent T1 (mem k1) va' = (if va' div 4096 = a div 4096 then pa OR perm OR PTE_P else tent T (mem k) va')"
      "\<And>lst n. mappages_loop d a lst pa perm (Suc n) k = (if a = lst then ret 0 else mappages_loop d (u32 (a + PGSIZE)) lst (u32 (pa + PGSIZE)) perm n) k1"
    note k1 = k12 k34
    have dT: "dom T1 \<subseteq> D" using dm Suc.prems(9) Suc.prems(10) [of a] by auto
    have "\<exists>r k' ps' T'. mappages_loop d (a + 4096) (a + 4096 + 4096 * n) (pa + 4096) perm (Suc n) k1 = Inr (r, k') \<and> aspace P k' ps' d T' F \<and> same_out (P - ran F) k1 k' \<and>
     dom T' \<subseteq> D \<and> (r = -1 \<longrightarrow> ps' = [] \<and> dom T' \<noteq> D) \<and>
     (r = -1 \<or> r = 0 \<and> (\<forall>va<4294967296. tent T' (mem k') va =
        (if a + 4096 \<le> va \<and> va < a + 4096 + 4096 * Suc n then (pa + 4096 + (va div 4096 * 4096 - (a + 4096))) OR perm OR PTE_P else tent T1 (mem k1) va)))"
    proof (rule Suc.IH [OF k1(1)])
      show "\<not> flag (tent T1 (mem k1) va) PTE_P" if "a + 4096 \<le> va" "va < a + 4096 + 4096 * Suc n" "va < 4294967296" for va
        using k1(3) [OF that(3)] in_page [OF Suc.prems(3), of va] Suc.prems(8) [of va] that by simp
    qed (use Suc.prems dT in \<open>simp_all add: mod_add_self2\<close>)
    then obtain r k' ps' T' where r: "mappages_loop d (a + 4096) (a + 4096 + 4096 * n) (pa + 4096) perm (Suc n) k1 = Inr (r, k')"
      "aspace P k' ps' d T' F" "same_out (P - ran F) k1 k'" and D: "dom T' \<subseteq> D \<and> (r = -1 \<longrightarrow> ps' = [] \<and> dom T' \<noteq> D)"
      and te: "r = -1 \<or> r = 0 \<and> (\<forall>va<4294967296. tent T' (mem k') va =
        (if a + 4096 \<le> va \<and> va < a + 4096 + 4096 * Suc n then (pa + 4096 + (va div 4096 * 4096 - (a + 4096))) OR perm OR PTE_P else tent T1 (mem k1) va))"
      by blast
    have run: "mappages_loop d a (a + 4096 * Suc n) pa perm (Suc (Suc n)) k = Inr (r, k')"
      using k1(4) [of "a + 4096 * Suc n" "Suc n"] r(1) Suc.prems(5,6) by (simp add: PGSIZE_def add.assoc del: mappages_loop.simps)
    have "tent T' (mem k') va = (if a \<le> va \<and> va < a + 4096 * Suc (Suc n) then (pa + (va div 4096 * 4096 - a)) OR perm OR PTE_P else tent T (mem k) va)"
      if va: "va < 4294967296" and "r = 0" for va
    proof (cases "a + 4096 \<le> va \<and> va < a + 4096 + 4096 * Suc n")
      case True
      then have "a + 4096 \<le> va div 4096 * 4096" using Suc.prems(3) base_le [of "a + 4096" va] by simp
      then have "pa + 4096 + (va div 4096 * 4096 - (a + 4096)) = pa + (va div 4096 * 4096 - a)" by simp
      then show ?thesis using te va \<open>r = 0\<close> True by simp
    next
      case False
      then have "tent T' (mem k') va = tent T1 (mem k1) va" using te va \<open>r = 0\<close> by auto
      moreover have "pa + (va div 4096 * 4096 - a) = pa" if "va div 4096 = a div 4096" using that Suc.prems(3) by auto
      ultimately show ?thesis using k1(3) [OF va] in_page [OF Suc.prems(3), of va] False by auto
    qed
    then show ?thesis using run r(2,3) te D same_trans [OF k1(2)] by blast
  qed
qed

subsection \<open>freevm\<close>

lemma aspace_free:
  assumes a: "aspace Q k ps d T F" and p: "p \<notin> Q" and k': "kinv k' (p # ps)" "same_out {p} k k'"
  shows "aspace (insert p Q) k' (p # ps) d T F"
proof -
  note f = aspaceD [OF a]
  have ke: "kend k' = kend k" using k'(2) by (simp add: same_out_def)
  have "dir_ok k' d T" using dir_same [OF f(3) k'(2)] p f(9) by blast
  moreover have "frames_ok k' T F" using frames_same [OF f(4) tent_same [OF f(3) k'(2)] ke] p f(10) by blast
  ultimately show ?thesis using a k'(1) p unfolding aspace_def ke by auto
qed

lemma free_user:
  assumes a: "aspace P k ps d T F" and T: "T (PDX va) = Some t" and va: "va < KERNBASE" "va mod 4096 = 0" and F: "F va = Some p"
  obtains k1 where "kfree p k = Inr ((), k1)" "aspace P (k1\<lparr>mem := wr32 (mem k1) (t + 4 * PTX va) 0\<rparr>) (p # ps) d T (F(va := None))"
    "same_out P k (k1\<lparr>mem := wr32 (mem k1) (t + 4 * PTX va) 0\<rparr>)"
proof -
  note f = aspaceD [OF a]
  have p: "page_ok (kend k) p" "p \<notin> set ps" "p \<in> P" "p \<notin> ran T" using framesD [OF f(4) va] F a by (auto simp: aspace_def ran_def)
  obtain k1 where k1: "kfree p k = Inr ((), k1)" "kinv k1 (p # ps)" "same_out {p} k k1" using kfree_run [OF f(2) p(1,2)] .
  define kc where "kc = k\<lparr>mem := wr32 (mem k) (t + 4 * PTX va) 0\<rparr>"
  define k2 where "k2 = k1\<lparr>mem := wr32 (mem k1) (t + 4 * PTX va) 0\<rparr>"
  have t: "t mod 4096 = 0" "t \<notin> set (p # ps)" "t \<in> P" using page_aligned [OF dir_okD(2) [OF f(3) T]] T f(7,10) p(4) by (auto simp: ran_def)
  have s1: "same_out {t} k1 k2" unfolding k2_def by (rule kst_same [OF t(1) PDX_less(2)])
  have "same_out {p} kc k2" using k1(3) by (simp add: same_out_def kc_def k2_def wr32_def)
  moreover have "kinv k2 (p # ps)" using kinv_same [OF k1(2) s1] t(2) by (simp add: k2_def)
  moreover have "insert p (P - {p}) = P" using p(3) by blast
  ultimately have "aspace P k2 (p # ps) d T (F(va := None))" using aspace_free [OF clear_user [OF a T va F, folded kc_def], of p k2] by simp
  moreover have "same_out P k k2" using same_trans [OF same_mono [OF k1(3)] same_mono [OF s1]] p(3) t(3) by simp
  ultimately show thesis using that k1(1) by (simp add: k2_def)
qed

lemma no_table_skip:
  assumes a: "aspace P k ps d T F" and T: "T (PDX va) = None" and va: "va < KERNBASE" and dom: "\<And>x. x \<in> dom F \<Longrightarrow> va \<le> x"
  shows "x \<in> dom F \<Longrightarrow> (PDX va + 1) * 4194304 \<le> x" "va < (PDX va + 1) * 4194304" "(PDX va + 1) * 4194304 \<le> KERNBASE"
proof -
  have pd: "PDX x = x div 4194304" if "x < KERNBASE" for x using that by (simp add: PDX_def KERNBASE_def less_mult_imp_div_less)
  have l: "va div 4194304 * 4194304 \<le> va" "va < va div 4194304 * 4194304 + 4194304" using mod_less_divisor [of 4194304 va] div_mult_mod_eq [of va 4194304] by linarith+
  show "va < (PDX va + 1) * 4194304" using l pd [OF va] by simp
  have "va div 4194304 < 512" using va by (simp add: KERNBASE_def less_mult_imp_div_less)
  then show "(PDX va + 1) * 4194304 \<le> KERNBASE" using pd [OF va] by (simp add: KERNBASE_def)
  assume x: "x \<in> dom F"
  have fx: "x < KERNBASE" "x mod 4096 = 0" using x aspaceD(4) [OF a] by (auto simp: frames_ok_def)
  have "PDX x \<noteq> PDX va"
  proof
    assume "PDX x = PDX va"
    then have "tent T (mem k) x = 0" using T by (simp add: tent_def)
    then show False using framesD [OF aspaceD(4) [OF a] fx] x by (auto simp: flag_P)
  qed
  moreover have "va div 4194304 \<le> x div 4194304" using dom [OF x] by (rule div_le_mono)
  ultimately have "Suc (va div 4194304) \<le> x div 4194304" using pd [OF va] pd [OF fx(1)] by simp
  then have "Suc (va div 4194304) * 4194304 \<le> x div 4194304 * 4194304" by (rule mult_le_mono1)
  also have "\<dots> \<le> x" by simp
  finally show "(PDX va + 1) * 4194304 \<le> x" using pd [OF va] by simp
qed

lemma dealloc_all:
  assumes "aspace P k ps d T F" "a \<le> KERNBASE" "a mod 4096 = 0" "\<And>x. x \<in> dom F \<Longrightarrow> a \<le> x"
  shows "\<exists>k' ps'. deallocuvm_loop d KERNBASE a k = Inr ((), k') \<and> aspace P k' ps' d T Map.empty \<and> same_out P k k'"
  using assms
proof (induction "KERNBASE - a" arbitrary: a k ps F rule: less_induct)
  case less
  note f = aspaceD [OF less.prems(1)]
  show ?case
  proof (cases "a = KERNBASE")
    case True
    then have "dom F = {}" using f(4) less.prems(4) by (fastforce simp: frames_ok_def)
    then show ?thesis using less.prems(1) True same_refl by (subst deallocuvm_loop.simps) (auto simp: ret_def)
  next
    case lt: False
    then have a: "a < KERNBASE" using less.prems(2) by simp
    show ?thesis
    proof (cases "T (PDX a)")
      case None
      define b where "b = (PDX a + 1) * 4194304"
      note n = no_table_skip [OF less.prems(1) None a less.prems(4), folded b_def]
      have bm: "b mod 4096 = 0" by (simp add: b_def mod_mult_right_eq [symmetric])
      have "KERNBASE - b < KERNBASE - a" using n(2,3) a by linarith
      then obtain k' ps' where "deallocuvm_loop d KERNBASE b k = Inr ((), k')" "aspace P k' ps' d T Map.empty" "same_out P k k'"
        using less.hyps [OF _ less.prems(1) n(3) bm n(1)] by blast
      moreover have "deallocuvm_loop d KERNBASE a k = deallocuvm_loop d KERNBASE b k"
      proof -
        have "\<not> (b \<ge> 4294967296 \<or> b \<le> a)" using n(2,3) by (simp add: KERNBASE_def)
        then show ?thesis using a walk_find(1) [OF less.prems(1), of a] None
          by (subst deallocuvm_loop.simps, unfold Let_def b_def [symmetric]) (simp add: kern_simps)
      qed
      ultimately show ?thesis by auto
    next
      case (Some t)
      have w: "walkpgdir d a False k = Inr (Some (t + 4 * PTX a), k)" using walk_find(1) [OF less.prems(1), of a] Some by simp
      have e: "rd32 (mem k) (t + 4 * PTX a) = tent T (mem k) a" using Some by (simp add: tent_def)
      have nx: "a + PGSIZE < 4294967296" "(a + PGSIZE) mod 4096 = 0" "a + PGSIZE \<le> KERNBASE" "KERNBASE - (a + PGSIZE) < KERNBASE - a"
        using a less.prems(3) base_le [of KERNBASE a] by (auto simp: const_defs)
      have dm: "a + PGSIZE \<le> x" if "x \<in> dom F" "x \<noteq> a" for x
        using pages_apart [of x a] that less.prems(3,4) f(4) by (force simp: frames_ok_def PGSIZE_def)
      show ?thesis
      proof (cases "F a")
        case None
        have "\<not> flag (tent T (mem k) a) PTE_P" using framesD [OF f(4) a less.prems(3)] None by simp
        then have "deallocuvm_loop d KERNBASE a k = deallocuvm_loop d KERNBASE (a + PGSIZE) k"
          using a w e nx(1) by (subst deallocuvm_loop.simps) (simp add: kern_simps kst_run)
        moreover have d0: "a + PGSIZE \<le> x" if "x \<in> dom F" for x using dm [OF that] that None by (cases "x = a") auto
        ultimately show ?thesis using less.hyps [OF nx(4) less.prems(1) nx(3,2) d0] by simp
      next
        case F: (Some p)
        have p: "flag (tent T (mem k) a) PTE_P" "PTE_ADDR (tent T (mem k) a) = V2P p" "page_ok (kend k) p" using framesD [OF f(4) a less.prems(3)] F by simp_all
        note pg = page_ok_facts [OF p(3) f(1)]
        obtain k1 where k1: "kfree p k = Inr ((), k1)" and
          as: "aspace P (k1\<lparr>mem := wr32 (mem k1) (t + 4 * PTX a) 0\<rparr>) (p # ps) d T (F(a := None))"
            "same_out P k (k1\<lparr>mem := wr32 (mem k1) (t + 4 * PTX a) 0\<rparr>)"
          using free_user [OF less.prems(1) Some a less.prems(3) F] .
        have "deallocuvm_loop d KERNBASE a k = deallocuvm_loop d KERNBASE (a + PGSIZE) (k1\<lparr>mem := wr32 (mem k1) (t + 4 * PTX a) 0\<rparr>)"
          using a w e nx(1) p(1,2) pg(4,7) k1 by (subst deallocuvm_loop.simps) (simp add: kern_simps kst_run)
        moreover have d1: "a + PGSIZE \<le> x" if "x \<in> dom (F(a := None))" for x using dm [of x] that by (auto split: if_splits)
        moreover obtain k' ps' where "deallocuvm_loop d KERNBASE (a + PGSIZE) (k1\<lparr>mem := wr32 (mem k1) (t + 4 * PTX a) 0\<rparr>) = Inr ((), k')"
            "aspace P k' ps' d T Map.empty" "same_out P (k1\<lparr>mem := wr32 (mem k1) (t + 4 * PTX a) 0\<rparr>) k'"
          using less.hyps [OF nx(4) as(1) nx(3,2) d1] by blast
        ultimately show ?thesis using same_trans [OF as(2)] by auto
      qed
    qed
  qed
qed

text \<open>The page tables still to be freed from index \<open>i\<close> on.\<close>

definition tail_ok :: "kmem \<Rightarrow> nat list \<Rightarrow> nat \<Rightarrow> tabs \<Rightarrow> nat \<Rightarrow> bool" where
  "tail_ok k ps d T i \<longleftrightarrow> KERNLINK \<le> kend k \<and> kinv k ps \<and> page_ok (kend k) d \<and> d \<notin> set ps \<and> inj_on T (dom T) \<and>
     (\<forall>j<1024. i \<le> j \<longrightarrow> (case T j of None \<Rightarrow> \<not> flag (rd32 (mem k) (d + 4 * j)) PTE_P
      | Some t \<Rightarrow> page_ok (kend k) t \<and> t \<noteq> d \<and> t \<notin> set ps \<and> flag (rd32 (mem k) (d + 4 * j)) PTE_P \<and> PTE_ADDR (rd32 (mem k) (d + 4 * j)) = V2P t))"

lemma free_tables:
  assumes "tail_ok k ps d T i" "i + n = 1024"
  shows "\<exists>k' ps'. freevm_loop d i n k = Inr ((), k') \<and> tail_ok k' ps' d T 1024 \<and> set ps' = set ps \<union> {t. \<exists>j<1024. i \<le> j \<and> T j = Some t} \<and>
     same_out (ran T) k k'"
  using assms
proof (induction n arbitrary: i k ps)
  case 0
  then show ?case by (auto simp: ret_def same_refl)
next
  case (Suc n)
  have i: "i < 1024" "Suc i + n = 1024" using Suc.prems(2) by auto
  have c: "case T i of None \<Rightarrow> \<not> flag (rd32 (mem k) (d + 4 * i)) PTE_P
      | Some t \<Rightarrow> page_ok (kend k) t \<and> t \<noteq> d \<and> t \<notin> set ps \<and> flag (rd32 (mem k) (d + 4 * i)) PTE_P \<and> PTE_ADDR (rd32 (mem k) (d + 4 * i)) = V2P t"
    using Suc.prems(1) i(1) by (simp add: tail_ok_def)
  have split: "{t. \<exists>j<1024. i \<le> j \<and> T j = Some t} = set_option (T i) \<union> {t. \<exists>j<1024. Suc i \<le> j \<and> T j = Some t}"
    using i(1) by (auto simp: Suc_le_eq) (metis le_neq_implies_less)
  show ?case
  proof (cases "T i")
    case None
    have "tail_ok k ps d T (Suc i)" using Suc.prems(1) by (simp add: tail_ok_def)
    then show ?thesis using Suc.IH [OF _ i(2), of k ps] c None split by (simp add: kern_simps kst_run)
  next
    case (Some t)
    have t: "page_ok (kend k) t" "t \<noteq> d" "t \<notin> set ps" "flag (rd32 (mem k) (d + 4 * i)) PTE_P" "PTE_ADDR (rd32 (mem k) (d + 4 * i)) = V2P t" using c Some by simp_all
    have kl: "KERNLINK \<le> kend k" "kinv k ps" using Suc.prems(1) by (auto simp: tail_ok_def)
    obtain k1 where k1: "kfree t k = Inr ((), k1)" "kinv k1 (t # ps)" "same_out {t} k k1" using kfree_run [OF kl(2) t(1,3)] .
    have ke: "kend k1 = kend k" using k1(3) by (simp add: same_out_def)
    have d: "d mod 4096 = 0" using Suc.prems(1) page_aligned by (auto simp: tail_ok_def)
    have rd: "rd32 (mem k1) (d + 4 * j) = rd32 (mem k) (d + 4 * j)" if "j < 1024" for j using same_word [OF k1(3) d _ that] t(2) by blast
    have inj: "j \<noteq> i \<Longrightarrow> T j \<noteq> Some t" for j using Suc.prems(1) Some by (auto simp: tail_ok_def inj_on_def dom_def)
    have "tail_ok k1 (t # ps) d T (Suc i)" unfolding tail_ok_def
    proof (intro conjI allI impI)
      fix j :: nat assume j: "j < 1024" "Suc i \<le> j"
      have "case T j of None \<Rightarrow> \<not> flag (rd32 (mem k) (d + 4 * j)) PTE_P
        | Some t \<Rightarrow> page_ok (kend k) t \<and> t \<noteq> d \<and> t \<notin> set ps \<and> flag (rd32 (mem k) (d + 4 * j)) PTE_P \<and> PTE_ADDR (rd32 (mem k) (d + 4 * j)) = V2P t"
        using Suc.prems(1) j by (simp add: tail_ok_def)
      then show "case T j of None \<Rightarrow> \<not> flag (rd32 (mem k1) (d + 4 * j)) PTE_P
        | Some ta \<Rightarrow> page_ok (kend k1) ta \<and> ta \<noteq> d \<and> ta \<notin> set (t # ps) \<and> flag (rd32 (mem k1) (d + 4 * j)) PTE_P \<and> PTE_ADDR (rd32 (mem k1) (d + 4 * j)) = V2P ta"
        using inj [of j] j rd [OF j(1)] ke by (cases "T j") auto
    qed (use Suc.prems(1) k1(2) ke t(2) in \<open>auto simp: tail_ok_def\<close>)
    then obtain k' ps' where k': "freevm_loop d (Suc i) n k1 = Inr ((), k')" "tail_ok k' ps' d T 1024"
      "set ps' = set (t # ps) \<union> {t. \<exists>j<1024. Suc i \<le> j \<and> T j = Some t}" "same_out (ran T) k1 k'" using Suc.IH [OF _ i(2)] by blast
    have "{t} \<subseteq> ran T" using Some by (auto simp: ran_def)
    then have "same_out (ran T) k k1" by (rule same_mono [OF k1(3)])
    then have "same_out (ran T) k k'" using k'(4) by (rule same_trans)
    moreover have "freevm_loop d i (Suc n) k = Inr ((), k')" using k'(1) k1(1) t(4,5) page_ok_facts(4) [OF t(1) kl(1)] by (simp add: kern_simps kst_run)
    moreover have "set ps' = set ps \<union> {t. \<exists>j<1024. i \<le> j \<and> T j = Some t}" unfolding split Some k'(3) by auto
    ultimately show ?thesis using k'(2) by blast
  qed
qed

lemma freevm_all:
  assumes "aspace P k ps d T F"
  shows "\<exists>k' ps'. freevm d k = Inr ((), k') \<and> kinv k' ps' \<and> set ps' = P \<and> same_out P k k'"
proof -
  have "0 \<le> KERNBASE" "0 mod (4096 :: nat) = 0" by simp_all
  then obtain k1 ps1 where k1: "deallocuvm_loop d KERNBASE 0 k = Inr ((), k1)" "aspace P k1 ps1 d T Map.empty" "same_out P k k1"
    using dealloc_all [OF assms, of 0] by auto
  note f = aspaceD [OF k1(2)]
  have P: "P = insert d (set ps1 \<union> ran T)" using k1(2) by (auto simp: aspace_def)
  have "tail_ok k1 ps1 d T 0" unfolding tail_ok_def
  proof (intro conjI allI impI)
    fix j :: nat assume j: "j < 1024"
    show "case T j of None \<Rightarrow> \<not> flag (rd32 (mem k1) (d + 4 * j)) PTE_P
      | Some t \<Rightarrow> page_ok (kend k1) t \<and> t \<noteq> d \<and> t \<notin> set ps1 \<and> flag (rd32 (mem k1) (d + 4 * j)) PTE_P \<and> PTE_ADDR (rd32 (mem k1) (d + 4 * j)) = V2P t"
    proof (cases "T j")
      case (Some t)
      then show ?thesis using dir_okD(2-5) [OF f(3) Some] f(7) by (auto simp: ran_def)
    qed (use dir_none [OF f(3) _ j] in simp)
  qed (use f in \<open>auto simp: dir_ok_def\<close>)
  then obtain k2 ps2 where k2: "freevm_loop d 0 NPDENTRIES k1 = Inr ((), k2)" "tail_ok k2 ps2 d T 1024"
    "set ps2 = set ps1 \<union> {t. \<exists>j<1024. 0 \<le> j \<and> T j = Some t}" "same_out (ran T) k1 k2"
    using free_tables [of k1 ps1 d T 0 NPDENTRIES] unfolding NPDENTRIES_def by auto
  have "{t. \<exists>j<1024. 0 \<le> j \<and> T j = Some t} = ran T" using dir_okD(1) [OF f(3)] by (auto simp: ran_def)
  then have ps2: "set ps2 = set ps1 \<union> ran T" using k2(3) by simp
  obtain k3 where k3: "kfree d k2 = Inr ((), k3)" "kinv k3 (d # ps2)" "same_out {d} k2 k3"
    using kfree_run [of k2 ps2 d] k2(2) unfolding tail_ok_def by blast
  have "same_out P k1 k3" using same_trans [OF same_mono [OF k2(4)] same_mono [OF k3(3)], of P] P by auto
  then have "same_out P k k3" by (rule same_trans [OF k1(3)])
  moreover have "PGROUNDUP 0 = 0" "\<not> KERNBASE \<le> 0" by (simp_all add: PGROUNDUP_def PGSIZE_def KERNBASE_def)
  then have "deallocuvm d KERNBASE 0 k = Inr (0, k1)" using k1(1) by (simp add: deallocuvm_def kern_simps)
  then have "freevm d k = Inr ((), k3)" using k2(1) k3(1) page_ok_facts(9) [OF f(5,1)] by (simp add: freevm_def kern_simps)
  ultimately show ?thesis using k3(2) ps2 P by (intro exI [of _ k3] exI [of _ "d # ps2"]) auto
qed

subsection \<open>setupkvm\<close>

text \<open>A region of \<open>kmap\<close> of whole pages, and the entry that it gives an address.\<close>

type_synonym region = "nat \<times> nat \<times> nat \<times> nat"

definition region_ok :: "region \<Rightarrow> bool" where
  "region_ok = (\<lambda>(v, ps, pe, perm). KERNBASE \<le> v \<and> v mod 4096 = 0 \<and> ps mod 4096 = 0 \<and> perm < 4096 \<and>
     (\<exists>n. sub32 pe ps = 4096 * Suc n) \<and> v + sub32 pe ps \<le> 4294967296 \<and> ps + sub32 pe ps \<le> 4294967296)"

definition in_region :: "nat \<Rightarrow> region \<Rightarrow> bool" where
  "in_region va = (\<lambda>(v, ps, pe, perm). v \<le> va \<and> va < v + sub32 pe ps)"

definition region_ent :: "nat \<Rightarrow> region \<Rightarrow> nat" where
  "region_ent va = (\<lambda>(v, ps, pe, perm). (ps + (va div 4096 * 4096 - v)) OR perm OR PTE_P)"

definition regions_ent :: "region list \<Rightarrow> nat \<Rightarrow> nat" where
  "regions_ent ks va = (case find (in_region va) ks of None \<Rightarrow> 0 | Some x \<Rightarrow> region_ent va x)"

lemma sub32_diff: "b \<le> a \<Longrightarrow> a < 4294967296 \<Longrightarrow> sub32 a b = a - b"
proof -
  assume "b \<le> a" "a < 4294967296"
  then have e: "a + (4294967296 - b) = (a - b) + 4294967296" by linarith
  show ?thesis using \<open>a < 4294967296\<close> unfolding sub32_def u32_def e by simp
qed

lemma map_region:
  assumes a: "aspace P k ps d T F" and r: "region_ok (v, s, e, perm)"
    and n: "\<And>va. in_region va (v, s, e, perm) \<Longrightarrow> \<not> flag (tent T (mem k) va) PTE_P"
    and D: "dom T \<subseteq> D" "\<And>va. in_region va (v, s, e, perm) \<Longrightarrow> PDX va \<in> D"
  shows "\<exists>r k' ps' T'. mappages d v (sub32 e s) s perm k = Inr (r, k') \<and> aspace P k' ps' d T' F \<and> same_out (P - ran F) k k' \<and>
     dom T' \<subseteq> D \<and> (r = -1 \<longrightarrow> ps' = [] \<and> dom T' \<noteq> D) \<and>
     (r = -1 \<or> r = 0 \<and> (\<forall>va<4294967296. tent T' (mem k') va = (if in_region va (v, s, e, perm) then region_ent va (v, s, e, perm) else tent T (mem k) va)))"
proof -
  obtain n where sz: "sub32 e s = 4096 * Suc n" using r by (auto simp: region_ok_def)
  have b: "KERNBASE \<le> v" "v mod 4096 = 0" "s mod 4096 = 0" "perm < 4096" "v + 4096 * Suc n \<le> 4294967296" "s + 4096 * Suc n \<le> 4294967296"
    using r sz by (simp_all add: region_ok_def)
  have "sub32 (u32 (v + 4096 * Suc n)) 1 = v + 4096 * n + 4095"
  proof (cases "v + 4096 * Suc n = 4294967296")
    case True
    then have e: "v + 4096 * n + 4095 = 4294967295" by simp
    show ?thesis unfolding True e by (simp add: sub32_def u32_def)
  next
    case False
    then have "v + 4096 * Suc n < 4294967296" using b(5) by linarith
    then show ?thesis using sub32_diff [of 1 "v + 4096 * Suc n"] by simp
  qed
  moreover have "(v + 4096 * n + 4095) div 4096 * 4096 = v + 4096 * n" using b(2) by (auto simp: div_add1_eq)
  ultimately have lst: "PGROUNDDOWN (sub32 (u32 (v + 4096 * Suc n)) 1) = v + 4096 * n" by (simp add: PGROUNDDOWN_def PGSIZE_def)
  have a0: "PGROUNDDOWN v = v" using b(2) by (auto simp: PGROUNDDOWN_def PGSIZE_def)
  have cnt: "Suc (sub32 (v + 4096 * n) v div PGSIZE) = Suc n" using b(5) by (simp add: sub32_def u32_def PGSIZE_def)
  have run: "mappages d v (sub32 e s) s perm k = mappages_loop d v (v + 4096 * n) s perm (Suc n) k"
    unfolding mappages_def sz lst a0 Let_def cnt ..
  have ir: "in_region va (v, s, e, perm) \<longleftrightarrow> v \<le> va \<and> va < v + 4096 * Suc n" for va using sz by (simp add: in_region_def)
  show ?thesis unfolding run ir region_ent_def prod.case
    by (rule mapkernel [OF a b(1,2,3) _ _ b(4) _ D(1)]) (use b n ir D(2) in auto)
qed

fun disjoint_regions :: "region list \<Rightarrow> bool" where
  "disjoint_regions [] = True"
| "disjoint_regions (x # xs) = ((\<forall>y\<in>set xs. \<forall>va. \<not> (in_region va x \<and> in_region va y)) \<and> disjoint_regions xs)"

lemma region_flag:
  assumes "region_ok x" "in_region va x"
  shows "flag (region_ent va x) PTE_P" "PTE_ADDR (region_ent va x) = fst (snd x) + (va div 4096 * 4096 - fst x)"
    "PTE_FLAGS (region_ent va x) = snd (snd (snd x)) OR PTE_P"
proof -
  obtain v s e perm where x: "x = (v, s, e, perm)" by (cases x)
  have b: "v mod 4096 = 0" "s mod 4096 = 0" "perm < 4096" using assms(1) by (auto simp: x region_ok_def)
  have "(s + (va div 4096 * 4096 - v)) mod 4096 = 0" using b by (auto simp: mod_eq_0_iff_dvd intro!: dvd_add dvd_diff_nat)
  then show "flag (region_ent va x) PTE_P" "PTE_ADDR (region_ent va x) = fst (snd x) + (va div 4096 * 4096 - fst x)" "PTE_FLAGS (region_ent va x) = snd (snd (snd x)) OR PTE_P"
    using entry_simps [of "s + (va div 4096 * 4096 - v)" "perm OR PTE_P"] perm_P [OF b(3)] by (simp_all add: x region_ent_def or.assoc)
qed

text \<open>How many pages an address space has, at most and when each table of \<open>D\<close> is there.\<close>

lemma ran_image: "ran m = (\<lambda>x. the (m x)) ` dom m"
  by (force simp: ran_def dom_def)

lemma aspace_finite:
  assumes "aspace P k ps d T F"
  shows "finite (dom T)" "finite (dom F)" "finite (ran T)" "finite (ran F)" "finite P"
proof -
  have s: "dom T \<subseteq> {..<1024}" "dom F \<subseteq> {..<KERNBASE}" using aspaceD(3,4) [OF assms] unfolding dir_ok_def frames_ok_def by blast+
  show f: "finite (dom T)" "finite (dom F)" by (rule finite_subset [OF s(1) finite_lessThan], rule finite_subset [OF s(2) finite_lessThan])
  show r: "finite (ran T)" "finite (ran F)" using f by (simp_all add: ran_image)
  have "P = set ps \<union> insert d (ran T) \<union> ran F" using assms unfolding aspace_def by blast
  then show "finite P" using r by simp
qed

lemma aspace_most:
  assumes "aspace P k [] d T F" "dom T \<subseteq> D" "finite D"
  shows "card P \<le> 1 + card D + card (dom F)" "dom T \<noteq> D \<Longrightarrow> card P \<le> card D + card (dom F)"
proof -
  note fin = aspace_finite [OF assms(1)]
  have P: "P = insert d (ran T \<union> ran F)" using assms(1) unfolding aspace_def by auto
  have c: "card (ran T) \<le> card (dom T)" "card (ran F) \<le> card (dom F)" unfolding ran_image by (rule card_image_le [OF fin(1)], rule card_image_le [OF fin(2)])
  have "card P \<le> Suc (card (ran T \<union> ran F))" unfolding P using fin(3,4) by (simp add: card_insert_if)
  then have l: "card P \<le> 1 + card (dom T) + card (dom F)" using card_Un_le [of "ran T" "ran F"] c by linarith
  then show "card P \<le> 1 + card D + card (dom F)" using card_mono [OF assms(3,2)] by linarith
  assume "dom T \<noteq> D"
  then have "dom T \<subset> D" using assms(2) by (rule psubsetI [rotated])
  from psubset_card_mono [OF assms(3) this] show "card P \<le> card D + card (dom F)" using l by linarith
qed

lemma card_ran: "inj_on m (dom m) \<Longrightarrow> card (ran m) = card (dom (m :: nat \<rightharpoonup> nat))"
proof -
  assume i: "inj_on m (dom m)"
  have "inj_on (\<lambda>x. the (m x)) (dom m)"
  proof (rule inj_onI)
    fix x y assume xy: "x \<in> dom m" "y \<in> dom m" "the (m x) = the (m y)"
    then have "m x = m y" by auto
    then show "x = y" using inj_onD [OF i] xy by blast
  qed
  then show ?thesis unfolding ran_image by (rule card_image)
qed

lemma aspace_least:
  assumes "aspace P k ps d T F" "D \<subseteq> dom T"
  shows "1 + card D + card (dom F) \<le> card P"
proof -
  note f = aspaceD [OF assms(1)] and fin = aspace_finite [OF assms(1)]
  have c: "card (ran T) = card (dom T)" "card (ran F) = card (dom F)"
    using f(3,4) unfolding dir_ok_def frames_ok_def by (blast intro: card_ran)+
  have "card (ran T \<union> ran F) = card (ran T) + card (ran F)" by (rule card_Un_disjoint [OF fin(3,4) f(13)])
  then have "card (insert d (ran T \<union> ran F)) = 1 + card (ran T) + card (ran F)" using fin(3,4) f(8,12) by simp
  moreover have "insert d (ran T \<union> ran F) \<subseteq> P" using assms(1) unfolding aspace_def by blast
  ultimately show ?thesis using card_mono [OF fin(5), of "insert d (ran T \<union> ran F)"] card_mono [OF fin(1) assms(2)] c by linarith
qed

lemma setup_loop:
  assumes "aspace P k ps d T F" "\<forall>x\<in>set ks. region_ok x" "disjoint_regions ks"
    and "\<And>x va. x \<in> set ks \<Longrightarrow> in_region va x \<Longrightarrow> \<not> flag (tent T (mem k) va) PTE_P"
    and "dom T \<subseteq> D" "\<forall>x\<in>set ks. \<forall>va. in_region va x \<longrightarrow> PDX va \<in> D" "finite D"
  shows "\<exists>r k' ps'. setupkvm_loop d ks k = Inr (r, k') \<and> same_out P k k' \<and> (r = 0 \<and> kinv k' ps' \<and> set ps' = P \<and> card P \<le> card D + card (dom F) \<or>
     r = d \<and> (\<exists>T'. aspace P k' ps' d T' F \<and> same_out (P - ran F) k k' \<and> dom T' \<subseteq> D \<and>
       (\<forall>va<4294967296. tent T' (mem k') va = (if \<exists>x\<in>set ks. in_region va x then regions_ent ks va else tent T (mem k) va))))"
  using assms
proof (induction ks arbitrary: k ps T)
  case Nil
  then show ?case using same_refl by (intro exI [of _ d] exI [of _ k] exI [of _ ps] conjI disjI2 exI [of _ T]) (simp_all add: ret_def)
next
  case (Cons x ks)
  obtain v s e perm where x: "x = (v, s, e, perm)" by (cases x)
  have ro: "region_ok (v, s, e, perm)" using Cons.prems(2) x by simp
  have nfx: "\<And>va. in_region va (v, s, e, perm) \<Longrightarrow> \<not> flag (tent T (mem k) va) PTE_P" "\<And>va. in_region va (v, s, e, perm) \<Longrightarrow> PDX va \<in> D"
    using Cons.prems(4) [of x] Cons.prems(6) x by auto
  obtain r k1 ps1 T1 where m: "mappages d v (sub32 e s) s perm k = Inr (r, k1)" "aspace P k1 ps1 d T1 F" "same_out (P - ran F) k k1"
    and dT: "dom T1 \<subseteq> D" "r = -1 \<longrightarrow> ps1 = [] \<and> dom T1 \<noteq> D" and m4:
    "r = -1 \<or> r = 0 \<and> (\<forall>va<4294967296. tent T1 (mem k1) va = (if in_region va x then region_ent va x else tent T (mem k) va))"
    using map_region [OF Cons.prems(1) ro nfx(1) Cons.prems(5) nfx(2)] unfolding x by blast
  note m = m m4
  have s1: "same_out P k k1" using same_mono [OF m(3)] by blast
  show ?case
  proof (cases "r = -1")
    case True
    obtain k' ps' where f: "freevm d k1 = Inr ((), k')" "kinv k' ps'" "set ps' = P" "same_out P k1 k'" using freevm_all [OF m(2)] by blast
    then have "setupkvm_loop d (x # ks) k = Inr (0, k')" using m(1) True by (simp add: x kern_simps)
    moreover have "card P \<le> card D + card (dom F)" using aspace_most(2) [of P k1 d T1 F D] m(2) dT True Cons.prems(7) by simp
    ultimately show ?thesis using f(2,3) same_trans [OF s1 f(4)] by blast
  next
    case False
    then have te: "tent T1 (mem k1) va = (if in_region va x then region_ent va x else tent T (mem k) va)" if "va < 4294967296" for va using m(4) that by auto
    have lt: "va < 4294967296" if "region_ok y" "in_region va y" for va y using that by (auto simp: region_ok_def in_region_def)
    have nf: "\<not> flag (tent T1 (mem k1) va) PTE_P" if "y \<in> set ks" "in_region va y" for y va
      using te [OF lt [OF _ that(2)]] Cons.prems(2,3) Cons.prems(4) [of y va] that by auto
    have pd: "\<forall>y\<in>set ks. \<forall>va. in_region va y \<longrightarrow> PDX va \<in> D" using Cons.prems(6) by simp
    have "\<exists>r k' ps'. setupkvm_loop d ks k1 = Inr (r, k') \<and> same_out P k1 k' \<and> (r = 0 \<and> kinv k' ps' \<and> set ps' = P \<and> card P \<le> card D + card (dom F) \<or>
     r = d \<and> (\<exists>T'. aspace P k' ps' d T' F \<and> same_out (P - ran F) k1 k' \<and> dom T' \<subseteq> D \<and>
       (\<forall>va<4294967296. tent T' (mem k') va = (if \<exists>x\<in>set ks. in_region va x then regions_ent ks va else tent T1 (mem k1) va))))"
      by (rule Cons.IH [OF m(2)]) (use Cons.prems(2,3,7) nf pd dT(1) in \<open>simp_all add: disjoint_regions.simps\<close>)
    then obtain r' k' ps' where i: "setupkvm_loop d ks k1 = Inr (r', k')" "same_out P k1 k'"
      "r' = 0 \<and> kinv k' ps' \<and> set ps' = P \<and> card P \<le> card D + card (dom F) \<or> r' = d \<and> (\<exists>T'. aspace P k' ps' d T' F \<and> same_out (P - ran F) k1 k' \<and> dom T' \<subseteq> D \<and>
       (\<forall>va<4294967296. tent T' (mem k') va = (if \<exists>x\<in>set ks. in_region va x then regions_ent ks va else tent T1 (mem k1) va)))" by blast
    have run: "setupkvm_loop d (x # ks) k = Inr (r', k')" using m(1,4) False i(1) by (auto simp: x kern_simps)
    have ent: "(if \<exists>y\<in>set ks. in_region va y then regions_ent ks va else tent T1 (mem k1) va) =
        (if \<exists>y\<in>set (x # ks). in_region va y then regions_ent (x # ks) va else tent T (mem k) va)" if "va < 4294967296" for va
      using te [OF that] Cons.prems(3) by (auto simp: regions_ent_def)
    have fin: "\<exists>T'. aspace P k' ps' d T' F \<and> same_out (P - ran F) k k' \<and> dom T' \<subseteq> D \<and>
       (\<forall>va<4294967296. tent T' (mem k') va = (if \<exists>y\<in>set (x # ks). in_region va y then regions_ent (x # ks) va else tent T (mem k) va))"
      if T': "aspace P k' ps' d T' F" "same_out (P - ran F) k1 k'" "dom T' \<subseteq> D"
       "\<forall>va<4294967296. tent T' (mem k') va = (if \<exists>x\<in>set ks. in_region va x then regions_ent ks va else tent T1 (mem k1) va)" for T'
      using T'(1,3) same_trans [OF m(3) T'(2)] T'(4) ent by (intro exI [of _ T']) simp
    have s2: "same_out P k k'" using s1 i(2) by (rule same_trans)
    from i(3) show ?thesis
    proof (elim disjE conjE exE)
      assume "r' = 0" "kinv k' ps'" "set ps' = P" "card P \<le> card D + card (dom F)"
      then show ?thesis using run s2 by (intro exI [of _ r'] exI [of _ k'] exI [of _ ps']) simp
    next
      fix T' assume "r' = d" and T': "aspace P k' ps' d T' F" "same_out (P - ran F) k1 k'" "dom T' \<subseteq> D"
       "\<forall>va<4294967296. tent T' (mem k') va = (if \<exists>x\<in>set ks. in_region va x then regions_ent ks va else tent T1 (mem k1) va)"
      then show ?thesis using run s2 fin [OF T'] by (intro exI [of _ r'] exI [of _ k'] exI [of _ ps'] conjI disjI2) simp_all
    qed
  qed
qed

text \<open>What the processor finds for an address: the entry of the page table, 0 if there is no table.\<close>

definition mmu_entry :: "kmem \<Rightarrow> nat \<Rightarrow> nat \<Rightarrow> nat" where
  "mmu_entry k d va = (let e = rd32 (mem k) (d + 4 * PDX va) in
     if flag e PTE_P then rd32 (mem k) (P2V (PTE_ADDR e) + 4 * PTX va) else 0)"

lemma mmu_tent:
  assumes "dir_ok k d T" "KERNLINK \<le> kend k"
  shows "mmu_entry k d va = tent T (mem k) va"
proof (cases "T (PDX va)")
  case None
  then show ?thesis using dir_none [OF assms(1) None PDX_less(1)] by (simp add: mmu_entry_def tent_def)
next
  case (Some t)
  then show ?thesis using dir_okD(4,5) [OF assms(1) Some] page_ok_facts(4) [OF dir_okD(2) [OF assms(1) Some] assms(2)] by (simp add: mmu_entry_def tent_def)
qed

definition kdata_ok :: "kmem \<Rightarrow> bool" where
  "kdata_ok k \<longleftrightarrow> KERNLINK \<le> kend k \<and> KERNLINK < kdata k \<and> kdata k mod 4096 = 0 \<and> kdata k < KERNBASE + PHYSTOP"

lemma kmap_eq:
  assumes "kdata_ok k" and D: "D = kdata k"
  shows "kmap D = [(KERNBASE, 0, EXTMEM, PTE_W), (KERNLINK, EXTMEM, D - KERNBASE, 0), (D, D - KERNBASE, PHYSTOP, PTE_W), (DEVSPACE, DEVSPACE, 0, PTE_W)]"
    and "\<forall>x\<in>set (kmap D). region_ok x"
    and "in_region va (KERNBASE, 0, EXTMEM, PTE_W) \<longleftrightarrow> KERNBASE \<le> va \<and> va < KERNLINK"
    and "in_region va (KERNLINK, EXTMEM, D - KERNBASE, 0) \<longleftrightarrow> KERNLINK \<le> va \<and> va < D"
    and "in_region va (D, D - KERNBASE, PHYSTOP, PTE_W) \<longleftrightarrow> D \<le> va \<and> va < KERNBASE + PHYSTOP"
    and "in_region va (DEVSPACE, DEVSPACE, 0, PTE_W) \<longleftrightarrow> DEVSPACE \<le> va \<and> va < 4294967296"
proof -
  obtain q where q: "D = 4096 * q" "524544 < q" "q < 581632" using assms by (auto simp: kdata_ok_def const_defs)
  have v: "V2P KERNLINK = EXTMEM" "V2P D = D - KERNBASE" using q V2P_high [of D] V2P_high [of KERNLINK] by (simp_all add: const_defs)
  have s: "sub32 EXTMEM 0 = 4096 * Suc 255" "sub32 (D - KERNBASE) EXTMEM = D - KERNLINK" "sub32 PHYSTOP (D - KERNBASE) = KERNBASE + PHYSTOP - D" "sub32 0 DEVSPACE = 4096 * Suc 8191"
    using q sub32_diff by (simp_all add: const_defs) (simp add: sub32_def u32_def)
  have n: "D - KERNLINK = 4096 * Suc (q - 524545)" "KERNBASE + PHYSTOP - D = 4096 * Suc (581631 - q)" using q by (simp_all add: const_defs)
  show km: "kmap D = [(KERNBASE, 0, EXTMEM, PTE_W), (KERNLINK, EXTMEM, D - KERNBASE, 0), (D, D - KERNBASE, PHYSTOP, PTE_W), (DEVSPACE, DEVSPACE, 0, PTE_W)]"
    by (simp add: kmap_def v)
  have "region_ok (KERNBASE, 0, EXTMEM, PTE_W)" unfolding region_ok_def prod.case s by (simp add: const_defs)
  moreover have "region_ok (KERNLINK, EXTMEM, D - KERNBASE, 0)" unfolding region_ok_def prod.case s n using q by (auto simp: const_defs)
  moreover have "region_ok (D, D - KERNBASE, PHYSTOP, PTE_W)" unfolding region_ok_def prod.case s n using q by (auto simp: const_defs)
  moreover have "region_ok (DEVSPACE, DEVSPACE, 0, PTE_W)" unfolding region_ok_def prod.case s by (simp add: const_defs)
  ultimately show "\<forall>x\<in>set (kmap D). region_ok x" unfolding km by simp
  show "in_region va (KERNBASE, 0, EXTMEM, PTE_W) \<longleftrightarrow> KERNBASE \<le> va \<and> va < KERNLINK"
    "in_region va (KERNLINK, EXTMEM, D - KERNBASE, 0) \<longleftrightarrow> KERNLINK \<le> va \<and> va < D"
    "in_region va (D, D - KERNBASE, PHYSTOP, PTE_W) \<longleftrightarrow> D \<le> va \<and> va < KERNBASE + PHYSTOP"
    "in_region va (DEVSPACE, DEVSPACE, 0, PTE_W) \<longleftrightarrow> DEVSPACE \<le> va \<and> va < 4294967296"
    unfolding in_region_def prod.case s using q by (auto simp: const_defs)
qed

lemma kmap_disjoint:
  assumes "kdata_ok k"
  shows "disjoint_regions (kmap (kdata k))"
proof -
  have "KERNLINK < kdata k" "kdata k < KERNBASE + PHYSTOP" "KERNBASE + PHYSTOP \<le> DEVSPACE" using assms by (simp_all add: kdata_ok_def const_defs)
  then show ?thesis unfolding kmap_eq(1) [OF assms refl] disjoint_regions.simps by (auto simp: kmap_eq(3-6) [OF assms refl])
qed

text \<open>A directory without entries.\<close>

lemma aspace_empty:
  assumes "kinv k (d # ps)" "KERNLINK \<le> kend k" "kinv k' ps" "same_out {d} k k'" "\<And>i. i < 1024 \<Longrightarrow> rd32 (mem k') (d + 4 * i) = 0"
  shows "aspace (set (d # ps)) k' ps d Map.empty Map.empty"
proof -
  have ke: "kend k' = kend k" using assms(4) by (simp add: same_out_def)
  have d: "page_ok (kend k) d" "d \<notin> set ps" using assms(1) by (auto simp: kinv_def)
  have "dir_ok k' d Map.empty" using assms(5) d by (simp add: dir_ok_def ke flag_P)
  moreover have "frames_ok k' Map.empty Map.empty" by (simp add: frames_ok_def tent_def flag_P)
  ultimately show ?thesis using assms(2,3) d by (simp add: aspace_def ke)
qed

text \<open>The entries of the directory for the kernel's half, and how many pages an address space takes: the
  directory, 64 tables for the kernel, the pages of the user and their tables.\<close>

definition kernel_idx :: "nat set" where
  "kernel_idx = {512..<568} \<union> {1016..<1024}"

definition user_idx :: "nat \<Rightarrow> nat set" where
  "user_idx sz = {..<(sz + 4194303) div 4194304}"

definition space_pages :: "nat \<Rightarrow> nat" where
  "space_pages sz = 65 + (sz + 4095) div 4096 + (sz + 4194303) div 4194304"

lemma PDX_div: "va < 4294967296 \<Longrightarrow> PDX va = va div 4194304"
  by (simp add: PDX_def less_mult_imp_div_less)

lemma kmap_idx:
  assumes "kdata_ok k" "x \<in> set (kmap (kdata k))" "in_region va x"
  shows "PDX va \<in> kernel_idx"
proof -
  have b: "KERNLINK < kdata k" "kdata k < KERNBASE + PHYSTOP" using assms(1) by (simp_all add: kdata_ok_def)
  have "KERNBASE \<le> va \<and> va < KERNBASE + PHYSTOP \<or> DEVSPACE \<le> va \<and> va < 4294967296"
    using assms(2,3) b unfolding kmap_eq(1) [OF assms(1) refl] by (auto simp: kmap_eq(3-6) [OF assms(1) refl]) (auto simp: const_defs)
  then have v: "2147483648 \<le> va \<and> va < 2382364672 \<or> 4261412864 \<le> va \<and> va < 4294967296" by (simp add: const_defs)
  then have "PDX va = va div 4194304" using PDX_div by auto
  then show ?thesis using v unfolding kernel_idx_def by auto
qed

lemma idx_card: "finite kernel_idx" "card kernel_idx = 64" "card (user_idx sz) = (sz + 4194303) div 4194304" "finite (user_idx sz)"
  "sz \<le> KERNBASE \<Longrightarrow> card (kernel_idx \<union> user_idx sz) = 64 + (sz + 4194303) div 4194304"
proof -
  show k: "finite kernel_idx" "card kernel_idx = 64" by (simp_all add: kernel_idx_def card_Un_disjoint)
  show u: "card (user_idx sz) = (sz + 4194303) div 4194304" "finite (user_idx sz)" by (simp_all add: user_idx_def)
  show "card (kernel_idx \<union> user_idx sz) = 64 + (sz + 4194303) div 4194304" if "sz \<le> KERNBASE"
  proof -
    have "(sz + 4194303) div 4194304 \<le> (KERNBASE + 4194303) div 4194304" by (rule div_le_mono) (use that in simp)
    then have "kernel_idx \<inter> user_idx sz = {}" by (auto simp: kernel_idx_def user_idx_def KERNBASE_def)
    then show ?thesis using card_Un_disjoint [OF k(1) u(2)] k(2) u(1) by simp
  qed
qed

lemma setupkvm_space:
  assumes "kinv k ps" "kdata_ok k"
  shows "\<exists>d k' ps'. setupkvm k = Inr (d, k') \<and> same_out (set ps) k k' \<and> (d = 0 \<and> kinv k' ps' \<and> set ps' = set ps \<and> length ps < 65 \<or>
     (\<exists>T. aspace (set ps) k' ps' d T Map.empty \<and> dom T \<subseteq> kernel_idx \<and> (\<forall>va<4294967296. tent T (mem k') va = regions_ent (kmap (kdata k)) va)))"
proof -
  obtain k1 where k1: "kalloc k = Inr (if ps = [] then 0 else hd ps, k1)" "kinv k1 (tl ps)" "kend k1 = kend k" "mem k1 = mem k"
    using kalloc_ok [OF assms(1)] by blast
  have kd: "kdata k1 = kdata k" using k1(1) by (auto simp: kalloc_def Let_def split: if_splits)
  have s1: "same_out S k k1" for S using k1(3,4) kd by (simp add: same_out_def)
  show ?thesis
  proof (cases ps)
    case Nil
    then show ?thesis using k1 s1 by (auto simp: setupkvm_def kern_simps)
  next
    case (Cons d qs)
    have kl: "KERNLINK \<le> kend k" using assms(2) by (simp add: kdata_ok_def)
    have d: "page_ok (kend k) d" "d \<notin> set qs" using assms(1) by (auto simp: Cons kinv_def)
    note pg = page_ok_facts [OF d(1) kl]
    define k2 where "k2 = k1\<lparr>mem := fill (mem k1) d PGSIZE 0\<rparr>"
    have s2: "same_out {d} k1 k2" using fill_same [OF pg(1)] by (simp add: k2_def)
    have s: "same_out {d} k k2" using s1 s2 by (rule same_trans)
    have i2: "kinv k2 qs" using kinv_same [OF k1(2) s2] d(2) by (simp add: Cons k2_def)
    have "rd32 (mem k2) (d + 4 * i) = 0" if "i < 1024" for i using that by (simp add: k2_def rd32_def fill_def PGSIZE_def)
    then have a: "aspace (set ps) k2 qs d Map.empty Map.empty" using aspace_empty [OF assms(1) [unfolded Cons] kl i2 s] by (simp add: Cons)
    have kd2: "kdata k2 = kdata k" using s by (simp add: same_out_def)
    have "P2V PHYSTOP \<le> DEVSPACE" by (simp add: P2V_def u32_def const_defs)
    then have run: "setupkvm k = setupkvm_loop d (kmap (kdata k)) k2" using k1(1) pg(9) by (simp add: Cons setupkvm_def kern_simps kst_run k2_def [symmetric] kd2)
    have em: "(if \<exists>x\<in>set ks. in_region va x then regions_ent ks va else tent Map.empty (mem k2) va) = regions_ent ks va" for ks va
      by (auto simp: regions_ent_def tent_def find_None_iff find_Some_iff split: option.split)
    have nf: "\<not> flag (tent Map.empty (mem k2) va) PTE_P" for va by (simp add: tent_def flag_P)
    have ki: "\<forall>x\<in>set (kmap (kdata k)). \<forall>va. in_region va x \<longrightarrow> PDX va \<in> kernel_idx" using kmap_idx [OF assms(2)] by blast
    have dom0: "dom (Map.empty :: tabs) \<subseteq> kernel_idx" by simp
    have cd: "card (set ps) = length ps" using assms(1) by (intro distinct_card) (simp add: kinv_def)
    obtain r k' ps' where l: "setupkvm_loop d (kmap (kdata k)) k2 = Inr (r, k')" "same_out (set ps) k2 k'"
      and alt: "r = 0 \<and> kinv k' ps' \<and> set ps' = set ps \<and> card (set ps) \<le> card kernel_idx + card (dom (Map.empty :: nat \<rightharpoonup> nat)) \<or>
       r = d \<and> (\<exists>T'. aspace (set ps) k' ps' d T' Map.empty \<and> same_out (set ps - ran (Map.empty :: nat \<rightharpoonup> nat)) k2 k' \<and> dom T' \<subseteq> kernel_idx \<and>
       (\<forall>va<4294967296. tent T' (mem k') va = regions_ent (kmap (kdata k)) va))"
      using setup_loop [OF a kmap_eq(2) [OF assms(2) refl] kmap_disjoint [OF assms(2)] nf dom0 ki idx_card(1)] unfolding em by blast
    have "same_out (set ps) k k2" using same_mono [OF s] by (simp add: Cons)
    then have sk: "same_out (set ps) k k'" using l(2) by (rule same_trans)
    from alt show ?thesis
    proof (elim disjE conjE exE)
      assume "r = 0" "kinv k' ps'" "set ps' = set ps" "card (set ps) \<le> card kernel_idx + card (dom (Map.empty :: nat \<rightharpoonup> nat))"
      then show ?thesis using run l(1) sk by (intro exI [of _ r] exI [of _ k'] exI [of _ ps']) (simp add: idx_card(2) cd)
    next
      fix T' assume "r = d" "aspace (set ps) k' ps' d T' Map.empty" "dom T' \<subseteq> kernel_idx" "\<forall>va<4294967296. tent T' (mem k') va = regions_ent (kmap (kdata k)) va"
      then show ?thesis using run l(1) sk by (intro exI [of _ r] exI [of _ k'] exI [of _ ps'] conjI disjI2 exI [of _ T']) simp_all
    qed
  qed
qed

text \<open>The kernel's half of an address space: physical memory at KERNBASE, the kernel's code read-only, the devices at
  the top, nothing for the user.\<close>

definition kernel_map :: "nat \<Rightarrow> (nat \<Rightarrow> nat) \<Rightarrow> bool" where
  "kernel_map dat E \<longleftrightarrow> (\<forall>va<4294967296. KERNBASE \<le> va \<longrightarrow>
     (if va < KERNBASE + PHYSTOP then flag (E va) PTE_P \<and> PTE_ADDR (E va) = PGROUNDDOWN va - KERNBASE \<and> \<not> flag (E va) PTE_U \<and>
        (flag (E va) PTE_W \<longleftrightarrow> va < KERNLINK \<or> dat \<le> va)
      else if DEVSPACE \<le> va then flag (E va) PTE_P \<and> PTE_ADDR (E va) = PGROUNDDOWN va \<and> \<not> flag (E va) PTE_U \<and> flag (E va) PTE_W
      else E va = 0))"

lemma flag_low:
  assumes "x mod 4096 = 0" "f < (4096 :: nat)"
  shows "flag (x OR y) f = flag y f"
proof -
  obtain q where x: "x = push_bit 12 q" using assms(1) by (auto simp: push_bit_eq_mult dvd_eq_mod_eq_0 [symmetric] mult.commute)
  have "bit f n \<Longrightarrow> n < 12" for n using assms(2) bit_take_bit_iff [of 12 f n] take_bit_nat_eq_self [of f 12] by simp
  then have "x AND f = 0" unfolding x by (intro bit_eqI) (fastforce simp: bit_simps)
  moreover have "(x OR y) AND f = (x AND f) OR (y AND f)" by (rule bit_eqI) (auto simp: bit_simps)
  ultimately show ?thesis by (simp add: flag_def)
qed

lemma region_bits:
  assumes "region_ok x" "f < 4096"
  shows "flag (region_ent va x) f = flag (snd (snd (snd x)) OR PTE_P) f"
proof -
  obtain v s e perm where x: "x = (v, s, e, perm)" by (cases x)
  have "v mod 4096 = 0" "s mod 4096 = 0" using assms(1) by (auto simp: x region_ok_def)
  then have "(s + (va div 4096 * 4096 - v)) mod 4096 = 0" by (auto simp: mod_eq_0_iff_dvd intro!: dvd_add dvd_diff_nat)
  from flag_low [OF this assms(2)] show ?thesis by (simp add: x region_ent_def or.assoc)
qed

lemma regions_kernel:
  assumes "kdata_ok k"
  shows "kernel_map (kdata k) (regions_ent (kmap (kdata k)))" "va < KERNBASE \<Longrightarrow> regions_ent (kmap (kdata k)) va = 0"
proof -
  define D where "D = kdata k"
  note km = kmap_eq [OF assms D_def]
  have b: "KERNBASE < KERNLINK" "KERNLINK < D" "D < KERNBASE + PHYSTOP" "KERNBASE + PHYSTOP \<le> DEVSPACE" using assms by (simp_all add: kdata_ok_def const_defs D_def)
  have fl: "flag (PTE_W OR PTE_P) PTE_U = False" "flag (PTE_W OR PTE_P) PTE_W = True" "flag (0 OR PTE_P) PTE_U = False" "flag (0 OR PTE_P) PTE_W = False"
    "PTE_U < 4096" "PTE_W < 4096" by (simp_all add: flag_def const_defs)
  have ro: "region_ok (KERNBASE, 0, EXTMEM, PTE_W)" "region_ok (KERNLINK, EXTMEM, D - KERNBASE, 0)" "region_ok (D, D - KERNBASE, PHYSTOP, PTE_W)"
    "region_ok (DEVSPACE, DEVSPACE, 0, PTE_W)" using km(2) unfolding km(1) by simp_all
  have en: "regions_ent (kmap D) va = (if KERNBASE \<le> va \<and> va < KERNLINK then region_ent va (KERNBASE, 0, EXTMEM, PTE_W)
      else if KERNLINK \<le> va \<and> va < D then region_ent va (KERNLINK, EXTMEM, D - KERNBASE, 0)
      else if D \<le> va \<and> va < KERNBASE + PHYSTOP then region_ent va (D, D - KERNBASE, PHYSTOP, PTE_W)
      else if DEVSPACE \<le> va \<and> va < 4294967296 then region_ent va (DEVSPACE, DEVSPACE, 0, PTE_W) else 0)" for va
    unfolding regions_ent_def km(1) by (simp add: km(3-6))
  show "va < KERNBASE \<Longrightarrow> regions_ent (kmap (kdata k)) va = 0" using en [of va] b by (simp add: D_def)
  show "kernel_map (kdata k) (regions_ent (kmap (kdata k)))" unfolding kernel_map_def D_def [symmetric]
  proof (intro allI impI)
    fix va assume va: "va < 4294967296" "KERNBASE \<le> va"
    have "KERNLINK mod 4096 = 0" "D mod 4096 = 0" using assms by (simp_all add: kdata_ok_def D_def const_defs)
    then have r: "KERNLINK \<le> va \<Longrightarrow> KERNLINK \<le> PGROUNDDOWN va" "D \<le> va \<Longrightarrow> D \<le> PGROUNDDOWN va" "KERNBASE \<le> PGROUNDDOWN va" "DEVSPACE \<le> va \<Longrightarrow> DEVSPACE \<le> PGROUNDDOWN va"
      using base_le [of _ va] va(2) by (auto simp: PGROUNDDOWN_def PGSIZE_def KERNBASE_def DEVSPACE_def)
    consider "va < KERNLINK" | "KERNLINK \<le> va" "va < D" | "D \<le> va" "va < KERNBASE + PHYSTOP" | "KERNBASE + PHYSTOP \<le> va" "va < DEVSPACE" | "DEVSPACE \<le> va" by linarith
    then show "if va < KERNBASE + PHYSTOP then flag (regions_ent (kmap D) va) PTE_P \<and> PTE_ADDR (regions_ent (kmap D) va) = PGROUNDDOWN va - KERNBASE \<and>
        \<not> flag (regions_ent (kmap D) va) PTE_U \<and> (flag (regions_ent (kmap D) va) PTE_W \<longleftrightarrow> va < KERNLINK \<or> D \<le> va)
      else if DEVSPACE \<le> va then flag (regions_ent (kmap D) va) PTE_P \<and> PTE_ADDR (regions_ent (kmap D) va) = PGROUNDDOWN va \<and>
        \<not> flag (regions_ent (kmap D) va) PTE_U \<and> flag (regions_ent (kmap D) va) PTE_W
      else regions_ent (kmap D) va = 0"
    proof cases
      case 1
      then show ?thesis using en [of va] va b region_flag [OF ro(1), of va] region_bits [OF ro(1), of _ va] fl km(3) by (simp add: PGROUNDDOWN_def PGSIZE_def)
    next
      case 2
      then show ?thesis using en [of va] va b r(1) region_flag [OF ro(2), of va] region_bits [OF ro(2), of _ va] fl km(4) by (simp add: PGROUNDDOWN_def PGSIZE_def KERNLINK_def)
    next
      case 3
      then show ?thesis using en [of va] va b r(2) region_flag [OF ro(3), of va] region_bits [OF ro(3), of _ va] fl km(5) by (simp add: PGROUNDDOWN_def PGSIZE_def)
    next
      case 4
      then show ?thesis using en [of va] va b by simp
    next
      case 5
      then show ?thesis using en [of va] va b r(4) region_flag [OF ro(4), of va] region_bits [OF ro(4), of _ va] fl km(6) by (simp add: PGROUNDDOWN_def PGSIZE_def)
    qed
  qed
qed

subsection \<open>copyuvm\<close>

lemma aspace_take:
  assumes a: "aspace P k (p # ps) d T F" and k': "kinv k' ps" "same_out {p} k k'"
  shows "aspace (P - {p}) k' ps d T F"
proof -
  note f = aspaceD [OF a]
  have ke: "kend k' = kend k" using k'(2) by (simp add: same_out_def)
  have p: "p \<noteq> d" "p \<notin> ran T" "p \<notin> ran F" "p \<notin> set ps" using a f(2) by (auto simp: aspace_def kinv_def)
  have "dir_ok k' d T" using dir_same [OF f(3) k'(2)] p by blast
  moreover have "frames_ok k' T F" using frames_same [OF f(4) tent_same [OF f(3) k'(2)] ke] p by blast
  ultimately show ?thesis using a k'(1) p unfolding aspace_def ke by auto
qed

text \<open>The state of the loop: the child has the pages below \<open>i\<close>, each with the bytes and the flags of the parent's,
  whose tables \<open>PT\<close> and frames \<open>PF\<close> are outside \<open>P\<close> and so stay as they were in \<open>k0\<close>.\<close>

definition copied :: "kmem \<Rightarrow> tabs \<Rightarrow> (nat \<rightharpoonup> nat) \<Rightarrow> kmem \<Rightarrow> tabs \<Rightarrow> (nat \<rightharpoonup> nat) \<Rightarrow> nat \<Rightarrow> bool" where
  "copied k0 PT PF k T F i \<longleftrightarrow> dom F = {va. va mod 4096 = 0 \<and> va < i} \<and>
     (\<forall>va p. F va = Some p \<longrightarrow> PTE_FLAGS (tent T (mem k) va) = PTE_FLAGS (tent PT (mem k0) va) \<and>
        (\<forall>j<4096. mem k (p + j) = mem k0 (the (PF va) + j)))"

text \<open>One page.\<close>

lemma copy_page:
  assumes a: "aspace P k (p # ps) d T F" and va: "va < KERNBASE" "va mod 4096 = 0" "F va = None"
    and q: "q mod 4096 = 0" "q \<notin> P" and fl: "fl < 4096" "odd fl"
    and k1: "kinv k1 ps" "mem k1 = mem k" "kend k1 = kend k" "kdata k1 = kdata k"
    and k2: "k2 = k1\<lparr>mem := memmove (mem k1) p q PGSIZE\<rparr>"
  obtains k' where "mappages d va PGSIZE (V2P p) fl k2 = Inr (-1, k')" "aspace (P - {p}) k' ps d T F" "same_out P k k'" "ps = []" "T (PDX va) = None"
  | k' ps' T' where "mappages d va PGSIZE (V2P p) fl k2 = Inr (0, k')" "aspace P k' ps' d T' (F(va \<mapsto> p))" "same_out (P - ran F) k k'"
    "dom T' \<subseteq> insert (PDX va) (dom T)"
    "\<And>va'. va' < 4294967296 \<Longrightarrow> tent T' (mem k') va' = (if va' div 4096 = va div 4096 then V2P p OR fl else tent T (mem k) va')"
    "\<And>j. j < 4096 \<Longrightarrow> mem k' (p + j) = mem k (q + j)"
proof -
  note f = aspaceD [OF a]
  have p: "page_ok (kend k) p" "p \<in> P" "p \<notin> ran F" "p \<notin> set ps" using a f(2) by (auto simp: aspace_def kinv_def)
  note pg = page_ok_facts [OF p(1) f(1)]
  have s2: "same_out {p} k k2" using k1(2-4) by (auto simp: same_out_def k2 memmove_blit blit_def page_of [OF pg(1)] PGSIZE_def)
  have i2: "kinv k2 ps"
  proof -
    have "same_out {p} k1 k2" by (auto simp: same_out_def k2 memmove_blit blit_def page_of [OF pg(1)] PGSIZE_def)
    then show ?thesis using kinv_same [OF k1(1)] p(4) by (simp add: k2)
  qed
  have a2: "aspace (P - {p}) k2 ps d T F" by (rule aspace_take [OF a i2 s2])
  have te2: "tent T (mem k2) x = tent T (mem k) x" for x using tent_same [OF f(3) s2] p a by (auto simp: aspace_def)
  have nf: "\<not> flag (tent T (mem k2) va) PTE_P" using framesD [OF aspaceD(4) [OF a2] va(1,2)] va(3) by simp
  have vl: "va < 4294967296" using va(1) by (simp add: KERNBASE_def)
  have run: "mappages d va PGSIZE (V2P p) fl k2 = mappages_loop d va va (V2P p) fl (Suc 0) k2"
  proof -
    have "va + 4096 \<le> KERNBASE" using va(1,2) base_le [of KERNBASE va] by (auto simp: KERNBASE_def)
    then have "sub32 (u32 (va + PGSIZE)) 1 = va + 4095" using sub32_diff [of 1 "va + 4096"] by (simp add: const_defs)
    moreover have "(va + 4095) div 4096 * 4096 = va" "va div 4096 * 4096 = va" using va(2) by auto
    moreover have "sub32 va va = 0" using sub32_diff [of va va] vl by simp
    ultimately show ?thesis by (simp add: mappages_def Let_def PGROUNDDOWN_def PGSIZE_def del: mappages_loop.simps)
  qed
  show thesis
  proof (rule map_step [OF a2 nf, of "V2P p" fl])
    assume "\<And>lst n. mappages_loop d va lst (V2P p) fl (Suc n) k2 = Inr (-1, k2)" "ps = []" "T (PDX va) = None"
    then show thesis using that(1) run a2 same_mono [OF s2, of P] p(2) by simp
  next
    fix k3 ps' T' t assume w: "walked (P - {p}) k2 d T F va k3 ps' T' t"
      and l: "\<And>lst n. mappages_loop d va lst (V2P p) fl (Suc n) k2 = (if va = lst then ret 0 else mappages_loop d (u32 (va + PGSIZE)) lst (u32 (V2P p + PGSIZE)) fl n)
       (k3\<lparr>mem := wr32 (mem k3) (t + 4 * PTX va) (V2P p OR fl OR PTE_P)\<rparr>)"
    have fp: "fl OR PTE_P = fl" using fl(2) by (simp add: PTE_P_def or_Suc_0_eq)
    define k' where "k' = k3\<lparr>mem := wr32 (mem k3) (t + 4 * PTX va) (V2P p OR fl)\<rparr>"
    have w1: "aspace (P - {p}) k3 ps' d T' F" "same_out (P - {p} - ran F) k2 k3" "T' (PDX va) = Some t" "\<And>va. tent T' (mem k3) va = tent T (mem k2) va"
      "dom T' \<subseteq> insert (PDX va) (dom T)" using w by (simp_all add: walked_def)
    note s = set_entry [OF w1(1,3) vl k'_def]
    have ke: "kend k3 = kend k" using w1(2) s2 by (simp add: same_out_def)
    have "aspace (insert p (P - {p})) k' ps' d T' (F(va \<mapsto> p))" unfolding k'_def using set_user [OF w1(1,3) va _ _ fl(2,1), of p] p(1) ke by simp
    then have r1: "aspace P k' ps' d T' (F(va \<mapsto> p))" using p(2) by (simp add: insert_absorb)
    have s3: "same_out (P - {p} - ran F) k2 k'" using w1(2) s(3) by (rule same_trans)
    have r2: "same_out (P - ran F) k k'" using same_trans [OF same_mono [OF s2] same_mono [OF s3], of "P - ran F"] p(2,3) by auto
    have r3: "tent T' (mem k') va' = (if va' div 4096 = va div 4096 then V2P p OR fl else tent T (mem k) va')" if "va' < 4294967296" for va'
      using s(4) [OF that] w1(4) te2 entry_less [OF pg(6) _ fl(1)] fp pg(3,5) by (simp add: const_defs or.assoc)
    have r4: "mem k' (p + j) = mem k (q + j)" if "j < 4096" for j
    proof -
      have "PGROUNDDOWN (p + j) = p" using page_of [OF pg(1)] that by simp
      then have "mem k' (p + j) = mem k2 (p + j)" using s3 by (simp add: same_out_def)
      also have "\<dots> = mem k (q + j)" using that k1(2) by (simp add: k2 memmove_blit blit_def PGSIZE_def)
      finally show ?thesis .
    qed
    have "mappages d va PGSIZE (V2P p) fl k2 = Inr (0, k')" unfolding run l or.assoc fp by (simp add: ret_def k'_def)
    then show thesis using that(2) [OF _ r1 r2 w1(5) r3 r4] by blast
  qed
qed

lemma copied_step:
  assumes c: "copied k0 PT PF k T F i" and i: "i mod 4096 = 0" "i < KERNBASE" and a: "aspace P k ps d T F"
    and k': "same_out (P - ran F) k k'" "\<And>va'. va' < 4294967296 \<Longrightarrow> tent T' (mem k') va' = (if va' div 4096 = i div 4096 then V2P p OR fl else tent T (mem k) va')"
    and p: "p mod 4096 = 0" "V2P p mod 4096 = 0" "fl < 4096" "fl = PTE_FLAGS (tent PT (mem k0) i)" "\<And>j. j < 4096 \<Longrightarrow> mem k' (p + j) = mem k0 (the (PF i) + j)"
  shows "copied k0 PT PF k' T' (F(i \<mapsto> p)) (i + 4096)"
  unfolding copied_def
proof (intro conjI allI impI)
  have dom: "dom F = {va. va mod 4096 = 0 \<and> va < i}" using c by (simp add: copied_def)
  have "va mod 4096 = 0 \<Longrightarrow> va < i + 4096 \<longleftrightarrow> va < i \<or> va = i" for va using pages_apart [of va i] i(1) by (auto simp: PGSIZE_def)
  then show "dom (F(i \<mapsto> p)) = {va. va mod 4096 = 0 \<and> va < i + 4096}" using dom i(1) by auto
  fix va r assume r: "(F(i \<mapsto> p)) va = Some r"
  have "PTE_FLAGS (tent T' (mem k') va) = PTE_FLAGS (tent PT (mem k0) va) \<and> (\<forall>j<4096. mem k' (r + j) = mem k0 (the (PF va) + j))"
  proof (cases "va = i")
    case True
    have "tent T' (mem k') i = V2P p OR fl" using k'(2) [of i] i(2) by (simp add: KERNBASE_def)
    then show ?thesis using r True p entry_simps(2) [OF p(2,3)] by simp
  next
    case False
    then have F: "F va = Some r" using r by simp
    then have "va \<in> dom F" by auto
    then have va: "va mod 4096 = 0" "va < 4294967296" "va < KERNBASE" using dom i(2) by (auto simp: KERNBASE_def)
    have te: "tent T' (mem k') va = tent T (mem k) va" using k'(2) [OF va(2)] page_base [OF i(1) va(1)] False by simp
    have "page_ok (kend k) r" using framesD [OF aspaceD(4) [OF a] va(3,1)] F by simp
    then have pr: "PGROUNDDOWN (r + j) = r" if "j < 4096" for j using page_of page_aligned that by simp
    have "r \<in> ran F" using F by (auto simp: ran_def)
    then have "mem k' (r + j) = mem k (r + j)" if "j < 4096" for j using k'(1) pr [OF that] by (simp add: same_out_def)
    then show ?thesis using te c F by (simp add: copied_def)
  qed
  then show "PTE_FLAGS (tent T' (mem k') va) = PTE_FLAGS (tent PT (mem k0) va)" "\<And>j. j < 4096 \<Longrightarrow> mem k' (r + j) = mem k0 (the (PF va) + j)" by blast+
qed

text \<open>The parent's address space seen from a later state.\<close>

definition parent_ok :: "nat set \<Rightarrow> kmem \<Rightarrow> nat \<Rightarrow> tabs \<Rightarrow> (nat \<rightharpoonup> nat) \<Rightarrow> nat \<Rightarrow> bool" where
  "parent_ok P k pd PT PF sz \<longleftrightarrow> KERNLINK \<le> kend k \<and> dir_ok k pd PT \<and> frames_ok k PT PF \<and> pd \<notin> P \<and> ran PT \<inter> P = {} \<and> ran PF \<inter> P = {} \<and>
     sz \<le> KERNBASE \<and> (\<forall>va. va < sz \<longrightarrow> va mod 4096 = 0 \<longrightarrow> PF va \<noteq> None)"

lemma parent_page:
  assumes pa: "parent_ok P k0 pd PT PF sz" and s: "same_out P k0 k" and i: "i < sz" "i mod 4096 = 0"
  obtains t q e where "walkpgdir pd i False k = Inr (Some (t + 4 * PTX i), k)" "rd32 (mem k) (t + 4 * PTX i) = e" "e = tent PT (mem k0) i" "flag e PTE_P"
    "PF i = Some q" "PTE_ADDR e = V2P q" "P2V (V2P q) = q" "q mod 4096 = 0" "q \<notin> P" "PTE_FLAGS e < 4096" "odd (PTE_FLAGS e)" "i < KERNBASE"
    "\<And>j. j < 4096 \<Longrightarrow> mem k (q + j) = mem k0 (q + j)"
proof -
  have f: "KERNLINK \<le> kend k0" "dir_ok k0 pd PT" "frames_ok k0 PT PF" "pd \<notin> P" "ran PT \<inter> P = {}" "ran PF \<inter> P = {}" "sz \<le> KERNBASE" using pa by (simp_all add: parent_ok_def)
  obtain q where q: "PF i = Some q" using pa i by (auto simp: parent_ok_def)
  have ib: "i < KERNBASE" using i f(7) by simp
  define e where "e = tent PT (mem k0) i"
  have e: "flag e PTE_P" "PTE_ADDR e = V2P q" "page_ok (kend k0) q" using framesD [OF f(3) ib i(2)] q by (simp_all add: e_def)
  then obtain t where t: "PT (PDX i) = Some t" by (cases "PT (PDX i)") (auto simp: e_def tent_def flag_P)
  have ke: "kend k = kend k0" using s by (simp add: same_out_def)
  have d: "dir_ok k pd PT" using dir_same [OF f(2) s f(4)] .
  have "tent PT (mem k) i = e" unfolding e_def using tent_same [OF f(2) s f(5)] .
  then have r: "rd32 (mem k) (t + 4 * PTX i) = e" using t by (simp add: tent_def)
  note pg = page_ok_facts [OF e(3) f(1)]
  have qP: "q \<notin> P" using q f(6) by (auto simp: ran_def)
  have "mem k (q + j) = mem k0 (q + j)" if "j < 4096" for j using s page_of [OF pg(1), of "q + j"] that qP by (simp add: same_out_def)
  moreover have "odd (PTE_FLAGS e)" using e(1) by (simp add: flag_P PTE_FLAGS_def dvd_mod_iff)
  ultimately show thesis using that [of t e q] walk_dir(1) [OF d, of i] t ke f(1) r e q pg(1,4) qP ib by (simp add: e_def PTE_FLAGS_def)
qed

lemma copy_loop:
  assumes pa: "parent_ok P k0 pd PT PF sz"
    and D: "\<forall>va < sz. PDX va \<in> D" "finite D"
    and "aspace P k ps d T F" "same_out P k0 k" "copied k0 PT PF k T F i" "i mod 4096 = 0" "i < sz + 4096" "dom T \<subseteq> D"
  shows "\<exists>b k' ps' T' F'. copyuvm_loop d pd sz i k = Inr (b, k') \<and> aspace P k' ps' d T' F' \<and> same_out P k k' \<and>
     (\<not> b \<longrightarrow> card P \<le> card D + card {va. va mod 4096 = 0 \<and> va < sz}) \<and>
     (b \<longrightarrow> copied k0 PT PF k' T' F' sz \<and> (\<forall>va. KERNBASE \<le> va \<longrightarrow> va < 4294967296 \<longrightarrow> tent T' (mem k') va = tent T (mem k) va))"
  using assms(4-9)
proof (induction "sz + 4096 - i" arbitrary: i k ps T F rule: less_induct)
  case less
  note a = less.prems(1) and s = less.prems(2) and c = less.prems(3) and im = less.prems(4)
  show ?case
  proof (cases "i < sz")
    case False
    have "va mod 4096 = 0 \<Longrightarrow> va < i \<longleftrightarrow> va < sz" for va using pages_apart [of va i] im less.prems(5) False by (cases "va = i") (auto simp: PGSIZE_def)
    then have "copied k0 PT PF k T F sz" using c by (auto simp: copied_def)
    moreover have "copyuvm_loop d pd sz i k = Inr (True, k)" using False by (subst copyuvm_loop.simps) (simp add: ret_def)
    ultimately show ?thesis using a same_refl by blast
  next
    case True
    obtain t q e where w: "walkpgdir pd i False k = Inr (Some (t + 4 * PTX i), k)" "rd32 (mem k) (t + 4 * PTX i) = e" "e = tent PT (mem k0) i" "flag e PTE_P"
      "PF i = Some q" "PTE_ADDR e = V2P q" "P2V (V2P q) = q" "q mod 4096 = 0" "q \<notin> P" "PTE_FLAGS e < 4096" "odd (PTE_FLAGS e)" "i < KERNBASE"
      "\<And>j. j < 4096 \<Longrightarrow> mem k (q + j) = mem k0 (q + j)" by (rule parent_page [OF pa s True im]) (rule that)
    obtain k1 where k1: "kalloc k = Inr (if ps = [] then 0 else hd ps, k1)" "kinv k1 (tl ps)" "kend k1 = kend k" "mem k1 = mem k"
      using kalloc_ok [OF aspaceD(2) [OF a]] by blast
    have kd: "kdata k1 = kdata k" using k1(1) by (auto simp: kalloc_def Let_def split: if_splits)
    have cF: "card (dom F) < card {va. va mod 4096 = 0 \<and> va < sz}"
    proof (rule psubset_card_mono)
      show "finite {va. va mod 4096 = 0 \<and> va < sz}" by simp
      have "dom F = {va. va mod 4096 = 0 \<and> va < i}" using c by (simp add: copied_def)
      then show "dom F \<subset> {va. va mod 4096 = 0 \<and> va < sz}" using True im by auto
    qed
    show ?thesis
    proof (cases ps)
      case Nil
      have cP: "card P \<le> card D + card {va. va mod 4096 = 0 \<and> va < sz}" using aspace_most(1) [OF a [unfolded Nil] less.prems(6) D(2)] cF by linarith
      have "k1 = k" using Nil k1(1) aspaceD(2) [OF a] by (simp add: kalloc_def kinv_def)
      then have "copyuvm_loop d pd sz i k = Inr (False, k)" using True w(1,2,4) k1(1) Nil by (subst copyuvm_loop.simps) (simp add: kern_simps kst_run)
      then show ?thesis using a same_refl cP by blast
    next
      case (Cons p qs)
      have p: "page_ok (kend k) p" "p \<in> P" "p \<notin> set qs" using a aspaceD(2) [OF a] by (auto simp: Cons aspace_def kinv_def)
      note pg = page_ok_facts [OF p(1) aspaceD(1) [OF a]]
      define k2 where "k2 = k1\<lparr>mem := memmove (mem k1) p q PGSIZE\<rparr>"
      define fl where "fl = PTE_FLAGS e"
      have Fi: "F i = None" using c by (auto simp: copied_def)
      have run: "copyuvm_loop d pd sz i k = bnd (mappages d i PGSIZE (V2P p) fl) (\<lambda>n. if n < 0 then bnd (kfree p) (\<lambda>_. ret False) else copyuvm_loop d pd sz (i + PGSIZE)) k2"
        using True w(1,2,4,6,7) k1(1) pg(9) by (subst copyuvm_loop.simps) (simp add: kern_simps kst_run Cons k2_def fl_def)
      have i1: "kinv k1 qs" using k1(2) Cons by simp
      show ?thesis
      proof (rule copy_page [OF a [unfolded Cons] w(12) im Fi w(8,9) w(10,11) [folded fl_def] i1 k1(4,3) kd k2_def])
        fix k' assume m: "mappages d i PGSIZE (V2P p) fl k2 = Inr (-1, k')" "aspace (P - {p}) k' qs d T F" "same_out P k k'"
          and full: "qs = []" "T (PDX i) = None"
        have "dom T \<noteq> D" using full(2) D(1) True by auto
        then have "card (P - {p}) \<le> card D + card (dom F)" using aspace_most(2) [OF m(2) [unfolded full(1)] less.prems(6) D(2)] by simp
        then have cP: "card P \<le> card D + card {va. va mod 4096 = 0 \<and> va < sz}"
          using cF card_Suc_Diff1 [OF aspace_finite(5) [OF a] p(2)] by linarith
        have "kend k' = kend k" using m(3) by (simp add: same_out_def)
        then obtain k'' where f: "kfree p k' = Inr ((), k'')" "kinv k'' (p # qs)" "same_out {p} k' k''" using kfree_run [OF aspaceD(2) [OF m(2)], of p] p by auto
        have "aspace P k'' (p # qs) d T F" using aspace_free [OF m(2) _ f(2,3)] p(2) by (simp add: insert_absorb)
        moreover have "same_out P k k''" using same_trans [OF m(3) same_mono [OF f(3)]] p(2) by simp
        moreover have "copyuvm_loop d pd sz i k = Inr (False, k'')" unfolding run using m(1) f(1) by (simp add: kern_simps)
        ultimately show ?thesis using cP by blast
      next
        fix k' ps' T' assume m0: "mappages d i PGSIZE (V2P p) fl k2 = Inr (0, k')" "aspace P k' ps' d T' (F(i \<mapsto> p))" "same_out (P - ran F) k k'"
          and dm: "dom T' \<subseteq> insert (PDX i) (dom T)" and m1:
          "\<And>va'. va' < 4294967296 \<Longrightarrow> tent T' (mem k') va' = (if va' div 4096 = i div 4096 then V2P p OR fl else tent T (mem k) va')"
          "\<And>j. j < 4096 \<Longrightarrow> mem k' (p + j) = mem k (q + j)"
        note m = m0 m1
        have dT: "dom T' \<subseteq> D" using dm less.prems(6) D(1) True by auto
        have c': "copied k0 PT PF k' T' (F(i \<mapsto> p)) (i + 4096)"
          by (rule copied_step [OF c im w(12) a m(3,4) pg(1,6) w(10) [folded fl_def]]) (use m(5) w(3,5,13) in \<open>simp_all add: fl_def\<close>)
        have sp: "same_out P k k'" using same_mono [OF m(3)] by blast
        have lt: "sz + 4096 - (i + 4096) < sz + 4096 - i" using True by simp
        have im': "(i + 4096) mod 4096 = 0" "i + 4096 < sz + 4096" using im True by simp_all
        obtain b k'' ps'' T'' F'' where r: "copyuvm_loop d pd sz (i + 4096) k' = Inr (b, k'')" "aspace P k'' ps'' d T'' F''" "same_out P k' k''"
          "\<not> b \<longrightarrow> card P \<le> card D + card {va. va mod 4096 = 0 \<and> va < sz}"
          "b \<longrightarrow> copied k0 PT PF k'' T'' F'' sz \<and> (\<forall>va. KERNBASE \<le> va \<longrightarrow> va < 4294967296 \<longrightarrow> tent T'' (mem k'') va = tent T' (mem k') va)"
          using less.hyps [OF lt m(2) same_trans [OF s sp] c' im' dT] by blast
        have "tent T' (mem k') va = tent T (mem k) va" if "KERNBASE \<le> va" "va < 4294967296" for va
        proof -
          have "i div 4096 < 524288" using w(12) by (simp add: KERNBASE_def less_mult_imp_div_less)
          moreover have "524288 \<le> va div 4096" using div_le_mono [OF that(1), of 4096] by (simp add: KERNBASE_def)
          ultimately show ?thesis using m(4) [OF that(2)] by simp
        qed
        moreover have "copyuvm_loop d pd sz i k = Inr (b, k'')" unfolding run using m(1) r(1) by (simp add: kern_simps PGSIZE_def)
        moreover have "same_out P k k''" using sp r(3) by (rule same_trans)
        ultimately show ?thesis using r(2,4,5) by (intro exI [of _ b] exI [of _ k''] exI [of _ ps''] exI [of _ T''] exI [of _ F'']) simp
      qed
    qed
  qed
qed

lemma tent_base: "va < 4294967296 \<Longrightarrow> tent T m va = tent T m (PGROUNDDOWN va)"
proof -
  assume va: "va < 4294967296"
  then have "PGROUNDDOWN va < 4294967296" "PGROUNDDOWN va div 4096 = va div 4096" by (auto simp: PGROUNDDOWN_def PGSIZE_def)
  then have "PDX va = PDX (PGROUNDDOWN va)" "PTX va = PTX (PGROUNDDOWN va)" using same_entry [OF va, of "PGROUNDDOWN va"] by auto
  then show ?thesis by (simp only: tent_def)
qed

text \<open>The address space of a process of size \<open>sz\<close>, none of whose pages is on the free list.\<close>

definition user_space :: "kmem \<Rightarrow> nat list \<Rightarrow> nat \<Rightarrow> nat \<Rightarrow> bool" where
  "user_space k ps d sz \<longleftrightarrow> (\<exists>P T F. aspace P k ps d T F \<and> dom F = {va. va mod 4096 = 0 \<and> va < sz})"

definition user_at :: "kmem \<Rightarrow> nat \<Rightarrow> nat \<Rightarrow> nat" where
  "user_at k d va = P2V (PTE_ADDR (mmu_entry k d va)) + va mod 4096"

lemma user_frame:
  assumes "aspace P k ps d T F" "F (PGROUNDDOWN va) = Some p" "va < KERNBASE"
  shows "user_at k d va = p + va mod 4096" "mmu_entry k d va = tent T (mem k) (PGROUNDDOWN va)" "page_ok (kend k) p"
proof -
  note f = aspaceD [OF assms(1)]
  have va: "va < 4294967296" "PGROUNDDOWN va < KERNBASE" "PGROUNDDOWN va mod 4096 = 0" using assms(3) by (auto simp: PGROUNDDOWN_def PGSIZE_def KERNBASE_def)
  show m: "mmu_entry k d va = tent T (mem k) (PGROUNDDOWN va)" using mmu_tent [OF f(3,1)] tent_base [OF va(1)] by simp
  have "page_ok (kend k) p" "PTE_ADDR (tent T (mem k) (PGROUNDDOWN va)) = V2P p" using framesD [OF f(4) va(2,3)] assms(2) by simp_all
  then show "user_at k d va = p + va mod 4096" "page_ok (kend k) p" using page_ok_facts(4) [OF _ f(1)] by (simp_all add: user_at_def m)
qed

lemma copied_user:
  assumes a: "aspace P k ps d T F" and a': "aspace P' k' ps' d' T' F'" and c: "copied k T F k' T' F' sz" "dom F = {va. va mod 4096 = 0 \<and> va < sz}"
    and va: "va < sz" "sz \<le> KERNBASE"
  shows "PTE_FLAGS (mmu_entry k' d' va) = PTE_FLAGS (mmu_entry k d va) \<and> mem k' (user_at k' d' va) = mem k (user_at k d va) \<and> PGROUNDDOWN (user_at k' d' va) \<in> P'"
proof -
  have b: "PGROUNDDOWN va mod 4096 = 0" "PGROUNDDOWN va < sz" "va < KERNBASE" using va by (auto simp: PGROUNDDOWN_def PGSIZE_def)
  then have "PGROUNDDOWN va \<in> dom F" "PGROUNDDOWN va \<in> dom F'" using c by (auto simp: copied_def)
  then obtain p p' where p: "F (PGROUNDDOWN va) = Some p" "F' (PGROUNDDOWN va) = Some p'" by auto
  note u = user_frame [OF a p(1) b(3)] and u' = user_frame [OF a' p(2) b(3)]
  have "p' \<in> P'" using a' p(2) by (auto simp: aspace_def ran_def)
  moreover have "PGROUNDDOWN (p' + va mod 4096) = p'" using page_of [OF page_aligned [OF u'(3)]] by simp
  ultimately show ?thesis using c(1) p u(1,2) u'(1,2) unfolding copied_def by simp
qed

text \<open>Where there are entries there are tables.\<close>

lemma tables_kernel:
  assumes "kdata_ok k" "\<And>va. KERNBASE \<le> va \<Longrightarrow> va < 4294967296 \<Longrightarrow> tent T m va = regions_ent (kmap (kdata k)) va"
  shows "kernel_idx \<subseteq> dom T"
proof
  fix i assume "i \<in> kernel_idx"
  then have i: "512 \<le> i" "i < 568 \<or> 1016 \<le> i" "i < 1024" by (auto simp: kernel_idx_def)
  define va where "va = i * 4194304"
  have b: "KERNBASE \<le> va" "va < 4294967296" "i < 568 \<Longrightarrow> va < KERNBASE + PHYSTOP" "1016 \<le> i \<Longrightarrow> DEVSPACE \<le> va"
    using i(1,3) by (simp_all add: va_def const_defs)
  then have v: "va < KERNBASE + PHYSTOP \<or> DEVSPACE \<le> va" using i(2) by blast
  have p: "PDX va = i" using PDX_div [OF b(2)] by (simp add: va_def)
  note m = regions_kernel(1) [OF assms(1), unfolded kernel_map_def, rule_format, OF b(2,1)]
  have "flag (regions_ent (kmap (kdata k)) va) PTE_P" using m v by (cases "va < KERNBASE + PHYSTOP") simp_all
  then have "flag (tent T m va) PTE_P" using assms(2) [OF b(1,2)] by simp
  then show "i \<in> dom T" using p by (auto simp: tent_def flag_P split: option.splits)
qed

lemma tables_user:
  assumes "aspace P k ps d T F" "dom F = {va. va mod 4096 = 0 \<and> va < sz}" "sz \<le> KERNBASE"
  shows "user_idx sz \<subseteq> dom T"
proof
  fix i assume "i \<in> user_idx sz"
  then have "i < (sz + 4194303) div 4194304" by (simp add: user_idx_def)
  then have "Suc i * 4194304 \<le> sz + 4194303" using less_eq_div_iff_mult_less_eq [of 4194304 "Suc i" "sz + 4194303"] by simp
  then have v: "i * 4194304 < sz" "i * 4194304 < KERNBASE" "(i * 4194304) mod 4096 = 0" using assms(3) by (simp_all add: mod_mult_right_eq [symmetric])
  then have "i * 4194304 \<in> dom F" using assms(2) by simp
  then have "flag (tent T (mem k) (i * 4194304)) PTE_P" using framesD [OF aspaceD(4) [OF assms(1)] v(2,3)] by auto
  moreover have "PDX (i * 4194304) = i" using v(2) PDX_div [of "i * 4194304"] by (simp add: KERNBASE_def)
  ultimately show "i \<in> dom T" by (auto simp: tent_def flag_P split: option.splits)
qed

lemma card_user_pages: "card {va. va mod 4096 = 0 \<and> va < sz} = (sz + 4095) div (4096 :: nat)"
proof -
  have e: "i < (sz + 4095) div 4096 \<longleftrightarrow> 4096 * i < sz" for i
  proof -
    have "i < (sz + 4095) div 4096 \<longleftrightarrow> Suc i * 4096 \<le> sz + 4095" unfolding Suc_le_eq [symmetric] by (rule less_eq_div_iff_mult_less_eq) simp
    also have "\<dots> \<longleftrightarrow> 4096 * i < sz" by simp linarith
    finally show ?thesis .
  qed
  have "{va. va mod 4096 = 0 \<and> va < sz} = (\<lambda>i. 4096 * i) ` {..<(sz + 4095) div 4096}"
  proof (intro equalityI subsetI)
    fix x assume "x \<in> {va. va mod 4096 = 0 \<and> va < sz}"
    then have x: "x = 4096 * (x div 4096)" "x < sz" by auto
    then have "x div 4096 < (sz + 4095) div 4096" unfolding e by simp
    then show "x \<in> (\<lambda>i. 4096 * i) ` {..<(sz + 4095) div 4096}" using x(1) by blast
  next
    fix x assume "x \<in> (\<lambda>i. 4096 * i) ` {..<(sz + 4095) div 4096}"
    then obtain i where "x = 4096 * i" "i < (sz + 4095) div 4096" by blast
    then show "x \<in> {va. va mod 4096 = 0 \<and> va < sz}" unfolding e by simp
  qed
  then show ?thesis by (simp add: card_image inj_on_def)
qed

lemma PDX_user: "va < sz \<Longrightarrow> sz \<le> KERNBASE \<Longrightarrow> PDX va \<in> user_idx sz"
proof -
  assume v: "va < sz" "sz \<le> KERNBASE"
  have "va + 4194304 \<le> sz + 4194303" using v(1) by simp
  then have "(va + 4194304) div 4194304 \<le> (sz + 4194303) div 4194304" by (rule div_le_mono)
  then show ?thesis using PDX_div [of va] v by (simp add: user_idx_def KERNBASE_def)
qed

text \<open>C39. \<open>setupkvm\<close> builds a page table exactly when 65 pages are free, one for the directory and 64 for the tables
  of the kernel's half. It maps every kernel address to its physical address, the code of the kernel read-only,
  the devices onto themselves, none of it for the user, and nothing else. All its pages come from the free
  list. With fewer free pages it returns 0 and all of them are free again; in every case no other byte of
  memory changes.
\<close>

theorem setupkvm_maps:
  assumes "kinv k ps" "kdata_ok k"
  shows "\<exists>d k' ps'. setupkvm k = Inr (d, k') \<and> same_out (set ps) k k' \<and> kinv k' ps' \<and> (d = 0 \<longleftrightarrow> length ps < 65) \<and>
     (if d = 0 then set ps' = set ps
      else d \<in> set ps \<and> set ps' \<subseteq> set ps - {d} \<and> kernel_map (kdata k) (mmu_entry k' d) \<and> (\<forall>va<KERNBASE. mmu_entry k' d va = 0))"
proof -
  obtain d k' ps' where s: "setupkvm k = Inr (d, k')" "same_out (set ps) k k'" and
    alt: "d = 0 \<and> kinv k' ps' \<and> set ps' = set ps \<and> length ps < 65 \<or> (\<exists>T. aspace (set ps) k' ps' d T Map.empty \<and> dom T \<subseteq> kernel_idx \<and> (\<forall>va<4294967296. tent T (mem k') va = regions_ent (kmap (kdata k)) va))"
    using setupkvm_space [OF assms] by blast
  from alt show ?thesis
  proof (elim disjE conjE exE)
    assume "d = 0" "kinv k' ps'" "set ps' = set ps" "length ps < 65"
    then show ?thesis using s by (intro exI [of _ d] exI [of _ k'] exI [of _ ps']) simp
  next
    fix T assume a: "aspace (set ps) k' ps' d T Map.empty" "dom T \<subseteq> kernel_idx" and te: "\<forall>va<4294967296. tent T (mem k') va = regions_ent (kmap (kdata k)) va"
    note a = a(1)
    note f = aspaceD [OF a]
    have m: "mmu_entry k' d va = regions_ent (kmap (kdata k)) va" if "va < 4294967296" for va using mmu_tent [OF f(3,1)] te that by simp
    have "kernel_map (kdata k) (mmu_entry k' d)" using regions_kernel(1) [OF assms(2)] unfolding kernel_map_def by (simp add: m)
    moreover have "mmu_entry k' d va = 0" if "va < KERNBASE" for va using regions_kernel(2) [OF assms(2) that] m [of va] that by (simp add: KERNBASE_def)
    moreover have "d \<noteq> 0" "set ps' \<subseteq> set ps - {d}" using page_ok_facts(9) [OF f(5,1)] f(6,11) by auto
    moreover have "1 + card kernel_idx + card (dom (Map.empty :: nat \<rightharpoonup> nat)) \<le> card (set ps)"
      by (rule aspace_least [OF a tables_kernel [OF assms(2), of T "mem k'"]]) (use te in simp)
    then have "\<not> length ps < 65" using card_length [of ps] by (simp add: idx_card(2))
    ultimately show ?thesis using s f(2,9) by (intro exI [of _ d] exI [of _ k'] exI [of _ ps']) simp
  qed
qed

text \<open>C38. \<open>copyuvm\<close>, the copy of a process in fork, succeeds exactly when there are free pages for the directory, the 64
  tables of the kernel's half, the pages of the process and their tables. Then the child's page table gives
  every user address the flags and the byte of the parent, in pages that were free before, so that the two
  share none; the kernel's half is that of \<open>setupkvm\<close>; and \<open>freevm\<close> of the child gives back every page it took.
  With fewer free pages it returns 0 and leaves no page allocated. No byte outside the free pages changes.
\<close>

theorem copyuvm_copies:
  assumes "user_space k ps pd sz" "kdata_ok k" "sz \<le> KERNBASE"
  shows "\<exists>d k' ps'. copyuvm pd sz k = Inr (d, k') \<and> same_out (set ps) k k' \<and> kinv k' ps' \<and> (d = 0 \<longleftrightarrow> length ps < space_pages sz) \<and>
     (if d = 0 then set ps' = set ps
      else user_space k' ps' d sz \<and> set ps' \<subseteq> set ps \<and> kernel_map (kdata k) (mmu_entry k' d) \<and>
        (\<forall>va. va < sz \<longrightarrow> PTE_FLAGS (mmu_entry k' d va) = PTE_FLAGS (mmu_entry k pd va) \<and> mem k' (user_at k' d va) = mem k (user_at k pd va) \<and>
           PGROUNDDOWN (user_at k' d va) \<in> set ps) \<and>
        (\<exists>k'' ps''. freevm d k' = Inr ((), k'') \<and> kinv k'' ps'' \<and> set ps'' = set ps))"
proof -
  obtain Q PT PF where p: "aspace Q k ps pd PT PF" "dom PF = {va. va mod 4096 = 0 \<and> va < sz}" using assms(1) by (auto simp: user_space_def)
  note pf = aspaceD [OF p(1)]
  have pa: "parent_ok (set ps) k pd PT PF sz" unfolding parent_ok_def using pf p assms(3) by (auto simp: aspace_def)
  obtain d k1 ps1 where s: "setupkvm k = Inr (d, k1)" "same_out (set ps) k k1" and
    alt: "d = 0 \<and> kinv k1 ps1 \<and> set ps1 = set ps \<and> length ps < 65 \<or> (\<exists>T. aspace (set ps) k1 ps1 d T Map.empty \<and> dom T \<subseteq> kernel_idx \<and> (\<forall>va<4294967296. tent T (mem k1) va = regions_ent (kmap (kdata k)) va))"
    using setupkvm_space [OF pf(2) assms(2)] by blast
  from alt show ?thesis
  proof (elim disjE conjE exE)
    assume "d = 0" "kinv k1 ps1" "set ps1 = set ps" "length ps < 65"
    then show ?thesis using s by (intro exI [of _ 0] exI [of _ k1] exI [of _ ps1]) (simp add: copyuvm_def kern_simps space_pages_def)
  next
    fix T assume a: "aspace (set ps) k1 ps1 d T Map.empty" and dT: "dom T \<subseteq> kernel_idx" and te: "\<forall>va<4294967296. tent T (mem k1) va = regions_ent (kmap (kdata k)) va"
    have c0: "copied k PT PF k1 T Map.empty 0" by (simp add: copied_def)
    have d: "d \<noteq> 0" using page_ok_facts(9) [OF aspaceD(5,1) [OF a]] .
    define D where "D = kernel_idx \<union> user_idx sz"
    have D: "\<forall>va < sz. PDX va \<in> D" "finite D" "dom T \<subseteq> D" using PDX_user [OF _ assms(3)] idx_card(1,4) dT by (auto simp: D_def)
    have need: "card D + card {va. va mod 4096 = 0 \<and> va < sz} + 1 = space_pages sz"
      by (simp add: D_def idx_card(5) [OF assms(3)] card_user_pages space_pages_def)
    have cd: "card (set ps) = length ps" using pf(2) by (intro distinct_card) (simp add: kinv_def)
    obtain b k2 ps2 T2 F2 where l: "copyuvm_loop d pd sz 0 k1 = Inr (b, k2)" "aspace (set ps) k2 ps2 d T2 F2" "same_out (set ps) k1 k2"
      and nb: "\<not> b \<longrightarrow> card (set ps) \<le> card D + card {va. va mod 4096 = 0 \<and> va < sz}"
      and b: "b \<longrightarrow> copied k PT PF k2 T2 F2 sz \<and> (\<forall>va. KERNBASE \<le> va \<longrightarrow> va < 4294967296 \<longrightarrow> tent T2 (mem k2) va = tent T (mem k1) va)"
      using copy_loop [OF pa D(1,2) a s(2) c0 _ _ D(3)] by fastforce
    have sk: "same_out (set ps) k k2" using s(2) l(3) by (rule same_trans)
    obtain k3 ps3 where f: "freevm d k2 = Inr ((), k3)" "kinv k3 ps3" "set ps3 = set ps" "same_out (set ps) k2 k3" using freevm_all [OF l(2)] by blast
    show ?thesis
    proof (cases b)
      case False
      have "copyuvm pd sz k = Inr (0, k3)" using s(1) d l(1) f(1) False by (simp add: copyuvm_def kern_simps)
      moreover have "length ps < space_pages sz" using nb False need cd by simp
      ultimately show ?thesis using f(2,3) same_trans [OF sk f(4)] by (intro exI [of _ 0] exI [of _ k3] exI [of _ ps3]) simp
    next
      case True
      note g = aspaceD [OF l(2)]
      have c: "copied k PT PF k2 T2 F2 sz" using b True by blast
      have "mmu_entry k2 d va = regions_ent (kmap (kdata k)) va" if "KERNBASE \<le> va" "va < 4294967296" for va
        using mmu_tent [OF g(3,1)] b True te that by simp
      then have "kernel_map (kdata k) (mmu_entry k2 d)" using regions_kernel(1) [OF assms(2)] unfolding kernel_map_def by simp
      moreover have "\<not> length ps < space_pages sz"
      proof -
        have F2: "dom F2 = {va. va mod 4096 = 0 \<and> va < sz}" using c by (simp add: copied_def)
        have "kernel_idx \<subseteq> dom T2" by (rule tables_kernel [OF assms(2), of T2 "mem k2"]) (use b True te in simp)
        then have "D \<subseteq> dom T2" using tables_user [OF l(2) F2 assms(3)] by (simp add: D_def)
        from aspace_least [OF l(2) this] show ?thesis using need cd F2 by simp
      qed
      moreover have "user_space k2 ps2 d sz" using l(2) c unfolding user_space_def copied_def by blast
      moreover have "copyuvm pd sz k = Inr (d, k2)" using s(1) d l(1) True by (simp add: copyuvm_def kern_simps)
      moreover have "\<forall>va. va < sz \<longrightarrow> PTE_FLAGS (mmu_entry k2 d va) = PTE_FLAGS (mmu_entry k pd va) \<and> mem k2 (user_at k2 d va) = mem k (user_at k pd va) \<and>
           PGROUNDDOWN (user_at k2 d va) \<in> set ps" using copied_user [OF p(1) l(2) c p(2) _ assms(3)] by blast
      ultimately show ?thesis using sk g(2,11) d f(1-3) by (intro exI [of _ d] exI [of _ k2] exI [of _ ps2]) auto
    qed
  qed
qed

subsection \<open>A concrete address space\<close>

text \<open>One user page, one page table, and one free page.\<close>

definition kmem1 :: kmem where
  "kmem1 = \<lparr>freelist = 2148544512, use_lock = False,
     mem = wr32 (wr32 (\<lambda>_. 0) 2148532224 1052679) 2148536320 1056775, kend = 2148532224, kdata = 2148536320\<rparr>"

lemma kmem1_kinv: "kinv kmem1 [2148544512]" "kdata_ok kmem1"
  by (simp_all add: kinv_def kmem1_def page_ok_def kdata_ok_def V2P_def u32_def const_defs)

lemma two_entries:
  assumes "x < 4294967296" "y < 4294967296"
  shows "rd32 (wr32 (wr32 (\<lambda>_. 0) d x) (d + 4096) y) (d + 4 * i) = (if i = 0 then x else if i = 1024 then y else 0)"
proof -
  have w: "rd32 (wr32 b (d + 4 * k) v) (d + 4 * j) = (if j = k then u32 v else rd32 b (d + 4 * j))" for b k v j
  proof (cases "j = k")
    case False
    then have "d + 4 * j + 4 \<le> d + 4 * k \<or> d + 4 * k + 4 \<le> d + 4 * j" by linarith
    then show ?thesis using False by simp
  qed simp
  show ?thesis using w [of _ 1024 y i] w [of _ 0 x i] assms by simp
qed

lemma kmem1_rd: "rd32 (mem kmem1) (2148532224 + 4 * i) = (if i = 0 then 1052679 else if i = 1024 then 1056775 else 0)"
    "i < 1024 \<Longrightarrow> rd32 (mem kmem1) (2148536320 + 4 * i) = (if i = 0 then 1056775 else 0)"
proof -
  have r: "rd32 (mem kmem1) (2148532224 + 4 * i) = (if i = 0 then 1052679 else if i = 1024 then 1056775 else 0)" for i
    using two_entries [of 1052679 1056775 2148532224 i] by (simp add: kmem1_def)
  then show "rd32 (mem kmem1) (2148532224 + 4 * i) = (if i = 0 then 1052679 else if i = 1024 then 1056775 else 0)" .
  show "i < 1024 \<Longrightarrow> rd32 (mem kmem1) (2148536320 + 4 * i) = (if i = 0 then 1056775 else 0)"
    using r [of "1024 + i"] by (simp add: algebra_simps)
qed

lemma kmem1_space:
  "\<exists>T F. aspace {2148544512, 2148532224, 2148536320, 2148540416} kmem1 [2148544512] 2148532224 T F \<and> dom F = {va. va mod 4096 = 0 \<and> va < 4096}"
proof -
  let ?d = "2148532224 :: nat" and ?t = "2148536320 :: nat" and ?p = "2148540416 :: nat"
  define T :: tabs where "T = [0 \<mapsto> ?t]"
  define F :: "nat \<rightharpoonup> nat" where "F = [0 \<mapsto> ?p]"
  have pk: "page_ok (kend kmem1) ?d" "page_ok (kend kmem1) ?t" "page_ok (kend kmem1) ?p" by (simp_all add: page_ok_def kmem1_def V2P_def u32_def const_defs)
  have e: "flag 1052679 PTE_P" "PTE_ADDR 1052679 = V2P ?t" "flag 1056775 PTE_P" "PTE_ADDR 1056775 = V2P ?p" "\<not> flag 0 PTE_P"
    by (simp_all add: flag_P PTE_ADDR_def V2P_def u32_def KERNBASE_def)
  have "rd32 (mem kmem1) ?d = 1052679" using kmem1_rd(1) [of 0] by simp
  then have "dir_ok kmem1 ?d T" using pk e by (simp add: dir_ok_def T_def kmem1_rd(1))
  moreover have "frames_ok kmem1 T F" unfolding frames_ok_def
  proof (intro conjI allI impI)
    fix va assume va: "va < KERNBASE" "va mod 4096 = 0"
    have te: "tent T (mem kmem1) va = (if va = 0 then 1056775 else 0)"
    proof (cases "PDX va = 0")
      case True
      then have "PTX va = 0 \<longleftrightarrow> va = 0" using same_entry [of va 0] va page_base [of 0 va] by (auto simp: KERNBASE_def PDX_def PTX_def)
      then show ?thesis using True kmem1_rd(2) [of "PTX va"] by (simp add: tent_def T_def)
    next
      case False
      then have "va \<noteq> 0" by (auto simp: PDX_def)
      then show ?thesis using False by (simp add: tent_def T_def)
    qed
    show "case F va of None \<Rightarrow> \<not> flag (tent T (mem kmem1) va) PTE_P
      | Some p \<Rightarrow> page_ok (kend kmem1) p \<and> flag (tent T (mem kmem1) va) PTE_P \<and> PTE_ADDR (tent T (mem kmem1) va) = V2P p"
      unfolding te F_def using pk(3) e by simp
  qed (simp_all add: F_def KERNBASE_def)
  ultimately have "aspace {2148544512, ?d, ?t, ?p} kmem1 [2148544512] ?d T F"
    using kmem1_kinv unfolding aspace_def kdata_ok_def by (auto simp: T_def F_def)
  moreover have "dom F = {va. va mod 4096 = 0 \<and> va < 4096}" by (auto simp: F_def)
  ultimately show ?thesis by blast
qed

text \<open>More free pages: \<open>freerange\<close> beside an address space.\<close>

lemma freerange_space:
  assumes "aspace Q k ps d T F" "set (pages p vend) \<inter> Q = {}" "\<forall>v \<in> set (pages p vend). page_ok (kend k) v"
  shows "\<exists>k'. freerange_loop p vend k = Inr ((), k') \<and> aspace (Q \<union> set (pages p vend)) k' (rev (pages p vend) @ ps) d T F \<and>
    kdata k' = kdata k \<and> kend k' = kend k"
  using assms
proof (induction p vend arbitrary: k ps Q rule: freerange_loop.induct)
  case (1 p vend)
  show ?case
  proof (cases "p + PGSIZE \<le> vend")
    case True
    note st = pages_step [OF True]
    have nin: "p \<notin> set (pages (p + PGSIZE) vend)" by (auto simp: pages_def)
    have p: "p \<notin> Q" "page_ok (kend k) p" using 1(3,4) st by auto
    then have "p \<notin> set ps" using aspaceD(11) [OF 1(2)] by blast
    then obtain k1 where k1: "kfree p k = Inr ((), k1)" "kinv k1 (p # ps)" "same_out {p} k k1" using kfree_run [OF aspaceD(2) [OF 1(2)] p(2)] by blast
    have ke: "kend k1 = kend k" "kdata k1 = kdata k" using k1(3) by (simp_all add: same_out_def)
    have "set (pages (p + PGSIZE) vend) \<inter> insert p Q = {}" using 1(3) nin st by auto
    moreover have "\<forall>v \<in> set (pages (p + PGSIZE) vend). page_ok (kend k1) v" using 1(4) st ke by simp
    ultimately obtain k' where "freerange_loop (p + PGSIZE) vend k1 = Inr ((), k')"
      "aspace (insert p Q \<union> set (pages (p + PGSIZE) vend)) k' (rev (pages (p + PGSIZE) vend) @ p # ps) d T F" "kdata k' = kdata k1" "kend k' = kend k1"
      using 1(1) [OF True aspace_free [OF 1(2) p(1) k1(2,3)]] by blast
    then show ?thesis using True k1(1) ke by (subst freerange_loop.simps) (simp add: st kern_simps)
  next
    case False
    then show ?thesis using 1(2) by (subst freerange_loop.simps) (simp add: pages_none kern_simps)
  qed
qed

text \<open>Sixty-six more free pages, which makes as many as the copy of one page of user memory takes.\<close>

lemma kmem67:
  "\<exists>k ps. freerange 2148548608 2148818944 kmem1 = Inr ((), k) \<and> user_space k ps 2148532224 4096 \<and> kdata_ok k \<and> length ps = space_pages 4096"
proof -
  obtain T F where a: "aspace {2148544512, 2148532224, 2148536320, 2148540416} kmem1 [2148544512] 2148532224 T F" "dom F = {va. va mod 4096 = 0 \<and> va < 4096}"
    using kmem1_space by blast
  let ?P = "pages 2148548608 2148818944"
  have P: "?P = map (\<lambda>i. 2148548608 + 4096 * i) [0..<66]" by (simp add: pages_def PGSIZE_def)
  have dj: "set ?P \<inter> {2148544512, 2148532224, 2148536320, 2148540416} = {}" unfolding P by auto
  have "page_ok (kend kmem1) v" if "v \<in> set ?P" for v
  proof -
    obtain i where v: "v = 2148548608 + 4096 * i" "i < 66" using \<open>v \<in> set ?P\<close> unfolding P by auto
    then have "V2P v = v - 2147483648" using V2P_high [of v] by (simp add: KERNBASE_def)
    moreover have "v mod 4096 = 0" using v(1) by (simp add: mod_add_eq [symmetric])
    ultimately show ?thesis using v by (simp add: page_ok_def kmem1_def const_defs)
  qed
  then obtain k where k: "freerange_loop 2148548608 2148818944 kmem1 = Inr ((), k)"
    "aspace ({2148544512, 2148532224, 2148536320, 2148540416} \<union> set ?P) k (rev ?P @ [2148544512]) 2148532224 T F" "kdata k = kdata kmem1" "kend k = kend kmem1"
    using freerange_space [OF a(1) dj] by blast
  have "PGROUNDUP 2148548608 = 2148548608" by (simp add: PGROUNDUP_def PGSIZE_def u32_def)
  then have "freerange 2148548608 2148818944 kmem1 = Inr ((), k)" using k(1) by (simp add: freerange_def)
  moreover have "kdata_ok k" using kmem1_kinv(2) k(3,4) by (simp add: kdata_ok_def)
  moreover have "length (rev ?P @ [2148544512]) = space_pages 4096" by (simp add: P space_pages_def)
  ultimately show ?thesis using k(2) a(2) unfolding user_space_def by blast
qed

lemma kmem1_user: "user_space kmem1 [2148544512] 2148532224 4096"
  using kmem1_space unfolding user_space_def by blast

lemma user_kinv: "user_space k ps d sz \<Longrightarrow> kinv k ps"
  unfolding user_space_def using aspaceD(2) by blast

text \<open>With 67 free pages the page table is built and maps the first page of physical memory, with one it is not.\<close>

theorem setupkvm_maps_witness:
  "(\<exists>k'. setupkvm kmem1 = Inr (0, k') \<and> same_out {2148544512} kmem1 k') \<and>
   (\<exists>k d k'. freerange 2148548608 2148818944 kmem1 = Inr ((), k) \<and> setupkvm k = Inr (d, k') \<and> d \<noteq> 0 \<and>
      flag (mmu_entry k' d 2147483648) PTE_P \<and> PTE_ADDR (mmu_entry k' d 2147483648) = 0)"
proof
  show "\<exists>k'. setupkvm kmem1 = Inr (0, k') \<and> same_out {2148544512} kmem1 k'" using setupkvm_maps [OF kmem1_kinv] by auto
  obtain k ps where k: "freerange 2148548608 2148818944 kmem1 = Inr ((), k)" "user_space k ps 2148532224 4096" "kdata_ok k" "length ps = space_pages 4096"
    using kmem67 by blast
  have "\<not> length ps < 65" using k(4) by (simp add: space_pages_def)
  then obtain d k' where d: "setupkvm k = Inr (d, k')" "d \<noteq> 0" "kernel_map (kdata k) (mmu_entry k' d)"
    using setupkvm_maps [OF user_kinv [OF k(2)] k(3)] by auto
  have "flag (mmu_entry k' d 2147483648) PTE_P \<and> PTE_ADDR (mmu_entry k' d 2147483648) = 0"
    using d(3) [unfolded kernel_map_def, rule_format, of 2147483648] by (simp add: const_defs PGROUNDDOWN_def)
  then show "\<exists>k d k'. freerange 2148548608 2148818944 kmem1 = Inr ((), k) \<and> setupkvm k = Inr (d, k') \<and> d \<noteq> 0 \<and>
      flag (mmu_entry k' d 2147483648) PTE_P \<and> PTE_ADDR (mmu_entry k' d 2147483648) = 0" using k(1) d(1,2) by blast
qed

theorem copyuvm_copies_witness:
  "(\<exists>k'. copyuvm 2148532224 4096 kmem1 = Inr (0, k') \<and> same_out {2148544512} kmem1 k') \<and>
   (\<exists>k d k'. freerange 2148548608 2148818944 kmem1 = Inr ((), k) \<and> copyuvm 2148532224 4096 k = Inr (d, k') \<and> d \<noteq> 0 \<and>
      (\<forall>va < 4096. mem k' (user_at k' d va) = mem k (user_at k 2148532224 va)))"
proof
  have b: "4096 \<le> KERNBASE" by (simp add: KERNBASE_def)
  show "\<exists>k'. copyuvm 2148532224 4096 kmem1 = Inr (0, k') \<and> same_out {2148544512} kmem1 k'"
    using copyuvm_copies [OF kmem1_user kmem1_kinv(2) b] by (auto simp: space_pages_def)
  obtain k ps where k: "freerange 2148548608 2148818944 kmem1 = Inr ((), k)" "user_space k ps 2148532224 4096" "kdata_ok k" "length ps = space_pages 4096"
    using kmem67 by blast
  obtain d k' where "copyuvm 2148532224 4096 k = Inr (d, k')" "d \<noteq> 0" "\<forall>va < 4096. mem k' (user_at k' d va) = mem k (user_at k 2148532224 va)"
    using copyuvm_copies [OF k(2,3) b] k(4) by auto
  then show "\<exists>k d k'. freerange 2148548608 2148818944 kmem1 = Inr ((), k) \<and> copyuvm 2148532224 4096 k = Inr (d, k') \<and> d \<noteq> 0 \<and>
      (\<forall>va < 4096. mem k' (user_at k' d va) = mem k (user_at k 2148532224 va))" using k(1) by blast
qed

end
