(* ===== verification/SysProps.thy ===== *)
theory SysProps
  imports Syscall Kmachine VmProps
begin

section \<open>Arguments of system calls\<close>

text \<open>
  Whatever a process has in its registers and on its stack, the kernel fetches its arguments without a fault and
  from the process's own memory.
\<close>

definition psz :: "'z kstate_scheme \<Rightarrow> nat" where
  "psz s = p_sz (myproc s)"

text \<open>The byte at an address of the running process.\<close>

definition ubyte :: "'z kstate_scheme \<Rightarrow> nat \<Rightarrow> byte" where
  "ubyte s va = mem (km s) (user_at (km s) (p_pgdir (myproc s)) va)"

definition proc_space :: "'z kstate_scheme \<Rightarrow> nat list \<Rightarrow> bool" where
  "proc_space s ps \<longleftrightarrow> user_space (km s) ps (p_pgdir (myproc s)) (psz s) \<and> psz s \<le> KERNBASE"

lemma mapped:
  assumes "user_space k ps d sz" "va < sz" "sz \<le> KERNBASE"
  shows "user_ka k d va = Some (user_at k d va)"
proof -
  obtain P T F where a: "aspace P k ps d T F" and dm: "dom F = {va. va mod 4096 = 0 \<and> va < sz}" using assms(1) by (auto simp: user_space_def)
  have b: "PGROUNDDOWN va \<in> dom F" "va < KERNBASE" using assms(2,3) unfolding dm by (auto simp: PGROUNDDOWN_def PGSIZE_def)
  then obtain p where p: "F (PGROUNDDOWN va) = Some p" by auto
  have "PGROUNDDOWN va < KERNBASE" "PGROUNDDOWN va mod 4096 = 0" using b(2) by (auto simp: PGROUNDDOWN_def PGSIZE_def)
  then have "flag (mmu_entry k d va) PTE_P" using framesD [OF aspaceD(4) [OF a], of "PGROUNDDOWN va"] p user_frame(2) [OF a p b(2)] by simp
  then show ?thesis by (auto simp: user_ka_def user_at_def mmu_entry_def Let_def flag_P PGSIZE_def split: if_splits)
qed

lemma ubyte_run: "proc_space s ps \<Longrightarrow> va < psz s \<Longrightarrow> user_byte va s = Inr (ubyte s va, s)"
  using mapped by (auto simp: proc_space_def user_byte_def ubyte_def)

lemma ubytes_run:
  "proc_space s ps \<Longrightarrow> va + n \<le> psz s \<Longrightarrow> user_bytes va n s = Inr (map (\<lambda>i. ubyte s (va + i)) [0..<n], s)"
proof (induction n arbitrary: va)
  case (Suc n)
  have "u32 (va + 1) = va + 1" using Suc.prems by (auto simp: proc_space_def KERNBASE_def)
  then show ?case using Suc.IH [of "va + 1"] Suc.prems ubyte_run [of s ps va]
    by (simp add: kern_simps upt_conv_Cons map_Suc_upt [symmetric] del: upt_Suc)
qed (simp add: kern_simps)

lemma fetchint_run:
  assumes "proc_space s ps"
  shows "fetchint a s = Inr (if a < psz s \<and> a + 4 \<le> psz s then Some (rd32 (\<lambda>i. ubyte s (a + i)) 0) else None, s)"
proof -
  have u: "u32 (a + 4) = a + 4" if "a < psz s" using that assms by (simp add: proc_space_def KERNBASE_def)
  have "rd32 (c_string (map (\<lambda>i. ubyte s (a + i)) [0..<4])) 0 = rd32 (\<lambda>i. ubyte s (a + i)) 0"
    by (rule rd32_cong) (auto simp: c_string_def put_bytes_def)
  then show ?thesis using u ubytes_run [OF assms, of a 4] by (auto simp: fetchint_def psz_def [symmetric] kern_simps)
qed

lemma fetchstr_run:
  assumes "proc_space s ps" "a + n \<le> psz s"
  shows "\<exists>r. fetchstr_loop a n s = Inr (r, s) \<and>
     (\<forall>bs. r = Some bs \<longrightarrow> length bs < n \<and> bs = map (\<lambda>i. ubyte s (a + i)) [0..<length bs] \<and> 0 \<notin> set bs \<and> ubyte s (a + length bs) = 0)"
  using assms(2)
proof (induction n arbitrary: a)
  case (Suc n)
  have b: "user_byte a s = Inr (ubyte s a, s)" using ubyte_run [OF assms(1)] Suc.prems by simp
  obtain r where r: "fetchstr_loop (a + 1) n s = Inr (r, s)"
    "\<forall>bs. r = Some bs \<longrightarrow> length bs < n \<and> bs = map (\<lambda>i. ubyte s (a + 1 + i)) [0..<length bs] \<and> 0 \<notin> set bs \<and> ubyte s (a + 1 + length bs) = 0"
    using Suc.IH [of "a + 1"] Suc.prems by auto
  show ?case
  proof (cases "ubyte s a = 0")
    case True
    then show ?thesis using b by (simp add: kern_simps)
  next
    case False
    have "bs = map (\<lambda>i. ubyte s (a + i)) [0..<length bs]" if "r = Some cs" "bs = ubyte s a # cs" for bs cs
      using r(2) that by (simp add: upt_conv_Cons map_Suc_upt [symmetric] comp_def del: upt_Suc)
    then show ?thesis using b r False by (cases r) (auto simp: kern_simps)
  qed
qed (simp add: kern_simps)

text \<open>The address of argument \<open>n\<close>.\<close>

definition arg_at :: "'z kstate_scheme \<Rightarrow> nat \<Rightarrow> nat" where
  "arg_at s n = u32 (tf_esp (p_tf (myproc s)) + 4 + 4 * n)"

lemma argint_run:
  "proc_space s ps \<Longrightarrow> argint n s = Inr (if arg_at s n < psz s \<and> arg_at s n + 4 \<le> psz s then Some (rd32 (\<lambda>i. ubyte s (arg_at s n + i)) 0) else None, s)"
  unfolding argint_def arg_at_def by (rule fetchint_run)

text \<open>C40. Whatever the registers and the stack of a process hold, fetching the arguments of a system call does not
  fault and changes nothing. A number is the word at its place on the stack, and that lies in the process's
  memory. A pointer to \<open>m\<close> bytes that passes the check is the start of \<open>m\<close> bytes inside the process's memory: the
  sum does not wrap around, because a process has at most KERNBASE bytes. A string that is found lies in it with
  its terminating zero.
\<close>

theorem syscall_args_bounds:
  assumes "proc_space s ps" and "m < 2147483648"
  shows "(\<exists>r. argint n s = Inr (r, s) \<and> (\<forall>v. r = Some v \<longrightarrow> arg_at s n + 4 \<le> psz s \<and> v = rd32 (\<lambda>i. ubyte s (arg_at s n + i)) 0)) \<and>
    (\<exists>r. argptr n m s = Inr (r, s) \<and> (\<forall>p. r = Some p \<longrightarrow> 0 \<le> m \<and> p + nat m \<le> psz s \<and> (\<forall>i<nat m. user_byte (p + i) s = Inr (ubyte s (p + i), s)))) \<and>
    (\<exists>r. argstr n s = Inr (r, s) \<and> (\<forall>bs. r = Some bs \<longrightarrow> (\<exists>p. p + length bs < psz s \<and> bs = map (\<lambda>i. ubyte s (p + i)) [0..<length bs] \<and>
       0 \<notin> set bs \<and> ubyte s (p + length bs) = 0)))"
proof (intro conjI)
  note a = argint_run [OF assms(1), of n]
  define x where "x = (if arg_at s n < psz s \<and> arg_at s n + 4 \<le> psz s then Some (rd32 (\<lambda>i. ubyte s (arg_at s n + i)) 0) else None)"
  have ax: "argint n s = Inr (x, s)" using a by (simp add: x_def)
  show "\<exists>r. argint n s = Inr (r, s) \<and> (\<forall>v. r = Some v \<longrightarrow> arg_at s n + 4 \<le> psz s \<and> v = rd32 (\<lambda>i. ubyte s (arg_at s n + i)) 0)"
    using a by (auto split: if_splits)
  have k: "psz s \<le> KERNBASE" using assms(1) by (simp add: proc_space_def)
  show "\<exists>r. argptr n m s = Inr (r, s) \<and> (\<forall>p. r = Some p \<longrightarrow> 0 \<le> m \<and> p + nat m \<le> psz s \<and> (\<forall>i<nat m. user_byte (p + i) s = Inr (ubyte s (p + i), s)))"
  proof (cases x)
    case None
    then show ?thesis using ax by (simp add: argptr_def kern_simps)
  next
    case (Some p)
    have "u32 (p + nat m) = p + nat m" if "p < psz s" using that k assms(2) by (simp add: KERNBASE_def)
    then show ?thesis using ax Some ubyte_run [OF assms(1)] by (cases "p < psz s") (auto simp: argptr_def kern_simps psz_def [symmetric])
  qed
  show "\<exists>r. argstr n s = Inr (r, s) \<and> (\<forall>bs. r = Some bs \<longrightarrow> (\<exists>p. p + length bs < psz s \<and> bs = map (\<lambda>i. ubyte s (p + i)) [0..<length bs] \<and>
       0 \<notin> set bs \<and> ubyte s (p + length bs) = 0))"
  proof (cases x)
    case None
    then show ?thesis using ax by (simp add: argstr_def kern_simps)
  next
    case (Some p)
    show ?thesis
    proof (cases "p < psz s")
      case True
      obtain r where r: "fetchstr_loop p (psz s - p) s = Inr (r, s)" "\<forall>bs. r = Some bs \<longrightarrow> length bs < psz s - p \<and> bs = map (\<lambda>i. ubyte s (p + i)) [0..<length bs] \<and>
          0 \<notin> set bs \<and> ubyte s (p + length bs) = 0" using fetchstr_run [OF assms(1), of p "psz s - p"] True by auto
      have "argstr n s = Inr (r, s)" using ax Some True r(1) by (simp add: argstr_def fetchstr_def psz_def [symmetric] kern_simps)
      moreover have "\<exists>p. p + length bs < psz s \<and> bs = map (\<lambda>i. ubyte s (p + i)) [0..<length bs] \<and> 0 \<notin> set bs \<and> ubyte s (p + length bs) = 0" if "r = Some bs" for bs
        using r(2) that True by (intro exI [of _ p]) auto
      ultimately show ?thesis by blast
    next
      case False
      then show ?thesis using ax Some by (simp add: argstr_def fetchstr_def psz_def [symmetric] kern_simps)
    qed
  qed
qed

text \<open>The kernel state \<open>k0\<close> with the address space \<open>kmem1\<close> for the running process.\<close>

definition s1 :: kstate where
  "s1 = k0\<lparr>km := kmem1, procs := procs0(1 := (proc0 RUNNING 2 (Some 0) None)\<lparr>p_pgdir := 2148532224\<rparr>)\<rparr>"

lemma s1_space: "proc_space s1 [2148544512]"
  using kmem1_user by (simp add: proc_space_def psz_def s1_def k0_sel proc0_def KERNBASE_def)

theorem syscall_args_bounds_witness: "\<exists>r. argptr 0 4 s1 = Inr (r, s1) \<and> (\<forall>p. r = Some p \<longrightarrow> p + 4 \<le> 4096)"
proof -
  have "psz s1 = 4096" by (simp add: psz_def s1_def k0_sel proc0_def)
  then show ?thesis using syscall_args_bounds [OF s1_space, of 4 0] by auto
qed

end
