(* ===== verification/Spec2Isabelle.thy ===== *)
theory Spec2Isabelle
  imports Transactions Trap ProcProps FsProps DirProps Ext2Props Grep ShProps SysProps
begin

text \<open>
  \<^bold>\<open>xv6 with an ext2 file system.\<close> The program is the teaching kernel xv6 for the PC, with its user
  programs, changed so that a second drive with an ext2 image is mounted below the directory \<open>mnt\<close>: a
  file system switch (\<open>struct inode_operations\<close>, \<open>vfs.h\<close>) sends each inode operation to the native file
  system (\<open>fs.c\<close>) or to the new one (\<open>ext2fs.c\<close>). All sources are under \<open>src/\<close>; the names of definitions are
  those of the C functions and structures where Isabelle allows it (a prefix \<open>u_\<close> marks a routine of the
  user library that has the name of a kernel routine).

  \<^bold>\<open>The model.\<close> Kernel code is a function on a state record that returns a new state or a fault:
  \<open>Panic\<close> for a call of \<open>panic\<close>, \<open>Blocked\<close> where the thread would sleep or spin until another one acts, and
  \<open>Undef\<close> for an access C does not define (a null or stray pointer, an index past an array). The state is built
  in layers as the kernel is: \<open>bstate\<close> (drives, IDE queue, buffers), \<open>lstate\<close> (plus the log), \<open>fstate\<close> (plus
  superblocks, inode cache, console), \<open>kstate\<close> (plus page memory, open files, pipes, processes) and
  \<open>tstate\<close> (plus the keyboard); a routine of one layer runs in every later one. Unsigned integers
  are naturals with \<open>u32\<close>, \<open>sub32\<close> where the code can wrap, bytes are words of 8 bits, a block or a page is a
  function from offsets to bytes. A user program is a function on the world outside the process; the system
  calls are its parameter \<open>os\<close>, and the properties apply it to the modelled console and to a modelled pipe whose
  writer does any list of writes, each when the reader would block, and then closes its end. Ints are integers
  wrapped by \<open>i32\<close> or, for process ids, their 32 bits. The process table is that of one processor; the spinlocks are
  also shown for several.

  \<^bold>\<open>Theories\<close>, in the order of the layers:

  \<^item> \<open>Prelude\<close>: the state monad with faults, \<open>wp\<close> and its rules, wrap-around, lists, little-endian numbers;
    \<open>Params\<close>: the constants of \<open>param.h\<close>, \<open>fs.h\<close>, \<open>stat.h\<close>; \<open>CString\<close>: \<open>string.c\<close>.
  \<^item> \<open>Sleeplock\<close> (\<open>sleeplock.c\<close>), \<open>Bio\<close> (\<open>ide.c\<close>, \<open>bio.c\<close>): the invariant of the LRU ring and the contract of \<open>bread\<close>,
    \<open>bwrite\<close> and \<open>brelse\<close>; \<open>Log\<close> (\<open>log.c\<close>): its invariant, what each routine does, recovery after a crash;
    \<open>Transactions\<close>: the interleavings of operations of several threads.
  \<^item> \<open>Store\<close>: the contract \<open>block_store\<close> between file systems and blocks, a locale interpreted by the logged blocks of
    the root device and by the direct writes of the ext2 device.
  \<^item> \<open>Console\<close> (\<open>console.c\<close>, \<open>uart.c\<close> output), \<open>Kbd\<close> (\<open>kbd.c\<close>, \<open>uart.c\<close>): editing and delivery of lines.
  \<^item> \<open>FsState\<close> (\<open>file.h\<close>, \<open>icache.h\<close>, \<open>ext2.h\<close>), \<open>Fs\<close> (\<open>fs.c\<close>: blocks and inodes), \<open>Ext2\<close> (\<open>ext2fs.c\<close>: blocks and
    inodes), \<open>Vfs\<close> (both tables of operations, truncation, reading and writing), \<open>Dir\<close> (directories of both
    file systems, paths).
  \<^item> \<open>FsAlloc\<close>, \<open>FsFile\<close>, \<open>FsInode\<close>, \<open>ICache\<close>, \<open>FsProps\<close>, \<open>DirProps\<close>: the native file system. \<open>FsAlloc\<close> shows the bitmap
    and \<open>balloc\<close>, \<open>FsFile\<close> the bytes of a file through \<open>bmap\<close> and the two loops over blocks, \<open>FsInode\<close> and \<open>ICache\<close>
    the inode on disk and in memory, \<open>FsProps\<close> and \<open>DirProps\<close> the properties; \<open>Machine\<close> has concrete states.
  \<^item> \<open>Ext2File\<close>, \<open>Ext2Inode\<close>, \<open>Ext2Trunc\<close>, \<open>Ext2Props\<close>: the ext2 file system. \<open>Ext2File\<close> shows allocation in a group and the
    bytes of a file through \<open>ext2_bmap\<close>, \<open>Ext2Inode\<close> the inode table, \<open>ext2_ilock\<close>, \<open>ext2_readi\<close> and \<open>ext2_writei\<close>,
    \<open>Ext2Trunc\<close> truncation and \<open>ext2_iput\<close>; \<open>Ext2Props\<close> has the properties and a concrete volume.
  \<^item> \<open>Kalloc\<close> (\<open>kalloc.c\<close>), \<open>Vm\<close> and \<open>VmProps\<close> (\<open>vm.c\<close>: page tables, address spaces), \<open>Pipe\<close> (\<open>pipe.c\<close>), \<open>Kernel\<close> (\<open>file.c\<close>, \<open>proc.h\<close>), \<open>Proc\<close> and \<open>ProcProps\<close>
    (\<open>proc.c\<close>), \<open>Syscall\<close> and \<open>SysProps\<close> (\<open>syscall.c\<close>, \<open>sysfile.c\<close>, \<open>sysproc.c\<close>), \<open>Exec\<close> (\<open>exec.c\<close>), \<open>Trap\<close> (\<open>trap.c\<close>), \<open>Segments\<close>
    (\<open>mmu.h\<close>, \<open>seginit\<close>, \<open>tvinit\<close>), \<open>Spinlock\<close> (\<open>spinlock.c\<close>, also as steps of several processors), \<open>Kmachine\<close> (concrete
    states of the whole kernel).
  \<^item> \<open>User\<close> (\<open>ulib.c\<close>, \<open>printf.c\<close>), \<open>Progs\<close> and \<open>ProgProps\<close> (the small programs), \<open>Grep\<close> (\<open>grep.c\<close>), \<open>Sh\<close> and \<open>ShProps\<close>
    (\<open>sh.c\<close>).

  \<^bold>\<open>What is shown.\<close> Crash safety of a commit, its durability, and the space of the log under all interleavings,
  with the overflow that the layout of \<open>mkfs\<close> permits; allocator safety for every history of calls; files as byte
  sequences under \<open>readi\<close> and \<open>writei\<close>, without effect on other files; directories as maps; one cache slot for
  an inode; the same for ext2 files in the direct blocks and, for blocks that exist, in the single indirect range,
  with the inode table and the removal of a file of the first group; where the ext2 code fails (freeing in later groups, the double
  indirect range) that is shown, and these ranges are not in the hypotheses of the other ext2 properties; kernel
  mappings and copied address spaces, with the exact number of free pages they need, bounds of system call arguments; pipes as bounded queues; typed lines as what readers get, from scan codes on; the process table
  under every sequence of its operations (ids are distinct until the counter runs over), fair scheduling; mutual exclusion and progress of spinlocks; the ways
  into the kernel; for the user programs what they print, for grep the language of its patterns, the lines it
  prints and those it cuts when a read brings no newline, for the shell
  that its parser ends and reads back every command. Properties stand in the theory of their component; those
  of the log as the whole system uses it are below.

  \<^bold>\<open>Loops and fuel.\<close> Loops are structural recursion or have a termination proof; loops that wait for input
  are \<open>partial_function (option)\<close>, with None for a run that does not end. The shell's parser counts the depth of
  calls; \<open>parse_fuel\<close> (three times the length of the line plus 3) is proved to be enough for every line. A sleep
  is not a loop: the step ends with \<open>Blocked\<close>, and what other threads do meanwhile is in the transition systems
  (\<open>tstep\<close>, \<open>pt_step\<close>, \<open>spin_step\<close>, the steps of pipes and of the allocator).

  \<^bold>\<open>Not modelled.\<close> Assembly (\<open>bootasm.S\<close>, \<open>entry.S\<close>, \<open>entryother.S\<close>, \<open>swtch.S\<close>, \<open>trapasm.S\<close>, \<open>vectors.pl\<close>,
  \<open>initcode.S\<close>, \<open>usys.S\<close>) and what only moves values between registers and ports at boot (\<open>bootmain.c\<close>,
  \<open>main.c\<close>, \<open>mp.c\<close>, \<open>lapic.c\<close>, \<open>ioapic.c\<close>, \<open>picirq.c\<close>): its meaning is that of the hardware. \<open>memide.c\<close> replaces
  \<open>ide.c\<close> in another build. \<open>mkfs.c\<close> runs on the host. \<open>umalloc.c\<close> is the heap of user
  programs, which take \<open>malloc\<close> to succeed. \<open>usertests.c\<close> and \<open>ext2_test.c\<close> are tests. Kernel stacks and
  the switch between them are the change of the current process; the handshake of the IDE ports is a request that
  completes. Locks held for a few instructions make the code under them one step.
\<close>

section \<open>Crash safety\<close>

lemma nrep_quiet: "nrep s V Map.empty P \<Longrightarrow> linv s \<and> held s = {}"
  by (auto simp: nrep_def brep_def hrep_def)

text \<open>One logged block.\<close>

lemma one_logged:
  "\<exists>s :: lstate. linv s \<and> held s = {} \<and> sb_ok s \<and> lh_n s = 1 \<and> outstanding s = 1 \<and> \<not> committing s"
proof -
  define l0 :: lstate where "l0 = boot img0 ()"
  have n0: "nrep l0 (view l0 ROOTDEV) Map.empty {}" unfolding l0_def by (rule boot_nrep) (simp add: img0_def)
  note sel = boot_sel [of img0 "()", folded l0_def]
  have "wp (bnd (bread ROOTDEV 100) (\<lambda>b. bnd (bmod b (\<lambda>_ _. 7)) (\<lambda>_. bnd (log_write b) (\<lambda>_. bnd (brelse b) ret))))
      (\<lambda>_ t. nfr l0 t \<and> (\<exists>V. nrep t V Map.empty {(ROOTDEV, 100)})) l0"
  proof (rule ns.update_block [OF n0])
    fix t :: lstate
    assume "nfr l0 t" "nrep t ((view l0 ROOTDEV)(100 := \<lambda>_. 7)) Map.empty {(ROOTDEV, 100)}"
    then show "wp (ret ()) (\<lambda>_ t. nfr l0 t \<and> (\<exists>V. nrep t V Map.empty {(ROOTDEV, 100)})) t"
      by (auto simp: wp_simps)
  qed (simp_all add: nwok_def LOGSTART_def const_defs)
  then obtain t :: lstate and V where t: "nfr l0 t" "nrep t V Map.empty {(ROOTDEV, 100)}"
    by (auto simp: wp_iff)
  have inv: "linv t" "held t = {}" using nrep_quiet [OF t(2)] by auto
  have f: "log_start t = 2" "log_size t = 30" "outstanding t = 1" "\<not> committing t" "log_dev t = 1" "dblk t = dblk l0"
    using t(1) by (auto simp: nfr_def lframe_of_def sel dblk_def fun_eq_iff)
  have "Pair (log_dev t) ` logged t = {(ROOTDEV, 100)}" using t(2) inv(1) by (simp add: nrep_def brep_def linv_def)
  then have lg: "logged t = {100}" by (auto simp: image_iff set_eq_iff)
  moreover have "card (logged t) = nat (lh_n t)" "0 \<le> lh_n t"
    using inv(1) by (auto simp: logged_def linv_def log_wf_def card_image)
  ultimately have "lh_n t = 1" by simp
  moreover have "dblk l0 ROOTDEV 1 = sb_block" using boot_dblk [of 1 img0 "()"] by (simp add: l0_def img0_def, simp add: const_defs)
  then have "sb_ok t"
    using f lg by (simp add: sb_ok_def Let_def home_def, simp add: const_defs dec_sb_block sb0_def)
  ultimately show ?thesis using inv f by blast
qed

text \<open>C1. A commit is atomic with respect to crashes. It always completes, and whatever prefix of
  its disk writes reaches the drive before the machine stops, the next boot (\<open>initlog\<close>, which
  finds the log through the superblock) returns and leaves every block outside the log as it was
  before the transaction, if the header was not yet written, and with the contents the transaction
  gave it otherwise; the log is empty again.\<close>

theorem commit_crash_atomic:
  assumes "linv s" "held s = {}" "sb_ok s" "0 < lh_n s"
  shows "\<exists>t ws. commit s = Inr ((), t) \<and> dwrites t = dwrites s @ ws \<and> disk t = replay ws (disk s) \<and>
    (\<forall>k s0. boots (replay (take k ws) (disk s)) s0 \<longrightarrow>
      (\<exists>u. initlog (log_dev s) s0 = Inr ((), u) \<and> lh_n u = 0 \<and>
         rd32 (dblk u (log_dev s) (log_start s)) 0 = 0 \<and>
         (\<forall>b. home s b \<longrightarrow> dblk u (log_dev s) b =
           (if k \<le> nat (lh_n s) then dblk s (log_dev s) b else view s (log_dev s) b))))"
proof -
  obtain t where t: "commit s = Inr ((), t)"
    "after (s\<lparr>lh_n := 0\<rparr>) (commit_writes s) (Pair (log_dev s) ` logged s) t"
    using commit_ok [OF assms(1,2,4)] by (auto simp: wp_iff)
  have d: "dwrites t = dwrites s @ phys (commit_writes s)" "disk t = replay (phys (commit_writes s)) (disk s)"
    using t(2) by (auto simp: after_def)
  have "\<exists>u. initlog (log_dev s) s0 = Inr ((), u) \<and> lh_n u = 0 \<and>
         rd32 (dblk u (log_dev s) (log_start s)) 0 = 0 \<and>
         (\<forall>b. home s b \<longrightarrow> dblk u (log_dev s) b =
           (if k \<le> nat (lh_n s) then dblk s (log_dev s) b else view s (log_dev s) b))"
    if "boots (replay (take k (phys (commit_writes s))) (disk s)) s0" for k s0
    using initlog_crash [OF assms(1-3) that] by (auto simp: wp_iff)
  then show ?thesis using t(1) d by blast
qed

theorem commit_crash_atomic_witness:
  "\<exists>(s :: lstate) t ws. linv s \<and> sb_ok s \<and> lh_n s = 1 \<and> commit s = Inr ((), t) \<and> dwrites t = dwrites s @ ws"
proof -
  obtain s :: lstate where s: "linv s" "held s = {}" "sb_ok s" "lh_n s = 1" using one_logged by blast
  then show ?thesis using commit_crash_atomic [of s] by auto
qed

text \<open>C2. When the only open operation ends, everything it logged is on the drive under its home
  address, the log and the set of pinned buffers are empty, and the log is open again.\<close>

theorem end_op_durable:
  assumes "linv s" "held s = {}" "outstanding s = 1" "\<not> committing s"
  shows "\<exists>t. end_op s = Inr ((), t) \<and> linv t \<and> lh_n t = 0 \<and> dkeys t = {} \<and> outstanding t = 0 \<and> \<not> committing t \<and>
    (\<forall>b. home s b \<longrightarrow> dblk t (log_dev s) b = view s (log_dev s) b \<and> view t (log_dev s) b = view s (log_dev s) b)"
  using end_op_ok [OF assms] by (auto simp: wp_iff durable_def)

theorem end_op_durable_witness:
  "\<exists>(s :: lstate) t. lh_n s = 1 \<and> end_op s = Inr ((), t) \<and> lh_n t = 0 \<and> dkeys t = {}"
proof -
  obtain s :: lstate where s: "linv s" "held s = {}" "lh_n s = 1" "outstanding s = 1" "\<not> committing s"
    using one_logged by blast
  then show ?thesis using end_op_durable [of s] by blast
qed

end
